(* ===== verification/Prelude.thy ===== *)
theory Prelude
  imports Main "HOL-Library.Word" "HOL-Library.Monad_Syntax"
begin

text \<open>
  Shared vocabulary of the development: the C integer types of
  \<open>kernel/include/types.h\<close> as machine words, the \<open>option\<close> monad in which
  every kernel routine is written (\<^term>\<open>None\<close> means that the call never returns
  normally: it reached \<open>panic\<close>, it spins for ever, or it left the C abstract machine),
  little-endian encodings, alignment facts on addresses, and the list lemmas the
  components share. The collections \<open>kdefs\<close> (definitions to unfold) and
  \<open>kmem\<close> (memory access rules) are used by all component theories.
\<close>

unbundle bit_operations_syntax

named_theorems kdefs
named_theorems kmem

type_synonym u8 = "8 word"
type_synonym u16 = "16 word"
type_synonym u32 = "32 word"
type_synonym u64 = "64 word"

section \<open>The option monad\<close>

lemma bind_eq_SomeE:
  assumes "Option.bind m f = Some r"
  obtains x where "m = Some x" and "f x = Some r"
  using assms by (cases m) auto

lemma if_Some_eq_Some [simp]:
  "((if c then Some x else None) = Some y) = (c \<and> x = y)"
  by auto

lemma if_None_eq_Some [simp]:
  "((if c then None else m) = Some y) = (\<not> c \<and> m = Some y)"
  by auto

text \<open>A counted \<open>for\<close> loop whose body may panic.\<close>

fun for_each :: "('i \<Rightarrow> 's \<Rightarrow> 's option) \<Rightarrow> 'i list \<Rightarrow> 's \<Rightarrow> 's option" where
  "for_each f [] s = Some s"
| "for_each f (i # is) s = do { s' \<leftarrow> f i s; for_each f is s' }"

lemma for_each_append:
  "for_each f (xs @ ys) s = do { s' \<leftarrow> for_each f xs s; for_each f ys s' }"
  by (induction xs arbitrary: s) (auto split: Option.bind_splits)

text \<open>An invariant of the body is an invariant of the loop, and the loop returns.\<close>

lemma for_each_inv:
  assumes "I s" and "\<And>i s. i \<in> set is \<Longrightarrow> I s \<Longrightarrow> \<exists>s'. f i s = Some s' \<and> I s'"
  shows "\<exists>s'. for_each f is s = Some s' \<and> I s'"
  using assms
proof (induction "is" arbitrary: s)
  case Nil
  then show ?case by simp
next
  case (Cons i "is")
  obtain s' where "f i s = Some s'" "I s'" using Cons.prems by (meson list.set_intros(1))
  moreover have "\<exists>t. for_each f is s' = Some t \<and> I t"
    using Cons.prems(2) \<open>I s'\<close> by (intro Cons.IH) auto
  ultimately show ?case by simp
qed

section \<open>Lists\<close>

lemma nth_upt_map [simp]: "i < n \<Longrightarrow> map f [0..<n] ! i = f i"
  by simp

lemma list_update_same_nth: "xs[i := xs ! i] = xs"
  by simp

lemma set_update_distinct:
  assumes "distinct xs" and "i < length xs"
  shows "set (xs[i := y]) = insert y (set xs - {xs ! i})"
proof -
  have "set (xs[i := y]) = insert y {xs ! j |j. j < length xs \<and> j \<noteq> i}"
    using assms(2) by (auto simp: set_conv_nth nth_list_update)
  also have "{xs ! j |j. j < length xs \<and> j \<noteq> i} = set xs - {xs ! i}"
    using assms by (auto simp: set_conv_nth nth_eq_iff_index_eq)
  finally show ?thesis .
qed

lemma find_map: "List.find P (map f xs) = map_option f (List.find (P \<circ> f) xs)"
  by (induction xs) auto

lemma find_SomeD: "List.find P xs = Some x \<Longrightarrow> x \<in> set xs \<and> P x"
  by (induction xs) (auto split: if_splits)

lemma find_unique:
  assumes "x \<in> set xs" and "P x" and "\<And>y. y \<in> set xs \<Longrightarrow> P y \<Longrightarrow> y = x"
  shows "List.find P xs = Some x"
proof (cases "List.find P xs")
  case None
  then show ?thesis using assms(1,2) by (auto simp: find_None_iff)
next
  case (Some y)
  then show ?thesis using assms(3) [of y] find_SomeD [OF Some] by simp
qed

text \<open>Writing a byte string into the middle of an array, as \<open>memmove\<close> does.\<close>

definition overwrite :: "'a list \<Rightarrow> nat \<Rightarrow> 'a list \<Rightarrow> 'a list" where
  "overwrite xs off ys = take off xs @ ys @ drop (off + length ys) xs"

lemma length_overwrite [simp]:
  "off + length ys \<le> length xs \<Longrightarrow> length (overwrite xs off ys) = length xs"
  by (simp add: overwrite_def)

lemma nth_overwrite:
  assumes "off + length ys \<le> length xs" and "i < length xs"
  shows "overwrite xs off ys ! i =
    (if off \<le> i \<and> i < off + length ys then ys ! (i - off) else xs ! i)"
  using assms by (auto simp: overwrite_def nth_append min_def)

lemma take_drop_overwrite:
  assumes "off + length ys \<le> length xs"
  shows "take (length ys) (drop off (overwrite xs off ys)) = ys"
  using assms by (simp add: overwrite_def)

lemma overwrite_id: "off + n \<le> length xs \<Longrightarrow> overwrite xs off (take n (drop off xs)) = xs"
  by (rule nth_equalityI) (auto simp: nth_overwrite)

section \<open>Little-endian encodings\<close>

definition le_bytes :: "nat \<Rightarrow> 'a::len word \<Rightarrow> u8 list" where
  "le_bytes n w = map (\<lambda>i. ucast (drop_bit (8 * i) w)) [0..<n]"

fun le_word :: "u8 list \<Rightarrow> 'a::len word" where
  "le_word [] = 0"
| "le_word (b # bs) = ucast b OR push_bit 8 (le_word bs)"

lemma length_le_bytes [simp]: "length (le_bytes n w) = n"
  by (simp add: le_bytes_def)

lemma nth_le_bytes [simp]: "i < n \<Longrightarrow> le_bytes n w ! i = ucast (drop_bit (8 * i) w)"
  by (simp add: le_bytes_def)

lemma bit_le_word:
  "bit (le_word bs :: 'a::len word) k \<longleftrightarrow>
     k < LENGTH('a) \<and> k div 8 < length bs \<and> bit (bs ! (k div 8)) (k mod 8)"
proof (induction bs arbitrary: k)
  case Nil
  then show ?case by simp
next
  case (Cons b bs)
  show ?case
  proof (cases "k < 8")
    case True
    then show ?thesis
      by (auto simp: bit_simps)
  next
    case False
    then have k: "k div 8 = Suc ((k - 8) div 8)" "(k - 8) mod 8 = k mod 8"
      by (simp_all add: le_div_geq le_mod_geq)
    have "\<not> bit b k" using False by (auto dest: bit_imp_le_length)
    then show ?thesis
      using False Cons.IH [of "k - 8"] by (auto simp: bit_simps k)
  qed
qed

lemma le_word_le_bytes:
  assumes "LENGTH('a::len) \<le> 8 * n"
  shows "le_word (le_bytes n (w :: 'a word)) = w"
proof (rule bit_word_eqI)
  fix k assume k: "k < LENGTH('a)"
  have "k div 8 < n" using k assms by auto
  then show "bit (le_word (le_bytes n w) :: 'a word) k = bit w k"
    using k by (simp add: bit_le_word bit_simps)
qed

lemma le_bytes_le_word:
  assumes "8 * length bs \<le> LENGTH('a::len)" and "n = length bs"
  shows "le_bytes n (le_word bs :: 'a word) = bs"
proof (rule nth_equalityI)
  show "length (le_bytes n (le_word bs :: 'a word)) = length bs" using assms by simp
next
  fix i assume "i < length (le_bytes n (le_word bs :: 'a word))"
  then have i: "i < length bs" using assms by simp
  show "le_bytes n (le_word bs :: 'a word) ! i = bs ! i"
  proof (rule bit_word_eqI)
    fix k assume "k < LENGTH(8)"
    then have k: "k < 8" by simp
    have "8 * i + k < LENGTH('a)" using assms i k by linarith
    moreover have "(8 * i + k) div 8 = i" "(8 * i + k) mod 8 = k" using k by simp_all
    ultimately show "bit (le_bytes n (le_word bs :: 'a word) ! i) k = bit (bs ! i) k"
      using i k assms(2) by (simp add: bit_le_word bit_simps)
  qed
qed

section \<open>Alignment of 64-bit addresses\<close>

definition aligned :: "nat \<Rightarrow> u64 \<Rightarrow> bool" where
  "aligned n a \<longleftrightarrow> n dvd unat a"

lemma aligned_mono: "aligned n a \<Longrightarrow> k dvd n \<Longrightarrow> aligned k a"
  by (auto simp: aligned_def intro: dvd_trans)

lemma aligned_0 [simp]: "aligned n 0"
  by (simp add: aligned_def)

lemma unat_lt_2p: "unat (a :: u64) < 2 ^ 64"
proof -
  have "unat a < 2 ^ LENGTH(64)" by (rule unsigned_less)
  then show ?thesis by simp
qed

lemma unat_add_small:
  assumes "unat (a :: 'a::len word) + i < 2 ^ LENGTH('a)"
  shows "unat (a + of_nat i) = unat a + i"
proof -
  have "unat (of_nat i :: 'a word) = i" using assms by (simp add: unat_of_nat)
  then show ?thesis using assms by (simp add: unat_word_ariths)
qed

text \<open>An aligned chunk never wraps: its last byte is still below \<open>2 ^ 64\<close>.\<close>

lemma aligned_chunk_bound:
  assumes "aligned n a" and "n dvd 2 ^ 64" and "0 < n"
  shows "unat a + n \<le> 2 ^ 64"
proof -
  obtain q where q: "unat a = n * q" using assms(1) by (auto simp: aligned_def)
  obtain t where t: "2 ^ 64 = n * t" using assms(2) by (auto simp: dvd_def)
  have "unat a < 2 ^ 64" by (rule unat_lt_2p)
  then have "n * q < n * t" using q t by simp
  then have "q < t" by simp
  then have "n * (q + 1) \<le> n * t" by (intro mult_le_mono2) simp
  then show ?thesis using q t by simp
qed

lemma unat_aligned_add:
  assumes "aligned n a" and "n dvd 2 ^ 64" and "i < n"
  shows "unat (a + of_nat i) = unat a + i"
  using aligned_chunk_bound [OF assms(1,2)] assms(3) by (intro unat_add_small) simp

lemma aligned_diff:
  assumes "aligned n a" and "aligned n b" and "n dvd 2 ^ 64"
  shows "aligned n (b - a)"
proof (cases "a \<le> b")
  case True
  then show ?thesis using assms by (simp add: aligned_def unat_sub)
next
  case False
  then have "\<not> unat a \<le> unat b" by (simp add: word_le_nat_alt)
  then have "unat (b - a) = 2 ^ 64 + unat b - unat a"
    by (simp add: unat_sub_if')
  moreover have "unat a \<le> 2 ^ 64 + unat b" using unat_lt_2p [of a] by simp
  ultimately show ?thesis using assms by (auto simp: aligned_def intro!: dvd_diff_nat)
qed

text \<open>Two distinct aligned chunks of the same power-of-two size do not overlap.\<close>

lemma aligned_disjoint:
  assumes "aligned n a" and "aligned n b" and "n dvd 2 ^ 64" and "a \<noteq> b" and "i < n"
  shows "n \<le> unat (b + of_nat i - a)"
proof -
  have al: "aligned n (b - a)" using assms(1-3) by (rule aligned_diff)
  have ne: "unat (b - a) \<noteq> 0" using assms(4) by (simp add: unat_eq_zero)
  have eq: "b + of_nat i - a = (b - a) + of_nat i" by simp
  have "unat (b + of_nat i - a) = unat (b - a) + i"
    unfolding eq by (rule unat_aligned_add [OF al assms(3,5)])
  moreover have "n \<le> unat (b - a)" using al ne by (auto simp: aligned_def dest: dvd_imp_le)
  ultimately show ?thesis by simp
qed

end
