(* ===== verification/Mem.thy ===== *)
theory Mem
  imports Prelude
begin

text \<open>
  Physical memory and the constants of \<open>kernel/include/memlayout.h\<close> and
  \<open>kernel/include/riscv.h\<close>. Physical memory is a byte store indexed by 64-bit
  addresses; the state record \<open>mem_st\<close> carries it together with the head of the
  free-page list and the linker symbols, and is extended by the later components.
  The byte loops \<open>memset\<close> (\<open>kernel/proc/proc.c\<close>) and \<open>memmove\<close>
  (\<open>kernel/mm/vm.c\<close>) are modelled as written and shown equal to one-shot updates.
\<close>

section \<open>Constants and address macros\<close>

definition PGSIZE :: u64 where [kdefs]: "PGSIZE = 4096"
definition KERNBASE :: u64 where [kdefs]: "KERNBASE = 0x80000000"
definition PHYSTOP :: u64 where [kdefs]: "PHYSTOP = KERNBASE + 128 * 1024 * 1024"
definition MAXVA :: u64 where [kdefs]: "MAXVA = push_bit (9 + 9 + 9 + 12 - 1) 1"
definition UART0 :: u64 where [kdefs]: "UART0 = 0x10000000"
definition VIRTIO0 :: u64 where [kdefs]: "VIRTIO0 = 0x10001000"
definition PLIC :: u64 where [kdefs]: "PLIC = 0x0c000000"

definition PGROUNDUP :: "u64 \<Rightarrow> u64" where
  "PGROUNDUP sz = (sz + PGSIZE - 1) AND NOT (PGSIZE - 1)"

definition PGROUNDDOWN :: "u64 \<Rightarrow> u64" where
  "PGROUNDDOWN a = a AND NOT (PGSIZE - 1)"

definition PTE_V :: u64 where [kdefs]: "PTE_V = push_bit 0 1"
definition PTE_R :: u64 where [kdefs]: "PTE_R = push_bit 1 1"
definition PTE_W :: u64 where [kdefs]: "PTE_W = push_bit 2 1"
definition PTE_X :: u64 where [kdefs]: "PTE_X = push_bit 3 1"
definition PTE_U :: u64 where [kdefs]: "PTE_U = push_bit 4 1"

definition PX :: "nat \<Rightarrow> u64 \<Rightarrow> u64" where
  "PX level va = drop_bit (12 + 9 * level) va AND 0x1FF"

definition PA2PTE :: "u64 \<Rightarrow> u64" where
  "PA2PTE pa = push_bit 10 (drop_bit 12 pa)"

definition PTE2PA :: "u64 \<Rightarrow> u64" where
  "PTE2PA pte = push_bit 12 (drop_bit 10 pte)"

definition PTE_FLAGS :: "u64 \<Rightarrow> u64" where
  "PTE_FLAGS pte = pte AND 0x3FF"

definition MAKE_SATP :: "u64 \<Rightarrow> u64" where
  "MAKE_SATP pagetable = push_bit 60 8 OR drop_bit 12 pagetable"

section \<open>The byte store\<close>

type_synonym mem = "u64 \<Rightarrow> u8"

record mem_st =
  pmem :: mem                \<comment> \<open>physical memory\<close>
  free_mem_list :: u64       \<comment> \<open>head pointer of the free-page list, 0 for NULL\<close>
  end_address :: u64         \<comment> \<open>linker symbol: end of the kernel image\<close>
  etext :: u64               \<comment> \<open>linker symbol: end of the kernel text\<close>
  userret :: u64             \<comment> \<open>address of the assembly return path (userret.S)\<close>
  uservec :: u64             \<comment> \<open>address of the assembly entry path (trampoline.S)\<close>
  kernel_pagetable :: u64    \<comment> \<open>root of the kernel page table\<close>

definition mem_read :: "mem \<Rightarrow> u64 \<Rightarrow> nat \<Rightarrow> u8 list" where
  "mem_read m a n = map (\<lambda>i. m (a + of_nat i)) [0..<n]"

definition mem_write :: "mem \<Rightarrow> u64 \<Rightarrow> u8 list \<Rightarrow> mem" where
  "mem_write m a bs =
     (\<lambda>x. if unat (x - a) < length bs then bs ! unat (x - a) else m x)"

definition load64 :: "mem \<Rightarrow> u64 \<Rightarrow> u64" where
  "load64 m a = le_word (mem_read m a 8)"

definition store64 :: "mem \<Rightarrow> u64 \<Rightarrow> u64 \<Rightarrow> mem" where
  "store64 m a v = mem_write m a (le_bytes 8 v)"

lemma length_mem_read [simp]: "length (mem_read m a n) = n"
  by (simp add: mem_read_def)

lemma nth_mem_read [simp]: "i < n \<Longrightarrow> mem_read m a n ! i = m (a + of_nat i)"
  by (simp add: mem_read_def)

lemma unat_of_nat_small: "i < 2 ^ 64 \<Longrightarrow> unat (of_nat i :: u64) = i"
  by (simp add: unat_of_nat)

lemma mem_write_in:
  "i < length bs \<Longrightarrow> i < 2 ^ 64 \<Longrightarrow> mem_write m a bs (a + of_nat i) = bs ! i"
  by (simp add: mem_write_def unat_of_nat_small)

lemma mem_write_out:
  "length bs \<le> unat (x - a) \<Longrightarrow> mem_write m a bs x = m x"
  by (simp add: mem_write_def)

lemma mem_write_Nil [simp]: "mem_write m a [] = m"
  by (simp add: mem_write_def)

lemma mem_read_cong:
  "(\<And>i. i < n \<Longrightarrow> m (a + of_nat i) = m' (a + of_nat i)) \<Longrightarrow> mem_read m a n = mem_read m' a n"
  by (simp add: mem_read_def)

lemma mem_read_write_same [kmem]:
  "length bs < 2 ^ 64 \<Longrightarrow> mem_read (mem_write m a bs) a (length bs) = bs"
  by (rule nth_equalityI) (auto simp: mem_write_in)

lemma mem_read_write_other:
  assumes "\<And>i. i < n \<Longrightarrow> length bs \<le> unat (b + of_nat i - a)"
  shows "mem_read (mem_write m a bs) b n = mem_read m b n"
  using assms by (intro mem_read_cong) (simp add: mem_write_out)

lemma mem_read_append:
  "mem_read m a (n + k) = mem_read m a n @ mem_read m (a + of_nat n) k"
  by (rule nth_equalityI) (auto simp: nth_append add.assoc simp flip: of_nat_add)

lemma load_store_same [simp]: "load64 (store64 m a v) a = v"
  using mem_read_write_same [of "le_bytes 8 v" m a]
  by (simp add: load64_def store64_def le_word_le_bytes)

lemma load_store_other:
  assumes "aligned 8 a" and "aligned 8 b" and "a \<noteq> b"
  shows "load64 (store64 m a v) b = load64 m b"
proof -
  have "mem_read (mem_write m a (le_bytes 8 v)) b 8 = mem_read m b 8"
    by (rule mem_read_write_other) (use assms aligned_disjoint [of 8 a b] in simp)
  then show ?thesis by (simp add: load64_def store64_def)
qed

section \<open>The byte loops \<open>memset\<close> and \<open>memmove\<close>\<close>

definition memset :: "mem \<Rightarrow> u64 \<Rightarrow> u8 \<Rightarrow> nat \<Rightarrow> mem" where
  "memset m dst v n = fold (\<lambda>i m. m(dst + of_nat i := v)) [0..<n] m"

definition copy_byte :: "u64 \<Rightarrow> u64 \<Rightarrow> nat \<Rightarrow> mem \<Rightarrow> mem" where
  "copy_byte d s i m = m(d + of_nat i := m (s + of_nat i))"

definition memmove :: "mem \<Rightarrow> u64 \<Rightarrow> u64 \<Rightarrow> nat \<Rightarrow> mem" where
  "memmove m d s n =
     (if d = s \<or> n = 0 then m
      else if d < s
      then fold (copy_byte d s) [0..<n] m
      else fold (copy_byte d s) (rev [0..<n]) m)"

lemma of_nat_diff_unat: "unat (x - d) = k \<Longrightarrow> x = d + of_nat k" for x d :: u64
  by (drule sym) simp

lemma unat_diff_iff: "k < 2 ^ 64 \<Longrightarrow> unat (x - d) = k \<longleftrightarrow> x = d + of_nat k" for x d :: u64
  by (auto simp: unat_of_nat_small dest: of_nat_diff_unat)

lemma mem_write_snoc:
  assumes "length bs < 2 ^ 64"
  shows "(mem_write m d bs)(d + of_nat (length bs) := v) = mem_write m d (bs @ [v])"
  using unat_diff_iff [OF assms] assms
  by (auto simp: mem_write_def nth_append less_Suc_eq fun_eq_iff unat_of_nat_small)

lemma mem_write_Cons:
  assumes "length bs < 2 ^ 64"
  shows "(mem_write m (d + 1) bs)(d := v) = mem_write m d (v # bs)"
proof
  fix x
  show "((mem_write m (d + 1) bs)(d := v)) x = mem_write m d (v # bs) x"
  proof (cases "x = d")
    case True
    then show ?thesis by (simp add: mem_write_def)
  next
    case False
    then have "x - d \<noteq> 0" by simp
    then have "unat (x - d - 1) = unat (x - d) - 1" and "unat (x - d) \<noteq> 0"
      by (simp_all only: unat_minus_one unat_eq_zero not_False_eq_True)
    then have "unat (x - d) = Suc (unat (x - d - 1))" by simp
    moreover have "x - (d + 1) = x - d - 1" by (simp add: diff_diff_eq)
    ultimately show ?thesis using False by (simp only: mem_write_def fun_upd_apply) simp
  qed
qed

lemma memset_eq: "n \<le> 2 ^ 64 \<Longrightarrow> memset m dst v n = mem_write m dst (replicate n v)"
proof (induction n)
  case 0
  then show ?case by (simp add: memset_def)
next
  case (Suc n)
  have "memset m dst v (Suc n) = (mem_write m dst (replicate n v))(dst + of_nat n := v)"
    using Suc by (simp add: memset_def)
  also have "\<dots> = mem_write m dst (replicate n v @ [v])"
    using mem_write_snoc [of "replicate n v" m dst v] Suc.prems by simp
  also have "replicate n v @ [v] = replicate (Suc n) v" by (simp add: replicate_append_same)
  finally show ?case .
qed

text \<open>Where the byte read next lies with respect to the part already written.\<close>

lemma forward_read_ok:
  fixes d s :: u64
  assumes "d < s" and "unat s + n \<le> 2 ^ 64" and "k < n"
  shows "k \<le> unat (s + of_nat k - d)"
proof -
  have eq: "s + of_nat k - d = (s - d) + of_nat k" by simp
  have sd: "unat (s - d) = unat s - unat d" using assms(1) by (simp add: unat_sub)
  show ?thesis unfolding eq using assms sd by (subst unat_add_small) auto
qed

lemma backward_read_ok:
  fixes d s :: u64
  assumes "s < d" and "unat d + n \<le> 2 ^ 64" and "j < n"
  shows "n - Suc j \<le> unat (s + of_nat j - (d + of_nat (Suc j)))"
proof -
  have eq: "s + of_nat j - (d + of_nat (Suc j)) = s - (d + 1)" by simp
  have lt: "unat s < unat d" using assms(1) by (simp add: word_less_nat_alt)
  have "unat (s - (d + 1)) = 2 ^ 64 + unat s - (unat d + 1)"
  proof (cases "unat d + 1 < 2 ^ 64")
    case True
    then have "unat (d + 1) = unat d + 1" using unat_add_small [of d 1] by simp
    then show ?thesis using lt by (simp add: unat_sub_if')
  next
    case False
    then have "unat d + 1 = 2 ^ 64" using unat_lt_2p [of d] by simp
    then have "d + 1 = 0" by (simp add: unat_eq_zero [symmetric] unat_word_ariths)
    then show ?thesis using \<open>unat d + 1 = 2 ^ 64\<close> by simp
  qed
  then show ?thesis unfolding eq using assms(2,3) lt by simp
qed

lemma memmove_forward:
  assumes "d < s" and "unat s + n \<le> 2 ^ 64" and "k \<le> n"
  shows "fold (copy_byte d s) [0..<k] m
    = mem_write m d (mem_read m s k)"
  using assms(3)
proof (induction k)
  case 0
  then show ?case by (simp add: mem_read_def)
next
  case (Suc k)
  let ?w = "mem_write m d (mem_read m s k)"
  have "?w (s + of_nat k) = m (s + of_nat k)"
    using forward_read_ok [OF assms(1,2)] Suc.prems by (intro mem_write_out) simp
  moreover have "k < 2 ^ 64" using Suc.prems assms(2) by simp
  ultimately have "copy_byte d s k ?w = mem_write m d (mem_read m s (Suc k))"
    using mem_write_snoc [of "mem_read m s k" m d] by (simp add: mem_read_def copy_byte_def)
  then show ?case using Suc by simp
qed

lemma memmove_backward:
  assumes "s < d" and "unat d + n \<le> 2 ^ 64" and "j \<le> n"
  shows "fold (copy_byte d s) (rev [j..<n]) m
    = mem_write m (d + of_nat j) (mem_read m (s + of_nat j) (n - j))"
  using assms(3)
proof (induction "n - j" arbitrary: j)
  case 0
  then show ?case by (simp add: mem_read_def)
next
  case (Suc r)
  let ?w = "mem_write m (d + of_nat (Suc j)) (mem_read m (s + of_nat (Suc j)) (n - Suc j))"
  have j: "j < n" using Suc.hyps(2) by simp
  have up: "rev [j..<n] = rev [Suc j..<n] @ [j]" using j by (simp add: upt_conv_Cons)
  have rd: "mem_read m (s + of_nat j) (n - j)
      = m (s + of_nat j) # mem_read m (s + of_nat (Suc j)) (n - Suc j)"
  proof -
    have "n - j = Suc (n - Suc j)" using j by simp
    then show ?thesis by (simp add: mem_read_def map_upt_Suc ac_simps del: upt_Suc)
  qed
  have "?w (s + of_nat j) = m (s + of_nat j)"
    using backward_read_ok [OF assms(1,2) j] by (intro mem_write_out) simp
  then have "copy_byte d s j ?w
      = mem_write m (d + of_nat j) (mem_read m (s + of_nat j) (n - j))"
    using mem_write_Cons [of "mem_read m (s + of_nat (Suc j)) (n - Suc j)" m "d + of_nat j"]
      assms(2) j by (simp add: rd ac_simps copy_byte_def)
  moreover have "fold (copy_byte d s) (rev [Suc j..<n]) m = ?w"
    using Suc.hyps j by (intro Suc.hyps(1)) auto
  ultimately show ?case by (simp add: up)
qed

lemma memmove_eq:
  assumes "unat d + n \<le> 2 ^ 64" and "unat s + n \<le> 2 ^ 64"
  shows "memmove m d s n = mem_write m d (mem_read m s n)"
proof -
  consider "d = s" | "n = 0" | "d < s" "n \<noteq> 0" "d \<noteq> s" | "s < d" "n \<noteq> 0" "d \<noteq> s"
    by (metis linorder_neqE)
  then show ?thesis
  proof cases
    case 1
    have "mem_write m d (mem_read m d n) = m"
      using unat_lt_2p
      by (auto simp: mem_write_def fun_eq_iff)
    then show ?thesis using 1 by (simp add: memmove_def)
  next
    case 2
    then show ?thesis by (simp add: memmove_def mem_read_def)
  next
    case 3
    then show ?thesis using memmove_forward [OF _ assms(2) order_refl] by (simp add: memmove_def)
  next
    case 4
    then show ?thesis using memmove_backward [OF _ assms(1), of s 0]
      by (simp add: memmove_def order_less_not_sym)
  qed
qed

section \<open>Properties\<close>

text \<open>
  Property C29 (equivalence). \<open>memmove\<close> copies correctly even when source and
  destination overlap, in either direction: afterwards the destination holds what the
  source held before, and no byte outside the destination has changed. The regions must
  not wrap around the end of the address space.
\<close>

theorem memmove_correct:
  assumes "unat d + n \<le> 2 ^ 64" and "unat s + n \<le> 2 ^ 64"
  shows "mem_read (memmove m d s n) d n = mem_read m s n \<and>
    (\<forall>x. n \<le> unat (x - d) \<longrightarrow> memmove m d s n x = m x)"
proof -
  have "mem_read (mem_write m d (mem_read m s n)) d n = mem_read m s n"
    by (rule nth_equalityI) (use assms(1) in \<open>auto simp: mem_write_in\<close>)
  then show ?thesis by (simp add: memmove_eq [OF assms] mem_write_out)
qed

theorem memmove_correct_witness:
  "unat (1 :: u64) + 2 \<le> 2 ^ 64 \<and> unat (0 :: u64) + 2 \<le> 2 ^ 64 \<and>
   mem_read (memmove (\<lambda>a. ucast a) 1 0 2) 1 2 = [0, 1] \<and>
   memmove (\<lambda>a. ucast a) 1 0 2 (5 :: u64) = 5"
proof -
  have h: "unat (1 :: u64) + 2 \<le> 2 ^ 64" "unat (0 :: u64) + 2 \<le> 2 ^ 64" by simp_all
  have far: "2 \<le> unat (5 - 1 :: u64)" by simp
  show ?thesis
    using h far memmove_correct [OF h, of "\<lambda>a. ucast a"]
    by (auto simp: mem_read_def upt_rec)
qed

end
