(* ===== verification/Kalloc.thy ===== *)
theory Kalloc
  imports Mem
begin

text \<open>
  The physical page allocator of \<open>kernel/mm/kalloc.c\<close>. The free list is threaded
  through the first eight bytes of the free pages themselves, so the model reads and
  writes the links in physical memory. \<open>flist\<close> relates the pointer chain to an
  abstract list of pages; \<open>page_allocator\<close> is the contract the virtual-memory code
  relies on, and the interpretation at the end discharges it for \<open>kalloc\<close> and
  \<open>kfree\<close>.
\<close>

section \<open>Operations\<close>

definition kfree :: "'a mem_st_scheme \<Rightarrow> u64 \<Rightarrow> 'a mem_st_scheme option" where
  "kfree s pa =
     (if pa mod PGSIZE \<noteq> 0 \<or> pa < end_address s \<or> PHYSTOP \<le> pa
      then None  \<comment> \<open>panic: kfree: invalid address\<close>
      else Some (s\<lparr>pmem := store64 (pmem s) pa (free_mem_list s), free_mem_list := pa\<rparr>))"

definition kalloc :: "'a mem_st_scheme \<Rightarrow> u64 \<times> 'a mem_st_scheme" where
  "kalloc s =
     (if free_mem_list s = 0 then (0, s)
      else (free_mem_list s,
            s\<lparr>free_mem_list := load64 (pmem s) (free_mem_list s)\<rparr>))"

lemma kfree_SomeD:
  "kfree s p = Some s' \<Longrightarrow> p < PHYSTOP \<and> end_address s \<le> p \<and> p mod PGSIZE = 0"
  by (auto simp: kfree_def split: if_splits)

function kinit_loop :: "'a mem_st_scheme \<Rightarrow> u64 \<Rightarrow> 'a mem_st_scheme option" where
  "kinit_loop s p =
     (if p + PGSIZE \<le> PHYSTOP
      then do { s' \<leftarrow> kfree s p; kinit_loop s' (p + PGSIZE) }
      else Some s)"
  by pat_completeness auto
termination
proof (relation "measure (\<lambda>(s, p). unat PHYSTOP - unat p)")
  fix s :: "'a mem_st_scheme" and p s'
  assume "kfree s p = Some s'"
  then have "p < PHYSTOP" by (blast dest: kfree_SomeD)
  then have lt: "unat p < unat PHYSTOP" by (simp add: word_less_nat_alt)
  moreover have "unat (p + PGSIZE) = unat p + 4096"
    using lt by (subst unat_plus_simple [THEN iffD1]) (auto simp: kdefs word_le_nat_alt unat_plus_if')
  ultimately show "((s', p + PGSIZE), (s, p)) \<in> measure (\<lambda>(s, p). unat PHYSTOP - unat p)"
    by simp
qed simp

declare kinit_loop.simps [simp del]

definition kinit :: "'a mem_st_scheme \<Rightarrow> 'a mem_st_scheme option" where
  "kinit s = kinit_loop s (PGROUNDUP (end_address s))"

section \<open>The abstract free list\<close>

fun flist :: "mem \<Rightarrow> u64 \<Rightarrow> u64 list \<Rightarrow> bool" where
  "flist m p [] \<longleftrightarrow> p = 0"
| "flist m p (x # xs) \<longleftrightarrow> p = x \<and> flist m (load64 m x) xs"

definition managed :: "'a mem_st_scheme \<Rightarrow> u64 \<Rightarrow> bool" where
  "managed s x \<longleftrightarrow> x mod PGSIZE = 0 \<and> end_address s \<le> x \<and> x < PHYSTOP"

definition free_pages :: "'a mem_st_scheme \<Rightarrow> u64 list \<Rightarrow> bool" where
  "free_pages s xs \<longleftrightarrow>
     0 < end_address s \<and> flist (pmem s) (free_mem_list s) xs \<and> distinct xs \<and>
     (\<forall>x \<in> set xs. managed s x)"

lemma mod_PGSIZE_iff: "x mod PGSIZE = 0 \<longleftrightarrow> aligned 4096 x"
proof -
  have "unat (x mod PGSIZE) = unat x mod 4096" by (simp add: PGSIZE_def unat_mod_distrib)
  then show ?thesis by (metis aligned_def dvd_eq_mod_eq_0 unat_eq_zero)
qed

lemma managed_cong: "end_address s' = end_address s \<Longrightarrow> managed s' = managed s"
  by (rule ext) (simp add: managed_def)

lemma managed_aligned: "managed s x \<Longrightarrow> aligned 4096 x"
  by (simp add: managed_def mod_PGSIZE_iff)

lemma managed_aligned8: "managed s x \<Longrightarrow> aligned 8 x"
  by (rule aligned_mono [OF managed_aligned]) auto

lemma managed_nonnull: "managed s x \<Longrightarrow> 0 < end_address s \<Longrightarrow> x \<noteq> 0"
  by (auto simp: managed_def)

lemma flist_store:
  assumes "flist m p xs" and "a \<notin> set xs" and "aligned 8 a" and "\<forall>x \<in> set xs. aligned 8 x"
  shows "flist (store64 m a v) p xs"
  using assms by (induction xs arbitrary: p) (auto simp: load_store_other)

lemma flist_cong:
  assumes "flist m p xs" and "\<And>x. x \<in> set xs \<Longrightarrow> load64 m' x = load64 m x"
  shows "flist m' p xs"
  using assms by (induction xs arbitrary: p) auto

lemma free_pages_Nil: "free_pages s [] \<Longrightarrow> kalloc s = (0, s)"
  by (simp add: free_pages_def kalloc_def)

lemma free_pages_Cons:
  assumes "free_pages s (x # xs)"
  shows "kalloc s = (x, s\<lparr>free_mem_list := load64 (pmem s) x\<rparr>)"
    and "free_pages (snd (kalloc s)) xs"
proof -
  have x: "free_mem_list s = x" "x \<noteq> 0" "flist (pmem s) (load64 (pmem s) x) xs"
    using assms managed_nonnull [of s x] by (auto simp: free_pages_def)
  then show k: "kalloc s = (x, s\<lparr>free_mem_list := load64 (pmem s) x\<rparr>)"
    by (simp add: kalloc_def)
  show "free_pages (snd (kalloc s)) xs"
    using assms x unfolding k by (simp add: free_pages_def managed_def)
qed

lemma kfree_managed:
  assumes "free_pages s xs" and "managed s p" and "p \<notin> set xs"
  shows "kfree s p = Some (s\<lparr>pmem := store64 (pmem s) p (free_mem_list s), free_mem_list := p\<rparr>)"
    and "free_pages (s\<lparr>pmem := store64 (pmem s) p (free_mem_list s), free_mem_list := p\<rparr>) (p # xs)"
proof -
  show "kfree s p = Some (s\<lparr>pmem := store64 (pmem s) p (free_mem_list s), free_mem_list := p\<rparr>)"
    using assms(2) by (auto simp: kfree_def managed_def)
  have "flist (store64 (pmem s) p (free_mem_list s)) (free_mem_list s) xs"
    using assms managed_aligned8 by (intro flist_store) (auto simp: free_pages_def)
  then show "free_pages (s\<lparr>pmem := store64 (pmem s) p (free_mem_list s),
      free_mem_list := p\<rparr>) (p # xs)"
    using assms by (auto simp: free_pages_def managed_def)
qed

section \<open>Boot: every page above the kernel image becomes free\<close>

definition boot_pages :: "u64 \<Rightarrow> u64 list" where
  "boot_pages a = map (\<lambda>i. a + of_nat (4096 * i)) [0..<(unat PHYSTOP - unat a) div 4096]"

lemma unat_PHYSTOP: "unat PHYSTOP = 0x88000000"
  by (simp add: kdefs)

lemma boot_pages_step:
  assumes "p + PGSIZE \<le> PHYSTOP" and "p < PHYSTOP"
  shows "boot_pages p = p # boot_pages (p + PGSIZE)" and "unat (p + PGSIZE) = unat p + 4096"
proof -
  have lt: "unat p < 0x88000000" using assms(2) by (simp add: word_less_nat_alt unat_PHYSTOP)
  show u: "unat (p + PGSIZE) = unat p + 4096"
    using lt unat_add_small [of p 4096] by (simp add: PGSIZE_def)
  then have le: "unat p + 4096 \<le> 0x88000000"
    using assms(1) by (simp add: word_le_nat_alt unat_PHYSTOP)
  define n where "n = (0x88000000 - (unat p + 4096)) div 4096"
  have "(0x88000000 - unat p) div 4096 = Suc n"
    unfolding n_def using le by (simp add: le_div_geq)
  then show "boot_pages p = p # boot_pages (p + PGSIZE)"
    using u by (simp add: boot_pages_def unat_PHYSTOP n_def map_upt_Suc PGSIZE_def add.assoc
        del: upt_Suc)
qed

lemma kinit_loop_ok:
  assumes "free_pages s xs" and "aligned 4096 p" and "end_address s \<le> p" and "p \<le> PHYSTOP"
    and "\<forall>x \<in> set xs. x < p"
  shows "\<exists>s'. kinit_loop s p = Some s' \<and> free_pages s' (rev (boot_pages p) @ xs) \<and>
           end_address s' = end_address s"
  using assms
proof (induction s p arbitrary: xs rule: kinit_loop.induct)
  case (1 s p)
  show ?case
  proof (cases "p + PGSIZE \<le> PHYSTOP \<and> p < PHYSTOP")
    case True
    note step = boot_pages_step [OF conjunct1 [OF True] conjunct2 [OF True]]
    have man: "managed s p" using True 1(3,4) by (simp add: managed_def mod_PGSIZE_iff)
    moreover have "p \<notin> set xs" using 1(6) by auto
    ultimately obtain s' where s': "kfree s p = Some s'" and fp: "free_pages s' (p # xs)"
      and e: "end_address s' = end_address s"
      using kfree_managed [OF 1(2)] by auto
    have "aligned 4096 (p + PGSIZE)" using 1(3) step(2) by (simp add: aligned_def)
    moreover have "p < p + PGSIZE" using step(2) by (simp add: word_less_nat_alt)
    ultimately have "\<exists>t. kinit_loop s' (p + PGSIZE) = Some t \<and>
        free_pages t (rev (boot_pages (p + PGSIZE)) @ p # xs) \<and> end_address t = end_address s'"
      using True s' fp e 1(4,6) by (intro 1(1)) auto
    then show ?thesis using True s' e by (auto simp: kinit_loop.simps [of s p] step(1))
  next
    case False
    have stop: "\<not> p + PGSIZE \<le> PHYSTOP"
    proof
      assume a: "p + PGSIZE \<le> PHYSTOP"
      with False 1(5) have "p = PHYSTOP" by auto
      with a show False by (simp add: kdefs)
    qed
    have "(unat PHYSTOP - unat p) div 4096 = 0"
    proof -
      have "unat p \<le> 0x88000000" using 1(5) by (simp add: word_le_nat_alt unat_PHYSTOP)
      then have "unat (p + PGSIZE) = unat p + 4096"
        using unat_add_small [of p 4096] by (simp add: PGSIZE_def)
      then show ?thesis using stop by (simp add: word_le_nat_alt unat_PHYSTOP)
    qed
    then show ?thesis using stop 1(2) by (auto simp: kinit_loop.simps [of s p] boot_pages_def)
  qed
qed

lemma unat_and_not_mask:
  "unat ((x :: u64) AND NOT (PGSIZE - 1)) = unat x - unat x mod 4096"
proof -
  have m: "PGSIZE - 1 = mask 12" by (simp add: PGSIZE_def mask_eq_exp_minus_1)
  have "(x AND mask 12) + (x AND NOT (mask 12)) = (x AND mask 12) OR (x AND NOT (mask 12))"
    by (rule disjunctive_add_eq_or) (auto intro!: bit_word_eqI simp: bit_simps)
  also have "\<dots> = x" by (auto intro!: bit_word_eqI simp: bit_simps)
  finally have "x AND NOT (mask 12) = x - (x AND mask 12)" by (simp add: eq_diff_eq add.commute)
  also have "x AND mask 12 = take_bit 12 x" by (simp add: take_bit_eq_mask)
  finally have "x AND NOT (mask 12) = x - take_bit 12 x" .
  moreover have "unat (take_bit 12 x) = unat x mod 4096"
    by (simp add: take_bit_eq_mod unat_mod_distrib)
  moreover have "take_bit 12 x \<le> x" by (simp add: word_le_nat_alt calculation(2))
  ultimately show ?thesis by (simp add: m unat_sub)
qed

lemma PGROUNDUP_props:
  assumes "a \<le> PHYSTOP"
  shows "aligned 4096 (PGROUNDUP a)" and "a \<le> PGROUNDUP a" and "PGROUNDUP a \<le> PHYSTOP"
proof -
  have a: "unat a \<le> 0x88000000" using assms by (simp add: word_le_nat_alt unat_PHYSTOP)
  have "a + PGSIZE - 1 = a + of_nat 4095" by (simp add: PGSIZE_def)
  then have "unat (a + PGSIZE - 1) = unat a + 4095"
    using a unat_add_small [of a 4095] by (simp only:) simp
  then have u: "unat (PGROUNDUP a) = (unat a + 4095) - (unat a + 4095) mod 4096"
    by (simp add: PGROUNDUP_def unat_and_not_mask)
  show "aligned 4096 (PGROUNDUP a)" by (simp add: aligned_def u dvd_minus_mod)
  show "a \<le> PGROUNDUP a" by (simp add: word_le_nat_alt u)
  have "(unat a + 4095) div 4096 \<le> (0x88000000 + 4095) div 4096"
    by (rule div_le_mono) (use a in simp)
  then have "4096 * ((unat a + 4095) div 4096) \<le> 0x88000000" by simp
  then show "PGROUNDUP a \<le> PHYSTOP"
    by (simp add: word_le_nat_alt u unat_PHYSTOP minus_mod_eq_mult_div)
qed

lemma PGROUNDUP_least:
  assumes "e \<le> PHYSTOP" and "aligned 4096 y" and "e \<le> y"
  shows "PGROUNDUP e \<le> y"
proof -
  have e: "unat e \<le> 0x88000000" using assms(1) by (simp add: word_le_nat_alt unat_PHYSTOP)
  have "e + PGSIZE - 1 = e + of_nat 4095" by (simp add: PGSIZE_def)
  then have "unat (e + PGSIZE - 1) = unat e + 4095"
    using e unat_add_small [of e 4095] by (simp only:) simp
  then have u: "unat (PGROUNDUP e) = 4096 * ((unat e + 4095) div 4096)"
    by (simp add: PGROUNDUP_def unat_and_not_mask minus_mod_eq_mult_div)
  obtain j where j: "unat y = 4096 * j" using assms(2) unfolding aligned_def dvd_def by blast
  have "unat e \<le> 4096 * j" using assms(3) j by (simp add: word_le_nat_alt)
  then have "(unat e + 4095) div 4096 \<le> (4096 * j + 4095) div 4096" by (intro div_le_mono) simp
  then show ?thesis by (simp add: word_le_nat_alt u j)
qed

section \<open>The contract of a page allocator\<close>

text \<open>
  What the clients of the allocator rely on. \<open>pages s xs\<close> relates a state to the
  list of pages that are free in it, in allocation order.
\<close>

locale page_allocator =
  fixes alloc :: "'s \<Rightarrow> u64 \<times> 's"
    and dealloc :: "'s \<Rightarrow> u64 \<Rightarrow> 's option"
    and pages :: "'s \<Rightarrow> u64 list \<Rightarrow> bool"
    and valid :: "'s \<Rightarrow> u64 \<Rightarrow> bool"
  assumes alloc_Nil: "pages s [] \<Longrightarrow> alloc s = (0, s)"
    and alloc_Cons: "pages s (x # xs) \<Longrightarrow> \<exists>s'. alloc s = (x, s') \<and> pages s' xs"
    and alloc_valid: "alloc s = (x, s') \<Longrightarrow> valid s' = valid s"
    and dealloc_ok: "pages s xs \<Longrightarrow> valid s p \<Longrightarrow> p \<notin> set xs \<Longrightarrow>
          \<exists>s'. dealloc s p = Some s' \<and> pages s' (p # xs)"
    and dealloc_valid: "dealloc s p = Some s' \<Longrightarrow> valid s' = valid s"
    and dealloc_invalid: "\<not> valid s p \<Longrightarrow> dealloc s p = None"
    and pages_distinct: "pages s xs \<Longrightarrow> distinct xs"
    and pages_valid: "pages s xs \<Longrightarrow> x \<in> set xs \<Longrightarrow> valid s x \<and> x \<noteq> 0"
begin

lemma alloc_cases:
  assumes "pages s xs"
  shows "(xs = [] \<and> alloc s = (0, s)) \<or>
    (\<exists>x ys s'. xs = x # ys \<and> alloc s = (x, s') \<and> pages s' ys \<and> x \<notin> set ys \<and> x \<noteq> 0)"
proof (cases xs)
  case Nil
  then show ?thesis using assms alloc_Nil by simp
next
  case (Cons x ys)
  then show ?thesis using assms alloc_Cons [of s x ys] pages_distinct [OF assms]
      pages_valid [OF assms, of x] by auto
qed

text \<open>Freeing a page just allocated gives back the same free list.\<close>

lemma alloc_dealloc:
  assumes "pages s (x # xs)" and "alloc s = (x, s')"
  shows "\<exists>s''. dealloc s' x = Some s'' \<and> pages s'' (x # xs)"
proof -
  have "pages s' xs" using alloc_Cons [OF assms(1)] assms(2) by auto
  moreover have "valid s' x"
    using pages_valid [OF assms(1), of x] alloc_valid [OF assms(2)] by simp
  ultimately show ?thesis using pages_distinct [OF assms(1)] dealloc_ok [of s' xs x] by auto
qed

end

interpretation kpages: page_allocator kalloc kfree free_pages managed
proof unfold_locales
  show "kalloc s = (0, s)" if "free_pages s []" for s :: "'a mem_st_scheme"
    using that by (rule free_pages_Nil)
  show "\<exists>s'. kalloc s = (x, s') \<and> free_pages s' xs" if "free_pages s (x # xs)"
    for s :: "'a mem_st_scheme" and x xs
    using free_pages_Cons [OF that] by simp
  show "managed s' = managed s" if "kalloc s = (x, s')" for s s' :: "'a mem_st_scheme" and x
    using that by (intro managed_cong) (auto simp: kalloc_def split: if_splits)
  show "\<exists>s'. kfree s p = Some s' \<and> free_pages s' (p # xs)"
    if "free_pages s xs" "managed s p" "p \<notin> set xs" for s :: "'a mem_st_scheme" and xs p
    using kfree_managed [OF that] by blast
  show "managed s' = managed s" if "kfree s p = Some s'" for s s' :: "'a mem_st_scheme" and p
    using that by (intro managed_cong) (auto simp: kfree_def split: if_splits)
  show "kfree s p = None" if "\<not> managed s p" for s :: "'a mem_st_scheme" and p
    using that by (metis kfree_SomeD managed_def not_None_eq)
  show "distinct xs" if "free_pages s xs" for s :: "'a mem_st_scheme" and xs
    using that by (simp add: free_pages_def)
  show "managed s x \<and> x \<noteq> 0" if "free_pages s xs" "x \<in> set xs"
    for s :: "'a mem_st_scheme" and xs x
    using that by (auto simp: free_pages_def dest: managed_nonnull)
qed

section \<open>Clients that free only what they own\<close>

text \<open>
  A run of the allocator from boot: the set of pages handed out and not yet returned is
  the ghost component. A client may free any page it owns.
\<close>

inductive page_run :: "mem_st \<Rightarrow> u64 set \<Rightarrow> mem_st \<Rightarrow> bool" for s0 where
  boot: "kinit s0 = Some s \<Longrightarrow> page_run s0 {} s"
| alloc: "page_run s0 own s \<Longrightarrow> kalloc s = (p, s') \<Longrightarrow> p \<noteq> 0 \<Longrightarrow>
     page_run s0 (insert p own) s'"
| free: "page_run s0 own s \<Longrightarrow> p \<in> own \<Longrightarrow> kfree s p = Some s' \<Longrightarrow>
     page_run s0 (own - {p}) s'"

inductive_cases page_run_boot_cases: "page_run s0 {} s"

definition boot_state :: "'a mem_st_scheme \<Rightarrow> bool" where
  "boot_state s \<longleftrightarrow> free_mem_list s = 0 \<and> 0 < end_address s \<and> end_address s \<le> PHYSTOP"

lemma kinit_ok:
  assumes "boot_state s"
  shows "\<exists>s'. kinit s = Some s' \<and> free_pages s' (rev (boot_pages (PGROUNDUP (end_address s)))) \<and>
           end_address s' = end_address s"
proof -
  have "free_pages s []" using assms by (simp add: boot_state_def free_pages_def)
  then show ?thesis
    using kinit_loop_ok [of s "[]" "PGROUNDUP (end_address s)"] assms PGROUNDUP_props
    by (simp add: kinit_def boot_state_def)
qed

lemma page_run_inv:
  assumes "page_run s0 own s" and "boot_state s0"
  shows "\<exists>xs. free_pages s xs \<and> set xs \<inter> own = {} \<and>
    set xs \<union> own = set (boot_pages (PGROUNDUP (end_address s0))) \<and>
    (\<forall>p \<in> own. managed s p)"
  using assms
proof (induction rule: page_run.induct)
  case (boot s)
  then show ?case using kinit_ok [of s0] by fastforce
next
  case (alloc own s p s')
  then obtain xs where xs: "free_pages s xs" "set xs \<inter> own = {}"
    "set xs \<union> own = set (boot_pages (PGROUNDUP (end_address s0)))" "\<forall>p \<in> own. managed s p"
    by blast
  have "valid = managed s \<Longrightarrow> managed s' = valid" for valid
    using kpages.alloc_valid [OF alloc.hyps(2)] by simp
  moreover obtain ys where "xs = p # ys" "free_pages s' ys" "p \<notin> set ys"
    using kpages.alloc_cases [OF xs(1)] alloc.hyps(2,3) by auto
  ultimately show ?case
    using xs kpages.pages_valid [OF xs(1)] by (intro exI [of _ ys]) auto
next
  case (free own s p s')
  then obtain xs where xs: "free_pages s xs" "set xs \<inter> own = {}"
    "set xs \<union> own = set (boot_pages (PGROUNDUP (end_address s0)))" "\<forall>p \<in> own. managed s p"
    by blast
  have "managed s p" "p \<notin> set xs" using xs free.hyps(2) by auto
  then have "free_pages s' (p # xs)"
    using kpages.dealloc_ok [OF xs(1), of p] free.hyps(3) by auto
  then show ?case
    using xs free.hyps(2) kpages.dealloc_valid [OF free.hyps(3)]
    by (intro exI [of _ "p # xs"]) auto
qed

lemma boot_pages_mem:
  assumes "e \<le> PHYSTOP"
  shows "x \<in> set (boot_pages (PGROUNDUP e)) \<longleftrightarrow>
    aligned 4096 x \<and> e \<le> x \<and> unat x + 4096 \<le> unat PHYSTOP"
proof -
  let ?a = "PGROUNDUP e"
  note pr = PGROUNDUP_props [OF assms]
  obtain k where k: "unat ?a = 4096 * k" using pr(1) unfolding aligned_def dvd_def by blast
  have kb: "4096 * k \<le> 0x88000000" using pr(3) k by (simp add: word_le_nat_alt unat_PHYSTOP)
  have nth: "unat (?a + of_nat (4096 * i)) = 4096 * (k + i)" if "i < 0x88000 - k" for i
    using that kb k by (subst unat_add_small) auto
  have n: "(unat PHYSTOP - unat ?a) div 4096 = 0x88000 - k"
    using kb k by (simp add: unat_PHYSTOP flip: diff_mult_distrib2)
  have up: "?a \<le> y" if y: "aligned 4096 y" "e \<le> y" for y
    by (rule PGROUNDUP_least [OF assms y])
  show ?thesis
  proof
    assume "x \<in> set (boot_pages ?a)"
    then obtain i where i: "i < 0x88000 - k" "x = ?a + of_nat (4096 * i)"
      by (auto simp: boot_pages_def n)
    then have "unat x = 4096 * (k + i)" using nth by simp
    moreover have "e \<le> x" using pr(2) k calculation by (simp add: word_le_nat_alt)
    ultimately show "aligned 4096 x \<and> e \<le> x \<and> unat x + 4096 \<le> unat PHYSTOP"
      using i(1) by (auto simp: aligned_def unat_PHYSTOP)
  next
    assume x: "aligned 4096 x \<and> e \<le> x \<and> unat x + 4096 \<le> unat PHYSTOP"
    then obtain j where j: "unat x = 4096 * j" unfolding aligned_def dvd_def by blast
    have "k \<le> j" using up [of x] x k j by (auto simp: word_le_nat_alt)
    moreover have "j < 0x88000" using x j by (simp add: unat_PHYSTOP)
    ultimately have "x = ?a + of_nat (4096 * (j - k))" "j - k < 0x88000 - k"
      using nth [of "j - k"] j by (auto simp: word_unat_eq_iff)
    then show "x \<in> set (boot_pages ?a)" by (auto simp: boot_pages_def n)
  qed
qed

section \<open>Properties\<close>

text \<open>
  Property C33 (functional). \<open>kinit\<close> never panics at boot and leaves on the free list
  exactly the aligned pages between the end of the kernel image and \<open>PHYSTOP\<close>, each once,
  the highest first.
\<close>

theorem kinit_frees_every_page:
  assumes "boot_state s"
  shows "\<exists>s'. kinit s = Some s' \<and>
     free_pages s' (rev (boot_pages (PGROUNDUP (end_address s)))) \<and>
     (\<forall>x. x \<in> set (boot_pages (PGROUNDUP (end_address s))) \<longleftrightarrow>
          aligned 4096 x \<and> end_address s \<le> x \<and> unat x + 4096 \<le> unat PHYSTOP)"
proof -
  let ?a = "PGROUNDUP (end_address s)"
  have le: "end_address s \<le> PHYSTOP" using assms by (simp add: boot_state_def)
  have "x \<in> set (boot_pages ?a) \<longleftrightarrow>
      aligned 4096 x \<and> end_address s \<le> x \<and> unat x + 4096 \<le> unat PHYSTOP" for x
    by (rule boot_pages_mem [OF le])
  then show ?thesis using kinit_ok [OF assms] by blast
qed

definition one_page_boot :: mem_st where
  "one_page_boot = \<lparr>pmem = (\<lambda>_. 0), free_mem_list = 0, end_address = 0x87FFF000, etext = 0x80008000,
     userret = 0x80002000, uservec = 0x80003000, kernel_pagetable = 0\<rparr>"

lemma boot_state_one_page: "boot_state one_page_boot"
  by (simp add: boot_state_def one_page_boot_def kdefs)

lemma boot_pages_one: "boot_pages (PGROUNDUP (end_address one_page_boot)) = [0x87FFF000]"
  by (simp add: one_page_boot_def PGROUNDUP_def PGSIZE_def boot_pages_def unat_PHYSTOP)

theorem kinit_frees_every_page_witness:
  "boot_state one_page_boot \<and> (\<exists>s'. kinit one_page_boot = Some s' \<and> free_pages s' [0x87FFF000])"
  using kinit_frees_every_page [OF boot_state_one_page] boot_state_one_page boot_pages_one by auto

text \<open>
  Property C4 (safety). In every state reachable from boot by allocations and by frees of
  owned pages: \<open>kalloc\<close> hands out a page only if nobody owns it, it returns NULL only
  when every managed page is owned, and freeing an owned page never panics.
\<close>

theorem page_never_handed_out_twice:
  assumes "page_run s0 own s" and "boot_state s0"
  shows "(\<forall>p s'. kalloc s = (p, s') \<and> p \<noteq> 0 \<longrightarrow> p \<notin> own \<and> managed s p) \<and>
    (\<forall>s'. kalloc s = (0, s') \<longrightarrow> own = set (boot_pages (PGROUNDUP (end_address s0)))) \<and>
    (\<forall>p \<in> own. \<exists>t. kfree s p = Some t)"
proof -
  obtain xs where xs: "free_pages s xs" "set xs \<inter> own = {}"
    "set xs \<union> own = set (boot_pages (PGROUNDUP (end_address s0)))" "\<forall>p \<in> own. managed s p"
    using page_run_inv [OF assms] by blast
  note alloc = kpages.alloc_cases [OF xs(1)]
  have "p \<notin> own \<and> managed s p" if "kalloc s = (p, s')" "p \<noteq> 0" for p s'
    using that alloc xs kpages.pages_valid [OF xs(1)] by auto
  moreover have "own = set (boot_pages (PGROUNDUP (end_address s0)))" if "kalloc s = (0, s')" for s'
    using that alloc xs by auto
  moreover have "\<exists>t. kfree s p = Some t" if "p \<in> own" for p
    using kpages.dealloc_ok [OF xs(1), of p] xs that by blast
  ultimately show ?thesis by blast
qed

theorem page_never_handed_out_twice_witness:
  "\<exists>s s'. page_run one_page_boot {} s \<and> kalloc s = (0x87FFF000, s') \<and> managed s 0x87FFF000 \<and>
     page_run one_page_boot {0x87FFF000} s' \<and> (\<exists>t. kfree s' 0x87FFF000 = Some t)"
proof -
  obtain s where s: "kinit one_page_boot = Some s" "free_pages s [0x87FFF000]"
    using kinit_ok [OF boot_state_one_page] boot_pages_one by auto
  then have r: "page_run one_page_boot {} s" by (blast intro: page_run.boot)
  obtain s' where s': "kalloc s = (0x87FFF000, s')" using kpages.alloc_Cons [OF s(2)] by blast
  have r': "page_run one_page_boot {0x87FFF000} s'" using page_run.alloc [OF r s'] by simp
  show ?thesis
    using r s' r' page_never_handed_out_twice [OF r boot_state_one_page]
      page_never_handed_out_twice [OF r' boot_state_one_page] by auto
qed

end
