(* ===== verification/Page_Table.thy ===== *)
theory Page_Table
  imports Vm "HOL-Library.Sublist"
begin

text \<open>
  The correctness of the page-table code. A page table in memory is read as a partial
  tree: \<open>tbl m root path\<close> is the table page reached through the valid entries along
  \<open>path\<close>. \<open>pt_ok\<close> says that the tree is well formed (table pages are aligned,
  pairwise distinct and not free). On well-formed tables, \<open>walk\<close> with allocation
  keeps every translation, and \<open>mappages\<close> changes exactly the translation of the
  mapped page.
\<close>

section \<open>Pages and entries\<close>

definition in_page :: "u64 \<Rightarrow> u64 \<Rightarrow> bool" where
  "in_page q x \<longleftrightarrow> unat (x - q) < 4096"

lemma dvd_4096: "(4096 :: nat) dvd 2 ^ 64" "(8 :: nat) dvd 2 ^ 64"
  by (simp_all add: dvd_eq_mod_eq_0)

lemma in_page_offset:
  assumes "in_page q x"
  obtains off where "off < 4096" and "x = q + of_nat off"
  using assms of_nat_diff_unat [of x q] by (auto simp: in_page_def)

lemma in_page_add: "off < 4096 \<Longrightarrow> in_page q (q + of_nat off)"
  by (simp add: in_page_def unat_of_nat)

lemma pages_disjoint:
  assumes "aligned 4096 p" "aligned 4096 q" "p \<noteq> q" "in_page p x"
  shows "\<not> in_page q x"
proof -
  obtain off where off: "off < 4096" "x = p + of_nat off" using assms(4) by (rule in_page_offset)
  have "4096 \<le> unat (p + of_nat off - q)"
    using aligned_disjoint [OF assms(2,1) dvd_4096(1)] assms(3) off(1) by simp
  then show ?thesis using off(2) by (simp add: in_page_def)
qed

lemma mem_write_in_page:
  assumes "off + length bs \<le> 4096" and "\<not> in_page q x"
  shows "mem_write m (q + of_nat off) bs x = m x"
proof -
  have ge: "4096 \<le> unat (x - q)" using assms(2) by (simp add: in_page_def)
  have eq: "x - (q + of_nat off) = (x - q) - of_nat off" by (simp add: diff_diff_eq)
  have "unat ((x - q) - of_nat off) = unat (x - q) - off"
    using ge assms(1) by (subst unat_sub) (auto simp: word_le_nat_alt unat_of_nat)
  then have "length bs \<le> unat (x - (q + of_nat off))" unfolding eq using ge assms(1) by simp
  then show ?thesis by (rule mem_write_out)
qed

lemma entry_addr:
  assumes "i < (512 :: u64)"
  shows "p + 8 * i = p + of_nat (8 * unat i)" and "8 * unat i + 8 \<le> 4096"
  using assms by (simp_all add: word_less_nat_alt)

lemma store64_in_page:
  "i < 512 \<Longrightarrow> \<not> in_page q x \<Longrightarrow> store64 m (q + 8 * i) v x = m x"
  unfolding store64_def by (simp only: entry_addr) (rule mem_write_in_page, auto simp: word_less_nat_alt)

lemma load64_page_cong:
  assumes "i < 512" and "\<And>x. in_page p x \<Longrightarrow> m' x = m x"
  shows "load64 m' (p + 8 * i) = load64 m (p + 8 * i)"
proof -
  have "mem_read m' (p + 8 * i) 8 = mem_read m (p + 8 * i) 8"
  proof (rule mem_read_cong)
    fix k assume "k < (8 :: nat)"
    then have "8 * unat i + k < 4096" using entry_addr(2) [OF assms(1)] by simp
    moreover have "p + 8 * i + of_nat k = p + of_nat (8 * unat i + k)" by simp
    ultimately show "m' (p + 8 * i + of_nat k) = m (p + 8 * i + of_nat k)"
      using assms(2) in_page_add by metis
  qed
  then show ?thesis by (simp add: load64_def)
qed

lemma entry_unat:
  assumes "aligned 4096 p" and "i < 512"
  shows "unat (p + 8 * i) = unat p + 8 * unat i"
  unfolding entry_addr(1) [OF assms(2)]
  by (rule unat_aligned_add [OF assms(1) dvd_4096(1)]) (use entry_addr(2) [OF assms(2)] in simp)

lemma entry_aligned: "aligned 4096 p \<Longrightarrow> i < 512 \<Longrightarrow> aligned 8 (p + 8 * i)"
  using aligned_mono [of 4096 p 8] by (simp add: aligned_def entry_unat)

lemma entry_inj:
  assumes "aligned 4096 p" and "i < 512" and "j < 512" and "i \<noteq> j"
  shows "p + 8 * i \<noteq> p + 8 * j"
proof
  assume "p + 8 * i = p + 8 * j"
  then have "unat p + 8 * unat i = unat p + 8 * unat j"
    using entry_unat [OF assms(1)] assms(2,3) by metis
  then have "unat i = unat j" by simp
  then show False using assms(4) unsigned_word_eqI by blast
qed

lemma entry_nonzero: "aligned 4096 p \<Longrightarrow> p \<noteq> 0 \<Longrightarrow> i < 512 \<Longrightarrow> p + 8 * i \<noteq> 0"
  using entry_unat [of p i] by (metis add_eq_0_iff_both_eq_0 unat_eq_zero)

lemma load_store_entry:
  assumes "aligned 4096 p" and "aligned 4096 q" and "i < 512" and "j < 512"
    and "(p, i) \<noteq> (q, j)"
  shows "load64 (store64 m (p + 8 * i) v) (q + 8 * j) = load64 m (q + 8 * j)"
proof (cases "p = q")
  case True
  then show ?thesis using assms entry_inj entry_aligned by (simp add: load_store_other)
next
  case False
  have "store64 m (p + 8 * i) v x = m x" if "in_page q x" for x
    using pages_disjoint [OF assms(2,1) _ that] False assms(3) by (intro store64_in_page) auto
  then show ?thesis by (rule load64_page_cong [OF assms(4)])
qed

lemma memset_out:
  assumes "n \<le> 4096" and "\<not> in_page q x"
  shows "memset m q v n x = m x"
proof -
  have "memset m q v n = mem_write m (q + of_nat 0) (replicate n v)"
    using assms(1) memset_eq [of n m q v] by simp
  moreover have "mem_write m (q + of_nat 0) (replicate n v) x = m x"
    using assms by (intro mem_write_in_page) simp_all
  ultimately show ?thesis by simp
qed

lemma memset_in:
  assumes "k < n" and "n \<le> 4096"
  shows "memset m q v n (q + of_nat k) = v"
  using assms memset_eq [of n m q v] mem_write_in [of k "replicate n v" m q] by simp

lemma zero_page_load:
  assumes "i < 512" and "n = 4096"
  shows "load64 (memset m q 0 n) (q + 8 * i) = 0"
proof -
  have "mem_read (memset m q 0 n) (q + 8 * i) 8 = replicate 8 0"
  proof (rule nth_equalityI)
    fix k assume "k < length (mem_read (memset m q 0 n) (q + 8 * i) 8)"
    then have k: "k < 8" by simp
    then have lt: "8 * unat i + k < n" using entry_addr(2) [OF assms(1)] assms(2) by simp
    have eq: "q + 8 * i + of_nat k = q + of_nat (8 * unat i + k)" by simp
    have "memset m q 0 n (q + 8 * i + of_nat k) = 0"
      unfolding eq by (rule memset_in [OF lt]) (simp add: assms(2))
    then show "mem_read (memset m q 0 n) (q + 8 * i) 8 ! k = replicate 8 0 ! k"
      using k by simp
  qed simp
  then show ?thesis by (simp add: load64_def numeral_eq_Suc)
qed

section \<open>Page-table entries and indices\<close>

lemma PX_take_bit: "PX l va = take_bit 9 (drop_bit (12 + 9 * l) va)"
  by (simp add: PX_def take_bit_eq_mask mask_eq_exp_minus_1)

lemma PX_lt [simp]: "PX l va < 512"
  by (simp add: PX_take_bit word_less_nat_alt take_bit_eq_mod unat_mod_distrib)

lemma aligned_bits: "aligned 4096 a \<Longrightarrow> n < 12 \<Longrightarrow> \<not> bit a n"
proof -
  assume "aligned 4096 a" "n < 12"
  then have "unat (take_bit 12 a) = 0"
    by (simp add: aligned_def take_bit_eq_mod unat_mod_distrib dvd_eq_mod_eq_0)
  then have "take_bit 12 a = 0" by (simp add: unat_eq_zero)
  then show "\<not> bit a n" using \<open>n < 12\<close> by (metis bit_0_eq bit_take_bit_iff bot_apply bot_bool_def)
qed

definition flag_bits :: "u64 \<Rightarrow> bool" where
  "flag_bits f \<longleftrightarrow> f AND NOT 0x3FF = 0"

lemma flag_bitsD: "flag_bits f \<Longrightarrow> 10 \<le> n \<Longrightarrow> \<not> bit f n"
proof -
  assume f: "flag_bits f" and n: "10 \<le> n"
  have "(0x3FF :: u64) = mask 10" by (simp add: mask_eq_exp_minus_1)
  then have "bit (f AND NOT (mask 10)) n = False" using f by (simp add: flag_bits_def)
  then show "\<not> bit f n" using n by (auto simp: bit_simps dest: bit_imp_le_length)
qed

lemma PTE2PA_PA2PTE:
  assumes "aligned 4096 pa" and "flag_bits f"
  shows "PTE2PA (PA2PTE pa OR f) = pa"
proof (rule bit_word_eqI)
  fix n assume n: "n < LENGTH(64)"
  show "bit (PTE2PA (PA2PTE pa OR f)) n = bit pa n"
  proof (cases "n < 12")
    case True
    then show ?thesis using assms(1) aligned_bits by (simp add: PTE2PA_def bit_simps)
  next
    case False
    then have "10 + (n - 12) = n - 2" "12 + (n - 2 - 10) = n" by simp_all
    then show ?thesis using n False flag_bitsD [OF assms(2), of "n - 2"]
      by (auto simp: PTE2PA_def PA2PTE_def bit_simps)
  qed
qed

lemma PTE_flags_PA2PTE:
  assumes "flag_bits f"
  shows "PTE_FLAGS (PA2PTE pa OR f) = f"
proof (rule bit_word_eqI)
  fix n assume "n < LENGTH(64)"
  have "PTE_FLAGS x = take_bit 10 x" for x
    by (simp add: PTE_FLAGS_def take_bit_eq_mask mask_eq_exp_minus_1)
  then show "bit (PTE_FLAGS (PA2PTE pa OR f)) n = bit f n"
    using flag_bitsD [OF assms, of n] \<open>n < LENGTH(64)\<close>
    by (cases "n < 10") (auto simp: PA2PTE_def bit_simps)
qed

lemma PTE_V_bit: "e AND PTE_V \<noteq> 0 \<longleftrightarrow> bit e 0"
  by (simp add: kdefs and_one_eq odd_iff_mod_2_eq_one bit_0)

lemma flag_bits_V: "flag_bits PTE_V"
  by (simp add: flag_bits_def kdefs)

lemma flag_bits_or: "flag_bits a \<Longrightarrow> flag_bits b \<Longrightarrow> flag_bits (a OR b)"
  by (simp add: flag_bits_def bit.conj_disj_distrib2)

section \<open>A page table as a tree of table pages\<close>

fun tbl :: "mem \<Rightarrow> u64 \<Rightarrow> u64 list \<Rightarrow> u64 option" where
  "tbl m p [] = Some p"
| "tbl m p (i # is) =
     (let e = load64 m (p + 8 * i) in if e AND PTE_V \<noteq> 0 then tbl m (PTE2PA e) is else None)"

definition is_path :: "u64 list \<Rightarrow> bool" where
  "is_path \<pi> \<longleftrightarrow> length \<pi> \<le> 2 \<and> (\<forall>i \<in> set \<pi>. i < 512)"

definition vpath :: "u64 \<Rightarrow> u64 list" where
  "vpath va = [PX 2 va, PX 1 va]"

definition translate :: "mem \<Rightarrow> u64 \<Rightarrow> u64 \<Rightarrow> u64 option" where
  "translate m root va =
     (case tbl m root (vpath va) of None \<Rightarrow> None
      | Some p \<Rightarrow> let e = load64 m (p + 8 * PX 0 va) in if e AND PTE_V \<noteq> 0 then Some e else None)"

definition pt_ok :: "mem \<Rightarrow> u64 \<Rightarrow> u64 list \<Rightarrow> bool" where
  "pt_ok m root xs \<longleftrightarrow>
     (\<forall>\<pi> p. is_path \<pi> \<longrightarrow> tbl m root \<pi> = Some p \<longrightarrow> aligned 4096 p \<and> p \<noteq> 0 \<and> p \<notin> set xs) \<and>
     (\<forall>\<pi> \<pi>' p. is_path \<pi> \<longrightarrow> is_path \<pi>' \<longrightarrow> tbl m root \<pi> = Some p \<longrightarrow>
        tbl m root \<pi>' = Some p \<longrightarrow> \<pi> = \<pi>')"

definition pt_pages :: "mem \<Rightarrow> u64 \<Rightarrow> u64 set" where
  "pt_pages m root = {p. \<exists>\<pi>. is_path \<pi> \<and> tbl m root \<pi> = Some p}"

lemma is_path_vpath [simp]: "is_path (vpath va)"
  by (simp add: is_path_def vpath_def)

lemma length_vpath [simp]: "length (vpath va) = 2"
  by (simp add: vpath_def)

lemma is_path_snocD: "is_path (\<pi> @ [i]) \<Longrightarrow> is_path \<pi> \<and> i < 512 \<and> length \<pi> \<le> 1"
  by (auto simp: is_path_def)

lemma is_path_Nil [simp]: "is_path []"
  by (simp add: is_path_def)

lemma pt_okD:
  assumes "pt_ok m root xs" and "is_path \<pi>" and "tbl m root \<pi> = Some p"
  shows "aligned 4096 p" and "p \<noteq> 0" and "p \<notin> set xs"
  using assms by (auto simp: pt_ok_def)

lemma pt_ok_inj:
  assumes "pt_ok m root xs" and "is_path \<pi>" and "is_path \<pi>'"
    and "tbl m root \<pi> = Some p" and "tbl m root \<pi>' = Some p"
  shows "\<pi> = \<pi>'"
  using assms unfolding pt_ok_def by blast

lemma tbl_append:
  "tbl m p (\<pi> @ \<rho>) = (case tbl m p \<pi> of None \<Rightarrow> None | Some q \<Rightarrow> tbl m q \<rho>)"
  by (induction \<pi> arbitrary: p) (auto simp: Let_def)

lemma tbl_snoc:
  "tbl m p (\<pi> @ [i]) =
     (case tbl m p \<pi> of None \<Rightarrow> None
      | Some q \<Rightarrow> let e = load64 m (q + 8 * i) in if e AND PTE_V \<noteq> 0 then Some (PTE2PA e) else None)"
  by (simp add: tbl_append Let_def split: option.splits)

lemma tbl_prefix_None: "prefix \<rho> \<pi> \<Longrightarrow> tbl m p \<rho> = None \<Longrightarrow> tbl m p \<pi> = None"
  by (auto simp: prefix_def tbl_append)

section \<open>Installing a fresh table page\<close>

definition install :: "mem \<Rightarrow> u64 \<Rightarrow> u64 \<Rightarrow> u64 \<Rightarrow> mem" where
  "install m q p i = store64 (memset m q 0 4096) (p + 8 * i) (PA2PTE q OR PTE_V)"

lemma load_install_same [simp]: "load64 (install m q p i) (p + 8 * i) = PA2PTE q OR PTE_V"
  by (simp add: install_def)

lemma load_install_new:
  assumes "aligned 4096 p" "aligned 4096 q" "p \<noteq> q" "i < 512" "j < 512"
  shows "load64 (install m q p i) (q + 8 * j) = 0"
  using assms load_store_entry [of p q i j] by (simp add: install_def zero_page_load)

lemma load_install_other:
  assumes "aligned 4096 p" "aligned 4096 q" "aligned 4096 r" "r \<noteq> q" "i < 512" "j < 512"
    and "(p, i) \<noteq> (r, j)"
  shows "load64 (install m q p i) (r + 8 * j) = load64 m (r + 8 * j)"
proof -
  have "load64 (install m q p i) (r + 8 * j) = load64 (memset m q 0 4096) (r + 8 * j)"
    using assms load_store_entry [of p r i j] by (simp add: install_def)
  also have "\<dots> = load64 m (r + 8 * j)"
    using assms(2-4,6) pages_disjoint by (intro load64_page_cong memset_out) auto
  finally show ?thesis .
qed

lemma install_out:
  "i < 512 \<Longrightarrow> \<not> in_page p x \<Longrightarrow> \<not> in_page q x \<Longrightarrow> install m q p i x = m x"
  by (simp add: install_def store64_in_page memset_out)

lemma tbl_install:
  assumes ok: "pt_ok m root (q # xs)" and q: "aligned 4096 q"
    and path: "is_path (\<pi> @ [i])" and p: "tbl m root \<pi> = Some p"
    and inv: "load64 m (p + 8 * i) AND PTE_V = 0"
    and "is_path \<sigma>"
  shows "tbl (install m q p i) root \<sigma> =
     (if \<sigma> = \<pi> @ [i] then Some q else if prefix (\<pi> @ [i]) \<sigma> then None else tbl m root \<sigma>)"
  using \<open>is_path \<sigma>\<close>
proof (induction \<sigma> rule: rev_induct)
  case Nil
  then show ?case by simp
next
  case (snoc j \<sigma>)
  note pi = is_path_snocD [OF path]
  note sg = is_path_snocD [OF snoc.prems]
  have pp: "aligned 4096 p" "p \<noteq> q" using pt_okD [OF ok _ p] pi by auto
  show ?case
  proof (cases "prefix (\<pi> @ [i]) \<sigma>")
    case True
    have new: "load64 (install m q p i) (q + 8 * j) = 0"
      using load_install_new [OF pp(1) q pp(2)] pi sg by simp
    show ?thesis using True snoc.IH sg new by (auto simp: tbl_snoc split: option.splits)
  next
    case False
    then have old: "tbl (install m q p i) root \<sigma> = tbl m root \<sigma>" using snoc.IH sg by auto
    show ?thesis
    proof (cases "\<sigma> @ [j] = \<pi> @ [i]")
      case True
      have "bit (PA2PTE q OR PTE_V) 0" by (simp add: kdefs bit_simps)
      then show ?thesis using True old p PTE2PA_PA2PTE [OF q flag_bits_V]
        by (simp add: tbl_snoc PTE_V_bit)
    next
      case diff: False
      then have np: "\<not> prefix (\<pi> @ [i]) (\<sigma> @ [j])" using False by auto
      have "load64 (install m q p i) (r + 8 * j) = load64 m (r + 8 * j)"
        if r: "tbl m root \<sigma> = Some r" for r
      proof (rule load_install_other [OF pp(1) q])
        show "aligned 4096 r" "r \<noteq> q" using pt_okD [OF ok _ r] sg by auto
        show "i < 512" "j < 512" using pi sg by auto
        show "(p, i) \<noteq> (r, j)" using pt_ok_inj [OF ok, of \<pi> \<sigma>] p r pi sg diff by auto
      qed
      then show ?thesis using old diff np by (auto simp: tbl_snoc split: option.splits)
    qed
  qed
qed

lemma install_pt_ok:
  assumes ok: "pt_ok m root (q # xs)" and q: "aligned 4096 q" "q \<noteq> 0" "q \<notin> set xs"
    and path: "is_path (\<pi> @ [i])" and p: "tbl m root \<pi> = Some p"
    and inv: "load64 m (p + 8 * i) AND PTE_V = 0"
  shows "pt_ok (install m q p i) root xs"
proof -
  note t = tbl_install [OF ok q(1) path p inv]
  have fresh: "tbl m root \<sigma> \<noteq> Some q" if "is_path \<sigma>" for \<sigma>
    using pt_okD(3) [OF ok that] by auto
  have "aligned 4096 r \<and> r \<noteq> 0 \<and> r \<notin> set xs"
    if "is_path \<sigma>" "tbl (install m q p i) root \<sigma> = Some r" for \<sigma> r
    using that t [OF that(1)] q pt_okD [OF ok that(1)] by (auto split: if_splits)
  moreover have "\<sigma> = \<tau>"
    if "is_path \<sigma>" "is_path \<tau>" "tbl (install m q p i) root \<sigma> = Some r"
      "tbl (install m q p i) root \<tau> = Some r" for \<sigma> \<tau> r
    using that t [OF that(1)] t [OF that(2)] fresh pt_ok_inj [OF ok that(1,2)]
    by (auto split: if_splits)
  ultimately show ?thesis unfolding pt_ok_def by blast
qed

lemma install_translate:
  assumes ok: "pt_ok m root (q # xs)" and q: "aligned 4096 q"
    and path: "is_path (\<pi> @ [i])" and p: "tbl m root \<pi> = Some p"
    and inv: "load64 m (p + 8 * i) AND PTE_V = 0"
  shows "translate (install m q p i) root va = translate m root va"
proof -
  note t = tbl_install [OF ok q path p inv is_path_vpath [of va]]
  note pi = is_path_snocD [OF path]
  have pp: "aligned 4096 p" "p \<noteq> q" using pt_okD [OF ok _ p] pi by auto
  have none: "tbl m root (\<pi> @ [i]) = None" using p inv by (simp add: tbl_snoc)
  show ?thesis
  proof (cases "prefix (\<pi> @ [i]) (vpath va)")
    case True
    then have "translate m root va = None"
      using tbl_prefix_None [OF True none] by (simp add: translate_def)
    moreover have "translate (install m q p i) root va = None"
      using t True load_install_new [OF pp(1) q pp(2), of i "PX 0 va"] pi
      by (auto simp: translate_def split: if_splits)
    ultimately show ?thesis by simp
  next
    case False
    then have same: "tbl (install m q p i) root (vpath va) = tbl m root (vpath va)"
      using t by auto
    have "load64 (install m q p i) (r + 8 * PX 0 va) = load64 m (r + 8 * PX 0 va)"
      if r: "tbl m root (vpath va) = Some r" for r
    proof (rule load_install_other [OF pp(1) q])
      show "aligned 4096 r" "r \<noteq> q" using pt_okD [OF ok _ r] by auto
      show "i < 512" "PX 0 va < 512" using pi by auto
      have "p \<noteq> r" using pt_ok_inj [OF ok, of \<pi> "vpath va"] p r pi by fastforce
      then show "(p, i) \<noteq> (r, PX 0 va)" by simp
    qed
    then show ?thesis using same by (auto simp: translate_def split: option.splits)
  qed
qed

section \<open>\<open>walk\<close> on well-formed tables\<close>

text \<open>
  What an operation on the table rooted at \<open>root\<close> may do: use up free pages, keep the
  table well formed, and write only to its table pages and to the pages it allocates.
\<close>

definition pt_step :: "'a mem_st_scheme \<Rightarrow> u64 list \<Rightarrow> u64 \<Rightarrow> 'a mem_st_scheme \<Rightarrow> u64 list \<Rightarrow> bool" where
  "pt_step s xs root s' ys \<longleftrightarrow>
     suffix ys xs \<and> free_pages s' ys \<and> pt_ok (pmem s') root ys \<and>
     pt_pages (pmem s') root \<subseteq> pt_pages (pmem s) root \<union> set xs \<and>
     (\<forall>x. (\<forall>q \<in> pt_pages (pmem s) root \<union> set xs. \<not> in_page q x) \<longrightarrow> pmem s' x = pmem s x) \<and>
     (\<exists>m f. s' = s\<lparr>pmem := m, free_mem_list := f\<rparr>)"

lemma pt_step_refl:
  assumes "free_pages s xs" and "pt_ok (pmem s) root xs"
  shows "pt_step s xs root s xs"
proof -
  have "s = s\<lparr>pmem := pmem s, free_mem_list := free_mem_list s\<rparr>" by simp
  then show ?thesis using assms unfolding pt_step_def by blast
qed

lemma pt_step_trans:
  assumes "pt_step s xs root s' ys" and "pt_step s' ys root s'' zs"
  shows "pt_step s xs root s'' zs"
proof -
  obtain m f m' f' where s: "s' = s\<lparr>pmem := m, free_mem_list := f\<rparr>"
    "s'' = s'\<lparr>pmem := m', free_mem_list := f'\<rparr>"
    using assms unfolding pt_step_def by blast
  have "s'' = s\<lparr>pmem := m', free_mem_list := f'\<rparr>" using s by simp
  moreover have sub: "set ys \<subseteq> set xs" using assms(1) by (auto simp: pt_step_def dest: set_mono_suffix)
  moreover have "pt_pages (pmem s'') root \<subseteq> pt_pages (pmem s) root \<union> set xs"
    using assms sub unfolding pt_step_def by blast
  moreover have "pmem s'' x = pmem s x"
    if "\<forall>q \<in> pt_pages (pmem s) root \<union> set xs. \<not> in_page q x" for x
  proof -
    have "\<forall>q \<in> pt_pages (pmem s') root \<union> set ys. \<not> in_page q x"
      using that assms(1) sub unfolding pt_step_def by blast
    then have "pmem s'' x = pmem s' x" using assms(2) unfolding pt_step_def by blast
    also have "\<dots> = pmem s x" using that assms(1) unfolding pt_step_def by blast
    finally show ?thesis .
  qed
  ultimately show ?thesis
    using assms unfolding pt_step_def by (auto intro: suffix_order.trans)
qed

lemma free_pages_frame:
  assumes "free_pages s xs" and "\<And>q x. q \<in> set xs \<Longrightarrow> in_page q x \<Longrightarrow> m x = pmem s x"
  shows "free_pages (s\<lparr>pmem := m\<rparr>) xs"
proof -
  have "load64 m q = load64 (pmem s) q" if "q \<in> set xs" for q
    using load64_page_cong [of 0 q m "pmem s"] assms(2) [OF that] by simp
  then show ?thesis
    using assms(1) flist_cong [of "pmem s" "free_mem_list s" xs m]
    by (simp add: free_pages_def managed_def)
qed

lemma install_step:
  assumes fp: "free_pages s (q # xs)" and ok: "pt_ok (pmem s) root (q # xs)"
    and path: "is_path (\<pi> @ [i])" and p: "tbl (pmem s) root \<pi> = Some p"
    and inv: "load64 (pmem s) (p + 8 * i) AND PTE_V = 0"
    and s': "s' = s\<lparr>free_mem_list := load64 (pmem s) q, pmem := install (pmem s) q p i\<rparr>"
  shows "pt_step s (q # xs) root s' xs"
    and "tbl (pmem s') root (\<pi> @ [i]) = Some q"
proof -
  have q: "aligned 4096 q" "q \<noteq> 0" "q \<notin> set xs"
    using kpages.pages_valid [OF fp] kpages.pages_distinct [OF fp] managed_aligned by auto
  note pi = is_path_snocD [OF path]
  have pp: "aligned 4096 p" "p \<notin> set (q # xs)" using pt_okD [OF ok _ p] pi by auto
  have out: "install (pmem s) q p i x = pmem s x" if "\<not> in_page p x" "\<not> in_page q x" for x
    using that pi by (simp add: install_out)
  have "free_pages (s\<lparr>free_mem_list := load64 (pmem s) q\<rparr>) xs"
    using free_pages_Cons [OF fp] by simp
  then have "free_pages s' xs"
    unfolding s'
  proof (rule free_pages_frame [of "s\<lparr>free_mem_list := load64 (pmem s) q\<rparr>", simplified])
    fix r x assume r: "r \<in> set xs" "in_page r x"
    then have "aligned 4096 r" "r \<noteq> p" "r \<noteq> q"
      using kpages.pages_valid [OF fp] managed_aligned pp(2) q(3) by auto
    then show "install (pmem s) q p i x = pmem s x"
      using out pages_disjoint [OF _ pp(1) _ r(2)] pages_disjoint [OF _ q(1) _ r(2)] by auto
  qed
  moreover have "pt_ok (install (pmem s) q p i) root xs"
    by (rule install_pt_ok [OF ok q path p inv])
  moreover have "pt_pages (install (pmem s) q p i) root \<subseteq> pt_pages (pmem s) root \<union> set (q # xs)"
    using tbl_install [OF ok q(1) path p inv] by (auto simp: pt_pages_def split: if_splits)
  moreover have "install (pmem s) q p i x = pmem s x"
    if "\<forall>r \<in> pt_pages (pmem s) root \<union> set (q # xs). \<not> in_page r x" for x
  proof -
    have "p \<in> pt_pages (pmem s) root" using p pi by (auto simp: pt_pages_def)
    then show ?thesis using that out by auto
  qed
  moreover have "s' = s\<lparr>pmem := install (pmem s) q p i, free_mem_list := load64 (pmem s) q\<rparr>"
    by (simp add: s')
  moreover from this have pm: "pmem s' = install (pmem s) q p i" by simp
  ultimately show "pt_step s (q # xs) root s' xs"
    unfolding pt_step_def pm by (auto simp: suffix_Cons)
  show "tbl (pmem s') root (\<pi> @ [i]) = Some q"
    using tbl_install [OF ok q(1) path p inv path] by (simp add: s')
qed

lemma walk_loop_alloc:
  assumes "free_pages s xs" and "pt_ok (pmem s) root xs"
    and "tbl (pmem s) root \<pi> = Some p" and "vpath va = \<pi> @ \<rho>" and "length \<rho> = k"
    and "walk_loop s p va True k = (pte, s')"
  shows "\<exists>ys. pt_step s xs root s' ys \<and>
     (\<forall>va'. translate (pmem s') root va' = translate (pmem s) root va') \<and>
     (pte \<noteq> 0 \<longrightarrow> (\<exists>q. tbl (pmem s') root (vpath va) = Some q \<and> pte = q + 8 * PX 0 va)) \<and>
     (k \<le> length xs \<longrightarrow> pte \<noteq> 0) \<and> length xs \<le> length ys + k"
  using assms
proof (induction k arbitrary: s xs \<pi> p \<rho>)
  case 0
  have "p + 8 * PX 0 va \<noteq> 0"
    using 0 pt_okD [OF 0(2), of "vpath va" p] entry_nonzero by auto
  then show ?case using 0 pt_step_refl by (intro exI [of _ xs]) auto
next
  case (Suc k)
  obtain \<rho>' where \<rho>: "\<rho> = PX (Suc k) va # \<rho>'" "length \<rho>' = k"
  proof -
    have "length \<pi> + Suc k = 2" using Suc.prems(4,5) by (metis length_append length_vpath)
    then consider "k = 0" "length \<pi> = 1" | "k = 1" "\<pi> = []" by (cases \<pi>) auto
    then show ?thesis
    proof cases
      case 1
      then show ?thesis using Suc.prems(4,5) that by (cases \<pi>) (auto simp: vpath_def)
    next
      case 2
      then show ?thesis using Suc.prems(4,5) that by (auto simp: vpath_def numeral_2_eq_2)
    qed
  qed
  let ?i = "PX (Suc k) va"
  have vp: "vpath va = (\<pi> @ [?i]) @ \<rho>'" using Suc.prems(4) \<rho> by simp
  have path: "is_path (\<pi> @ [?i])"
    using is_path_vpath [of va] vp by (auto simp: is_path_def)
  show ?case
  proof (cases "load64 (pmem s) (p + 8 * ?i) AND PTE_V = 0")
    case False
    have "tbl (pmem s) root (\<pi> @ [?i]) = Some (PTE2PA (load64 (pmem s) (p + 8 * ?i)))"
      using False Suc.prems(3) by (simp add: tbl_snoc Let_def)
    from Suc.IH [OF Suc.prems(1,2) this vp \<rho>(2)] show ?thesis
      using False Suc.prems(6) by (auto simp: Let_def)
  next
    case True
    show ?thesis
    proof (cases xs)
      case Nil
      then have "kalloc s = (0, s)" using Suc.prems(1) free_pages_Nil by simp
      then show ?thesis using True Suc.prems pt_step_refl Nil
        by (intro exI [of _ xs]) (auto simp: Let_def)
    next
      case (Cons q zs)
      let ?s = "s\<lparr>free_mem_list := load64 (pmem s) q, pmem := install (pmem s) q p ?i\<rparr>"
      have fp: "free_pages s (q # zs)" and ok: "pt_ok (pmem s) root (q # zs)"
        using Suc.prems(1,2) Cons by auto
      note st = install_step [OF fp ok path Suc.prems(3) True refl]
      have "aligned 4096 q" "q \<noteq> 0" using kpages.pages_valid [OF fp, of q] managed_aligned by auto
      then have walk: "walk_loop ?s q va True k = (pte, s')"
        using True Suc.prems(6) free_pages_Cons(1) [OF fp] by (simp add: Let_def install_def)
      have fp': "free_pages ?s zs" and ok': "pt_ok (pmem ?s) root zs"
        using st(1) unfolding pt_step_def by blast+
      from Suc.IH [OF fp' ok' st(2) vp \<rho>(2) walk] obtain ys where
        "pt_step ?s zs root s' ys"
        "\<forall>va'. translate (pmem s') root va' = translate (pmem ?s) root va'"
        "pte \<noteq> 0 \<longrightarrow> (\<exists>q. tbl (pmem s') root (vpath va) = Some q \<and> pte = q + 8 * PX 0 va)"
        "k \<le> length zs \<longrightarrow> pte \<noteq> 0" "length zs \<le> length ys + k" by blast
      moreover have "translate (pmem ?s) root va' = translate (pmem s) root va'" for va'
        using install_translate [OF ok \<open>aligned 4096 q\<close> path Suc.prems(3) True] by simp
      ultimately show ?thesis
        using pt_step_trans [OF st(1)] Cons by (intro exI [of _ ys]) auto
    qed
  qed
qed

section \<open>Virtual pages\<close>

lemma bit_PX: "bit (PX l va) k \<longleftrightarrow> k < 9 \<and> bit va (12 + 9 * l + k)"
  by (auto simp: PX_take_bit bit_simps add.commute)

lemma bit_PGROUNDDOWN: "bit (PGROUNDDOWN a) n \<longleftrightarrow> 12 \<le> n \<and> bit a n"
proof -
  have "PGSIZE - 1 = mask 12" by (simp add: PGSIZE_def mask_eq_exp_minus_1)
  then show ?thesis by (auto simp: PGROUNDDOWN_def bit_simps dest: bit_imp_le_length)
qed

lemma PX_PGROUNDDOWN [simp]: "PX l (PGROUNDDOWN va) = PX l va"
  by (auto intro!: bit_word_eqI simp: bit_PX bit_PGROUNDDOWN)

lemma vpath_PGROUNDDOWN [simp]: "vpath (PGROUNDDOWN va) = vpath va"
  by (simp add: vpath_def)

lemma translate_PGROUNDDOWN [simp]: "translate m root (PGROUNDDOWN va) = translate m root va"
  by (simp add: translate_def split: option.splits)

lemma MAXVA_bits: "va < MAXVA \<Longrightarrow> 38 \<le> n \<Longrightarrow> \<not> bit va n"
proof -
  assume va: "va < MAXVA" and n: "38 \<le> n"
  have "unat va < 2 ^ 38" using va by (simp add: word_less_nat_alt kdefs push_bit_eq_mult)
  then have "take_bit 38 va = va"
    by (simp add: word_unat_eq_iff take_bit_eq_mod unat_mod_distrib)
  then show "\<not> bit va n" using n by (metis bit_take_bit_iff linorder_not_less)
qed

lemma same_page_iff:
  assumes "va < MAXVA" and "vb < MAXVA"
  shows "vpath va = vpath vb \<and> PX 0 va = PX 0 vb \<longleftrightarrow> PGROUNDDOWN va = PGROUNDDOWN vb"
proof
  assume "PGROUNDDOWN va = PGROUNDDOWN vb"
  then show "vpath va = vpath vb \<and> PX 0 va = PX 0 vb"
    by (metis PX_PGROUNDDOWN vpath_PGROUNDDOWN)
next
  assume eq: "vpath va = vpath vb \<and> PX 0 va = PX 0 vb"
  then have px: "PX l va = PX l vb" if "l < 3" for l
    using that by (auto simp: vpath_def less_Suc_eq numeral_eq_Suc)
  show "PGROUNDDOWN va = PGROUNDDOWN vb"
  proof (rule bit_word_eqI)
    fix n assume "n < LENGTH(64)"
    show "bit (PGROUNDDOWN va) n = bit (PGROUNDDOWN vb) n"
    proof (cases "12 \<le> n \<and> n < 38")
      case True
      then have l: "(n - 12) div 9 < 3" and "12 + 9 * ((n - 12) div 9) + (n - 12) mod 9 = n" by auto
      then have "bit va n = bit vb n"
        using bit_PX [of "(n - 12) div 9" va "(n - 12) mod 9"]
          bit_PX [of "(n - 12) div 9" vb "(n - 12) mod 9"] px [OF l] by simp
      then show ?thesis by (simp add: bit_PGROUNDDOWN)
    next
      case False
      then show ?thesis
        using MAXVA_bits [OF assms(1), of n] MAXVA_bits [OF assms(2), of n]
        by (auto simp: bit_PGROUNDDOWN)
    qed
  qed
qed

section \<open>Writing a leaf entry\<close>

lemma tbl_leaf_store:
  assumes ok: "pt_ok m root xs" and q: "tbl m root (vpath va) = Some q" and "is_path \<sigma>"
  shows "tbl (store64 m (q + 8 * PX 0 va) e) root \<sigma> = tbl m root \<sigma>"
  using \<open>is_path \<sigma>\<close>
proof (induction \<sigma> rule: rev_induct)
  case Nil
  then show ?case by simp
next
  case (snoc j \<sigma>)
  note sg = is_path_snocD [OF snoc.prems]
  have "load64 (store64 m (q + 8 * PX 0 va) e) (r + 8 * j) = load64 m (r + 8 * j)"
    if r: "tbl m root \<sigma> = Some r" for r
  proof (rule load_store_entry)
    show "aligned 4096 q" by (rule pt_okD(1) [OF ok is_path_vpath q])
    show "aligned 4096 r" using pt_okD(1) [OF ok _ r] sg by simp
    have "q \<noteq> r" using pt_ok_inj [OF ok, of "vpath va" \<sigma>] q r sg by fastforce
    then show "(q, PX 0 va) \<noteq> (r, j)" by simp
  qed (use sg in auto)
  then show ?case using snoc.IH sg by (auto simp: tbl_snoc split: option.splits)
qed

lemma translate_leaf_store:
  assumes ok: "pt_ok m root xs" and q: "tbl m root (vpath va) = Some q"
    and "va < MAXVA" and "vb < MAXVA"
  shows "translate (store64 m (q + 8 * PX 0 va) e) root vb =
    (if PGROUNDDOWN vb = PGROUNDDOWN va then (if e AND PTE_V \<noteq> 0 then Some e else None)
     else translate m root vb)"
proof -
  note t = tbl_leaf_store [OF ok q is_path_vpath [of vb]]
  show ?thesis
  proof (cases "PGROUNDDOWN vb = PGROUNDDOWN va")
    case True
    then show ?thesis
      using same_page_iff [OF assms(4,3)] t q by (auto simp: translate_def Let_def)
  next
    case False
    have "load64 (store64 m (q + 8 * PX 0 va) e) (r + 8 * PX 0 vb) = load64 m (r + 8 * PX 0 vb)"
      if r: "tbl m root (vpath vb) = Some r" for r
    proof (rule load_store_entry)
      show "aligned 4096 q" by (rule pt_okD(1) [OF ok is_path_vpath q])
      show "aligned 4096 r" by (rule pt_okD(1) [OF ok is_path_vpath r])
      show "(q, PX 0 va) \<noteq> (r, PX 0 vb)"
        using pt_ok_inj [OF ok, of "vpath va" "vpath vb"] q r False
          same_page_iff [OF assms(4,3)] by auto
    qed auto
    then show ?thesis using t False by (auto simp: translate_def split: option.splits)
  qed
qed

lemma leaf_store_step:
  assumes fp: "free_pages s xs" and ok: "pt_ok (pmem s) root xs"
    and q: "tbl (pmem s) root (vpath va) = Some q"
  shows "pt_step s xs root (s\<lparr>pmem := store64 (pmem s) (q + 8 * PX 0 va) e\<rparr>) xs"
proof -
  let ?m = "store64 (pmem s) (q + 8 * PX 0 va) e"
  note t = tbl_leaf_store [OF ok q]
  have al: "aligned 4096 q" "q \<notin> set xs" using pt_okD [OF ok _ q] by auto
  have "free_pages (s\<lparr>pmem := ?m\<rparr>) xs"
  proof (rule free_pages_frame [OF fp])
    fix r x assume r: "r \<in> set xs" "in_page r x"
    then have "aligned 4096 r" "r \<noteq> q"
      using kpages.pages_valid [OF fp] managed_aligned al by auto
    then show "?m x = pmem s x" using pages_disjoint [OF _ al(1) _ r(2)] store64_in_page by auto
  qed
  moreover have "pt_ok ?m root xs" using ok unfolding pt_ok_def by (simp add: t)
  moreover have "pt_pages ?m root = pt_pages (pmem s) root" by (auto simp: pt_pages_def t)
  moreover have "?m x = pmem s x"
    if "\<forall>r \<in> pt_pages (pmem s) root \<union> set xs. \<not> in_page r x" for x
  proof -
    have "q \<in> pt_pages (pmem s) root" using q by (auto simp: pt_pages_def intro: is_path_vpath)
    then show ?thesis using that store64_in_page by auto
  qed
  moreover have "s\<lparr>pmem := ?m\<rparr> = s\<lparr>pmem := ?m, free_mem_list := free_mem_list s\<rparr>" by simp
  ultimately show ?thesis unfolding pt_step_def by (simp, blast)
qed

section \<open>\<open>mappages\<close>\<close>

lemma walk_alloc:
  assumes "free_pages s xs" and "pt_ok (pmem s) root xs" and "va < MAXVA"
  obtains pte s' ys where "walk s root va True = Some (pte, s')"
    and "pt_step s xs root s' ys" and "length xs \<le> length ys + 2"
    and "\<forall>vb. translate (pmem s') root vb = translate (pmem s) root vb"
    and "pte \<noteq> 0 \<longrightarrow> (\<exists>q. tbl (pmem s') root (vpath va) = Some q \<and> pte = q + 8 * PX 0 va)"
    and "2 \<le> length xs \<longrightarrow> pte \<noteq> 0"
proof -
  obtain pte s' where w: "walk_loop s root va True 2 = (pte, s')" by (meson surj_pair)
  have "walk s root va True = Some (pte, s')" using assms(3) w by (simp add: walk_def)
  then show ?thesis
    using walk_loop_alloc [OF assms(1,2), of "[]" root va "vpath va" 2 pte s'] w that by auto
qed

lemma walk_noalloc:
  assumes "va < MAXVA"
  shows "walk s root va False =
    Some (case tbl (pmem s) root (vpath va) of None \<Rightarrow> 0 | Some q \<Rightarrow> q + 8 * PX 0 va, s)"
  using assms
  by (auto simp: walk_def vpath_def numeral_2_eq_2 Let_def split: option.splits)

text \<open>One mapped page.\<close>

definition maps_page :: "mem \<Rightarrow> mem \<Rightarrow> u64 \<Rightarrow> u64 \<Rightarrow> u64 \<Rightarrow> bool" where
  "maps_page m m' root a e \<longleftrightarrow>
     (\<forall>vb < MAXVA. translate m' root vb =
        (if PGROUNDDOWN vb = PGROUNDDOWN a then Some e else translate m root vb))"

lemma pte_value_valid: "(PA2PTE pa OR (perm OR PTE_V)) AND PTE_V \<noteq> 0"
  unfolding PTE_V_bit by (simp add: kdefs bit_simps)

lemma walk_exists:
  assumes "va < MAXVA" and "tbl (pmem s) root (vpath va) = Some q"
  shows "walk s root va al = Some (q + 8 * PX 0 va, s)"
  using assms by (auto simp: walk_def vpath_def numeral_2_eq_2 Let_def split: if_splits)

lemma mappages_iter:
  assumes fp: "free_pages s xs" and ok: "pt_ok (pmem s) root xs" and a: "a < MAXVA"
    and none: "translate (pmem s) root a = None" and len: "tbl (pmem s) root (vpath a) \<noteq> None \<or> 2 \<le> length xs"
  obtains s' ys where "pt_step s xs root s' ys" and "length xs \<le> length ys + 2"
    and "tbl (pmem s) root (vpath a) \<noteq> None \<Longrightarrow> ys = xs" and "tbl (pmem s') root (vpath a) \<noteq> None"
    and "maps_page (pmem s) (pmem s') root a (PA2PTE pa OR (perm OR PTE_V))"
    and "mappages_loop s root a lst pa perm =
       (if a = lst then Some (0, s') else mappages_loop s' root (a + PGSIZE) lst (pa + PGSIZE) perm)"
proof -
  have "\<exists>pte s1 ys q. walk s root a True = Some (pte, s1) \<and> pt_step s xs root s1 ys \<and> length xs \<le> length ys + 2 \<and>
      (tbl (pmem s) root (vpath a) \<noteq> None \<longrightarrow> ys = xs) \<and> pte \<noteq> 0 \<and>
      (\<forall>vb. translate (pmem s1) root vb = translate (pmem s) root vb) \<and>
      tbl (pmem s1) root (vpath a) = Some q \<and> pte = q + 8 * PX 0 a"
  proof (cases "tbl (pmem s) root (vpath a)")
    case None
    obtain pte s1 ys where "walk s root a True = Some (pte, s1)" "pt_step s xs root s1 ys" "length xs \<le> length ys + 2"
      "\<forall>vb. translate (pmem s1) root vb = translate (pmem s) root vb"
      "pte \<noteq> 0 \<longrightarrow> (\<exists>q. tbl (pmem s1) root (vpath a) = Some q \<and> pte = q + 8 * PX 0 a)" "2 \<le> length xs \<longrightarrow> pte \<noteq> 0"
      by (rule walk_alloc [OF fp ok a])
    then show ?thesis using None len by auto
  next
    case (Some q)
    then have "q + 8 * PX 0 a \<noteq> 0" using pt_okD [OF ok _ Some] entry_nonzero by simp
    then show ?thesis using walk_exists [OF a Some] pt_step_refl [OF fp ok] Some by auto
  qed
  then obtain pte s1 ys q where w: "walk s root a True = Some (pte, s1)"
    and st: "pt_step s xs root s1 ys" and ln: "length xs \<le> length ys + 2"
    and same: "tbl (pmem s) root (vpath a) \<noteq> None \<longrightarrow> ys = xs" and nz: "pte \<noteq> 0"
    and tr: "\<forall>vb. translate (pmem s1) root vb = translate (pmem s) root vb"
    and q: "tbl (pmem s1) root (vpath a) = Some q" "pte = q + 8 * PX 0 a" by blast
  have fp1: "free_pages s1 ys" and ok1: "pt_ok (pmem s1) root ys"
    using st by (auto simp: pt_step_def)
  have unmapped: "load64 (pmem s1) pte AND PTE_V = 0"
    using spec [OF tr, of a] none q by (auto simp: translate_def Let_def split: if_splits)
  let ?e = "PA2PTE pa OR (perm OR PTE_V)"
  let ?s = "s1\<lparr>pmem := store64 (pmem s1) pte ?e\<rparr>"
  have "pt_step s xs root ?s ys"
    using pt_step_trans [OF st leaf_store_step [OF fp1 ok1 q(1)]] q(2) by simp
  moreover have "maps_page (pmem s) (pmem ?s) root a ?e"
    using translate_leaf_store [OF ok1 q(1) a] tr pte_value_valid q(2)
    by (simp add: maps_page_def)
  moreover have "tbl (pmem ?s) root (vpath a) \<noteq> None"
    using tbl_leaf_store [OF ok1 q(1), of "vpath a"] q by simp
  moreover have "mappages_loop s root a lst pa perm =
     (if a = lst then Some (0, ?s) else mappages_loop ?s root (a + PGSIZE) lst (pa + PGSIZE) perm)"
    using w nz unmapped by (simp add: mappages_loop.simps [of s] Let_def)
  ultimately show ?thesis using that ln same by blast
qed

definition in_range :: "u64 \<Rightarrow> nat \<Rightarrow> u64 \<Rightarrow> bool" where
  "in_range a n v \<longleftrightarrow> unat a \<le> unat v \<and> unat v < unat a + 4096 * n"

lemma MAXVA_unat: "a < MAXVA \<longleftrightarrow> unat a < 2 ^ 38"
  by (simp add: word_less_nat_alt kdefs push_bit_eq_mult)

lemma PGROUNDDOWN_le: "unat (PGROUNDDOWN v) \<le> unat v"
  by (simp add: PGROUNDDOWN_def unat_and_not_mask)

lemma PGROUNDDOWN_lt_MAXVA: "v < MAXVA \<Longrightarrow> PGROUNDDOWN v < MAXVA"
  using PGROUNDDOWN_le [of v] by (simp add: MAXVA_unat)

lemma PGROUNDDOWN_aligned: "aligned 4096 (PGROUNDDOWN v)"
  by (simp add: aligned_def PGROUNDDOWN_def unat_and_not_mask dvd_minus_mod)

lemma PGROUNDDOWN_id: "aligned 4096 a \<Longrightarrow> PGROUNDDOWN a = a"
proof (rule bit_word_eqI)
  fix n assume "aligned 4096 a"
  then show "bit (PGROUNDDOWN a) n = bit a n"
    using aligned_bits [of a n] by (cases "12 \<le> n") (auto simp: bit_PGROUNDDOWN)
qed

lemma in_range_Suc:
  assumes "aligned 4096 a" and "aligned 4096 v" and "unat (a + PGSIZE) = unat a + 4096"
  shows "in_range a (Suc n) v \<longleftrightarrow> v = a \<or> in_range (a + PGSIZE) n v"
proof -
  obtain i j where "unat a = 4096 * i" "unat v = 4096 * j"
    using assms(1,2) unfolding aligned_def dvd_def by blast
  then show ?thesis using assms(3) by (auto simp: in_range_def word_unat_eq_iff)
qed

text \<open>A leaf table covers 2 MiB; a range needs at most two table pages for each 2 MiB region it
  touches.\<close>

definition regions :: "u64 \<Rightarrow> nat \<Rightarrow> nat" where
  "regions a n = (unat a + 4096 * n - 1) div 2 ^ 21 + 1 - unat a div 2 ^ 21"

lemma vpath_region:
  assumes "unat a div 2 ^ 21 = unat b div 2 ^ 21"
  shows "vpath a = vpath b"
proof -
  have "drop_bit 21 a = drop_bit 21 b" using assms by (simp add: word_unat_eq_iff drop_bit_eq_div unat_div)
  moreover have "drop_bit 30 x = drop_bit 9 (drop_bit 21 x)" for x :: u64 by (simp only: drop_bit_drop_bit) simp
  ultimately have "drop_bit 21 a = drop_bit 21 b" "drop_bit 30 a = drop_bit 30 b" by metis+
  then show ?thesis by (simp add: vpath_def PX_take_bit)
qed

lemma regions_Suc:
  assumes "unat b = unat a + 4096"
  shows "regions a (Suc (Suc n)) = regions b (Suc n) + (if unat a div 2 ^ 21 = unat b div 2 ^ 21 then 0 else 1)"
proof -
  define t where "t = (unat a mod 2097152 + 4096) div 2097152"
  have "unat a mod 2097152 + 4096 < 2 * 2097152" using mod_less_divisor [of 2097152 "unat a"] by simp
  then have t: "t < 2" unfolding t_def by (simp only: div_less_iff_less_mult zero_less_numeral)
  have "(unat a + 4096) div 2097152 = unat a div 2097152 + 4096 div 2097152 + (unat a mod 2097152 + 4096 mod 2097152) div 2097152"
    by (rule div_add1_eq)
  then have "(unat a + 4096) div 2097152 = unat a div 2097152 + t" by (simp add: t_def)
  then have "unat b div 2 ^ 21 = unat a div 2 ^ 21 \<or> unat b div 2 ^ 21 = unat a div 2 ^ 21 + 1"
    using assms t by auto
  moreover define e where "e = (unat b + 4096 * Suc n - 1) div 2 ^ 21"
  moreover have "unat b div 2 ^ 21 \<le> e" unfolding e_def by (rule div_le_mono) simp
  moreover have "unat a + 4096 * Suc (Suc n) - 1 = unat b + 4096 * Suc n - 1" using assms by simp
  then have "regions a (Suc (Suc n)) = e + 1 - unat a div 2 ^ 21" by (simp add: regions_def e_def)
  moreover have "regions b (Suc n) = e + 1 - unat b div 2 ^ 21" by (simp add: regions_def e_def)
  ultimately show ?thesis by auto
qed

definition credit :: "mem \<Rightarrow> u64 \<Rightarrow> u64 \<Rightarrow> nat" where
  "credit m root a = (if tbl m root (vpath a) = None then 0 else 2)"

lemma mappages_loop_range:
  assumes "free_pages s xs" and "pt_ok (pmem s) root xs" and "aligned 4096 a"
    and "unat a + 4096 * Suc n \<le> 2 ^ 38" and "2 * regions a (Suc n) \<le> length xs + credit (pmem s) root a"
    and "\<forall>v < MAXVA. in_range a (Suc n) (PGROUNDDOWN v) \<longrightarrow> translate (pmem s) root v = None"
  shows "\<exists>s' ys. mappages_loop s root a (a + of_nat (4096 * n)) pa perm = Some (0, s') \<and>
     pt_step s xs root s' ys \<and> length xs + credit (pmem s) root a \<le> length ys + 2 * regions a (Suc n) \<and>
     (\<forall>v < MAXVA. translate (pmem s') root v =
        (if in_range a (Suc n) (PGROUNDDOWN v)
         then Some (PA2PTE (pa + (PGROUNDDOWN v - a)) OR (perm OR PTE_V))
         else translate (pmem s) root v))"
  using assms
proof (induction n arbitrary: s xs a pa)
  case 0
  have a: "a < MAXVA" "PGROUNDDOWN a = a"
    using 0(3,4) by (simp_all add: MAXVA_unat PGROUNDDOWN_id)
  have eq: "in_range a (Suc 0) (PGROUNDDOWN v) \<longleftrightarrow> PGROUNDDOWN v = a" for v
    using in_range_Suc [OF 0(3) PGROUNDDOWN_aligned MAXVA_step(1) [OF a(1)], of 0 v]
    by (auto simp: in_range_def)
  have "unat a div 2 ^ 21 \<le> (unat a + 4095) div 2 ^ 21" by (rule div_le_mono) simp
  then have r: "1 \<le> regions a (Suc 0)" by (simp add: regions_def)
  then have len: "tbl (pmem s) root (vpath a) \<noteq> None \<or> 2 \<le> length xs" using 0(5) by (auto simp: credit_def split: if_splits)
  have "translate (pmem s) root a = None" using 0(6) a eq by auto
  from mappages_iter [OF 0(1,2) a(1) this len, of pa perm a] obtain s' ys where
    s': "pt_step s xs root s' ys" "length xs \<le> length ys + 2" "tbl (pmem s) root (vpath a) \<noteq> None \<Longrightarrow> ys = xs"
    "maps_page (pmem s) (pmem s') root a (PA2PTE pa OR (perm OR PTE_V))"
    "mappages_loop s root a a pa perm = Some (0, s')" by metis
  then have "length xs + credit (pmem s) root a \<le> length ys + 2" by (auto simp: credit_def)
  then show ?case using s'(1,4,5) a eq r by (intro exI [of _ s'] exI [of _ ys]) (auto simp: maps_page_def)
next
  case (Suc n)
  let ?b = "a + PGSIZE"
  have a: "a < MAXVA" "PGROUNDDOWN a = a"
    using Suc.prems(3,4) by (simp_all add: MAXVA_unat PGROUNDDOWN_id)
  have ua: "unat ?b = unat a + 4096" by (rule MAXVA_step(1) [OF a(1)])
  have al: "aligned 4096 ?b" using Suc.prems(3) ua by (simp add: aligned_def)
  have rng: "in_range a (Suc (Suc n)) (PGROUNDDOWN v) \<longleftrightarrow> PGROUNDDOWN v = a \<or> in_range ?b (Suc n) (PGROUNDDOWN v)" for v
    by (rule in_range_Suc [OF Suc.prems(3) PGROUNDDOWN_aligned ua])
  have notin: "\<not> in_range ?b (Suc n) a" using ua by (simp add: in_range_def)
  have "unat ?b div 2 ^ 21 \<le> (unat ?b + 4096 * Suc n - 1) div 2 ^ 21" by (rule div_le_mono) simp
  then have r1: "1 \<le> regions ?b (Suc n)" by (simp add: regions_def)
  note rs = regions_Suc [OF ua, of n]
  let ?lst = "a + of_nat (4096 * Suc n)"
  have lst: "?lst = ?b + of_nat (4096 * n)" by (simp add: PGSIZE_def)
  have "a \<noteq> ?lst"
  proof
    assume "a = ?lst"
    then have "unat a = unat a + 4096 * Suc n"
      using unat_add_small [of a "4096 * Suc n"] Suc.prems(4) by simp
    then show False by simp
  qed
  moreover have "translate (pmem s) root a = None" using Suc.prems(6) a rng by auto
  moreover have "tbl (pmem s) root (vpath a) \<noteq> None \<or> 2 \<le> length xs"
    using Suc.prems(5) rs r1 by (auto simp: credit_def split: if_splits)
  ultimately obtain s1 ys where s1: "pt_step s xs root s1 ys" "length xs \<le> length ys + 2"
    "tbl (pmem s) root (vpath a) \<noteq> None \<Longrightarrow> ys = xs" "tbl (pmem s1) root (vpath a) \<noteq> None"
    "maps_page (pmem s) (pmem s1) root a (PA2PTE pa OR (perm OR PTE_V))"
    "mappages_loop s root a ?lst pa perm = mappages_loop s1 root ?b ?lst (pa + PGSIZE) perm"
    using mappages_iter [OF Suc.prems(1,2) a(1), of pa perm ?lst] by (metis (no_types, lifting))
  have fp1: "free_pages s1 ys" and ok1: "pt_ok (pmem s1) root ys"
    using s1(1) by (auto simp: pt_step_def)
  have un: "\<forall>v < MAXVA. in_range ?b (Suc n) (PGROUNDDOWN v) \<longrightarrow> translate (pmem s1) root v = None"
    using s1(5) Suc.prems(6) rng a notin by (auto simp: maps_page_def)
  have used: "length xs + credit (pmem s) root a \<le> length ys + 2"
    using s1(2,3) by (auto simp: credit_def)
  have cr: "credit (pmem s1) root ?b = 2" if "unat a div 2 ^ 21 = unat ?b div 2 ^ 21"
    using s1(4) vpath_region [OF that] by (simp add: credit_def)
  have len: "2 * regions ?b (Suc n) \<le> length ys + credit (pmem s1) root ?b"
    using Suc.prems(5) rs used cr by (cases "unat a div 2 ^ 21 = unat ?b div 2 ^ 21") simp_all
  have "unat ?b + 4096 * Suc n \<le> 2 ^ 38" using Suc.prems(4) ua by simp
  from Suc.IH [OF fp1 ok1 al this len un, of "pa + PGSIZE"] obtain s2 zs where
    s2: "mappages_loop s1 root ?b ?lst (pa + PGSIZE) perm = Some (0, s2)"
    "pt_step s1 ys root s2 zs" "length ys + credit (pmem s1) root ?b \<le> length zs + 2 * regions ?b (Suc n)"
    "\<forall>v < MAXVA. translate (pmem s2) root v =
       (if in_range ?b (Suc n) (PGROUNDDOWN v)
        then Some (PA2PTE (pa + PGSIZE + (PGROUNDDOWN v - ?b)) OR (perm OR PTE_V))
        else translate (pmem s1) root v)"
    unfolding lst by blast
  have sh: "pa + PGSIZE + (v - ?b) = pa + (v - a)" for v by simp
  have "translate (pmem s2) root v =
      (if in_range a (Suc (Suc n)) (PGROUNDDOWN v)
       then Some (PA2PTE (pa + (PGROUNDDOWN v - a)) OR (perm OR PTE_V))
       else translate (pmem s) root v)" if "v < MAXVA" for v
    using s2(4) s1(5) that rng notin a unfolding maps_page_def sh by auto
  moreover have "length xs + credit (pmem s) root a \<le> length zs + 2 * regions a (Suc (Suc n))"
    using s2(3) rs used cr by (cases "unat a div 2 ^ 21 = unat ?b div 2 ^ 21") simp_all
  ultimately show ?case
    using s1(6) s2(1) pt_step_trans [OF s1(1) s2(2)] by (intro exI [of _ s2] exI [of _ zs]) simp
qed

section \<open>A fresh root table\<close>

lemma tbl_zero_root:
  assumes "is_path \<pi>" and "\<pi> \<noteq> []"
  shows "tbl (memset m q 0 4096) q \<pi> = None"
  using assms zero_page_load [of "hd \<pi>" 4096 m q] by (cases \<pi>) (auto simp: is_path_def)

lemma fresh_root:
  assumes "free_pages s (q # xs)"
  shows "pt_ok (memset (pmem s) q 0 4096) q xs"
    and "free_pages (s\<lparr>free_mem_list := load64 (pmem s) q, pmem := memset (pmem s) q 0 4096\<rparr>) xs"
    and "translate (memset (pmem s) q 0 4096) q va = None"
proof -
  have q: "aligned 4096 q" "q \<noteq> 0" "q \<notin> set xs"
    using kpages.pages_valid [OF assms] kpages.pages_distinct [OF assms] managed_aligned by auto
  have only: "\<pi> = [] \<and> p = q" if "is_path \<pi>" "tbl (memset (pmem s) q 0 4096) q \<pi> = Some p" for \<pi> p
    using that tbl_zero_root [OF that(1), of "pmem s" q] by (cases "\<pi> = []") auto
  show "pt_ok (memset (pmem s) q 0 4096) q xs"
    using q only unfolding pt_ok_def by blast
  have "free_pages (s\<lparr>free_mem_list := load64 (pmem s) q\<rparr>) xs"
    using free_pages_Cons [OF assms] by simp
  then show "free_pages (s\<lparr>free_mem_list := load64 (pmem s) q,
      pmem := memset (pmem s) q 0 4096\<rparr>) xs"
  proof (rule free_pages_frame [of "s\<lparr>free_mem_list := load64 (pmem s) q\<rparr>", simplified])
    fix r x assume r: "r \<in> set xs" "in_page r x"
    then have "aligned 4096 r" "r \<noteq> q" using kpages.pages_valid [OF assms] managed_aligned q by auto
    then show "memset (pmem s) q 0 4096 x = pmem s x"
      using pages_disjoint [OF _ q(1) _ r(2)] by (intro memset_out) auto
  qed
  show "translate (memset (pmem s) q 0 4096) q va = None"
    using tbl_zero_root [OF is_path_vpath, of va "pmem s" q] by (simp add: translate_def vpath_def)
qed

section \<open>Properties\<close>

lemma PGROUNDDOWN_last:
  assumes "aligned 4096 va" and "unat va + 4096 * Suc n \<le> 2 ^ 38"
  shows "PGROUNDDOWN (va + of_nat (4096 * Suc n) - 1) = va + of_nat (4096 * n)"
proof -
  have e: "va + of_nat (4096 * Suc n) - 1 = va + of_nat (4096 * n + 4095)" by simp
  have u: "unat (va + of_nat (4096 * n + 4095)) = unat va + (4096 * n + 4095)"
    using assms(2) by (intro unat_add_small) simp
  have v: "unat (va + of_nat (4096 * n)) = unat va + 4096 * n"
    using assms(2) by (intro unat_add_small) simp
  obtain k where k: "unat va = 4096 * k" using assms(1) unfolding aligned_def dvd_def by blast
  have "4096 * k + (4096 * n + 4095) = 4095 + 4096 * (k + n)" by simp
  then have "(4096 * k + (4096 * n + 4095)) mod 4096 = 4095" by (simp only: mod_mult_self2) simp
  then have "unat (PGROUNDDOWN (va + of_nat (4096 * n + 4095))) = unat (va + of_nat (4096 * n))"
    unfolding PGROUNDDOWN_def unat_and_not_mask u v k by simp
  then show ?thesis unfolding e by (simp add: word_unat_eq_iff)
qed

text \<open>A call, with everything that later calls on the same table need.\<close>

lemma mappages_step:
  assumes "free_pages s xs" and "pt_ok (pmem s) root xs" and "aligned 4096 va" and "0 < n"
    and "unat va + 4096 * n \<le> 2 ^ 38" and "2 * regions va n \<le> length xs"
    and "\<forall>v < MAXVA. in_range va n (PGROUNDDOWN v) \<longrightarrow> translate (pmem s) root v = None"
  shows "\<exists>s' ys. mappages s root pa va (of_nat (4096 * n)) perm = Some (0, s') \<and>
     (\<forall>v < MAXVA. translate (pmem s') root v =
        (if in_range va n (PGROUNDDOWN v)
         then Some (PA2PTE (pa + (PGROUNDDOWN v - va)) OR (perm OR PTE_V))
         else translate (pmem s) root v)) \<and>
     pt_step s xs root s' ys \<and> length xs \<le> length ys + 2 * regions va n"
proof -
  obtain k where n: "n = Suc k" using assms(4) by (cases n) auto
  have "unat (of_nat (4096 * Suc k) :: u64) = 4096 * Suc k"
    using assms(5) n by (intro unat_of_nat_small) simp
  then have "of_nat (4096 * n) \<noteq> (0 :: u64)" using n by (metis nat.distinct(1) mult_eq_0_iff
      unat_0 zero_neq_numeral)
  then have "mappages s root pa va (of_nat (4096 * n)) perm =
      mappages_loop s root va (va + of_nat (4096 * k)) pa perm"
    using PGROUNDDOWN_last [OF assms(3), of k] PGROUNDDOWN_id [OF assms(3)] assms(5)
    by (simp add: mappages_def n)
  moreover obtain s' ys where "mappages_loop s root va (va + of_nat (4096 * k)) pa perm = Some (0, s')"
    "pt_step s xs root s' ys" "length xs + credit (pmem s) root va \<le> length ys + 2 * regions va (Suc k)"
    "\<forall>v < MAXVA. translate (pmem s') root v = (if in_range va (Suc k) (PGROUNDDOWN v)
       then Some (PA2PTE (pa + (PGROUNDDOWN v - va)) OR (perm OR PTE_V))
       else translate (pmem s) root v)"
    using mappages_loop_range [OF assms(1,2,3), of k pa perm] assms(5-7) unfolding n by (meson trans_le_add1)
  ultimately show ?thesis unfolding n by (intro exI [of _ s'] exI [of _ ys]) simp
qed

text \<open>
  Property C3 (functional correctness of \<open>mappages\<close>). On a well-formed page table,
  with the requested range unmapped and two free pages for every 2 MiB region it touches (for
  the intermediate tables), \<open>mappages\<close> returns 0, maps every page of the range to the
  corresponding physical page with the requested permissions and the valid bit, leaves
  every other translation as it was, and leaves the table well formed and the free list
  intact.
\<close>

theorem mappages_maps_range:
  assumes "free_pages s xs" and "pt_ok (pmem s) root xs" and "aligned 4096 va" and "0 < n"
    and "unat va + 4096 * n \<le> 2 ^ 38" and "2 * regions va n \<le> length xs"
    and "\<forall>v < MAXVA. in_range va n (PGROUNDDOWN v) \<longrightarrow> translate (pmem s) root v = None"
  shows "\<exists>s' ys. mappages s root pa va (of_nat (4096 * n)) perm = Some (0, s') \<and>
     (\<forall>v < MAXVA. translate (pmem s') root v =
        (if in_range va n (PGROUNDDOWN v)
         then Some (PA2PTE (pa + (PGROUNDDOWN v - va)) OR (perm OR PTE_V))
         else translate (pmem s) root v)) \<and>
     free_pages s' ys \<and> pt_ok (pmem s') root ys \<and> suffix ys xs"
  using mappages_step [OF assms, of pa perm] unfolding pt_step_def by blast

definition four_page_boot :: mem_st where
  "four_page_boot = one_page_boot\<lparr>end_address := 0x87FFC000\<rparr>"

lemma boot_pages_four: "boot_state four_page_boot"
  "rev (boot_pages (PGROUNDUP (end_address four_page_boot)))
     = [0x87FFF000, 0x87FFE000, 0x87FFD000, 0x87FFC000]"
  by (simp_all add: boot_state_def four_page_boot_def one_page_boot_def kdefs PGROUNDUP_def
      boot_pages_def upt_rec)

theorem mappages_maps_range_witness:
  "\<exists>(s :: mem_st) s' ys. pt_ok (pmem s) 0x87FFF000 [0x87FFE000, 0x87FFD000, 0x87FFC000] \<and>
     free_pages s [0x87FFE000, 0x87FFD000, 0x87FFC000] \<and>
     mappages s 0x87FFF000 0x87000000 0x1000 0x1000 (PTE_R OR PTE_U) = Some (0, s') \<and>
     translate (pmem s') 0x87FFF000 0x1234 = Some (PA2PTE 0x87000000 OR (PTE_R OR PTE_U OR PTE_V)) \<and>
     translate (pmem s') 0x87FFF000 0x2000 = None \<and> free_pages s' ys"
proof -
  let ?q = "0x87FFF000 :: u64" and ?xs = "[0x87FFE000, 0x87FFD000, 0x87FFC000] :: u64 list"
  obtain s0 :: mem_st where "free_pages s0 (?q # ?xs)"
    using kinit_ok [OF boot_pages_four(1)] boot_pages_four(2) by auto
  note fr = fresh_root [OF this]
  let ?s = "s0\<lparr>free_mem_list := load64 (pmem s0) ?q, pmem := memset (pmem s0) ?q 0 4096\<rparr>"
  have h: "free_pages ?s ?xs" "pt_ok (pmem ?s) ?q ?xs" "aligned 4096 0x1000" "0 < (1 :: nat)"
    "unat (0x1000 :: u64) + 4096 * 1 \<le> 2 ^ 38" "2 * regions 0x1000 1 \<le> length ?xs"
    "\<forall>v < MAXVA. in_range 0x1000 1 (PGROUNDDOWN v) \<longrightarrow> translate (pmem ?s) ?q v = None"
    using fr by (simp_all add: aligned_def regions_def)
  have v: "(0x1234 :: u64) < MAXVA" "(0x2000 :: u64) < MAXVA" "PGROUNDDOWN 0x1234 = 0x1000"
    "PGROUNDDOWN 0x2000 = 0x2000" "in_range 0x1000 1 0x1000" "\<not> in_range 0x1000 1 0x2000"
    by (simp_all add: kdefs PGROUNDDOWN_def in_range_def)
  obtain s' ys where "mappages ?s ?q 0x87000000 0x1000 (of_nat (4096 * 1)) (PTE_R OR PTE_U) = Some (0, s')"
    "\<forall>v < MAXVA. translate (pmem s') ?q v = (if in_range 0x1000 1 (PGROUNDDOWN v)
       then Some (PA2PTE (0x87000000 + (PGROUNDDOWN v - 0x1000)) OR (PTE_R OR PTE_U OR PTE_V))
       else translate (pmem ?s) ?q v)" "free_pages s' ys"
    using mappages_maps_range [OF h, of "0x87000000" "PTE_R OR PTE_U"] by (auto simp: or.assoc)
  then show ?thesis using h(1,2) v fr(3) [of "0x2000"]
    by (intro exI [of _ ?s] exI [of _ s'] exI [of _ ys]) simp
qed

end
