(* ===== verification/Asm.thy ===== *)
theory Asm
  imports Page_Table
begin

text \<open>
  The assembly routines that save and restore registers: \<open>trampoline.S\<close> (\<open>uservec\<close>),
  \<open>userret.S\<close>, \<open>kernelvec.S\<close> and \<open>timervec.S\<close> of \<open>kernel/trap\<close> and
  \<open>kernel/proc/swtch.S\<close>. A routine is the list of its instructions, a run folds their
  effect over the registers, the control registers and the memory. The addresses they
  access are mapped to themselves in every page table that is active there, so memory is
  physical memory. A routine ends in a jump (\<open>jr t0\<close>, \<open>call\<close>, \<open>ret\<close>,
  \<open>sret\<close>, \<open>mret\<close>), which is not part of the list.
\<close>

section \<open>Machine\<close>

datatype reg = RA | SP | GP | TP | T0 | T1 | T2 | S0 | S1 | A0 | A1 | A2 | A3 | A4 | A5 | A6 | A7 |
  S2 | S3 | S4 | S5 | S6 | S7 | S8 | S9 | S10 | S11 | T3 | T4 | T5 | T6

datatype csr = Sstatus | Sie | Sip | Stvec | Sscratch | Sepc | Scause | Stval | Satp |
  Mstatus | Mie | Mepc | Mtvec | Mscratch | Medeleg | Mideleg | Mhartid | Pmpaddr0 | Pmpcfg0

datatype instr = SD reg u64 reg | LD reg u64 reg | FSD nat u64 reg | FLD nat u64 reg |
  CSRR reg csr | CSRW csr reg | CSRRW reg csr reg | FRCSR reg | FSCSR reg |
  ADDI reg reg u64 | ADD reg reg reg | LI reg u64 | SFENCE

record regs =
  xr :: "reg \<Rightarrow> u64"       \<comment> \<open>x1 to x31\<close>
  fr :: "nat \<Rightarrow> u64"       \<comment> \<open>f0 to f31\<close>
  fcsr :: u64

record mach = regs +
  csrs :: "csr \<Rightarrow> u64"
  amem :: mem

definition set_x :: "reg \<Rightarrow> u64 \<Rightarrow> mach \<Rightarrow> mach" where
  "set_x r v m = m\<lparr>xr := (xr m)(r := v)\<rparr>"

fun exec1 :: "instr \<Rightarrow> mach \<Rightarrow> mach" where
  "exec1 (SD r off b) m = m\<lparr>amem := store64 (amem m) (xr m b + off) (xr m r)\<rparr>"
| "exec1 (LD r off b) m = set_x r (load64 (amem m) (xr m b + off)) m"
| "exec1 (FSD i off b) m = m\<lparr>amem := store64 (amem m) (xr m b + off) (fr m i)\<rparr>"
| "exec1 (FLD i off b) m = m\<lparr>fr := (fr m)(i := load64 (amem m) (xr m b + off))\<rparr>"
| "exec1 (CSRR r c) m = set_x r (csrs m c) m"
| "exec1 (CSRW c r) m = m\<lparr>csrs := (csrs m)(c := xr m r)\<rparr>"
| "exec1 (CSRRW rd c rs) m = set_x rd (csrs m c) (m\<lparr>csrs := (csrs m)(c := xr m rs)\<rparr>)"
| "exec1 (FRCSR r) m = set_x r (fcsr m) m"
| "exec1 (FSCSR r) m = m\<lparr>fcsr := xr m r\<rparr>"
| "exec1 (ADDI rd rs k) m = set_x rd (xr m rs + k) m"
| "exec1 (ADD rd r1 r2) m = set_x rd (xr m r1 + xr m r2) m"
| "exec1 (LI r k) m = set_x r k m"
| "exec1 SFENCE m = m"

fun exec :: "instr list \<Rightarrow> mach \<Rightarrow> mach" where
  "exec [] m = m"
| "exec (i # is) m = exec is (exec1 i m)"

lemma exec_append: "exec (is @ js) m = exec js (exec is m)"
  by (induction "is" arbitrary: m) simp_all

section \<open>Routines\<close>

definition uservec_code :: "instr list" where
  "uservec_code =
    [CSRRW A0 Sscratch A0, CSRR T0 Sepc, SD T0 24 A0, SD RA 40 A0, SD SP 48 A0, SD GP 56 A0, SD TP 64 A0,
     SD T0 72 A0, SD T1 80 A0, SD T2 88 A0, SD S0 96 A0, SD S1 104 A0, SD A1 120 A0, SD A2 128 A0,
     SD A3 136 A0, SD A4 144 A0, SD A5 152 A0, SD A6 160 A0, SD A7 168 A0, SD S2 176 A0, SD S3 184 A0,
     SD S4 192 A0, SD S5 200 A0, SD S6 208 A0, SD S7 216 A0, SD S8 224 A0, SD S9 232 A0, SD S10 240 A0,
     SD S11 248 A0, SD T3 256 A0, SD T4 264 A0, SD T5 272 A0, SD T6 280 A0, FSD 0 288 A0, FSD 1 296 A0,
     FSD 2 304 A0, FSD 3 312 A0, FSD 4 320 A0, FSD 5 328 A0, FSD 6 336 A0, FSD 7 344 A0, FSD 8 352 A0,
     FSD 9 360 A0, FSD 10 368 A0, FSD 11 376 A0, FSD 12 384 A0, FSD 13 392 A0, FSD 14 400 A0, FSD 15 408 A0,
     FSD 16 416 A0, FSD 17 424 A0, FSD 18 432 A0, FSD 19 440 A0, FSD 20 448 A0, FSD 21 456 A0,
     FSD 22 464 A0, FSD 23 472 A0, FSD 24 480 A0, FSD 25 488 A0, FSD 26 496 A0, FSD 27 504 A0,
     FSD 28 512 A0, FSD 29 520 A0, FSD 30 528 A0, FSD 31 536 A0, FRCSR T0, SD T0 544 A0, CSRR T0 Sscratch,
     SD T0 112 A0, LD SP 8 A0, LD T1 0 A0, CSRW Satp T1, SFENCE, LD T0 16 A0]"

definition userret_code :: "instr list" where
  "userret_code =
    [CSRW Satp A1, SFENCE, LD T0 544 A0, FSCSR T0, FLD 0 288 A0, FLD 1 296 A0, FLD 2 304 A0, FLD 3 312 A0,
     FLD 4 320 A0, FLD 5 328 A0, FLD 6 336 A0, FLD 7 344 A0, FLD 8 352 A0, FLD 9 360 A0, FLD 10 368 A0,
     FLD 11 376 A0, FLD 12 384 A0, FLD 13 392 A0, FLD 14 400 A0, FLD 15 408 A0, FLD 16 416 A0,
     FLD 17 424 A0, FLD 18 432 A0, FLD 19 440 A0, FLD 20 448 A0, FLD 21 456 A0, FLD 22 464 A0,
     FLD 23 472 A0, FLD 24 480 A0, FLD 25 488 A0, FLD 26 496 A0, FLD 27 504 A0, FLD 28 512 A0,
     FLD 29 520 A0, FLD 30 528 A0, FLD 31 536 A0, LD RA 40 A0, LD SP 48 A0, LD GP 56 A0, LD TP 64 A0,
     LD T0 72 A0, LD T1 80 A0, LD T2 88 A0, LD S0 96 A0, LD S1 104 A0, LD A1 120 A0, LD A2 128 A0,
     LD A3 136 A0, LD A4 144 A0, LD A5 152 A0, LD A6 160 A0, LD A7 168 A0, LD S2 176 A0, LD S3 184 A0,
     LD S4 192 A0, LD S5 200 A0, LD S6 208 A0, LD S7 216 A0, LD S8 224 A0, LD S9 232 A0, LD S10 240 A0,
     LD S11 248 A0, LD T3 256 A0, LD T4 264 A0, LD T5 272 A0, LD T6 280 A0, LD A0 112 A0]"

definition swtch_code :: "instr list" where
  "swtch_code =
    [SD S0 0 A0, SD S1 8 A0, SD S2 16 A0, SD S3 24 A0, SD S4 32 A0, SD S5 40 A0, SD S6 48 A0, SD S7 56 A0,
     SD S8 64 A0, SD S9 72 A0, SD S10 80 A0, SD S11 88 A0, SD RA 96 A0, SD SP 104 A0, LD S0 0 A1,
     LD S1 8 A1, LD S2 16 A1, LD S3 24 A1, LD S4 32 A1, LD S5 40 A1, LD S6 48 A1, LD S7 56 A1, LD S8 64 A1,
     LD S9 72 A1, LD S10 80 A1, LD S11 88 A1, LD RA 96 A1, LD SP 104 A1]"

definition sys_trap_vector_save :: "instr list" where
  "sys_trap_vector_save =
    [ADDI SP SP (-256), SD RA 0 SP, SD GP 16 SP, SD TP 24 SP, SD T0 32 SP, SD T1 40 SP, SD T2 48 SP,
     SD S0 56 SP, SD S1 64 SP, SD A0 72 SP, SD A1 80 SP, SD A2 88 SP, SD A3 96 SP, SD A4 104 SP,
     SD A5 112 SP, SD A6 120 SP, SD A7 128 SP, SD S2 136 SP, SD S3 144 SP, SD S4 152 SP, SD S5 160 SP,
     SD S6 168 SP, SD S7 176 SP, SD S8 184 SP, SD S9 192 SP, SD S10 200 SP, SD S11 208 SP, SD T3 216 SP,
     SD T4 224 SP, SD T5 232 SP, SD T6 240 SP, ADDI T0 SP 256, SD T0 8 SP]"

definition sys_trap_vector_restore :: "instr list" where
  "sys_trap_vector_restore =
    [LD RA 0 SP, LD GP 16 SP, LD TP 24 SP, LD T0 32 SP, LD T1 40 SP, LD T2 48 SP, LD S0 56 SP, LD S1 64 SP,
     LD A0 72 SP, LD A1 80 SP, LD A2 88 SP, LD A3 96 SP, LD A4 104 SP, LD A5 112 SP, LD A6 120 SP,
     LD A7 128 SP, LD S2 136 SP, LD S3 144 SP, LD S4 152 SP, LD S5 160 SP, LD S6 168 SP, LD S7 176 SP,
     LD S8 184 SP, LD S9 192 SP, LD S10 200 SP, LD S11 208 SP, LD T3 216 SP, LD T4 224 SP, LD T5 232 SP,
     LD T6 240 SP, ADDI SP SP 256]"

definition timervec_code :: "instr list" where
  "timervec_code =
    [CSRRW A0 Mscratch A0, SD A1 0 A0, SD A2 8 A0, SD A3 16 A0, LD A1 24 A0, LD A2 32 A0, LD A3 0 A1,
     ADD A3 A3 A2, SD A3 0 A1, LI A1 2, CSRW Sip A1, LD A3 16 A0, LD A2 8 A0, LD A1 0 A0,
     CSRRW A0 Mscratch A0]"

section \<open>Register frames\<close>

lemma aligned8_add: "aligned 8 p \<Longrightarrow> 8 dvd unat k \<Longrightarrow> aligned 8 (p + k)" for p k :: u64
proof -
  assume "aligned 8 p" "8 dvd unat k"
  then have "8 dvd unat p + unat k" by (simp add: aligned_def)
  then have "8 dvd (unat p + unat k) mod 2 ^ 64" by (rule dvd_mod) simp
  then show "aligned 8 (p + k)" by (simp add: aligned_def unat_word_ariths)
qed

text \<open>Words stored at multiples of 8 from an aligned base are read back, the last one first.\<close>

definition store_all :: "u64 \<Rightarrow> (u64 \<times> u64) list \<Rightarrow> mem \<Rightarrow> mem" where
  "store_all p ws m = fold (\<lambda>(k, v) m. store64 m (p + k) v) ws m"

lemma load_store_all:
  assumes "aligned 8 p" and "\<forall>k \<in> fst ` set ws. 8 dvd unat k" and "8 dvd unat j"
  shows "load64 (store_all p ws m) (p + j) = (case map_of (rev ws) j of Some v \<Rightarrow> v | None \<Rightarrow> load64 m (p + j))"
  using assms(2)
proof (induction ws rule: rev_induct)
  case (snoc w ws)
  obtain k v where w: "w = (k, v)" by (cases w)
  have "load64 (store64 m' (p + k) v) (p + j) = (if j = k then v else load64 m' (p + j))" for m'
    using snoc.prems assms(1,3) aligned8_add by (auto simp: w intro!: load_store_other)
  then show ?case using snoc by (simp add: store_all_def w)
qed (simp add: store_all_def)

lemmas exec_simps = exec.simps exec1.simps set_x_def

text \<open>Where \<open>struct trapframe\<close> keeps a register.\<close>

primrec tf_off :: "reg \<Rightarrow> u64" where
  "tf_off RA = 40" | "tf_off SP = 48" | "tf_off GP = 56" | "tf_off TP = 64" | "tf_off T0 = 72" | "tf_off T1 = 80"
| "tf_off T2 = 88" | "tf_off S0 = 96" | "tf_off S1 = 104" | "tf_off A0 = 112" | "tf_off A1 = 120" | "tf_off A2 = 128"
| "tf_off A3 = 136" | "tf_off A4 = 144" | "tf_off A5 = 152" | "tf_off A6 = 160" | "tf_off A7 = 168" | "tf_off S2 = 176"
| "tf_off S3 = 184" | "tf_off S4 = 192" | "tf_off S5 = 200" | "tf_off S6 = 208" | "tf_off S7 = 216" | "tf_off S8 = 224"
| "tf_off S9 = 232" | "tf_off S10 = 240" | "tf_off S11 = 248" | "tf_off T3 = 256" | "tf_off T4 = 264"
| "tf_off T5 = 272" | "tf_off T6 = 280"

definition tf_foff :: "nat \<Rightarrow> u64" where "tf_foff i = of_nat (288 + 8 * i)"

text \<open>\<open>uservec\<close>: the words of the trapframe, and the machine at the jump into the kernel.\<close>

definition uservec_words :: "mach \<Rightarrow> (u64 \<times> u64) list" where
  "uservec_words u = (24, csrs u Sepc) # map (\<lambda>r. (tf_off r, if r = T0 then csrs u Sepc else xr u r))
     [RA, SP, GP, TP, T0, T1, T2, S0, S1, A1, A2, A3, A4, A5, A6, A7, S2, S3, S4, S5, S6, S7, S8, S9, S10, S11, T3, T4, T5, T6]
   @ map (\<lambda>i. (tf_foff i, fr u i)) [0..<32] @ [(544, fcsr u), (112, xr u A0)]"

lemma upt_32: "[0..<32] = [0, 1, 2, 3, 4, 5, 6, 7, 8, 9, 10, 11, 12, 13, 14, 15, 16, 17, 18, 19, 20, 21, 22, 23, 24,
    25, 26, 27, 28, 29, 30, 31]"
  by (simp add: upt_rec)

lemma uservec_mem:
  "csrs u Sscratch = p \<Longrightarrow> amem (exec uservec_code u) = store_all p (uservec_words u) (amem u)"
  by (simp add: uservec_code_def exec_simps store_all_def uservec_words_def upt_32 tf_foff_def)

lemma uservec_words_distinct: "distinct (map fst (uservec_words u))"
  by (simp add: uservec_words_def upt_32 tf_foff_def)

lemma uservec_words_aligned: "\<forall>k \<in> fst ` set (uservec_words u). 8 dvd unat k"
  by (simp add: uservec_words_def upt_32 tf_foff_def)

lemma uservec_words_from: "\<forall>k \<in> fst ` set (uservec_words u). 24 \<le> k"
  by (simp add: uservec_words_def upt_32 tf_foff_def)

lemma uservec_stored:
  assumes "csrs u Sscratch = p" and "aligned 8 p" and "(k, v) \<in> set (uservec_words u)"
  shows "load64 (amem (exec uservec_code u)) (p + k) = v"
proof -
  have "map_of (rev (uservec_words u)) k = Some v"
    by (rule map_of_is_SomeI) (use assms(3) uservec_words_distinct in \<open>auto simp: rev_map [symmetric]\<close>)
  moreover have "8 dvd unat k" using uservec_words_aligned assms(3) by fastforce
  ultimately show ?thesis
    using load_store_all [OF assms(2) uservec_words_aligned] by (simp add: uservec_mem [OF assms(1)])
qed

lemma uservec_frame:
  assumes "csrs u Sscratch = p" and "aligned 8 p"
  shows "load64 (amem (exec uservec_code u)) (p + tf_off r) = (if r = T0 then csrs u Sepc else xr u r)"
    and "i < 32 \<Longrightarrow> load64 (amem (exec uservec_code u)) (p + tf_foff i) = fr u i"
    and "load64 (amem (exec uservec_code u)) (p + 24) = csrs u Sepc"
    and "load64 (amem (exec uservec_code u)) (p + 544) = fcsr u"
proof -
  have "(tf_off r, if r = T0 then csrs u Sepc else xr u r) \<in> set (uservec_words u)"
    by (cases r) (simp_all add: uservec_words_def)
  then show "load64 (amem (exec uservec_code u)) (p + tf_off r) = (if r = T0 then csrs u Sepc else xr u r)"
    by (rule uservec_stored [OF assms])
qed (rule uservec_stored [OF assms], auto simp: uservec_words_def)+

lemma uservec_kept:
  assumes "csrs u Sscratch = p" and "aligned 8 p" and "k \<in> {0, 8, 16}"
  shows "load64 (amem (exec uservec_code u)) (p + k) = load64 (amem u) (p + k)"
proof -
  have "k < 24" using assms(3) by auto
  then have "k \<notin> fst ` set (uservec_words u)" using uservec_words_from [of u] by fastforce
  then have "map_of (rev (uservec_words u)) k = None" by (simp add: map_of_eq_None_iff)
  then show ?thesis
    using load_store_all [OF assms(2) uservec_words_aligned, of k] assms(3) by (auto simp: uservec_mem [OF assms(1)])
qed

text \<open>The machine at the jump into the kernel: \<open>tp\<close> is still the user's.\<close>

lemma uservec_kernel:
  assumes "csrs u Sscratch = p" and "aligned 8 p"
  shows "xr (exec uservec_code u) T0 = load64 (amem u) (p + 16)" "xr (exec uservec_code u) SP = load64 (amem u) (p + 8)"
    "csrs (exec uservec_code u) Satp = load64 (amem u) p" "xr (exec uservec_code u) TP = xr u TP"
    "c \<notin> {Satp, Sscratch} \<Longrightarrow> csrs (exec uservec_code u) c = csrs u c"
proof -
  let ?c = "take 69 uservec_code" and ?d = "[LD SP 8 A0, LD T1 0 A0, CSRW Satp T1, SFENCE, LD T0 16 A0]"
  have c: "uservec_code = ?c @ ?d" by (simp add: uservec_code_def)
  have x: "xr (exec ?c u) A0 = p" "xr (exec ?c u) TP = xr u TP"
    "c \<noteq> Sscratch \<Longrightarrow> csrs (exec ?c u) c = csrs u c" for c
    using assms(1) by (simp_all add: uservec_code_def exec_simps)
  have m: "amem (exec uservec_code u) = amem (exec ?c u)" by (subst c) (simp add: exec_append exec_simps)
  note k = uservec_kept [OF assms, unfolded m]
  show "xr (exec uservec_code u) T0 = load64 (amem u) (p + 16)" "xr (exec uservec_code u) SP = load64 (amem u) (p + 8)"
    "csrs (exec uservec_code u) Satp = load64 (amem u) p" "xr (exec uservec_code u) TP = xr u TP"
    "c \<notin> {Satp, Sscratch} \<Longrightarrow> csrs (exec uservec_code u) c = csrs u c"
    by (subst c, simp add: exec_append exec_simps x k k [of 0, simplified])+
qed

text \<open>\<open>userret\<close> loads every register from the trapframe; \<open>a0\<close> last.\<close>

lemma userret_regs:
  assumes "xr m A0 = p"
  shows "xr (exec userret_code m) r = load64 (amem m) (p + tf_off r)"
    and "i < 32 \<Longrightarrow> fr (exec userret_code m) i = load64 (amem m) (p + tf_foff i)"
    and "fcsr (exec userret_code m) = load64 (amem m) (p + 544)"
    and "csrs (exec userret_code m) = (csrs m)(Satp := xr m A1)" and "amem (exec userret_code m) = amem m"
proof -
  show "xr (exec userret_code m) r = load64 (amem m) (p + tf_off r)"
    using assms by (cases r) (simp_all add: userret_code_def exec_simps)
  have "\<forall>i \<in> set [0..<32]. fr (exec userret_code m) i = load64 (amem m) (p + tf_foff i)"
    unfolding upt_32 using assms by (simp add: userret_code_def exec_simps tf_foff_def)
  then show "i < 32 \<Longrightarrow> fr (exec userret_code m) i = load64 (amem m) (p + tf_foff i)" by simp
  show "fcsr (exec userret_code m) = load64 (amem m) (p + 544)"
    "csrs (exec userret_code m) = (csrs m)(Satp := xr m A1)" "amem (exec userret_code m) = amem m"
    using assms by (simp_all add: userret_code_def exec_simps)
qed

text \<open>A list of distinct stores is read back word by word.\<close>

lemma store_all_read:
  assumes "aligned 8 p" and "\<forall>k \<in> fst ` set ws. 8 dvd unat k" and "distinct (map fst ws)" and "(k, v) \<in> set ws"
  shows "load64 (store_all p ws m) (p + k) = v"
proof -
  have "map_of (rev ws) k = Some v"
    by (rule map_of_is_SomeI) (use assms(3,4) in \<open>auto simp: rev_map [symmetric]\<close>)
  moreover have "8 dvd unat k" using assms(2,4) by fastforce
  ultimately show ?thesis using load_store_all [OF assms(1,2)] by simp
qed

text \<open>\<open>sys_trap_vector\<close>: the frame on the kernel stack.\<close>

definition kv_off :: "reg \<Rightarrow> u64" where "kv_off r = tf_off r - 40"

definition kv_words :: "mach \<Rightarrow> (u64 \<times> u64) list" where
  "kv_words u = map (\<lambda>r. (kv_off r, xr u r)) [RA, GP, TP, T0, T1, T2, S0, S1, A0, A1, A2, A3, A4, A5, A6, A7, S2, S3, S4,
     S5, S6, S7, S8, S9, S10, S11, T3, T4, T5, T6, SP]"

lemma kv_mem: "amem (exec sys_trap_vector_save u) = store_all (xr u SP - 256) (kv_words u) (amem u)"
  by (simp add: sys_trap_vector_save_def exec_simps store_all_def kv_words_def kv_off_def)

lemma kv_saved:
  assumes "aligned 8 (xr u SP)"
  shows "load64 (amem (exec sys_trap_vector_save u)) (xr u SP - 256 + kv_off r) = xr u r"
proof -
  have a: "aligned 8 (xr u SP - 256)" using aligned8_add [OF assms, of "- 256"] by simp
  have "(kv_off r, xr u r) \<in> set (kv_words u)" by (cases r) (simp_all add: kv_words_def)
  then show ?thesis
    unfolding kv_mem by (rule store_all_read [OF a, rotated -1]) (simp_all add: kv_words_def kv_off_def)
qed

lemma kv_regs:
  "xr (exec sys_trap_vector_restore m) r = (if r = SP then xr m SP + 256 else load64 (amem m) (xr m SP + kv_off r))"
  "csrs (exec sys_trap_vector_restore m) = csrs m"
  by (cases r) (simp_all add: sys_trap_vector_restore_def exec_simps kv_off_def)

text \<open>\<open>swtch\<close>: the callee-saved registers in \<open>struct context\<close>.\<close>

definition callee_saved :: "reg list" where
  "callee_saved = [S0, S1, S2, S3, S4, S5, S6, S7, S8, S9, S10, S11, RA, SP]"

primrec ctx_off_in :: "reg list \<Rightarrow> u64 \<Rightarrow> reg \<Rightarrow> u64" where
  "ctx_off_in [] k r = k"
| "ctx_off_in (x # xs) k r = (if r = x then k else ctx_off_in xs (k + 8) r)"

definition ctx_off :: "reg \<Rightarrow> u64" where "ctx_off = ctx_off_in callee_saved 0"

lemmas ctx_simps = callee_saved_def ctx_off_def

definition ctx_words :: "mach \<Rightarrow> (u64 \<times> u64) list" where
  "ctx_words u = map (\<lambda>r. (ctx_off r, xr u r)) callee_saved"

lemma swtch_saves: "amem (exec swtch_code u) = store_all (xr u A0) (ctx_words u) (amem u)"
  by (simp add: swtch_code_def exec_simps store_all_def ctx_words_def ctx_simps)

lemma swtch_loads: "r \<in> set callee_saved \<Longrightarrow> xr (exec swtch_code u) r = load64 (amem (exec swtch_code u)) (xr u A1 + ctx_off r)"
  by (auto simp: swtch_code_def exec_simps ctx_simps)

lemma ctx_words_far:
  assumes "aligned 8 c" and "aligned 8 d" and "112 \<le> c - d" and "112 \<le> d - c" and "r \<in> set callee_saved"
  shows "load64 (store_all c (ctx_words u) m) (d + ctx_off r) = load64 m (d + ctx_off r)"
proof -
  have off: "8 dvd unat (ctx_off r)" "ctx_off r < 112" if "r \<in> set callee_saved" for r
    using that by (auto simp: ctx_simps)
  have ne: "c + ctx_off x \<noteq> d + ctx_off r" if "x \<in> set callee_saved" for x
  proof
    assume "c + ctx_off x = d + ctx_off r"
    then have "c - d = ctx_off r - ctx_off x" "d - c = ctx_off x - ctx_off r" by (simp_all add: algebra_simps)
    moreover have "a - b < 112" if "b \<le> a" "a < 112" for a b :: u64
      using that by (simp add: word_less_nat_alt word_le_nat_alt unat_sub)
    ultimately show False using off(2) [OF that] off(2) [OF assms(5)] assms(3,4) by (metis linorder_le_cases not_less)
  qed
  have "load64 (store64 m' (c + ctx_off x) v) (d + ctx_off r) = load64 m' (d + ctx_off r)" if "x \<in> set callee_saved" for x v m'
    using ne [OF that] off(1) [OF that] off(1) [OF assms(5)] assms(1,2) aligned8_add by (intro load_store_other) auto
  then have "set xs \<subseteq> set callee_saved \<Longrightarrow>
      load64 (fold (\<lambda>x m. store64 m (c + ctx_off x) (xr u x)) xs m') (d + ctx_off r) = load64 m' (d + ctx_off r)" for xs m'
    by (induction xs arbitrary: m') simp_all
  then show ?thesis by (simp add: store_all_def ctx_words_def fold_map comp_def)
qed

lemma ctx_saved:
  assumes "aligned 8 c" and "r \<in> set callee_saved"
  shows "load64 (store_all c (ctx_words u) m) (c + ctx_off r) = xr u r"
  by (rule store_all_read [OF assms(1)]) (use assms(2) in \<open>auto simp: ctx_words_def ctx_simps\<close>)

section \<open>Properties\<close>

text \<open>
  Property C18 (roundtrip). An interrupt of kernel code is transparent: if the handler
  returns with the stack pointer it was called with (as the C calling convention promises) and
  leaves the 256 bytes of the frame alone, every register has the value it had at the
  interrupt, whatever the handler does to the registers.
\<close>

theorem kernel_interrupt_transparent:
  assumes "aligned 8 (xr u SP)" and "xr v SP = xr (exec sys_trap_vector_save u) SP"
    and "\<forall>r. load64 (amem v) (xr v SP + kv_off r) = load64 (amem (exec sys_trap_vector_save u)) (xr v SP + kv_off r)"
  shows "xr (exec sys_trap_vector_restore v) = xr u \<and> csrs (exec sys_trap_vector_restore v) = csrs v"
proof -
  have "xr (exec sys_trap_vector_save u) SP = xr u SP - 256" by (simp add: sys_trap_vector_save_def exec_simps)
  then have "xr (exec sys_trap_vector_restore v) r = xr u r" for r
    using assms kv_saved [OF assms(1), of r] by (auto simp: kv_regs)
  then show ?thesis by (auto simp: kv_regs)
qed

definition tiny_mach :: mach where
  "tiny_mach = \<lparr>xr = (\<lambda>r. if r = SP then 0x80010000 else if r = A0 then 0x80020000 else if r = A1 then 0x80020080 else
       if r = RA then 42 else 7), fr = (\<lambda>_. 0), fcsr = 0, csrs = (\<lambda>c. if c = Mscratch then 0x80000100 else
       if c = Sscratch then 0x80030000 else if c = Sepc then 0x1000 else 0), amem = (\<lambda>_. 0)\<rparr>"

theorem kernel_interrupt_transparent_witness:
  "xr (exec sys_trap_vector_restore ((exec sys_trap_vector_save tiny_mach)\<lparr>xr := (\<lambda>_. 0)(SP := 0x8000ff00)\<rparr>)) = xr tiny_mach"
proof -
  have sp: "xr (exec sys_trap_vector_save tiny_mach) SP = 0x8000ff00"
    by (simp add: sys_trap_vector_save_def exec_simps tiny_mach_def)
  show ?thesis
    using kernel_interrupt_transparent [of tiny_mach "(exec sys_trap_vector_save tiny_mach)\<lparr>xr := (\<lambda>_. 0)(SP := 0x8000ff00)\<rparr>"]
    by (simp add: sp) (simp add: tiny_mach_def aligned_def)
qed

text \<open>
  Property C21 (roundtrip). \<open>swtch\<close> saves a context and loads another: afterwards the
  callee-saved registers, the stack pointer and the return address are those of the new context,
  and when a later \<open>swtch\<close> switches back to the old one, with its words untouched, they are
  again what they were at the first call, whatever has run in between.
\<close>

theorem swtch_round_trip:
  assumes "aligned 8 c" and "aligned 8 d" and "aligned 8 e" and "112 \<le> c - d" and "112 \<le> d - c"
    and "112 \<le> e - c" and "112 \<le> c - e"
    and "xr u A0 = c" and "xr u A1 = d" and "xr v A0 = e" and "xr v A1 = c"
    and "\<forall>r \<in> set callee_saved. load64 (amem v) (c + ctx_off r) = load64 (amem (exec swtch_code u)) (c + ctx_off r)"
  shows "\<forall>r \<in> set callee_saved. xr (exec swtch_code u) r = load64 (amem u) (d + ctx_off r) \<and>
    xr (exec swtch_code v) r = xr u r"
proof
  fix r assume r: "r \<in> set callee_saved"
  have "xr (exec swtch_code u) r = load64 (amem u) (d + ctx_off r)"
    using swtch_loads [OF r, of u] ctx_words_far [OF assms(1,2,4,5) r] by (simp add: swtch_saves assms(8,9))
  moreover have "xr (exec swtch_code v) r = load64 (amem v) (c + ctx_off r)"
    using swtch_loads [OF r, of v] ctx_words_far [OF assms(3,1,6,7) r] by (simp add: swtch_saves assms(10,11))
  moreover have "load64 (amem (exec swtch_code u)) (c + ctx_off r) = xr u r"
    using ctx_saved [OF assms(1) r] by (simp add: swtch_saves assms(8))
  ultimately show "xr (exec swtch_code u) r = load64 (amem u) (d + ctx_off r) \<and> xr (exec swtch_code v) r = xr u r"
    using assms(12) r by simp
qed

theorem swtch_round_trip_witness:
  "xr (exec swtch_code tiny_mach) RA = 0 \<and>
   xr (exec swtch_code ((exec swtch_code tiny_mach)\<lparr>xr := (\<lambda>_. 5)(A0 := 0x80020080, A1 := 0x80020000)\<rparr>)) RA = 42"
proof -
  let ?v = "(exec swtch_code tiny_mach)\<lparr>xr := (\<lambda>_. 5)(A0 := 0x80020080, A1 := 0x80020000)\<rparr>"
  have t: "xr tiny_mach A0 = 0x80020000" "xr tiny_mach A1 = 0x80020080" "xr tiny_mach RA = 42"
    "load64 (amem tiny_mach) a = 0" for a
    by (simp_all add: tiny_mach_def load64_def mem_read_def upt_rec)
  show ?thesis
    using swtch_round_trip [of "0x80020000" "0x80020080" "0x80020080" tiny_mach ?v] t
    by (simp add: aligned_def callee_saved_def)
qed

text \<open>
  The machine-mode timer interrupt moves the deadline on by the
  interval in \<open>timer_scratch\<close>, raises exactly the supervisor software interrupt and gives
  every register and \<open>mscratch\<close> back as they were, so that the next one finds the same array.
\<close>

theorem timervec_rearms:
  assumes "aligned 8 q" and "csrs u Mscratch = q" and "load64 (amem u) (q + 24) = t" and "aligned 8 t"
    and "t \<notin> {q, q + 8, q + 16, q + 24, q + 32}"
  shows "xr (exec timervec_code u) = xr u \<and> csrs (exec timervec_code u) = (csrs u)(Sip := 2) \<and>
    load64 (amem (exec timervec_code u)) t = load64 (amem u) t + load64 (amem u) (q + 32) \<and>
    load64 (amem (exec timervec_code u)) (q + 24) = t \<and>
    load64 (amem (exec timervec_code u)) (q + 32) = load64 (amem u) (q + 32)"
proof -
  have al: "aligned 8 (q + 8)" "aligned 8 (q + 16)" "aligned 8 (q + 24)" "aligned 8 (q + 32)"
    using assms(1) by (simp_all add: aligned8_add)
  have q: "load64 (store64 m (q + a) v) (q + b) = load64 m (q + b)" if "a \<noteq> b" "8 dvd unat a" "8 dvd unat b" for m v a b
    using assms(1) that by (intro load_store_other) (auto intro: aligned8_add)
  have q0: "load64 (store64 m q v) (q + b) = load64 m (q + b)" "load64 (store64 m (q + b) v) q = load64 m q"
    if "b \<noteq> 0" "8 dvd unat b" for m v b using q [of 0 b] q [of b 0] that by simp_all
  have t: "load64 (store64 m t v) a = load64 m a" "load64 (store64 m a v) t = load64 m t"
    if "a \<in> {q, q + 8, q + 16, q + 24, q + 32}" for m v a
    using assms(1,4,5) al that by (auto intro!: load_store_other)
  show ?thesis
    using assms(2,3) by (auto simp: timervec_code_def exec_simps q q0 t fun_eq_iff)
qed

theorem timervec_rearms_witness:
  "load64 (amem (exec timervec_code (tiny_mach\<lparr>amem := store64 (store64 (\<lambda>_. 0) 0x80000118 0x2004000) 0x80000120 1000000\<rparr>)))
     0x2004000 = 1000000"
proof -
  have z: "load64 (\<lambda>_. 0) a = 0" for a by (simp add: load64_def mem_read_def upt_rec)
  have "load64 (store64 (store64 (\<lambda>_. 0) 0x80000118 0x2004000) 0x80000120 1000000) 0x2004000 = 0"
    "load64 (store64 (store64 (\<lambda>_. 0) 0x80000118 0x2004000) 0x80000120 1000000) 0x80000118 = 0x2004000"
    by (simp_all add: load_store_other aligned_def z)
  then show ?thesis
    using timervec_rearms [of "0x80000100" "tiny_mach\<lparr>amem := store64 (store64 (\<lambda>_. 0) 0x80000118 0x2004000) 0x80000120 1000000\<rparr>" "0x2004000"]
    by (simp add: aligned_def) (simp add: tiny_mach_def)
qed

end
