(* ===== verification/Spinlock.thy ===== *)
theory Spinlock
  imports Mem
begin

text \<open>
  The process table, the per-CPU state and the spinlocks: \<open>kernel/include/proc.h\<close> and
  \<open>kernel/proc/spinlock.c\<close>. The state record \<open>proc_st\<close> extends the memory
  state with them. Pointers to processes, files and inodes are table indices, with
  \<^term>\<open>None\<close> for NULL; a lock is named by where it lives (\<open>lockid\<close>), a sleep channel
  by the object whose address it is (\<open>chan\<close>). The kernel is built for one CPU
  (\<open>NCPU\<close> is 1), so a lock that is taken can never be released while its next
  \<open>acquire\<close> spins with interrupts off: that call never returns and is \<^term>\<open>None\<close>.
\<close>

section \<open>Data\<close>

definition NPROC :: nat where [kdefs]: "NPROC = 64"
definition NOFILE :: nat where [kdefs]: "NOFILE = 16"
definition MAXPATH :: nat where [kdefs]: "MAXPATH = 128"

datatype task_status =
  TASK_FREE | TASK_ALLOCATED | TASK_READY | TASK_RUNNING | TASK_SLEEPING | TASK_ZOMBIE

text \<open>Sleep channels: \<open>&proc[i]\<close>, \<open>&pi->nread\<close>, \<open>&pi->nwrite\<close>, a buffer,
  \<open>&disk.free[0]\<close>, \<open>&cons_buffer\<close>.\<close>

datatype chan = CNull | CProc nat | CPipeR u64 | CPipeW u64 | CBuf nat | CDisk | CCons

datatype lockid = LProc nat | LPipe u64 | LDisk

record spinlock =
  locked :: bool
  lk_cpu :: bool           \<comment> \<open>lk->cpu is the (only) CPU rather than 0\<close>

record proc_rec =
  status :: task_status
  pid :: int
  pagetable :: u64
  trapframe :: u64         \<comment> \<open>physical address of the trapframe page\<close>
  ctx_ra :: u64            \<comment> \<open>context.ra\<close>
  ctx_sp :: u64            \<comment> \<open>context.sp\<close>
  kstack :: u64
  psz :: u64               \<comment> \<open>sz, the size of the address space\<close>
  pname :: string
  parent :: "nat option"
  xstate :: "32 word"
  chan :: chan
  killed :: bool
  ofile :: "nat \<Rightarrow> nat option"
  cwd :: "nat option"
  cwd_path :: "u8 list"

record cpu_rec =
  cproc :: "nat option"    \<comment> \<open>the process running on the CPU\<close>
  noff :: int              \<comment> \<open>nesting depth of push_off\<close>
  intena :: bool           \<comment> \<open>were interrupts enabled before the outermost push_off\<close>

record proc_st = mem_st +
  procs :: "nat \<Rightarrow> proc_rec"
  cpu :: cpu_rec
  sie :: bool              \<comment> \<open>the interrupt-enable bit of sstatus\<close>
  locks :: "lockid \<Rightarrow> spinlock"
  nextpid :: int

text \<open>A zeroed process slot, as in the kernel's BSS at boot.\<close>

definition zero_proc :: proc_rec where
  "zero_proc = \<lparr>status = TASK_FREE, pid = 0, pagetable = 0, trapframe = 0, ctx_ra = 0, ctx_sp = 0, kstack = 0,
     psz = 0, pname = [], parent = None, xstate = 0, chan = CNull, killed = False, ofile = (\<lambda>_. None),
     cwd = None, cwd_path = []\<rparr>"

definition intr_get :: "'a proc_st_scheme \<Rightarrow> bool" where "intr_get s = sie s"
definition intr_off :: "'a proc_st_scheme \<Rightarrow> 'a proc_st_scheme" where "intr_off s = s\<lparr>sie := False\<rparr>"
definition intr_on :: "'a proc_st_scheme \<Rightarrow> 'a proc_st_scheme" where "intr_on s = s\<lparr>sie := True\<rparr>"

definition myproc :: "'a proc_st_scheme \<Rightarrow> nat option" where "myproc s = cproc (cpu s)"

section \<open>Spinlocks\<close>

definition initlock :: "lockid \<Rightarrow> 'a proc_st_scheme \<Rightarrow> 'a proc_st_scheme" where
  "initlock lk s = s\<lparr>locks := (locks s)(lk := \<lparr>locked = False, lk_cpu = False\<rparr>)\<rparr>"

definition push_off :: "'a proc_st_scheme \<Rightarrow> 'a proc_st_scheme" where
  "push_off s =
     (let old = intr_get s; s = intr_off s; c = cpu s;
          c = (if noff c = 0 then c\<lparr>intena := old\<rparr> else c)
      in s\<lparr>cpu := c\<lparr>noff := noff c + 1\<rparr>\<rparr>)"

definition pop_off :: "'a proc_st_scheme \<Rightarrow> 'a proc_st_scheme" where
  "pop_off s =
     (let c = (cpu s)\<lparr>noff := noff (cpu s) - 1\<rparr>; s = s\<lparr>cpu := c\<rparr>
      in if noff c = 0 \<and> intena c then intr_on s else s)"

definition acquire :: "lockid \<Rightarrow> 'a proc_st_scheme \<Rightarrow> 'a proc_st_scheme option" where
  "acquire lk s =
     (let s = push_off s in
      if locked (locks s lk) then None  \<comment> \<open>spins for ever\<close>
      else Some (s\<lparr>locks := (locks s)(lk := \<lparr>locked = True, lk_cpu = True\<rparr>)\<rparr>))"

definition release :: "lockid \<Rightarrow> 'a proc_st_scheme \<Rightarrow> 'a proc_st_scheme" where
  "release lk s = pop_off (s\<lparr>locks := (locks s)(lk := \<lparr>locked = False, lk_cpu = False\<rparr>)\<rparr>)"

definition holding :: "lockid \<Rightarrow> 'a proc_st_scheme \<Rightarrow> bool" where
  "holding lk s = (locked (locks s lk) \<and> lk_cpu (locks s lk))"

lemmas lock_defs = push_off_def pop_off_def acquire_def release_def holding_def intr_get_def
  intr_off_def intr_on_def initlock_def

section \<open>The lock discipline\<close>

text \<open>
  The state of the CPU when the locks of \<open>L\<close> are held and nothing else: the nesting
  depth is their number, interrupts are off while any is held, and when none is held they
  are as they were before the outermost \<open>push_off\<close>.
\<close>

definition lock_free :: spinlock where
  "lock_free = \<lparr>locked = False, lk_cpu = False\<rparr>"

definition holds :: "'a proc_st_scheme \<Rightarrow> lockid set \<Rightarrow> bool \<Rightarrow> bool" where
  "holds s L ie \<longleftrightarrow> finite L \<and> noff (cpu s) = int (card L) \<and>
     (\<forall>l \<in> L. locked (locks s l) \<and> lk_cpu (locks s l)) \<and>
     (\<forall>l. l \<notin> L \<longrightarrow> locks s l = lock_free) \<and>
     (L = {} \<longrightarrow> sie s = ie) \<and> (L \<noteq> {} \<longrightarrow> \<not> sie s \<and> intena (cpu s) = ie)"

lemma acquire_free:
  assumes "\<not> locked (locks s lk)"
  shows "acquire lk s = Some ((push_off s)\<lparr>locks := (locks s)(lk := \<lparr>locked = True, lk_cpu = True\<rparr>)\<rparr>)"
  using assms by (simp add: lock_defs Let_def)

lemma holds_acquire:
  assumes "holds s L ie" and "lk \<notin> L"
  shows "\<exists>s'. acquire lk s = Some s' \<and> holds s' (insert lk L) ie \<and>
     procs s' = procs s \<and> cproc (cpu s') = cproc (cpu s)"
proof -
  have L: "finite L" "\<not> locked (locks s lk)" "(noff (cpu s) = 0) = (L = {})"
    using assms by (auto simp: holds_def lock_free_def)
  have "holds ((push_off s)\<lparr>locks := (locks s)(lk := \<lparr>locked = True, lk_cpu = True\<rparr>)\<rparr>) (insert lk L) ie"
    using assms L(1,3) by (cases "L = {}") (auto simp: holds_def lock_defs Let_def)
  then show ?thesis using L(2) by (simp add: acquire_free) (simp add: lock_defs Let_def)
qed

lemma holds_release:
  assumes "holds s L ie" and "lk \<in> L"
  shows "holds (release lk s) (L - {lk}) ie"
    and "procs (release lk s) = procs s" and "cproc (cpu (release lk s)) = cproc (cpu s)"
proof -
  have fin: "finite L" using assms by (simp add: holds_def)
  have n: "int (card (L - {lk})) = int (card L) - 1"
    using fin assms(2) card_gt_0_iff [of L] by (simp add: card_Diff_singleton) fastforce
  have "(int (card L) = 1) = (L - {lk} = {})"
    using n fin card_0_eq [of "L - {lk}"] by (metis diff_self eq_iff_diff_eq_0 finite_Diff int_ops(1) of_nat_eq_iff)
  then show "holds (release lk s) (L - {lk}) ie"
    using assms n by (cases "L - {lk} = {}") (auto simp: lock_defs holds_def Let_def lock_free_def)
qed (simp_all add: lock_defs Let_def)

lemma holds_acquire_twice: "holds s L ie \<Longrightarrow> lk \<in> L \<Longrightarrow> acquire lk s = None"
  by (auto simp: holds_def lock_defs Let_def split: if_splits)

end
