(* ===== verification/Bcache.thy ===== *)
theory Bcache
  imports Spinlock "HOL-Library.Multiset"
begin

text \<open>
  The block buffer cache, \<open>kernel/fs/bio.c\<close>: a pool of \<open>NBUF\<close> buffers on a
  doubly linked ring in least-recently-used order, with \<open>bcache.head\<close> as sentinel. A
  buffer pointer is an index; index \<open>NBUF\<close> is \<open>&bcache.head\<close>. The disk is a
  function from block numbers to block contents, and \<open>disk_rw\<close> is what the driver's
  \<open>virtio_disk_rw\<close> promises (one whole block is transferred).

  The first part shows that the pointer code implements an LRU list; the second states the
  contract of the cache as the locale \<open>buffer_cache\<close> (what a client that reads,
  updates and releases blocks may rely on), proves the clients' patterns in it, and
  interprets it on \<open>bread\<close>, \<open>bwrite\<close> and \<open>brelse\<close>.
\<close>

section \<open>Data\<close>

definition BSIZE :: nat where [kdefs]: "BSIZE = 1024"
definition NBUF :: nat where [kdefs]: "NBUF = 30"
definition ROOTDEV :: u32 where [kdefs]: "ROOTDEV = 1"

record superblock =
  magic :: u32
  sb_size :: u32
  nblocks :: u32
  ninodes :: u32
  nlog :: u32
  logstart :: u32
  inodestart :: u32
  bmapstart :: u32

record buf =
  b_valid :: bool
  b_disk :: bool
  b_dev :: u32
  b_blockno :: u32
  b_refcnt :: u32
  b_prev :: nat
  b_next :: nat
  b_data :: "u8 list"

record blk_st = proc_st +
  disk_blocks :: "u32 \<Rightarrow> u8 list"
  bcache :: "nat \<Rightarrow> buf"
  sb :: superblock

abbreviation "bhead \<equiv> NBUF"

definition upd_buf :: "nat \<Rightarrow> (buf \<Rightarrow> buf) \<Rightarrow> (nat \<Rightarrow> buf) \<Rightarrow> (nat \<Rightarrow> buf)" where
  "upd_buf b f bc = bc(b := f (bc b))"

section \<open>Operations\<close>

text \<open>Head insertion, as \<open>binit\<close> does it for one buffer.\<close>

definition binit_step :: "nat \<Rightarrow> (nat \<Rightarrow> buf) \<Rightarrow> (nat \<Rightarrow> buf)" where
  "binit_step b bc =
     (let bc = upd_buf b (b_next_update (\<lambda>_. b_next (bc bhead))) bc;
          bc = upd_buf (b_next (bc bhead)) (b_prev_update (\<lambda>_. b)) bc;
          bc = upd_buf bhead (b_next_update (\<lambda>_. b)) bc
      in upd_buf b (b_prev_update (\<lambda>_. bhead)) bc)"

definition binit :: "'a blk_st_scheme \<Rightarrow> 'a blk_st_scheme" where
  "binit s =
     (let bc = upd_buf bhead (b_prev_update (\<lambda>_. bhead)) (bcache s);
          bc = upd_buf bhead (b_next_update (\<lambda>_. bhead)) bc
      in s\<lparr>bcache := fold binit_step [0..<NBUF] bc\<rparr>)"

text \<open>The two scans of \<open>bget\<close>; the inner option is the buffer found.\<close>

partial_function (option) bscan :: "(nat \<Rightarrow> buf) \<Rightarrow> u32 \<Rightarrow> u32 \<Rightarrow> nat \<Rightarrow> nat option option" where
  "bscan bc dev blockno b =
     (if b = bhead then Some None
      else if b_dev (bc b) = dev \<and> b_blockno (bc b) = blockno then Some (Some b)
      else bscan bc dev blockno (b_next (bc b)))"

partial_function (option) bscan_free :: "(nat \<Rightarrow> buf) \<Rightarrow> nat \<Rightarrow> nat option option" where
  "bscan_free bc b =
     (if b = bhead then Some None
      else if b_refcnt (bc b) = 0 then Some (Some b)
      else bscan_free bc (b_prev (bc b)))"

declare bscan.simps [code] bscan_free.simps [code]

definition bget :: "'a blk_st_scheme \<Rightarrow> u32 \<Rightarrow> u32 \<Rightarrow> (nat \<times> 'a blk_st_scheme) option" where
  "bget s dev blockno =
     do { r \<leftarrow> bscan (bcache s) dev blockno (b_next (bcache s bhead));
          (case r of
             Some b \<Rightarrow> Some (b, s\<lparr>bcache := upd_buf b (\<lambda>x. x\<lparr>b_refcnt := b_refcnt x + 1\<rparr>) (bcache s)\<rparr>)
           | None \<Rightarrow>
               do { r \<leftarrow> bscan_free (bcache s) (b_prev (bcache s bhead));
                    (case r of
                       Some b \<Rightarrow> Some (b, s\<lparr>bcache := upd_buf b (\<lambda>x. x\<lparr>b_dev := dev, b_blockno := blockno,
                                            b_valid := False, b_refcnt := 1\<rparr>) (bcache s)\<rparr>)
                     | None \<Rightarrow> None) }) }"  \<comment> \<open>panic: bget: no buffers\<close>

text \<open>The driver's contract: one block moves between the buffer and the disk.\<close>

definition disk_rw :: "nat \<Rightarrow> bool \<Rightarrow> 'a blk_st_scheme \<Rightarrow> 'a blk_st_scheme" where
  "disk_rw b write s =
     (if write
      then s\<lparr>disk_blocks := (disk_blocks s)(b_blockno (bcache s b) := b_data (bcache s b)),
             bcache := upd_buf b (b_disk_update (\<lambda>_. False)) (bcache s)\<rparr>
      else s\<lparr>bcache := upd_buf b (\<lambda>x. x\<lparr>b_disk := False, b_data := disk_blocks s (b_blockno x)\<rparr>) (bcache s)\<rparr>)"

definition bread :: "'a blk_st_scheme \<Rightarrow> u32 \<Rightarrow> u32 \<Rightarrow> (nat \<times> 'a blk_st_scheme) option" where
  "bread s dev blockno =
     do { (b, s) \<leftarrow> bget s dev blockno;
          if \<not> b_valid (bcache s b)
          then let s = s\<lparr>bcache := upd_buf b (b_valid_update (\<lambda>_. True)) (bcache s)\<rparr>
               in Some (b, disk_rw b False s)
          else Some (b, s) }"

definition bwrite :: "nat \<Rightarrow> 'a blk_st_scheme \<Rightarrow> 'a blk_st_scheme" where
  "bwrite b s = disk_rw b True s"

definition brelse_unlink :: "nat \<Rightarrow> (nat \<Rightarrow> buf) \<Rightarrow> (nat \<Rightarrow> buf)" where
  "brelse_unlink b bc =
     (let bc = upd_buf (b_prev (bc b)) (b_next_update (\<lambda>_. b_next (bc b))) bc;
          bc = upd_buf (b_next (bc b)) (b_prev_update (\<lambda>_. b_prev (bc b))) bc;
          bc = upd_buf b (b_next_update (\<lambda>_. b_next (bc bhead))) bc;
          bc = upd_buf (b_next (bc bhead)) (b_prev_update (\<lambda>_. b)) bc;
          bc = upd_buf b (b_prev_update (\<lambda>_. bhead)) bc
      in upd_buf bhead (b_next_update (\<lambda>_. b)) bc)"

definition brelse :: "nat \<Rightarrow> 'a blk_st_scheme \<Rightarrow> 'a blk_st_scheme" where
  "brelse b s =
     (let bc = upd_buf b (\<lambda>x. x\<lparr>b_refcnt := b_refcnt x - 1\<rparr>) (bcache s)
      in s\<lparr>bcache := (if b_refcnt (bc b) = 0 then brelse_unlink b bc else bc)\<rparr>)"

section \<open>The ring as a list\<close>

text \<open>\<open>links nx pv l\<close>: consecutive elements of \<open>l\<close> point at each other.\<close>

fun links :: "('p \<Rightarrow> 'p) \<Rightarrow> ('p \<Rightarrow> 'p) \<Rightarrow> 'p list \<Rightarrow> bool" where
  "links nx pv (a # b # l) = (nx a = b \<and> pv b = a \<and> links nx pv (b # l))"
| "links nx pv _ = True"

lemma links_append:
  "links nx pv (l @ x # k) \<longleftrightarrow> links nx pv (l @ [x]) \<and> links nx pv (x # k)"
proof (induction l)
  case (Cons a l)
  then show ?case by (cases l) auto
qed simp

lemma links_cong:
  assumes "\<forall>a \<in> set (butlast l). nx' a = nx a" and "\<forall>b \<in> set (tl l). pv' b = pv b"
  shows "links nx' pv' l = links nx pv l"
  using assms by (induction nx pv l rule: links.induct) auto

definition ring :: "(nat \<Rightarrow> buf) \<Rightarrow> nat list \<Rightarrow> bool" where
  "ring bc xs \<longleftrightarrow> distinct (bhead # xs) \<and>
     links (\<lambda>b. b_next (bc b)) (\<lambda>b. b_prev (bc b)) (bhead # xs @ [bhead])"

lemma links_insert:
  assumes "distinct (h # xs)" and "b \<notin> set (h # xs)" and "links nx pv (h # xs @ [h])"
  shows "links (nx(b := nx h, h := b)) (pv(nx h := b, b := h)) (h # b # xs @ [h])"
proof (cases xs)
  case Nil
  then show ?thesis using assms by simp
next
  case (Cons x ys)
  have "links (nx(b := nx h, h := b)) (pv(nx h := b, b := h)) (x # ys @ [h])
      = links nx pv (x # ys @ [h])"
    using assms Cons by (intro links_cong) (auto simp: butlast_append)
  then show ?thesis using assms Cons by auto
qed

text \<open>Pointer updates act on the successor and predecessor functions.\<close>

lemma upd_buf_links [simp]:
  "b_next (upd_buf p (b_next_update (\<lambda>_. v)) bc x) = (if x = p then v else b_next (bc x))"
  "b_prev (upd_buf p (b_next_update f) bc x) = b_prev (bc x)"
  "b_prev (upd_buf p (b_prev_update (\<lambda>_. v)) bc x) = (if x = p then v else b_prev (bc x))"
  "b_next (upd_buf p (b_prev_update f) bc x) = b_next (bc x)"
  by (simp_all add: upd_buf_def)

lemma upd_buf_fields [simp]:
  "b_dev (upd_buf p (b_next_update f) bc x) = b_dev (bc x)"
  "b_dev (upd_buf p (b_prev_update f) bc x) = b_dev (bc x)"
  "b_blockno (upd_buf p (b_next_update f) bc x) = b_blockno (bc x)"
  "b_blockno (upd_buf p (b_prev_update f) bc x) = b_blockno (bc x)"
  "b_refcnt (upd_buf p (b_next_update f) bc x) = b_refcnt (bc x)"
  "b_refcnt (upd_buf p (b_prev_update f) bc x) = b_refcnt (bc x)"
  "b_valid (upd_buf p (b_next_update f) bc x) = b_valid (bc x)"
  "b_valid (upd_buf p (b_prev_update f) bc x) = b_valid (bc x)"
  "b_data (upd_buf p (b_next_update f) bc x) = b_data (bc x)"
  "b_data (upd_buf p (b_prev_update f) bc x) = b_data (bc x)"
  by (simp_all add: upd_buf_def)

text \<open>The neighbours of an element of the ring.\<close>

lemma split_ends:
  obtains l' p n r' where "h # l = l' @ [p]" and "r @ [h] = n # r'"
    and "h # l @ b # r @ [h] = l' @ p # b # n # r'" and "h # l @ r @ [h] = l' @ p # n # r'"
proof -
  obtain l' p where l: "h # l = l' @ [p]" by (metis list.distinct(1) rev_exhaust)
  obtain n r' where r: "r @ [h] = n # r'" by (cases "r @ [h]") auto
  have "h # l @ b # r @ [h] = (h # l) @ b # (r @ [h])" "h # l @ r @ [h] = (h # l) @ (r @ [h])"
    by simp_all
  then show ?thesis using that [OF l r] unfolding l r by simp
qed

lemma links_snoc:
  "links nx pv (h # xs @ [x]) \<longleftrightarrow>
    links nx pv (h # xs) \<and> nx (last (h # xs)) = x \<and> pv x = last (h # xs)"
proof -
  obtain l p where l: "h # xs = l @ [p]" by (metis list.distinct(1) rev_exhaust)
  then have e: "h # xs @ [x] = l @ p # [x]" by (metis append.assoc append_Cons append_Nil)
  show ?thesis unfolding e l using links_append [of nx pv l p "[x]"] by auto
qed

lemma links_unlink:
  assumes "distinct (h # l @ b # r)" and "links nx pv (h # l @ b # r @ [h])"
  shows "links (nx(pv b := nx b)) (pv(nx b := pv b)) (h # l @ r @ [h])"
proof -
  obtain l' p n r' where l: "h # l = l' @ [p]" and r: "r @ [h] = n # r'"
    and eq: "h # l @ b # r @ [h] = l' @ p # b # n # r'" "h # l @ r @ [h] = l' @ p # n # r'"
    by (rule split_ends)
  have lk: "links nx pv (l' @ [p])" "nx p = b" "pv b = p" "nx b = n" "pv n = b" "links nx pv (n # r')"
    using assms(2) links_append [of nx pv l' p "b # n # r'"] unfolding eq(1) by auto
  have "r = butlast (n # r')" "l = tl (l' @ [p])" using l r by (metis butlast_snoc, metis list.sel(3))
  then have d: "distinct ((l' @ [p]) @ b # butlast (n # r'))" "distinct (tl (l' @ [p]) @ b # n # r')"
    using assms(1) by (auto simp flip: l r)
  let ?nx = "nx(p := n)" and ?pv = "pv(n := p)"
  have "links ?nx ?pv (l' @ [p]) = links nx pv (l' @ [p])"
    using d by (intro links_cong) auto
  moreover have "links ?nx ?pv (n # r') = links nx pv (n # r')"
    using d by (intro links_cong) auto
  moreover have "links ?nx ?pv (l' @ p # n # r') =
      (links ?nx ?pv (l' @ [p]) \<and> links ?nx ?pv (p # n # r'))" by (rule links_append)
  ultimately show ?thesis unfolding eq(2) using lk by simp
qed

lemma ring_binit_step:
  assumes "ring bc xs" and "b \<notin> set (bhead # xs)"
  shows "ring (binit_step b bc) (b # xs)"
proof -
  let ?nx = "\<lambda>x. b_next (bc x)" and ?pv = "\<lambda>x. b_prev (bc x)"
  have "(\<lambda>x. b_next (binit_step b bc x)) = ?nx(b := ?nx bhead, bhead := b)"
    "(\<lambda>x. b_prev (binit_step b bc x)) = ?pv(?nx bhead := b, b := bhead)"
    using assms(2) by (auto simp: binit_step_def fun_eq_iff Let_def)
  then show ?thesis
    using assms links_insert [of bhead xs b ?nx ?pv] by (auto simp: ring_def)
qed

lemma ring_brelse_unlink:
  assumes "ring bc (l @ b # r)"
  shows "ring (brelse_unlink b bc) (b # l @ r)"
proof -
  let ?nx = "\<lambda>x. b_next (bc x)" and ?pv = "\<lambda>x. b_prev (bc x)"
  let ?nx1 = "?nx(?pv b := ?nx b)" and ?pv1 = "?pv(?nx b := ?pv b)"
  have d: "distinct (bhead # l @ b # r)" and lk: "links ?nx ?pv (bhead # l @ b # r @ [bhead])"
    using assms by (simp_all add: ring_def)
  have pb: "?pv b \<noteq> b" "?nx b \<noteq> b"
  proof -
    obtain l' p n r' where l: "bhead # l = l' @ [p]" and r: "r @ [bhead] = n # r'"
      and eq: "bhead # l @ b # r @ [bhead] = l' @ p # b # n # r'" by (rule split_ends)
    have "?pv b = p" "?nx b = n"
      using lk links_append [of ?nx ?pv l' p "b # n # r'"] unfolding eq by auto
    moreover have "p \<in> set (bhead # l)" unfolding l by simp
    moreover have "n \<in> set (r @ [bhead])" unfolding r by simp
    ultimately show "?pv b \<noteq> b" "?nx b \<noteq> b" using d by auto
  qed
  have "(\<lambda>x. b_next (brelse_unlink b bc x)) = ?nx1(b := ?nx1 bhead, bhead := b)"
    "(\<lambda>x. b_prev (brelse_unlink b bc x)) = ?pv1(?nx1 bhead := b, b := bhead)"
    using d pb by (simp_all add: brelse_unlink_def fun_eq_iff Let_def)
  moreover have "links (?nx1(b := ?nx1 bhead, bhead := b)) (?pv1(?nx1 bhead := b, b := bhead))
      (bhead # b # (l @ r) @ [bhead])"
    using d links_unlink [OF d lk] by (intro links_insert) auto
  ultimately show ?thesis using d by (auto simp: ring_def)
qed

lemma bscan_find:
  assumes "links (\<lambda>b. b_next (bc b)) pv (xs @ [bhead])" and "bhead \<notin> set xs"
  shows "bscan bc dev n (hd (xs @ [bhead])) =
    Some (List.find (\<lambda>b. b_dev (bc b) = dev \<and> b_blockno (bc b) = n) xs)"
  using assms
proof (induction xs)
  case Nil
  then show ?case by (simp add: bscan.simps)
next
  case (Cons x xs)
  then have "b_next (bc x) = hd (xs @ [bhead])" "links (\<lambda>b. b_next (bc b)) pv (xs @ [bhead])"
    by (cases xs, auto)+
  then show ?case using Cons by (subst bscan.simps) auto
qed

lemma bscan_free_find:
  assumes "links nx (\<lambda>b. b_prev (bc b)) (bhead # xs)" and "bhead \<notin> set xs"
  shows "bscan_free bc (last (bhead # xs)) =
    Some (List.find (\<lambda>b. b_refcnt (bc b) = 0) (rev xs))"
  using assms
proof (induction xs rule: rev_induct)
  case Nil
  then show ?case by (simp add: bscan_free.simps)
next
  case (snoc x xs)
  have "b_prev (bc x) = last (bhead # xs)" "links nx (\<lambda>b. b_prev (bc b)) (bhead # xs)"
    using snoc.prems(1) by (simp_all only: links_snoc append_Cons)
  then show ?case using snoc by (subst bscan_free.simps) auto
qed

lemma ring_scans:
  assumes "ring bc xs"
  shows "bscan bc dev n (b_next (bc bhead)) =
      Some (List.find (\<lambda>b. b_dev (bc b) = dev \<and> b_blockno (bc b) = n) xs)"
    and "bscan_free bc (b_prev (bc bhead)) = Some (List.find (\<lambda>b. b_refcnt (bc b) = 0) (rev xs))"
proof -
  let ?nx = "\<lambda>x. b_next (bc x)" and ?pv = "\<lambda>x. b_prev (bc x)"
  have lk: "links ?nx ?pv (bhead # xs @ [bhead])" and h: "bhead \<notin> set xs"
    using assms by (simp_all add: ring_def)
  have "?nx bhead = hd (xs @ [bhead])" "links ?nx ?pv (xs @ [bhead])"
    using lk by (cases xs, auto)+
  then show "bscan bc dev n (b_next (bc bhead)) =
      Some (List.find (\<lambda>b. b_dev (bc b) = dev \<and> b_blockno (bc b) = n) xs)"
    using bscan_find [OF _ h, of bc ?pv dev n] by simp
  have "?pv bhead = last (bhead # xs)" "links ?nx ?pv (bhead # xs)"
    using lk by (simp_all only: links_snoc)
  then show "bscan_free bc (b_prev (bc bhead)) = Some (List.find (\<lambda>b. b_refcnt (bc b) = 0) (rev xs))"
    using bscan_free_find [OF _ h, of ?nx bc] by simp
qed

lemma ring_cong:
  assumes "\<And>b. b_next (bc' b) = b_next (bc b)" and "\<And>b. b_prev (bc' b) = b_prev (bc b)"
  shows "ring bc' xs = ring bc xs"
  using assms by (simp add: ring_def)

lemma binit_ring: "ring (bcache (binit s)) (rev [0..<NBUF])"
proof -
  have "ring (fold binit_step [0..<n] bc) (rev [0..<n])" if "n \<le> NBUF" "ring bc []" for n bc
    using that(1)
  proof (induction n)
    case (Suc n)
    then show ?case using ring_binit_step [of "fold binit_step [0..<n] bc" "rev [0..<n]" n] by simp
  qed (simp add: that(2))
  moreover have "ring (upd_buf bhead (b_next_update (\<lambda>_. bhead)) (upd_buf bhead (b_prev_update (\<lambda>_. bhead))
      (bcache s))) []" by (simp add: ring_def)
  ultimately show ?thesis by (simp add: binit_def)
qed

section \<open>The least-recently-used list\<close>

text \<open>
  The abstract cache: entries (buffer, device, block, reference count), most recently used
  first. A lookup takes the first entry for the block, or else evicts the last
  unreferenced entry; releasing the last reference moves the entry to the front.
\<close>

type_synonym lru = "(nat \<times> u32 \<times> u32 \<times> u32) list"

definition lru_of :: "(nat \<Rightarrow> buf) \<Rightarrow> nat list \<Rightarrow> lru" where
  "lru_of bc xs = map (\<lambda>b. (b, b_dev (bc b), b_blockno (bc b), b_refcnt (bc b))) xs"

definition lru_set :: "nat \<Rightarrow> u32 \<times> u32 \<times> u32 \<Rightarrow> lru \<Rightarrow> lru" where
  "lru_set b e es = map (\<lambda>(c, x). if c = b then (b, e) else (c, x)) es"

definition lru_get :: "u32 \<Rightarrow> u32 \<Rightarrow> lru \<Rightarrow> (nat \<times> lru) option" where
  "lru_get dev n es =
     (case List.find (\<lambda>(b, d, k, r). d = dev \<and> k = n) es of
        Some (b, d, k, r) \<Rightarrow> Some (b, lru_set b (d, k, r + 1) es)
      | None \<Rightarrow>
          (case List.find (\<lambda>(b, d, k, r). r = 0) (rev es) of
             Some (b, d, k, r) \<Rightarrow> Some (b, lru_set b (dev, n, 1) es)
           | None \<Rightarrow> None))"

definition lru_release :: "nat \<Rightarrow> lru \<Rightarrow> lru" where
  "lru_release b es =
     (case List.find (\<lambda>(c, x). c = b) es of
        Some (c, d, k, r) \<Rightarrow>
          (if r = 1 then (b, d, k, 0) # filter (\<lambda>(c, x). c \<noteq> b) es
           else lru_set b (d, k, r - 1) es)
      | None \<Rightarrow> es)"

lemma lru_set_of:
  assumes "b_dev (f (bc b)) = d" and "b_blockno (f (bc b)) = k" and "b_refcnt (f (bc b)) = r"
  shows "lru_set b (d, k, r) (lru_of bc xs) = lru_of (upd_buf b f bc) xs"
  using assms by (auto simp: lru_set_def lru_of_def upd_buf_def)

lemma lru_of_upd_other: "b \<notin> set xs \<Longrightarrow> lru_of (upd_buf b f bc) xs = lru_of bc xs"
  by (auto simp: lru_of_def upd_buf_def)

lemma filter_lru: "filter (\<lambda>(c, x). c \<noteq> b) (lru_of bc xs) = lru_of bc (filter (\<lambda>c. c \<noteq> b) xs)"
  by (simp add: lru_of_def filter_map comp_def)

lemma brelse_unlink_fields [simp]:
  "b_dev (brelse_unlink b bc x) = b_dev (bc x)" "b_blockno (brelse_unlink b bc x) = b_blockno (bc x)"
  "b_refcnt (brelse_unlink b bc x) = b_refcnt (bc x)" "b_valid (brelse_unlink b bc x) = b_valid (bc x)"
  "b_data (brelse_unlink b bc x) = b_data (bc x)"
  by (simp_all add: brelse_unlink_def Let_def)

lemma bget_lru:
  assumes "ring (bcache s) xs"
  shows "(case bget s dev n of
      None \<Rightarrow> lru_get dev n (lru_of (bcache s) xs) = None
    | Some (b, s') \<Rightarrow> ring (bcache s') xs \<and>
        lru_get dev n (lru_of (bcache s) xs) = Some (b, lru_of (bcache s') xs))"
proof -
  let ?hit = "List.find (\<lambda>b. b_dev (bcache s b) = dev \<and> b_blockno (bcache s b) = n) xs"
  let ?free = "List.find (\<lambda>b. b_refcnt (bcache s b) = 0) (rev xs)"
  note scans = ring_scans(1) [OF assms, of dev n] ring_scans(2) [OF assms]
  have abs: "List.find (\<lambda>(b, d, k, r). d = dev \<and> k = n) (lru_of (bcache s) xs) =
      map_option (\<lambda>b. (b, b_dev (bcache s b), b_blockno (bcache s b), b_refcnt (bcache s b))) ?hit"
    "List.find (\<lambda>(b, d, k, r). r = 0) (rev (lru_of (bcache s) xs)) =
      map_option (\<lambda>b. (b, b_dev (bcache s b), b_blockno (bcache s b), b_refcnt (bcache s b))) ?free"
    by (simp_all add: lru_of_def find_map rev_map comp_def)
  have keep: "ring (upd_buf b f (bcache s)) xs"
    if "\<And>x. b_next (f x) = b_next x" "\<And>x. b_prev (f x) = b_prev x" for b f
    using assms that by (subst ring_cong [of _ "bcache s"]) (simp_all add: upd_buf_def)
  show ?thesis
  proof (cases ?hit)
    case (Some b)
    then show ?thesis using keep unfolding lru_get_def abs by (simp add: bget_def scans lru_set_of)
  next
    case None
    then show ?thesis using keep unfolding lru_get_def abs
      by (cases ?free) (simp_all add: bget_def scans lru_set_of)
  qed
qed

lemma brelse_lru:
  assumes "ring (bcache s) xs" and "b \<in> set xs"
  shows "\<exists>ys. ring (bcache (brelse b s)) ys \<and> set ys = set xs \<and>
    lru_release b (lru_of (bcache s) xs) = lru_of (bcache (brelse b s)) ys"
proof -
  let ?f = "\<lambda>x. x\<lparr>b_refcnt := b_refcnt x - 1\<rparr>"
  let ?bc = "upd_buf b ?f (bcache s)"
  have d: "distinct xs" using assms(1) by (simp add: ring_def)
  have r: "ring ?bc xs" using assms(1) by (subst ring_cong [of _ "bcache s"]) (simp_all add: upd_buf_def)
  have "List.find (\<lambda>(c, x). c = b) (lru_of (bcache s) xs) =
      Some (b, b_dev (bcache s b), b_blockno (bcache s b), b_refcnt (bcache s b))"
    using assms(2) d by (auto simp: lru_of_def find_Some_iff in_set_conv_nth nth_eq_iff_index_eq)
  note fnd = this
  show ?thesis
  proof (cases "b_refcnt (bcache s b) = 1")
    case True
    obtain l k where xs: "xs = l @ b # k" using assms(2) by (meson split_list)
    have "ring (brelse_unlink b ?bc) (b # l @ k)" using r xs by (intro ring_brelse_unlink) simp
    moreover have "bcache (brelse b s) = brelse_unlink b ?bc"
      using True by (simp add: brelse_def upd_buf_def)
    moreover have "filter (\<lambda>(c, x). c \<noteq> b) (lru_of (bcache s) xs) = lru_of ?bc (l @ k)"
    proof -
      have "filter (\<lambda>c. c \<noteq> b) xs = filter (\<lambda>c. c \<noteq> b) (l @ k)" using xs by simp
      also have "\<dots> = l @ k" using d xs by (intro filter_True) auto
      finally show ?thesis using d xs by (simp add: filter_lru lru_of_upd_other)
    qed
    ultimately show ?thesis using fnd True xs
      by (intro exI [of _ "b # l @ k"]) (auto simp: lru_release_def lru_of_def upd_buf_def)
  next
    case False
    then have "bcache (brelse b s) = ?bc" by (simp add: brelse_def upd_buf_def)
    then show ?thesis using fnd False r
      by (intro exI [of _ xs]) (simp add: lru_release_def lru_set_of)
  qed
qed

section \<open>The contract of the cache\<close>

text \<open>
  What the file system may assume. \<open>inv s H\<close> says that the references in the multiset
  \<open>H\<close> are held; \<open>blocks\<close> is the contents of the disk and \<open>rest\<close> all
  other state. A held buffer always shows the current contents of its block.
\<close>

locale buffer_cache =
  fixes inv :: "'s \<Rightarrow> nat multiset \<Rightarrow> bool"
    and rd :: "u32 \<Rightarrow> 's \<Rightarrow> (nat \<times> 's) option"
    and wr :: "nat \<Rightarrow> u8 list \<Rightarrow> 's \<Rightarrow> 's"
    and rel :: "nat \<Rightarrow> 's \<Rightarrow> 's"
    and dat :: "'s \<Rightarrow> nat \<Rightarrow> u8 list"
    and bno :: "'s \<Rightarrow> nat \<Rightarrow> u32"
    and blocks :: "'s \<Rightarrow> u32 \<Rightarrow> u8 list"
    and rest :: "'s \<Rightarrow> 'e"
  assumes rd_ok: "\<lbrakk>inv s H; size H < NBUF\<rbrakk> \<Longrightarrow> \<exists>b s'. rd n s = Some (b, s') \<and> inv s' (add_mset b H) \<and>
        blocks s' = blocks s \<and> rest s' = rest s \<and> bno s' b = n \<and> (\<forall>h \<in># H. bno s' h = bno s h)"
    and held: "\<lbrakk>inv s H; b \<in># H\<rbrakk> \<Longrightarrow> dat s b = blocks s (bno s b)"
    and wr_ok: "\<lbrakk>inv s H; b \<in># H; length d = BSIZE\<rbrakk> \<Longrightarrow> inv (wr b d s) H \<and>
        blocks (wr b d s) = (blocks s)(bno s b := d) \<and> rest (wr b d s) = rest s \<and>
        (\<forall>h. bno (wr b d s) h = bno s h)"
    and rel_ok: "\<lbrakk>inv s H; b \<in># H\<rbrakk> \<Longrightarrow> inv (rel b s) (H - {#b#}) \<and>
        blocks (rel b s) = blocks s \<and> rest (rel b s) = rest s \<and> (\<forall>h. bno (rel b s) h = bno s h)"
    and block_length: "inv s H \<Longrightarrow> length (blocks s n) = BSIZE"
begin

lemma read_release:
  assumes "inv s H" and "size H < NBUF"
  shows "\<exists>b s'. rd n s = Some (b, s') \<and> inv s' (add_mset b H) \<and> dat s' b = blocks s n \<and>
    blocks s' = blocks s \<and> rest s' = rest s \<and>
    inv (rel b s') H \<and> blocks (rel b s') = blocks s \<and> rest (rel b s') = rest s \<and>
    (\<forall>h \<in># H. bno s' h = bno s h \<and> bno (rel b s') h = bno s h)"
proof -
  obtain b s' where r: "rd n s = Some (b, s')" "inv s' (add_mset b H)" "blocks s' = blocks s"
    "rest s' = rest s" "bno s' b = n" "\<forall>h \<in># H. bno s' h = bno s h" using rd_ok [OF assms] by blast
  then show ?thesis using held [OF r(2), of b] rel_ok [OF r(2), of b] by auto
qed

lemma read_modify_write:
  assumes "inv s H" and "size H < NBUF"
  shows "\<exists>b s'. rd n s = Some (b, s') \<and> inv s' (add_mset b H) \<and> dat s' b = blocks s n \<and>
    blocks s' = blocks s \<and> rest s' = rest s \<and>
    (\<forall>d. length d = BSIZE \<longrightarrow> inv (rel b (wr b d s')) H \<and>
       blocks (rel b (wr b d s')) = (blocks s)(n := d) \<and> rest (rel b (wr b d s')) = rest s \<and>
       (\<forall>h \<in># H. bno (rel b (wr b d s')) h = bno s h))"
proof -
  obtain b s' where r: "rd n s = Some (b, s')" "inv s' (add_mset b H)" "blocks s' = blocks s"
    "rest s' = rest s" "bno s' b = n" "\<forall>h \<in># H. bno s' h = bno s h" using rd_ok [OF assms] by blast
  have "inv (rel b (wr b d s')) H \<and> blocks (rel b (wr b d s')) = (blocks s)(n := d) \<and>
      rest (rel b (wr b d s')) = rest s \<and> (\<forall>h \<in># H. bno (rel b (wr b d s')) h = bno s h)"
    if d: "length d = BSIZE" for d
    using wr_ok [OF r(2) _ d, of b] rel_ok [of "wr b d s'" "add_mset b H" b] r(3-6) by auto
  then show ?thesis using r held [OF r(2), of b] by auto
qed

end

definition bset :: "nat \<Rightarrow> u8 list \<Rightarrow> 'a blk_st_scheme \<Rightarrow> 'a blk_st_scheme" where
  "bset b d s = s\<lparr>bcache := upd_buf b (b_data_update (\<lambda>_. d)) (bcache s)\<rparr>"

definition bdata :: "'a blk_st_scheme \<Rightarrow> nat \<Rightarrow> u8 list" where
  "bdata s b = b_data (bcache s b)"

definition blk_rest :: "'a blk_st_scheme \<Rightarrow> 'a blk_st_scheme" where
  "blk_rest s = s\<lparr>bcache := (\<lambda>_. \<lparr>b_valid = False, b_disk = False, b_dev = 0, b_blockno = 0, b_refcnt = 0,
     b_prev = 0, b_next = 0, b_data = []\<rparr>), disk_blocks := (\<lambda>_. [])\<rparr>"

text \<open>A buffer is unused, or it holds a copy of its block.\<close>

definition buf_ok :: "(u32 \<Rightarrow> u8 list) \<Rightarrow> buf \<Rightarrow> bool" where
  "buf_ok dsk b \<longleftrightarrow> (b_dev b = 0 \<and> \<not> b_valid b \<and> b_refcnt b = 0) \<or>
     (b_dev b = ROOTDEV \<and> b_valid b \<and> b_data b = dsk (b_blockno b))"

definition bc_ok :: "(nat \<Rightarrow> buf) \<Rightarrow> (u32 \<Rightarrow> u8 list) \<Rightarrow> nat multiset \<Rightarrow> bool" where
  "bc_ok bc dsk H \<longleftrightarrow> (\<exists>xs. ring bc xs \<and> set xs = {0..<NBUF}) \<and> set_mset H \<subseteq> {0..<NBUF} \<and>
     (\<forall>b < NBUF. unat (b_refcnt (bc b)) = count H b \<and> buf_ok dsk (bc b)) \<and>
     (\<forall>b < NBUF. \<forall>c < NBUF. b_dev (bc b) = ROOTDEV \<and> b_dev (bc c) = ROOTDEV \<and>
        b_blockno (bc b) = b_blockno (bc c) \<longrightarrow> b = c) \<and>
     (\<forall>n. length (dsk n) = BSIZE)"

definition bc_inv :: "'a blk_st_scheme \<Rightarrow> nat multiset \<Rightarrow> bool" where
  "bc_inv s H \<longleftrightarrow> bc_ok (bcache s) (disk_blocks s) H"

lemma count_pigeonhole:
  assumes "size H < n"
  obtains b where "b < n" and "count H b = 0"
proof -
  have "\<exists>b < n. count H b = 0"
  proof (rule ccontr)
    assume "\<not> ?thesis"
    then have "{0..<n} \<subseteq> set_mset H" by (auto simp: count_eq_zero_iff)
    then have "n \<le> card (set_mset H)" using card_mono [of "set_mset H" "{0..<n}"] by simp
    also have "card (set_mset H) \<le> size H" using size_mset_mono [OF mset_set_set_mset_msubset, of H] by simp
    finally show False using assms by simp
  qed
  then show ?thesis using that by blast
qed

lemma bc_okD:
  assumes "bc_ok bc dsk H"
  shows "\<exists>xs. ring bc xs \<and> set xs = {0..<NBUF}" and "b \<in># H \<Longrightarrow> b < NBUF"
    and "b < NBUF \<Longrightarrow> unat (b_refcnt (bc b)) = count H b"
    and "b < NBUF \<Longrightarrow> buf_ok dsk (bc b)"
    and "b < NBUF \<Longrightarrow> c < NBUF \<Longrightarrow> b_dev (bc b) = ROOTDEV \<Longrightarrow> b_dev (bc c) = ROOTDEV \<Longrightarrow>
      b_blockno (bc b) = b_blockno (bc c) \<Longrightarrow> b = c"
    and "length (dsk n) = BSIZE"
  using assms unfolding bc_ok_def by auto

text \<open>One buffer changes: what has to be checked.\<close>

lemma bc_ok_change:
  assumes ok: "bc_ok bc dsk H" and ring: "ring bc' ys" "set ys = {0..<NBUF}" and b: "b < NBUF"
    and H: "set_mset H' \<subseteq> {0..<NBUF}" "unat (b_refcnt (bc' b)) = count H' b" "\<And>c. c \<noteq> b \<Longrightarrow> count H' c = count H c"
    and same: "\<And>c. c \<noteq> b \<Longrightarrow> b_dev (bc' c) = b_dev (bc c)" "\<And>c. c \<noteq> b \<Longrightarrow> b_blockno (bc' c) = b_blockno (bc c)"
      "\<And>c. c \<noteq> b \<Longrightarrow> b_refcnt (bc' c) = b_refcnt (bc c)" "\<And>c. c \<noteq> b \<Longrightarrow> b_valid (bc' c) = b_valid (bc c)"
      "\<And>c. c \<noteq> b \<Longrightarrow> b_data (bc' c) = b_data (bc c)"
    and bok: "buf_ok dsk' (bc' b)"
    and fresh: "\<And>c. c < NBUF \<Longrightarrow> c \<noteq> b \<Longrightarrow> b_dev (bc c) = ROOTDEV \<Longrightarrow> b_blockno (bc c) \<noteq> b_blockno (bc' b)"
    and dsk: "\<And>n. n \<noteq> b_blockno (bc' b) \<Longrightarrow> dsk' n = dsk n" "\<And>n. length (dsk' n) = BSIZE"
  shows "bc_ok bc' dsk' H'"
proof -
  have "buf_ok dsk' (bc' c)" if c: "c < NBUF" "c \<noteq> b" for c
    using bc_okD(4) [OF ok c(1)] fresh [OF c] dsk(1) [of "b_blockno (bc c)"] same [OF c(2)]
    by (auto simp: buf_ok_def)
  moreover have "unat (b_refcnt (bc' c)) = count H' c" if c: "c < NBUF" "c \<noteq> b" for c
    using bc_okD(3) [OF ok c(1)] H(3) [OF c(2)] same(3) [OF c(2)] by simp
  moreover have "c = d" if "c < NBUF" "d < NBUF" "b_dev (bc' c) = ROOTDEV" "b_dev (bc' d) = ROOTDEV"
    "b_blockno (bc' c) = b_blockno (bc' d)" for c d
  proof (cases "c = b \<or> d = b")
    case True
    then show ?thesis using that fresh [of c] fresh [of d] same(1,2) [of c] same(1,2) [of d]
      by (cases "c = b"; cases "d = b") auto
  next
    case False
    then show ?thesis using that same(1,2) by (intro bc_okD(5) [OF ok]) auto
  qed
  ultimately show ?thesis
    unfolding bc_ok_def using ring H(1,2) bok dsk(2) by blast
qed

lemma held_buf:
  assumes "bc_ok bc dsk H" and "b \<in># H"
  shows "b < NBUF" and "b_dev (bc b) = ROOTDEV" and "b_valid (bc b)"
    and "b_data (bc b) = dsk (b_blockno (bc b))"
proof -
  show b: "b < NBUF" by (rule bc_okD(2) [OF assms])
  have "b_refcnt (bc b) \<noteq> 0" using bc_okD(3) [OF assms(1) b] assms(2)
    by (metis count_greater_zero_iff less_irrefl unat_0)
  then show "b_dev (bc b) = ROOTDEV" "b_valid (bc b)" "b_data (bc b) = dsk (b_blockno (bc b))"
    using bc_okD(4) [OF assms(1) b] by (auto simp: buf_ok_def)
qed

abbreviation "incref \<equiv> (\<lambda>x :: buf. x\<lparr>b_refcnt := b_refcnt x + 1\<rparr>)"

lemma count_unat_inc:
  assumes "bc_ok bc dsk H" and "size H < NBUF" and "b < NBUF"
  shows "unat (b_refcnt (bc b) + 1) = count H b + 1"
proof -
  have "count H b \<le> size H" by (rule count_le_size)
  then have "unat (b_refcnt (bc b)) + 1 < 2 ^ LENGTH(32)"
    using bc_okD(3) [OF assms(1,3)] assms(2) by (simp add: NBUF_def)
  then show ?thesis
    using bc_okD(3) [OF assms(1,3)] unat_add_small [of "b_refcnt (bc b)" 1] by simp
qed

lemma bread_hit:
  assumes ok: "bc_ok (bcache s) (disk_blocks s) H" and H: "size H < NBUF"
    and ring: "ring (bcache s) xs" "set xs = {0..<NBUF}"
    and b: "b < NBUF" "b_dev (bcache s b) = ROOTDEV" "b_blockno (bcache s b) = n"
  shows "bread s ROOTDEV n = Some (b, s\<lparr>bcache := upd_buf b incref (bcache s)\<rparr>)"
    and "bc_ok (upd_buf b incref (bcache s)) (disk_blocks s) (add_mset b H)"
proof -
  have uniq: "b_blockno (bcache s c) \<noteq> n" if "c < NBUF" "c \<noteq> b" "b_dev (bcache s c) = ROOTDEV" for c
    using bc_okD(5) [OF ok, of c b] that b by auto
  then have "List.find (\<lambda>b. b_dev (bcache s b) = ROOTDEV \<and> b_blockno (bcache s b) = n) xs = Some b"
    using b ring(2) by (intro find_unique) auto
  then have "bget s ROOTDEV n = Some (b, s\<lparr>bcache := upd_buf b incref (bcache s)\<rparr>)"
    using ring_scans(1) [OF ring(1)] by (simp add: bget_def)
  moreover have bok: "buf_ok (disk_blocks s) (bcache s b)" by (rule bc_okD(4) [OF ok b(1)])
  then have v: "b_valid (bcache s b)" using b(2) by (auto simp: buf_ok_def ROOTDEV_def)
  ultimately show "bread s ROOTDEV n = Some (b, s\<lparr>bcache := upd_buf b incref (bcache s)\<rparr>)"
    by (simp add: bread_def upd_buf_def)
  have rg: "ring (upd_buf b incref (bcache s)) xs"
    using ring(1) by (subst ring_cong [of _ "bcache s"]) (simp_all add: upd_buf_def)
  show "bc_ok (upd_buf b incref (bcache s)) (disk_blocks s) (add_mset b H)"
    using bok b v bc_okD(2) [OF ok] count_unat_inc [OF ok H b(1)] bc_okD(6) [OF ok] uniq
    by (intro bc_ok_change [OF ok rg ring(2) b(1)]) (auto simp: upd_buf_def buf_ok_def)
qed

definition refill :: "u32 \<Rightarrow> (u32 \<Rightarrow> u8 list) \<Rightarrow> buf \<Rightarrow> buf" where
  "refill n dsk x = x\<lparr>b_dev := ROOTDEV, b_blockno := n, b_refcnt := 1, b_valid := True, b_disk := False,
     b_data := dsk n\<rparr>"

lemma bread_miss:
  assumes ok: "bc_ok (bcache s) (disk_blocks s) H" and H: "size H < NBUF"
    and ring: "ring (bcache s) xs" "set xs = {0..<NBUF}"
    and miss: "\<And>c. c < NBUF \<Longrightarrow> b_dev (bcache s c) = ROOTDEV \<Longrightarrow> b_blockno (bcache s c) \<noteq> n"
  shows "\<exists>b < NBUF. b \<notin># H \<and>
    bread s ROOTDEV n = Some (b, s\<lparr>bcache := upd_buf b (refill n (disk_blocks s)) (bcache s)\<rparr>) \<and>
    bc_ok (upd_buf b (refill n (disk_blocks s)) (bcache s)) (disk_blocks s) (add_mset b H)"
proof -
  have 1: "List.find (\<lambda>b. b_dev (bcache s b) = ROOTDEV \<and> b_blockno (bcache s b) = n) xs = None"
    using miss ring(2) by (auto simp: find_None_iff)
  obtain b0 where b0: "b0 < NBUF" "count H b0 = 0" using H by (rule count_pigeonhole)
  have "b_refcnt (bcache s b0) = 0" using bc_okD(3) [OF ok b0(1)] b0(2) by (simp add: unat_eq_zero)
  then have "List.find (\<lambda>b. b_refcnt (bcache s b) = 0) (rev xs) \<noteq> None"
    using b0(1) ring(2) by (auto simp: find_None_iff)
  then obtain b where 2: "List.find (\<lambda>b. b_refcnt (bcache s b) = 0) (rev xs) = Some b" by blast
  then have b: "b < NBUF" "b_refcnt (bcache s b) = 0" using find_SomeD [OF 2] ring(2) by auto
  then have nH: "count H b = 0" using bc_okD(3) [OF ok b(1)] by simp
  have rd: "bread s ROOTDEV n = Some (b, s\<lparr>bcache := upd_buf b (refill n (disk_blocks s)) (bcache s)\<rparr>)"
    using 1 2 ring_scans [OF ring(1)]
    by (simp add: bread_def bget_def upd_buf_def disk_rw_def refill_def)
  have rg: "ring (upd_buf b (refill n (disk_blocks s)) (bcache s)) xs"
    using ring(1) by (subst ring_cong [of _ "bcache s"]) (simp_all add: upd_buf_def refill_def)
  have "bc_ok (upd_buf b (refill n (disk_blocks s)) (bcache s)) (disk_blocks s) (add_mset b H)"
    using b nH bc_okD(2) [OF ok] bc_okD(6) [OF ok] miss
    by (intro bc_ok_change [OF ok rg ring(2) b(1)]) (auto simp: upd_buf_def buf_ok_def refill_def)
  then show ?thesis using rd b(1) nH by (auto simp: count_eq_zero_iff)
qed

lemma bread_ok:
  assumes "bc_inv s H" and "size H < NBUF"
  shows "\<exists>b s'. bread s ROOTDEV n = Some (b, s') \<and> bc_inv s' (add_mset b H) \<and>
    disk_blocks s' = disk_blocks s \<and> blk_rest s' = blk_rest s \<and> b_blockno (bcache s' b) = n \<and>
    (\<forall>h \<in># H. b_blockno (bcache s' h) = b_blockno (bcache s h))"
proof -
  have ok: "bc_ok (bcache s) (disk_blocks s) H" using assms(1) by (simp add: bc_inv_def)
  obtain xs where xs: "ring (bcache s) xs" "set xs = {0..<NBUF}" using bc_okD(1) [OF ok] by blast
  show ?thesis
  proof (cases "\<exists>b < NBUF. b_dev (bcache s b) = ROOTDEV \<and> b_blockno (bcache s b) = n")
    case True
    then obtain b where b: "b < NBUF" "b_dev (bcache s b) = ROOTDEV" "b_blockno (bcache s b) = n"
      by blast
    show ?thesis using bread_hit [OF ok assms(2) xs b] b(3)
      by (auto simp: bc_inv_def blk_rest_def upd_buf_def)
  next
    case False
    then obtain b where "b \<notin># H"
      "bread s ROOTDEV n = Some (b, s\<lparr>bcache := upd_buf b (refill n (disk_blocks s)) (bcache s)\<rparr>)"
      "bc_ok (upd_buf b (refill n (disk_blocks s)) (bcache s)) (disk_blocks s) (add_mset b H)"
      using bread_miss [OF ok assms(2) xs, of n] by blast
    then show ?thesis by (auto simp: bc_inv_def blk_rest_def upd_buf_def refill_def)
  qed
qed

lemma bset_bwrite_ok:
  assumes "bc_inv s H" and "b \<in># H" and "length d = BSIZE"
  shows "bc_inv (bwrite b (bset b d s)) H"
    and "disk_blocks (bwrite b (bset b d s)) = (disk_blocks s)(b_blockno (bcache s b) := d)"
    and "blk_rest (bwrite b (bset b d s)) = blk_rest s"
    and "b_blockno (bcache (bwrite b (bset b d s)) h) = b_blockno (bcache s h)"
proof -
  have ok: "bc_ok (bcache s) (disk_blocks s) H" using assms(1) by (simp add: bc_inv_def)
  obtain xs where xs: "ring (bcache s) xs" "set xs = {0..<NBUF}" using bc_okD(1) [OF ok] by blast
  note h = held_buf [OF ok assms(2)]
  let ?f = "\<lambda>x. x\<lparr>b_data := d, b_disk := False\<rparr>"
  have rg: "ring (upd_buf b ?f (bcache s)) xs"
    using xs(1) by (subst ring_cong [of _ "bcache s"]) (simp_all add: upd_buf_def)
  have uniq: "b_blockno (bcache s c) \<noteq> b_blockno (bcache s b)"
    if "c < NBUF" "c \<noteq> b" "b_dev (bcache s c) = ROOTDEV" for c
    using bc_okD(5) [OF ok that(1) h(1)] that h(2) by auto
  have "bc_ok (upd_buf b ?f (bcache s)) ((disk_blocks s)(b_blockno (bcache s b) := d)) H"
    using h assms(3) bc_okD(2,3,6) [OF ok] uniq
    by (intro bc_ok_change [OF ok rg xs(2) h(1)]) (auto simp: upd_buf_def buf_ok_def)
  moreover have "bcache (bwrite b (bset b d s)) = upd_buf b ?f (bcache s)"
    by (simp add: bwrite_def bset_def disk_rw_def upd_buf_def)
  moreover show dk: "disk_blocks (bwrite b (bset b d s)) = (disk_blocks s)(b_blockno (bcache s b) := d)"
    by (simp add: bwrite_def bset_def disk_rw_def upd_buf_def)
  ultimately show "bc_inv (bwrite b (bset b d s)) H" by (simp only: bc_inv_def)
qed (simp_all add: bwrite_def bset_def disk_rw_def upd_buf_def blk_rest_def)

lemma brelse_ok:
  assumes "bc_inv s H" and "b \<in># H"
  shows "bc_inv (brelse b s) (H - {#b#})"
    and "disk_blocks (brelse b s) = disk_blocks s" and "blk_rest (brelse b s) = blk_rest s"
    and "b_blockno (bcache (brelse b s) h) = b_blockno (bcache s h)"
proof -
  have ok: "bc_ok (bcache s) (disk_blocks s) H" using assms(1) by (simp add: bc_inv_def)
  obtain xs where xs: "ring (bcache s) xs" "set xs = {0..<NBUF}" using bc_okD(1) [OF ok] by blast
  note h = held_buf [OF ok assms(2)]
  obtain ys where ys: "ring (bcache (brelse b s)) ys" "set ys = {0..<NBUF}"
    using brelse_lru [OF xs(1), of b] xs(2) h(1) by auto
  have "0 < count H b" using assms(2) by simp
  then have rc: "unat (b_refcnt (bcache s b) - 1) = count H b - 1"
    using bc_okD(3) [OF ok h(1)] by (metis less_irrefl unat_0 unat_minus_one)
  have flds: "b_dev (bcache (brelse b s) c) = b_dev (bcache s c)"
    "b_blockno (bcache (brelse b s) c) = b_blockno (bcache s c)"
    "b_valid (bcache (brelse b s) c) = b_valid (bcache s c)"
    "b_data (bcache (brelse b s) c) = b_data (bcache s c)"
    "b_refcnt (bcache (brelse b s) c) = (if c = b then b_refcnt (bcache s b) - 1 else b_refcnt (bcache s c))"
    for c by (simp_all add: brelse_def upd_buf_def Let_def)
  have uniq: "b_blockno (bcache s c) \<noteq> b_blockno (bcache s b)"
    if "c < NBUF" "c \<noteq> b" "b_dev (bcache s c) = ROOTDEV" for c
    using bc_okD(5) [OF ok that(1) h(1)] that h(2) by auto
  show dk: "disk_blocks (brelse b s) = disk_blocks s" by (simp add: brelse_def Let_def)
  have "bc_ok (bcache (brelse b s)) (disk_blocks s) (H - {#b#})"
    using h bc_okD(2,6) [OF ok] uniq rc
    by (intro bc_ok_change [OF ok ys h(1)]) (auto simp: flds buf_ok_def dest: in_diffD)
  then show "bc_inv (brelse b s) (H - {#b#})" by (simp add: bc_inv_def dk)
qed (simp_all add: brelse_def upd_buf_def blk_rest_def Let_def)

interpretation bc: buffer_cache bc_inv "\<lambda>n s. bread s ROOTDEV n" "\<lambda>b d s. bwrite b (bset b d s)" brelse
  bdata "\<lambda>s b. b_blockno (bcache s b)" disk_blocks blk_rest
proof (unfold_locales, goal_cases)
  case (1 s H n)
  then show ?case by (rule bread_ok)
next
  case (2 s H b)
  then show ?case using held_buf(4) by (simp add: bc_inv_def bdata_def)
next
  case (3 s H b d)
  then show ?case using bset_bwrite_ok by blast
next
  case (4 s H b)
  then show ?case using brelse_ok by blast
next
  case (5 s H n)
  then show ?case using bc_okD(6) by (simp add: bc_inv_def)
qed

section \<open>Properties\<close>

text \<open>The state at boot: every buffer zeroed, every disk block full size.\<close>

definition cache_boot :: "'a blk_st_scheme \<Rightarrow> bool" where
  "cache_boot s \<longleftrightarrow> (\<forall>b < NBUF. b_dev (bcache s b) = 0 \<and> \<not> b_valid (bcache s b) \<and> b_refcnt (bcache s b) = 0) \<and>
     (\<forall>n. length (disk_blocks s n) = BSIZE)"

lemma binit_step_fields [simp]:
  "b_dev (binit_step b bc x) = b_dev (bc x)" "b_refcnt (binit_step b bc x) = b_refcnt (bc x)"
  "b_valid (binit_step b bc x) = b_valid (bc x)"
  by (simp_all add: binit_step_def Let_def)

lemma binit_inv:
  assumes "cache_boot s"
  shows "bc_inv (binit s) {#}"
proof -
  have f: "b_dev (fold binit_step xs bc x) = b_dev (bc x)" "b_refcnt (fold binit_step xs bc x) = b_refcnt (bc x)"
    "b_valid (fold binit_step xs bc x) = b_valid (bc x)" for xs bc x
    by (induction xs arbitrary: bc) auto
  have flds: "b_dev (bcache (binit s) b) = b_dev (bcache s b)" "b_refcnt (bcache (binit s) b) = b_refcnt (bcache s b)"
    "b_valid (bcache (binit s) b) = b_valid (bcache s b)" "disk_blocks (binit s) = disk_blocks s" for b
    by (simp_all add: binit_def f)
  have "\<exists>xs. ring (bcache (binit s)) xs \<and> set xs = {0..<NBUF}"
    using binit_ring [of s] by (intro exI [of _ "rev [0..<NBUF]"]) simp
  then show ?thesis
    using assms by (auto simp: bc_inv_def bc_ok_def flds cache_boot_def buf_ok_def ROOTDEV_def)
qed

text \<open>
  Runs of the cache: clients that hold fewer than \<open>NBUF\<close> references, write back what
  they change, and release only what they hold. \<open>H\<close> is the multiset of references.
\<close>

inductive cache_run :: "blk_st \<Rightarrow> nat multiset \<Rightarrow> blk_st \<Rightarrow> bool" for s0 where
  boot: "cache_run s0 {#} (binit s0)"
| rd: "cache_run s0 H s \<Longrightarrow> size H < NBUF \<Longrightarrow> bread s ROOTDEV n = Some (b, s') \<Longrightarrow>
     cache_run s0 (add_mset b H) s'"
| wr: "cache_run s0 H s \<Longrightarrow> b \<in># H \<Longrightarrow> length d = BSIZE \<Longrightarrow> cache_run s0 H (bwrite b (bset b d s))"
| rel: "cache_run s0 H s \<Longrightarrow> b \<in># H \<Longrightarrow> cache_run s0 (H - {#b#}) (brelse b s)"

lemma cache_run_inv:
  assumes "cache_run s0 H s" and "cache_boot s0"
  shows "bc_inv s H"
  using assms
proof (induction rule: cache_run.induct)
  case boot
  then show ?case by (rule binit_inv)
next
  case (rd H s n b s')
  then show ?case using bc.rd_ok [of s H n] by auto
next
  case (wr H s b d)
  then show ?case using bc.wr_ok by blast
next
  case (rel H s b)
  then show ?case using bc.rel_ok by blast
qed

definition boot_blk :: blk_st where
  "boot_blk = \<lparr>pmem = (\<lambda>_. 0), free_mem_list = 0, end_address = 0x80100000, etext = 0x80008000, userret = 0x80002000,
     uservec = 0x80003000, kernel_pagetable = 0, procs = (\<lambda>_. zero_proc),
     cpu = \<lparr>cproc = None, noff = 0, intena = False\<rparr>, sie = False, locks = (\<lambda>_. lock_free), nextpid = 1,
     disk_blocks = (\<lambda>n. replicate BSIZE (ucast n)),
     bcache = (\<lambda>_. \<lparr>b_valid = False, b_disk = False, b_dev = 0, b_blockno = 0, b_refcnt = 0, b_prev = 0,
       b_next = 0, b_data = []\<rparr>),
     sb = \<lparr>magic = 0x10203040, sb_size = 2000, nblocks = 1900, ninodes = 200, nlog = 0, logstart = 2,
       inodestart = 2, bmapstart = 15\<rparr>\<rparr>"

lemma cache_boot_blk: "cache_boot boot_blk"
  by (simp add: cache_boot_def boot_blk_def)

text \<open>
  Property C11 (refinement). On every well-linked ring, \<open>bget\<close> is the lookup of an LRU
  cache: it hits the entry of the block if there is one, otherwise it recycles the
  least recently used unreferenced entry, and it panics exactly when the specification has
  no entry to give.
\<close>

theorem bget_refines_lru:
  assumes "ring (bcache s) xs"
  shows "map_option (\<lambda>(b, s'). (b, lru_of (bcache s') xs)) (bget s dev n) =
      lru_get dev n (lru_of (bcache s) xs) \<and>
    (\<forall>b s'. bget s dev n = Some (b, s') \<longrightarrow> ring (bcache s') xs)"
  using bget_lru [OF assms, of dev n] by (auto split: option.splits)

theorem bget_refines_lru_witness:
  "ring (bcache (binit boot_blk)) (rev [0..<NBUF]) \<and>
   lru_get 1 5 (lru_of (bcache (binit boot_blk)) (rev [0..<NBUF])) \<noteq> None"
proof -
  have r: "ring (bcache (binit boot_blk)) (rev [0..<NBUF])" by (rule binit_ring)
  have "bread (binit boot_blk) ROOTDEV 5 \<noteq> None"
    using bc.rd_ok [OF binit_inv [OF cache_boot_blk], of 5] by (auto simp: NBUF_def)
  then have "bget (binit boot_blk) 1 5 \<noteq> None"
    by (cases "bget (binit boot_blk) 1 5") (auto simp: bread_def ROOTDEV_def)
  then show ?thesis using r bget_refines_lru [OF r, of 1 5] by (metis map_option_is_None)
qed

text \<open>
  Property C27 (refinement). \<open>brelse\<close> on a buffer of the ring is the release of an LRU
  cache: it gives back one reference and, with the last one, moves the buffer to the most
  recently used end; the ring stays well linked over the same buffers.
\<close>

theorem brelse_refines_lru:
  assumes "ring (bcache s) xs" and "b \<in> set xs"
  shows "\<exists>ys. ring (bcache (brelse b s)) ys \<and> set ys = set xs \<and>
    lru_of (bcache (brelse b s)) ys = lru_release b (lru_of (bcache s) xs)"
  using brelse_lru [OF assms] by fastforce

theorem brelse_refines_lru_witness:
  "\<exists>s b xs ys. ring (bcache (s :: blk_st)) xs \<and> b \<in> set xs \<and> b_refcnt (bcache s b) = 1 \<and>
     ring (bcache (brelse b s)) ys \<and> set ys = set xs"
proof -
  obtain b s where s: "bc_inv s {#b#}" "s = (s :: blk_st)"
    using bc.rd_ok [OF binit_inv [OF cache_boot_blk], of 5] by (auto simp: NBUF_def)
  then have ok: "bc_ok (bcache s) (disk_blocks s) {#b#}" by (simp add: bc_inv_def)
  obtain xs where xs: "ring (bcache s) xs" "set xs = {0..<NBUF}" using bc_okD(1) [OF ok] by blast
  have b: "b < NBUF" using bc_okD(2) [OF ok] by simp
  have "unat (b_refcnt (bcache s b)) = unat (1 :: u32)" using bc_okD(3) [OF ok b] by simp
  then have "b_refcnt (bcache s b) = 1" by (rule unsigned_word_eqI)
  moreover have "b \<in> set xs" using b xs(2) by simp
  ultimately show ?thesis using xs(1) brelse_refines_lru [OF xs(1)] by blast
qed

end
