(* ===== verification/Balloc.thy ===== *)
theory Balloc
  imports Bcache
begin

text \<open>
  The free-block bitmap, \<open>balloc\<close>, \<open>bzero\<close> and \<open>bfree\<close> of
  \<open>kernel/fs/bio.c\<close>. The bitmap lies on the disk, one bit per block, from block
  \<open>sb.bmapstart\<close>; \<open>used s n\<close> reads it. The lemmas give the exact effect of
  each routine on \<open>used\<close> and on the disk contents; the locale \<open>block_allocator\<close>
  is the contract the inode layer relies on.
\<close>

section \<open>Operations\<close>

definition BPB :: nat where [kdefs]: "BPB = 8192"

definition BMAP_BLOCK :: "u32 \<Rightarrow> superblock \<Rightarrow> u32" where
  "BMAP_BLOCK b sp = b div of_nat BPB + bmapstart sp"

definition bzero :: "'a blk_st_scheme \<Rightarrow> u32 \<Rightarrow> u32 \<Rightarrow> 'a blk_st_scheme option" where
  "bzero s dev bno =
     do { (bp, s) \<leftarrow> bread s dev bno;
          let s = bset bp (replicate BSIZE 0) s;
          let s = bwrite bp s;
          Some (brelse bp s) }"

lemma blk_rest_sb: "blk_rest s' = blk_rest s \<Longrightarrow> sb s' = sb s"
proof -
  assume "blk_rest s' = blk_rest s"
  then have "sb (blk_rest s') = sb (blk_rest s)" by simp
  then show ?thesis by (simp add: blk_rest_def)
qed

lemma sb_brelse: "sb (brelse b s) = sb s"
  by (simp add: brelse_def Let_def)

lemma sb_bread: "bread s dev n = Some (b, s') \<Longrightarrow> sb s' = sb s"
  by (auto simp: bread_def bget_def disk_rw_def Let_def split: Option.bind_splits option.splits if_splits)

text \<open>The mask \<open>m = 1 << (bi % 8)\<close>.\<close>

definition bit_mask :: "nat \<Rightarrow> u8" where
  "bit_mask bi = push_bit (bi mod 8) 1"

definition free_bit :: "u8 list \<Rightarrow> nat \<Rightarrow> bool" where
  "free_bit data bi \<longleftrightarrow> data ! (bi div 8) AND bit_mask bi = 0"

function balloc_loop :: "'a blk_st_scheme \<Rightarrow> u32 \<Rightarrow> nat \<Rightarrow> (u32 \<times> 'a blk_st_scheme) option" where
  "balloc_loop s dev b =
     (if b < unat (sb_size (sb s)) then
        do { (bp, s') \<leftarrow> bread s dev (BMAP_BLOCK (of_nat b) (sb s));
             (case List.find (free_bit (bdata s' bp)) [0..<min BPB (unat (sb_size (sb s)) - b)] of
                Some bi \<Rightarrow>
                  let data = bdata s' bp;
                      s1 = bset bp (data[bi div 8 := data ! (bi div 8) OR bit_mask bi]) s';
                      s2 = bwrite bp s1;
                      s3 = brelse bp s2
                  in do { s4 \<leftarrow> bzero s3 dev (of_nat (b + bi)); Some (of_nat (b + bi), s4) }
              | None \<Rightarrow> balloc_loop (brelse bp s') dev (b + BPB)) }
      else None)"  \<comment> \<open>panic: balloc: out of blocks\<close>
  by pat_completeness auto
termination
  by (relation "measure (\<lambda>(s, dev, b). unat (sb_size (sb s)) - b)") (auto dest!: sb_bread simp: BPB_def sb_brelse)

declare balloc_loop.simps [simp del]

definition balloc :: "'a blk_st_scheme \<Rightarrow> u32 \<Rightarrow> (u32 \<times> 'a blk_st_scheme) option" where
  "balloc s dev = balloc_loop s dev 0"

definition bfree :: "'a blk_st_scheme \<Rightarrow> u32 \<Rightarrow> u32 \<Rightarrow> 'a blk_st_scheme option" where
  "bfree s dev b =
     do { (bp, s) \<leftarrow> bread s dev (BMAP_BLOCK b (sb s));
          let bi = unat b mod BPB;
          let data = bdata s bp;
          if free_bit data bi then None  \<comment> \<open>panic: bfree: freeing free block\<close>
          else let s = bset bp (data[bi div 8 := data ! (bi div 8) AND NOT (bit_mask bi)]) s;
                   s = bwrite bp s
               in Some (brelse bp s) }"

section \<open>The bitmap\<close>

definition bit_at :: "u8 list \<Rightarrow> nat \<Rightarrow> bool" where
  "bit_at data bi \<longleftrightarrow> bit (data ! (bi div 8)) (bi mod 8)"

definition used_in :: "superblock \<Rightarrow> (u32 \<Rightarrow> u8 list) \<Rightarrow> u32 \<Rightarrow> bool" where
  "used_in sp dsk n \<longleftrightarrow> bit_at (dsk (BMAP_BLOCK n sp)) (unat n mod BPB)"

abbreviation used :: "'a blk_st_scheme \<Rightarrow> u32 \<Rightarrow> bool" where
  "used s \<equiv> used_in (sb s) (disk_blocks s)"

lemma bit_bit_mask: "j < 8 \<Longrightarrow> bit (bit_mask bi) j \<longleftrightarrow> j = bi mod 8"
  by (auto simp: bit_mask_def bit_simps)

lemma free_bit_iff: "free_bit data bi \<longleftrightarrow> \<not> bit_at data bi"
proof
  assume "free_bit data bi"
  then have "\<not> bit (data ! (bi div 8) AND bit_mask bi) (bi mod 8)" by (simp add: free_bit_def)
  then show "\<not> bit_at data bi" by (simp add: bit_at_def bit_and_iff bit_bit_mask)
next
  assume n: "\<not> bit_at data bi"
  show "free_bit data bi" unfolding free_bit_def
    by (rule bit_word_eqI) (use n in \<open>auto simp: bit_at_def bit_and_iff bit_bit_mask\<close>)
qed

lemma byte_bit:
  assumes "j < 8"
  shows "bit (w OR bit_mask k) j \<longleftrightarrow> bit w j \<or> j = k mod 8"
    and "bit (w AND NOT (bit_mask k)) j \<longleftrightarrow> bit w j \<and> j \<noteq> k mod 8"
  using assms by (auto simp: bit_or_iff bit_and_iff bit_not_iff bit_bit_mask)

lemma bit_at_set:
  assumes "bi < 8 * length data" and "bj < 8 * length data"
  shows "bit_at (data[bi div 8 := data ! (bi div 8) OR bit_mask bi]) bj \<longleftrightarrow> bit_at data bj \<or> bj = bi"
    and "bit_at (data[bi div 8 := data ! (bi div 8) AND NOT (bit_mask bi)]) bj \<longleftrightarrow>
      bit_at data bj \<and> bj \<noteq> bi"
proof -
  have "bj = bi \<longleftrightarrow> bj div 8 = bi div 8 \<and> bj mod 8 = bi mod 8" by (metis div_mult_mod_eq)
  then show "bit_at (data[bi div 8 := data ! (bi div 8) OR bit_mask bi]) bj \<longleftrightarrow> bit_at data bj \<or> bj = bi"
    "bit_at (data[bi div 8 := data ! (bi div 8) AND NOT (bit_mask bi)]) bj \<longleftrightarrow>
      bit_at data bj \<and> bj \<noteq> bi"
    using assms by (auto simp: bit_at_def nth_list_update byte_bit less_mult_imp_div_less mult.commute)
qed

lemma BMAP_BLOCK_eq: "BMAP_BLOCK n sp = BMAP_BLOCK m sp \<longleftrightarrow> unat n div BPB = unat m div BPB"
proof -
  have "unat (n div of_nat BPB) = unat n div BPB" for n :: u32
    by (simp add: unat_div_distrib BPB_def)
  then show ?thesis by (metis BMAP_BLOCK_def add_right_cancel word_unat_eq_iff)
qed

lemma same_bit_iff:
  "n = m \<longleftrightarrow> BMAP_BLOCK n sp = BMAP_BLOCK m sp \<and> unat n mod BPB = unat m mod BPB"
  by (metis BMAP_BLOCK_eq div_mult_mod_eq word_unat_eq_iff)

definition mark :: "superblock \<Rightarrow> u32 \<Rightarrow> (u32 \<Rightarrow> u8 list) \<Rightarrow> (u32 \<Rightarrow> u8 list)" where
  "mark sp n dsk = (let k = BMAP_BLOCK n sp; bi = unat n mod BPB in
     dsk(k := (dsk k)[bi div 8 := dsk k ! (bi div 8) OR bit_mask bi]))"

definition unmark :: "superblock \<Rightarrow> u32 \<Rightarrow> (u32 \<Rightarrow> u8 list) \<Rightarrow> (u32 \<Rightarrow> u8 list)" where
  "unmark sp n dsk = (let k = BMAP_BLOCK n sp; bi = unat n mod BPB in
     dsk(k := (dsk k)[bi div 8 := dsk k ! (bi div 8) AND NOT (bit_mask bi)]))"

lemma used_mark:
  assumes "\<And>k. length (dsk k) = BSIZE"
  shows "used_in sp (mark sp n dsk) m \<longleftrightarrow> used_in sp dsk m \<or> m = n"
    and "used_in sp (unmark sp n dsk) m \<longleftrightarrow> used_in sp dsk m \<and> m \<noteq> n"
proof -
  have lt: "unat k mod BPB < 8 * length (dsk j)" for k :: u32 and j
    using assms by (simp add: BPB_def BSIZE_def)
  show "used_in sp (mark sp n dsk) m \<longleftrightarrow> used_in sp dsk m \<or> m = n"
    "used_in sp (unmark sp n dsk) m \<longleftrightarrow> used_in sp dsk m \<and> m \<noteq> n"
    using same_bit_iff [of m n sp]
    by (auto simp: used_in_def mark_def unmark_def Let_def bit_at_set [OF lt lt])
qed

lemma mark_other: "k \<noteq> BMAP_BLOCK n sp \<Longrightarrow> mark sp n dsk k = dsk k"
  "k \<noteq> BMAP_BLOCK n sp \<Longrightarrow> unmark sp n dsk k = dsk k"
  by (simp_all add: mark_def unmark_def Let_def)

lemma length_mark: "(\<And>k. length (dsk k) = BSIZE) \<Longrightarrow> length (mark sp n dsk k) = BSIZE"
  "(\<And>k. length (dsk k) = BSIZE) \<Longrightarrow> length (unmark sp n dsk k) = BSIZE"
  by (simp_all add: mark_def unmark_def Let_def)

section \<open>The effect of the operations\<close>

lemma bzero_ok:
  assumes "bc_inv s H" and "size H < NBUF"
  shows "\<exists>s'. bzero s ROOTDEV n = Some s' \<and> bc_inv s' H \<and>
    disk_blocks s' = (disk_blocks s)(n := replicate BSIZE 0) \<and> blk_rest s' = blk_rest s \<and>
    (\<forall>h \<in># H. b_blockno (bcache s' h) = b_blockno (bcache s h))"
  using bc.read_modify_write [OF assms, of n] by (fastforce simp: bzero_def)

lemma block_bit:
  assumes "BPB dvd b" and "bi < BPB" and "b + bi < 2 ^ 32"
  shows "unat (of_nat (b + bi) :: u32) = b + bi" and "(b + bi) mod BPB = bi"
    and "BMAP_BLOCK (of_nat (b + bi)) sp = BMAP_BLOCK (of_nat b) sp"
proof -
  show u: "unat (of_nat (b + bi) :: u32) = b + bi"
    using assms(3) by (simp add: unat_of_nat del: of_nat_add)
  have ub: "unat (of_nat b :: u32) = b" using assms(3) by (simp add: unat_of_nat)
  show "(b + bi) mod BPB = bi" using assms(1,2) by (auto simp: dvd_def)
  have "(b + bi) div BPB = b div BPB" using assms(1,2) by (auto simp: dvd_def BPB_def)
  then show "BMAP_BLOCK (of_nat (b + bi)) sp = BMAP_BLOCK (of_nat b) sp"
    unfolding BMAP_BLOCK_eq u ub .
qed

lemma unat_u32: "unat (n :: u32) < 2 ^ 32"
  using unsigned_less [of n] by simp

lemma used_block_bit:
  assumes "BPB dvd b" and "bi < min BPB (unat (sb_size (sb s)) - b)"
  shows "used s (of_nat (b + bi)) \<longleftrightarrow> \<not> free_bit (disk_blocks s (BMAP_BLOCK (of_nat b) (sb s))) bi"
proof -
  have "b + bi < 2 ^ 32" "bi < BPB" using assms(2) unat_u32 [of "sb_size (sb s)"] by linarith+
  then show ?thesis using block_bit [OF assms(1), of bi] by (simp add: used_in_def free_bit_iff)
qed

lemma find_upt_Some:
  "List.find P [0..<k] = Some i \<longleftrightarrow> i < k \<and> P i \<and> (\<forall>j < i. \<not> P j)"
  by (auto simp: find_Some_iff)

lemma balloc_loop_ok:
  assumes "bc_inv s H" and "size H < NBUF" and "BPB dvd b"
    and "\<forall>n. unat n < b \<longrightarrow> n < sb_size (sb s) \<longrightarrow> used s n" and "\<exists>n < sb_size (sb s). \<not> used s n"
  shows "\<exists>n s'. balloc_loop s ROOTDEV b = Some (n, s') \<and> \<not> used s n \<and> n < sb_size (sb s) \<and>
    (\<forall>m < n. used s m) \<and> bc_inv s' H \<and>
    disk_blocks s' = (mark (sb s) n (disk_blocks s))(n := replicate BSIZE 0) \<and> blk_rest s' = blk_rest s \<and>
    (\<forall>h \<in># H. b_blockno (bcache s' h) = b_blockno (bcache s h))"
  using assms
proof (induction "unat (sb_size (sb s)) - b" arbitrary: s b rule: less_induct)
  case less
  let ?sz = "unat (sb_size (sb s))" and ?k = "BMAP_BLOCK (of_nat b) (sb s)"
  obtain n0 where n0: "n0 < sb_size (sb s)" "\<not> used s n0" using less.prems(5) by blast
  then have b: "b < ?sz" using less.prems(4) by (meson le_less_trans not_le word_less_nat_alt)
  obtain bp s1 where r: "bread s ROOTDEV ?k = Some (bp, s1)" "bc_inv s1 (add_mset bp H)"
    "bdata s1 bp = disk_blocks s ?k" "blk_rest s1 = blk_rest s" "disk_blocks s1 = disk_blocks s"
    and w: "\<And>d. length d = BSIZE \<Longrightarrow> bc_inv (brelse bp (bwrite bp (bset bp d s1))) H \<and>
      disk_blocks (brelse bp (bwrite bp (bset bp d s1))) = (disk_blocks s)(?k := d) \<and>
      blk_rest (brelse bp (bwrite bp (bset bp d s1))) = blk_rest s \<and>
      (\<forall>h \<in># H. b_blockno (bcache (brelse bp (bwrite bp (bset bp d s1))) h) = b_blockno (bcache s h))"
    using bc.read_modify_write [OF less.prems(1,2), of ?k] by blast
  let ?scan = "List.find (free_bit (disk_blocks s ?k)) [0..<min BPB (?sz - b)]"
  note bits = used_block_bit [OF less.prems(3), of _ s]
  show ?case
  proof (cases ?scan)
    case (Some bi)
    then have bi: "bi < min BPB (?sz - b)" "free_bit (disk_blocks s ?k) bi"
      "\<And>j. j < bi \<Longrightarrow> \<not> free_bit (disk_blocks s ?k) j" by (auto simp: find_upt_Some)
    let ?n = "of_nat (b + bi) :: u32"
    have lt: "b + bi < ?sz" "b + bi < 2 ^ 32" "bi < BPB"
      using bi(1) unat_u32 [of "sb_size (sb s)"] by linarith+
    note bb = block_bit [OF less.prems(3) lt(3,2)]
    have free: "\<not> used s ?n" "?n < sb_size (sb s)"
      using bits [OF bi(1)] bi(2) bb(1) lt(1) by (simp_all add: word_less_nat_alt)
    have low: "used s m" if "m < ?n" for m
    proof (cases "unat m < b")
      case True
      then show ?thesis using less.prems(4) that free(2) by (meson less_trans)
    next
      case False
      then obtain j where j: "unat m = b + j" by (metis le_add_diff_inverse not_less)
      then have "j < bi" using that bb(1) by (simp add: word_less_nat_alt)
      moreover have "m = of_nat (b + j)" by (simp only: j [symmetric] of_nat_unat ucast_id)
      ultimately show ?thesis using bits [of j] bi(1,3) by simp
    qed
    let ?d = "(disk_blocks s ?k)[bi div 8 := disk_blocks s ?k ! (bi div 8) OR bit_mask bi]"
    let ?s3 = "brelse bp (bwrite bp (bset bp ?d s1))"
    have s3: "bc_inv ?s3 H" "disk_blocks ?s3 = mark (sb s) ?n (disk_blocks s)" "blk_rest ?s3 = blk_rest s"
      "\<forall>h \<in># H. b_blockno (bcache ?s3 h) = b_blockno (bcache s h)"
      using w [of ?d] bc.block_length [OF less.prems(1)] bb by (simp_all add: mark_def Let_def)
    obtain s4 where "bzero ?s3 ROOTDEV ?n = Some s4" "bc_inv s4 H"
      "disk_blocks s4 = (disk_blocks ?s3)(?n := replicate BSIZE 0)" "blk_rest s4 = blk_rest ?s3"
      "\<forall>h \<in># H. b_blockno (bcache s4 h) = b_blockno (bcache ?s3 h)"
      using bzero_ok [OF s3(1) less.prems(2), of ?n] by blast
    then show ?thesis using b r(1,3) Some free low s3
      by (subst balloc_loop.simps) (simp add: Let_def)
  next
    case None
    let ?t = "brelse bp s1"
    have t: "bc_inv ?t H" "disk_blocks ?t = disk_blocks s" "blk_rest ?t = blk_rest s" "sb ?t = sb s"
      "\<forall>h \<in># H. b_blockno (bcache ?t h) = b_blockno (bcache s h)"
      using bc.read_release [OF less.prems(1,2), of ?k] r(1) blk_rest_sb by auto
    have full: "used s m" if "unat m < b + BPB" "m < sb_size (sb s)" for m
    proof (cases "unat m < b")
      case True
      then show ?thesis using less.prems(4) that(2) by blast
    next
      case False
      then obtain j where j: "unat m = b + j" by (metis le_add_diff_inverse not_less)
      then have "j < min BPB (?sz - b)" using that by (auto simp: word_less_nat_alt)
      moreover have "m = of_nat (b + j)" by (simp only: j [symmetric] of_nat_unat ucast_id)
      ultimately show ?thesis using bits [of j] None by (auto simp: find_None_iff)
    qed
    have "BPB dvd b + BPB" using less.prems(3) by simp
    then have "\<exists>n s'. balloc_loop ?t ROOTDEV (b + BPB) = Some (n, s') \<and> \<not> used ?t n \<and> n < sb_size (sb ?t) \<and>
      (\<forall>m < n. used ?t m) \<and> bc_inv s' H \<and>
      disk_blocks s' = (mark (sb ?t) n (disk_blocks ?t))(n := replicate BSIZE 0) \<and>
      blk_rest s' = blk_rest ?t \<and> (\<forall>h \<in># H. b_blockno (bcache s' h) = b_blockno (bcache ?t h))"
      using b t full n0 less.prems(2) by (intro less.hyps) (auto simp: BPB_def)
    then show ?thesis using b r(1,3) None t by (subst balloc_loop.simps) simp
  qed
qed

lemma balloc_loop_full:
  assumes "bc_inv s H" and "size H < NBUF" and "BPB dvd b" and "\<forall>n < sb_size (sb s). used s n"
  shows "balloc_loop s ROOTDEV b = None"
  using assms
proof (induction "unat (sb_size (sb s)) - b" arbitrary: s b rule: less_induct)
  case less
  let ?k = "BMAP_BLOCK (of_nat b) (sb s)" and ?sz = "unat (sb_size (sb s))"
  show ?case
  proof (cases "b < ?sz")
    case True
    obtain bp s1 where r: "bread s ROOTDEV ?k = Some (bp, s1)" "bdata s1 bp = disk_blocks s ?k"
      "bc_inv (brelse bp s1) H" "disk_blocks (brelse bp s1) = disk_blocks s" "blk_rest (brelse bp s1) = blk_rest s"
      using bc.read_release [OF less.prems(1,2), of ?k] by blast
    have sbt: "sb (brelse bp s1) = sb s" by (rule blk_rest_sb [OF r(5)])
    have "\<not> free_bit (disk_blocks s ?k) bi" if bi: "bi < min BPB (?sz - b)" for bi
    proof -
      have "b + bi < ?sz" "b + bi < 2 ^ 32" "bi < BPB" using bi unat_u32 [of "sb_size (sb s)"] by linarith+
      then have "of_nat (b + bi) < sb_size (sb s)"
        using block_bit(1) [OF less.prems(3), of bi] by (simp add: word_less_nat_alt)
      then show ?thesis using used_block_bit [OF less.prems(3) bi] less.prems(4) by blast
    qed
    then have "List.find (free_bit (disk_blocks s ?k)) [0..<min BPB (?sz - b)] = None"
      by (auto simp: find_None_iff)
    moreover have "BPB dvd b + BPB" using less.prems(3) by simp
    then have "balloc_loop (brelse bp s1) ROOTDEV (b + BPB) = None"
      using True r sbt less.prems(2,4) by (intro less.hyps) (auto simp: BPB_def)
    ultimately show ?thesis using True r by (subst balloc_loop.simps) simp
  qed (simp add: balloc_loop.simps)
qed

lemma bfree_ok:
  assumes "bc_inv s H" and "size H < NBUF"
  shows "used s n \<Longrightarrow> \<exists>s'. bfree s ROOTDEV n = Some s' \<and> bc_inv s' H \<and>
      disk_blocks s' = unmark (sb s) n (disk_blocks s) \<and> blk_rest s' = blk_rest s \<and>
      (\<forall>h \<in># H. b_blockno (bcache s' h) = b_blockno (bcache s h))"
    and "\<not> used s n \<Longrightarrow> bfree s ROOTDEV n = None"
proof -
  let ?k = "BMAP_BLOCK n (sb s)" and ?bi = "unat n mod BPB"
  obtain bp s1 where r: "bread s ROOTDEV ?k = Some (bp, s1)" "bdata s1 bp = disk_blocks s ?k"
    and w: "\<And>d. length d = BSIZE \<Longrightarrow> bc_inv (brelse bp (bwrite bp (bset bp d s1))) H \<and>
      disk_blocks (brelse bp (bwrite bp (bset bp d s1))) = (disk_blocks s)(?k := d) \<and>
      blk_rest (brelse bp (bwrite bp (bset bp d s1))) = blk_rest s \<and>
      (\<forall>h \<in># H. b_blockno (bcache (brelse bp (bwrite bp (bset bp d s1))) h) = b_blockno (bcache s h))"
    using bc.read_modify_write [OF assms, of ?k] by blast
  have u: "used s n \<longleftrightarrow> \<not> free_bit (disk_blocks s ?k) ?bi" by (simp add: used_in_def free_bit_iff)
  show "\<not> used s n \<Longrightarrow> bfree s ROOTDEV n = None" using r u by (simp add: bfree_def)
  let ?d = "(disk_blocks s ?k)[?bi div 8 := disk_blocks s ?k ! (?bi div 8) AND NOT (bit_mask ?bi)]"
  assume "used s n"
  then have "bfree s ROOTDEV n = Some (brelse bp (bwrite bp (bset bp ?d s1)))"
    using r u by (simp add: bfree_def Let_def)
  then show "\<exists>s'. bfree s ROOTDEV n = Some s' \<and> bc_inv s' H \<and>
      disk_blocks s' = unmark (sb s) n (disk_blocks s) \<and> blk_rest s' = blk_rest s \<and>
      (\<forall>h \<in># H. b_blockno (bcache s' h) = b_blockno (bcache s h))"
    using w [of ?d] bc.block_length [OF assms(1)] by (simp add: unmark_def Let_def)
qed

section \<open>The contract of the allocator\<close>

text \<open>
  A disk is well laid out when the bitmap blocks lie on it and are marked used, so that the
  allocator never hands out a piece of the bitmap.
\<close>

definition bitmap_reserved :: "superblock \<Rightarrow> (u32 \<Rightarrow> u8 list) \<Rightarrow> bool" where
  "bitmap_reserved sp dsk \<longleftrightarrow>
     (\<forall>n < sb_size sp. BMAP_BLOCK n sp < sb_size sp \<and> used_in sp dsk (BMAP_BLOCK n sp))"

text \<open>
  The contract: \<open>view\<close> gives the contents of the blocks a client owns, \<open>taken\<close> the
  allocated blocks. Allocation returns a zeroed block nobody had and disturbs no other block.
\<close>

locale block_allocator =
  fixes ok :: "'s \<Rightarrow> nat multiset \<Rightarrow> bool"
    and alloc :: "'s \<Rightarrow> (u32 \<times> 's) option"
    and free :: "u32 \<Rightarrow> 's \<Rightarrow> 's option"
    and taken :: "'s \<Rightarrow> u32 set"
    and view :: "'s \<Rightarrow> u32 \<Rightarrow> u8 list"
    and meta :: "'s \<Rightarrow> u32 set"
    and limit :: "'s \<Rightarrow> u32"
  assumes alloc_ok: "\<lbrakk>ok s H; size H < NBUF; \<exists>n < limit s. n \<notin> taken s\<rbrakk> \<Longrightarrow> \<exists>n s'. alloc s = Some (n, s') \<and>
       ok s' H \<and> n \<notin> taken s \<and> n < limit s \<and> n \<notin> meta s \<and> taken s' = insert n (taken s) \<and> meta s' = meta s \<and>
       limit s' = limit s \<and> view s' n = replicate BSIZE 0 \<and> (\<forall>m. m \<noteq> n \<and> m \<notin> meta s \<longrightarrow> view s' m = view s m)"
    and alloc_full: "\<lbrakk>ok s H; size H < NBUF; \<forall>n < limit s. n \<in> taken s\<rbrakk> \<Longrightarrow> alloc s = None"
    and free_ok: "\<lbrakk>ok s H; size H < NBUF; n \<in> taken s; n < limit s; n \<notin> meta s\<rbrakk> \<Longrightarrow> \<exists>s'. free n s = Some s' \<and>
       ok s' H \<and> taken s' = taken s - {n} \<and> meta s' = meta s \<and> limit s' = limit s \<and>
       (\<forall>m. m \<notin> meta s \<longrightarrow> view s' m = view s m)"
    and free_free: "\<lbrakk>ok s H; size H < NBUF; n < limit s; n \<notin> taken s\<rbrakk> \<Longrightarrow> free n s = None"
begin

text \<open>A block that was allocated can be given back, and everything is as before.\<close>

lemma alloc_free_id:
  assumes "ok s H" and "size H < NBUF" and "\<exists>n < limit s. n \<notin> taken s"
  shows "\<exists>n s' s''. alloc s = Some (n, s') \<and> free n s' = Some s'' \<and> ok s'' H \<and> taken s'' = taken s \<and>
    (\<forall>m. m \<noteq> n \<and> m \<notin> meta s \<longrightarrow> view s'' m = view s m)"
proof -
  obtain n s' where a: "alloc s = Some (n, s')" "ok s' H" "n \<notin> taken s" "n < limit s" "n \<notin> meta s"
    "taken s' = insert n (taken s)" "meta s' = meta s" "limit s' = limit s"
    "\<forall>m. m \<noteq> n \<and> m \<notin> meta s \<longrightarrow> view s' m = view s m"
    using alloc_ok [OF assms] by blast
  then obtain s'' where "free n s' = Some s''" "ok s'' H" "taken s'' = taken s' - {n}"
    "\<forall>m. m \<notin> meta s' \<longrightarrow> view s'' m = view s' m"
    using free_ok [OF a(2) assms(2), of n] by auto
  then show ?thesis using a by auto
qed

text \<open>A block cannot be freed twice: the second call panics.\<close>

lemma double_free_panics:
  assumes "ok s H" and "size H < NBUF" and "n < limit s" and "n \<notin> meta s" and "free n s = Some s'"
  shows "free n s' = None"
proof -
  have "n \<in> taken s" using free_free [OF assms(1-3)] assms(5) by fastforce
  then have "ok s' H" "n \<notin> taken s'" "limit s' = limit s"
    using free_ok [OF assms(1,2) _ assms(3,4)] assms(5) by auto
  then show ?thesis using free_free [of s' H n] assms(2,3) by simp
qed

end

definition alloc_inv :: "'a blk_st_scheme \<Rightarrow> nat multiset \<Rightarrow> bool" where
  "alloc_inv s H \<longleftrightarrow> bc_inv s H \<and> bitmap_reserved (sb s) (disk_blocks s)"

definition taken_blocks :: "'a blk_st_scheme \<Rightarrow> u32 set" where
  "taken_blocks s = {n. n < sb_size (sb s) \<and> used s n}"

definition bitmap_blocks :: "'a blk_st_scheme \<Rightarrow> u32 set" where
  "bitmap_blocks s = {BMAP_BLOCK n (sb s) |n. n < sb_size (sb s)}"

lemma used_in_upd_other: "BMAP_BLOCK m sp \<noteq> n \<Longrightarrow> used_in sp (dsk(n := d)) m = used_in sp dsk m"
  by (simp add: used_in_def)

lemma balloc_effect:
  assumes "alloc_inv s H" and "size H < NBUF" and "\<exists>n < sb_size (sb s). n \<notin> taken_blocks s"
  shows "\<exists>n s'. balloc s ROOTDEV = Some (n, s') \<and> alloc_inv s' H \<and> n \<notin> taken_blocks s \<and>
    n < sb_size (sb s) \<and> n \<notin> bitmap_blocks s \<and> taken_blocks s' = insert n (taken_blocks s) \<and>
    disk_blocks s' n = replicate BSIZE 0 \<and>
    (\<forall>m. m \<noteq> n \<and> m \<notin> bitmap_blocks s \<longrightarrow> disk_blocks s' m = disk_blocks s m) \<and> blk_rest s' = blk_rest s \<and>
    (\<forall>m < n. m \<in> taken_blocks s) \<and> (\<forall>h \<in># H. b_blockno (bcache s' h) = b_blockno (bcache s h))"
proof -
  have inv: "bc_inv s H" and res: "bitmap_reserved (sb s) (disk_blocks s)"
    using assms(1) by (simp_all add: alloc_inv_def)
  have "\<exists>n < sb_size (sb s). \<not> used s n" using assms(3) by (auto simp: taken_blocks_def)
  from balloc_loop_ok [OF inv assms(2) _ _ this, of 0] obtain n s' where
    a: "balloc s ROOTDEV = Some (n, s')" "\<not> used s n" "n < sb_size (sb s)" "\<forall>m < n. used s m" "bc_inv s' H"
    "disk_blocks s' = (mark (sb s) n (disk_blocks s))(n := replicate BSIZE 0)" "blk_rest s' = blk_rest s"
    "\<forall>h \<in># H. b_blockno (bcache s' h) = b_blockno (bcache s h)" by (auto simp: balloc_def)
  have sb': "sb s' = sb s" by (rule blk_rest_sb [OF a(7)])
  have nm: "BMAP_BLOCK m (sb s) \<noteq> n" if "m < sb_size (sb s)" for m
    using res a(2) that by (auto simp: bitmap_reserved_def)
  note um = used_mark(1) [OF bc.block_length [OF inv]]
  have us: "used_in (sb s) (disk_blocks s') m \<longleftrightarrow> used s m \<or> m = n" if "m < sb_size (sb s)" for m
    using um nm [OF that] by (simp add: a(6) used_in_upd_other)
  have "bitmap_reserved (sb s') (disk_blocks s')"
    using us res by (simp add: bitmap_reserved_def sb')
  moreover have "disk_blocks s' m = disk_blocks s m" if "m \<noteq> n" "m \<notin> bitmap_blocks s" for m
    using that a(3) mark_other(1) [of m n "sb s"] by (auto simp: a(6) bitmap_blocks_def)
  moreover have "n \<notin> bitmap_blocks s" using nm by (auto simp: bitmap_blocks_def)
  moreover have "taken_blocks s' = insert n (taken_blocks s)"
    using us a(3) by (auto simp: taken_blocks_def sb')
  moreover have "\<forall>m < n. m \<in> taken_blocks s" using a(3,4) by (auto simp: taken_blocks_def)
  ultimately show ?thesis using a by (auto simp: alloc_inv_def taken_blocks_def)
qed

lemma bfree_effect:
  assumes "alloc_inv s H" and "size H < NBUF" and "n \<in> taken_blocks s" and "n \<notin> bitmap_blocks s"
  shows "\<exists>s'. bfree s ROOTDEV n = Some s' \<and> alloc_inv s' H \<and> taken_blocks s' = taken_blocks s - {n} \<and>
    (\<forall>m. m \<notin> bitmap_blocks s \<longrightarrow> disk_blocks s' m = disk_blocks s m) \<and> blk_rest s' = blk_rest s \<and>
    (\<forall>h \<in># H. b_blockno (bcache s' h) = b_blockno (bcache s h))"
proof -
  have inv: "bc_inv s H" and res: "bitmap_reserved (sb s) (disk_blocks s)"
    using assms(1) by (simp_all add: alloc_inv_def)
  have n: "used s n" "n < sb_size (sb s)" using assms(3) by (simp_all add: taken_blocks_def)
  obtain s' where f: "bfree s ROOTDEV n = Some s'" "bc_inv s' H"
    "disk_blocks s' = unmark (sb s) n (disk_blocks s)" "blk_rest s' = blk_rest s"
    "\<forall>h \<in># H. b_blockno (bcache s' h) = b_blockno (bcache s h)"
    using bfree_ok(1) [OF inv assms(2) n(1)] by blast
  have sb': "sb s' = sb s" by (rule blk_rest_sb [OF f(4)])
  note us = used_mark(2) [OF bc.block_length [OF inv]]
  have "bitmap_reserved (sb s') (disk_blocks s')"
    using us res assms(4) by (auto simp: bitmap_reserved_def sb' f(3) bitmap_blocks_def)
  moreover have "disk_blocks s' m = disk_blocks s m" if "m \<notin> bitmap_blocks s" for m
    using that n(2) mark_other(2) [of m n "sb s"] by (auto simp: f(3) bitmap_blocks_def)
  moreover have "taken_blocks s' = taken_blocks s - {n}"
    using us by (auto simp: taken_blocks_def sb' f(3))
  ultimately show ?thesis using f by (auto simp: alloc_inv_def)
qed

lemma blk_rest_meta: "blk_rest s' = blk_rest s \<Longrightarrow> bitmap_blocks s' = bitmap_blocks s"
  using blk_rest_sb [of s' s] by (simp add: bitmap_blocks_def)

interpretation ba: block_allocator alloc_inv "\<lambda>s. balloc s ROOTDEV" "\<lambda>n s. bfree s ROOTDEV n"
  taken_blocks disk_blocks bitmap_blocks "\<lambda>s. sb_size (sb s)"
proof (unfold_locales, goal_cases)
  case (1 s H)
  then obtain n s' where "balloc s ROOTDEV = Some (n, s')" "alloc_inv s' H" "n \<notin> taken_blocks s"
    "n < sb_size (sb s)" "n \<notin> bitmap_blocks s" "taken_blocks s' = insert n (taken_blocks s)"
    "disk_blocks s' n = replicate BSIZE 0"
    "\<forall>m. m \<noteq> n \<and> m \<notin> bitmap_blocks s \<longrightarrow> disk_blocks s' m = disk_blocks s m" "blk_rest s' = blk_rest s"
    using balloc_effect [of s H] by blast
  then show ?case using blk_rest_meta [of s' s] blk_rest_sb [of s' s] by auto
next
  case (2 s H)
  then have "balloc_loop s ROOTDEV 0 = None"
    by (intro balloc_loop_full [of s H]) (auto simp: alloc_inv_def taken_blocks_def)
  then show ?case by (simp add: balloc_def)
next
  case (3 s H n)
  then obtain s' where "bfree s ROOTDEV n = Some s'" "alloc_inv s' H" "taken_blocks s' = taken_blocks s - {n}"
    "\<forall>m. m \<notin> bitmap_blocks s \<longrightarrow> disk_blocks s' m = disk_blocks s m" "blk_rest s' = blk_rest s"
    using bfree_effect [of s H n] by blast
  then show ?case using blk_rest_meta [of s' s] blk_rest_sb [of s' s] by auto
next
  case (4 s H n)
  then show ?case using bfree_ok(2) [of s H n] by (simp add: alloc_inv_def taken_blocks_def)
qed

section \<open>Properties\<close>

text \<open>
  Property C20 (functional). With a free block on the disk, \<open>balloc\<close> returns the lowest
  free block, never a block of the bitmap; exactly that block becomes used, it is zeroed,
  no other block outside the bitmap changes, and the buffer cache stays consistent.
\<close>

theorem balloc_lowest_free_block:
  assumes "alloc_inv s H" and "size H < NBUF" and "n0 < sb_size (sb s)" and "\<not> used s n0"
  shows "\<exists>n s'. balloc s ROOTDEV = Some (n, s') \<and> n \<le> n0 \<and> \<not> used s n \<and> (\<forall>m < n. used s m) \<and>
    taken_blocks s' = insert n (taken_blocks s) \<and> disk_blocks s' n = replicate BSIZE 0 \<and>
    (\<forall>m. m \<noteq> n \<and> m \<notin> bitmap_blocks s \<longrightarrow> disk_blocks s' m = disk_blocks s m) \<and>
    n \<notin> bitmap_blocks s \<and> alloc_inv s' H"
proof -
  have "\<exists>n < sb_size (sb s). n \<notin> taken_blocks s" using assms(3,4) by (auto simp: taken_blocks_def)
  from balloc_effect [OF assms(1,2) this] show ?thesis
    using assms(4) by (fastforce simp: taken_blocks_def not_less)
qed

definition small_disk :: blk_st where
  "small_disk = binit (boot_blk\<lparr>disk_blocks :=
     (\<lambda>n. replicate BSIZE 0)(15 := 0xFF # 0xFF # replicate (BSIZE - 2) 0)\<rparr>)"

lemma small_disk_blocks [simp]:
  "disk_blocks small_disk = (\<lambda>n. replicate BSIZE 0)(15 := 0xFF # 0xFF # replicate (BSIZE - 2) 0)"
  "sb small_disk = sb boot_blk"
  by (simp_all add: small_disk_def binit_def)

lemma small_BMAP: "n < 2000 \<Longrightarrow> BMAP_BLOCK n (sb boot_blk) = 15"
proof -
  assume "n < 2000"
  then have "unat n < 2000" by (simp add: word_less_nat_alt)
  then have "unat (n div 8192) = 0" by (simp add: unat_div_distrib)
  then show ?thesis by (simp add: BMAP_BLOCK_def BPB_def boot_blk_def unat_eq_zero)
qed

lemma small_disk_used: "used small_disk 15" "\<not> used small_disk 16"
  by (simp_all add: used_in_def small_BMAP bit_at_def BPB_def BSIZE_def bit_numeral_rec)

lemma small_disk_inv: "alloc_inv small_disk {#}" "sb_size (sb small_disk) = 2000"
proof -
  show sz: "sb_size (sb small_disk) = 2000" by (simp add: boot_blk_def)
  have "bc_inv small_disk {#}" unfolding small_disk_def
    by (rule binit_inv) (simp add: cache_boot_def boot_blk_def BSIZE_def)
  then show "alloc_inv small_disk {#}"
    using small_disk_used(1) small_BMAP sz by (simp add: alloc_inv_def bitmap_reserved_def)
qed

theorem balloc_lowest_free_block_witness:
  "alloc_inv small_disk {#} \<and> (16 :: u32) < sb_size (sb small_disk) \<and> \<not> used small_disk 16 \<and>
   (\<exists>n s'. balloc small_disk ROOTDEV = Some (n, s') \<and> n \<le> 16 \<and> disk_blocks s' n = replicate BSIZE 0)"
  using balloc_lowest_free_block [OF small_disk_inv(1), of 16] small_disk_inv small_disk_used
  by (auto simp: NBUF_def)

text \<open>
  Property C26 (round trip and error). A block that \<open>balloc\<close> gave out can be given back
  with \<open>bfree\<close>: the set of used blocks is then as before and no other block has
  changed; a second \<open>bfree\<close> of the same block panics; and when no block is free,
  \<open>balloc\<close> panics.
\<close>

theorem balloc_bfree_round_trip:
  assumes "alloc_inv s H" and "size H < NBUF"
  shows "((\<exists>n < sb_size (sb s). \<not> used s n) \<longrightarrow>
      (\<exists>n s' s''. balloc s ROOTDEV = Some (n, s') \<and> bfree s' ROOTDEV n = Some s'' \<and>
         taken_blocks s'' = taken_blocks s \<and> alloc_inv s'' H \<and> bfree s'' ROOTDEV n = None \<and>
         (\<forall>m. m \<noteq> n \<and> m \<notin> bitmap_blocks s \<longrightarrow> disk_blocks s'' m = disk_blocks s m))) \<and>
    ((\<forall>n < sb_size (sb s). used s n) \<longrightarrow> balloc s ROOTDEV = None)"
proof -
  have 1: "\<exists>n s' s''. balloc s ROOTDEV = Some (n, s') \<and> bfree s' ROOTDEV n = Some s'' \<and>
      taken_blocks s'' = taken_blocks s \<and> alloc_inv s'' H \<and> bfree s'' ROOTDEV n = None \<and>
      (\<forall>m. m \<noteq> n \<and> m \<notin> bitmap_blocks s \<longrightarrow> disk_blocks s'' m = disk_blocks s m)"
    if ex: "\<exists>n < sb_size (sb s). n \<notin> taken_blocks s"
  proof -
    obtain n s' where a: "balloc s ROOTDEV = Some (n, s')" "alloc_inv s' H" "n < sb_size (sb s)"
      "n \<notin> bitmap_blocks s" "blk_rest s' = blk_rest s" using balloc_effect [OF assms ex] by blast
    obtain t' where t: "bfree s' ROOTDEV n = Some t'" "alloc_inv t' H" "taken_blocks t' = taken_blocks s"
      "\<forall>m. m \<noteq> n \<and> m \<notin> bitmap_blocks s \<longrightarrow> disk_blocks t' m = disk_blocks s m"
      using ba.alloc_free_id [OF assms ex] a(1) by auto
    have "bfree t' ROOTDEV n = None"
      using ba.double_free_panics [OF a(2) assms(2) _ _ t(1)] a(3,4) blk_rest_meta [OF a(5)]
        blk_rest_sb [OF a(5)] by simp
    then show ?thesis using a(1) t by blast
  qed
  have 2: "balloc s ROOTDEV = None" if "\<forall>n < sb_size (sb s). n \<in> taken_blocks s"
    by (rule ba.alloc_full [OF assms that])
  show ?thesis using 1 2 by (auto simp: taken_blocks_def)
qed

theorem balloc_bfree_round_trip_witness:
  "alloc_inv small_disk {#} \<and> (\<exists>n s' s''. balloc small_disk ROOTDEV = Some (n, s') \<and>
     bfree s' ROOTDEV n = Some s'' \<and> taken_blocks s'' = taken_blocks small_disk \<and> bfree s'' ROOTDEV n = None)"
proof -
  have "(16 :: u32) < sb_size (sb small_disk)" using small_disk_inv(2) by simp
  then show ?thesis using balloc_bfree_round_trip [OF small_disk_inv(1)] small_disk_inv(1) small_disk_used(2)
    by (auto simp: NBUF_def)
qed

end
