(* ===== verification/Inode.thy ===== *)
theory Inode
  imports Balloc Vm
begin

text \<open>
  The inode layer of \<open>kernel/fs/fs.c\<close>: on-disk inodes and their byte layout, the
  in-memory inode cache (\<open>iget\<close>, \<open>idup\<close>, \<open>ilock\<close>, \<open>iput\<close>,
  \<open>iupdate\<close>, \<open>ialloc\<close>), the block map with direct, indirect and doubly
  indirect blocks (\<open>bmap\<close>, \<open>itrunc\<close>) and file contents (\<open>readi\<close>,
  \<open>writei\<close>). An inode pointer is an index into \<open>icache.inode\<close>. The destination
  of \<open>readi\<close> is a user address, a kernel address or a kernel local; the bytes that
  were delivered are returned as well. The source \<open>src[0..n)\<close> of \<open>writei\<close> is the
  list of its bytes (the code treats both values of \<open>user_src\<close> alike).
\<close>

section \<open>Data\<close>

definition NINODE :: nat where [kdefs]: "NINODE = 50"
definition NDIRECT :: nat where [kdefs]: "NDIRECT = 11"
definition NINDIRECT :: nat where [kdefs]: "NINDIRECT = 256"
definition NDINDIRECT :: nat where [kdefs]: "NDINDIRECT = NINDIRECT * NINDIRECT"
definition MAXFILE :: nat where [kdefs]: "MAXFILE = NDIRECT + NINDIRECT + NDINDIRECT"
definition IPB :: nat where [kdefs]: "IPB = 16"
definition ROOTINO :: u32 where [kdefs]: "ROOTINO = 1"
definition FSMAGIC :: u32 where [kdefs]: "FSMAGIC = 0x10203040"
definition T_DIR :: u16 where [kdefs]: "T_DIR = 1"
definition T_FILE :: u16 where [kdefs]: "T_FILE = 2"
definition T_DEVICE :: u16 where [kdefs]: "T_DEVICE = 3"

record dinode =
  d_type :: u16
  d_major :: u16
  d_minor :: u16
  d_nlink :: u16
  d_size :: u32
  d_addrs :: "u32 list"

record inode =
  i_dev :: u32
  i_inum :: u32
  i_ref :: int
  i_valid :: bool
  i_type :: u16
  i_major :: u16
  i_minor :: u16
  i_nlink :: u16
  i_size :: u32
  i_addrs :: "u32 list"

record fs_st = blk_st +
  icache :: "nat \<Rightarrow> inode"

definition upd_inode :: "nat \<Rightarrow> (inode \<Rightarrow> inode) \<Rightarrow> 'a fs_st_scheme \<Rightarrow> 'a fs_st_scheme" where
  "upd_inode ip f s = s\<lparr>icache := (icache s)(ip := f (icache s ip))\<rparr>"

section \<open>Arrays of 32-bit words in a block\<close>

definition get32 :: "u8 list \<Rightarrow> nat \<Rightarrow> u32" where
  "get32 data i = le_word (take 4 (drop (4 * i) data))"

definition set32 :: "u8 list \<Rightarrow> nat \<Rightarrow> u32 \<Rightarrow> u8 list" where
  "set32 data i v = overwrite data (4 * i) (le_bytes 4 v)"

section \<open>The on-disk inode\<close>

definition encode_dinode :: "dinode \<Rightarrow> u8 list" where
  "encode_dinode d = le_bytes 2 (d_type d) @ le_bytes 2 (d_major d) @ le_bytes 2 (d_minor d) @
     le_bytes 2 (d_nlink d) @ le_bytes 4 (d_size d) @ concat (map (le_bytes 4) (d_addrs d))"

definition decode_dinode :: "u8 list \<Rightarrow> dinode" where
  "decode_dinode bs = \<lparr>d_type = le_word (take 2 bs), d_major = le_word (take 2 (drop 2 bs)),
     d_minor = le_word (take 2 (drop 4 bs)), d_nlink = le_word (take 2 (drop 6 bs)),
     d_size = le_word (take 4 (drop 8 bs)),
     d_addrs = map (\<lambda>i. get32 (drop 12 bs) i) [0..<NDIRECT + 2]\<rparr>"

definition dinode_at :: "u8 list \<Rightarrow> u32 \<Rightarrow> dinode" where
  "dinode_at data inum = decode_dinode (take 64 (drop (64 * (unat inum mod IPB)) data))"

definition put_dinode :: "u8 list \<Rightarrow> u32 \<Rightarrow> dinode \<Rightarrow> u8 list" where
  "put_dinode data inum d = overwrite data (64 * (unat inum mod IPB)) (encode_dinode d)"

definition inode_block :: "superblock \<Rightarrow> u32 \<Rightarrow> u32" where
  "inode_block sp inum = inodestart sp + inum div of_nat IPB"

section \<open>The inode cache\<close>

definition iupdate :: "nat \<Rightarrow> 'a fs_st_scheme \<Rightarrow> 'a fs_st_scheme option" where
  "iupdate ip s =
     (let i = icache s ip in
      do { (bp, s) \<leftarrow> bread s (i_dev i) (inode_block (sb s) (i_inum i));
           let d = \<lparr>d_type = i_type i, d_major = i_major i, d_minor = i_minor i, d_nlink = i_nlink i,
                    d_size = i_size i, d_addrs = i_addrs i\<rparr>;
           let s = bset bp (put_dinode (bdata s bp) (i_inum i) d) s;
           let s = bwrite bp s;
           Some (brelse bp s) })"

definition iget :: "'a fs_st_scheme \<Rightarrow> u32 \<Rightarrow> u32 \<Rightarrow> (nat \<times> 'a fs_st_scheme) option" where
  "iget s dev inum =
     (case List.find (\<lambda>ip. let i = icache s ip in 0 < i_ref i \<and> i_dev i = dev \<and> i_inum i = inum) [0..<NINODE] of
        Some ip \<Rightarrow> Some (ip, upd_inode ip (\<lambda>i. i\<lparr>i_ref := i_ref i + 1\<rparr>) s)
      | None \<Rightarrow>
          (case List.find (\<lambda>ip. i_ref (icache s ip) = 0) [0..<NINODE] of
             Some ip \<Rightarrow> Some (ip, upd_inode ip (\<lambda>i. i\<lparr>i_dev := dev, i_inum := inum, i_ref := 1, i_valid := False\<rparr>) s)
           | None \<Rightarrow> None))"  \<comment> \<open>panic: iget: no inodes\<close>

definition idup :: "nat \<Rightarrow> 'a fs_st_scheme \<Rightarrow> 'a fs_st_scheme" where
  "idup ip s = upd_inode ip (\<lambda>i. i\<lparr>i_ref := i_ref i + 1\<rparr>) s"

definition ilock :: "nat \<Rightarrow> 'a fs_st_scheme \<Rightarrow> 'a fs_st_scheme option" where
  "ilock ip s =
     do { s \<leftarrow> (if \<not> i_valid (icache s ip)
                then let i = icache s ip in
                  do { (bp, s) \<leftarrow> bread s (i_dev i) (inode_block (sb s) (i_inum i));
                       let d = dinode_at (bdata s bp) (i_inum i);
                       let s = upd_inode ip (\<lambda>i. i\<lparr>i_type := d_type d, i_major := d_major d, i_minor := d_minor d,
                                 i_nlink := d_nlink d, i_size := d_size d, i_addrs := d_addrs d\<rparr>) s;
                       let s = brelse bp s;
                       Some (upd_inode ip (\<lambda>i. i\<lparr>i_valid := True\<rparr>) s) }
                else Some s);
          if i_type (icache s ip) = 0 then None  \<comment> \<open>panic: ilock: no type\<close>
          else Some s }"

definition iunlock :: "nat \<Rightarrow> 'a fs_st_scheme \<Rightarrow> 'a fs_st_scheme option" where
  "iunlock ip s = (if 1 \<le> i_ref (icache s ip) then Some s else None)"

section \<open>The block map\<close>

text \<open>An entry of an index block: read it, allocate it if it is 0.\<close>

definition bmap_entry :: "'a fs_st_scheme \<Rightarrow> u32 \<Rightarrow> u32 \<Rightarrow> nat \<Rightarrow> (u32 \<times> 'a fs_st_scheme) option" where
  "bmap_entry s dev blk i =
     do { (bp, s) \<leftarrow> bread s dev blk;
          let addr = get32 (bdata s bp) i;
          if addr = 0
          then do { (addr, s) \<leftarrow> balloc s dev;
                    let s = bset bp (set32 (bdata s bp) i addr) s;
                    let s = bwrite bp s;
                    Some (addr, brelse bp s) }
          else Some (addr, brelse bp s) }"

text \<open>An entry of \<open>ip->addrs\<close>: allocated on demand, in memory only.\<close>

definition bmap_addr :: "'a fs_st_scheme \<Rightarrow> nat \<Rightarrow> nat \<Rightarrow> (u32 \<times> 'a fs_st_scheme) option" where
  "bmap_addr s ip i =
     (let addr = i_addrs (icache s ip) ! i in
      if addr = 0
      then do { (addr, s) \<leftarrow> balloc s (i_dev (icache s ip));
                Some (addr, upd_inode ip (\<lambda>x. x\<lparr>i_addrs := (i_addrs x)[i := addr]\<rparr>) s) }
      else Some (addr, s))"

definition bmap :: "'a fs_st_scheme \<Rightarrow> nat \<Rightarrow> nat \<Rightarrow> (u32 \<times> 'a fs_st_scheme) option" where
  "bmap s ip bn =
     (let dev = i_dev (icache s ip) in
      if bn < NDIRECT then bmap_addr s ip bn
      else let bn = bn - NDIRECT in
        if bn < NINDIRECT
        then do { (addr, s) \<leftarrow> bmap_addr s ip NDIRECT; bmap_entry s dev addr bn }
        else let bn = bn - NINDIRECT in
          if bn < NDINDIRECT
          then do { (addr, s) \<leftarrow> bmap_addr s ip (NDIRECT + 1);
                    (addr2, s) \<leftarrow> bmap_entry s dev addr (bn div NINDIRECT);
                    bmap_entry s dev addr2 (bn mod NINDIRECT) }
          else None)"  \<comment> \<open>panic: bmap: out of range\<close>

definition itrunc_leaf :: "u32 \<Rightarrow> u8 list \<Rightarrow> nat \<Rightarrow> 'a fs_st_scheme \<Rightarrow> 'a fs_st_scheme option" where
  "itrunc_leaf dev a i s = (if get32 a i \<noteq> 0 then bfree s dev (get32 a i) else Some s)"

definition itrunc_mid :: "u32 \<Rightarrow> u8 list \<Rightarrow> nat \<Rightarrow> 'a fs_st_scheme \<Rightarrow> 'a fs_st_scheme option" where
  "itrunc_mid dev a i s =
     (if get32 a i \<noteq> 0
      then do { (bp2, s) \<leftarrow> bread s dev (get32 a i);
                s \<leftarrow> for_each (itrunc_leaf dev (bdata s bp2)) [0..<NINDIRECT] s;
                bfree (brelse bp2 s) dev (get32 a i) }
      else Some s)"

definition itrunc_direct :: "nat \<Rightarrow> nat \<Rightarrow> 'a fs_st_scheme \<Rightarrow> 'a fs_st_scheme option" where
  "itrunc_direct ip i s =
     (if i_addrs (icache s ip) ! i \<noteq> 0
      then do { s \<leftarrow> bfree s (i_dev (icache s ip)) (i_addrs (icache s ip) ! i);
                Some (upd_inode ip (\<lambda>x. x\<lparr>i_addrs := (i_addrs x)[i := 0]\<rparr>) s) }
      else Some s)"

definition itrunc_index ::
  "nat \<Rightarrow> nat \<Rightarrow> (u32 \<Rightarrow> u8 list \<Rightarrow> nat \<Rightarrow> 'a fs_st_scheme \<Rightarrow> 'a fs_st_scheme option) \<Rightarrow>
     'a fs_st_scheme \<Rightarrow> 'a fs_st_scheme option" where
  "itrunc_index ip k f s =
     (let dev = i_dev (icache s ip) in
      if i_addrs (icache s ip) ! k \<noteq> 0
      then do { (bp, s) \<leftarrow> bread s dev (i_addrs (icache s ip) ! k);
                s \<leftarrow> for_each (f dev (bdata s bp)) [0..<NINDIRECT] s;
                s \<leftarrow> bfree (brelse bp s) dev (i_addrs (icache s ip) ! k);
                Some (upd_inode ip (\<lambda>x. x\<lparr>i_addrs := (i_addrs x)[k := 0]\<rparr>) s) }
      else Some s)"

definition itrunc :: "nat \<Rightarrow> 'a fs_st_scheme \<Rightarrow> 'a fs_st_scheme option" where
  "itrunc ip s =
     do { s \<leftarrow> for_each (itrunc_direct ip) [0..<NDIRECT] s;
          s \<leftarrow> itrunc_index ip NDIRECT itrunc_leaf s;
          s \<leftarrow> itrunc_index ip (NDIRECT + 1) itrunc_mid s;
          iupdate ip (upd_inode ip (\<lambda>x. x\<lparr>i_size := 0\<rparr>) s) }"

definition iput :: "nat \<Rightarrow> 'a fs_st_scheme \<Rightarrow> 'a fs_st_scheme option" where
  "iput ip s =
     (let s = upd_inode ip (\<lambda>i. i\<lparr>i_ref := i_ref i - 1\<rparr>) s; i = icache s ip in
      do { s \<leftarrow> (if i_ref i = 0 \<and> i_valid i \<and> i_nlink i = 0
                 then do { s \<leftarrow> itrunc ip s;
                           iupdate ip (upd_inode ip (\<lambda>i. i\<lparr>i_type := 0\<rparr>) s) }
                 else Some s);
           Some (if i_ref (icache s ip) = 0 then upd_inode ip (\<lambda>i. i\<lparr>i_valid := False\<rparr>) s else s) })"

definition iunlockput :: "nat \<Rightarrow> 'a fs_st_scheme \<Rightarrow> 'a fs_st_scheme option" where
  "iunlockput ip s = do { s \<leftarrow> iunlock ip s; iput ip s }"

fun ialloc_loop :: "'a fs_st_scheme \<Rightarrow> u32 \<Rightarrow> u16 \<Rightarrow> nat list \<Rightarrow> (nat \<times> 'a fs_st_scheme) option" where
  "ialloc_loop s dev type [] = None"  \<comment> \<open>panic: ialloc: no inodes\<close>
| "ialloc_loop s dev type (inum # is) =
     do { (bp, s) \<leftarrow> bread s dev (inode_block (sb s) (of_nat inum));
          if d_type (dinode_at (bdata s bp) (of_nat inum)) = 0
          then let d = \<lparr>d_type = type, d_major = 0, d_minor = 0, d_nlink = 0, d_size = 0,
                        d_addrs = replicate (NDIRECT + 2) 0\<rparr>;
                   s = bset bp (put_dinode (bdata s bp) (of_nat inum) d) s;
                   s = bwrite bp s
               in iget (brelse bp s) dev (of_nat inum)
          else ialloc_loop (brelse bp s) dev type is }"

definition ialloc :: "'a fs_st_scheme \<Rightarrow> u32 \<Rightarrow> u16 \<Rightarrow> (nat \<times> 'a fs_st_scheme) option" where
  "ialloc s dev type = ialloc_loop s dev type [1..<unat (ninodes (sb s))]"

section \<open>File contents\<close>

datatype rdst = DUser u64 | DKern u64 | DLocal

text \<open>The copy at the bottom of the loop of \<open>readi\<close>: the chunk goes to \<open>dst + tot\<close>.\<close>

definition deliver :: "rdst \<Rightarrow> nat \<Rightarrow> u8 list \<Rightarrow> 'a fs_st_scheme \<Rightarrow> (int \<times> 'a fs_st_scheme) option" where
  "deliver dst tot chunk s =
     (case dst of
        DUser va \<Rightarrow> do { p \<leftarrow> myproc s; copyout s (pagetable (procs s p)) (va + of_nat tot) chunk }
      | DKern pa \<Rightarrow> Some (0, s\<lparr>pmem := mem_write (pmem s) (pa + of_nat tot) chunk\<rparr>)
      | DLocal \<Rightarrow> Some (0, s))"

function readi_loop ::
  "'a fs_st_scheme \<Rightarrow> nat \<Rightarrow> rdst \<Rightarrow> u32 \<Rightarrow> nat \<Rightarrow> u8 list \<Rightarrow> (u8 list \<times> 'a fs_st_scheme) option" where
  "readi_loop s ip dst off rem got =
     (if rem = 0 then Some (got, s)
      else do { (blockno, s1) \<leftarrow> bmap s ip (unat off div BSIZE);
                (bp, s2) \<leftarrow> bread s1 (i_dev (icache s1 ip)) blockno;
                let m = min (BSIZE - unat off mod BSIZE) rem;
                let chunk = take m (drop (unat off mod BSIZE) (bdata s2 bp));
                (r, s3) \<leftarrow> deliver dst (length got) chunk s2;
                let s4 = brelse bp s3;
                if r < 0 then Some (got, s4)
                else readi_loop s4 ip dst (off + of_nat m) (rem - m) (got @ chunk) })"
  by pat_completeness auto
termination
  by (relation "measure (\<lambda>(s, ip, dst, off, rem, got). rem)") (auto simp: BSIZE_def)

declare readi_loop.simps [simp del]

text \<open>The number of bytes read is the length of the byte list returned.\<close>

definition readi ::
  "'a fs_st_scheme \<Rightarrow> nat \<Rightarrow> rdst \<Rightarrow> u32 \<Rightarrow> u32 \<Rightarrow> (u8 list \<times> 'a fs_st_scheme) option" where
  "readi s ip dst off n =
     (let sz = i_size (icache s ip) in
      if sz < off \<or> off + n < off then Some ([], s)
      else let n = (if sz < off + n then sz - off else n) in
        readi_loop s ip dst off (unat n) [])"

function writei_loop ::
  "'a fs_st_scheme \<Rightarrow> nat \<Rightarrow> u32 \<Rightarrow> u8 list \<Rightarrow> (u32 \<times> 'a fs_st_scheme) option" where
  "writei_loop s ip off bs =
     (if bs = [] then Some (off, s)
      else do { (blockno, s1) \<leftarrow> bmap s ip (unat off div BSIZE);
                (bp, s2) \<leftarrow> bread s1 (i_dev (icache s1 ip)) blockno;
                let m = min (BSIZE - unat off mod BSIZE) (length bs);
                let s3 = bset bp (overwrite (bdata s2 bp) (unat off mod BSIZE) (take m bs)) s2;
                let s4 = bwrite bp s3;
                writei_loop (brelse bp s4) ip (off + of_nat m) (drop m bs) })"
  by pat_completeness auto
termination
proof (relation "measure (\<lambda>(s, ip, off, bs). length bs)", goal_cases)
  case (2 s ip off bs)
  have "unat off mod BSIZE < BSIZE" by (simp add: BSIZE_def)
  then show ?case using 2 by simp
qed simp

declare writei_loop.simps [simp del]

text \<open>The copy loop and the update of the size, shared by the recursive call.\<close>

definition writei_tail :: "'a fs_st_scheme \<Rightarrow> nat \<Rightarrow> u32 \<Rightarrow> u8 list \<Rightarrow> (int \<times> 'a fs_st_scheme) option" where
  "writei_tail s ip off bs =
     do { (off, s) \<leftarrow> writei_loop s ip off bs;
          s \<leftarrow> (if bs \<noteq> [] \<and> i_size (icache s ip) < off
                then iupdate ip (upd_inode ip (\<lambda>x. x\<lparr>i_size := off\<rparr>) s)
                else Some s);
          Some (int (length bs), s) }"

definition writei_bad :: "u32 \<Rightarrow> u32 \<Rightarrow> bool" where
  "writei_bad off n \<longleftrightarrow> off + n < off \<or> MAXFILE * BSIZE < unat (off + n)"

text \<open>
  The recursive call \<open>writei(ip, 0, zeros, ip->size, gap)\<close>: its offset is the size, so
  it never fills a gap itself.
\<close>

definition writei_zeros :: "'a fs_st_scheme \<Rightarrow> nat \<Rightarrow> u32 \<Rightarrow> (int \<times> 'a fs_st_scheme) option" where
  "writei_zeros s ip gap =
     (let off = i_size (icache s ip) in
      if writei_bad off gap then Some (-1, s)
      else if gap = 0 then Some (0, s)
      else writei_tail s ip off (replicate (unat gap) 0))"

partial_function (option) writei_fill ::
  "'a fs_st_scheme \<Rightarrow> nat \<Rightarrow> u32 \<Rightarrow> (bool \<times> 'a fs_st_scheme) option" where
  "writei_fill s ip off =
     (if i_size (icache s ip) < off
      then let gap = min (off - i_size (icache s ip)) 128 in
        do { (r, s) \<leftarrow> writei_zeros s ip gap;
             if r \<noteq> int (unat gap) then Some (False, s) else writei_fill s ip off }
      else Some (True, s))"

definition writei :: "'a fs_st_scheme \<Rightarrow> nat \<Rightarrow> u32 \<Rightarrow> u8 list \<Rightarrow> (int \<times> 'a fs_st_scheme) option" where
  "writei s ip off bs =
     (if writei_bad off (of_nat (length bs)) then Some (-1, s)
      else if bs = [] then Some (0, s)
      else do { (ok, s) \<leftarrow> writei_fill s ip off;
                if \<not> ok then Some (-1, s) else writei_tail s ip off bs })"

section \<open>The layout of the on-disk inode\<close>

lemma length_concat_le: "length (concat (map (le_bytes k) xs)) = k * length xs"
  by (induction xs) auto

lemma take_concat_le:
  assumes "i < length xs"
  shows "take k (drop (k * i) (concat (map (le_bytes k) xs))) = le_bytes k (xs ! i)"
  using assms
proof (induction xs arbitrary: i)
  case (Cons x xs)
  then show ?case by (cases i) (simp_all add: drop_append)
qed simp

lemma length_encode_dinode: "length (d_addrs d) = NDIRECT + 2 \<Longrightarrow> length (encode_dinode d) = 64"
  by (simp add: encode_dinode_def length_concat_le NDIRECT_def)

lemma decode_encode_dinode:
  assumes "length (d_addrs d) = NDIRECT + 2"
  shows "decode_dinode (encode_dinode d) = d"
proof -
  have "map (get32 (concat (map (le_bytes 4) (d_addrs d)))) [0..<NDIRECT + 2] = d_addrs d"
    using assms by (intro nth_equalityI) (simp_all add: get32_def take_concat_le le_word_le_bytes del: upt_Suc)
  then show ?thesis
    by (simp add: decode_dinode_def encode_dinode_def le_word_le_bytes del: upt_Suc)
qed

lemma dinode_at_put:
  assumes "length data = BSIZE" and "length (d_addrs d) = NDIRECT + 2"
  shows "dinode_at (put_dinode data i d) j =
    (if unat i mod IPB = unat j mod IPB then d else dinode_at data j)"
    and "length (put_dinode data i d) = BSIZE"
proof -
  let ?i = "64 * (unat i mod IPB)" and ?j = "64 * (unat j mod IPB)" and ?e = "encode_dinode d"
  have e: "length ?e = 64" by (rule length_encode_dinode [OF assms(2)])
  have b: "64 * (k mod IPB) + 64 \<le> BSIZE" for k
    using mod_less_divisor [of 16 k] by (simp add: IPB_def BSIZE_def)
  show "length (put_dinode data i d) = BSIZE" using assms(1) b e by (simp add: put_dinode_def)
  show "dinode_at (put_dinode data i d) j = (if unat i mod IPB = unat j mod IPB then d else dinode_at data j)"
  proof (cases "unat i mod IPB = unat j mod IPB")
    case True
    then show ?thesis
      using take_drop_overwrite [of ?i ?e data] b e assms decode_encode_dinode [OF assms(2)]
      by (simp add: dinode_at_def put_dinode_def)
  next
    case False
    have "take 64 (drop ?j (overwrite data ?i ?e)) = take 64 (drop ?j data)"
      using False b e assms(1) by (intro nth_equalityI) (auto simp: nth_overwrite)
    then show ?thesis using False by (simp add: dinode_at_def put_dinode_def)
  qed
qed

end
