(* ===== verification/File_Map.thy ===== *)
theory File_Map
  imports Inode "HOL-Library.Sublist"
begin

text \<open>
  The block map of a file. A slot of the map is named by the path from the inode to it,
  leaf first: \<open>[k]\<close> is \<open>addrs[k]\<close>, \<open>[i, 11]\<close> an entry of the indirect
  block, \<open>[i, 12]\<close> an entry of the doubly indirect block and \<open>[j, i, 12]\<close> an
  entry of a second-level index block. \<open>slot\<close> reads the block number in a slot. On a
  well-formed file (all allocated slots hold different, used blocks) \<open>bmap\<close> fills
  exactly the missing slots on the path of one block.
\<close>

section \<open>Words in blocks\<close>

lemma get32_set32:
  assumes "4 * i + 4 \<le> length d" and "4 * j + 4 \<le> length d"
  shows "get32 (set32 d i v) j = (if i = j then v else get32 d j)"
proof (cases "i = j")
  case True
  then show ?thesis
    using assms take_drop_overwrite [of "4 * i" "le_bytes 4 v" d]
    by (simp add: get32_def set32_def le_word_le_bytes)
next
  case False
  have "take 4 (drop (4 * j) (overwrite d (4 * i) (le_bytes 4 v))) = take 4 (drop (4 * j) d)"
    using assms False by (intro nth_equalityI) (auto simp: nth_overwrite)
  then show ?thesis using False by (simp add: get32_def set32_def)
qed

lemma length_set32 [simp]: "4 * i + 4 \<le> length d \<Longrightarrow> length (set32 d i v) = length d"
  by (simp add: set32_def)

lemma le_word_zeros: "le_word (replicate n 0) = 0"
  by (induction n) auto

lemma get32_zeros [simp]: "get32 (replicate n 0) j = 0"
  by (simp add: get32_def drop_replicate take_replicate le_word_zeros)

section \<open>Slots\<close>

fun slot :: "(u32 \<Rightarrow> u8 list) \<Rightarrow> u32 list \<Rightarrow> nat list \<Rightarrow> u32" where
  "slot dsk addrs [] = 0"
| "slot dsk addrs [k] = addrs ! k"
| "slot dsk addrs (i # p) = (if slot dsk addrs p = 0 then 0 else get32 (dsk (slot dsk addrs p)) i)"

lemma slot_Cons: "p \<noteq> [] \<Longrightarrow>
  slot dsk addrs (i # p) = (if slot dsk addrs p = 0 then 0 else get32 (dsk (slot dsk addrs p)) i)"
  by (cases p) auto

fun is_slot :: "nat list \<Rightarrow> bool" where
  "is_slot [k] = (k < NDIRECT + 2)"
| "is_slot [i, k] = (i < NINDIRECT \<and> (k = NDIRECT \<or> k = NDIRECT + 1))"
| "is_slot [j, i, k] = (j < NINDIRECT \<and> i < NINDIRECT \<and> k = NDIRECT + 1)"
| "is_slot _ = False"

lemma is_slot_ConsD: "is_slot (i # p) \<Longrightarrow> p \<noteq> [] \<Longrightarrow> is_slot p \<and> i < NINDIRECT"
  by (cases "i # p" rule: is_slot.cases) (auto simp: NDIRECT_def)

lemma is_slot_nonempty [simp]: "\<not> is_slot []"
  by simp

text \<open>The path of a block of the file.\<close>

definition bpath :: "nat \<Rightarrow> nat list" where
  "bpath bn = (if bn < NDIRECT then [bn]
     else if bn - NDIRECT < NINDIRECT then [bn - NDIRECT, NDIRECT]
     else let k = bn - NDIRECT - NINDIRECT in [k mod NINDIRECT, k div NINDIRECT, NDIRECT + 1])"

lemma is_slot_bpath: "bn < MAXFILE \<Longrightarrow> is_slot (bpath bn)"
  by (auto simp: bpath_def Let_def MAXFILE_def NDINDIRECT_def NDIRECT_def NINDIRECT_def)

lemma bpath_inj:
  assumes "bpath a = bpath b"
  shows "a = b"
proof -
  define f where "f = (\<lambda>x. x - NDIRECT - NINDIRECT)"
  have eq: "f a = f b" if "f a mod NINDIRECT = f b mod NINDIRECT" "f a div NINDIRECT = f b div NINDIRECT"
    using that by (metis div_mult_mod_eq)
  have ge: "x = f x + NDIRECT + NINDIRECT" if "\<not> x < NDIRECT" "\<not> x - NDIRECT < NINDIRECT" for x
    using that by (simp add: f_def)
  have big: "bpath x = [f x mod NINDIRECT, f x div NINDIRECT, NDIRECT + 1]"
    if "\<not> x < NDIRECT" "\<not> x - NDIRECT < NINDIRECT" for x
    using that by (simp add: bpath_def f_def Let_def)
  have len: "length (bpath x) = (if x < NDIRECT then 1 else if x - NDIRECT < NINDIRECT then 2 else 3)" for x
    by (simp add: bpath_def Let_def)
  show ?thesis
  proof (cases "length (bpath a) = 3")
    case True
    then have "length (bpath b) = 3" using assms by simp
    then have a: "\<not> a < NDIRECT" "\<not> a - NDIRECT < NINDIRECT" and b: "\<not> b < NDIRECT" "\<not> b - NDIRECT < NINDIRECT"
      using True by (auto simp only: len split: if_splits)
    have "f a = f b" using assms unfolding big [OF a] big [OF b] by (intro eq) simp_all
    then show ?thesis using ge [OF a] ge [OF b] by simp
  next
    case False
    then have "length (bpath b) \<noteq> 3" using assms by simp
    then show ?thesis using False assms
      by (auto simp: bpath_def Let_def split: if_splits)
  qed
qed

section \<open>Well-formed block maps\<close>

definition map_ok :: "u32 set \<Rightarrow> (u32 \<Rightarrow> u8 list) \<Rightarrow> u32 list \<Rightarrow> bool" where
  "map_ok allowed dsk addrs \<longleftrightarrow> length addrs = NDIRECT + 2 \<and>
     (\<forall>q. is_slot q \<and> slot dsk addrs q \<noteq> 0 \<longrightarrow> slot dsk addrs q \<in> allowed) \<and>
     (\<forall>p q. is_slot p \<and> is_slot q \<and> slot dsk addrs p \<noteq> 0 \<and> slot dsk addrs p = slot dsk addrs q \<longrightarrow> p = q)"

definition file_blocks :: "(u32 \<Rightarrow> u8 list) \<Rightarrow> u32 list \<Rightarrow> u32 set" where
  "file_blocks dsk addrs = {slot dsk addrs q |q. is_slot q \<and> slot dsk addrs q \<noteq> 0}"

text \<open>The index blocks: those with slots below them.\<close>

definition index_blocks :: "(u32 \<Rightarrow> u8 list) \<Rightarrow> u32 list \<Rightarrow> u32 set" where
  "index_blocks dsk addrs = {slot dsk addrs q |q i. is_slot q \<and> is_slot (i # q) \<and> slot dsk addrs q \<noteq> 0}"

lemma map_okD:
  assumes "map_ok allowed dsk addrs"
  shows "length addrs = NDIRECT + 2"
    and "is_slot q \<Longrightarrow> slot dsk addrs q \<noteq> 0 \<Longrightarrow> slot dsk addrs q \<in> allowed"
    and "is_slot p \<Longrightarrow> is_slot q \<Longrightarrow> slot dsk addrs p \<noteq> 0 \<Longrightarrow> slot dsk addrs p = slot dsk addrs q \<Longrightarrow> p = q"
  using assms unfolding map_ok_def by blast+

text \<open>Only the index blocks matter for the map.\<close>

lemma slot_cong:
  assumes "\<And>b. b \<in> index_blocks dsk addrs \<Longrightarrow> dsk' b = dsk b" and "is_slot q"
  shows "slot dsk' addrs q = slot dsk addrs q"
  using assms(2)
proof (induction q)
  case (Cons i p)
  show ?case
  proof (cases "p = []")
    case False
    then have p: "is_slot p" "i < NINDIRECT" using is_slot_ConsD [OF Cons.prems] by auto
    have "dsk' (slot dsk addrs p) = dsk (slot dsk addrs p)" if "slot dsk addrs p \<noteq> 0"
      using that p(1) Cons.prems by (intro assms(1)) (auto simp: index_blocks_def)
    then show ?thesis using Cons.IH [OF p(1)] False by (auto simp: slot_Cons)
  qed simp
qed simp

lemma map_ok_cong:
  assumes "map_ok A dsk addrs" and "\<And>b. b \<in> index_blocks dsk addrs \<Longrightarrow> dsk' b = dsk b"
  shows "map_ok A dsk' addrs" and "file_blocks dsk' addrs = file_blocks dsk addrs"
proof -
  have sl: "slot dsk' addrs q = slot dsk addrs q" if "is_slot q" for q
    using slot_cong [of dsk addrs dsk', OF assms(2) that] .
  show "map_ok A dsk' addrs"
    unfolding map_ok_def
  proof (intro conjI allI impI; (elim conjE)?)
    show "length addrs = NDIRECT + 2" by (rule map_okD(1) [OF assms(1)])
    show "slot dsk' addrs q \<in> A" if "is_slot q" "slot dsk' addrs q \<noteq> 0" for q
      using that map_okD(2) [OF assms(1), of q] by (simp add: sl)
    show "p = q" if "is_slot p" "is_slot q" "slot dsk' addrs p \<noteq> 0" "slot dsk' addrs p = slot dsk' addrs q" for p q
      using that map_okD(3) [OF assms(1), of p q] by (simp add: sl)
  qed
  show "file_blocks dsk' addrs = file_blocks dsk addrs"
    unfolding file_blocks_def using sl by (metis (no_types, lifting))
qed

section \<open>Filling a slot\<close>

text \<open>A fresh zeroed block enters an entry of an index block.\<close>

lemma slot_fill_entry:
  assumes ok: "map_ok A dsk addrs" and p: "is_slot (i # p)" "p \<noteq> []" and a: "slot dsk addrs p = a" "a \<noteq> 0"
    and empty: "slot dsk addrs (i # p) = 0" and fresh: "n \<notin> A" "n \<noteq> 0"
    and dsk: "dsk' a = set32 (dsk a) i n" "length (dsk a) = BSIZE" "dsk' n = replicate BSIZE 0"
      "\<And>m. m \<in> A \<Longrightarrow> m \<noteq> a \<Longrightarrow> dsk' m = dsk m"
    and q: "is_slot q"
  shows "slot dsk' addrs q = (if q = i # p then n else slot dsk addrs q)"
  using q
proof (induction q)
  case (Cons j q)
  show ?case
  proof (cases "q = []")
    case True
    then show ?thesis using p(2) by auto
  next
    case False
    then have q: "is_slot q" "j < NINDIRECT" using is_slot_ConsD [OF Cons.prems] by auto
    note IH = Cons.IH [OF q(1)]
    have ip: "is_slot p" "i < NINDIRECT" using is_slot_ConsD [OF p] by auto
    consider "q = i # p" | "q \<noteq> i # p" "slot dsk addrs q = 0" | "q = p" "q \<noteq> i # p"
      | "q \<noteq> i # p" "slot dsk addrs q \<noteq> 0" "q \<noteq> p" by blast
    then show ?thesis
    proof cases
      case 1
      then show ?thesis using IH empty fresh(2) dsk(3) by (simp add: slot_Cons p(2))
    next
      case 2
      then show ?thesis using IH False a by (auto simp: slot_Cons)
    next
      case 3
      have "4 * i + 4 \<le> length (dsk a)" "4 * j + 4 \<le> length (dsk a)"
        using ip(2) q(2) dsk(2) by (simp_all add: NINDIRECT_def BSIZE_def)
      then show ?thesis using 3 IH False a dsk(1) by (simp add: slot_Cons get32_set32)
    next
      case 4
      have "slot dsk addrs q \<in> A" by (rule map_okD(2) [OF ok q(1) 4(2)])
      moreover have "slot dsk addrs q \<noteq> a"
        using map_okD(3) [OF ok q(1) ip(1) 4(2)] a(1) 4(3) by auto
      ultimately show ?thesis using 4 IH False dsk(4) by (simp add: slot_Cons)
    qed
  qed
qed simp

text \<open>A fresh zeroed block enters \<open>addrs\<close>.\<close>

lemma slot_fill_addr:
  assumes ok: "map_ok A dsk addrs" and k: "k < NDIRECT + 2" "addrs ! k = 0" and fresh: "n \<notin> A" "n \<noteq> 0"
    and dsk: "dsk' n = replicate BSIZE 0" "\<And>m. m \<in> A \<Longrightarrow> dsk' m = dsk m"
    and q: "is_slot q"
  shows "slot dsk' (addrs[k := n]) q = (if q = [k] then n else slot dsk addrs q)"
  using q
proof (induction q)
  case (Cons j q)
  show ?case
  proof (cases "q = []")
    case True
    then show ?thesis using Cons.prems map_okD(1) [OF ok] by (auto simp: nth_list_update)
  next
    case False
    then have q: "is_slot q" "j < NINDIRECT" using is_slot_ConsD [OF Cons.prems] by auto
    note IH = Cons.IH [OF q(1)]
    show ?thesis
    proof (cases "q = [k]")
      case True
      then show ?thesis using k dsk(1) map_okD(1) [OF ok] by simp
    next
      case ne: False
      have "dsk' (slot dsk addrs q) = dsk (slot dsk addrs q)" if "slot dsk addrs q \<noteq> 0"
        using map_okD(2) [OF ok q(1) that] dsk(2) by simp
      then show ?thesis using IH ne False by (auto simp: slot_Cons)
    qed
  qed
qed simp

text \<open>Either way the map stays well formed.\<close>

lemma map_ok_fill:
  assumes ok: "map_ok A dsk addrs" and fresh: "n \<notin> A" and len: "length addrs' = NDIRECT + 2"
    and fill: "\<And>q. is_slot q \<Longrightarrow> slot dsk' addrs' q = (if q = x then n else slot dsk addrs q)"
  shows "map_ok (insert n A) dsk' addrs'"
  unfolding map_ok_def
proof (intro conjI allI impI; (elim conjE)?)
  show "length addrs' = NDIRECT + 2" by (rule len)
  show "slot dsk' addrs' q \<in> insert n A" if "is_slot q" "slot dsk' addrs' q \<noteq> 0" for q
    using that map_okD(2) [OF ok, of q] by (auto simp: fill)
  show "p = q" if "is_slot p" "is_slot q" "slot dsk' addrs' p \<noteq> 0" "slot dsk' addrs' p = slot dsk' addrs' q" for p q
    using that map_okD(3) [OF ok, of p q] map_okD(2) [OF ok, of p] map_okD(2) [OF ok, of q] fresh
    by (auto simp: fill split: if_splits)
qed

section \<open>The invariant of an open file\<close>

abbreviation fslot :: "'a fs_st_scheme \<Rightarrow> nat \<Rightarrow> nat list \<Rightarrow> u32" where
  "fslot s ip \<equiv> slot (disk_blocks s) (i_addrs (icache s ip))"

definition iblk :: "'a fs_st_scheme \<Rightarrow> nat \<Rightarrow> u32" where
  "iblk s ip = inode_block (sb s) (i_inum (icache s ip))"

definition data_area :: "'a fs_st_scheme \<Rightarrow> nat \<Rightarrow> u32 set" where
  "data_area s ip = taken_blocks s - bitmap_blocks s - {0, iblk s ip}"

definition file_inv :: "'a fs_st_scheme \<Rightarrow> nat \<Rightarrow> nat multiset \<Rightarrow> bool" where
  "file_inv s ip H \<longleftrightarrow> alloc_inv s H \<and> 0 \<in> taken_blocks s \<and> i_dev (icache s ip) = ROOTDEV \<and>
     iblk s ip \<in> taken_blocks s \<and> iblk s ip \<notin> bitmap_blocks s \<and>
     map_ok (data_area s ip) (disk_blocks s) (i_addrs (icache s ip))"

definition nfree :: "'a blk_st_scheme \<Rightarrow> nat" where
  "nfree s = card {n. n < sb_size (sb s) \<and> n \<notin> taken_blocks s}"

text \<open>
  \<open>extends s ip X s'\<close>: at most the slots of \<open>X\<close> have been filled, with blocks that
  were free; no other allocated block, index blocks apart, has changed; all other state is
  as before.
\<close>

definition fs_rest :: "'a fs_st_scheme \<Rightarrow> 'a fs_st_scheme" where
  "fs_rest s = (blk_rest s)\<lparr>icache := (\<lambda>_. \<lparr>i_dev = 0, i_inum = 0, i_ref = 0, i_valid = False, i_type = 0,
     i_major = 0, i_minor = 0, i_nlink = 0, i_size = 0, i_addrs = []\<rparr>)\<rparr>"

definition same_inodes :: "'a fs_st_scheme \<Rightarrow> nat \<Rightarrow> 'a fs_st_scheme \<Rightarrow> bool" where
  "same_inodes s ip s' \<longleftrightarrow> (\<exists>a. icache s' = (icache s)(ip := (icache s ip)\<lparr>i_addrs := a\<rparr>))"

definition extends :: "'a fs_st_scheme \<Rightarrow> nat \<Rightarrow> nat list set \<Rightarrow> 'a fs_st_scheme \<Rightarrow> bool" where
  "extends s ip X s' \<longleftrightarrow> fs_rest s' = fs_rest s \<and> same_inodes s ip s' \<and>
     (\<forall>m \<in> taken_blocks s. m \<notin> bitmap_blocks s \<and> m \<notin> index_blocks (disk_blocks s) (i_addrs (icache s ip)) \<longrightarrow>
        disk_blocks s' m = disk_blocks s m) \<and>
     taken_blocks s \<subseteq> taken_blocks s' \<and>
     (\<forall>q. is_slot q \<longrightarrow> fslot s' ip q = fslot s ip q \<or>
        q \<in> X \<and> fslot s ip q = 0 \<and> fslot s' ip q \<notin> taken_blocks s)"

lemma fs_rest_proj:
  assumes "fs_rest s' = fs_rest s"
  shows "sb s' = sb s" and "pmem s' = pmem s" and "procs s' = procs s" and "cpu s' = cpu s"
proof -
  have "sb (fs_rest s') = sb (fs_rest s)" "pmem (fs_rest s') = pmem (fs_rest s)"
    "procs (fs_rest s') = procs (fs_rest s)" "cpu (fs_rest s') = cpu (fs_rest s)" using assms by simp_all
  then show "sb s' = sb s" "pmem s' = pmem s" "procs s' = procs s" "cpu s' = cpu s"
    by (simp_all add: fs_rest_def blk_rest_def)
qed

lemma blk_rest_fs:
  assumes "blk_rest s' = blk_rest s"
  shows "icache s' = icache s" and "fs_rest s' = fs_rest s"
proof -
  have "icache (blk_rest s') = icache (blk_rest s)" using assms by simp
  then show "icache s' = icache s" by (simp add: blk_rest_def)
  show "fs_rest s' = fs_rest s" using assms by (simp add: fs_rest_def)
qed

lemma fs_rest_upd_inode [simp]: "fs_rest (upd_inode ip f s) = fs_rest s"
  by (simp add: fs_rest_def upd_inode_def blk_rest_def)

lemma fs_rest_bitmap: "fs_rest s' = fs_rest s \<Longrightarrow> bitmap_blocks s' = bitmap_blocks s"
  using fs_rest_proj(1) [of s' s] by (simp add: bitmap_blocks_def)

lemma same_inodes_iblk: "same_inodes s ip s' \<Longrightarrow> sb s' = sb s \<Longrightarrow> iblk s' ip = iblk s ip"
  by (auto simp: same_inodes_def iblk_def)

lemma same_inodes_fields:
  assumes "same_inodes s ip s'"
  shows "i_dev (icache s' j) = i_dev (icache s j)" "i_inum (icache s' j) = i_inum (icache s j)"
    "i_size (icache s' j) = i_size (icache s j)" "i_type (icache s' j) = i_type (icache s j)"
    "i_ref (icache s' j) = i_ref (icache s j)" "i_valid (icache s' j) = i_valid (icache s j)"
  using assms by (auto simp: same_inodes_def split: if_splits)

lemma same_inodes_refl [simp]: "same_inodes s ip s"
  by (auto simp: same_inodes_def intro: exI [of _ "i_addrs (icache s ip)"])

lemma same_inodes_trans: "same_inodes s ip s1 \<Longrightarrow> same_inodes s1 ip s2 \<Longrightarrow> same_inodes s ip s2"
  by (auto simp: same_inodes_def)

lemma extends_refl: "extends s ip X s"
  by (simp add: extends_def)

lemma extends_same:
  assumes "disk_blocks s' = disk_blocks s" and "blk_rest s' = blk_rest s"
  shows "extends s ip X s'"
  using blk_rest_fs [OF assms(2)] assms(1) fs_rest_proj(1) [OF blk_rest_fs(2) [OF assms(2)]]
  by (simp add: extends_def taken_blocks_def same_inodes_def exI [of _ "i_addrs (icache s ip)"])

lemma extends_trans:
  assumes 1: "extends s ip X s1" and 2: "extends s1 ip Y s2"
  shows "extends s ip (X \<union> Y) s2"
proof -
  let ?ix = "\<lambda>s. index_blocks (disk_blocks s) (i_addrs (icache s ip))"
  note d1 = 1 [unfolded extends_def] and d2 = 2 [unfolded extends_def]
  have bm: "bitmap_blocks s1 = bitmap_blocks s" using d1 by (intro fs_rest_bitmap) simp
  have si: "same_inodes s ip s2"
    using d1 d2 same_inodes_trans by blast
  have ix: "m \<notin> ?ix s1" if m: "m \<in> taken_blocks s" "m \<notin> ?ix s" for m
  proof
    assume "m \<in> ?ix s1"
    then obtain q i where q: "is_slot q" "is_slot (i # q)" "fslot s1 ip q = m" "m \<noteq> 0"
      by (auto simp: index_blocks_def)
    then have "fslot s ip q = m" using d1 m(1) by metis
    then show False using q m(2) by (auto simp: index_blocks_def)
  qed
  have disk: "disk_blocks s2 m = disk_blocks s m"
    if m: "m \<in> taken_blocks s" "m \<notin> bitmap_blocks s" "m \<notin> ?ix s" for m
  proof -
    have "disk_blocks s1 m = disk_blocks s m" using d1 m by blast
    moreover have "disk_blocks s2 m = disk_blocks s1 m" using d1 d2 m ix [OF m(1,3)] bm by blast
    ultimately show ?thesis by simp
  qed
  have sl: "fslot s2 ip q = fslot s ip q \<or> q \<in> X \<union> Y \<and> fslot s ip q = 0 \<and> fslot s2 ip q \<notin> taken_blocks s"
    if "is_slot q" for q
  proof -
    have "fslot s1 ip q = fslot s ip q \<or> q \<in> X \<and> fslot s ip q = 0 \<and> fslot s1 ip q \<notin> taken_blocks s"
      using d1 that by blast
    moreover have "fslot s2 ip q = fslot s1 ip q \<or> q \<in> Y \<and> fslot s1 ip q = 0 \<and> fslot s2 ip q \<notin> taken_blocks s1"
      using d2 that by blast
    moreover have "taken_blocks s \<subseteq> taken_blocks s1" using d1 by blast
    ultimately show ?thesis by auto
  qed
  show ?thesis unfolding extends_def using d1 d2 si disk sl by auto
qed

section \<open>Filling slots of an open file\<close>

lemma nfree_pos: "0 < nfree s \<Longrightarrow> \<exists>n < sb_size (sb s). n \<notin> taken_blocks s"
  by (auto simp: nfree_def card_gt_0_iff)

lemma nfree_alloc:
  assumes "taken_blocks s' = insert n (taken_blocks s)" and "n \<notin> taken_blocks s" and "n < sb_size (sb s)"
    and "sb s' = sb s"
  shows "nfree s = nfree s' + 1"
proof -
  let ?F = "{m. m < sb_size (sb s) \<and> m \<notin> taken_blocks s}"
  have "{m. m < sb_size (sb s') \<and> m \<notin> taken_blocks s'} = ?F - {n}" using assms by auto
  moreover have "n \<in> ?F" using assms by simp
  moreover have "finite ?F" by simp
  ultimately show ?thesis using card_Suc_Diff1 [of ?F n] by (simp add: nfree_def)
qed

lemma file_invD:
  assumes "file_inv s ip H"
  shows "alloc_inv s H" "bc_inv s H" "0 \<in> taken_blocks s" "i_dev (icache s ip) = ROOTDEV"
    "map_ok (data_area s ip) (disk_blocks s) (i_addrs (icache s ip))"
    "iblk s ip \<in> taken_blocks s" "iblk s ip \<notin> bitmap_blocks s"
  using assms by (auto simp: file_inv_def alloc_inv_def)

lemma file_slot_area:
  assumes "file_inv s ip H" and "is_slot q" and "fslot s ip q \<noteq> 0"
  shows "fslot s ip q \<in> taken_blocks s" "fslot s ip q \<notin> bitmap_blocks s" "fslot s ip q \<noteq> iblk s ip"
  using map_okD(2) [OF file_invD(5) [OF assms(1)] assms(2,3)] by (auto simp: data_area_def)

text \<open>One more slot: what a fill gives.\<close>

lemma fill_step:
  assumes inv: "file_inv s ip H" and n: "n \<notin> taken_blocks s" "n < sb_size (sb s)" "n \<notin> bitmap_blocks s"
    and s': "alloc_inv s' H" "taken_blocks s' = insert n (taken_blocks s)" "fs_rest s' = fs_rest s" "same_inodes s ip s'"
    and len: "length (i_addrs (icache s' ip)) = NDIRECT + 2"
    and fill: "\<And>q. is_slot q \<Longrightarrow> fslot s' ip q = (if q = x then n else fslot s ip q)"
    and x: "is_slot x" "fslot s ip x = 0"
    and disk: "\<And>m. m \<in> taken_blocks s \<Longrightarrow> m \<notin> bitmap_blocks s \<Longrightarrow>
      m \<notin> index_blocks (disk_blocks s) (i_addrs (icache s ip)) \<Longrightarrow> disk_blocks s' m = disk_blocks s m"
  shows "file_inv s' ip H" and "extends s ip {x} s'" and "nfree s = nfree s' + 1"
proof -
  note sb = fs_rest_proj(1) [OF s'(3)]
  have bm: "bitmap_blocks s' = bitmap_blocks s" by (rule fs_rest_bitmap [OF s'(3)])
  have ib: "iblk s' ip = iblk s ip" by (rule same_inodes_iblk [OF s'(4) sb])
  have n0: "n \<noteq> 0" "n \<noteq> iblk s ip" using n(1) file_invD(3,6) [OF inv] by auto
  have area: "data_area s' ip = insert n (data_area s ip)"
    using n(3) n0 by (auto simp: data_area_def s'(2) bm ib)
  have "map_ok (insert n (data_area s ip)) (disk_blocks s') (i_addrs (icache s' ip))"
    using fill n(1) by (intro map_ok_fill [OF file_invD(5) [OF inv] _ len]) (auto simp: data_area_def)
  then show "file_inv s' ip H"
    using file_invD [OF inv] s'(1,2) same_inodes_fields(1) [OF s'(4)] by (simp add: file_inv_def area ib bm)
  show "extends s ip {x} s'"
    unfolding extends_def using s' disk fill x n(1) by auto
  show "nfree s = nfree s' + 1" by (rule nfree_alloc [OF s'(2) n(1,2) sb])
qed

lemma bmap_addr_ok:
  assumes inv: "file_inv s ip H" and H: "size H < NBUF" and k: "k < NDIRECT + 2"
    and room: "fslot s ip [k] = 0 \<Longrightarrow> 0 < nfree s"
  shows "\<exists>a s'. bmap_addr s ip k = Some (a, s') \<and> file_inv s' ip H \<and> extends s ip {[k]} s' \<and>
    a \<noteq> 0 \<and> a = fslot s' ip [k] \<and> (fslot s ip [k] = 0 \<longrightarrow> disk_blocks s' a = replicate BSIZE 0) \<and>
    nfree s \<le> nfree s' + 1 \<and> (fslot s ip [k] \<noteq> 0 \<longrightarrow> s' = s) \<and>
    (\<forall>h \<in># H. b_blockno (bcache s' h) = b_blockno (bcache s h))"
proof (cases "i_addrs (icache s ip) ! k = 0")
  case False
  then show ?thesis using inv extends_refl by (auto simp: bmap_addr_def)
next
  case True
  obtain n s1 where a: "balloc s ROOTDEV = Some (n, s1)" "alloc_inv s1 H" "n \<notin> taken_blocks s"
    "n < sb_size (sb s)" "n \<notin> bitmap_blocks s" "taken_blocks s1 = insert n (taken_blocks s)"
    "disk_blocks s1 n = replicate BSIZE 0"
    "\<forall>m. m \<noteq> n \<and> m \<notin> bitmap_blocks s \<longrightarrow> disk_blocks s1 m = disk_blocks s m" "blk_rest s1 = blk_rest s"
    "\<forall>h \<in># H. b_blockno (bcache s1 h) = b_blockno (bcache s h)"
    using balloc_effect [OF file_invD(1) [OF inv] H nfree_pos] room True by auto
  let ?s' = "upd_inode ip (\<lambda>x. x\<lparr>i_addrs := (i_addrs x)[k := n]\<rparr>) s1"
  note rest = blk_rest_fs [OF a(9)]
  have len: "length (i_addrs (icache s ip)) = NDIRECT + 2" by (rule map_okD(1) [OF file_invD(5) [OF inv]])
  have s': "disk_blocks ?s' = disk_blocks s1" "bcache ?s' = bcache s1" "sb ?s' = sb s1"
    "i_addrs (icache ?s' ip) = (i_addrs (icache s ip))[k := n]"
    by (simp_all add: upd_inode_def rest)
  have n0: "n \<noteq> 0" "n \<notin> data_area s ip" using a(3) file_invD(3) [OF inv] by (auto simp: data_area_def)
  have fill: "fslot ?s' ip q = (if q = [k] then n else fslot s ip q)" if "is_slot q" for q
    unfolding s'(1,4) using a(3,7,8) n0
    by (intro slot_fill_addr [OF file_invD(5) [OF inv] k True _ _ _ _ that]) (auto simp: data_area_def)
  have si: "same_inodes s ip ?s'" by (auto simp: same_inodes_def upd_inode_def rest)
  have al: "alloc_inv ?s' H" using a(2) by (simp add: alloc_inv_def bc_inv_def s')
  have tk: "taken_blocks ?s' = insert n (taken_blocks s)" using a(6) by (simp add: taken_blocks_def s')
  have dk: "disk_blocks ?s' m = disk_blocks s m" if "m \<in> taken_blocks s" "m \<notin> bitmap_blocks s" for m
    using a(3,8) that by (auto simp: s')
  have fr: "fs_rest ?s' = fs_rest s" by (simp add: rest)
  have len': "length (i_addrs (icache ?s' ip)) = NDIRECT + 2" using len by (simp add: s')
  have x: "is_slot [k]" "fslot s ip [k] = 0" using k True by simp_all
  note st = fill_step [OF inv a(3-5) al tk fr si len' fill x dk]
  have "bmap_addr s ip k = Some (n, ?s')"
    using True a(1) file_invD(4) [OF inv] by (simp add: bmap_addr_def)
  then show ?thesis
    using st fill [OF x(1)] n0(1) a(7,10) x(2)
    by (intro exI [of _ n] exI [of _ ?s']) (auto simp: s')
qed

lemma alloc_inv_write:
  assumes "alloc_inv s H" and "b \<in># H" and "length d = BSIZE" and "b_blockno (bcache s b) \<notin> bitmap_blocks s"
  shows "alloc_inv (bwrite b (bset b d s)) H" and "taken_blocks (bwrite b (bset b d s)) = taken_blocks s"
proof -
  let ?t = "bwrite b (bset b d s)"
  have w: "bc_inv ?t H" "disk_blocks ?t = (disk_blocks s)(b_blockno (bcache s b) := d)" "blk_rest ?t = blk_rest s"
    using bc.wr_ok [OF _ assms(2,3)] assms(1) by (auto simp: alloc_inv_def)
  have sb: "sb ?t = sb s" by (rule blk_rest_sb [OF w(3)])
  have u: "used_in (sb s) (disk_blocks ?t) m = used s m" if "m < sb_size (sb s)" for m
    using assms(4) that by (auto simp: w(2) bitmap_blocks_def intro!: used_in_upd_other)
  show "taken_blocks ?t = taken_blocks s" using u by (auto simp: taken_blocks_def sb)
  show "alloc_inv ?t H" using assms(1) w(1) u by (auto simp: alloc_inv_def bitmap_reserved_def sb)
qed

lemma alloc_inv_release:
  assumes "alloc_inv s (add_mset b H)"
  shows "alloc_inv (brelse b s) H" and "taken_blocks (brelse b s) = taken_blocks s"
    and "disk_blocks (brelse b s) = disk_blocks s" and "blk_rest (brelse b s) = blk_rest s"
    and "b_blockno (bcache (brelse b s) h) = b_blockno (bcache s h)"
  using bc.rel_ok [of s "add_mset b H" b] assms by (auto simp: alloc_inv_def taken_blocks_def sb_brelse)

text \<open>Reading a block of the disk does not disturb the allocator.\<close>

lemma alloc_read:
  assumes "alloc_inv s H" and "size H < NBUF"
  shows "\<exists>b s'. bread s ROOTDEV n = Some (b, s') \<and> alloc_inv s' (add_mset b H) \<and> bdata s' b = disk_blocks s n \<and>
    disk_blocks s' = disk_blocks s \<and> blk_rest s' = blk_rest s \<and> taken_blocks s' = taken_blocks s \<and>
    b_blockno (bcache s' b) = n \<and> (\<forall>h \<in># H. b_blockno (bcache s' h) = b_blockno (bcache s h))"
proof -
  obtain b s' where r: "bread s ROOTDEV n = Some (b, s')" "bc_inv s' (add_mset b H)" "disk_blocks s' = disk_blocks s"
    "blk_rest s' = blk_rest s" "b_blockno (bcache s' b) = n"
    "\<forall>h \<in># H. b_blockno (bcache s' h) = b_blockno (bcache s h)"
    using bc.rd_ok [of s H n] assms by (auto simp: alloc_inv_def)
  have "sb s' = sb s" by (rule blk_rest_sb [OF r(4)])
  then show ?thesis using r bc.held [OF r(2), of b] assms(1)
    by (intro exI [of _ b] exI [of _ s']) (simp add: alloc_inv_def taken_blocks_def)
qed

lemma bmap_entry_mapped:
  assumes inv: "file_inv s ip H" and H: "size H < NBUF"
    and slot: "get32 (disk_blocks s a) i \<noteq> 0"
  shows "\<exists>s'. bmap_entry s ROOTDEV a i = Some (get32 (disk_blocks s a) i, s') \<and> alloc_inv s' H \<and>
    disk_blocks s' = disk_blocks s \<and> blk_rest s' = blk_rest s \<and> taken_blocks s' = taken_blocks s \<and>
    (\<forall>h \<in># H. b_blockno (bcache s' h) = b_blockno (bcache s h))"
proof -
  obtain bp s1 where r: "bread s ROOTDEV a = Some (bp, s1)" "alloc_inv s1 (add_mset bp H)"
    "bdata s1 bp = disk_blocks s a" "disk_blocks s1 = disk_blocks s" "blk_rest s1 = blk_rest s"
    "taken_blocks s1 = taken_blocks s" "\<forall>h \<in># H. b_blockno (bcache s1 h) = b_blockno (bcache s h)"
    using alloc_read [OF file_invD(1) [OF inv] H, of a] by blast
  then show ?thesis using slot alloc_inv_release [OF r(2)] by (auto simp: bmap_entry_def)
qed

lemma file_inv_same:
  assumes "file_inv s ip H" and "alloc_inv s' H'" and "disk_blocks s' = disk_blocks s" and "blk_rest s' = blk_rest s"
  shows "file_inv s' ip H'"
proof -
  note f = blk_rest_fs [OF assms(4)] blk_rest_sb [OF assms(4)] blk_rest_meta [OF assms(4)]
  have "taken_blocks s' = taken_blocks s" by (simp add: taken_blocks_def assms(3) f)
  then show ?thesis using assms(1,2) by (simp add: file_inv_def data_area_def iblk_def assms(3) f)
qed

lemma bmap_entry_alloc:
  assumes inv: "file_inv s ip H" and H: "size H + 1 < NBUF" and p: "is_slot (i # p)" "p \<noteq> []"
    and a: "fslot s ip p = a" "a \<noteq> 0" and empty: "fslot s ip (i # p) = 0" and room: "0 < nfree s"
  shows "\<exists>n s'. bmap_entry s ROOTDEV a i = Some (n, s') \<and> file_inv s' ip H \<and> extends s ip {i # p} s' \<and>
    n \<noteq> 0 \<and> n = fslot s' ip (i # p) \<and> disk_blocks s' n = replicate BSIZE 0 \<and> nfree s = nfree s' + 1 \<and>
    (\<forall>h \<in># H. b_blockno (bcache s' h) = b_blockno (bcache s h))"
proof -
  have ip: "is_slot p" "i < NINDIRECT" using is_slot_ConsD [OF p] by auto
  have aa: "a \<in> taken_blocks s" "a \<notin> bitmap_blocks s" "a \<noteq> iblk s ip"
    using file_slot_area [OF inv ip(1)] a by auto
  obtain bp s1 where r: "bread s ROOTDEV a = Some (bp, s1)" "alloc_inv s1 (add_mset bp H)"
    "bdata s1 bp = disk_blocks s a" "disk_blocks s1 = disk_blocks s" "blk_rest s1 = blk_rest s"
    "taken_blocks s1 = taken_blocks s" "b_blockno (bcache s1 bp) = a"
    "\<forall>h \<in># H. b_blockno (bcache s1 h) = b_blockno (bcache s h)"
    using alloc_read [OF file_invD(1) [OF inv], of a] H by auto
  have sb1: "sb s1 = sb s" by (rule blk_rest_sb [OF r(5)])
  have bm1: "bitmap_blocks s1 = bitmap_blocks s" by (rule blk_rest_meta [OF r(5)])
  obtain n s2 where b: "balloc s1 ROOTDEV = Some (n, s2)" "alloc_inv s2 (add_mset bp H)" "n \<notin> taken_blocks s"
    "n < sb_size (sb s)" "n \<notin> bitmap_blocks s" "taken_blocks s2 = insert n (taken_blocks s)"
    "disk_blocks s2 n = replicate BSIZE 0"
    "\<forall>m. m \<noteq> n \<and> m \<notin> bitmap_blocks s \<longrightarrow> disk_blocks s2 m = disk_blocks s m" "blk_rest s2 = blk_rest s"
    "\<forall>h \<in># add_mset bp H. b_blockno (bcache s2 h) = b_blockno (bcache s1 h)"
    using balloc_effect [OF r(2)] H nfree_pos [OF room] r(4-6) sb1 bm1 by auto
  have bpa: "b_blockno (bcache s2 bp) = a" using b(10) r(7) by simp
  have an: "a \<noteq> n" using aa(1) b(3) by auto
  have da: "bdata s2 bp = disk_blocks s a"
    using bc.held [of s2 "add_mset bp H" bp] b(2,8) bpa an aa(2) by (auto simp: alloc_inv_def)
  let ?d = "set32 (disk_blocks s a) i n"
  let ?s3 = "bwrite bp (bset bp ?d s2)" and ?s' = "brelse bp (bwrite bp (bset bp ?d s2))"
  have len: "length (disk_blocks s a) = BSIZE" by (rule bc.block_length [OF file_invD(2) [OF inv]])
  then have dl: "length ?d = BSIZE" using ip(2) by (simp add: NINDIRECT_def BSIZE_def)
  have bm2: "bitmap_blocks s2 = bitmap_blocks s" by (rule blk_rest_meta [OF b(9)])
  have w: "alloc_inv ?s3 (add_mset bp H)" "taken_blocks ?s3 = taken_blocks s2"
    using alloc_inv_write [OF b(2) _ dl] bpa aa(2) bm2 by auto
  have w': "disk_blocks ?s3 = (disk_blocks s2)(a := ?d)" "blk_rest ?s3 = blk_rest s2"
    "\<forall>h. b_blockno (bcache ?s3 h) = b_blockno (bcache s2 h)"
    using bc.wr_ok [OF _ _ dl, of s2 "add_mset bp H" bp] b(2) bpa by (auto simp: alloc_inv_def)
  note rl = alloc_inv_release [OF w(1)]
  have s': "disk_blocks ?s' = (disk_blocks s2)(a := ?d)" "blk_rest ?s' = blk_rest s"
    "taken_blocks ?s' = insert n (taken_blocks s)" "alloc_inv ?s' H"
    using rl w w' b(6,9) by simp_all
  note rest = blk_rest_fs [OF s'(2)]
  have n0: "n \<noteq> 0" "n \<notin> data_area s ip" using b(3) file_invD(3) [OF inv] by (auto simp: data_area_def)
  have fill: "fslot ?s' ip q = (if q = i # p then n else fslot s ip q)" if "is_slot q" for q
    unfolding rest(1) using an b(3,7,8) n0 len
    by (intro slot_fill_entry [OF file_invD(5) [OF inv] p a empty _ _ _ _ _ _ that]) (auto simp: s' data_area_def)
  have len': "length (i_addrs (icache ?s' ip)) = NDIRECT + 2"
    using map_okD(1) [OF file_invD(5) [OF inv]] by (simp add: rest)
  have ai: "a \<in> index_blocks (disk_blocks s) (i_addrs (icache s ip))"
    using a p(1) ip(1) by (auto simp: index_blocks_def)
  have dk: "disk_blocks ?s' m = disk_blocks s m"
    if "m \<in> taken_blocks s" "m \<notin> bitmap_blocks s" "m \<notin> index_blocks (disk_blocks s) (i_addrs (icache s ip))" for m
    using that ai b(3,8) by (auto simp: s')
  have si: "same_inodes s ip ?s'"
    by (auto simp: same_inodes_def rest intro: exI [of _ "i_addrs (icache s ip)"])
  note st = fill_step [OF inv b(3-5) s'(4,3) rest(2) si len' fill p(1) empty dk]
  have "bmap_entry s ROOTDEV a i = Some (n, ?s')"
    using r(1,3) a p(2) empty b(1) da by (simp add: bmap_entry_def slot_Cons)
  moreover have "disk_blocks ?s' n = replicate BSIZE 0" using b(7) an by (simp add: s')
  moreover have "\<forall>h \<in># H. b_blockno (bcache ?s' h) = b_blockno (bcache s h)"
    using rl(5) w'(3) b(10) r(8) by auto
  ultimately show ?thesis using st fill [OF p(1)] n0(1)
    by (intro exI [of _ n] exI [of _ ?s']) simp
qed

text \<open>What a lookup in the map that may fill slots promises.\<close>

definition map_step ::
  "'a fs_st_scheme \<Rightarrow> nat \<Rightarrow> nat multiset \<Rightarrow> nat list set \<Rightarrow> nat \<Rightarrow> 'a fs_st_scheme \<Rightarrow> bool" where
  "map_step s ip H X k s' \<longleftrightarrow> file_inv s' ip H \<and> extends s ip X s' \<and> nfree s \<le> nfree s' + k \<and>
     (\<forall>h \<in># H. b_blockno (bcache s' h) = b_blockno (bcache s h))"

lemma map_step_trans:
  "map_step s ip H X j s1 \<Longrightarrow> map_step s1 ip H Y k s2 \<Longrightarrow> map_step s ip H (X \<union> Y) (j + k) s2"
  using extends_trans by (fastforce simp: map_step_def)

lemma map_step_mono: "map_step s ip H X j s' \<Longrightarrow> X \<subseteq> Y \<Longrightarrow> j \<le> k \<Longrightarrow> map_step s ip H Y k s'"
  by (fastforce simp: map_step_def extends_def)

lemma bmap_entry_ok:
  assumes inv: "file_inv s ip H" and H: "size H + 1 < NBUF" and p: "is_slot (i # p)" "p \<noteq> []"
    and a: "fslot s ip p = a" "a \<noteq> 0" and room: "fslot s ip (i # p) = 0 \<Longrightarrow> 0 < nfree s"
  shows "\<exists>n s'. bmap_entry s ROOTDEV a i = Some (n, s') \<and> map_step s ip H {i # p} 1 s' \<and>
    n \<noteq> 0 \<and> n = fslot s' ip (i # p) \<and> (fslot s ip (i # p) = 0 \<longrightarrow> disk_blocks s' n = replicate BSIZE 0) \<and>
    (fslot s ip (i # p) \<noteq> 0 \<longrightarrow> disk_blocks s' = disk_blocks s \<and> blk_rest s' = blk_rest s)"
proof (cases "fslot s ip (i # p) = 0")
  case True
  then show ?thesis using bmap_entry_alloc [OF inv H p a True room] unfolding map_step_def by fastforce
next
  case False
  have e: "get32 (disk_blocks s a) i \<noteq> 0" "fslot s ip (i # p) = get32 (disk_blocks s a) i"
    using False a p(2) by (simp_all add: slot_Cons)
  obtain s' where s': "bmap_entry s ROOTDEV a i = Some (get32 (disk_blocks s a) i, s')" "alloc_inv s' H"
    "disk_blocks s' = disk_blocks s" "blk_rest s' = blk_rest s" "taken_blocks s' = taken_blocks s"
    "\<forall>h \<in># H. b_blockno (bcache s' h) = b_blockno (bcache s h)"
    using bmap_entry_mapped [OF inv _ e(1)] H by auto
  have "nfree s' = nfree s" using s'(4,5) blk_rest_sb [of s' s] by (simp add: nfree_def)
  then show ?thesis
    using s' e False file_inv_same [OF inv s'(2-4)] extends_same [OF s'(3,4)] blk_rest_fs(1) [OF s'(4)]
    by (intro exI [of _ "get32 (disk_blocks s a) i"] exI [of _ s']) (auto simp: map_step_def)
qed

lemma bmap_addr_step:
  assumes "file_inv s ip H" and "size H < NBUF" and "k < NDIRECT + 2" and "fslot s ip [k] = 0 \<Longrightarrow> 0 < nfree s"
  shows "\<exists>a s'. bmap_addr s ip k = Some (a, s') \<and> map_step s ip H {[k]} 1 s' \<and> a \<noteq> 0 \<and> a = fslot s' ip [k] \<and>
    (fslot s ip [k] = 0 \<longrightarrow> disk_blocks s' a = replicate BSIZE 0) \<and> (fslot s ip [k] \<noteq> 0 \<longrightarrow> s' = s)"
  using bmap_addr_ok [OF assms] unfolding map_step_def by blast

lemma extends_slot:
  assumes "extends s ip X s'" and "is_slot q"
  shows "fslot s ip q \<noteq> 0 \<Longrightarrow> fslot s' ip q = fslot s ip q" and "q \<notin> X \<Longrightarrow> fslot s' ip q = fslot s ip q"
  using assms unfolding extends_def by blast+

definition bmap_post ::
  "'a fs_st_scheme \<Rightarrow> nat \<Rightarrow> nat multiset \<Rightarrow> nat \<Rightarrow> u32 \<Rightarrow> 'a fs_st_scheme \<Rightarrow> bool" where
  "bmap_post s ip H bn a s' \<longleftrightarrow> map_step s ip H {q. suffix q (bpath bn)} 3 s' \<and>
    a \<noteq> 0 \<and> a = fslot s' ip (bpath bn) \<and>
    (fslot s ip (bpath bn) = 0 \<longrightarrow> disk_blocks s' a = replicate BSIZE 0) \<and>
    (fslot s ip (bpath bn) \<noteq> 0 \<longrightarrow> disk_blocks s' = disk_blocks s \<and> blk_rest s' = blk_rest s)"

lemma bmap_ok_direct:
  assumes inv: "file_inv s ip H" and H: "size H + 1 < NBUF" and bn: "bn < NDIRECT"
    and room: "fslot s ip (bpath bn) = 0 \<Longrightarrow> 3 \<le> nfree s"
  shows "\<exists>a s'. bmap s ip bn = Some (a, s') \<and> bmap_post s ip H bn a s'"
proof -
  have b: "bpath bn = [bn]" "bmap s ip bn = bmap_addr s ip bn" "bn < NDIRECT + 2" "size H < NBUF"
    using bn H by (simp_all add: bpath_def bmap_def)
  have r0: "fslot s ip [bn] = 0 \<Longrightarrow> 0 < nfree s" using room b(1) by simp
  have suf: "{[bn]} \<subseteq> {q. suffix q (bpath bn)}" by (simp add: b(1))
  obtain a s' where "bmap_addr s ip bn = Some (a, s')" "map_step s ip H {[bn]} 1 s'" "a \<noteq> 0" "a = fslot s' ip [bn]"
    "fslot s ip [bn] = 0 \<longrightarrow> disk_blocks s' a = replicate BSIZE 0" "fslot s ip [bn] \<noteq> 0 \<longrightarrow> s' = s"
    using bmap_addr_step [OF inv b(4,3) r0] by blast
  then show ?thesis
    using map_step_mono [OF _ suf, of s ip H 1 s' 3] unfolding b(2) bmap_post_def
    by (intro exI [of _ a] exI [of _ s']) (simp add: b(1))
qed

lemma bmap_ok_ind:
  assumes inv: "file_inv s ip H" and H: "size H + 1 < NBUF" and bn: "\<not> bn < NDIRECT" "bn - NDIRECT < NINDIRECT"
    and room: "fslot s ip (bpath bn) = 0 \<Longrightarrow> 3 \<le> nfree s"
  shows "\<exists>a s'. bmap s ip bn = Some (a, s') \<and> bmap_post s ip H bn a s'"
proof -
  let ?i = "bn - NDIRECT"
  have p: "bpath bn = [?i, NDIRECT]" "is_slot [?i, NDIRECT]" "[NDIRECT] \<noteq> []" "NDIRECT < NDIRECT + 2" "size H < NBUF"
    using bn H by (simp_all add: bpath_def)
  have r0: "fslot s ip [NDIRECT] = 0 \<Longrightarrow> 0 < nfree s" using room unfolding p(1) by (simp add: slot_Cons)
  obtain a1 s1 where 1: "bmap_addr s ip NDIRECT = Some (a1, s1)" "map_step s ip H {[NDIRECT]} 1 s1" "a1 \<noteq> 0"
    "fslot s1 ip [NDIRECT] = a1" "fslot s ip [NDIRECT] \<noteq> 0 \<longrightarrow> s1 = s"
    using bmap_addr_step [OF inv p(5,4) r0] by blast
  have inv1: "file_inv s1 ip H" "extends s ip {[NDIRECT]} s1" "nfree s \<le> nfree s1 + 1"
    using 1(2) by (simp_all add: map_step_def)
  have sl: "fslot s1 ip [?i, NDIRECT] = fslot s ip [?i, NDIRECT]"
    by (rule extends_slot(2) [OF inv1(2) p(2)]) simp
  have r1: "fslot s1 ip [?i, NDIRECT] = 0 \<Longrightarrow> 0 < nfree s1" using sl room inv1(3) unfolding p(1) by simp
  obtain a2 s2 where 2: "bmap_entry s1 ROOTDEV a1 ?i = Some (a2, s2)" "map_step s1 ip H {[?i, NDIRECT]} 1 s2"
    "a2 \<noteq> 0" "a2 = fslot s2 ip [?i, NDIRECT]"
    "fslot s1 ip [?i, NDIRECT] = 0 \<longrightarrow> disk_blocks s2 a2 = replicate BSIZE 0"
    "fslot s1 ip [?i, NDIRECT] \<noteq> 0 \<longrightarrow> disk_blocks s2 = disk_blocks s1 \<and> blk_rest s2 = blk_rest s1"
    using bmap_entry_ok [OF inv1(1) H p(2,3) 1(4,3) r1] by blast
  have "map_step s ip H {q. suffix q (bpath bn)} 3 s2"
    using map_step_trans [OF 1(2) 2(2)] by (rule map_step_mono) (auto simp: p(1) suffix_Cons)
  moreover have "bmap s ip bn = Some (a2, s2)"
    using bn 1(1) 2(1) file_invD(4) [OF inv] by (simp add: bmap_def Let_def)
  moreover have "s1 = s" if "fslot s ip [?i, NDIRECT] \<noteq> 0"
    using that 1(5) by (auto simp: slot_Cons split: if_splits)
  ultimately show ?thesis using 2(3-6) sl unfolding bmap_post_def p(1)
    by (intro exI [of _ a2] exI [of _ s2]) metis
qed

lemma bmap_ok_dind:
  assumes inv: "file_inv s ip H" and H: "size H + 1 < NBUF" and bn: "bn < MAXFILE" "\<not> bn < NDIRECT"
      "\<not> bn - NDIRECT < NINDIRECT"
    and room: "fslot s ip (bpath bn) = 0 \<Longrightarrow> 3 \<le> nfree s"
  shows "\<exists>a s'. bmap s ip bn = Some (a, s') \<and> bmap_post s ip H bn a s'"
proof -
  define k i j m where kijm: "k = bn - NDIRECT - NINDIRECT" "i = k div NINDIRECT" "j = k mod NINDIRECT" "m = NDIRECT + 1"
  have k: "k < NDINDIRECT" using bn by (simp add: MAXFILE_def kijm)
  then have ij: "i < NINDIRECT" "j < NINDIRECT" by (simp_all add: NDINDIRECT_def NINDIRECT_def kijm)
  have p: "bpath bn = [j, i, m]" "is_slot [j, i, m]" "is_slot [i, m]" "[m] \<noteq> []" "[i, m] \<noteq> []"
    "m < NDIRECT + 2" "size H < NBUF" using bn ij H by (simp_all add: bpath_def Let_def kijm)
  have r0: "fslot s ip [m] = 0 \<Longrightarrow> 0 < nfree s" using room unfolding p(1) by (simp add: slot_Cons)
  obtain a1 s1 where 1: "bmap_addr s ip m = Some (a1, s1)" "map_step s ip H {[m]} 1 s1" "a1 \<noteq> 0"
    "fslot s1 ip [m] = a1" "fslot s ip [m] \<noteq> 0 \<longrightarrow> s1 = s"
    using bmap_addr_step [OF inv p(7,6) r0] by blast
  have inv1: "file_inv s1 ip H" "extends s ip {[m]} s1" "nfree s \<le> nfree s1 + 1"
    using 1(2) by (simp_all add: map_step_def)
  have sl1: "fslot s1 ip [i, m] = fslot s ip [i, m]" "fslot s1 ip [j, i, m] = fslot s ip [j, i, m]"
    using extends_slot(2) [OF inv1(2) p(3)] extends_slot(2) [OF inv1(2) p(2)] by auto
  have r1: "fslot s1 ip [i, m] = 0 \<Longrightarrow> 0 < nfree s1"
    using sl1(1) room inv1(3) unfolding p(1) by (simp add: slot_Cons)
  obtain a2 s2 where 2: "bmap_entry s1 ROOTDEV a1 i = Some (a2, s2)" "map_step s1 ip H {[i, m]} 1 s2"
    "a2 \<noteq> 0" "fslot s2 ip [i, m] = a2"
    "fslot s1 ip [i, m] \<noteq> 0 \<longrightarrow> disk_blocks s2 = disk_blocks s1 \<and> blk_rest s2 = blk_rest s1"
    using bmap_entry_ok [OF inv1(1) H p(3,4) 1(4,3) r1] by blast
  have inv2: "file_inv s2 ip H" "extends s1 ip {[i, m]} s2" "nfree s1 \<le> nfree s2 + 1"
    using 2(2) by (simp_all add: map_step_def)
  have sl2: "fslot s2 ip [j, i, m] = fslot s ip [j, i, m]"
    using extends_slot(2) [OF inv2(2) p(2)] sl1(2) by simp
  have r2: "fslot s2 ip [j, i, m] = 0 \<Longrightarrow> 0 < nfree s2"
    using sl2 room inv1(3) inv2(3) unfolding p(1) by simp
  obtain a3 s3 where 3: "bmap_entry s2 ROOTDEV a2 j = Some (a3, s3)" "map_step s2 ip H {[j, i, m]} 1 s3"
    "a3 \<noteq> 0" "a3 = fslot s3 ip [j, i, m]"
    "fslot s2 ip [j, i, m] = 0 \<longrightarrow> disk_blocks s3 a3 = replicate BSIZE 0"
    "fslot s2 ip [j, i, m] \<noteq> 0 \<longrightarrow> disk_blocks s3 = disk_blocks s2 \<and> blk_rest s3 = blk_rest s2"
    using bmap_entry_ok [OF inv2(1) H p(2,5) 2(4,3) r2] by blast
  have "map_step s ip H ({[m]} \<union> {[i, m]} \<union> {[j, i, m]}) (1 + 1 + 1) s3"
    by (rule map_step_trans [OF map_step_trans [OF 1(2) 2(2)] 3(2)])
  then have "map_step s ip H {q. suffix q (bpath bn)} 3 s3"
    by (rule map_step_mono) (auto simp: p(1) suffix_Cons)
  moreover have "bmap s ip bn = Some (a3, s3)"
    using bn k 1(1) 2(1) 3(1) file_invD(4) [OF inv] by (simp add: bmap_def Let_def kijm)
  moreover have "s1 = s" "fslot s1 ip [i, m] \<noteq> 0" if "fslot s ip [j, i, m] \<noteq> 0"
    using that 1(5) sl1(1) by (auto simp: slot_Cons split: if_splits)
  ultimately show ?thesis using 2(5) 3(3-6) sl2 unfolding bmap_post_def p(1)
    by (intro exI [of _ a3] exI [of _ s3]) metis
qed

lemma bmap_ok:
  assumes "file_inv s ip H" and "size H + 1 < NBUF" and "bn < MAXFILE"
    and "fslot s ip (bpath bn) = 0 \<Longrightarrow> 3 \<le> nfree s"
  shows "\<exists>a s'. bmap s ip bn = Some (a, s') \<and> bmap_post s ip H bn a s'"
  using bmap_ok_direct [OF assms(1,2)] bmap_ok_ind [OF assms(1,2)] bmap_ok_dind [OF assms(1,2,3)] assms(4)
  by blast

end
