(* ===== verification/File_Content.thy ===== *)
theory File_Content
  imports File_Map
begin

text \<open>
  The contents of a file as a byte array. \<open>fbyte s ip k\<close> is byte \<open>k\<close> of the file
  (0 in a hole) and \<open>content\<close> the bytes below the size. On a well-formed file,
  \<open>readi\<close> returns the requested slice and \<open>writei\<close> overwrites exactly the
  requested range, grows the file if needed, and disturbs no other file's blocks.
\<close>

section \<open>Bytes of a file\<close>

definition fbyte :: "'a fs_st_scheme \<Rightarrow> nat \<Rightarrow> nat \<Rightarrow> u8" where
  "fbyte s ip k = (let b = fslot s ip (bpath (k div BSIZE)) in if b = 0 then 0 else disk_blocks s b ! (k mod BSIZE))"

definition content :: "'a fs_st_scheme \<Rightarrow> nat \<Rightarrow> u8 list" where
  "content s ip = map (fbyte s ip) [0..<unat (i_size (icache s ip))]"

text \<open>Every block below the size is allocated.\<close>

definition dense :: "'a fs_st_scheme \<Rightarrow> nat \<Rightarrow> bool" where
  "dense s ip \<longleftrightarrow> unat (i_size (icache s ip)) \<le> MAXFILE * BSIZE \<and>
     (\<forall>bn. bn * BSIZE < unat (i_size (icache s ip)) \<longrightarrow> fslot s ip (bpath bn) \<noteq> 0)"

lemma length_content [simp]: "length (content s ip) = unat (i_size (icache s ip))"
  by (simp add: content_def)

lemma BSIZE_pos [simp]: "0 < BSIZE" "BSIZE \<noteq> 0"
  by (simp_all add: BSIZE_def)

lemma block_range:
  assumes "off mod BSIZE + m \<le> BSIZE" and "i < m"
  shows "(off + i) div BSIZE = off div BSIZE" and "(off + i) mod BSIZE = off mod BSIZE + i"
proof -
  have "(off mod BSIZE + i) mod BSIZE = (off + i) mod BSIZE" by (rule mod_add_left_eq)
  then show m: "(off + i) mod BSIZE = off mod BSIZE + i" using assms by simp
  have "(off + i) div BSIZE * BSIZE + (off mod BSIZE + i) = off div BSIZE * BSIZE + off mod BSIZE + i"
    using div_mult_mod_eq [of "off + i" BSIZE] div_mult_mod_eq [of off BSIZE] unfolding m by linarith
  then have "(off + i) div BSIZE * BSIZE = off div BSIZE * BSIZE" by linarith
  then show "(off + i) div BSIZE = off div BSIZE" by simp
qed

lemma fbyte_chunk:
  assumes "off mod BSIZE + m \<le> BSIZE" and "fslot s ip (bpath (off div BSIZE)) = b" and "b \<noteq> 0"
    and "length (disk_blocks s b) = BSIZE"
  shows "take m (drop (off mod BSIZE) (disk_blocks s b)) = map (fbyte s ip) [off..<off + m]"
  using assms by (intro nth_equalityI) (auto simp: fbyte_def block_range Let_def)

lemma fbyte_eq:
  "fbyte s ip k = (if fslot s ip (bpath (k div BSIZE)) = 0 then 0
     else disk_blocks s (fslot s ip (bpath (k div BSIZE))) ! (k mod BSIZE))"
  by (simp add: fbyte_def Let_def)

section \<open>Reading\<close>

lemma fs_same_file:
  assumes "file_inv s ip H" and "disk_blocks s' = disk_blocks s" and "icache s' = icache s"
  shows "fbyte s' ip k = fbyte s ip k" and "dense s' ip = dense s ip" and "content s' ip = content s ip"
  using assms by (simp_all add: fbyte_def dense_def content_def Let_def cong: map_cong)

lemma readi_loop_local:
  assumes "file_inv s ip H" and "size H + 1 < NBUF" and "dense s ip"
    and "unat off + rem \<le> unat (i_size (icache s ip))"
  shows "\<exists>s'. readi_loop s ip DLocal off rem got = Some (got @ map (fbyte s ip) [unat off..<unat off + rem], s') \<and>
    file_inv s' ip H \<and> disk_blocks s' = disk_blocks s \<and> blk_rest s' = blk_rest s"
  using assms
proof (induction rem arbitrary: s off got rule: less_induct)
  case (less rem)
  show ?case
  proof (cases "rem = 0")
    case True
    then show ?thesis using less.prems by (simp add: readi_loop.simps)
  next
    case False
    let ?o = "unat off" and ?m = "min (BSIZE - unat off mod BSIZE) rem"
    have ob: "?o mod BSIZE < BSIZE" by simp
    then have om: "?o mod BSIZE + ?m \<le> BSIZE" by linarith
    have bn: "?o div BSIZE < MAXFILE" "fslot s ip (bpath (?o div BSIZE)) \<noteq> 0"
    proof -
      have lt: "?o < unat (i_size (icache s ip))" using less.prems(4) False by simp
      have "?o div BSIZE * BSIZE \<le> ?o" by simp
      then have "?o div BSIZE * BSIZE < unat (i_size (icache s ip))" using lt by (rule order.strict_trans1)
      then show "fslot s ip (bpath (?o div BSIZE)) \<noteq> 0" using less.prems(3) unfolding dense_def by blast
      show "?o div BSIZE < MAXFILE" using less.prems(3) lt unfolding dense_def
        by (metis less_mult_imp_div_less order_less_le_trans)
    qed
    obtain a s1 where b: "bmap s ip (?o div BSIZE) = Some (a, s1)" "bmap_post s ip H (?o div BSIZE) a s1"
      using bmap_ok [OF less.prems(1,2) bn(1)] bn(2) by blast
    have s1: "file_inv s1 ip H" "a = fslot s ip (bpath (?o div BSIZE))" "disk_blocks s1 = disk_blocks s"
      "blk_rest s1 = blk_rest s"
      using b(2) bn(2) blk_rest_fs(1) [of s1 s] by (auto simp: bmap_post_def map_step_def)
    obtain bp s2 where r: "bread s1 ROOTDEV a = Some (bp, s2)" "alloc_inv s2 (add_mset bp H)"
      "bdata s2 bp = disk_blocks s1 a" "disk_blocks s2 = disk_blocks s1" "blk_rest s2 = blk_rest s1"
      using alloc_read [OF file_invD(1) [OF s1(1)], of a] less.prems(2) by auto
    note rl = alloc_inv_release [OF r(2)]
    let ?s' = "brelse bp s2"
    have s': "disk_blocks ?s' = disk_blocks s" "blk_rest ?s' = blk_rest s" using rl r(4,5) s1(3,4) by simp_all
    have inv': "file_inv ?s' ip H" by (rule file_inv_same [OF less.prems(1) rl(1) s'])
    note ic = blk_rest_fs(1) [OF s'(2)] and ic1 = blk_rest_fs(1) [OF s1(4)]
    have off': "unat (off + of_nat ?m) = ?o + ?m"
    proof (rule unat_add_small)
      have "?o + ?m \<le> unat (i_size (icache s ip))" using less.prems(4) by simp
      then show "?o + ?m < 2 ^ LENGTH(32)" using unat_u32 [of "i_size (icache s ip)"] by simp
    qed
    have chunk: "take ?m (drop (?o mod BSIZE) (disk_blocks s a)) = map (fbyte s ip) [?o..<?o + ?m]"
      using bn(2) bc.block_length [OF file_invD(2) [OF less.prems(1)]]
      by (intro fbyte_chunk [OF om]) (auto simp: s1(2))
    have "\<exists>t. readi_loop ?s' ip DLocal (off + of_nat ?m) (rem - ?m) (got @ map (fbyte s ip) [?o..<?o + ?m]) =
        Some ((got @ map (fbyte s ip) [?o..<?o + ?m]) @ map (fbyte ?s' ip) [unat (off + of_nat ?m)..<unat (off + of_nat ?m) + (rem - ?m)], t) \<and>
        file_inv t ip H \<and> disk_blocks t = disk_blocks ?s' \<and> blk_rest t = blk_rest ?s'"
      using False ob less.prems(2,3,4) fs_same_file [OF less.prems(1) s'(1) ic]
      by (intro less.IH) (auto simp: inv' off' ic)
    moreover have "[?o..<?o + ?m] @ [?o + ?m..<?o + rem] = [?o..<?o + rem]"
      using upt_add_eq_append [of ?o "?o + ?m" "rem - ?m"] by simp
    then have "map (fbyte s ip) [?o..<?o + ?m] @ map (fbyte s ip) [?o + ?m..<?o + rem] =
        map (fbyte s ip) [?o..<?o + rem]" by (metis map_append)
    moreover have "map (fbyte ?s' ip) xs = map (fbyte s ip) xs" for xs
      using fs_same_file(1) [OF less.prems(1) s'(1) ic] by simp
    ultimately show ?thesis
      using False b(1) r(1,3) s1(3) chunk off' file_invD(4) [OF s1(1)] s'
      by (subst readi_loop.simps) (simp add: deliver_def Let_def)
  qed
qed

lemma readi_content:
  assumes inv: "file_inv s ip H" "size H + 1 < NBUF" "dense s ip"
  shows "\<exists>s'. readi s ip DLocal off n =
      Some (if off + n < off then [] else take (unat n) (drop (unat off) (content s ip)), s') \<and>
    file_inv s' ip H \<and> disk_blocks s' = disk_blocks s \<and> blk_rest s' = blk_rest s"
proof -
  let ?sz = "i_size (icache s ip)"
  consider "?sz < off \<or> off + n < off" | "off \<le> ?sz" "off \<le> off + n" by fastforce
  then show ?thesis
  proof cases
    case 1
    then show ?thesis using inv(1) by (auto simp: readi_def word_less_nat_alt)
  next
    case 2
    let ?n = "if ?sz < off + n then ?sz - off else n"
    have un: "unat (off + n) = unat off + unat n" using 2(2) by (simp add: unat_plus_simple)
    have n: "unat ?n = min (unat n) (unat ?sz - unat off)"
      using 2(1) un by (auto simp: word_less_nat_alt word_le_nat_alt unat_sub)
    have "unat off + unat ?n \<le> unat ?sz" using 2(1) n by (simp add: word_le_nat_alt)
    from readi_loop_local [OF inv this, of "[]"] obtain s' where s':
      "readi_loop s ip DLocal off (unat ?n) [] = Some (map (fbyte s ip) [unat off..<unat off + unat ?n], s')"
      "file_inv s' ip H \<and> disk_blocks s' = disk_blocks s \<and> blk_rest s' = blk_rest s" by auto
    have "map (fbyte s ip) [unat off..<unat off + unat ?n] = take (unat n) (drop (unat off) (content s ip))"
      using 2(1) by (intro nth_equalityI) (auto simp: content_def n word_le_nat_alt)
    then show ?thesis using 2 s' by (auto simp: readi_def Let_def)
  qed
qed

section \<open>Writing\<close>

text \<open>The blocks that belong to somebody else, and a step that leaves them alone.\<close>

definition others :: "'a fs_st_scheme \<Rightarrow> nat \<Rightarrow> u32 set" where
  "others s ip = data_area s ip - file_blocks (disk_blocks s) (i_addrs (icache s ip))"

definition file_step :: "'a fs_st_scheme \<Rightarrow> nat \<Rightarrow> 'a fs_st_scheme \<Rightarrow> bool" where
  "file_step s ip s' \<longleftrightarrow> fs_rest s' = fs_rest s \<and>
     (\<exists>a z. icache s' = (icache s)(ip := (icache s ip)\<lparr>i_addrs := a, i_size := z\<rparr>)) \<and>
     (\<forall>m \<in> others s ip. disk_blocks s' m = disk_blocks s m \<and> m \<in> others s' ip)"

lemma file_step_refl: "file_step s ip s"
  by (auto simp: file_step_def intro!: exI [of _ "i_addrs (icache s ip)"] exI [of _ "i_size (icache s ip)"])

lemma file_step_trans: "file_step s ip s1 \<Longrightarrow> file_step s1 ip s2 \<Longrightarrow> file_step s ip s2"
  unfolding file_step_def by (elim conjE exE) (auto intro!: exI)

lemma index_file_blocks: "index_blocks dsk addrs \<subseteq> file_blocks dsk addrs"
  by (auto simp: index_blocks_def file_blocks_def)

lemma extends_file_step:
  assumes inv: "file_inv s ip H" and ex: "extends s ip X s'"
  shows "file_step s ip s'"
proof -
  note e = ex [unfolded extends_def]
  have fr: "fs_rest s' = fs_rest s" and si: "same_inodes s ip s'" and tk: "taken_blocks s \<subseteq> taken_blocks s'"
    using e by simp_all
  have bm: "bitmap_blocks s' = bitmap_blocks s" by (rule fs_rest_bitmap [OF fr])
  have ib: "iblk s' ip = iblk s ip" by (rule same_inodes_iblk [OF si fs_rest_proj(1) [OF fr]])
  obtain a where a: "icache s' = (icache s)(ip := (icache s ip)\<lparr>i_addrs := a\<rparr>)"
    using si by (auto simp: same_inodes_def)
  have "disk_blocks s' m = disk_blocks s m \<and> m \<in> others s' ip" if m: "m \<in> others s ip" for m
  proof
    have t: "m \<in> taken_blocks s" "m \<notin> bitmap_blocks s" "m \<notin> file_blocks (disk_blocks s) (i_addrs (icache s ip))"
      "m \<noteq> 0" "m \<noteq> iblk s ip" using m by (auto simp: others_def data_area_def)
    then show "disk_blocks s' m = disk_blocks s m" using e index_file_blocks by blast
    have "m \<notin> file_blocks (disk_blocks s') (i_addrs (icache s' ip))"
    proof
      assume "m \<in> file_blocks (disk_blocks s') (i_addrs (icache s' ip))"
      then obtain q where q: "is_slot q" "fslot s' ip q = m" by (auto simp: file_blocks_def)
      have "fslot s' ip q = fslot s ip q \<or> fslot s' ip q \<notin> taken_blocks s" using e q(1) by blast
      then have "fslot s ip q = m" using t(1) q(2) by auto
      then show False using q(1) t(3,4) by (auto simp: file_blocks_def)
    qed
    then show "m \<in> others s' ip" using t tk by (auto simp: others_def data_area_def bm ib)
  qed
  then show ?thesis using fr a
    by (auto simp: file_step_def intro!: exI [of _ a] exI [of _ "i_size (icache s ip)"])
qed

lemma bpath_leaf: "bn < MAXFILE \<Longrightarrow> \<not> is_slot (i # bpath bn)"
  by (auto simp: bpath_def Let_def NDIRECT_def)

lemma bpath_suffix:
  assumes "suffix (bpath a) (bpath b)" and "a < MAXFILE" and "b < MAXFILE"
  shows "a = b"
proof -
  obtain zs where z: "bpath b = zs @ bpath a" using assms(1) by (auto simp: suffix_def)
  show ?thesis
  proof (cases zs rule: rev_cases)
    case Nil
    then show ?thesis using z bpath_inj by simp
  next
    case (snoc ys y)
    have "is_slot (y # bpath a)" if "is_slot (ys @ y # bpath a)" "bpath a \<noteq> []" for ys
      using that(1)
    proof (induction ys)
      case (Cons x ys)
      then show ?case using is_slot_ConsD [of x "ys @ y # bpath a"] by auto
    qed simp
    moreover have "is_slot (ys @ y # bpath a)" using is_slot_bpath [OF assms(3)] z snoc by simp
    ultimately show ?thesis using bpath_leaf [OF assms(2)] is_slot_bpath [OF assms(2)] by fastforce
  qed
qed

text \<open>Read, change and write back a block that is neither bitmap nor index nor somebody else's.\<close>

lemma write_block:
  assumes inv: "file_inv s ip H" and H: "size H < NBUF"
    and a: "a \<notin> bitmap_blocks s" "a \<notin> index_blocks (disk_blocks s) (i_addrs (icache s ip))" "a \<notin> others s ip"
    and d: "\<And>x. length x = BSIZE \<Longrightarrow> length (f x) = BSIZE"
  shows "\<exists>bp s1. bread s ROOTDEV a = Some (bp, s1) \<and> bdata s1 bp = disk_blocks s a \<and> blk_rest s1 = blk_rest s \<and>
    (let s' = brelse bp (bwrite bp (bset bp (f (bdata s1 bp)) s1)) in
       file_inv s' ip H \<and> file_step s ip s' \<and> disk_blocks s' = (disk_blocks s)(a := f (disk_blocks s a)) \<and>
       blk_rest s' = blk_rest s \<and> taken_blocks s' = taken_blocks s \<and> (\<forall>q. is_slot q \<longrightarrow> fslot s' ip q = fslot s ip q))"
proof -
  obtain bp s1 where r: "bread s ROOTDEV a = Some (bp, s1)" "alloc_inv s1 (add_mset bp H)"
    "bdata s1 bp = disk_blocks s a" "disk_blocks s1 = disk_blocks s" "blk_rest s1 = blk_rest s"
    "taken_blocks s1 = taken_blocks s" "b_blockno (bcache s1 bp) = a"
    using alloc_read [OF file_invD(1) [OF inv] H, of a] by blast
  let ?d = "f (disk_blocks s a)"
  let ?s2 = "bwrite bp (bset bp ?d s1)" and ?s' = "brelse bp (bwrite bp (bset bp ?d s1))"
  have dl: "length ?d = BSIZE" by (intro d bc.block_length [OF file_invD(2) [OF inv]])
  have w: "alloc_inv ?s2 (add_mset bp H)" "taken_blocks ?s2 = taken_blocks s1"
    using alloc_inv_write [OF r(2) _ dl] r(7) a(1) blk_rest_meta [OF r(5)] by auto
  have w': "disk_blocks ?s2 = (disk_blocks s)(a := ?d)" "blk_rest ?s2 = blk_rest s1"
    using bc.wr_ok [OF _ _ dl, of s1 "add_mset bp H" bp] r by (auto simp: alloc_inv_def)
  note rl = alloc_inv_release [OF w(1)]
  have s': "disk_blocks ?s' = (disk_blocks s)(a := ?d)" "blk_rest ?s' = blk_rest s" "taken_blocks ?s' = taken_blocks s"
    using rl w w' r by simp_all
  note f = blk_rest_fs [OF s'(2)] blk_rest_sb [OF s'(2)] blk_rest_meta [OF s'(2)]
  have same: "disk_blocks ?s' b = disk_blocks s b" if "b \<in> index_blocks (disk_blocks s) (i_addrs (icache s ip))" for b
    using that a(2) by (auto simp: s')
  have sl: "\<forall>q. is_slot q \<longrightarrow> fslot ?s' ip q = fslot s ip q" using slot_cong [OF same] by (simp add: f)
  note mk = map_ok_cong [of _ _ _ "disk_blocks ?s'", OF file_invD(5) [OF inv] same]
  have area': "data_area ?s' ip = data_area s ip" by (simp add: data_area_def s' iblk_def f)
  have "file_inv ?s' ip H"
    using file_invD [OF inv] rl(1) mk(1) by (simp add: file_inv_def area' s'(3) f iblk_def)
  moreover have "disk_blocks ?s' m = disk_blocks s m \<and> m \<in> others ?s' ip" if "m \<in> others s ip" for m
    using that mk(2) a(3) by (auto simp: others_def area' s'(1) f)
  then have "file_step s ip ?s'" using f
    by (auto simp: file_step_def intro!: exI [of _ "i_addrs (icache s ip)"] exI [of _ "i_size (icache s ip)"])
  ultimately show ?thesis using r(1,3,5) s' sl by (intro exI [of _ bp] exI [of _ s1]) (simp add: Let_def)
qed

lemma data_not_index:
  assumes "file_inv s ip H" and "bn < MAXFILE" and "fslot s ip (bpath bn) \<noteq> 0"
  shows "fslot s ip (bpath bn) \<notin> index_blocks (disk_blocks s) (i_addrs (icache s ip))"
proof
  assume "fslot s ip (bpath bn) \<in> index_blocks (disk_blocks s) (i_addrs (icache s ip))"
  then obtain q i where q: "is_slot q" "is_slot (i # q)" "fslot s ip q = fslot s ip (bpath bn)"
    by (auto simp: index_blocks_def)
  have "bpath bn = q"
    by (rule map_okD(3) [OF file_invD(5) [OF assms(1)] is_slot_bpath [OF assms(2)] q(1) assms(3)]) (simp only: q(3))
  then show False using q(2) bpath_leaf [OF assms(2)] by simp
qed

lemma write_data_block:
  assumes inv: "file_inv s ip H" and H: "size H < NBUF" and bn: "bn < MAXFILE" and a: "fslot s ip (bpath bn) = a" "a \<noteq> 0"
    and d: "\<And>x. length x = BSIZE \<Longrightarrow> length (f x) = BSIZE"
  shows "\<exists>bp s1. bread s ROOTDEV a = Some (bp, s1) \<and> bdata s1 bp = disk_blocks s a \<and> blk_rest s1 = blk_rest s \<and>
    (let s' = brelse bp (bwrite bp (bset bp (f (bdata s1 bp)) s1)) in
       file_inv s' ip H \<and> file_step s ip s' \<and> disk_blocks s' = (disk_blocks s)(a := f (disk_blocks s a)) \<and>
       blk_rest s' = blk_rest s \<and> taken_blocks s' = taken_blocks s \<and> (\<forall>q. is_slot q \<longrightarrow> fslot s' ip q = fslot s ip q))"
proof (rule write_block [OF inv H _ _ _ d])
  show "a \<notin> bitmap_blocks s" using file_slot_area(2) [OF inv is_slot_bpath [OF bn]] a by simp
  show "a \<notin> index_blocks (disk_blocks s) (i_addrs (icache s ip))" using data_not_index [OF inv bn] a by simp
  show "a \<notin> others s ip" using a is_slot_bpath [OF bn] by (auto simp: others_def file_blocks_def)
qed

text \<open>\<open>bmap\<close> changes no byte of the file.\<close>

lemma bmap_bytes:
  assumes inv: "file_inv s ip H" and post: "bmap_post s ip H bn a s1" and bn: "bn < MAXFILE" and k: "k div BSIZE < MAXFILE"
  shows "fbyte s1 ip k = fbyte s ip k"
    and "fslot s ip (bpath (k div BSIZE)) \<noteq> 0 \<Longrightarrow> fslot s1 ip (bpath (k div BSIZE)) = fslot s ip (bpath (k div BSIZE))"
proof -
  let ?b = "k div BSIZE" and ?X = "{q. suffix q (bpath bn)}"
  have ex: "extends s ip ?X s1" using post by (simp add: bmap_post_def map_step_def)
  note sl = is_slot_bpath [OF k]
  show keep: "fslot s1 ip (bpath ?b) = fslot s ip (bpath ?b)" if "fslot s ip (bpath ?b) \<noteq> 0"
    by (rule extends_slot(1) [OF ex sl that])
  show "fbyte s1 ip k = fbyte s ip k"
  proof (cases "fslot s ip (bpath ?b) = 0")
    case False
    have "fslot s ip (bpath ?b) \<in> taken_blocks s" "fslot s ip (bpath ?b) \<notin> bitmap_blocks s"
      using file_slot_area [OF inv sl False] by auto
    then have "disk_blocks s1 (fslot s ip (bpath ?b)) = disk_blocks s (fslot s ip (bpath ?b))"
      using ex data_not_index [OF inv k False] by (simp add: extends_def)
    then show ?thesis using keep [OF False] by (simp add: fbyte_eq)
  next
    case True
    show ?thesis
    proof (cases "?b = bn")
      case same: True
      then have "fslot s1 ip (bpath ?b) = a" "disk_blocks s1 a = replicate BSIZE 0"
        using post True by (auto simp: bmap_post_def)
      then show ?thesis using True by (simp add: fbyte_eq)
    next
      case False
      then have "bpath ?b \<notin> ?X" using bpath_suffix [OF _ k bn] by auto
      then have "fslot s1 ip (bpath ?b) = 0" using extends_slot(2) [OF ex sl] True by simp
      then show ?thesis using True by (simp add: fbyte_eq)
    qed
  qed
qed

text \<open>The blocks of a range, and those of the file that are allocated.\<close>

definition brange :: "nat \<Rightarrow> nat \<Rightarrow> nat set" where
  "brange off len = (\<lambda>k. k div BSIZE) ` {off..<off + len}"

definition mapped :: "'a fs_st_scheme \<Rightarrow> nat \<Rightarrow> nat set" where
  "mapped s ip = {bn. bn < MAXFILE \<and> fslot s ip (bpath bn) \<noteq> 0}"

text \<open>The blocks of a range that a write has to allocate.\<close>

definition need :: "'a fs_st_scheme \<Rightarrow> nat \<Rightarrow> nat \<Rightarrow> nat \<Rightarrow> nat" where
  "need s ip off len = card (brange off len - mapped s ip)"

text \<open>
  \<open>wrote s ip off bs s'\<close>: the bytes of the range are now \<open>bs\<close>, all others as before,
  and exactly the missing blocks of the range have been allocated.
\<close>

definition wrote :: "'a fs_st_scheme \<Rightarrow> nat \<Rightarrow> nat \<Rightarrow> u8 list \<Rightarrow> 'a fs_st_scheme \<Rightarrow> bool" where
  "wrote s ip off bs s' \<longleftrightarrow>
     (\<forall>k. k div BSIZE < MAXFILE \<longrightarrow>
        fbyte s' ip k = (if off \<le> k \<and> k < off + length bs then bs ! (k - off) else fbyte s ip k)) \<and>
     mapped s' ip = mapped s ip \<union> brange off (length bs)"

lemma brange_append: "brange off (m + n) = brange off m \<union> brange (off + m) n"
proof -
  have "{off..<off + (m + n)} = {off..<off + m} \<union> {off + m..<off + m + n}" by auto
  then show ?thesis by (simp add: brange_def image_Un)
qed

lemma brange_0 [simp]: "brange off 0 = {}"
  by (simp add: brange_def)

lemma finite_brange [simp]: "finite (brange off n)"
  by (simp add: brange_def)

lemma brange_one:
  assumes "off mod BSIZE + m \<le> BSIZE" and "0 < m"
  shows "brange off m = {off div BSIZE}"
proof -
  have "k div BSIZE = off div BSIZE" if "k \<in> {off..<off + m}" for k
  proof -
    have "k - off < m" "off + (k - off) = k" using that by auto
    then show ?thesis using block_range(1) [OF assms(1), of "k - off"] by simp
  qed
  moreover have "off \<in> {off..<off + m}" using assms(2) by simp
  ultimately show ?thesis unfolding brange_def by blast
qed

lemma need_append:
  assumes "mapped s1 ip = mapped s ip \<union> brange off m"
  shows "need s ip off (m + n) = need s ip off m + need s1 ip (off + m) n"
proof -
  let ?A = "brange off m" and ?R = "brange (off + m) n" and ?M = "mapped s ip"
  have "?A \<union> ?R - ?M = (?A - ?M) \<union> (?R - (?M \<union> ?A))" by blast
  moreover have "(?A - ?M) \<inter> (?R - (?M \<union> ?A)) = {}" by blast
  ultimately show ?thesis unfolding need_def brange_append assms
    by (simp add: card_Un_disjoint)
qed

lemma wrote_append:
  assumes "wrote s ip off xs s1" and "wrote s1 ip (off + length xs) ys s2"
  shows "wrote s ip off (xs @ ys) s2"
  using assms unfolding wrote_def by (auto simp: nth_append brange_append)

lemma writei_iter:
  assumes inv: "file_inv s ip H" and H: "size H + 1 < NBUF" and bs: "bs \<noteq> []"
    and lim: "unat off + length bs \<le> MAXFILE * BSIZE" and room: "3 * need s ip (unat off) m \<le> nfree s"
    and m: "m = min (BSIZE - unat off mod BSIZE) (length bs)"
  shows "\<exists>s'. writei_loop s ip off bs = writei_loop s' ip (off + of_nat m) (drop m bs) \<and>
    file_inv s' ip H \<and> file_step s ip s' \<and> wrote s ip (unat off) (take m bs) s' \<and>
    nfree s \<le> nfree s' + 3 * need s ip (unat off) m \<and>
    i_size (icache s' ip) = i_size (icache s ip)"
proof -
  let ?o = "unat off" and ?bn = "unat off div BSIZE"
  have "?o < MAXFILE * BSIZE" using lim bs by (cases bs) auto
  then have bn: "?bn < MAXFILE" by (simp add: less_mult_imp_div_less)
  have om: "?o mod BSIZE + m \<le> BSIZE" "m \<le> length bs" "0 < m"
    using m bs mod_less_divisor [OF BSIZE_pos(1), of ?o] by (auto simp: min_def)
  have nd: "need s ip ?o m = (if fslot s ip (bpath ?bn) = 0 then 1 else 0)"
  proof -
    have "{?bn} - mapped s ip = (if fslot s ip (bpath ?bn) = 0 then {?bn} else {})" using bn by (auto simp: mapped_def)
    then show ?thesis by (simp add: need_def brange_one [OF om(1,3)])
  qed
  obtain a s1 where b: "bmap s ip ?bn = Some (a, s1)" "bmap_post s ip H ?bn a s1"
  proof -
    have "fslot s ip (bpath ?bn) = 0 \<Longrightarrow> 3 \<le> nfree s" using room nd by simp
    then show ?thesis using bmap_ok [OF inv H bn] that by blast
  qed
  have s1: "file_inv s1 ip H" "extends s ip {q. suffix q (bpath ?bn)} s1" "nfree s \<le> nfree s1 + 3 * need s ip ?o m"
    "fslot s1 ip (bpath ?bn) = a" "a \<noteq> 0"
    using b(2) nd blk_rest_sb [of s1 s] blk_rest_fs(1) [of s1 s]
    by (auto simp: bmap_post_def map_step_def nfree_def taken_blocks_def)
  let ?f = "\<lambda>x. overwrite x (?o mod BSIZE) (take m bs)"
  have f: "length (?f x) = BSIZE" if "length x = BSIZE" for x using that om by simp
  obtain bp s2 where r: "bread s1 ROOTDEV a = Some (bp, s2)" "bdata s2 bp = disk_blocks s1 a"
    and w: "let s' = brelse bp (bwrite bp (bset bp (?f (bdata s2 bp)) s2)) in
       file_inv s' ip H \<and> file_step s1 ip s' \<and> disk_blocks s' = (disk_blocks s1)(a := ?f (disk_blocks s1 a)) \<and>
       blk_rest s' = blk_rest s1 \<and> taken_blocks s' = taken_blocks s1 \<and> (\<forall>q. is_slot q \<longrightarrow> fslot s' ip q = fslot s1 ip q)"
    using write_data_block [OF s1(1) _ bn s1(4,5), of ?f] H f by auto
  define s' where "s' = brelse bp (bwrite bp (bset bp (?f (bdata s2 bp)) s2))"
  have s': "file_inv s' ip H" "file_step s1 ip s'" "disk_blocks s' = (disk_blocks s1)(a := ?f (disk_blocks s1 a))"
    "blk_rest s' = blk_rest s1" "taken_blocks s' = taken_blocks s1" "\<And>q. is_slot q \<Longrightarrow> fslot s' ip q = fslot s1 ip q"
    using w unfolding Let_def s'_def [symmetric] by blast+
  have "writei_loop s ip off bs = writei_loop s' ip (off + of_nat m) (drop m bs)"
    using bs b(1) r file_invD(4) [OF s1(1)] by (subst writei_loop.simps) (simp add: Let_def s'_def m)
  moreover have "file_step s ip s'"
    using file_step_trans [OF extends_file_step [OF inv s1(2)] s'(2)] .
  moreover have "nfree s' = nfree s1" using s'(5) blk_rest_sb [OF s'(4)] by (simp add: nfree_def)
  moreover have "i_size (icache s' ip) = i_size (icache s ip)"
    using blk_rest_fs(1) [OF s'(4)] same_inodes_fields(3) [of s ip s1 ip] s1(2) by (simp add: extends_def)
  moreover have "fbyte s' ip k = (if ?o \<le> k \<and> k < ?o + m then bs ! (k - ?o) else fbyte s ip k)"
    if k: "k div BSIZE < MAXFILE" for k
  proof -
    have sl: "fslot s' ip (bpath (k div BSIZE)) = fslot s1 ip (bpath (k div BSIZE))"
      by (rule s'(6) [OF is_slot_bpath [OF k]])
    have len: "length (disk_blocks s1 a) = BSIZE" by (rule bc.block_length [OF file_invD(2) [OF s1(1)]])
    show ?thesis
    proof (cases "k div BSIZE = ?bn")
      case True
      have kk: "k = ?bn * BSIZE + k mod BSIZE" "?o = ?bn * BSIZE + ?o mod BSIZE"
        using True by (metis div_mult_mod_eq)+
      have "fbyte s' ip k = ?f (disk_blocks s1 a) ! (k mod BSIZE)"
        using sl s1(4,5) by (simp add: fbyte_eq True s'(3))
      also have "\<dots> = (if ?o mod BSIZE \<le> k mod BSIZE \<and> k mod BSIZE < ?o mod BSIZE + m
          then bs ! (k mod BSIZE - ?o mod BSIZE) else disk_blocks s1 a ! (k mod BSIZE))"
        using om len by (subst nth_overwrite) auto
      also have "disk_blocks s1 a ! (k mod BSIZE) = fbyte s1 ip k" using s1(4,5) by (simp add: fbyte_eq True)
      also have "fbyte s1 ip k = fbyte s ip k" by (rule bmap_bytes(1) [OF inv b(2) bn k])
      also have "(?o mod BSIZE \<le> k mod BSIZE \<and> k mod BSIZE < ?o mod BSIZE + m) = (?o \<le> k \<and> k < ?o + m)"
        using kk by linarith
      also have "k mod BSIZE - ?o mod BSIZE = k - ?o" using kk by linarith
      finally show ?thesis .
    next
      case False
      have "fslot s1 ip (bpath (k div BSIZE)) \<noteq> a"
        using map_okD(3) [OF file_invD(5) [OF s1(1)] is_slot_bpath [OF bn] is_slot_bpath [OF k]] s1(4,5)
          bpath_inj False by metis
      then have "fbyte s' ip k = fbyte s1 ip k" using sl by (simp add: fbyte_eq s'(3) Let_def)
      also have "\<dots> = fbyte s ip k" by (rule bmap_bytes(1) [OF inv b(2) bn k])
      finally show ?thesis using False block_range(1) [OF om(1), of "k - ?o"] by fastforce
    qed
  qed
  moreover have "mapped s' ip = mapped s ip \<union> brange ?o m"
  proof -
    have "fslot s' ip (bpath n) \<noteq> 0 \<longleftrightarrow> fslot s ip (bpath n) \<noteq> 0 \<or> n = ?bn" if n: "n < MAXFILE" for n
    proof (cases "n = ?bn")
      case True
      then show ?thesis using s'(6) [OF is_slot_bpath [OF n]] s1(4,5) by simp
    next
      case False
      then have "bpath n \<notin> {q. suffix q (bpath ?bn)}" using bpath_suffix [OF _ n bn] by auto
      then show ?thesis
        using False s'(6) [OF is_slot_bpath [OF n]] extends_slot(2) [OF s1(2) is_slot_bpath [OF n]] by simp
    qed
    then show ?thesis using bn by (auto simp: mapped_def brange_one [OF om(1,3)])
  qed
  ultimately show ?thesis using s'(1) s1(3) om(2) unfolding wrote_def
    by (intro exI [of _ s']) (auto simp: min_absorb2)
qed

lemma writei_loop_ok:
  assumes "file_inv s ip H" and "size H + 1 < NBUF" and "unat off + length bs \<le> MAXFILE * BSIZE"
    and "3 * need s ip (unat off) (length bs) \<le> nfree s"
  shows "\<exists>s'. writei_loop s ip off bs = Some (off + of_nat (length bs), s') \<and> file_inv s' ip H \<and>
    file_step s ip s' \<and> wrote s ip (unat off) bs s' \<and>
    nfree s \<le> nfree s' + 3 * need s ip (unat off) (length bs) \<and>
    i_size (icache s' ip) = i_size (icache s ip)"
  using assms
proof (induction "length bs" arbitrary: s off bs rule: less_induct)
  case less
  show ?case
  proof (cases "bs = []")
    case True
    have "wrote s ip (unat off) [] s" by (auto simp: wrote_def)
    then show ?thesis using True less.prems file_step_refl by (auto simp: writei_loop.simps)
  next
    case False
    define m where m: "m = min (BSIZE - unat off mod BSIZE) (length bs)"
    define n where "n = length bs - m"
    have len: "0 < length bs" using False by simp
    have mb: "m \<le> length bs" "0 < m" using m len mod_less_divisor [OF BSIZE_pos(1), of "unat off"] by linarith+
    have mn: "length bs = m + n" using mb by (simp add: n_def)
    have "need s ip (unat off) m \<le> need s ip (unat off) (length bs)"
      unfolding mn need_def by (rule card_mono) (auto simp: brange_append)
    then have "3 * need s ip (unat off) m \<le> nfree s" using less.prems(4) by linarith
    from writei_iter [OF less.prems(1,2) False less.prems(3) this m] obtain s1 where
      s1: "writei_loop s ip off bs = writei_loop s1 ip (off + of_nat m) (drop m bs)"
      "file_inv s1 ip H" "file_step s ip s1" "wrote s ip (unat off) (take m bs) s1"
      "nfree s \<le> nfree s1 + 3 * need s ip (unat off) m"
      "i_size (icache s1 ip) = i_size (icache s ip)" by blast
    have nd: "need s ip (unat off) (length bs) = need s ip (unat off) m + need s1 ip (unat off + m) n"
      unfolding mn using s1(4) mb by (intro need_append) (simp add: wrote_def min_absorb2)
    have off: "unat (off + of_nat m) = unat off + m"
      using less.prems(3) mb by (intro unat_add_small) (simp add: kdefs)
    have "\<exists>s'. writei_loop s1 ip (off + of_nat m) (drop m bs) =
        Some (off + of_nat m + of_nat (length (drop m bs)), s') \<and> file_inv s' ip H \<and> file_step s1 ip s' \<and>
        wrote s1 ip (unat (off + of_nat m)) (drop m bs) s' \<and>
        nfree s1 \<le> nfree s' + 3 * need s1 ip (unat (off + of_nat m)) (length (drop m bs)) \<and>
        i_size (icache s' ip) = i_size (icache s1 ip)"
      using mb len less.prems(2-4) s1(2,5) nd by (intro less.hyps) (simp_all add: off n_def)
    then obtain s' where s': "writei_loop s1 ip (off + of_nat m) (drop m bs) = Some (off + of_nat (length bs), s')"
      "file_inv s' ip H" "file_step s1 ip s'" "wrote s1 ip (unat off + length (take m bs)) (drop m bs) s'"
      "nfree s1 \<le> nfree s' + 3 * need s1 ip (unat off + m) n"
      "i_size (icache s' ip) = i_size (icache s1 ip)"
      using mb by (auto simp: off min_absorb2 of_nat_diff n_def)
    have "wrote s ip (unat off) bs s'" using wrote_append [OF s1(4) s'(4)] by simp
    then show ?thesis using s1 s' file_step_trans [OF s1(3) s'(3)] nd by (intro exI [of _ s']) simp
  qed
qed

section \<open>Writing the inode back\<close>

definition dinode_of :: "inode \<Rightarrow> dinode" where
  "dinode_of i = \<lparr>d_type = i_type i, d_major = i_major i, d_minor = i_minor i, d_nlink = i_nlink i,
     d_size = i_size i, d_addrs = i_addrs i\<rparr>"

lemma file_len: "file_inv s ip H \<Longrightarrow> length (i_addrs (icache s ip)) = NDIRECT + 2"
  using map_okD(1) [OF file_invD(5)] .

lemma iblk_not_file:
  assumes "file_inv s ip H"
  shows "iblk s ip \<notin> bitmap_blocks s" "iblk s ip \<notin> index_blocks (disk_blocks s) (i_addrs (icache s ip))"
    "iblk s ip \<notin> others s ip" "bn < MAXFILE \<Longrightarrow> fslot s ip (bpath bn) \<noteq> 0 \<Longrightarrow> fslot s ip (bpath bn) \<noteq> iblk s ip"
proof -
  show "iblk s ip \<notin> bitmap_blocks s" by (rule file_invD(7) [OF assms])
  show "iblk s ip \<notin> index_blocks (disk_blocks s) (i_addrs (icache s ip))"
    using file_slot_area(3) [OF assms] by (fastforce simp: index_blocks_def)
  show "iblk s ip \<notin> others s ip" by (simp add: others_def data_area_def)
  show "bn < MAXFILE \<Longrightarrow> fslot s ip (bpath bn) \<noteq> 0 \<Longrightarrow> fslot s ip (bpath bn) \<noteq> iblk s ip"
    using file_slot_area(3) [OF assms is_slot_bpath] .
qed

lemma iupdate_ok:
  assumes inv: "file_inv s ip H" and H: "size H < NBUF"
  shows "\<exists>s'. iupdate ip s = Some s' \<and> file_inv s' ip H \<and> file_step s ip s' \<and> blk_rest s' = blk_rest s \<and>
    disk_blocks s' = (disk_blocks s)(iblk s ip :=
      put_dinode (disk_blocks s (iblk s ip)) (i_inum (icache s ip)) (dinode_of (icache s ip))) \<and>
    wrote s ip 0 [] s' \<and> nfree s' = nfree s"
proof -
  let ?f = "\<lambda>x. put_dinode x (i_inum (icache s ip)) (dinode_of (icache s ip))"
  have len: "length (?f x) = BSIZE" if "length x = BSIZE" for x
    using dinode_at_put(2) [OF that, of "dinode_of (icache s ip)"] file_len [OF inv] by (simp add: dinode_of_def)
  obtain bp s1 where r: "bread s ROOTDEV (iblk s ip) = Some (bp, s1)" "bdata s1 bp = disk_blocks s (iblk s ip)"
      "blk_rest s1 = blk_rest s"
    and w: "let s' = brelse bp (bwrite bp (bset bp (?f (bdata s1 bp)) s1)) in
       file_inv s' ip H \<and> file_step s ip s' \<and> disk_blocks s' = (disk_blocks s)(iblk s ip := ?f (disk_blocks s (iblk s ip))) \<and>
       blk_rest s' = blk_rest s \<and> taken_blocks s' = taken_blocks s \<and> (\<forall>q. is_slot q \<longrightarrow> fslot s' ip q = fslot s ip q)"
    using write_block [OF inv H iblk_not_file(1-3) [OF inv], of ?f] len by blast
  define s' where "s' = brelse bp (bwrite bp (bset bp (?f (bdata s1 bp)) s1))"
  have s': "file_inv s' ip H" "file_step s ip s'" "blk_rest s' = blk_rest s" "taken_blocks s' = taken_blocks s"
    "disk_blocks s' = (disk_blocks s)(iblk s ip := ?f (disk_blocks s (iblk s ip)))"
    "\<And>q. is_slot q \<Longrightarrow> fslot s' ip q = fslot s ip q"
    using w unfolding Let_def s'_def [symmetric] by blast+
  have "iupdate ip s = Some s'"
    using r file_invD(4) [OF inv] by (simp add: iupdate_def iblk_def dinode_of_def s'_def Let_def)
  moreover have "fbyte s' ip k = fbyte s ip k" if k: "k div BSIZE < MAXFILE" for k
    using s'(6) [OF is_slot_bpath [OF k]] iblk_not_file(4) [OF inv k] by (auto simp: fbyte_eq s'(5))
  then have "wrote s ip 0 [] s'" using s'(6) is_slot_bpath by (auto simp: wrote_def mapped_def)
  moreover have "nfree s' = nfree s" using s'(4) blk_rest_sb [OF s'(3)] by (simp add: nfree_def)
  ultimately show ?thesis using s' by blast
qed

end
