(* ===== verification/File_Write.thy ===== *)
theory File_Write
  imports File_Content
begin

text \<open>
  The whole of \<open>writei\<close>: the copy loop followed by the update of the size and of the
  on-disk inode, the loop that fills a gap with zeros before a write past the end (it
  terminates), and the functional specification of reading and writing files.
\<close>

section \<open>The whole of writei\<close>

text \<open>The size field is not part of the block map.\<close>

lemma set_size_simps [simp]:
  "disk_blocks (upd_inode ip (\<lambda>x. x\<lparr>i_size := z\<rparr>) s) = disk_blocks s"
  "i_addrs (icache (upd_inode ip (\<lambda>x. x\<lparr>i_size := z\<rparr>) s) ip) = i_addrs (icache s ip)"
  "i_size (icache (upd_inode ip (\<lambda>x. x\<lparr>i_size := z\<rparr>) s) ip) = z"
  "sb (upd_inode ip (\<lambda>x. x\<lparr>i_size := z\<rparr>) s) = sb s"
  "bcache (upd_inode ip (\<lambda>x. x\<lparr>i_size := z\<rparr>) s) = bcache s"
  "iblk (upd_inode ip (\<lambda>x. x\<lparr>i_size := z\<rparr>) s) ip = iblk s ip"
  by (simp_all add: upd_inode_def iblk_def)

lemma set_size_file:
  fixes s ip z defines "t \<equiv> upd_inode ip (\<lambda>x. x\<lparr>i_size := z\<rparr>) s"
  shows "file_inv t ip H = file_inv s ip H" and "mapped t ip = mapped s ip" and "fbyte t ip k = fbyte s ip k"
    and "others t ip = others s ip" and "nfree t = nfree s" and "file_step s ip t"
proof -
  have tk: "taken_blocks t = taken_blocks s" "bitmap_blocks t = bitmap_blocks s" "data_area t ip = data_area s ip"
    "i_dev (icache t ip) = i_dev (icache s ip)"
    by (simp_all add: t_def taken_blocks_def bitmap_blocks_def data_area_def) (simp add: upd_inode_def)
  show "file_inv t ip H = file_inv s ip H"
    by (simp add: file_inv_def alloc_inv_def bc_inv_def tk) (simp add: t_def)
  show "mapped t ip = mapped s ip" "fbyte t ip k = fbyte s ip k" "nfree t = nfree s"
    by (simp_all add: mapped_def fbyte_eq nfree_def tk) (simp_all add: t_def)
  show ot: "others t ip = others s ip" by (simp add: others_def tk) (simp add: t_def)
  have "icache t = (icache s)(ip := (icache s ip)\<lparr>i_addrs := i_addrs (icache s ip), i_size := z\<rparr>)"
    by (simp add: t_def upd_inode_def)
  then show "file_step s ip t"
    unfolding file_step_def ot by (intro conjI exI [of _ "i_addrs (icache s ip)"] exI [of _ z]) (simp_all add: t_def)
qed

text \<open>
  \<open>file_wrote s ip H off bs s'\<close>: the summary of a successful write at an offset within
  the file. The contents are overwritten (and extended), the file stays well formed and
  dense, and if it has grown its inode has been written to the disk.
\<close>

definition file_wrote ::
  "'a fs_st_scheme \<Rightarrow> nat \<Rightarrow> nat multiset \<Rightarrow> nat \<Rightarrow> u8 list \<Rightarrow> 'a fs_st_scheme \<Rightarrow> bool" where
  "file_wrote s ip H off bs s' \<longleftrightarrow> file_inv s' ip H \<and> file_step s ip s' \<and> dense s' ip \<and>
     content s' ip = overwrite (content s ip) off bs \<and>
     (unat (i_size (icache s ip)) < off + length bs \<longrightarrow>
        dinode_at (disk_blocks s' (iblk s' ip)) (i_inum (icache s' ip)) = dinode_of (icache s' ip)) \<and>
     mapped s' ip = mapped s ip \<union> brange off (length bs) \<and>
     nfree s \<le> nfree s' + 3 * need s ip off (length bs)"

lemma dense_mapped:
  "dense s ip \<longleftrightarrow> unat (i_size (icache s ip)) \<le> MAXFILE * BSIZE \<and>
     (\<forall>bn. bn * BSIZE < unat (i_size (icache s ip)) \<longrightarrow> bn \<in> mapped s ip)"
proof -
  have "bn < MAXFILE" if "bn * BSIZE < z" "z \<le> MAXFILE * BSIZE" for bn z
    using order.strict_trans2 [OF that] by (simp only: mult_less_cancel2)
  then show ?thesis unfolding dense_def mapped_def by blast
qed

lemma dense_grow:
  assumes "dense s ip" and "off \<le> unat (i_size (icache s ip))" and "off + n \<le> MAXFILE * BSIZE"
    and "mapped s' ip = mapped s ip \<union> brange off n"
    and "unat (i_size (icache s' ip)) = max (unat (i_size (icache s ip))) (off + n)"
  shows "dense s' ip"
  unfolding dense_mapped
proof (intro conjI allI impI)
  show "unat (i_size (icache s' ip)) \<le> MAXFILE * BSIZE" using assms(1,3,5) by (auto simp: dense_mapped)
  fix bn assume bn: "bn * BSIZE < unat (i_size (icache s' ip))"
  show "bn \<in> mapped s' ip"
  proof (cases "bn * BSIZE < unat (i_size (icache s ip))")
    case True
    then show ?thesis using assms(1,4) by (auto simp: dense_mapped)
  next
    case False
    then have "bn * BSIZE \<in> {off..<off + n}" using bn assms(2,5) by auto
    then have "bn * BSIZE div BSIZE \<in> brange off n" unfolding brange_def by (rule imageI)
    then show ?thesis using assms(4) by simp
  qed
qed

lemma content_overwrite:
  assumes "off \<le> unat (i_size (icache s ip))" and "wrote s ip off bs s'"
    and sz: "unat (i_size (icache s' ip)) = max (unat (i_size (icache s ip))) (off + length bs)"
    and "unat (i_size (icache s' ip)) \<le> MAXFILE * BSIZE"
  shows "content s' ip = overwrite (content s ip) off bs"
proof (rule nth_equalityI)
  show "length (content s' ip) = length (overwrite (content s ip) off bs)"
    using assms(1) sz by (auto simp: overwrite_def)
  fix k assume "k < length (content s' ip)"
  then have k: "k < unat (i_size (icache s' ip))" by simp
  then have "k div BSIZE < MAXFILE" using assms(4) by (simp add: less_mult_imp_div_less)
  then have "fbyte s' ip k = (if off \<le> k \<and> k < off + length bs then bs ! (k - off) else fbyte s ip k)"
    using assms(2) by (simp add: wrote_def)
  then show "content s' ip ! k = overwrite (content s ip) off bs ! k"
    using k assms(1) sz by (auto simp: content_def overwrite_def nth_append)
qed

lemma writei_tail_ok:
  assumes inv: "file_inv s ip H" and H: "size H + 1 < NBUF" and bs: "bs \<noteq> []" and dn: "dense s ip"
    and off: "unat off \<le> unat (i_size (icache s ip))" and lim: "unat off + length bs \<le> MAXFILE * BSIZE"
    and room: "3 * need s ip (unat off) (length bs) \<le> nfree s"
  shows "\<exists>s'. writei_tail s ip off bs = Some (int (length bs), s') \<and> file_wrote s ip H (unat off) bs s' \<and>
    unat (i_size (icache s' ip)) = max (unat (i_size (icache s ip))) (unat off + length bs)"
proof -
  let ?off = "off + of_nat (length bs)"
  obtain s1 where 1: "writei_loop s ip off bs = Some (?off, s1)" "file_inv s1 ip H" "file_step s ip s1"
    "wrote s ip (unat off) bs s1" "nfree s \<le> nfree s1 + 3 * need s ip (unat off) (length bs)"
    "i_size (icache s1 ip) = i_size (icache s ip)" using writei_loop_ok [OF inv H lim room] by blast
  have uoff: "unat ?off = unat off + length bs" using lim by (intro unat_add_small) (simp add: kdefs)
  show ?thesis
  proof (cases "i_size (icache s ip) < ?off")
    case False
    then have sz: "unat (i_size (icache s1 ip)) = max (unat (i_size (icache s ip))) (unat off + length bs)"
      using uoff 1(6) by (simp add: word_less_nat_alt)
    have "dense s1 ip" using 1(4) by (intro dense_grow [OF dn off lim _ sz]) (simp add: wrote_def)
    then have "file_wrote s ip H (unat off) bs s1"
      using 1 content_overwrite [OF off 1(4) sz] False uoff
      by (auto simp: file_wrote_def dense_def wrote_def word_less_nat_alt)
    then show ?thesis using 1(1,6) False sz by (auto simp: writei_tail_def)
  next
    case True
    let ?s2 = "upd_inode ip (\<lambda>x. x\<lparr>i_size := ?off\<rparr>) s1"
    note f2 = set_size_file [where s = s1 and ip = ip and z = ?off]
    have inv2: "file_inv ?s2 ip H" using 1(2) f2(1) by simp
    obtain s3 where 3: "iupdate ip ?s2 = Some s3" "file_inv s3 ip H" "file_step ?s2 ip s3" "blk_rest s3 = blk_rest ?s2"
      "disk_blocks s3 = (disk_blocks ?s2)(iblk ?s2 ip :=
        put_dinode (disk_blocks ?s2 (iblk ?s2 ip)) (i_inum (icache ?s2 ip)) (dinode_of (icache ?s2 ip)))"
      "wrote ?s2 ip 0 [] s3" "nfree s3 = nfree ?s2"
      using iupdate_ok [OF inv2] H by auto
    note ic = blk_rest_fs(1) [OF 3(4)] and sb = blk_rest_sb [OF 3(4)]
    have sz: "unat (i_size (icache s3 ip)) = max (unat (i_size (icache s ip))) (unat off + length bs)"
      using True uoff by (simp add: ic word_less_nat_alt)
    have w: "wrote s ip (unat off) bs s3"
      using 1(4) 3(6) f2(2,3) unfolding wrote_def by simp
    have dn3: "dense s3 ip" using w by (intro dense_grow [OF dn off lim _ sz]) (simp add: wrote_def)
    have step: "file_step s ip s3"
      using file_step_trans [OF file_step_trans [OF 1(3) f2(6)] 3(3)] .
    have "length (disk_blocks ?s2 (iblk ?s2 ip)) = BSIZE" by (rule bc.block_length [OF file_invD(2) [OF inv2]])
    then have "dinode_at (disk_blocks s3 (iblk s3 ip)) (i_inum (icache s3 ip)) = dinode_of (icache s3 ip)"
      using dinode_at_put(1) [of "disk_blocks ?s2 (iblk ?s2 ip)" "dinode_of (icache ?s2 ip)"] file_len [OF inv2]
      unfolding 3(5) ic iblk_def sb by (simp add: dinode_of_def)
    then have "file_wrote s ip H (unat off) bs s3"
      using 1(5) 3(2,7) f2(5) step dn3 content_overwrite [OF off w sz] w dn3
      by (simp add: file_wrote_def dense_def wrote_def)
    then show ?thesis using 1(1,6) 3(1) True bs sz by (auto simp: writei_tail_def)
  qed
qed

section \<open>Filling the gap\<close>

lemma overwrite_append:
  "off \<le> length c \<Longrightarrow> overwrite (overwrite c off xs) (off + length xs) ys = overwrite c off (xs @ ys)"
  by (auto simp: overwrite_def min_def add_ac)

lemma overwrite_Nil [simp]: "off \<le> length c \<Longrightarrow> overwrite c off [] = c"
  by (simp add: overwrite_def)

lemma file_wrote_Nil:
  "file_inv s ip H \<Longrightarrow> dense s ip \<Longrightarrow> off \<le> unat (i_size (icache s ip)) \<Longrightarrow> file_wrote s ip H off [] s"
  by (simp add: file_wrote_def file_step_refl)

lemma file_wrote_append:
  assumes 1: "file_wrote s ip H off xs s1" and 2: "file_wrote s1 ip H (off + length xs) ys s2"
    and off: "off \<le> unat (i_size (icache s ip))"
    and ys: "if ys = [] then s2 = s1 else unat (i_size (icache s1 ip)) < off + length xs + length ys"
  shows "file_wrote s ip H off (xs @ ys) s2"
proof -
  have "need s ip off (length xs + length ys) = need s ip off (length xs) + need s1 ip (off + length xs) (length ys)"
    using 1 by (intro need_append) (simp add: file_wrote_def)
  then show ?thesis
    using assms unfolding file_wrote_def
    by (auto simp: overwrite_append brange_append Un_assoc intro: file_step_trans split: if_splits)
qed

lemma writei_fill_ok:
  assumes "file_inv s ip H" and "size H + 1 < NBUF" and "dense s ip" and "unat off \<le> MAXFILE * BSIZE"
    and "3 * need s ip (unat (i_size (icache s ip))) (unat off - unat (i_size (icache s ip))) \<le> nfree s"
  shows "\<exists>s'. writei_fill s ip off = Some (True, s') \<and>
    file_wrote s ip H (unat (i_size (icache s ip))) (replicate (unat off - unat (i_size (icache s ip))) 0) s' \<and>
    unat (i_size (icache s' ip)) = max (unat (i_size (icache s ip))) (unat off) \<and>
    (unat off \<le> unat (i_size (icache s ip)) \<longrightarrow> s' = s)"
  using assms
proof (induction "unat off - unat (i_size (icache s ip))" arbitrary: s rule: less_induct)
  case less
  let ?z = "i_size (icache s ip)"
  let ?d = "unat off - unat ?z"
  show ?case
  proof (cases "?z < off")
    case False
    then show ?thesis using less.prems file_wrote_Nil [OF less.prems(1,3)]
      by (subst writei_fill.simps) (simp add: word_less_nat_alt)
  next
    case True
    define g where "g = min (off - ?z) 128"
    have d: "unat (off - ?z) = ?d" "unat ?z < unat off"
      using True by (simp_all add: unat_sub word_le_nat_alt word_less_nat_alt)
    have g: "unat g = min ?d 128" unfolding g_def min_def using d by (auto simp: word_le_nat_alt)
    have g0: "0 < unat g" "unat g \<le> ?d" using g d by auto
    have zg: "unat (?z + g) = unat ?z + unat g"
      using less.prems(4) g0 unat_add_small [of ?z "unat g"] by (simp add: kdefs)
    have bad: "\<not> writei_bad ?z g"
      using less.prems(4) zg g0 unfolding writei_bad_def word_less_nat_alt by linarith
    have room: "3 * need s ip (unat ?z) (unat g) \<le> nfree s"
    proof -
      have "need s ip (unat ?z) (unat g) \<le> need s ip (unat ?z) (unat g + (?d - unat g))"
        unfolding need_def by (rule card_mono) (auto simp: brange_append)
      then show ?thesis using less.prems(5) g0 by simp
    qed
    have lim: "unat ?z + unat g \<le> MAXFILE * BSIZE" using less.prems(4) g0 d by linarith
    obtain s1 where 1: "writei_tail s ip ?z (replicate (unat g) 0) = Some (int (unat g), s1)"
      "file_wrote s ip H (unat ?z) (replicate (unat g) 0) s1"
      "unat (i_size (icache s1 ip)) = unat ?z + unat g"
      using writei_tail_ok [OF less.prems(1,2) _ less.prems(3), of "replicate (unat g) 0" ?z] room g0 lim
      by auto
    have inv1: "file_inv s1 ip H" "dense s1 ip" using 1(2) by (simp_all add: file_wrote_def)
    have n: "need s ip (unat ?z) ?d = need s ip (unat ?z) (unat g) + need s1 ip (unat ?z + unat g) (?d - unat g)"
      using need_append [of s1 ip s "unat ?z" "unat g" "?d - unat g"] 1(2) g0 by (simp add: file_wrote_def)
    have dd: "unat off - (unat ?z + unat g) = ?d - unat g" by simp
    have lt: "?d - unat g < ?d" using g0 d by linarith
    have room1: "3 * need s1 ip (unat ?z + unat g) (?d - unat g) \<le> nfree s1"
      using less.prems(5) n 1(2) by (simp add: file_wrote_def)
    obtain s2 where 2: "writei_fill s1 ip off = Some (True, s2)"
      "file_wrote s1 ip H (unat ?z + unat g) (replicate (?d - unat g) 0) s2"
      "unat (i_size (icache s2 ip)) = max (unat ?z + unat g) (unat off)"
      "unat off \<le> unat ?z + unat g \<longrightarrow> s2 = s1"
      using less.hyps [of s1, unfolded 1(3) dd, OF lt inv1(1) less.prems(2) inv1(2) less.prems(4) room1] by blast
    have "file_wrote s ip H (unat ?z) (replicate (unat g) 0 @ replicate (?d - unat g) 0) s2"
      using file_wrote_append [OF 1(2), of "replicate (?d - unat g) 0" s2] 2 g0 d by (auto simp: 1(3))
    then have "file_wrote s ip H (unat ?z) (replicate ?d 0) s2" using g0 by (simp flip: replicate_add)
    moreover have "writei_zeros s ip g = Some (int (unat g), s1)"
      using 1(1) bad g0 by (auto simp: writei_zeros_def)
    then have "writei_fill s ip off = writei_fill s1 ip off"
      using True by (subst writei_fill.simps) (simp add: g_def [symmetric] Let_def)
    ultimately show ?thesis using 2 d g0 by auto
  qed
qed

lemma writei_ok:
  assumes "file_inv s ip H" and "size H + 1 < NBUF" and "dense s ip" and "bs \<noteq> []"
    and "unat off + length bs \<le> MAXFILE * BSIZE" and "z = unat (i_size (icache s ip))"
    and "3 * need s ip (min z (unat off)) (unat off - z + length bs) \<le> nfree s"
  shows "\<exists>s'. writei s ip off bs = Some (int (length bs), s') \<and>
    file_wrote s ip H (min z (unat off)) (replicate (unat off - z) 0 @ bs) s' \<and>
    unat (i_size (icache s' ip)) = max z (unat off + length bs)"
proof -
  have len: "length bs < 2 ^ 32" "unat off + length bs < 2 ^ 32" using assms(5) by (simp_all add: kdefs)
  have bad: "\<not> writei_bad off (of_nat (length bs))"
    using assms(5) unat_add_small [of off "length bs"] len by (simp add: writei_bad_def word_less_nat_alt)
  let ?g = "unat off - z"
  have gap: "3 * need s ip z ?g \<le> nfree s" if "z \<le> unat off"
  proof -
    have "need s ip z ?g \<le> need s ip z (?g + length bs)"
      unfolding need_def by (rule card_mono) (auto simp: brange_append)
    then show ?thesis using assms(7) that by simp
  qed
  have room: "3 * need s ip z ?g \<le> nfree s"
    using gap by (cases "z \<le> unat off") (simp_all add: need_def)
  obtain s1 where 1: "writei_fill s ip off = Some (True, s1)" "file_wrote s ip H z (replicate ?g 0) s1"
    "unat (i_size (icache s1 ip)) = max z (unat off)" "unat off \<le> z \<longrightarrow> s1 = s"
    using writei_fill_ok [OF assms(1-3), of off] assms(5) room by (auto simp: assms(6))
  have inv1: "file_inv s1 ip H" "dense s1 ip" using 1(2) by (simp_all add: file_wrote_def)
  have room1: "3 * need s1 ip (unat off) (length bs) \<le> nfree s1"
  proof (cases "z \<le> unat off")
    case True
    have "need s ip z (?g + length bs) = need s ip z ?g + need s1 ip (z + ?g) (length bs)"
      using 1(2) by (intro need_append) (simp add: file_wrote_def)
    then show ?thesis using assms(7) 1(2) True by (simp add: file_wrote_def)
  next
    case False
    then show ?thesis using assms(7) 1(4) by simp
  qed
  obtain s2 where 2: "writei_tail s1 ip off bs = Some (int (length bs), s2)" "file_wrote s1 ip H (unat off) bs s2"
    "unat (i_size (icache s2 ip)) = max (unat (i_size (icache s1 ip))) (unat off + length bs)"
    using writei_tail_ok [OF inv1(1) assms(2,4) inv1(2) _ assms(5) room1] 1(3) by auto
  have "writei s ip off bs = Some (int (length bs), s2)" using bad assms(4) 1(1) 2(1) by (simp add: writei_def)
  moreover have "file_wrote s ip H (min z (unat off)) (replicate ?g 0 @ bs) s2"
  proof (cases "z < unat off")
    case True
    then show ?thesis using file_wrote_append [OF 1(2), of bs s2] 2(2) 1(3) assms(4,6) by auto
  qed (use 1(4) 2(2) in \<open>simp add: min_absorb2\<close>)
  ultimately show ?thesis using 1(3) 2(3) by auto
qed

lemma overwrite_pad:
  assumes "z = length c"
  shows "overwrite c (min z off) (replicate (off - z) 0 @ bs) = overwrite (c @ replicate (off - z) 0) off bs"
  using assms by (cases "z < off") (simp_all add: overwrite_def min_absorb2)

section \<open>Properties\<close>

text \<open>
  Property C5 (functional). On a well-formed file with enough free blocks, \<open>writei\<close>
  writes all of its bytes: the contents of the file, padded with zeros up to the offset,
  are overwritten from the offset on, the size becomes the maximum of the old size and
  the end of the write, the file stays well formed with every block below its size
  allocated, no block that belongs to another file changes, and when the file grew its
  inode is on the disk.
\<close>

theorem writei_content:
  assumes "file_inv s ip H" and "size H + 1 < NBUF" and "dense s ip" and "bs \<noteq> []"
    and "unat off + length bs \<le> MAXFILE * BSIZE" and "z = unat (i_size (icache s ip))"
    and "3 * need s ip (min z (unat off)) (unat off - z + length bs) \<le> nfree s"
  shows "\<exists>s'. writei s ip off bs = Some (int (length bs), s') \<and>
    content s' ip = overwrite (content s ip @ replicate (unat off - z) 0) (unat off) bs \<and>
    unat (i_size (icache s' ip)) = max z (unat off + length bs) \<and>
    file_inv s' ip H \<and> dense s' ip \<and>
    (\<forall>m \<in> others s ip. disk_blocks s' m = disk_blocks s m \<and> m \<in> others s' ip) \<and>
    (z < unat off + length bs \<longrightarrow>
       dinode_at (disk_blocks s' (iblk s' ip)) (i_inum (icache s' ip)) = dinode_of (icache s' ip))"
proof -
  have "overwrite (content s ip) (min z (unat off)) (replicate (unat off - z) 0 @ bs) =
      overwrite (content s ip @ replicate (unat off - z) 0) (unat off) bs"
    using assms(6) by (intro overwrite_pad) simp
  moreover have "min z (unat off) + (unat off - z + length bs) = unat off + length bs" by simp
  ultimately show ?thesis using writei_ok [OF assms] assms(6) unfolding file_wrote_def file_step_def
    by auto
qed

text \<open>A file system with one empty file, inode 1 in slot 0 of the inode cache.\<close>

definition small_fs :: fs_st where
  "small_fs = blk_st.extend small_disk \<lparr>icache = (\<lambda>_. \<lparr>i_dev = ROOTDEV, i_inum = 1, i_ref = 1, i_valid = True,
     i_type = T_FILE, i_major = 0, i_minor = 0, i_nlink = 1, i_size = 0, i_addrs = replicate 13 0\<rparr>)\<rparr>"

lemma small_fs_simps [simp]:
  "disk_blocks small_fs = disk_blocks small_disk" "bcache small_fs = bcache small_disk" "sb small_fs = sb small_disk"
  "i_size (icache small_fs 0) = 0" "i_addrs (icache small_fs 0) = replicate 13 0"
  "i_dev (icache small_fs 0) = ROOTDEV" "i_inum (icache small_fs 0) = 1"
  by (simp_all add: small_fs_def blk_st.defs)

lemma small_fs_blocks:
  "taken_blocks small_fs = taken_blocks small_disk" "bitmap_blocks small_fs = bitmap_blocks small_disk"
  "alloc_inv small_fs H = alloc_inv small_disk H"
  by (simp_all add: taken_blocks_def bitmap_blocks_def alloc_inv_def bc_inv_def del: small_disk_blocks)

lemma small_disk_free: "n \<in> {16, 17, 18} \<Longrightarrow> \<not> used small_disk n" "used small_disk 0" "used small_disk 2"
  by (auto simp: used_in_def small_BMAP bit_at_def BPB_def BSIZE_def bit_numeral_rec)

lemma slot_empty: "is_slot q \<Longrightarrow> slot (disk_blocks small_disk) (replicate 13 0) q = 0"
  by (induction q rule: is_slot.induct) (auto simp: kdefs)

lemma small_fs_inv: "file_inv small_fs 0 {#}" "dense small_fs 0" "3 \<le> nfree small_fs"
proof -
  have "map_ok A (disk_blocks small_disk) (replicate 13 0)" for A
    using slot_empty by (auto simp: map_ok_def NDIRECT_def simp del: small_disk_blocks)
  moreover have ib: "iblk small_fs 0 = 2" by (simp add: iblk_def inode_block_def IPB_def boot_blk_def)
  ultimately show "file_inv small_fs 0 {#}"
    using small_disk_inv small_disk_free small_BMAP
    by (auto simp: file_inv_def small_fs_blocks taken_blocks_def bitmap_blocks_def simp del: small_disk_blocks(1))
  show "dense small_fs 0" by (simp add: dense_def)
  let ?F = "{n. n < sb_size (sb small_disk) \<and> n \<notin> taken_blocks small_disk}"
  have "{16, 17, 18} \<subseteq> ?F"
    using small_disk_inv(2) small_disk_free(1) by (auto simp: taken_blocks_def simp del: small_disk_blocks)
  then have "card {16, 17, 18 :: u32} \<le> card ?F" by (rule card_mono [rotated]) simp
  then show "3 \<le> nfree small_fs" by (simp add: nfree_def small_fs_blocks del: small_disk_blocks)
qed

lemma small_fs_need: "need small_fs 0 0 5 \<le> 1"
proof -
  have "brange 0 5 = {0}" using brange_one [of 0 5] by (simp add: BSIZE_def)
  then show ?thesis using card_mono [of "{0 :: nat}"] by (simp add: need_def card_Diff_subset_Int)
qed

lemma content_empty: "content small_fs 0 = []"
  by (simp add: content_def)

lemma zeros2: "replicate 2 x = [x, x]"
  by (simp add: numeral_2_eq_2)

theorem writei_content_witness:
  "file_inv small_fs 0 {#} \<and> dense small_fs 0 \<and>
   (\<exists>s'. writei small_fs 0 2 [7, 8, 9] = Some (3, s') \<and> content s' 0 = [0, 0, 7, 8, 9])"
proof -
  have "3 * need small_fs 0 (min 0 (unat (2 :: u32))) (unat (2 :: u32) - 0 + length [7, 8, 9 :: u8]) \<le> nfree small_fs"
    using small_fs_need small_fs_inv(3) by simp
  from writei_content [OF small_fs_inv(1) _ small_fs_inv(2) _ _ _ this] show ?thesis
    using small_fs_inv by (auto simp: NBUF_def MAXFILE_def BSIZE_def NDIRECT_def content_empty overwrite_def zeros2)
qed

text \<open>
  Property C24 (round trip). What \<open>writei\<close> has written, \<open>readi\<close> reads back: after a
  write of \<open>bs\<close> at an offset, reading \<open>length bs\<close> bytes at that offset returns
  \<open>bs\<close>, and reading does not change the disk.
\<close>

theorem writei_readi_round_trip:
  assumes "file_inv s ip H" and "size H + 1 < NBUF" and "dense s ip" and "bs \<noteq> []"
    and "unat off + length bs \<le> MAXFILE * BSIZE" and "z = unat (i_size (icache s ip))"
    and "3 * need s ip (min z (unat off)) (unat off - z + length bs) \<le> nfree s"
  shows "\<exists>s' s''. writei s ip off bs = Some (int (length bs), s') \<and>
    readi s' ip DLocal off (of_nat (length bs)) = Some (bs, s'') \<and> disk_blocks s'' = disk_blocks s'"
proof -
  obtain s' where w: "writei s ip off bs = Some (int (length bs), s')"
    "file_wrote s ip H (min z (unat off)) (replicate (unat off - z) 0 @ bs) s'"
    using writei_ok [OF assms] by blast
  have len: "unat off + length bs < 2 ^ 32" using assms(5) by (simp add: kdefs)
  have "content s' ip = overwrite (content s ip @ replicate (unat off - z) 0) (unat off) bs"
    using w(2) assms(6) overwrite_pad [of z "content s ip" "unat off" bs] by (simp add: file_wrote_def)
  then have "take (length bs) (drop (unat off) (content s' ip)) = bs"
    using assms(6) by (simp add: overwrite_def)
  moreover have "unat (off + of_nat (length bs)) = unat off + length bs"
    using len by (intro unat_add_small) simp
  then have "\<not> off + of_nat (length bs) < off" by (simp add: word_less_nat_alt)
  moreover have "unat (of_nat (length bs) :: u32) = length bs" using len by (simp add: unat_of_nat take_bit_nat_eq_self)
  ultimately show ?thesis
    using w readi_content [of s' ip H off "of_nat (length bs)"] assms(2) by (auto simp: file_wrote_def)
qed

theorem writei_readi_round_trip_witness:
  "file_inv small_fs 0 {#} \<and> dense small_fs 0 \<and>
   (\<exists>s' s''. writei small_fs 0 2 [7, 8, 9] = Some (3, s') \<and> readi s' 0 DLocal 2 3 = Some ([7, 8, 9], s''))"
proof -
  have "3 * need small_fs 0 (min 0 (unat (2 :: u32))) (unat (2 :: u32) - 0 + length [7, 8, 9 :: u8]) \<le> nfree small_fs"
    using small_fs_need small_fs_inv(3) by simp
  from writei_readi_round_trip [OF small_fs_inv(1) _ small_fs_inv(2) _ _ _ this] show ?thesis
    using small_fs_inv by (auto simp: NBUF_def MAXFILE_def BSIZE_def NDIRECT_def)
qed

text \<open>
  Property C25 (round trip). What \<open>iupdate\<close> writes of an inode, \<open>ilock\<close> loads again:
  when a cache slot for the same inode number has lost its contents, \<open>ilock\<close> restores
  the type, device numbers, link count, size and block addresses the inode had.
\<close>

theorem iupdate_ilock_round_trip:
  assumes "file_inv s ip H" and "size H < NBUF" and "i_type (icache s ip) \<noteq> 0"
    and "i_dev j = i_dev (icache s ip)" and "i_inum j = i_inum (icache s ip)" and "\<not> i_valid j"
  shows "\<exists>s' s''. iupdate ip s = Some s' \<and> ilock ip (upd_inode ip (\<lambda>_. j) s') = Some s'' \<and>
    icache s'' ip = (icache s ip)\<lparr>i_ref := i_ref j, i_valid := True\<rparr> \<and> disk_blocks s'' = disk_blocks s'"
proof -
  obtain s' where u: "iupdate ip s = Some s'" "file_inv s' ip H" "blk_rest s' = blk_rest s"
    "disk_blocks s' = (disk_blocks s)(iblk s ip :=
      put_dinode (disk_blocks s (iblk s ip)) (i_inum (icache s ip)) (dinode_of (icache s ip)))"
    using iupdate_ok [OF assms(1,2)] by blast
  let ?t = "upd_inode ip (\<lambda>_. j) s'"
  have d: "dinode_at (disk_blocks s' (iblk s ip)) (i_inum (icache s ip)) = dinode_of (icache s ip)"
    using dinode_at_put(1) [OF bc.block_length [OF file_invD(2) [OF assms(1)]], of "dinode_of (icache s ip)"]
      file_len [OF assms(1)] by (simp add: u(4) dinode_of_def)
  have "alloc_inv ?t H" using file_invD(1) [OF u(2)] by (simp add: alloc_inv_def bc_inv_def upd_inode_def)
  then obtain bp s2 where r: "bread ?t ROOTDEV (iblk s ip) = Some (bp, s2)"
    "bdata s2 bp = disk_blocks ?t (iblk s ip)" "disk_blocks s2 = disk_blocks ?t" "blk_rest s2 = blk_rest ?t"
    using alloc_read [of ?t H "iblk s ip"] assms(2) by blast
  have t: "disk_blocks ?t = disk_blocks s'" "icache ?t = (icache s')(ip := j)" "sb ?t = sb s" "i_dev j = ROOTDEV"
    using blk_rest_sb [OF u(3)] file_invD(4) [OF assms(1)] assms(4) by (simp_all add: upd_inode_def)
  have ic: "icache s2 = (icache s')(ip := j)" using blk_rest_fs(1) [OF r(4)] t(2) by simp
  show ?thesis
    using u(1) r d t ic assms(3-6) by (simp add: ilock_def Let_def iblk_def upd_inode_def brelse_def dinode_of_def)
qed

theorem iupdate_ilock_round_trip_witness:
  "file_inv small_fs 0 {#} \<and> (\<exists>s' s''. iupdate 0 small_fs = Some s' \<and>
     ilock 0 (upd_inode 0 (\<lambda>_. (icache small_fs 0)\<lparr>i_valid := False, i_size := 9\<rparr>) s') = Some s'' \<and>
     i_size (icache s'' 0) = 0 \<and> i_type (icache s'' 0) = T_FILE)"
proof -
  have "i_type (icache small_fs 0) = T_FILE" by (simp add: small_fs_def blk_st.defs)
  then show ?thesis
    using iupdate_ilock_round_trip [OF small_fs_inv(1), of "(icache small_fs 0)\<lparr>i_valid := False, i_size := 9\<rparr>"]
      small_fs_inv(1) by (auto simp: NBUF_def T_FILE_def)
qed

end
