(* ===== verification/Sched.thy ===== *)
theory Sched
  imports Spinlock Vm
begin

text \<open>
  Processes and the scheduler: \<open>kernel/proc/proc.c\<close> with \<open>sleep\<close> of
  \<open>kernel/syscall/sysproc.c\<close>. A context switch splits a routine in two: the part up
  to \<open>swtch\<close> (suffix \<open>_out\<close>) and the part that runs when the process is
  switched in again (suffix \<open>_in\<close>); where a process resumes, which the code keeps in
  \<open>p->context\<close>, is a value of \<open>kcont\<close>. The interleavings of the
  scheduler with processes that yield, sleep, wake others, fork and exit are the step
  relation \<open>sched_step\<close>.
\<close>

section \<open>Process table\<close>

definition upd_proc :: "nat \<Rightarrow> (proc_rec \<Rightarrow> proc_rec) \<Rightarrow> 'a proc_st_scheme \<Rightarrow> 'a proc_st_scheme" where
  "upd_proc i f s = s\<lparr>procs := (procs s)(i := f (procs s i))\<rparr>"

definition set_cproc :: "nat option \<Rightarrow> 'a proc_st_scheme \<Rightarrow> 'a proc_st_scheme" where
  "set_cproc p s = s\<lparr>cpu := (cpu s)\<lparr>cproc := p\<rparr>\<rparr>"

definition allocpid :: "'a proc_st_scheme \<Rightarrow> int \<times> 'a proc_st_scheme" where
  "allocpid s = (nextpid s, s\<lparr>nextpid := nextpid s + 1\<rparr>)"

definition procinit :: "'a proc_st_scheme \<Rightarrow> 'a proc_st_scheme" where
  "procinit s = fold (\<lambda>i s. initlock (LProc i) (upd_proc i (\<lambda>p. p\<lparr>status := TASK_FREE\<rparr>) s)) [0..<NPROC] s"

text \<open>After the label \<open>found\<close>: the slot's lock is held.\<close>

definition allocproc_found :: "nat \<Rightarrow> 'a proc_st_scheme \<Rightarrow> nat option \<times> 'a proc_st_scheme" where
  "allocproc_found i s =
     (let (n, s) = allocpid s;
          s = upd_proc i (\<lambda>p. p\<lparr>pid := n, killed := False, xstate := 0, chan := CNull, parent := None,
                pname := [], psz := 0\<rparr>) s;
          (tf, s) = kalloc s;
          s = upd_proc i (\<lambda>p. p\<lparr>trapframe := tf\<rparr>) s
      in if tf = 0
         then (None, release (LProc i) (upd_proc i (\<lambda>p. p\<lparr>status := TASK_FREE\<rparr>) s))
         else (Some i, release (LProc i) (upd_proc i (\<lambda>p. p\<lparr>status := TASK_ALLOCATED\<rparr>) s)))"

fun allocproc_loop :: "nat list \<Rightarrow> 'a proc_st_scheme \<Rightarrow> (nat option \<times> 'a proc_st_scheme) option" where
  "allocproc_loop [] s = Some (None, s)"
| "allocproc_loop (i # is) s =
     do { s \<leftarrow> acquire (LProc i) s;
          if status (procs s i) = TASK_FREE then Some (allocproc_found i s)
          else allocproc_loop is (release (LProc i) s) }"

definition allocproc :: "'a proc_st_scheme \<Rightarrow> (nat option \<times> 'a proc_st_scheme) option" where
  "allocproc s = allocproc_loop [0..<NPROC] s"

section \<open>Switching\<close>

text \<open>The checks of \<open>sched\<close>; its result is the state at \<open>swtch\<close>.\<close>

definition sched :: "'a proc_st_scheme \<Rightarrow> 'a proc_st_scheme option" where
  "sched s =
     do { p \<leftarrow> myproc s;
          if \<not> holding (LProc p) s then None                     \<comment> \<open>panic: sched p->lock\<close>
          else if noff (cpu s) \<noteq> 1 then None                     \<comment> \<open>panic: sched locks\<close>
          else if status (procs s p) = TASK_RUNNING then None    \<comment> \<open>panic: sched running\<close>
          else if intr_get s then None                           \<comment> \<open>panic: sched interruptible\<close>
          else Some s }"

definition yield_out :: "'a proc_st_scheme \<Rightarrow> 'a proc_st_scheme option" where
  "yield_out s =
     do { p \<leftarrow> myproc s;
          s \<leftarrow> acquire (LProc p) s;
          sched (upd_proc p (\<lambda>x. x\<lparr>status := TASK_READY\<rparr>) s) }"

definition yield_in :: "nat \<Rightarrow> 'a proc_st_scheme \<Rightarrow> 'a proc_st_scheme" where
  "yield_in p s = release (LProc p) s"

text \<open>The part of \<open>forkret\<close> before \<open>usertrapret\<close>.\<close>

definition forkret_in :: "'a proc_st_scheme \<Rightarrow> 'a proc_st_scheme option" where
  "forkret_in s = do { p \<leftarrow> myproc s; Some (release (LProc p) s) }"

definition sleep_out :: "chan \<Rightarrow> lockid \<Rightarrow> 'a proc_st_scheme \<Rightarrow> 'a proc_st_scheme option" where
  "sleep_out ch lk s =
     do { p \<leftarrow> myproc s;
          s \<leftarrow> (if lk \<noteq> LProc p
                then do { s \<leftarrow> acquire (LProc p) s; Some (release lk s) }
                else Some s);
          sched (upd_proc p (\<lambda>x. x\<lparr>status := TASK_SLEEPING, chan := ch\<rparr>) s) }"

definition sleep_in :: "nat \<Rightarrow> lockid \<Rightarrow> 'a proc_st_scheme \<Rightarrow> 'a proc_st_scheme option" where
  "sleep_in p lk s =
     (let s = upd_proc p (\<lambda>x. x\<lparr>chan := CNull\<rparr>) s in
      if lk \<noteq> LProc p then acquire lk (release (LProc p) s) else Some s)"

definition wakeup_one :: "chan \<Rightarrow> nat \<Rightarrow> 'a proc_st_scheme \<Rightarrow> 'a proc_st_scheme option" where
  "wakeup_one ch i s =
     (if Some i \<noteq> myproc s
      then do { s \<leftarrow> acquire (LProc i) s;
                let s = (if status (procs s i) = TASK_SLEEPING \<and> chan (procs s i) = ch
                         then upd_proc i (\<lambda>x. x\<lparr>status := TASK_READY\<rparr>) s else s);
                Some (release (LProc i) s) }
      else Some s)"

definition wakeup :: "chan \<Rightarrow> 'a proc_st_scheme \<Rightarrow> 'a proc_st_scheme option" where
  "wakeup ch s = for_each (wakeup_one ch) [0..<NPROC] s"

text \<open>
  One iteration of the inner loop of \<open>scheduler\<close>, cut at \<open>swtch\<close>: whether a
  process was picked, and what happens when it has switched back.
\<close>

definition scheduler_pick :: "nat \<Rightarrow> 'a proc_st_scheme \<Rightarrow> (bool \<times> 'a proc_st_scheme) option" where
  "scheduler_pick i s =
     do { s \<leftarrow> acquire (LProc i) s;
          if status (procs s i) = TASK_READY
          then Some (True, set_cproc (Some i) (upd_proc i (\<lambda>x. x\<lparr>status := TASK_RUNNING\<rparr>) s))
          else Some (False, release (LProc i) s) }"

definition scheduler_back :: "nat \<Rightarrow> 'a proc_st_scheme \<Rightarrow> 'a proc_st_scheme" where
  "scheduler_back i s = release (LProc i) (set_cproc None s)"

text \<open>The inner loop from slot \<open>i\<close> on, up to the first process it switches to.\<close>

fun scheduler_pass :: "nat list \<Rightarrow> 'a proc_st_scheme \<Rightarrow> (nat option \<times> 'a proc_st_scheme) option" where
  "scheduler_pass [] s = Some (None, s)"
| "scheduler_pass (i # is) s =
     do { (picked, s) \<leftarrow> scheduler_pick i s;
          if picked then Some (Some i, s) else scheduler_pass is s }"

definition growproc :: "int \<Rightarrow> 'a proc_st_scheme \<Rightarrow> (int \<times> 'a proc_st_scheme) option" where
  "growproc n s =
     do { p \<leftarrow> myproc s;
          let sz = psz (procs s p);
          let pt = pagetable (procs s p);
          if 0 < n
          then do { (sz', s) \<leftarrow> uvmalloc s pt sz (sz + of_int n);
                    if sz' = 0 then Some (-1, s)
                    else Some (0, upd_proc p (\<lambda>x. x\<lparr>psz := sz'\<rparr>) s) }
          else if n < 0
          then do { (sz', s) \<leftarrow> uvmdealloc s pt sz (sz + of_int n);
                    Some (0, upd_proc p (\<lambda>x. x\<lparr>psz := sz'\<rparr>) s) }
          else Some (0, upd_proc p (\<lambda>x. x\<lparr>psz := sz\<rparr>) s) }"

section \<open>Interleavings\<close>

datatype kcont = KFork | KYield | KSleep lockid

text \<open>What a process does first when it is switched to; a sleeper's caller then releases
  the lock it slept with.\<close>

definition resume_at :: "nat \<Rightarrow> kcont \<Rightarrow> 'a proc_st_scheme \<Rightarrow> 'a proc_st_scheme option" where
  "resume_at p k s =
     (case k of
        KFork \<Rightarrow> forkret_in s
      | KYield \<Rightarrow> Some (yield_in p s)
      | KSleep lk \<Rightarrow> do { s \<leftarrow> sleep_in p lk s; Some (release lk s) })"

text \<open>The beginning and the end of \<open>proc_exit\<close>; between them it closes the files.\<close>

definition exit_mark :: "u32 \<Rightarrow> 'a proc_st_scheme \<Rightarrow> 'a proc_st_scheme option" where
  "exit_mark code s =
     do { p \<leftarrow> myproc s; Some (upd_proc p (\<lambda>x. x\<lparr>xstate := code, status := TASK_ZOMBIE\<rparr>) s) }"

definition exit_tail :: "'a proc_st_scheme \<Rightarrow> 'a proc_st_scheme option" where
  "exit_tail s =
     do { p \<leftarrow> myproc s;
          s \<leftarrow> wakeup (case parent (procs s p) of Some q \<Rightarrow> CProc q | None \<Rightarrow> CNull) s;
          s \<leftarrow> acquire (LProc p) s;
          sched s }"

text \<open>
  Where the hart is, and how far a process is from its end: it has not called \<open>proc_exit\<close>, it is in
  it, or it has slept in it.
\<close>

datatype ctl = InSched nat | InProc nat

datatype life = Alive | Exiting | Overslept

type_synonym 'a sys = "ctl \<times> (nat \<Rightarrow> kcont) \<times> (nat \<Rightarrow> life) \<times> 'a proc_st_scheme"

fun oversleep :: "life \<Rightarrow> life" where
  "oversleep Alive = Alive"
| "oversleep _ = Overslept"

text \<open>
  Steps: the scheduler starts a new round (enabling interrupts), skips a slot, or switches
  to a process, which runs its resume code; the running process yields (as the trap handlers do, only
  when it is marked \<open>RUNNING\<close>), takes a lock and sleeps with it, wakes a channel, makes an allocated
  slot ready, frees the slot of a zombie, begins to exit, or ends; interrupts may be enabled or disabled by the
  running process. A step is a call from code that holds no spinlock.
\<close>

inductive sched_step :: "'a sys \<Rightarrow> 'a sys \<Rightarrow> bool" where
  round: "sched_step (InSched NPROC, k, X, s) (InSched 0, k, X, intr_on s)"
| skip: "i < NPROC \<Longrightarrow> scheduler_pick i s = Some (False, s') \<Longrightarrow>
    sched_step (InSched i, k, X, s) (InSched (Suc i), k, X, s')"
| switch: "i < NPROC \<Longrightarrow> scheduler_pick i s = Some (True, s1) \<Longrightarrow> resume_at i (k i) s1 = Some s' \<Longrightarrow>
    sched_step (InSched i, k, X, s) (InProc i, k, X, s')"
| yield: "status (procs s i) = TASK_RUNNING \<Longrightarrow> yield_out s = Some s' \<Longrightarrow>
    sched_step (InProc i, k, X, s) (InSched (Suc i), k(i := KYield), X, scheduler_back i s')"
| sleep: "lk = LProc i \<or> (\<forall>j. lk \<noteq> LProc j) \<Longrightarrow> acquire lk s = Some s1 \<Longrightarrow> sleep_out ch lk s1 = Some s' \<Longrightarrow>
    sched_step (InProc i, k, X, s) (InSched (Suc i), k(i := KSleep lk), X(i := oversleep (X i)), scheduler_back i s')"
| wake: "wakeup ch s = Some s' \<Longrightarrow> sched_step (InProc i, k, X, s) (InProc i, k, X, s')"
| exit: "X i = Alive \<Longrightarrow> exit_mark code s = Some s' \<Longrightarrow>
    sched_step (InProc i, k, X, s) (InProc i, k, X(i := Exiting), s')"
| leave: "X i \<noteq> Alive \<Longrightarrow> exit_tail s = Some s' \<Longrightarrow>
    sched_step (InProc i, k, X, s) (InSched (Suc i), k, X, scheduler_back i s')"
| reap: "j \<noteq> i \<Longrightarrow> status (procs s j) = TASK_ZOMBIE \<Longrightarrow> acquire (LProc j) s = Some s1 \<Longrightarrow>
    s' = release (LProc j) (upd_proc j (\<lambda>x. x\<lparr>status := TASK_FREE\<rparr>) s1) \<Longrightarrow>
    sched_step (InProc i, k, X, s) (InProc i, k, X, s')"
| fork: "allocproc s = Some (Some j, s1) \<Longrightarrow> acquire (LProc j) s1 = Some s2 \<Longrightarrow>
    s' = release (LProc j) (upd_proc j (\<lambda>x. x\<lparr>status := TASK_READY\<rparr>) s2) \<Longrightarrow>
    sched_step (InProc i, k, X, s) (InProc i, k(j := KFork), X(j := Alive), s')"
| intr: "sched_step (InProc i, k, X, s) (InProc i, k, X, s\<lparr>sie := b\<rparr>)"

inductive_cases sched_stepE: "sched_step x y"

section \<open>Lemmas\<close>

lemma upd_proc_simps [simp]:
  "procs (upd_proc i f s) = (procs s)(i := f (procs s i))" "cpu (upd_proc i f s) = cpu s"
  "locks (upd_proc i f s) = locks s" "sie (upd_proc i f s) = sie s" "myproc (upd_proc i f s) = myproc s"
  "holds (upd_proc i f s) = holds s" "pmem (upd_proc i f s) = pmem s"
  by (simp_all add: upd_proc_def myproc_def holds_def fun_eq_iff)

lemma set_cproc_simps [simp]:
  "procs (set_cproc p s) = procs s" "cproc (cpu (set_cproc p s)) = p" "myproc (set_cproc p s) = p"
  "holds (set_cproc p s) = holds s"
  by (simp_all add: set_cproc_def myproc_def holds_def fun_eq_iff)

lemma holds_intr: "holds s {} ie \<Longrightarrow> holds (s\<lparr>sie := b\<rparr>) {} b"
  by (simp add: holds_def)

text \<open>
  A short critical section: with the locks of \<open>L\<close> held, taking and releasing another
  lock around an update succeeds and restores the lock state.
\<close>

lemma with_lock:
  assumes "holds s L ie" and "lk \<notin> L"
  obtains s' where "acquire lk s = Some s'" and "holds s' (insert lk L) ie" and "procs s' = procs s"
    and "myproc s' = myproc s"
  using holds_acquire [OF assms] by (auto simp: myproc_def)

lemma after_release:
  assumes "holds s (insert lk L) ie" and "lk \<notin> L"
  shows "holds (release lk s) L ie" and "procs (release lk s) = procs s" and "myproc (release lk s) = myproc s"
  using holds_release [OF assms(1), of lk] assms(2) by (simp_all add: myproc_def)

lemma sched_ok:
  assumes "holds s {LProc p} ie" and "myproc s = Some p" and "status (procs s p) \<noteq> TASK_RUNNING"
  shows "sched s = Some s"
  using assms by (simp add: sched_def holds_def holding_def intr_get_def)

definition wake :: "nat option \<Rightarrow> chan \<Rightarrow> nat \<Rightarrow> proc_rec \<Rightarrow> proc_rec" where
  "wake me ch i x =
     (if Some i \<noteq> me \<and> i < NPROC \<and> status x = TASK_SLEEPING \<and> chan x = ch then x\<lparr>status := TASK_READY\<rparr> else x)"

lemma wakeup_one_ok:
  assumes "holds s L ie" and "\<forall>j. LProc j \<in> L \<longrightarrow> myproc s = Some j" and "i < NPROC"
  shows "\<exists>s'. wakeup_one ch i s = Some s' \<and> holds s' L ie \<and> myproc s' = myproc s \<and>
    procs s' = (procs s)(i := wake (myproc s) ch i (procs s i))"
proof (cases "Some i = myproc s")
  case True
  then show ?thesis using assms by (auto simp: wakeup_one_def wake_def)
next
  case False
  then have n: "LProc i \<notin> L" using assms(2) by auto
  obtain s1 where 1: "acquire (LProc i) s = Some s1" "holds s1 (insert (LProc i) L) ie" "procs s1 = procs s"
    "myproc s1 = myproc s" by (rule with_lock [OF assms(1) n])
  define s2 where "s2 = (if status (procs s i) = TASK_SLEEPING \<and> chan (procs s i) = ch
     then upd_proc i (\<lambda>x. x\<lparr>status := TASK_READY\<rparr>) s1 else s1)"
  have 2: "holds s2 (insert (LProc i) L) ie" "myproc s2 = myproc s"
    "procs s2 = (procs s)(i := wake (myproc s) ch i (procs s i))"
    using 1 False assms(3) by (auto simp: s2_def wake_def)
  then show ?thesis
    using after_release [OF 2(1) n] 1(1,3) False by (simp add: wakeup_one_def s2_def Let_def)
qed

lemma wakeup_ok:
  assumes "holds s L ie" and "\<forall>j. LProc j \<in> L \<longrightarrow> myproc s = Some j"
  shows "\<exists>s'. wakeup ch s = Some s' \<and> holds s' L ie \<and> myproc s' = myproc s \<and>
    procs s' = (\<lambda>i. wake (myproc s) ch i (procs s i))"
proof -
  have "\<exists>s'. for_each (wakeup_one ch) [0..<n] s = Some s' \<and> holds s' L ie \<and> myproc s' = myproc s \<and>
     procs s' = (\<lambda>i. if i < n then wake (myproc s) ch i (procs s i) else procs s i)" if "n \<le> NPROC" for n
    using that
  proof (induction n)
    case 0
    then show ?case using assms by auto
  next
    case (Suc n)
    then obtain s1 where 1: "for_each (wakeup_one ch) [0..<n] s = Some s1" "holds s1 L ie" "myproc s1 = myproc s"
      "procs s1 = (\<lambda>i. if i < n then wake (myproc s) ch i (procs s i) else procs s i)" by auto
    have "\<forall>j. LProc j \<in> L \<longrightarrow> myproc s1 = Some j" using assms(2) 1(3) by simp
    from wakeup_one_ok [OF 1(2) this, of n ch] Suc.prems obtain s2 where
      2: "wakeup_one ch n s1 = Some s2" "holds s2 L ie" "myproc s2 = myproc s"
        "procs s2 = (procs s1)(n := wake (myproc s) ch n (procs s1 n))" using 1(3) by auto
    then show ?case using 1(1,4) by (auto simp: for_each_append fun_eq_iff less_Suc_eq)
  qed
  from this [of NPROC] show ?thesis by (auto simp: wakeup_def wake_def fun_eq_iff)
qed

text \<open>\<open>calm s p\<close>: no lock is held, \<open>p\<close> is the CPU's process and the only one that may be
  marked running.\<close>

definition calm :: "'a proc_st_scheme \<Rightarrow> nat option \<Rightarrow> bool" where
  "calm s p \<longleftrightarrow> (\<exists>ie. holds s {} ie) \<and> myproc s = p \<and>
     (\<forall>j. status (procs s j) = TASK_RUNNING \<longleftrightarrow> p = Some j)"

lemma calm_running: "calm s p \<Longrightarrow> status (procs s j) = TASK_RUNNING \<longleftrightarrow> p = Some j"
  by (simp add: calm_def)

lemma scheduler_pick_ok:
  assumes "calm s None"
  shows "if status (procs s i) = TASK_READY
    then \<exists>s'. scheduler_pick i s = Some (True, s') \<and> (\<exists>ie. holds s' {LProc i} ie) \<and> myproc s' = Some i \<and>
      procs s' = (procs s)(i := (procs s i)\<lparr>status := TASK_RUNNING\<rparr>)
    else \<exists>s'. scheduler_pick i s = Some (False, s') \<and> calm s' None \<and> procs s' = procs s"
proof -
  obtain ie where h: "holds s {} ie" using assms by (auto simp: calm_def)
  obtain s1 where 1: "acquire (LProc i) s = Some s1" "holds s1 {LProc i} ie" "procs s1 = procs s" "myproc s1 = None"
    using with_lock [OF h, of "LProc i"] assms by (auto simp: calm_def)
  show ?thesis using 1 assms after_release [of s1 "LProc i" "{}" ie] by (auto simp: scheduler_pick_def calm_def)
qed

lemma resume_ok:
  assumes h: "holds s {LProc i} ie" and p: "myproc s = Some i"
    and st: "\<forall>j. status (procs s j) = TASK_RUNNING \<longleftrightarrow> j = i"
    and k: "\<forall>lk. k = KSleep lk \<longrightarrow> lk = LProc i \<or> (\<forall>j. lk \<noteq> LProc j)"
  shows "\<exists>s'. resume_at i k s = Some s' \<and> calm s' (Some i) \<and> (\<forall>j. j \<noteq> i \<longrightarrow> procs s' j = procs s j)"
proof -
  note r = after_release [of _ _ "{}" ie, simplified]
  show ?thesis
  proof (cases k)
    case (KSleep lk)
    let ?s = "upd_proc i (\<lambda>x. x\<lparr>chan := CNull\<rparr>) s"
    have h': "holds ?s {LProc i} ie" using h by simp
    show ?thesis
    proof (cases "lk = LProc i")
      case True
      then show ?thesis using KSleep r [OF h'] p st by (auto simp: resume_at_def sleep_in_def calm_def)
    next
      case False
      obtain s1 where 1: "acquire lk (release (LProc i) ?s) = Some s1" "holds s1 {lk} ie"
        "procs s1 = procs (release (LProc i) ?s)" "myproc s1 = myproc (release (LProc i) ?s)"
        using with_lock [OF r(1) [OF h'], of lk] by auto
      then show ?thesis using KSleep False r [OF h'] r [OF 1(2)] p st
        by (auto simp: resume_at_def sleep_in_def calm_def)
    qed
  qed (use r [OF h] p st in \<open>auto simp: resume_at_def forkret_in_def yield_in_def calm_def\<close>)
qed

lemma scheduler_back_ok:
  assumes "holds s {LProc i} ie" and "\<forall>j. status (procs s j) \<noteq> TASK_RUNNING"
  shows "calm (scheduler_back i s) None" and "procs (scheduler_back i s) = procs s"
  using assms after_release [of "set_cproc None s" "LProc i" "{}" ie] by (auto simp: scheduler_back_def calm_def)

text \<open>The three ways to leave the CPU never trip the checks of \<open>sched\<close>.\<close>

lemma yield_out_ok:
  assumes h: "holds s {} ie" and "myproc s = Some i"
  shows "\<exists>s'. yield_out s = Some s' \<and> (\<exists>ie. holds s' {LProc i} ie) \<and> myproc s' = Some i \<and>
    procs s' = (procs s)(i := (procs s i)\<lparr>status := TASK_READY\<rparr>)"
proof -
  obtain s1 where 1: "acquire (LProc i) s = Some s1" "holds s1 {LProc i} ie" "procs s1 = procs s" "myproc s1 = Some i"
    using with_lock [OF h, of "LProc i"] assms(2) by auto
  then show ?thesis using assms(2) sched_ok [of "upd_proc i (\<lambda>x. x\<lparr>status := TASK_READY\<rparr>) s1" i ie]
    by (auto simp: yield_out_def)
qed

lemma sleep_out_held:
  assumes h: "holds s1 {lk} ie" and p: "myproc s1 = Some i" and lk: "lk = LProc i \<or> (\<forall>j. lk \<noteq> LProc j)"
  shows "\<exists>s'. sleep_out ch lk s1 = Some s' \<and> holds s' {LProc i} ie \<and> myproc s' = Some i \<and>
    procs s' = (procs s1)(i := (procs s1 i)\<lparr>status := TASK_SLEEPING, chan := ch\<rparr>)"
proof -
  let ?f = "\<lambda>x. x\<lparr>status := TASK_SLEEPING, chan := ch\<rparr>"
  show ?thesis
  proof (cases "lk = LProc i")
    case True
    then show ?thesis using h p sched_ok [of "upd_proc i ?f s1" i ie] by (auto simp: sleep_out_def)
  next
    case False
    obtain s2 where 2: "acquire (LProc i) s1 = Some s2" "holds s2 {LProc i, lk} ie" "procs s2 = procs s1" "myproc s2 = Some i"
      using with_lock [OF h, of "LProc i"] p False by auto
    have "holds s2 (insert lk {LProc i}) ie" using 2(2) by (simp add: insert_commute)
    note 3 = after_release [OF this]
    have "sched (upd_proc i ?f (release lk s2)) = Some (upd_proc i ?f (release lk s2))"
      using 3 2 False by (intro sched_ok [of _ i ie]) auto
    then show ?thesis using p 2 3 False by (auto simp: sleep_out_def)
  qed
qed

lemma sleep_out_ok:
  assumes h: "holds s {} ie" and p: "myproc s = Some i" and lk: "lk = LProc i \<or> (\<forall>j. lk \<noteq> LProc j)"
  shows "\<exists>s1 s'. acquire lk s = Some s1 \<and> sleep_out ch lk s1 = Some s' \<and> (\<exists>ie. holds s' {LProc i} ie) \<and>
    myproc s' = Some i \<and> procs s' = (procs s)(i := (procs s i)\<lparr>status := TASK_SLEEPING, chan := ch\<rparr>)"
proof -
  obtain s1 where 1: "acquire lk s = Some s1" "holds s1 {lk} ie" "procs s1 = procs s" "myproc s1 = Some i"
    using with_lock [OF h, of lk] p by auto
  show ?thesis using sleep_out_held [OF 1(2,4) lk, of ch] 1(1,3) by auto
qed

lemma wake_running: "status (wake me ch i x) = TASK_RUNNING \<longleftrightarrow> status x = TASK_RUNNING"
  by (simp add: wake_def)

text \<open>The end of an exit passes the checks exactly if the process is not marked running.\<close>

lemma exit_tail_ok:
  assumes h: "holds s {} ie" and p: "myproc s = Some i"
  shows "if status (procs s i) = TASK_RUNNING then exit_tail s = None
    else \<exists>s' x. exit_tail s = Some s' \<and> holds s' {LProc i} ie \<and> myproc s' = Some i \<and>
      procs s' = (\<lambda>j. wake (Some i) x j (procs s j))"
proof -
  let ?c = "case parent (procs s i) of Some q \<Rightarrow> CProc q | None \<Rightarrow> CNull"
  obtain s1 where 1: "wakeup ?c s = Some s1" "holds s1 {} ie" "myproc s1 = Some i"
    "procs s1 = (\<lambda>j. wake (Some i) ?c j (procs s j))"
    using wakeup_ok [of s "{}" ie ?c] h p by auto
  obtain s2 where 2: "acquire (LProc i) s1 = Some s2" "holds s2 {LProc i} ie" "procs s2 = procs s1" "myproc s2 = Some i"
    using with_lock [OF 1(2), of "LProc i"] 1(3) by auto
  have st: "status (procs s2 i) = status (procs s i)" by (simp add: 2(3) 1(4) wake_def)
  have t: "exit_tail s = sched s2" using p 1(1) 2(1) by (simp add: exit_tail_def)
  show ?thesis
  proof (cases "status (procs s i) = TASK_RUNNING")
    case True
    then show ?thesis using 2(4) st by (simp add: t sched_def)
  next
    case False
    then have "sched s2 = Some s2" using sched_ok [OF 2(2,4)] st by simp
    then show ?thesis using False 1(4) 2 t by auto
  qed
qed

lemma kalloc_proc [simp]:
  "procs (snd (kalloc s)) = procs s" "myproc (snd (kalloc s)) = myproc s" "holds (snd (kalloc s)) = holds s"
  by (simp_all add: kalloc_def myproc_def holds_def fun_eq_iff)

lemma allocpid_proc [simp]:
  "procs (snd (allocpid s)) = procs s" "myproc (snd (allocpid s)) = myproc s" "holds (snd (allocpid s)) = holds s"
  "fst (allocpid s) = nextpid s"
  by (simp_all add: allocpid_def myproc_def holds_def fun_eq_iff)

lemma nextpid_lock: "nextpid (release lk s) = nextpid s" "acquire lk s = Some s' \<Longrightarrow> nextpid s' = nextpid s"
  by (auto simp: lock_defs Let_def)

lemma kalloc_cong:
  assumes "pmem t = pmem s" and "free_mem_list t = free_mem_list s"
  shows "fst (kalloc t) = free_mem_list s" and "pmem (snd (kalloc t)) = pmem s"
    and "free_mem_list (snd (kalloc t)) = (if free_mem_list s = 0 then 0 else load64 (pmem s) (free_mem_list s))"
  using assms by (simp_all add: kalloc_def)

lemma lock_pages: "pmem (release lk s) = pmem s" "free_mem_list (release lk s) = free_mem_list s"
  "acquire lk s = Some s' \<Longrightarrow> pmem s' = pmem s \<and> free_mem_list s' = free_mem_list s"
  by (auto simp: lock_defs Let_def)

text \<open>What \<open>allocproc\<close> makes of a free slot.\<close>

definition new_proc :: "int \<Rightarrow> u64 \<Rightarrow> proc_rec \<Rightarrow> proc_rec" where
  "new_proc n tf x = x\<lparr>pid := n, killed := False, xstate := 0, chan := CNull, parent := None, pname := [], psz := 0,
     trapframe := tf, status := (if tf = 0 then TASK_FREE else TASK_ALLOCATED)\<rparr>"

lemma allocproc_found_ok:
  assumes "holds s {LProc i} ie"
  shows "\<exists>s'. allocproc_found i s = (if free_mem_list s = 0 then None else Some i, s') \<and> holds s' {} ie \<and> myproc s' = myproc s \<and>
    procs s' = (procs s)(i := new_proc (nextpid s) (free_mem_list s) (procs s i)) \<and> nextpid s' = nextpid s + 1 \<and>
    pmem s' = pmem s \<and> free_mem_list s' = (if free_mem_list s = 0 then 0 else load64 (pmem s) (free_mem_list s))"
proof -
  note r = after_release [of _ "LProc i" "{}" ie, simplified]
  define s1 where "s1 = upd_proc i (\<lambda>p. p\<lparr>pid := nextpid s, killed := False, xstate := 0, chan := CNull,
     parent := None, pname := [], psz := 0\<rparr>) (snd (allocpid s))"
  define s2 where "s2 = upd_proc i (\<lambda>p. p\<lparr>trapframe := fst (kalloc s1)\<rparr>) (snd (kalloc s1))"
  define s3 where "s3 = upd_proc i (\<lambda>p. p\<lparr>status := (if fst (kalloc s1) = 0 then TASK_FREE else TASK_ALLOCATED)\<rparr>) s2"
  have m: "pmem s1 = pmem s" "free_mem_list s1 = free_mem_list s" "nextpid s1 = nextpid s + 1"
    by (simp_all add: s1_def upd_proc_def allocpid_def)
  note k = kalloc_cong [OF m(1,2)]
  have kn: "nextpid (snd (kalloc s1)) = nextpid s1" by (simp add: kalloc_def)
  have e: "allocproc_found i s = (if free_mem_list s = 0 then None else Some i, release (LProc i) s3)"
    by (simp add: allocproc_found_def s1_def s2_def s3_def case_prod_beta Let_def k(1) [unfolded s1_def])
  have h: "holds s3 {LProc i} ie" "myproc s3 = myproc s" using assms(1) by (simp_all add: s3_def s2_def s1_def)
  have p: "procs s3 = (procs s)(i := new_proc (nextpid s) (free_mem_list s) (procs s i))"
    by (simp add: s3_def s2_def k(1) new_proc_def) (simp add: s1_def)
  have "nextpid s3 = nextpid s + 1" "pmem s3 = pmem s"
    "free_mem_list s3 = (if free_mem_list s = 0 then 0 else load64 (pmem s) (free_mem_list s))"
    by (simp_all add: s3_def s2_def upd_proc_def k kn m(3))
  then show ?thesis using r [OF h(1)] h(2) p by (simp add: e lock_pages nextpid_lock(1))
qed

lemma allocproc_loop_ok:
  assumes "holds s {} ie"
  shows "\<exists>r s'. allocproc_loop is s = Some (r, s') \<and> holds s' {} ie \<and> myproc s' = myproc s \<and> pmem s' = pmem s \<and>
    (case List.find (\<lambda>i. status (procs s i) = TASK_FREE) is of
       None \<Rightarrow> r = None \<and> procs s' = procs s \<and> nextpid s' = nextpid s \<and> free_mem_list s' = free_mem_list s
     | Some i \<Rightarrow> r = (if free_mem_list s = 0 then None else Some i) \<and>
         procs s' = (procs s)(i := new_proc (nextpid s) (free_mem_list s) (procs s i)) \<and> nextpid s' = nextpid s + 1 \<and>
         free_mem_list s' = (if free_mem_list s = 0 then 0 else load64 (pmem s) (free_mem_list s)))"
  using assms
proof (induction "is" arbitrary: s)
  case (Cons i "is")
  obtain s1 where 1: "acquire (LProc i) s = Some s1" "holds s1 {LProc i} ie" "procs s1 = procs s" "myproc s1 = myproc s"
    using with_lock [OF Cons.prems, of "LProc i"] by auto
  note pg = lock_pages(3) [OF 1(1)] nextpid_lock(2) [OF 1(1)]
  show ?case
  proof (cases "status (procs s i) = TASK_FREE")
    case True
    then show ?thesis using allocproc_found_ok [OF 1(2)] 1 pg by auto
  next
    case False
    note r = after_release [of s1 "LProc i" "{}" ie, simplified, OF 1(2)]
    note pr = pg lock_pages(1,2) [of "LProc i" s1] nextpid_lock(1) [of "LProc i" s1]
    have q: "procs (release (LProc i) s1) = procs s" "myproc (release (LProc i) s1) = myproc s"
      "pmem (release (LProc i) s1) = pmem s" "free_mem_list (release (LProc i) s1) = free_mem_list s"
      "nextpid (release (LProc i) s1) = nextpid s" using r(2,3) 1(3,4) pr by simp_all
    show ?thesis using Cons.IH [OF r(1), unfolded q] False 1 by simp
  qed
qed simp

lemma allocproc_slot:
  assumes "holds s {} ie" and "allocproc s = Some (Some j, s')"
  shows "holds s' {} ie" and "myproc s' = myproc s" and "j < NPROC" and "status (procs s j) = TASK_FREE"
    and "status (procs s' j) \<in> {TASK_FREE, TASK_ALLOCATED}" and "l \<noteq> j \<Longrightarrow> procs s' l = procs s l"
proof -
  let ?f = "List.find (\<lambda>i. status (procs s i) = TASK_FREE) [0..<NPROC]"
  note a = allocproc_loop_ok [OF assms(1), of "[0..<NPROC]"]
  have f: "?f = Some j" using a assms(2) by (cases ?f) (auto simp: allocproc_def split: if_splits)
  show "j < NPROC" "status (procs s j) = TASK_FREE" using find_SomeD [OF f] by auto
  show "holds s' {} ie" "myproc s' = myproc s" "status (procs s' j) \<in> {TASK_FREE, TASK_ALLOCATED}"
    "l \<noteq> j \<Longrightarrow> procs s' l = procs s l"
    using a assms(2) f by (auto simp: allocproc_def new_proc_def)
qed

text \<open>
  The invariant of the interleavings: a process in the kernel is marked running unless it is
  exiting and has not slept since, when it is a zombie.
\<close>

definition busy :: "'a proc_st_scheme \<Rightarrow> nat \<Rightarrow> life \<Rightarrow> bool" where
  "busy s i l \<longleftrightarrow> (\<exists>ie. holds s {} ie) \<and> myproc s = Some i \<and> (\<forall>j. status (procs s j) = TASK_RUNNING \<longleftrightarrow> j = i \<and> l \<noteq> Exiting) \<and>
     (l = Exiting \<longrightarrow> status (procs s i) = TASK_ZOMBIE)"

lemma calm_busy: "l \<noteq> Exiting \<Longrightarrow> calm s (Some i) \<Longrightarrow> busy s i l"
  by (auto simp: calm_def busy_def)

definition gone :: "'a proc_st_scheme \<Rightarrow> (nat \<Rightarrow> life) \<Rightarrow> bool" where
  "gone s X \<longleftrightarrow> (\<forall>j. X j = Exiting \<longrightarrow> status (procs s j) \<notin> {TASK_READY, TASK_RUNNING, TASK_SLEEPING})"

fun sys_inv :: "'a sys \<Rightarrow> bool" where
  "sys_inv (c, k, X, s) \<longleftrightarrow>
     (case c of InSched i \<Rightarrow> i \<le> NPROC \<and> calm s None | InProc i \<Rightarrow> i < NPROC \<and> busy s i (X i)) \<and> gone s X \<and>
     (\<forall>i lk. k i = KSleep lk \<longrightarrow> lk = LProc i \<or> (\<forall>j. lk \<noteq> LProc j))"

lemma back_inv:
  assumes "\<forall>j. j \<noteq> i \<longrightarrow> status (procs s j) \<noteq> TASK_RUNNING" and "\<exists>ie. holds s' {LProc i} ie"
    and "procs s' = (procs s)(i := x)" and "status x \<noteq> TASK_RUNNING"
  shows "calm (scheduler_back i s') None" and "procs (scheduler_back i s') = procs s'"
proof -
  have "\<forall>j. status (procs s' j) \<noteq> TASK_RUNNING" using assms by auto
  then show "calm (scheduler_back i s') None" "procs (scheduler_back i s') = procs s'"
    using assms(2) scheduler_back_ok by blast+
qed

lemma wake_gone: "gone s X \<Longrightarrow> procs s' = (\<lambda>i. wake m ch i (procs s i)) \<Longrightarrow> gone s' X"
  by (auto simp: gone_def wake_def)

lemma sched_step_inv:
  assumes "sched_step x y" and "sys_inv x"
  shows "sys_inv y"
  using assms
proof (cases rule: sched_step.cases)
  case (round k X s)
  then show ?thesis using assms(2) holds_intr by (fastforce simp: calm_def gone_def intr_on_def myproc_def)
next
  case (skip i s s' k X)
  then show ?thesis using assms(2) scheduler_pick_ok [of s i] by (auto simp: gone_def split: if_splits)
next
  case (switch i s s1 k s' X)
  have c: "calm s None" using switch assms(2) by simp
  then obtain ie where 1: "holds s1 {LProc i} ie" "myproc s1 = Some i" "status (procs s i) = TASK_READY"
    "procs s1 = (procs s)(i := (procs s i)\<lparr>status := TASK_RUNNING\<rparr>)"
    using scheduler_pick_ok [OF c, of i] switch by (auto split: if_splits)
  have x: "X i \<noteq> Exiting" using 1(3) switch(1) assms(2) by (auto simp: gone_def)
  have "\<forall>j. status (procs s1 j) = TASK_RUNNING \<longleftrightarrow> j = i" using calm_running [OF c] 1(4) by auto
  then have r: "calm s' (Some i)" "\<forall>j. j \<noteq> i \<longrightarrow> procs s' j = procs s1 j"
    using resume_ok [OF 1(1,2), of "k i"] switch assms(2) by auto
  have "procs s' j = procs s j" if "j \<noteq> i" for j using that r(2) 1(4) by simp
  then have "status (procs s' j) = status (procs s j)" if "X j = Exiting" for j using that x by metis
  moreover have "gone s X" using switch(1) assms(2) by simp
  ultimately have "gone s' X" by (simp add: gone_def)
  then show ?thesis using calm_busy [OF x r(1)] switch assms(2) by auto
next
  case (yield s i s' k X)
  then have b: "busy s i (X i)" using assms(2) by simp
  obtain ie where h: "holds s {} ie" "myproc s = Some i" "\<And>j. status (procs s j) = TASK_RUNNING \<longleftrightarrow> j = i \<and> X i \<noteq> Exiting"
    using b unfolding busy_def by blast
  have y: "\<exists>ie. holds s' {LProc i} ie" "procs s' = (procs s)(i := (procs s i)\<lparr>status := TASK_READY\<rparr>)"
    using yield_out_ok [OF h(1,2)] yield by auto
  note c = back_inv [OF _ y]
  have "X i \<noteq> Exiting" using h(3) [of i] yield(3) by simp
  then have "gone (scheduler_back i s') X" using c(2) h(3) y(2) yield assms(2) by (auto simp: gone_def)
  moreover have "calm (scheduler_back i s') None" using c(1) h(3) by auto
  ultimately show ?thesis using yield assms(2) by auto
next
  case (sleep lk i s s1 ch s' k X)
  then have b: "busy s i (X i)" using assms(2) by simp
  obtain ie where h: "holds s {} ie" "myproc s = Some i" "\<And>j. status (procs s j) = TASK_RUNNING \<longleftrightarrow> j = i \<and> X i \<noteq> Exiting"
    using b unfolding busy_def by blast
  have y: "\<exists>ie. holds s' {LProc i} ie" "procs s' = (procs s)(i := (procs s i)\<lparr>status := TASK_SLEEPING, chan := ch\<rparr>)"
    using sleep_out_ok [OF h(1,2), of lk ch] sleep by auto
  note c = back_inv [OF _ y]
  have "oversleep (X i) \<noteq> Exiting" by (cases "X i") auto
  then have "gone (scheduler_back i s') (X(i := oversleep (X i)))" using c(2) h(3) y(2) sleep assms(2) by (auto simp: gone_def)
  moreover have "calm (scheduler_back i s') None" using c(1) h(3) by auto
  ultimately show ?thesis using sleep assms(2) by auto
next
  case (wake ch s s' i k X)
  then have b: "busy s i (X i)" using assms(2) by simp
  obtain ie where h: "holds s {} ie" "myproc s = Some i" using b unfolding busy_def by blast
  have w: "holds s' {} ie" "myproc s' = Some i" "procs s' = (\<lambda>j. wake (Some i) ch j (procs s j))"
    using wakeup_ok [OF h(1), of ch] h(2) wake by auto
  have "busy s' i (X i)" using b w(1,2) by (auto simp: busy_def w(3) wake_running) (simp add: wake_def)
  moreover have "gone s' X" by (rule wake_gone [OF _ w(3)]) (use wake assms(2) in simp)
  ultimately show ?thesis using wake assms(2) by simp
next
  case (exit X i code s s' k)
  then have b: "busy s i (X i)" using assms(2) by simp
  obtain ie where h: "holds s {} ie" "myproc s = Some i" "\<And>j. status (procs s j) = TASK_RUNNING \<longleftrightarrow> j = i \<and> X i \<noteq> Exiting"
    using b unfolding busy_def by blast
  have s': "s' = upd_proc i (\<lambda>x. x\<lparr>xstate := code, status := TASK_ZOMBIE\<rparr>) s" using exit(4) h(2) by (simp add: exit_mark_def)
  have "busy s' i Exiting" using h by (auto simp: busy_def s')
  moreover have "gone s' (X(i := Exiting))" using exit(1) assms(2) by (auto simp: gone_def s')
  ultimately show ?thesis using exit assms(2) by simp
next
  case (leave X i s s' k)
  then have b: "busy s i (X i)" using assms(2) by simp
  obtain ie where h: "holds s {} ie" "myproc s = Some i" "\<And>j. status (procs s j) = TASK_RUNNING \<longleftrightarrow> j = i \<and> X i \<noteq> Exiting"
    using b unfolding busy_def by blast
  obtain ch where d: "holds s' {LProc i} ie" "procs s' = (\<lambda>j. wake (Some i) ch j (procs s j))" "status (procs s i) \<noteq> TASK_RUNNING"
    using exit_tail_ok [OF h(1,2)] leave by (auto split: if_splits)
  have "\<forall>j. status (procs s' j) \<noteq> TASK_RUNNING" using h(3) d(3) by (auto simp: d(2) wake_running)
  note c = scheduler_back_ok [OF d(1) this]
  have "gone (scheduler_back i s') X"
    by (rule wake_gone [OF _ c(2) [unfolded d(2)]]) (use leave assms(2) in simp)
  then show ?thesis using c(1) leave assms(2) by simp
next
  case (reap j i s s1 s' k X)
  then have b: "busy s i (X i)" using assms(2) by simp
  obtain ie where h: "holds s {} ie" "myproc s = Some i" using b unfolding busy_def by blast
  have 2: "holds s1 {LProc j} ie" "procs s1 = procs s" "myproc s1 = Some i"
    using with_lock [OF h(1), of "LProc j"] reap(5) h(2) by auto
  note r = after_release [of "upd_proc j (\<lambda>x. x\<lparr>status := TASK_FREE\<rparr>) s1" "LProc j" "{}" ie, simplified, OF 2(1)]
  have "busy s' i (X i)" using b r 2 reap(3) unfolding busy_def reap(6) by auto
  moreover have "gone s' X" using reap(1) assms(2) by (auto simp: gone_def reap(6) r(2) 2(2))
  ultimately show ?thesis using reap assms(2) by simp
next
  case (fork s j s1 s2 s' i k X)
  then have b: "busy s i (X i)" using assms(2) by simp
  obtain ie where h: "holds s {} ie" "myproc s = Some i" "\<And>j. status (procs s j) = TASK_RUNNING \<longleftrightarrow> j = i \<and> X i \<noteq> Exiting"
    "X i = Exiting \<Longrightarrow> status (procs s i) = TASK_ZOMBIE" using b unfolding busy_def by blast
  note a = allocproc_slot [OF h(1) fork(3)]
  have j: "j \<noteq> i" using a(4) h(3) [of i] h(4) by auto
  have 2: "holds s2 {LProc j} ie" "procs s2 = procs s1" "myproc s2 = Some i"
    using with_lock [OF a(1), of "LProc j"] fork(4) a(2) h(2) by auto
  note r = after_release [of "upd_proc j (\<lambda>x. x\<lparr>status := TASK_READY\<rparr>) s2" "LProc j" "{}" ie, simplified, OF 2(1)]
  have p: "procs s' l = (if l = j then (procs s1 j)\<lparr>status := TASK_READY\<rparr> else procs s l)" for l
    using a(6) by (simp add: fork(5) r(2) 2(2))
  have "status (procs s' l) = TASK_RUNNING \<longleftrightarrow> l = i \<and> X i \<noteq> Exiting" for l
    using h(3) [of l] j by (auto simp: p)
  then have "busy s' i (X i)" using r(1,3) 2(3) h(4) j unfolding busy_def by (auto simp: fork(5) p [unfolded fork(5)])
  moreover have "gone s' (X(j := Alive))" using fork(1) assms(2) by (auto simp: gone_def p)
  ultimately show ?thesis using fork assms(2) j by auto
next
  case (intr i k X s b)
  then show ?thesis using assms(2) holds_intr by (fastforce simp: busy_def gone_def myproc_def)
qed

lemma sched_reach_inv:
  assumes "sched_step\<^sup>*\<^sup>* x y" and "sys_inv x"
  shows "sys_inv y"
  using assms by (induction rule: rtranclp_induct) (auto intro: sched_step_inv)

text \<open>The scheduler can always take a step, and so can a process in the kernel.\<close>

lemma sched_progress:
  assumes c: "calm s None" and i: "i \<le> NPROC" and k: "\<forall>lk. k i = KSleep lk \<longrightarrow> lk = LProc i \<or> (\<forall>j. lk \<noteq> LProc j)"
  shows "\<exists>y. sched_step (InSched i, k, X, s) y"
proof -
  consider "i = NPROC" | "i < NPROC" "status (procs s i) = TASK_READY" | "i < NPROC" "status (procs s i) \<noteq> TASK_READY"
    using i by linarith
  then show ?thesis
  proof cases
    case 1
    then show ?thesis using sched_step.round by blast
  next
    case 2
    then obtain s1 ie where 1: "scheduler_pick i s = Some (True, s1)" "holds s1 {LProc i} ie" "myproc s1 = Some i"
      "procs s1 = (procs s)(i := (procs s i)\<lparr>status := TASK_RUNNING\<rparr>)"
      using scheduler_pick_ok [OF c, of i] by auto
    have "\<forall>j. status (procs s1 j) = TASK_RUNNING \<longleftrightarrow> j = i" using calm_running [OF c] 1(4) by auto
    from resume_ok [OF 1(2,3) this k] obtain s2 where "resume_at i (k i) s1 = Some s2" by blast
    from sched_step.switch [where k = k, OF 2(1) 1(1) this] show ?thesis by blast
  next
    case 3
    then obtain s1 where "scheduler_pick i s = Some (False, s1)" using scheduler_pick_ok [OF c, of i] by auto
    from sched_step.skip [OF 3(1) this] show ?thesis by blast
  qed
qed

lemma proc_progress:
  assumes h: "holds s {} ie" and p: "myproc s = Some i"
  shows "\<forall>j. lk = LProc j \<longrightarrow> j = i \<Longrightarrow> \<exists>s1. acquire lk s = Some s1 \<and> sleep_out ch lk s1 \<noteq> None"
    and "wakeup ch s \<noteq> None" and "yield_out s \<noteq> None" and "allocproc s \<noteq> None" and "exit_mark code s \<noteq> None"
    and "exit_tail s = None \<longleftrightarrow> status (procs s i) = TASK_RUNNING"
proof -
  show "\<exists>s1. acquire lk s = Some s1 \<and> sleep_out ch lk s1 \<noteq> None" if "\<forall>j. lk = LProc j \<longrightarrow> j = i"
    using sleep_out_ok [OF h p, of lk ch] that by blast
  show "wakeup ch s \<noteq> None" using wakeup_ok [OF h] by force
  show "yield_out s \<noteq> None" using yield_out_ok [OF h p] by force
  show "allocproc s \<noteq> None" using allocproc_loop_ok [OF h] by (force simp: allocproc_def)
  show "exit_mark code s \<noteq> None" using p by (simp add: exit_mark_def)
  show "exit_tail s = None \<longleftrightarrow> status (procs s i) = TASK_RUNNING" using exit_tail_ok [OF h p] by (auto split: if_splits)
qed

section \<open>Properties\<close>


text \<open>A machine with one ready process.\<close>

definition one_ready :: proc_st where
  "one_ready = \<lparr>pmem = (\<lambda>_. 0), free_mem_list = 0, end_address = 0x80100000, etext = 0x80008000,
     userret = 0x80002000, uservec = 0x80003000, kernel_pagetable = 0,
     procs = (\<lambda>_. zero_proc)(0 := zero_proc\<lparr>status := TASK_READY, pid := 1\<rparr>),
     cpu = \<lparr>cproc = None, noff = 0, intena = False\<rparr>, sie = True, locks = (\<lambda>_. lock_free), nextpid = 2\<rparr>"

lemma one_ready_calm: "calm one_ready None"
  by (auto simp: calm_def one_ready_def holds_def myproc_def zero_proc_def)


text \<open>
  A pass of the scheduler over a list of slots switches to the
  first ready process in it, marks exactly that process running, and switches to none only
  if none of the slots is ready.
\<close>

theorem scheduler_pass_first_ready:
  assumes "calm s None"
  shows "\<exists>s'. scheduler_pass is s = Some (List.find (\<lambda>i. status (procs s i) = TASK_READY) is, s') \<and>
    (case List.find (\<lambda>i. status (procs s i) = TASK_READY) is of
       None \<Rightarrow> procs s' = procs s \<and> myproc s' = None
     | Some i \<Rightarrow> procs s' = (procs s)(i := (procs s i)\<lparr>status := TASK_RUNNING\<rparr>) \<and> myproc s' = Some i \<and>
         holding (LProc i) s')"
  using assms
proof (induction "is" arbitrary: s)
  case Nil
  then show ?case by (auto simp: calm_def)
next
  case (Cons i "is")
  show ?case
  proof (cases "status (procs s i) = TASK_READY")
    case True
    then show ?thesis using scheduler_pick_ok [OF Cons.prems, of i] by (auto simp: holds_def holding_def)
  next
    case False
    then obtain s1 where 1: "scheduler_pick i s = Some (False, s1)" "calm s1 None" "procs s1 = procs s"
      using scheduler_pick_ok [OF Cons.prems, of i] by auto
    show ?thesis using Cons.IH [OF 1(2)] False 1(1) by (simp add: 1(3) cong: option.case_cong)
  qed
qed

theorem scheduler_pass_first_ready_witness:
  "calm one_ready None \<and> (\<exists>s'. scheduler_pass [3, 0, 1] one_ready = Some (Some 0, s') \<and> myproc s' = Some 0)"
  using scheduler_pass_first_ready [OF one_ready_calm, of "[3, 0, 1]"] one_ready_calm
  by (auto simp: one_ready_def zero_proc_def)

text \<open>
  Property C34 (functional). \<open>wakeup\<close> makes ready exactly the processes other than the
  caller that sleep on the channel, leaves every other process as it was, and leaves the
  locks as they were, also when the caller holds locks (but no other process's lock).
\<close>

theorem wakeup_exact:
  assumes "holds s L ie" and "\<forall>j. LProc j \<in> L \<longrightarrow> myproc s = Some j"
  shows "\<exists>s'. wakeup ch s = Some s' \<and> holds s' L ie \<and>
    (\<forall>i < NPROC. procs s' i =
       (if status (procs s i) = TASK_SLEEPING \<and> chan (procs s i) = ch \<and> myproc s \<noteq> Some i
        then (procs s i)\<lparr>status := TASK_READY\<rparr> else procs s i))"
  using wakeup_ok [OF assms, of ch] by (auto simp: wake_def)

theorem wakeup_exact_witness:
  "holds one_ready {} True \<and> (\<exists>s'. wakeup CCons one_ready = Some s' \<and> procs s' 0 = procs one_ready 0)"
proof -
  have h: "holds one_ready {} True" by (simp add: one_ready_def holds_def)
  show ?thesis using wakeup_exact [OF h, of CCons] h by (auto simp: NPROC_def one_ready_def)
qed

text \<open>
  Property C32 (error). If a process that has begun to exit sleeps before it is done (closing
  its last reference to an unlinked file waits for the disk), then after it has been woken
  and switched in again it is marked running, and the end of \<open>proc_exit\<close> panics in
  \<open>sched\<close>.
\<close>

theorem exit_that_sleeps_panics:
  assumes "calm s (Some i)" and "i < NPROC" and "\<forall>j. lk \<noteq> LProc j"
  shows "\<exists>s0 s1 s2 s3 s4 s5. exit_mark code s = Some s0 \<and> acquire lk s0 = Some s1 \<and> sleep_out ch lk s1 = Some s2 \<and>
    wakeup ch (scheduler_back i s2) = Some s3 \<and> scheduler_pick i s3 = Some (True, s4) \<and>
    resume_at i (KSleep lk) s4 = Some s5 \<and> exit_tail s5 = None"
proof -
  obtain ie where h: "holds s {} ie" and p: "myproc s = Some i" using assms(1) by (auto simp: calm_def)
  let ?s0 = "upd_proc i (\<lambda>x. x\<lparr>xstate := code, status := TASK_ZOMBIE\<rparr>) s"
  obtain s1 s2 ie2 where 2: "acquire lk ?s0 = Some s1" "sleep_out ch lk s1 = Some s2" "holds s2 {LProc i} ie2"
    "procs s2 = (procs ?s0)(i := (procs ?s0 i)\<lparr>status := TASK_SLEEPING, chan := ch\<rparr>)"
    using sleep_out_ok [of ?s0 ie i lk ch] h p assms(3) by auto
  have nr: "\<forall>j. status (procs s2 j) \<noteq> TASK_RUNNING" using calm_running [OF assms(1)] by (auto simp: 2(4))
  note b = scheduler_back_ok [OF 2(3) nr]
  obtain ie3 where b': "holds (scheduler_back i s2) {} ie3" "myproc (scheduler_back i s2) = None"
    using b(1) by (auto simp: calm_def)
  obtain s3 where 3: "wakeup ch (scheduler_back i s2) = Some s3" "holds s3 {} ie3" "myproc s3 = None"
    "procs s3 = (\<lambda>j. wake None ch j (procs s2 j))"
    using wakeup_ok [OF b'(1), of ch] b' b(2) by auto
  have c3: "calm s3 None" using 3 nr by (auto simp: calm_def wake_running)
  have "status (procs s3 i) = TASK_READY" using assms(2) by (simp add: 3(4) 2(4) wake_def)
  then obtain s4 ie4 where 4: "scheduler_pick i s3 = Some (True, s4)" "holds s4 {LProc i} ie4" "myproc s4 = Some i"
    "procs s4 = (procs s3)(i := (procs s3 i)\<lparr>status := TASK_RUNNING\<rparr>)"
    using scheduler_pick_ok [OF c3, of i] by auto
  have "\<forall>j. status (procs s4 j) = TASK_RUNNING \<longleftrightarrow> j = i" using calm_running [OF c3] 4(4) by auto
  from resume_ok [OF 4(2,3) this, of "KSleep lk"] assms(3) obtain s5 where
    5: "resume_at i (KSleep lk) s4 = Some s5" "calm s5 (Some i)" by auto
  then obtain ie5 where h5: "holds s5 {} ie5" and p5: "myproc s5 = Some i" by (auto simp: calm_def)
  let ?c = "case parent (procs s5 i) of Some q \<Rightarrow> CProc q | None \<Rightarrow> CNull"
  obtain s6 where 6: "wakeup ?c s5 = Some s6" "holds s6 {} ie5" "myproc s6 = Some i"
    "procs s6 i = procs s5 i" using wakeup_ok [OF h5, of ?c] p5 by (auto simp: wake_def)
  obtain s7 where 7: "acquire (LProc i) s6 = Some s7" "procs s7 = procs s6" "myproc s7 = Some i"
    using with_lock [OF 6(2), of "LProc i"] 6(3) by auto
  have "status (procs s7 i) = TASK_RUNNING" using calm_running [OF 5(2)] by (simp add: 7(2) 6(4))
  then have "sched s7 = None" using 7(3) by (simp add: sched_def)
  then have "exit_tail s5 = None" using p5 6(1) 7(1) by (simp add: exit_tail_def)
  then show ?thesis using p 2(1,2) 3(1) 4(1) 5(1) by (auto simp: exit_mark_def)
qed

definition one_running :: proc_st where
  "one_running = one_ready\<lparr>procs := (\<lambda>_. zero_proc)(0 := zero_proc\<lparr>status := TASK_RUNNING\<rparr>),
     cpu := \<lparr>cproc = Some 0, noff = 0, intena = False\<rparr>\<rparr>"

lemma one_running_calm: "calm one_running (Some 0)"
  by (auto simp: calm_def one_running_def one_ready_def holds_def myproc_def zero_proc_def)

theorem exit_that_sleeps_panics_witness:
  "calm one_running (Some 0) \<and> (\<exists>s0 s1 s2 s3 s4 s5. exit_mark 0 one_running = Some s0 \<and>
     acquire LDisk s0 = Some s1 \<and> sleep_out (CBuf 0) LDisk s1 = Some s2 \<and>
     wakeup (CBuf 0) (scheduler_back 0 s2) = Some s3 \<and> scheduler_pick 0 s3 = Some (True, s4) \<and>
     resume_at 0 (KSleep LDisk) s4 = Some s5 \<and> exit_tail s5 = None)"
  using exit_that_sleeps_panics [OF one_running_calm, of LDisk 0 "CBuf 0"] one_running_calm by (simp add: NPROC_def)

text \<open>
  Property C39 (functional). \<open>allocproc\<close> takes the lowest free slot, gives it a process id that no
  other slot has (ids in use lie below the next one, and still do afterwards), no parent, no pending kill and size 0,
  and leaves every other slot alone; with a page left, the slot is allocated with the first free page
  as its trapframe; it fails exactly when there is no free slot (and then changes no process) or no
  page (and then the slot is free again); and it never deadlocks when no lock is held.
\<close>

theorem allocproc_first_free:
  assumes "holds s {} ie" and "\<forall>j. pid (procs s j) < nextpid s"
  shows "\<exists>r s'. allocproc s = Some (r, s') \<and> holds s' {} ie \<and> (\<forall>j. pid (procs s' j) < nextpid s') \<and>
    (case List.find (\<lambda>i. status (procs s i) = TASK_FREE) [0..<NPROC] of
       None \<Rightarrow> r = None \<and> procs s' = procs s \<and> free_mem_list s' = free_mem_list s
     | Some i \<Rightarrow> (\<forall>j. j \<noteq> i \<longrightarrow> procs s' j = procs s j \<and> pid (procs s' j) \<noteq> pid (procs s' i)) \<and> pid (procs s' i) = nextpid s \<and>
         killed (procs s' i) = False \<and> parent (procs s' i) = None \<and> chan (procs s' i) = CNull \<and> psz (procs s' i) = 0 \<and>
         (if free_mem_list s = 0 then r = None \<and> status (procs s' i) = TASK_FREE
          else r = Some i \<and> status (procs s' i) = TASK_ALLOCATED \<and> trapframe (procs s' i) = free_mem_list s \<and>
            free_mem_list s' = load64 (pmem s) (free_mem_list s)))"
proof -
  let ?f = "List.find (\<lambda>i. status (procs s i) = TASK_FREE) [0..<NPROC]"
  obtain r s' where a: "allocproc s = Some (r, s')" "holds s' {} ie"
    "case ?f of
       None \<Rightarrow> r = None \<and> procs s' = procs s \<and> nextpid s' = nextpid s \<and> free_mem_list s' = free_mem_list s
     | Some i \<Rightarrow> r = (if free_mem_list s = 0 then None else Some i) \<and>
         procs s' = (procs s)(i := new_proc (nextpid s) (free_mem_list s) (procs s i)) \<and> nextpid s' = nextpid s + 1 \<and>
         free_mem_list s' = (if free_mem_list s = 0 then 0 else load64 (pmem s) (free_mem_list s))"
    using allocproc_loop_ok [OF assms(1), of "[0..<NPROC]"] unfolding allocproc_def by blast
  have "pid (procs s j) \<noteq> nextpid s" "pid (procs s j) < nextpid s + 1" for j using assms(2) [rule_format, of j] by linarith+
  then show ?thesis using a assms(2) by (cases ?f) (auto simp: new_proc_def)
qed

text \<open>The machine with one ready process and a free page.\<close>

theorem allocproc_first_free_witness:
  "\<exists>s'. allocproc (one_ready\<lparr>free_mem_list := 0x80200000\<rparr>) = Some (Some 1, s') \<and> pid (procs s' 1) = 2 \<and>
     trapframe (procs s' 1) = 0x80200000 \<and> status (procs s' 1) = TASK_ALLOCATED \<and> pid (procs s' 0) = 1"
proof -
  let ?s = "one_ready\<lparr>free_mem_list := 0x80200000\<rparr>"
  have h: "holds ?s {} True" "\<forall>j. pid (procs ?s j) < nextpid ?s" by (simp_all add: one_ready_def holds_def zero_proc_def)
  have "[0..<NPROC] = 0 # 1 # [2..<NPROC]" by (simp add: NPROC_def upt_rec)
  then have "List.find (\<lambda>i. status (procs ?s i) = TASK_FREE) [0..<NPROC] = Some 1"
    by (simp add: one_ready_def zero_proc_def)
  then show ?thesis using allocproc_first_free [OF h] by (auto simp: one_ready_def zero_proc_def)
qed

end
