(* ===== verification/Sysargs.thy ===== *)
theory Sysargs
  imports Sched
begin

text \<open>
  Strings and system-call arguments: the helpers of \<open>kernel/syscall/syscall.c\<close>,
  \<open>copyinstr\<close> of \<open>kernel/syscall/sysfile.c\<close> and the comparison functions at the end
  of \<open>kernel/fs/fs.c\<close>. A character array is a byte list; reading past its end gives
  the terminator (\<open>cchar\<close>), and \<open>cstr\<close> is the string it holds. Arguments are
  read from the trapframe page of the current process at the offsets of
  \<open>struct trapframe\<close>.
\<close>

section \<open>C strings\<close>

definition cchar :: "u8 list \<Rightarrow> nat \<Rightarrow> u8" where
  "cchar s i = (if i < length s then s ! i else 0)"

definition cstr :: "u8 list \<Rightarrow> u8 list" where
  "cstr s = takeWhile (\<lambda>c. c \<noteq> 0) s"

primrec strlen :: "u8 list \<Rightarrow> nat" where
  "strlen [] = 0"
| "strlen (c # cs) = (if c = 0 then 0 else Suc (strlen cs))"

text \<open>The bytes that \<open>safestrcpy\<close> stores from \<open>s\<close> on; the final \<open>*s = 0\<close>
  comes after a terminator that was copied.\<close>

fun safestrcpy_bytes :: "nat \<Rightarrow> u8 list \<Rightarrow> u8 list" where
  "safestrcpy_bytes (Suc (Suc n)) t =
     (let c = cchar t 0 in if c = 0 then [0, 0] else c # safestrcpy_bytes (Suc n) (tl t))"
| "safestrcpy_bytes _ t = [0]"

definition safestrcpy :: "u8 list \<Rightarrow> u8 list \<Rightarrow> int \<Rightarrow> u8 list" where
  "safestrcpy s t n = (if n \<le> 0 then s else overwrite s 0 (safestrcpy_bytes (nat n) t))"

fun strncmp :: "u8 list \<Rightarrow> u8 list \<Rightarrow> nat \<Rightarrow> int" where
  "strncmp p q 0 = 0"
| "strncmp p q (Suc n) =
     (if cchar p 0 \<noteq> 0 \<and> cchar p 0 = cchar q 0 then strncmp (tl p) (tl q) n
      else uint (cchar p 0) - uint (cchar q 0))"

definition DIRSIZ :: nat where [kdefs]: "DIRSIZ = 14"

definition namecmp :: "u8 list \<Rightarrow> u8 list \<Rightarrow> int" where
  "namecmp s t = strncmp s t DIRSIZ"

section \<open>Arguments of a system call\<close>

definition tf_a0 :: u64 where [kdefs]: "tf_a0 = 112"
definition tf_a7 :: u64 where [kdefs]: "tf_a7 = 168"

definition argraw :: "nat \<Rightarrow> 'a proc_st_scheme \<Rightarrow> u64 option" where
  "argraw n s =
     do { p \<leftarrow> myproc s;
          if n < 6 then Some (load64 (pmem s) (trapframe (procs s p) + tf_a0 + 8 * of_nat n))
          else None }"  \<comment> \<open>panic: argraw\<close>

definition argint :: "nat \<Rightarrow> 'a proc_st_scheme \<Rightarrow> int option" where
  "argint n s = do { v \<leftarrow> argraw n s; Some (sint (ucast v :: u32)) }"

definition argaddr :: "nat \<Rightarrow> 'a proc_st_scheme \<Rightarrow> u64 option" where
  "argaddr n s = argraw n s"

text \<open>A descriptor of the current process; the inner \<^term>\<open>None\<close> is the return value -1.\<close>

definition fd_file :: "int \<Rightarrow> 'a proc_st_scheme \<Rightarrow> nat option option" where
  "fd_file fd s = do { p \<leftarrow> myproc s; Some (if fd < 0 \<or> int NOFILE \<le> fd then None else ofile (procs s p) (nat fd)) }"

definition argfd :: "nat \<Rightarrow> 'a proc_st_scheme \<Rightarrow> (int \<times> nat) option option" where
  "argfd n s = do { fd \<leftarrow> argint n s; f \<leftarrow> fd_file fd s; Some (map_option (Pair fd) f) }"

section \<open>Reading user memory\<close>

text \<open>
  The address at which the kernel finds the user byte at \<open>va\<close>: the check that the
  page is valid and, where the code asks for it, accessible to the user.
\<close>

definition user_byte :: "'a mem_st_scheme \<Rightarrow> u64 \<Rightarrow> bool \<Rightarrow> u64 \<Rightarrow> u64 option option" where
  "user_byte s pt need_u va =
     do { (pte, _) \<leftarrow> walk s pt (PGROUNDDOWN va) False;
          let e = load64 (pmem s) pte;
          Some (if pte = 0 \<or> e AND PTE_V = 0 \<or> need_u \<and> e AND PTE_U = 0 then None
                else Some (PTE2PA e + (va - PGROUNDDOWN va))) }"

text \<open>
  \<open>fetchstr\<close> stores into a local array, or into the kernel page at \<open>dst\<close>. The
  result is the return value, the bytes stored, and the state.
\<close>

function fetchstr_loop ::
  "'a proc_st_scheme \<Rightarrow> u64 \<Rightarrow> u64 \<Rightarrow> u64 option \<Rightarrow> nat \<Rightarrow> nat \<Rightarrow> u8 list \<Rightarrow> (int \<times> u8 list \<times> 'a proc_st_scheme) option" where
  "fetchstr_loop s pt src dst i mx acc =
     (if i < mx
      then do { r \<leftarrow> user_byte s pt True (src + of_nat i);
                (case r of
                   None \<Rightarrow> Some (-1, acc, s)
                 | Some a \<Rightarrow>
                     let c = pmem s a;
                         s' = (case dst of None \<Rightarrow> s | Some d \<Rightarrow> s\<lparr>pmem := (pmem s)(d + of_nat i := c)\<rparr>)
                     in if c = 0 then Some (int i, acc @ [c], s')
                        else fetchstr_loop s' pt src dst (Suc i) mx (acc @ [c])) }
      else Some (-1, acc, s))"
  by pat_completeness auto
termination by (relation "measure (\<lambda>(s, pt, src, dst, i, mx, acc). mx - i)") auto

declare fetchstr_loop.simps [simp del]

definition fetchstr ::
  "u64 \<Rightarrow> u64 option \<Rightarrow> nat \<Rightarrow> 'a proc_st_scheme \<Rightarrow> (int \<times> u8 list \<times> 'a proc_st_scheme) option" where
  "fetchstr src dst mx s = do { p \<leftarrow> myproc s; fetchstr_loop s (pagetable (procs s p)) src dst 0 mx [] }"

text \<open>A string argument in a local array: \<^term>\<open>None\<close> inside for a negative result.\<close>

definition argstr :: "nat \<Rightarrow> nat \<Rightarrow> 'a proc_st_scheme \<Rightarrow> u8 list option option" where
  "argstr n mx s =
     do { addr \<leftarrow> argaddr n s;
          (r, bs, _) \<leftarrow> fetchstr addr None mx s;
          Some (if r < 0 then None else Some bs) }"

definition fetchaddr :: "u64 \<Rightarrow> 'a proc_st_scheme \<Rightarrow> u64 option option" where
  "fetchaddr addr s =
     do { p \<leftarrow> myproc s;
          if psz (procs s p) < addr + 8 then Some None
          else do { r \<leftarrow> user_byte s (pagetable (procs s p)) True addr;
                    Some (map_option (load64 (pmem s)) r) } }"

text \<open>Copying from a kernel address; the bytes stored and whether a terminator was found.\<close>

fun copyinstr :: "mem \<Rightarrow> u64 \<Rightarrow> nat \<Rightarrow> u8 list \<times> int" where
  "copyinstr m src 0 = ([], -1)"
| "copyinstr m src (Suc mx) =
     (if m src = 0 then ([0], 0)
      else let (bs, r) = copyinstr m (src + 1) mx in (m src # bs, r))"

section \<open>Lemmas\<close>

lemma cchar_Cons [simp]: "cchar (c # cs) 0 = c" "cchar (c # cs) (Suc i) = cchar cs i"
  by (simp_all add: cchar_def)

lemma cchar_Nil [simp]: "cchar [] i = 0"
  by (simp add: cchar_def)

lemma cstr_Cons [simp]: "cstr (c # cs) = (if c = 0 then [] else c # cstr cs)"
  by (simp add: cstr_def)

lemma cstr_Nil [simp]: "cstr [] = []"
  by (simp add: cstr_def)

lemma strlen_cstr: "strlen s = length (cstr s)"
  by (induction s) auto

lemma cstr_nonzero: "c \<in> set (cstr s) \<Longrightarrow> c \<noteq> 0"
  by (auto simp: cstr_def dest: set_takeWhileD)

lemma cstr_append: "0 \<notin> set xs \<Longrightarrow> cstr (xs @ ys) = xs @ cstr ys"
  by (induction xs) auto

lemma cstr_id: "0 \<notin> set xs \<Longrightarrow> cstr xs = xs"
  using cstr_append [of xs "[]"] by simp

lemma cchar_0_iff: "cchar s 0 = 0 \<longleftrightarrow> cstr s = []"
  by (cases s) auto

lemma safestrcpy_bytes_eq:
  "0 < n \<Longrightarrow> safestrcpy_bytes n t =
     take (n - 1) (cstr t) @ (if length (cstr t) < n - 1 then [0, 0] else [0])"
proof (induction n t rule: safestrcpy_bytes.induct)
  case (1 n t)
  then show ?case by (cases t) (auto simp: Let_def)
qed auto

text \<open>At most \<open>n\<close> bytes are stored and the copy is the longest prefix that fits.\<close>

lemma safestrcpy_copy:
  assumes "0 < n" and "nat n \<le> length s"
  shows "cstr (safestrcpy s t n) = take (nat n - 1) (cstr t)" and "length (safestrcpy s t n) = length s"
    and "drop (nat n) (safestrcpy s t n) = drop (nat n) s"
proof -
  let ?b = "safestrcpy_bytes (nat n) t"
  have b: "length ?b \<le> nat n" using assms(1) by (auto simp: safestrcpy_bytes_eq)
  have "0 \<notin> set (take (nat n - 1) (cstr t))" using cstr_nonzero in_set_takeD by fastforce
  then have "cstr (?b @ xs) = take (nat n - 1) (cstr t)" for xs
    using assms(1) by (simp add: safestrcpy_bytes_eq cstr_append)
  then show "cstr (safestrcpy s t n) = take (nat n - 1) (cstr t)"
    using assms by (simp add: safestrcpy_def overwrite_def)
  show "length (safestrcpy s t n) = length s" "drop (nat n) (safestrcpy s t n) = drop (nat n) s"
    using assms b by (simp_all add: safestrcpy_def overwrite_def)
qed

lemma strncmp_eq_0: "strncmp p q n = 0 \<longleftrightarrow> take n (cstr p) = take n (cstr q)"
proof (induction n arbitrary: p q)
  case (Suc n)
  have uu: "uint a = uint b \<longleftrightarrow> a = b" for a b :: u8 by (metis word_uint_eq_iff)
  show ?case
  proof (cases p)
    case Nil
    then show ?thesis using uu [of 0] by (cases q) auto
  next
    case (Cons a as)
    then show ?thesis using Suc.IH [of as] uu [of _ 0] uu by (cases q) auto
  qed
qed simp

lemma walk_loop_noalloc: "walk_loop s pt va False k = (pte, s') \<Longrightarrow> s' = s"
  by (induction s pt va False k rule: walk_loop.induct) (auto simp: Let_def split: if_splits)

text \<open>
  \<open>fetchstr\<close> either finds the terminator within \<open>mx\<close> bytes of mapped user
  memory, and then the bytes are the user's, or returns -1.
\<close>

lemma fetchstr_loop_ok:
  assumes "fetchstr_loop s pt src None i mx acc = Some (r, bs, s')"
  shows "s' = s \<and> (r = -1 \<or>
     (\<exists>as. bs = acc @ as @ [0] \<and> r = int (i + length as) \<and> i + length as < mx \<and> 0 \<notin> set as \<and>
        (\<forall>k \<le> length as. \<exists>a. user_byte s pt True (src + of_nat (i + k)) = Some (Some a) \<and> pmem s a = (as @ [0]) ! k)))"
  using assms
proof (induction s pt src "None :: u64 option" i mx acc rule: fetchstr_loop.induct)
  case (1 s pt src i mx acc)
  show ?case
  proof (cases "i < mx")
    case False
    then show ?thesis using "1.prems" by (simp add: fetchstr_loop.simps)
  next
    case True
    obtain u where u: "user_byte s pt True (src + of_nat i) = Some u"
      using "1.prems" True by (subst (asm) fetchstr_loop.simps) (auto split: Option.bind_splits)
    show ?thesis
    proof (cases u)
      case None
      then show ?thesis using "1.prems" True u by (simp add: fetchstr_loop.simps [of s])
    next
      case (Some a)
      show ?thesis
      proof (cases "pmem s a = 0")
        case True
        then have "r = int i" "bs = acc @ [0]" "s' = s"
          using "1.prems" \<open>i < mx\<close> u Some by (auto simp: fetchstr_loop.simps [of s])
        then show ?thesis using u Some True \<open>i < mx\<close> by (auto intro!: exI [of _ "[]"])
      next
        case False
        let ?c = "pmem s a"
        have rest: "fetchstr_loop s pt src None (Suc i) mx (acc @ [?c]) = Some (r, bs, s')"
          using "1.prems" \<open>i < mx\<close> u Some False by (simp add: fetchstr_loop.simps [of s pt src None i])
        have ih: "s' = s \<and> (r = -1 \<or>
          (\<exists>as. bs = (acc @ [?c]) @ as @ [0] \<and> r = int (Suc i + length as) \<and> Suc i + length as < mx \<and> 0 \<notin> set as \<and>
            (\<forall>k \<le> length as. \<exists>a. user_byte s pt True (src + of_nat (Suc i + k)) = Some (Some a) \<and> pmem s a = (as @ [0]) ! k)))"
          using "1.hyps" [OF \<open>i < mx\<close> u Some refl _ False] rest by simp
        then show ?thesis
        proof (elim conjE disjE exE)
          fix as assume as: "s' = s" "bs = (acc @ [?c]) @ as @ [0]" "r = int (Suc i + length as)" "Suc i + length as < mx"
            "0 \<notin> set as" "\<forall>k \<le> length as. \<exists>a. user_byte s pt True (src + of_nat (Suc i + k)) = Some (Some a) \<and> pmem s a = (as @ [0]) ! k"
          have "\<exists>a. user_byte s pt True (src + of_nat (i + k)) = Some (Some a) \<and> pmem s a = ((?c # as) @ [0]) ! k"
            if "k \<le> length (?c # as)" for k
            using as(6) u Some that by (cases k) (auto simp: add.assoc)
          then show ?thesis using as False by (intro conjI disjI2 exI [of _ "?c # as"]) auto
        qed simp
      qed
    qed
  qed
qed

section \<open>A small address space\<close>

text \<open>Process 0 running, with one user page mapped at 0.\<close>

definition tiny_mem :: mem where
  "tiny_mem = store64 (store64 (store64 (\<lambda>_. 0) 0x80001000 (PA2PTE 0x80002000 OR PTE_V))
     0x80002000 (PA2PTE 0x80003000 OR PTE_V)) 0x80003000 (PA2PTE 0x80004000 OR (PTE_V OR PTE_R OR PTE_W OR PTE_U))"

definition tiny_user :: proc_st where
  "tiny_user = one_running\<lparr>pmem := tiny_mem(0x80004000 := 47, 0x80004001 := 97),
     procs := (\<lambda>_. zero_proc)(0 := zero_proc\<lparr>status := TASK_RUNNING, pid := 1, pagetable := 0x80001000,
       trapframe := 0x80005000, psz := 4096\<rparr>)\<rparr>"

lemma load64_upd_other:
  assumes "8 \<le> unat (x - a)"
  shows "load64 (m(x := v)) a = load64 m a"
proof -
  have "x \<noteq> a + of_nat i" if "i < 8" for i
  proof
    assume "x = a + of_nat i"
    then have "unat (x - a) = i" using that by (simp add: unat_of_nat_small)
    then show False using assms that by simp
  qed
  then show ?thesis unfolding load64_def by (intro arg_cong [of _ _ le_word] mem_read_cong) auto
qed

lemma tiny_ptes:
  "load64 (tiny_mem(0x80004000 := 47, 0x80004001 := 97)) 0x80001000 = PA2PTE 0x80002000 OR PTE_V"
  "load64 (tiny_mem(0x80004000 := 47, 0x80004001 := 97)) 0x80002000 = PA2PTE 0x80003000 OR PTE_V"
  "load64 (tiny_mem(0x80004000 := 47, 0x80004001 := 97)) 0x80003000 = PA2PTE 0x80004000 OR (PTE_V OR PTE_R OR PTE_W OR PTE_U)"
  by (simp_all add: load64_upd_other) (simp_all add: tiny_mem_def load_store_other aligned_def)

lemma tiny_user_simps [simp]:
  "myproc tiny_user = Some 0" "pagetable (procs tiny_user 0) = 0x80001000" "trapframe (procs tiny_user 0) = 0x80005000"
  "pmem tiny_user = tiny_mem(0x80004000 := 47, 0x80004001 := 97)" "psz (procs tiny_user 0) = 4096"
  by (simp_all add: tiny_user_def one_running_def myproc_def)

lemma user_byte_walk:
  assumes "va < 4096" and "load64 (pmem t) 0x80001000 = PA2PTE 0x80002000 OR PTE_V"
    and "load64 (pmem t) 0x80002000 = PA2PTE 0x80003000 OR PTE_V"
    and "load64 (pmem t) 0x80003000 = PA2PTE 0x80004000 OR (PTE_V OR PTE_R OR PTE_W OR PTE_U)"
  shows "user_byte t 0x80001000 u va = Some (Some (0x80004000 + va))"
proof -
  have z: "PGROUNDDOWN va = 0"
  proof -
    have "unat va < 4096" using assms(1) by (simp add: word_less_nat_alt)
    then have "unat (va AND mask 12) = unat va"
      by (simp add: take_bit_eq_mask [symmetric] take_bit_eq_mod unat_mod_distrib)
    then have "va AND mask 12 = va" by (simp only: unsigned_word_eqI)
    then show ?thesis using page_off [of va] by simp
  qed
  have px: "PX k 0 = 0" for k by (simp add: PX_def)
  have "walk_loop t 0x80001000 0 False (Suc (Suc 0)) = (0x80003000, t)"
    by (simp add: px assms(2-4) kdefs PA2PTE_def PTE2PA_def Let_def)
  then have "walk_loop t 0x80001000 0 False 2 = (0x80003000, t)" by (simp only: numeral_2_eq_2)
  moreover have "\<not> MAXVA \<le> 0" by (simp add: MAXVA_def)
  ultimately show ?thesis
    by (simp add: user_byte_def z walk_def assms(2-4) kdefs PA2PTE_def PTE2PA_def Let_def)
qed

lemma tiny_user_byte: "va < 4096 \<Longrightarrow> user_byte tiny_user 0x80001000 u va = Some (Some (0x80004000 + va))"
  by (rule user_byte_walk) (simp_all add: tiny_ptes)

section \<open>Properties\<close>

text \<open>
  \<open>safestrcpy\<close> stores at most \<open>n\<close> bytes, always leaves a
  terminated string, and what it leaves is the longest prefix of the source that fits.
\<close>

theorem safestrcpy_bounded:
  assumes "0 < n" and "nat n \<le> length s"
  shows "cstr (safestrcpy s t n) = take (nat n - 1) (cstr t) \<and> strlen (safestrcpy s t n) < nat n \<and>
    length (safestrcpy s t n) = length s \<and> drop (nat n) (safestrcpy s t n) = drop (nat n) s"
  using safestrcpy_copy [OF assms] assms by (simp add: strlen_cstr)

theorem safestrcpy_bounded_witness:
  "cstr (safestrcpy [1, 1, 1, 1] [97, 98, 99, 100] 3) = [97, 98] \<and>
   drop 3 (safestrcpy [1, 1, 1, 1] [97, 98, 99, 100] 3) = [1]"
  using safestrcpy_bounded [of 3 "[1, 1, 1, 1]" "[97, 98, 99, 100]"] by (simp add: numeral_3_eq_3)

end
