(* ===== verification/Dir.thy ===== *)
theory Dir
  imports File_Write Sysargs
begin

text \<open>
  Directories and path names: the second half of \<open>kernel/fs/fs.c\<close>. A directory is a
  file of 16-byte entries; a file name in memory is the 14-byte array \<open>name\<close> of the
  code, terminated only when it is shorter than 14 bytes. A path is the byte array that
  holds it. Looked-up inodes are indices into the inode cache, \<^term>\<open>None\<close> for NULL.
\<close>

section \<open>Directory entries\<close>

definition de_size :: nat where [kdefs]: "de_size = 16"

definition de_inum :: "u8 list \<Rightarrow> u16" where "de_inum de = le_word (take 2 de)"
definition de_name :: "u8 list \<Rightarrow> u8 list" where "de_name de = drop 2 de"

definition encode_dirent :: "u16 \<Rightarrow> u8 list \<Rightarrow> u8 list" where
  "encode_dirent inum name = le_bytes 2 inum @ name"

text \<open>The comparison loop of \<open>dirlookup\<close> over the remaining \<open>n\<close> characters.\<close>

fun name_match :: "nat \<Rightarrow> u8 list \<Rightarrow> u8 list \<Rightarrow> bool" where
  "name_match 0 d name = True"
| "name_match (Suc n) d name =
     (if cchar d 0 \<noteq> cchar name 0 then False
      else if cchar d 0 = 0 then True
      else name_match n (tl d) (tl name))"

partial_function (option) dirlookup_loop ::
  "'a fs_st_scheme \<Rightarrow> nat \<Rightarrow> u8 list \<Rightarrow> u32 \<Rightarrow> ((nat \<times> u32) option \<times> 'a fs_st_scheme) option" where
  "dirlookup_loop s dp name off =
     (if off < i_size (icache s dp)
      then do { (de, s) \<leftarrow> readi s dp DLocal off (of_nat de_size);
                if length de \<noteq> de_size then None  \<comment> \<open>panic: dirlookup: read error\<close>
                else if de_inum de \<noteq> 0 \<and> name_match DIRSIZ (de_name de) name
                then do { (ip, s) \<leftarrow> iget s (i_dev (icache s dp)) (ucast (de_inum de)); Some (Some (ip, off), s) }
                else dirlookup_loop s dp name (off + of_nat de_size) }
      else Some (None, s))"

definition dirlookup ::
  "'a fs_st_scheme \<Rightarrow> nat \<Rightarrow> u8 list \<Rightarrow> ((nat \<times> u32) option \<times> 'a fs_st_scheme) option" where
  "dirlookup s dp name =
     (if i_type (icache s dp) \<noteq> T_DIR then None  \<comment> \<open>panic: dirlookup: not a directory\<close>
      else dirlookup_loop s dp name 0)"

text \<open>The search of \<open>dirlink\<close> for an empty entry: its offset, or the first one past the end.\<close>

partial_function (option) dirlink_slot :: "'a fs_st_scheme \<Rightarrow> nat \<Rightarrow> u32 \<Rightarrow> (u32 \<times> 'a fs_st_scheme) option" where
  "dirlink_slot s dp off =
     (if off < i_size (icache s dp)
      then do { (de, s) \<leftarrow> readi s dp DLocal off (of_nat de_size);
                if length de \<noteq> de_size then None  \<comment> \<open>panic: dirlink: readi\<close>
                else if de_inum de = 0 then Some (off, s)
                else dirlink_slot s dp (off + of_nat de_size) }
      else Some (off, s))"

definition dirlink :: "'a fs_st_scheme \<Rightarrow> nat \<Rightarrow> u8 list \<Rightarrow> u32 \<Rightarrow> (int \<times> 'a fs_st_scheme) option" where
  "dirlink s dp name inum =
     do { (r, s) \<leftarrow> dirlookup s dp name;
          (case r of
             Some (ip, _) \<Rightarrow> do { s \<leftarrow> iput ip s; Some (-1, s) }
           | None \<Rightarrow>
               do { (off, s) \<leftarrow> dirlink_slot s dp 0;
                    let de = encode_dirent (ucast inum) (safestrcpy (replicate DIRSIZ 0) name (int DIRSIZ));
                    (n, s) \<leftarrow> writei s dp off de;
                    Some (if n \<noteq> int de_size then -1 else 0, s) }) }"

section \<open>Path names\<close>

text \<open>\<open>47\<close> is the slash. The result is the rest of the path and the new contents of \<open>name\<close>.\<close>

definition skipelem :: "u8 list \<Rightarrow> u8 list \<Rightarrow> (u8 list \<times> u8 list) option" where
  "skipelem path name =
     (let path = dropWhile (\<lambda>c. c = 47) path in
      if cchar path 0 = 0 then None
      else let el = takeWhile (\<lambda>c. c \<noteq> 47 \<and> c \<noteq> 0) path;
               path = drop (length el) path;
               name = (if DIRSIZ \<le> length el then overwrite name 0 (take DIRSIZ el)
                       else overwrite name 0 (el @ [0]))
           in Some (dropWhile (\<lambda>c. c = 47) path, name))"

lemma skipelem_shorter: "skipelem path name = Some (path', name') \<Longrightarrow> length path' < length path"
proof -
  assume e: "skipelem path name = Some (path', name')"
  define q where "q = dropWhile (\<lambda>c. c = 47) path"
  define el where "el = takeWhile (\<lambda>c. c \<noteq> 47 \<and> c \<noteq> 0) q"
  have q: "cchar q 0 \<noteq> 0" "path' = dropWhile (\<lambda>c. c = 47) (drop (length el) q)"
    using e by (auto simp: skipelem_def Let_def q_def el_def split: if_splits)
  have "q \<noteq> []" using q(1) by auto
  then have "hd q \<noteq> 47" unfolding q_def using hd_dropWhile by blast
  then have "el \<noteq> []" using q(1) \<open>q \<noteq> []\<close> by (cases q) (auto simp: el_def)
  moreover have "length path' \<le> length (drop (length el) q)" unfolding q(2) by (rule length_dropWhile_le)
  moreover have "length q \<le> length path" unfolding q_def by (rule length_dropWhile_le)
  ultimately show ?thesis using \<open>q \<noteq> []\<close> by (cases q; cases el) auto
qed

text \<open>The starting point: the root, or the current directory of the process.\<close>

definition namei_start :: "'a fs_st_scheme \<Rightarrow> u8 list \<Rightarrow> (nat \<times> 'a fs_st_scheme) option" where
  "namei_start s path =
     (if cchar path 0 = 47 then iget s ROOTDEV ROOTINO
      else do { p \<leftarrow> myproc s;
                (case cwd (procs s p) of
                   None \<Rightarrow> iget s ROOTDEV ROOTINO
                 | Some ip \<Rightarrow> Some (ip, idup ip s)) })"

function namei_loop ::
  "'a fs_st_scheme \<Rightarrow> nat \<Rightarrow> u8 list \<Rightarrow> u8 list \<Rightarrow> (nat option \<times> 'a fs_st_scheme) option" where
  "namei_loop s ip path name =
     (case skipelem path name of
        None \<Rightarrow> Some (Some ip, s)
      | Some (path', name') \<Rightarrow>
          do { s \<leftarrow> ilock ip s;
               if i_type (icache s ip) \<noteq> T_DIR
               then do { s \<leftarrow> iunlockput ip s; Some (None, s) }
               else do { (r, s) \<leftarrow> dirlookup s ip name';
                         s \<leftarrow> iunlockput ip s;
                         (case r of
                            None \<Rightarrow> Some (None, s)
                          | Some (nxt, _) \<Rightarrow> namei_loop s nxt path' name') } })"
  by pat_completeness auto
termination
  by (relation "measure (\<lambda>(s, ip, path, name). length path)") (auto dest: skipelem_shorter)

declare namei_loop.simps [simp del]

definition namei :: "'a fs_st_scheme \<Rightarrow> u8 list \<Rightarrow> (nat option \<times> 'a fs_st_scheme) option" where
  "namei s path = do { (ip, s) \<leftarrow> namei_start s path; namei_loop s ip path (replicate DIRSIZ 0) }"

function nameiparent_loop ::
  "'a fs_st_scheme \<Rightarrow> nat \<Rightarrow> u8 list \<Rightarrow> u8 list \<Rightarrow> ((nat \<times> u8 list) option \<times> 'a fs_st_scheme) option" where
  "nameiparent_loop s ip path name =
     (case skipelem path name of
        None \<Rightarrow> do { s \<leftarrow> iput ip s; Some (None, s) }
      | Some (path', name') \<Rightarrow>
          do { s \<leftarrow> ilock ip s;
               if i_type (icache s ip) \<noteq> T_DIR
               then do { s \<leftarrow> iunlockput ip s; Some (None, s) }
               else if cchar path' 0 = 0
               then do { s \<leftarrow> iunlock ip s; Some (Some (ip, name'), s) }
               else do { (r, s) \<leftarrow> dirlookup s ip name';
                         s \<leftarrow> iunlockput ip s;
                         (case r of
                            None \<Rightarrow> Some (None, s)
                          | Some (nxt, _) \<Rightarrow> nameiparent_loop s nxt path' name') } })"
  by pat_completeness auto
termination
  by (relation "measure (\<lambda>(s, ip, path, name). length path)") (auto dest: skipelem_shorter)

declare nameiparent_loop.simps [simp del]

text \<open>The parent directory and the array with the last name of the path.\<close>

definition nameiparent ::
  "'a fs_st_scheme \<Rightarrow> u8 list \<Rightarrow> ((nat \<times> u8 list) option \<times> 'a fs_st_scheme) option" where
  "nameiparent s path = do { (ip, s) \<leftarrow> namei_start s path; nameiparent_loop s ip path (replicate DIRSIZ 0) }"

section \<open>Mounting and status\<close>

definition decode_superblock :: "u8 list \<Rightarrow> superblock" where
  "decode_superblock d = \<lparr>magic = get32 d 0, sb_size = get32 d 1, nblocks = get32 d 2, ninodes = get32 d 3,
     nlog = get32 d 4, logstart = get32 d 5, inodestart = get32 d 6, bmapstart = get32 d 7\<rparr>"

definition fsinit :: "u32 \<Rightarrow> 'a fs_st_scheme \<Rightarrow> 'a fs_st_scheme option" where
  "fsinit dev s =
     do { let s = binit s;  \<comment> \<open>and virtio_disk_init: the driver is behind the contract disk_rw\<close>
          (bp, s) \<leftarrow> bread s dev 1;
          let s = s\<lparr>sb := decode_superblock (bdata s bp)\<rparr>;
          let s = brelse bp s;
          if magic (sb s) \<noteq> FSMAGIC then None  \<comment> \<open>panic: invalid file system\<close>
          else Some (s\<lparr>icache := (\<lambda>i. if i < NINODE then (icache s i)\<lparr>i_ref := 0, i_valid := False\<rparr>
                                     else icache s i)\<rparr>) }"

text \<open>\<open>struct stat\<close> as the bytes that \<open>filestat\<close> copies out.\<close>

definition stati :: "inode \<Rightarrow> u8 list" where
  "stati ip = le_bytes 4 (i_dev ip) @ le_bytes 4 (i_inum ip) @ le_bytes 2 (i_type ip) @ le_bytes 2 (i_nlink ip) @
     replicate 4 0 @ le_bytes 8 (ucast (i_size ip) :: u64) @ le_bytes 8 (1 :: u64) @ le_bytes 8 (1 :: u64) @
     le_bytes 8 (1 :: u64) @ replicate 8 0"

section \<open>The contents of a directory\<close>

definition dent :: "u8 list \<Rightarrow> nat \<Rightarrow> u8 list" where
  "dent c k = take de_size (drop (de_size * k) c)"

definition hit :: "u8 list \<Rightarrow> u8 list \<Rightarrow> bool" where
  "hit de name \<longleftrightarrow> de_inum de \<noteq> 0 \<and> take DIRSIZ (cstr (de_name de)) = take DIRSIZ (cstr name)"

text \<open>What a directory maps a name to: the offset and inode number of its first entry with that name.\<close>

definition dir_find :: "u8 list \<Rightarrow> u8 list \<Rightarrow> (nat \<times> u16) option" where
  "dir_find c name =
     map_option (\<lambda>k. (de_size * k, de_inum (dent c k)))
       (List.find (\<lambda>k. hit (dent c k) name) [0..<length c div de_size])"

definition dir_ok :: "'a fs_st_scheme \<Rightarrow> nat \<Rightarrow> nat multiset \<Rightarrow> bool" where
  "dir_ok s dp H \<longleftrightarrow> file_inv s dp H \<and> size H + 1 < NBUF \<and> dense s dp \<and> i_type (icache s dp) = T_DIR \<and>
     de_size dvd unat (i_size (icache s dp))"

lemma name_match_iff: "name_match n d name \<longleftrightarrow> take n (cstr d) = take n (cstr name)"
proof (induction n arbitrary: d name)
  case (Suc n)
  show ?case
  proof (cases d)
    case Nil
    then show ?thesis by (cases name) auto
  next
    case (Cons a as)
    then show ?thesis using Suc.IH [of as] by (cases name) auto
  qed
qed simp

lemma find_append: "List.find P (xs @ ys) = (case List.find P xs of None \<Rightarrow> List.find P ys | Some x \<Rightarrow> Some x)"
  by (induction xs) auto

lemma overwrite_outside:
  assumes "off \<le> length xs" and "i < length xs" and "i < off \<or> off + length ys \<le> i"
  shows "overwrite xs off ys ! i = xs ! i"
proof (cases "i < off")
  case False
  then have i: "off + length ys \<le> i" using assms(3) by simp
  have "overwrite xs off ys ! i = drop (off + length ys) xs ! (i - (off + length ys))"
  proof -
    have "\<not> i < off" "\<not> i - off < length ys" "i - off - length ys = i - (off + length ys)" using i by auto
    then show ?thesis using assms(1) by (simp add: overwrite_def nth_append)
  qed
  also have "\<dots> = xs ! i" using assms(2) i by simp
  finally show ?thesis .
qed (use assms in \<open>simp add: overwrite_def nth_append\<close>)

lemma dent_overwrite:
  assumes "de_size * j \<le> length c" and "length de = de_size" and "k \<noteq> j \<Longrightarrow> de_size * k + de_size \<le> length c"
  shows "dent (overwrite c (de_size * j) de) k = (if k = j then de else dent c k)"
proof (cases "k = j")
  case True
  then show ?thesis using assms by (simp add: dent_def overwrite_def)
next
  case False
  have l: "length (overwrite c (de_size * j) de) = max (length c) (de_size * j + de_size)"
    using assms by (auto simp: overwrite_def)
  show ?thesis
  proof (rule nth_equalityI)
    show "length (dent (overwrite c (de_size * j) de) k) = length (if k = j then de else dent c k)"
      using False assms(3) l by (simp add: dent_def)
    fix i assume "i < length (dent (overwrite c (de_size * j) de) k)"
    then have i: "i < de_size" by (simp add: dent_def)
    have "de_size * k + i < de_size * j \<or> de_size * j + de_size \<le> de_size * k + i"
      using False i by (auto simp: de_size_def)
    then have "overwrite c (de_size * j) de ! (de_size * k + i) = c ! (de_size * k + i)"
      using False i assms(3) by (intro overwrite_outside [OF assms(1)]) (simp_all add: assms(2))
    moreover have "de_size * k + de_size \<le> length (overwrite c (de_size * j) de)" using False assms(3) l by simp
    ultimately show "dent (overwrite c (de_size * j) de) k ! i = (if k = j then de else dent c k) ! i"
      using False i assms(3) by (simp add: dent_def)
  qed
qed

text \<open>Storing an entry over an empty one, or at the end.\<close>

lemma dir_find_store:
  assumes "length c = de_size * n" and "j \<le> n" and "j < n \<Longrightarrow> de_inum (dent c j) = 0" and "length de = de_size"
  shows "\<not> hit de name \<Longrightarrow> dir_find (overwrite c (de_size * j) de) name = dir_find c name"
    and "hit de name \<Longrightarrow> dir_find c name = None \<Longrightarrow>
      dir_find (overwrite c (de_size * j) de) name = Some (de_size * j, de_inum de)"
proof -
  let ?c' = "overwrite c (de_size * j) de"
  have d: "dent ?c' k = (if k = j then de else dent c k)" if "k < n \<or> k = j" for k
    using assms that by (intro dent_overwrite) (auto simp: de_size_def)
  have p: "de_size > 0" by (simp add: de_size_def)
  have n: "length c div de_size = n" using assms(1) p by simp
  have l: "length ?c' = (if j < n then de_size * n else de_size * Suc n)"
    using assms by (auto simp: overwrite_def de_size_def)
  have n': "length ?c' div de_size = (if j < n then n else Suc n)"
    unfolding l using p by (simp del: mult_Suc_right)
  have old: "\<not> hit (dent c j) name" if "j < n" using assms(3) that by (simp add: hit_def)
  let ?f = "List.find (\<lambda>k. hit (dent ?c' k) name)" and ?g = "List.find (\<lambda>k. hit (dent c k) name)"
  show "dir_find ?c' name = dir_find c name" if h: "\<not> hit de name"
  proof -
    have eq: "?f [0..<n] = ?g [0..<n]"
      using d old h by (intro find_cong) (auto split: if_splits)
    have "?f [0..<length ?c' div de_size] = ?g [0..<n]"
    proof (cases "j < n")
      case True
      then show ?thesis using n' eq by simp
    next
      case False
      then have jn: "j = n" using assms(2) by simp
      then have "\<not> hit (dent ?c' n) name" using d [of n] h by simp
      then show ?thesis using n' jn eq by (simp add: find_append split: option.splits)
    qed
    moreover have "dent ?c' k = dent c k" if "?g [0..<n] = Some k" for k
      using find_SomeD [OF that] d [of k] old h by (cases "k = j") auto
    ultimately show ?thesis unfolding dir_find_def n by (cases "?g [0..<n]") simp_all
  qed
  show "dir_find ?c' name = Some (de_size * j, de_inum de)" if h: "hit de name" and no: "dir_find c name = None"
  proof -
    have nh: "\<not> hit (dent c k) name" if "k < n" for k
      using no that n by (auto simp: dir_find_def find_None_iff)
    have "?f [0..<length ?c' div de_size] = Some j"
    proof (rule find_unique)
      show "j \<in> set [0..<length ?c' div de_size]" using assms(2) n' by auto
      show "hit (dent ?c' j) name" using d [of j] h by simp
      fix k assume k: "k \<in> set [0..<length ?c' div de_size]" "hit (dent ?c' k) name"
      then have "k < n \<or> k = j" using n' assms(2) by (auto split: if_splits)
      then show "k = j" using d [of k] k(2) nh [of k] by (cases "k = j") auto
    qed
    then show ?thesis using d [of j] by (simp add: dir_find_def)
  qed
qed

section \<open>Lookup and link\<close>

text \<open>Reading an entry of a well-formed directory.\<close>

definition same_fs :: "'a fs_st_scheme \<Rightarrow> 'a fs_st_scheme \<Rightarrow> bool" where
  "same_fs s s' \<longleftrightarrow> disk_blocks s' = disk_blocks s \<and> blk_rest s' = blk_rest s"

lemma same_fs_dir:
  assumes "same_fs s s'" and "dir_ok s dp H" and "file_inv s' dp H"
  shows "dir_ok s' dp H" and "content s' dp = content s dp" and "icache s' = icache s"
proof -
  note ic = blk_rest_fs(1) [of s' s]
  have f: "disk_blocks s' = disk_blocks s" "icache s' = icache s" using assms(1) ic by (auto simp: same_fs_def)
  have inv: "file_inv s dp H" using assms(2) by (simp add: dir_ok_def)
  note ff = fs_same_file [OF inv f]
  show "dir_ok s' dp H" using assms(2,3) ff f(2) by (simp add: dir_ok_def)
  show "content s' dp = content s dp" "icache s' = icache s" by (fact ff(3) f(2))+
qed

lemma read_entry:
  assumes "dir_ok s dp H" and "unat off = de_size * k" and "off < i_size (icache s dp)"
  shows "\<exists>s'. readi s dp DLocal off (of_nat de_size) = Some (dent (content s dp) k, s') \<and>
    length (dent (content s dp) k) = de_size \<and> file_inv s' dp H \<and> same_fs s s'"
    and "unat (off + of_nat de_size) = de_size * Suc k" and "Suc k \<le> unat (i_size (icache s dp)) div de_size"
proof -
  note d = assms(1) [unfolded dir_ok_def]
  let ?z = "unat (i_size (icache s dp))"
  obtain n where n: "?z = de_size * n" using d by (auto simp: dvd_def)
  have "de_size * k < de_size * n" using assms(2,3) n by (simp add: word_less_nat_alt)
  then have k: "k < n" by simp
  then have le: "de_size * Suc k \<le> ?z" unfolding n by (intro mult_le_mono2) simp
  then show "Suc k \<le> ?z div de_size" unfolding n using k by (simp add: de_size_def)
  have lt: "unat off + de_size < 2 ^ 32" using le assms(2) unat_u32 [of "i_size (icache s dp)"] by simp
  then show u: "unat (off + of_nat de_size) = de_size * Suc k"
    using assms(2) by (subst unat_add_small) simp_all
  then have "\<not> off + of_nat de_size < off" using assms(2) by (simp add: word_less_nat_alt)
  moreover have "unat (of_nat de_size :: u32) = de_size" by (simp add: de_size_def)
  moreover have "length (dent (content s dp) k) = de_size" using le by (simp add: dent_def)
  ultimately show "\<exists>s'. readi s dp DLocal off (of_nat de_size) = Some (dent (content s dp) k, s') \<and>
    length (dent (content s dp) k) = de_size \<and> file_inv s' dp H \<and> same_fs s s'"
    using readi_content [of s dp H off "of_nat de_size"] d assms(2) by (auto simp: dent_def same_fs_def)
qed

lemma entry_below:
  assumes "unat off = de_size * k" and "k < unat (i_size (icache s dp)) div de_size"
  shows "off < i_size (icache s dp)"
proof -
  have "de_size * k < de_size * (unat (i_size (icache s dp)) div de_size)" using assms(2) by (simp add: de_size_def)
  also have "\<dots> \<le> unat (i_size (icache s dp))" by (rule times_div_less_eq_dividend)
  finally show ?thesis unfolding word_less_nat_alt assms(1) .
qed

lemma entry_end:
  assumes "dir_ok s dp H" and "unat off = de_size * k" and "unat (i_size (icache s dp)) div de_size \<le> k"
    and "k \<le> unat (i_size (icache s dp)) div de_size"
  shows "\<not> off < i_size (icache s dp)" and "unat off = unat (i_size (icache s dp))"
proof -
  have "de_size dvd unat (i_size (icache s dp))" using assms(1) by (simp add: dir_ok_def)
  moreover have "k = unat (i_size (icache s dp)) div de_size" using assms(3,4) by simp
  ultimately show "unat off = unat (i_size (icache s dp))" using assms(2) by (simp add: dvd_mult_div_cancel)
  then show "\<not> off < i_size (icache s dp)" by (simp add: word_less_nat_alt)
qed

lemma same_fs_refl: "same_fs s s"
  by (simp add: same_fs_def)

lemma same_fs_trans: "same_fs s s1 \<Longrightarrow> same_fs s1 s2 \<Longrightarrow> same_fs s s2"
  by (simp add: same_fs_def)

lemma dirlookup_loop_ok:
  assumes "dir_ok s dp H" and "unat off = de_size * k" and "k \<le> unat (i_size (icache s dp)) div de_size"
  shows "\<exists>s'. file_inv s' dp H \<and> same_fs s s' \<and> dirlookup_loop s dp name off =
    (case List.find (\<lambda>k. hit (dent (content s dp) k) name) [k..<unat (i_size (icache s dp)) div de_size] of
       None \<Rightarrow> Some (None, s')
     | Some j \<Rightarrow> do { (ip, t) \<leftarrow> iget s' ROOTDEV (ucast (de_inum (dent (content s dp) j)));
                     Some (Some (ip, of_nat (de_size * j)), t) })"
  using assms
proof (induction "unat (i_size (icache s dp)) div de_size - k" arbitrary: s off k)
  case 0
  then have e: "unat (i_size (icache s dp)) div de_size = k" by simp
  then have "\<not> off < i_size (icache s dp)" using entry_end [OF 0(2,3)] by simp
  then show ?case using 0(2) e by (auto simp: dirlookup_loop.simps same_fs_refl dir_ok_def)
next
  case (Suc m)
  let ?n = "unat (i_size (icache s dp)) div de_size" and ?c = "content s dp"
  have kn: "k < ?n" using Suc.hyps(2) by simp
  have lt: "off < i_size (icache s dp)" by (rule entry_below [OF Suc.prems(2) kn])
  note re = read_entry [OF Suc.prems(1,2) lt]
  obtain s1 where 1: "readi s dp DLocal off (of_nat de_size) = Some (dent ?c k, s1)"
    "length (dent ?c k) = de_size" "file_inv s1 dp H" "same_fs s s1" using re(1) by blast
  note s1 = same_fs_dir [OF 1(4) Suc.prems(1) 1(3)]
  have dev: "i_dev (icache s1 dp) = ROOTDEV" using file_invD(4) [OF 1(3)] .
  have up: "[k..<?n] = k # [Suc k..<?n]" using kn by (rule upt_conv_Cons)
  have of: "of_nat (de_size * k) = off" using Suc.prems(2) by (metis of_nat_unat ucast_id)
  show ?case
  proof (cases "hit (dent ?c k) name")
    case True
    then have "de_inum (dent ?c k) \<noteq> 0 \<and> name_match DIRSIZ (de_name (dent ?c k)) name" by (simp add: hit_def name_match_iff)
    then show ?thesis using True lt 1 dev of by (subst dirlookup_loop.simps) (auto simp: up)
  next
    case False
    then have nh: "\<not> (de_inum (dent ?c k) \<noteq> 0 \<and> name_match DIRSIZ (de_name (dent ?c k)) name)"
      by (simp add: hit_def name_match_iff)
    have "dirlookup_loop s dp name off = dirlookup_loop s1 dp name (off + of_nat de_size)"
      using lt 1 nh by (subst dirlookup_loop.simps) auto
    moreover have "m = unat (i_size (icache s1 dp)) div de_size - Suc k" using Suc.hyps(2) s1(3) by simp
    from Suc.hyps(1) [OF this s1(1) re(2)] re(3) obtain s2 where "file_inv s2 dp H" "same_fs s1 s2"
      "dirlookup_loop s1 dp name (off + of_nat de_size) =
        (case List.find (\<lambda>k. hit (dent ?c k) name) [Suc k..<?n] of
           None \<Rightarrow> Some (None, s2)
         | Some j \<Rightarrow> do { (ip, t) \<leftarrow> iget s2 ROOTDEV (ucast (de_inum (dent ?c j)));
                     Some (Some (ip, of_nat (de_size * j)), t) })"
      unfolding s1(2,3) by blast
    ultimately show ?thesis using False 1(4) same_fs_trans up by auto
  qed
qed

lemma dirlookup_ok:
  assumes "dir_ok s dp H"
  shows "\<exists>s'. file_inv s' dp H \<and> same_fs s s' \<and> dirlookup s dp name =
    (case dir_find (content s dp) name of
       None \<Rightarrow> Some (None, s')
     | Some (off, inum) \<Rightarrow> do { (ip, t) \<leftarrow> iget s' ROOTDEV (ucast inum); Some (Some (ip, of_nat off), t) })"
proof -
  let ?f = "List.find (\<lambda>k. hit (dent (content s dp) k) name) [0..<unat (i_size (icache s dp)) div de_size]"
  have "dir_find (content s dp) name = map_option (\<lambda>k. (de_size * k, de_inum (dent (content s dp) k))) ?f"
    by (simp add: dir_find_def)
  moreover have "i_type (icache s dp) = T_DIR" using assms by (simp add: dir_ok_def)
  ultimately show ?thesis using dirlookup_loop_ok [OF assms, of 0 0 name]
    by (cases ?f) (simp_all add: dirlookup_def)
qed

text \<open>
  What \<open>iget\<close> promises while the inode cache has a free entry: one more reference to an entry for
  the inode, the one that is already in use if there is one, and nothing else changed.
\<close>

definition got_inode :: "'a fs_st_scheme \<Rightarrow> u32 \<Rightarrow> u32 \<Rightarrow> nat \<Rightarrow> 'a fs_st_scheme \<Rightarrow> bool" where
  "got_inode s dev n ip t \<longleftrightarrow> ip < NINODE \<and> i_dev (icache t ip) = dev \<and> i_inum (icache t ip) = n \<and>
     (if \<exists>j < NINODE. 0 < i_ref (icache s j) \<and> i_dev (icache s j) = dev \<and> i_inum (icache s j) = n
      then 0 < i_ref (icache s ip) \<and> icache t ip = (icache s ip)\<lparr>i_ref := i_ref (icache s ip) + 1\<rparr>
      else i_ref (icache s ip) = 0 \<and> i_ref (icache t ip) = 1 \<and> \<not> i_valid (icache t ip)) \<and>
     (\<forall>j. j \<noteq> ip \<longrightarrow> icache t j = icache s j) \<and> disk_blocks t = disk_blocks s"

lemma iget_got:
  assumes "i < NINODE" and "i_ref (icache s i) = 0"
  shows "\<exists>ip t. iget s dev n = Some (ip, t) \<and> got_inode s dev n ip t"
proof -
  let ?P = "\<lambda>ip. let i = icache s ip in 0 < i_ref i \<and> i_dev i = dev \<and> i_inum i = n"
  have u: "icache (upd_inode ip f s) j = (if j = ip then f (icache s ip) else icache s j)"
    "disk_blocks (upd_inode ip f s) = disk_blocks s" for ip f j by (simp_all add: upd_inode_def)
  show ?thesis
  proof (cases "List.find ?P [0..<NINODE]")
    case (Some ip)
    with find_SomeD [OF Some] show ?thesis by (auto simp: iget_def got_inode_def Let_def u)
  next
    case None
    then have no: "\<not> (\<exists>j < NINODE. 0 < i_ref (icache s j) \<and> i_dev (icache s j) = dev \<and> i_inum (icache s j) = n)"
      by (auto simp: find_None_iff Let_def)
    obtain ip where ip: "List.find (\<lambda>ip. i_ref (icache s ip) = 0) [0..<NINODE] = Some ip"
      using assms by (cases "List.find (\<lambda>ip. i_ref (icache s ip) = 0) [0..<NINODE]") (auto simp: find_None_iff)
    with find_SomeD [OF ip] None show ?thesis unfolding got_inode_def if_not_P [OF no] by (simp add: iget_def u)
  qed
qed

lemma got_inode_cong:
  "icache s' = icache s \<Longrightarrow> disk_blocks s' = disk_blocks s \<Longrightarrow> got_inode s' dev n ip t = got_inode s dev n ip t"
  unfolding got_inode_def by (simp only:)

text \<open>\<open>dirlookup\<close> with a free entry in the inode cache.\<close>

lemma dirlookup_got:
  assumes "dir_ok s dp H" and "i < NINODE" and "i_ref (icache s i) = 0"
  shows "case dir_find (content s dp) name of
      None \<Rightarrow> \<exists>t. dirlookup s dp name = Some (None, t) \<and> disk_blocks t = disk_blocks s \<and> icache t = icache s
    | Some (off, inum) \<Rightarrow> \<exists>ip t. dirlookup s dp name = Some (Some (ip, of_nat off), t) \<and> got_inode s ROOTDEV (ucast inum) ip t"
proof -
  obtain s' where s': "file_inv s' dp H" "same_fs s s'" "dirlookup s dp name =
    (case dir_find (content s dp) name of
       None \<Rightarrow> Some (None, s')
     | Some (off, inum) \<Rightarrow> do { (ip, t) \<leftarrow> iget s' ROOTDEV (ucast inum); Some (Some (ip, of_nat off), t) })"
    using dirlookup_ok [OF assms(1)] by blast
  have ic: "icache s' = icache s" by (rule same_fs_dir(3) [OF s'(2) assms(1) s'(1)])
  have dk: "disk_blocks s' = disk_blocks s" using s'(2) by (simp add: same_fs_def)
  show ?thesis
  proof (cases "dir_find (content s dp) name")
    case (Some r)
    obtain off inum where r: "r = (off, inum)" by (cases r)
    obtain ip t where "iget s' ROOTDEV (ucast inum) = Some (ip, t)" "got_inode s' ROOTDEV (ucast inum) ip t"
      using iget_got [of i s' ROOTDEV "ucast inum"] assms(2,3) ic by auto
    then show ?thesis using Some r s'(3) got_inode_cong [OF ic dk] by auto
  qed (use s'(3) ic dk in auto)
qed

lemma dirlink_slot_ok:
  assumes "dir_ok s dp H" and "unat off = de_size * k" and "k \<le> n" and "n = unat (i_size (icache s dp)) div de_size"
  shows "\<exists>s' off' j. dirlink_slot s dp off = Some (off', s') \<and> file_inv s' dp H \<and> same_fs s s' \<and>
    unat off' = de_size * j \<and> j \<le> n \<and> (j < n \<longrightarrow> de_inum (dent (content s dp) j) = 0)"
  using assms
proof (induction "n - k" arbitrary: s off k)
  case 0
  then have e: "unat (i_size (icache s dp)) div de_size = k" by simp
  then have "\<not> off < i_size (icache s dp)" using entry_end [OF 0(2,3)] by simp
  then have "dirlink_slot s dp off = Some (off, s)" by (simp add: dirlink_slot.simps)
  then show ?case using 0 by (intro exI [of _ s] exI [of _ off] exI [of _ k]) (auto simp: same_fs_refl dir_ok_def)
next
  case (Suc m)
  let ?c = "content s dp"
  have kn: "k < n" using Suc.hyps(2) by simp
  have lt: "off < i_size (icache s dp)" using entry_below [OF Suc.prems(2)] kn Suc.prems(4) by simp
  note re = read_entry [OF Suc.prems(1,2) lt]
  obtain s1 where 1: "readi s dp DLocal off (of_nat de_size) = Some (dent ?c k, s1)"
    "length (dent ?c k) = de_size" "file_inv s1 dp H" "same_fs s s1" using re(1) by blast
  note s1 = same_fs_dir [OF 1(4) Suc.prems(1) 1(3)]
  show ?case
  proof (cases "de_inum (dent ?c k) = 0")
    case True
    then have "dirlink_slot s dp off = Some (off, s1)" using lt 1 by (subst dirlink_slot.simps) auto
    then show ?thesis using 1 Suc.prems(2) kn True by (intro exI [of _ s1] exI [of _ off] exI [of _ k]) auto
  next
    case False
    then have "dirlink_slot s dp off = dirlink_slot s1 dp (off + of_nat de_size)"
      using lt 1 by (subst dirlink_slot.simps) auto
    moreover have "m = n - Suc k" "Suc k \<le> n" using Suc.hyps(2) by simp_all
    from Suc.hyps(1) [OF this(1) s1(1) re(2) this(2)] Suc.prems(4) s1(3)
    obtain s2 off' j where "dirlink_slot s1 dp (off + of_nat de_size) = Some (off', s2)" "file_inv s2 dp H"
      "same_fs s1 s2" "unat off' = de_size * j" "j \<le> n" "j < n \<longrightarrow> de_inum (dent ?c j) = 0"
      unfolding s1(2,3) by blast
    ultimately show ?thesis using 1(4) same_fs_trans by (intro exI [of _ s2] exI [of _ off'] exI [of _ j]) auto
  qed
qed

text \<open>The entry that \<open>dirlink\<close> stores: names of 14 bytes and more lose their end.\<close>

lemma link_entry:
  fixes name inum defines "de \<equiv> encode_dirent (ucast inum) (safestrcpy (replicate DIRSIZ 0) name (int DIRSIZ))"
  shows "length de = de_size" and "de_inum de = ucast inum"
    and "cstr (de_name de) = take (DIRSIZ - 1) (cstr name)"
proof -
  let ?n = "safestrcpy (replicate DIRSIZ 0) name (int DIRSIZ)"
  have s: "length ?n = DIRSIZ" "cstr ?n = take (DIRSIZ - 1) (cstr name)"
    using safestrcpy_copy(1,2) [of "int DIRSIZ" "replicate DIRSIZ 0" name] by (simp_all add: DIRSIZ_def)
  show "length de = de_size" by (simp add: de_def encode_dirent_def s) (simp add: kdefs)
  show "de_inum de = ucast inum" by (simp add: de_def encode_dirent_def de_inum_def le_word_le_bytes)
  show "cstr (de_name de) = take (DIRSIZ - 1) (cstr name)" by (simp add: de_def encode_dirent_def de_name_def s)
qed

lemma dirlink_ok:
  assumes d: "dir_ok s dp H" and new: "dir_find (content s dp) name = None"
    and lim: "unat (i_size (icache s dp)) + de_size \<le> MAXFILE * BSIZE" and room: "3 \<le> nfree s"
  shows "\<exists>s' j de. dirlink s dp name inum = Some (0, s') \<and> dir_ok s' dp H \<and>
    content s' dp = overwrite (content s dp) (de_size * j) de \<and>
    (\<forall>m \<in> others s dp. disk_blocks s' m = disk_blocks s m) \<and>
    (\<exists>a z. icache s' = (icache s)(dp := (icache s dp)\<lparr>i_addrs := a, i_size := z\<rparr>)) \<and>
    de = encode_dirent (ucast inum) (safestrcpy (replicate DIRSIZ 0) name (int DIRSIZ)) \<and>
    j \<le> length (content s dp) div de_size \<and> (j < length (content s dp) div de_size \<longrightarrow> de_inum (dent (content s dp) j) = 0)"
proof -
  define de where "de = encode_dirent (ucast inum) (safestrcpy (replicate DIRSIZ 0) name (int DIRSIZ))"
  have de: "length de = de_size" unfolding de_def by (rule link_entry)
  obtain s1 where 1: "dirlookup s dp name = Some (None, s1)" "file_inv s1 dp H" "same_fs s s1"
    using dirlookup_ok [OF d, of name] new by auto
  note s1 = same_fs_dir [OF 1(3) d 1(2)]
  let ?n = "unat (i_size (icache s dp)) div de_size"
  obtain s2 off j where 2: "dirlink_slot s1 dp 0 = Some (off, s2)" "file_inv s2 dp H" "same_fs s1 s2"
    "unat off = de_size * j" "j \<le> ?n" "j < ?n \<longrightarrow> de_inum (dent (content s dp) j) = 0"
    using dirlink_slot_ok [OF s1(1), of 0 0 ?n] unfolding s1(2,3) by auto
  note s2 = same_fs_dir [OF 2(3) s1(1) 2(2)]
  let ?z = "unat (i_size (icache s dp))"
  have ic: "icache s2 = icache s" using s1(3) s2(3) by simp
  have dv: "de_size dvd ?z" using d by (simp add: dir_ok_def)
  have offz: "unat off \<le> ?z"
    using 2(5) mult_le_mono2 [OF 2(5), of de_size] dv by (simp add: 2(4) dvd_mult_div_cancel)
  have nd: "need s2 dp (unat off) de_size \<le> 1"
  proof -
    have "(de_size * j) mod BSIZE = de_size * (j mod 64)"
      using mult_mod_right [of de_size j 64] by (simp add: kdefs)
    moreover have "j mod 64 \<le> 63" using mod_less_divisor [of 64 j] by linarith
    ultimately have "unat off mod BSIZE + de_size \<le> BSIZE" by (simp add: 2(4) kdefs)
    then have "brange (unat off) de_size = {unat off div BSIZE}" by (rule brange_one) (simp add: de_size_def)
    then show ?thesis using card_mono [of "{unat off div BSIZE}"] by (simp add: need_def)
  qed
  have "nfree s2 = nfree s"
    using 1(3) 2(3) blk_rest_sb [of s2 s] by (simp add: same_fs_def nfree_def taken_blocks_def)
  then have rm: "3 * need s2 dp (min ?z (unat off)) (unat off - ?z + length de) \<le> nfree s2"
    using nd room offz de by (simp add: min_absorb2)
  have dok: "file_inv s2 dp H" "size H + 1 < NBUF" "dense s2 dp" using s2(1) by (simp_all add: dir_ok_def)
  have dne: "de \<noteq> []" "unat off + length de \<le> MAXFILE * BSIZE" "?z = unat (i_size (icache s2 dp))"
    using de offz lim ic by (auto simp: de_size_def)
  from writei_ok [OF dok dne rm] obtain s3 where 3: "writei s2 dp off de = Some (int de_size, s3)"
    "file_wrote s2 dp H (unat off) de s3" "unat (i_size (icache s3 dp)) = max ?z (unat off + de_size)"
    using offz de by (auto simp: min_absorb2)
  have st: "file_step s2 dp s3" using 3(2) by (simp add: file_wrote_def)
  then have "i_type (icache s3 dp) = T_DIR" using s2(1) by (auto simp: file_step_def dir_ok_def)
  moreover have "de_size dvd unat (i_size (icache s3 dp))" using dv by (simp add: 3(3) 2(4) max_def)
  ultimately have "dir_ok s3 dp H" using 3(2) dok by (simp add: dir_ok_def file_wrote_def)
  moreover have "content s3 dp = overwrite (content s dp) (de_size * j) de"
    using 3(2) s1(2) s2(2) by (simp add: file_wrote_def 2(4))
  moreover have "dirlink s dp name inum = Some (0, s3)"
    using 1(1) 2(1) 3(1) by (simp add: dirlink_def de_def)
  moreover have "disk_blocks s3 m = disk_blocks s m" if "m \<in> others s dp" for m
  proof -
    have "others s2 dp = others s dp"
      using 1(3) 2(3) blk_rest_sb [of s2 s] ic
      by (simp add: same_fs_def others_def data_area_def taken_blocks_def bitmap_blocks_def iblk_def)
    then show ?thesis using st that 1(3) 2(3) by (simp add: file_step_def same_fs_def)
  qed
  moreover have "\<exists>a z. icache s3 = (icache s)(dp := (icache s dp)\<lparr>i_addrs := a, i_size := z\<rparr>)"
    using st ic by (simp add: file_step_def)
  ultimately show ?thesis using 2(5,6) unfolding de_def by (intro exI [of _ s3] exI [of _ j]) simp
qed

section \<open>Components of a path\<close>

fun split_on :: "'a \<Rightarrow> 'a list \<Rightarrow> 'a list list" where
  "split_on c [] = [[]]"
| "split_on c (x # xs) = (if x = c then [] # split_on c xs
     else (case split_on c xs of y # ys \<Rightarrow> (x # y) # ys | [] \<Rightarrow> [[x]]))"

text \<open>The non-empty components of a path, cut to the length of a directory name.\<close>

definition elems :: "u8 list \<Rightarrow> u8 list list" where
  "elems path = filter (\<lambda>e. e \<noteq> []) (split_on 47 (cstr path))"

definition path_components :: "u8 list \<Rightarrow> u8 list list" where
  "path_components path = map (take DIRSIZ) (elems path)"

text \<open>The names that successive calls of \<open>skipelem\<close> leave in the array \<open>name\<close>.\<close>

function skipelem_names :: "u8 list \<Rightarrow> u8 list \<Rightarrow> u8 list list" where
  "skipelem_names path name =
     (case skipelem path name of
        None \<Rightarrow> []
      | Some (path', name') \<Rightarrow> take DIRSIZ (cstr name') # skipelem_names path' name')"
  by pat_completeness auto
termination
  by (relation "measure (\<lambda>(path, name). length path)") (auto dest: skipelem_shorter)

declare skipelem_names.simps [simp del]

lemma split_on_nonempty [simp]: "split_on c xs \<noteq> []"
  by (induction xs) (auto split: list.splits)

lemma split_on_no: "c \<notin> set xs \<Longrightarrow> split_on c xs = [xs]"
  by (induction xs) auto

lemma split_on_append: "c \<notin> set xs \<Longrightarrow> split_on c (xs @ c # ys) = xs # split_on c ys"
  by (induction xs) auto

lemma split_on_lead: "filter (\<lambda>e. e \<noteq> []) (split_on c (dropWhile (\<lambda>x. x = c) xs)) = filter (\<lambda>e. e \<noteq> []) (split_on c xs)"
  by (induction xs) auto

lemma cstr_dropWhile: "(\<And>x. P x \<Longrightarrow> x \<noteq> 0) \<Longrightarrow> cstr (dropWhile P xs) = dropWhile P (cstr xs)"
  by (induction xs) auto

text \<open>Cutting the first component off a path.\<close>

lemma elems_step:
  fixes path defines "q \<equiv> dropWhile (\<lambda>c. c = 47) path"
  defines "el \<equiv> takeWhile (\<lambda>c. c \<noteq> 47 \<and> c \<noteq> 0) q"
  shows "cchar q 0 = 0 \<Longrightarrow> elems path = []"
    and "cchar q 0 \<noteq> 0 \<Longrightarrow> elems path = el # elems (drop (length el) q)"
    and "cchar q 0 \<noteq> 0 \<Longrightarrow> el \<noteq> []" and "0 \<notin> set el" and "47 \<notin> set el"
proof -
  have cq: "cstr q = dropWhile (\<lambda>c. c = 47) (cstr path)" unfolding q_def by (rule cstr_dropWhile) auto
  have pc: "elems path = filter (\<lambda>e. e \<noteq> []) (split_on 47 (cstr q))"
    unfolding elems_def cq split_on_lead ..
  have el: "el = takeWhile (\<lambda>c. c \<noteq> 47) (cstr q)"
    unfolding el_def cstr_def by (induction q) auto
  have rest: "cstr (drop (length el) q) = dropWhile (\<lambda>c. c \<noteq> 47) (cstr q)"
    unfolding el_def cstr_def by (induction q) auto
  show el0: "0 \<notin> set el" "47 \<notin> set el" unfolding el_def by (auto dest: set_takeWhileD)
  show "elems path = []" if "cchar q 0 = 0" using that pc by (simp add: cchar_0_iff)
  show ne: "el \<noteq> []" if "cchar q 0 \<noteq> 0"
  proof -
    have "q \<noteq> []" using that by auto
    then have "hd q \<noteq> 47" unfolding q_def using hd_dropWhile by blast
    then show ?thesis using that \<open>q \<noteq> []\<close> by (cases q) (auto simp: el_def)
  qed
  have er: "elems (drop (length el) q) = filter (\<lambda>e. e \<noteq> []) (split_on 47 (dropWhile (\<lambda>c. c \<noteq> 47) (cstr q)))"
    by (simp add: elems_def rest)
  show "elems path = el # elems (drop (length el) q)" if "cchar q 0 \<noteq> 0"
  proof (cases "dropWhile (\<lambda>c. c \<noteq> 47) (cstr q)")
    case Nil
    then have "cstr q = el" using takeWhile_dropWhile_id [of "\<lambda>c. c \<noteq> 47" "cstr q"] by (simp only: el append_Nil2)
    then show ?thesis unfolding pc er Nil using ne [OF that] by (simp add: split_on_no [OF el0(2)])
  next
    case (Cons y ys)
    then have y: "y = 47" using hd_dropWhile [of "\<lambda>c. c \<noteq> 47" "cstr q"] by simp
    have cq': "cstr q = el @ 47 # ys" using el takeWhile_dropWhile_id [of "\<lambda>c. c \<noteq> 47" "cstr q"] Cons y by simp
    show ?thesis unfolding pc er Cons y using ne [OF that] by (simp add: cq' split_on_append [OF el0(2)])
  qed
qed

lemma elems_lead: "elems (dropWhile (\<lambda>c. c = 47) path) = elems path"
  unfolding elems_def by (subst cstr_dropWhile) (auto simp: split_on_lead)

lemma skipelem_spec:
  assumes "length name = DIRSIZ"
  shows "case skipelem path name of
      None \<Rightarrow> path_components path = []
    | Some (path', name') \<Rightarrow> length name' = DIRSIZ \<and>
        path_components path = take DIRSIZ (cstr name') # path_components path'"
proof -
  define q where "q = dropWhile (\<lambda>c. c = 47) path"
  define el where "el = takeWhile (\<lambda>c. c \<noteq> 47 \<and> c \<noteq> 0) q"
  note e = elems_step [of path, folded q_def, folded el_def]
  show ?thesis
  proof (cases "cchar q 0 = 0")
    case True
    then show ?thesis using e(1) by (simp add: skipelem_def Let_def q_def path_components_def)
  next
    case False
    define name' where "name' = (if DIRSIZ \<le> length el then overwrite name 0 (take DIRSIZ el) else overwrite name 0 (el @ [0]))"
    have s: "skipelem path name = Some (dropWhile (\<lambda>c. c = 47) (drop (length el) q), name')"
      using False by (simp add: skipelem_def Let_def q_def el_def name'_def)
    have t0: "0 \<notin> set (take DIRSIZ el)" using e(4) by (meson in_set_takeD)
    have nm: "take DIRSIZ (cstr name') = take DIRSIZ el" "length name' = DIRSIZ"
      using assms e(4) t0 by (auto simp: name'_def overwrite_def cstr_append cstr_id)
    then show ?thesis using s e(2) [OF False] by (simp add: path_components_def elems_lead)
  qed
qed

section \<open>Properties\<close>

text \<open>
  Calling \<open>skipelem\<close> until it returns NULL visits exactly
  the non-empty components between the slashes of the path, in order, each cut to 14
  bytes, whatever the array \<open>name\<close> held before.
\<close>

theorem skipelem_components:
  assumes "length name = DIRSIZ"
  shows "skipelem_names path name = path_components path"
  using assms
proof (induction path name rule: skipelem_names.induct)
  case (1 path name)
  show ?case
  proof (cases "skipelem path name")
    case None
    then show ?thesis using skipelem_spec [OF "1.prems", of path] by (simp add: skipelem_names.simps [of path])
  next
    case (Some r)
    obtain path' name' where r: "r = (path', name')" by (cases r)
    have sp: "length name' = DIRSIZ" "path_components path = take DIRSIZ (cstr name') # path_components path'"
      using skipelem_spec [OF "1.prems", of path] Some r by auto
    have "skipelem_names path' name' = path_components path'" by (rule "1.IH" [OF Some r [symmetric] sp(1)])
    then show ?thesis by (subst skipelem_names.simps) (simp add: Some r sp(2))
  qed
qed

theorem skipelem_components_witness:
  "skipelem_names [47, 47, 97, 47, 98, 99, 47, 0] (replicate DIRSIZ 1) = [[97], [98, 99]]"
  using skipelem_components [of "replicate DIRSIZ 1" "[47, 47, 97, 47, 98, 99, 47, 0]"]
  by (simp add: path_components_def elems_def DIRSIZ_def)

text \<open>
  Property C28 (functional). In a well-formed directory, and with a free entry in the inode cache
  (without one \<open>iget\<close> may panic), \<open>dirlookup\<close> succeeds: it returns NULL, and changes neither the inode cache nor the
  disk, if no entry in use has the name; otherwise it returns the offset of the first such entry and an inode
  of the cache with the number the entry holds, with one more reference - the cached inode that is already
  in use for that number, when there is one, with its contents, and otherwise an entry that was free, still to be read
  from disk - and changes no other inode and no disk block. Names are compared on their first 14 bytes.
\<close>

theorem dirlookup_first_entry:
  assumes "dir_ok s dp H" and "i < NINODE" and "i_ref (icache s i) = 0"
  shows "case List.find (\<lambda>k. de_inum (dent (content s dp) k) \<noteq> 0 \<and>
            take DIRSIZ (cstr (de_name (dent (content s dp) k))) = take DIRSIZ (cstr name))
          [0..<length (content s dp) div de_size] of
       None \<Rightarrow> \<exists>t. dirlookup s dp name = Some (None, t) \<and> disk_blocks t = disk_blocks s \<and> icache t = icache s
     | Some k \<Rightarrow> \<exists>ip t. dirlookup s dp name = Some (Some (ip, of_nat (de_size * k)), t) \<and>
         got_inode s ROOTDEV (ucast (de_inum (dent (content s dp) k))) ip t"
  using dirlookup_got [OF assms, of name] unfolding dir_find_def hit_def by (simp split: option.splits)

text \<open>A file system whose inode 1 is an empty directory, and a free entry in its inode cache.\<close>

definition small_dir :: fs_st where
  "small_dir = upd_inode 1 (\<lambda>i. i\<lparr>i_ref := 0\<rparr>) (upd_inode 0 (\<lambda>i. i\<lparr>i_type := T_DIR\<rparr>) small_fs)"

lemma small_dir_ok: "dir_ok small_dir 0 {#}" "content small_dir 0 = []" "3 \<le> nfree small_dir"
  "i_size (icache small_dir 0) = 0"
proof -
  have e: "disk_blocks small_dir = disk_blocks small_fs" "bcache small_dir = bcache small_fs" "sb small_dir = sb small_fs"
    "i_addrs (icache small_dir 0) = i_addrs (icache small_fs 0)" "i_size (icache small_dir 0) = i_size (icache small_fs 0)"
    "i_dev (icache small_dir 0) = i_dev (icache small_fs 0)" "i_inum (icache small_dir 0) = i_inum (icache small_fs 0)"
    "i_type (icache small_dir 0) = T_DIR"
    by (simp_all add: small_dir_def upd_inode_def)
  have tk: "taken_blocks small_dir = taken_blocks small_fs" "bitmap_blocks small_dir = bitmap_blocks small_fs"
    "iblk small_dir 0 = iblk small_fs 0"
    by (simp_all add: taken_blocks_def bitmap_blocks_def iblk_def e)
  have "file_inv small_dir 0 {#}"
    using small_fs_inv(1) by (simp add: file_inv_def alloc_inv_def bc_inv_def data_area_def tk e)
  moreover have "dense small_dir 0" using small_fs_inv(2) by (simp add: dense_def e)
  ultimately show "dir_ok small_dir 0 {#}" using e by (simp add: dir_ok_def NBUF_def)
  show "content small_dir 0 = []" "i_size (icache small_dir 0) = 0" using e by (simp_all add: content_def)
  show "3 \<le> nfree small_dir" using small_fs_inv(3) by (simp add: nfree_def tk e)
qed

lemma small_dir_slot: "1 < NINODE" "i_ref (icache small_dir 1) = 0"
  by (simp_all add: NINODE_def) (simp add: small_dir_def upd_inode_def)

theorem dirlookup_first_entry_witness:
  "\<exists>s. dirlink small_dir 0 [97] 5 = Some (0, s) \<and> (\<exists>t. dirlookup s 0 [98] = Some (None, t)) \<and>
     (\<exists>ip t. dirlookup s 0 [97] = Some (Some (ip, 0), t) \<and> i_inum (icache t ip) = 5 \<and> 0 < i_ref (icache t ip))"
proof -
  have "dir_find (content small_dir 0) [97] = None" by (simp add: small_dir_ok dir_find_def)
  from dirlink_ok [OF small_dir_ok(1) this _ small_dir_ok(3), of 5] small_dir_ok
  obtain s a z where s: "dirlink small_dir 0 [97] 5 = Some (0, s)" "dir_ok s 0 {#}"
    "content s 0 = encode_dirent 5 (safestrcpy (replicate DIRSIZ 0) [97] (int DIRSIZ))"
    "icache s = (icache small_dir)(0 := (icache small_dir 0)\<lparr>i_addrs := a, i_size := z\<rparr>)"
    by (auto simp: kdefs overwrite_def)
  note e = link_entry [where inum = "5 :: u32" and name = "[97]"]
  have c: "length (content s 0) div de_size = 1" "dent (content s 0) 0 = content s 0" "de_inum (content s 0) = 5"
    "cstr (de_name (content s 0)) = [97]" using e s(3) by (simp_all add: dent_def) (simp_all add: de_size_def DIRSIZ_def)
  have free: "i_ref (icache s 1) = 0" using s(4) small_dir_slot by simp
  note l = dirlookup_first_entry [OF s(2) small_dir_slot(1) free, unfolded c]
  have f: "List.find (\<lambda>k. de_inum (dent (content s 0) k) \<noteq> 0 \<and>
      take DIRSIZ (cstr (de_name (dent (content s 0) k))) = take DIRSIZ (cstr nm)) [0..<1] =
      (if take DIRSIZ (cstr nm) = [97] then Some 0 else None)" for nm
    by (simp add: c) (auto simp: DIRSIZ_def)
  show ?thesis using l [of "[97]"] l [of "[98]"] s(1) unfolding f by (auto simp: c DIRSIZ_def got_inode_def split: if_splits)
qed

text \<open>
  Property C17 (round trip). After \<open>dirlink\<close> of a new name of at most 13 bytes, while the inode cache has a free
  entry, \<open>dirlookup\<close> of the name succeeds: it returns an inode of the cache with the number that was linked, with one more
  reference, and the offset of the entry that holds it, which lies in the directory; lookups of every other name find what
  they found before; the directory stays well formed and no block of another file has
  changed.
\<close>

theorem dirlink_dirlookup_round_trip:
  assumes "dir_ok s dp H" and "dir_find (content s dp) name = None" and "length (cstr name) < DIRSIZ"
    and "ucast inum \<noteq> (0 :: u16)" and "unat (i_size (icache s dp)) + de_size \<le> MAXFILE * BSIZE" and "3 \<le> nfree s"
    and "i < NINODE" and "i_ref (icache s i) = 0"
  shows "\<exists>s'. dirlink s dp name inum = Some (0, s') \<and> dir_ok s' dp H \<and>
    (\<exists>j ip t. dirlookup s' dp name = Some (Some (ip, of_nat (de_size * j)), t) \<and>
       got_inode s' ROOTDEV (ucast (ucast inum :: u16)) ip t \<and> de_size * j < unat (i_size (icache s' dp)) \<and>
       dir_find (content s' dp) name = Some (de_size * j, ucast inum)) \<and>
    (\<forall>nm. take DIRSIZ (cstr nm) \<noteq> cstr name \<longrightarrow> dir_find (content s' dp) nm = dir_find (content s dp) nm) \<and>
    (\<forall>m \<in> others s dp. disk_blocks s' m = disk_blocks s m)"
proof -
  obtain s' j de a z where l: "dirlink s dp name inum = Some (0, s')" "dir_ok s' dp H"
    "content s' dp = overwrite (content s dp) (de_size * j) de" "\<forall>m \<in> others s dp. disk_blocks s' m = disk_blocks s m"
    "de = encode_dirent (ucast inum) (safestrcpy (replicate DIRSIZ 0) name (int DIRSIZ))"
    "j \<le> length (content s dp) div de_size" "j < length (content s dp) div de_size \<longrightarrow> de_inum (dent (content s dp) j) = 0"
    "icache s' = (icache s)(dp := (icache s dp)\<lparr>i_addrs := a, i_size := z\<rparr>)"
    using dirlink_ok [OF assms(1,2,5,6)] by blast
  have de: "length de = de_size" "de_inum de = ucast inum" "cstr (de_name de) = cstr name"
    using link_entry [of inum name] assms(3) by (simp_all add: l(5))
  have n: "length (content s dp) = de_size * (length (content s dp) div de_size)"
    using assms(1) by (simp add: dir_ok_def dvd_mult_div_cancel)
  note st = dir_find_store [OF n l(6) l(7) [rule_format] de(1)]
  have "hit de name" using de assms(4) by (simp add: hit_def)
  then have f: "dir_find (content s' dp) name = Some (de_size * j, ucast inum)" using st(2) assms(2) l(3) de(2) by simp
  have "i_ref (icache s' i) = 0" using assms(8) l(8) by auto
  from dirlookup_got [OF l(2) assms(7) this, of name] obtain ip t where
    t: "dirlookup s' dp name = Some (Some (ip, of_nat (de_size * j)), t)" "got_inode s' ROOTDEV (ucast (ucast inum :: u16)) ip t"
    unfolding f by auto
  have "length (content s' dp) = unat (i_size (icache s' dp))" by simp
  then have "de_size * j < unat (i_size (icache s' dp))" using f find_SomeD unfolding dir_find_def
    by (fastforce simp: de_size_def split: option.splits)
  moreover have "dir_find (content s' dp) nm = dir_find (content s dp) nm" if "take DIRSIZ (cstr nm) \<noteq> cstr name" for nm
  proof -
    have "\<not> hit de nm" using that de(3) assms(3) by (simp add: hit_def)
    then show ?thesis using st(1) l(3) by simp
  qed
  ultimately show ?thesis using l(1,2,4) t f by blast
qed

theorem dirlink_dirlookup_round_trip_witness:
  "dir_ok small_dir 0 {#} \<and> (\<exists>s' ip t off. dirlink small_dir 0 [97, 98] 5 = Some (0, s') \<and>
     dirlookup s' 0 [97, 98] = Some (Some (ip, off), t) \<and> i_inum (icache t ip) = 5 \<and> i_dev (icache t ip) = ROOTDEV)"
proof -
  have "dir_find (content small_dir 0) [97, 98] = None" by (simp add: small_dir_ok dir_find_def)
  from dirlink_dirlookup_round_trip [OF small_dir_ok(1) this _ _ _ small_dir_ok(3) small_dir_slot, of 5] small_dir_ok show ?thesis
    by (fastforce simp: kdefs got_inode_def)
qed

text \<open>
  Property C40 (error). A name of 14 bytes or more can be created but not found again:
  \<open>dirlink\<close> reports success, but the entry it stores holds only the first 13 bytes,
  and looking up the same name afterwards returns NULL.
\<close>

theorem dirlink_long_name_lost:
  assumes "dir_ok s dp H" and "dir_find (content s dp) name = None" and "DIRSIZ \<le> length (cstr name)"
    and "unat (i_size (icache s dp)) + de_size \<le> MAXFILE * BSIZE" and "3 \<le> nfree s"
  shows "\<exists>s' s''. dirlink s dp name inum = Some (0, s') \<and> dirlookup s' dp name = Some (None, s'')"
proof -
  obtain s' j de where l: "dirlink s dp name inum = Some (0, s')" "dir_ok s' dp H"
    "content s' dp = overwrite (content s dp) (de_size * j) de"
    "de = encode_dirent (ucast inum) (safestrcpy (replicate DIRSIZ 0) name (int DIRSIZ))"
    "j \<le> length (content s dp) div de_size" "j < length (content s dp) div de_size \<longrightarrow> de_inum (dent (content s dp) j) = 0"
    using dirlink_ok [OF assms(1,2,4,5)] by blast
  have de: "length de = de_size" "cstr (de_name de) = take (DIRSIZ - 1) (cstr name)"
    using link_entry [of inum name] by (simp_all add: l(4))
  have n: "length (content s dp) = de_size * (length (content s dp) div de_size)"
    using assms(1) by (simp add: dir_ok_def dvd_mult_div_cancel)
  have "length (take DIRSIZ (cstr (de_name de))) \<noteq> length (take DIRSIZ (cstr name))"
    using assms(3) by (simp add: de(2) DIRSIZ_def)
  then have "\<not> hit de name" unfolding hit_def by metis
  then have "dir_find (content s' dp) name = None"
    using dir_find_store(1) [OF n l(5) l(6) [rule_format] de(1)] assms(2) l(3) by simp
  then show ?thesis using dirlookup_ok [OF l(2), of name] l(1) by auto
qed

theorem dirlink_long_name_lost_witness:
  "dir_ok small_dir 0 {#} \<and> (\<exists>s' s''. dirlink small_dir 0 (replicate 14 97) 5 = Some (0, s') \<and>
     dirlookup s' 0 (replicate 14 97) = Some (None, s''))"
proof -
  have "dir_find (content small_dir 0) (replicate 14 97) = None" by (simp add: small_dir_ok dir_find_def)
  moreover have "length (cstr (replicate 14 97)) = 14" by (subst cstr_id) auto
  ultimately show ?thesis using dirlink_long_name_lost [OF small_dir_ok(1), of "replicate 14 97" 5] small_dir_ok
    by (simp add: DIRSIZ_def de_size_def MAXFILE_def BSIZE_def NDIRECT_def)
qed

end
