(* ===== verification/Path.thy ===== *)
theory Path
  imports Dir
begin

text \<open>
  The textual current directory: \<open>append_path_component\<close>,
  \<open>pop_path_component\<close> and \<open>normalize_cwd_path\<close> of
  \<open>kernel/syscall/sysproc.c\<close>, on the character arrays of the code. They are shown to
  implement the obvious operations on a list of components (push, pop, resolve), so that
  the result is always a canonical absolute path.
\<close>

section \<open>Operations on the arrays\<close>

definition append_path_component :: "u8 list \<Rightarrow> int \<Rightarrow> u8 list \<Rightarrow> int \<times> u8 list" where
  "append_path_component dst cap name =
     (let len = strlen dst; name_len = strlen name in
      if name_len = 0 \<or> name_len = 1 \<and> cchar name 0 = 46 then (0, dst)
      else if len = 1 \<and> cchar dst 0 = 47
      then if cap \<le> int name_len + 1 then (-1, dst)
           else (0, take 1 dst @ safestrcpy (drop 1 dst) name (cap - 1))
      else if cap \<le> int len + 1 + int name_len then (-1, dst)
      else let dst = dst[len := 47]; len = len + 1
           in (0, take len dst @ safestrcpy (drop len dst) name (cap - int len)))"

text \<open>The two loops of \<open>pop_path_component\<close>: drop trailing slashes, then a component.\<close>

fun pop_slashes :: "u8 list \<Rightarrow> nat \<Rightarrow> nat" where
  "pop_slashes path (Suc (Suc n)) = (if cchar path (Suc n) = 47 then pop_slashes path (Suc n) else Suc (Suc n))"
| "pop_slashes path len = len"

fun pop_name :: "u8 list \<Rightarrow> nat \<Rightarrow> nat" where
  "pop_name path (Suc (Suc n)) = (if cchar path (Suc n) \<noteq> 47 then pop_name path (Suc n) else Suc (Suc n))"
| "pop_name path len = len"

definition pop_path_component :: "u8 list \<Rightarrow> u8 list" where
  "pop_path_component path =
     (let len = strlen path in
      if len \<le> 1 then safestrcpy path [47] (int MAXPATH)
      else let len = pop_name path (pop_slashes path len)
           in if len \<le> 1 then safestrcpy path [47] (int MAXPATH) else path[len - 1 := 0])"

text \<open>The inner loop that copies a component; \<^term>\<open>None\<close> when it has more than \<open>DIRSIZ\<close> bytes.\<close>

definition take_component :: "u8 list \<Rightarrow> u8 list option" where
  "take_component s =
     (let c = takeWhile (\<lambda>c. c \<noteq> 0 \<and> c \<noteq> 47) s in if DIRSIZ < length c then None else Some c)"

lemma component_nonempty:
  assumes "cchar (dropWhile (\<lambda>c. c = 47) s) 0 \<noteq> 0" and "take_component (dropWhile (\<lambda>c. c = 47) s) = Some c"
  shows "c \<noteq> []" and "length (drop (length c) (dropWhile (\<lambda>c. c = 47) s)) < length s"
proof -
  let ?q = "dropWhile (\<lambda>c. c = 47) s"
  have q: "?q \<noteq> []" using assms(1) by (metis cchar_Nil)
  then have "hd ?q \<noteq> 47" using hd_dropWhile by blast
  then show c: "c \<noteq> []" using assms q by (cases ?q) (auto simp: take_component_def Let_def split: if_splits)
  have "length ?q \<le> length s" by (rule length_dropWhile_le)
  then show "length (drop (length c) ?q) < length s" using c q by (cases c; cases ?q) auto
qed

function normalize_loop :: "u8 list \<Rightarrow> u8 list \<Rightarrow> int \<Rightarrow> int \<times> u8 list" where
  "normalize_loop s out cap =
     (if cchar s 0 = 0 then (0, out)
      else let s' = dropWhile (\<lambda>c. c = 47) s in
        if cchar s' 0 = 0 then (0, out)
        else (case take_component s' of
                None \<Rightarrow> (-1, out)
              | Some c \<Rightarrow>
                  let rest = drop (length c) s' in
                  if c = [] \<or> c = [46] then normalize_loop rest out cap
                  else if c = [46, 46] then normalize_loop rest (pop_path_component out) cap
                  else let tmp = safestrcpy (replicate MAXPATH 0) out (int MAXPATH) in
                    (case append_path_component tmp (int MAXPATH) c of
                       (r, tmp) \<Rightarrow> if r < 0 then (-1, out)
                                  else normalize_loop rest (safestrcpy out tmp cap) cap)))"
  by pat_completeness auto
termination
  by (relation "measure (\<lambda>(s, out, cap). length s)") (auto dest: component_nonempty(2))

declare normalize_loop.simps [simp del]

definition normalize_cwd_path :: "u8 list \<Rightarrow> u8 list \<Rightarrow> u8 list \<Rightarrow> int \<Rightarrow> int \<times> u8 list" where
  "normalize_cwd_path cwdp input out cap =
     (if cap \<le> 1 then (-1, out)
      else let out = (if cchar input 0 = 47 then safestrcpy out [47] cap
                      else safestrcpy out (if cchar cwdp 0 \<noteq> 0 then cwdp else [47]) cap)
           in normalize_loop input out cap)"

section \<open>Paths as lists of components\<close>

definition comp_ok :: "u8 list \<Rightarrow> bool" where
  "comp_ok c \<longleftrightarrow> c \<noteq> [] \<and> 0 \<notin> set c \<and> 47 \<notin> set c \<and> c \<noteq> [46] \<and> c \<noteq> [46, 46] \<and> length c \<le> DIRSIZ"

definition render :: "u8 list list \<Rightarrow> u8 list" where
  "render cs = (if cs = [] then [47] else concat (map (\<lambda>c. 47 # c) cs))"

text \<open>Resolving one component against a canonical path, and a whole path.\<close>

definition resolve1 :: "u8 list list \<Rightarrow> u8 list \<Rightarrow> u8 list list option" where
  "resolve1 cs c =
     (if DIRSIZ < length c then None
      else if c = [46] then Some cs
      else if c = [46, 46] then Some (butlast cs)
      else if length (render (cs @ [c])) < MAXPATH then Some (cs @ [c]) else None)"

fun resolve :: "u8 list list \<Rightarrow> u8 list list \<Rightarrow> u8 list list option" where
  "resolve cs [] = Some cs"
| "resolve cs (x # xs) = do { cs \<leftarrow> resolve1 cs x; resolve cs xs }"

text \<open>\<open>holds_path out cs\<close>: the array holds the canonical path of the components \<open>cs\<close>.\<close>

definition holds_path :: "u8 list \<Rightarrow> u8 list list \<Rightarrow> bool" where
  "holds_path out cs \<longleftrightarrow> length out = MAXPATH \<and> cstr out = render cs \<and> (\<forall>c \<in> set cs. comp_ok c)"

lemma render_snoc: "cs \<noteq> [] \<Longrightarrow> render (cs @ [c]) = render cs @ 47 # c"
  by (simp add: render_def)

lemma render_nz: "\<forall>c \<in> set cs. comp_ok c \<Longrightarrow> 0 \<notin> set (render cs)"
  by (auto simp: render_def comp_ok_def)

lemma render_ne [simp]: "render cs \<noteq> []" "hd (render cs) = 47"
  by (cases cs; simp add: render_def)+

lemma cstr_nth: "i < length (cstr xs) \<Longrightarrow> xs ! i = cstr xs ! i \<and> i < length xs"
  unfolding cstr_def by (metis length_takeWhile_le order_less_le_trans takeWhile_nth)

lemma cstr_cut: "i < length (cstr xs) \<Longrightarrow> cstr (xs[i := 0]) = take i (cstr xs)"
proof (induction xs arbitrary: i)
  case (Cons x xs)
  then show ?case by (cases i) (auto split: if_splits)
qed simp

lemma cstr_take_drop: "k \<le> length (cstr xs) \<Longrightarrow> take k xs = take k (cstr xs)"
  unfolding cstr_def by (metis append_take_drop_id take_append takeWhile_dropWhile_id diff_is_0_eq take_0 append_Nil2)

lemma append_component_ok:
  assumes h: "holds_path out cs" and c: "comp_ok c"
  shows "if length (render (cs @ [c])) < MAXPATH
    then \<exists>out'. append_path_component out (int MAXPATH) c = (0, out') \<and> holds_path out' (cs @ [c])
    else append_path_component out (int MAXPATH) c = (-1, out)"
proof -
  have o: "length out = MAXPATH" "cstr out = render cs" "strlen out = length (render cs)"
    using h by (simp_all add: holds_path_def strlen_cstr)
  have cc: "c \<noteq> []" "0 \<notin> set c" "c \<noteq> [46]" "strlen c = length c" "cstr c = c"
    using c by (auto simp: comp_ok_def strlen_cstr cstr_id)
  have guard: "\<not> (strlen c = 0 \<or> strlen c = 1 \<and> cchar c 0 = 46)"
    using cc by (cases c) auto
  have oks: "\<forall>x \<in> set (cs @ [c]). comp_ok x" using h c by (simp add: holds_path_def)
  show ?thesis
  proof (cases "cs = []")
    case True
    then have r: "render cs = [47]" "render (cs @ [c]) = 47 # c" by (simp_all add: render_def)
    have "out \<noteq> []" using o(1) by (auto simp: MAXPATH_def)
    then have out0: "take 1 out = [47]" "cchar out 0 = 47" using o(2) r(1) by (cases out; auto split: if_splits)+
    let ?x = "safestrcpy (drop 1 out) c (int MAXPATH - 1)"
    have "cstr ?x = c \<and> length ?x = MAXPATH - 1" if "length c + 1 < MAXPATH"
      using safestrcpy_copy(1,2) [of "int MAXPATH - 1" "drop 1 out" c] o(1) cc(5) that by (simp add: MAXPATH_def)
    then show ?thesis using guard o(1,3) r out0 cc(4) oks
      by (auto simp: append_path_component_def Let_def holds_path_def MAXPATH_def)
  next
    case False
    let ?l = "length (render cs)"
    have r: "render (cs @ [c]) = render cs @ 47 # c" by (rule render_snoc [OF False])
    obtain c0 cs0 where cs: "cs = c0 # cs0" using False by (cases cs) auto
    have "comp_ok c0" using oks cs by simp
    then have l2: "?l \<noteq> 1" by (cases c0) (auto simp: cs render_def comp_ok_def)
    let ?d = "out[?l := 47]"
    let ?x = "safestrcpy (drop (?l + 1) ?d) c (int MAXPATH - (int ?l + 1))"
    have "cstr (take (?l + 1) ?d @ ?x) = render cs @ 47 # c \<and> length (take (?l + 1) ?d @ ?x) = MAXPATH"
      if lt: "?l + 1 + length c < MAXPATH"
    proof -
      have "take (?l + 1) ?d = take ?l out @ [47]" using lt o(1) by (simp add: take_Suc_conv_app_nth)
      then have t: "take (?l + 1) ?d = render cs @ [47]" using cstr_take_drop [of ?l out] o(2) by simp
      have n: "nat (int MAXPATH - (int ?l + 1)) = MAXPATH - (?l + 1)" using lt by simp
      have "cstr ?x = c" "length ?x = MAXPATH - (?l + 1)"
        using safestrcpy_copy(1,2) [of "int MAXPATH - (int ?l + 1)" "drop (?l + 1) ?d" c] o(1) cc(5) lt
        by (simp_all add: n)
      then show ?thesis using lt o(1) render_nz [of cs] h unfolding t by (simp add: cstr_append holds_path_def)
    qed
    note ok = this
    have e: "append_path_component out (int MAXPATH) c =
        (if int MAXPATH \<le> int ?l + 1 + int (length c) then (-1, out) else (0, take (?l + 1) ?d @ ?x))"
      using guard o(3) l2 cc(4) by (auto simp: append_path_component_def Let_def ac_simps)
    show ?thesis
    proof (cases "?l + 1 + length c < MAXPATH")
      case True
      then show ?thesis using e ok r oks by (simp add: holds_path_def)
    next
      case False
      then show ?thesis using e r by simp
    qed
  qed
qed

lemma pop_name_eq:
  assumes "cstr path = pre @ 47 # c" and "47 \<notin> set c" and "k \<le> length c"
  shows "pop_name path (Suc (length pre + k)) = Suc (length pre)"
  using assms(3)
proof (induction k)
  case 0
  have "length pre < length (cstr path)" using assms(1) by simp
  then have "cchar path (length pre) = 47" using cstr_nth [of "length pre" path] assms(1) by (simp add: cchar_def)
  then show ?case by (cases "length pre") simp_all
next
  case (Suc k)
  let ?i = "Suc (length pre + k)"
  have "?i < length (cstr path)" using assms(1) Suc.prems by simp
  then have "cchar path ?i = cstr path ! ?i" using cstr_nth [of ?i path] by (simp add: cchar_def)
  also have "\<dots> = c ! k" unfolding assms(1) by (simp add: nth_append)
  finally have "cchar path ?i \<noteq> 47" using Suc.prems assms(2) by (metis Suc_le_lessD nth_mem)
  then have "pop_name path (Suc ?i) = pop_name path ?i" by simp
  then show ?case using Suc.IH Suc.prems by simp
qed

lemma pop_component_ok:
  assumes h: "holds_path out cs"
  shows "holds_path (pop_path_component out) (butlast cs)"
proof -
  have o: "length out = MAXPATH" "cstr out = render cs" "strlen out = length (render cs)"
    using h by (simp_all add: holds_path_def strlen_cstr)
  have root: "holds_path (safestrcpy out [47] (int MAXPATH)) []"
    using safestrcpy_copy(1,2) [of "int MAXPATH" out "[47]"] o(1) by (simp add: holds_path_def render_def MAXPATH_def)
  show ?thesis
  proof (cases cs rule: rev_cases)
    case Nil
    then show ?thesis using o root by (simp add: pop_path_component_def render_def)
  next
    case (snoc cs' c)
    have c: "comp_ok c" using h snoc by (simp add: holds_path_def)
    obtain pre where pre: "render cs = pre @ 47 # c" "pre = (if cs' = [] then [] else render cs')"
      using snoc by (auto simp: render_def)
    let ?len = "length (render cs)"
    have len: "?len = Suc (length pre + length c)" "1 < ?len" using pre c by (auto simp: comp_ok_def)
    obtain n where n: "?len = Suc (Suc n)" using len(2) by (metis less_natE plus_1_eq_Suc)
    have "cstr out ! Suc n = last (cstr out)" using o(2) n by (simp add: last_conv_nth)
    then have "cchar out (Suc n) = last c"
      using cstr_nth [of "Suc n" out] o(2) n pre(1) c by (simp add: cchar_def comp_ok_def)
    then have "cchar out (Suc n) \<noteq> 47" using c last_in_set [of c] unfolding comp_ok_def by metis
    then have "pop_slashes out ?len = ?len" by (simp add: n)
    moreover have "pop_name out ?len = Suc (length pre)"
      unfolding len(1) using pop_name_eq [of out pre c "length c"] o(2) pre(1) c by (simp add: comp_ok_def)
    ultimately have p: "pop_path_component out =
        (if length pre = 0 then safestrcpy out [47] (int MAXPATH) else out[length pre := 0])"
      using len(2) by (simp add: pop_path_component_def o(3) Let_def)
    show ?thesis
    proof (cases "cs' = []")
      case True
      then show ?thesis using p pre(2) root snoc by simp
    next
      case False
      then have "length pre < length (cstr out)" "length pre \<noteq> 0" using pre o(2) by auto
      then show ?thesis using p cstr_cut [of "length pre" out] o pre snoc h False by (auto simp: holds_path_def)
    qed
  qed
qed

lemma copy_path:
  assumes "holds_path t cs" and "length out = MAXPATH" and "length (render cs) < MAXPATH"
  shows "holds_path (safestrcpy out t (int MAXPATH)) cs"
  using safestrcpy_copy(1,2) [of "int MAXPATH" out t] assms by (simp add: holds_path_def MAXPATH_def)

lemma component_el:
  "take_component s = (let c = takeWhile (\<lambda>c. c \<noteq> 47 \<and> c \<noteq> 0) s in if DIRSIZ < length c then None else Some c)"
proof -
  have "(\<lambda>c :: u8. c \<noteq> 0 \<and> c \<noteq> 47) = (\<lambda>c. c \<noteq> 47 \<and> c \<noteq> 0)" by auto
  then show ?thesis unfolding take_component_def by (simp only:)
qed

lemma render_bound: "holds_path out cs \<Longrightarrow> length (render cs) \<le> MAXPATH"
  unfolding holds_path_def cstr_def by (metis length_takeWhile_le)

definition path_fits :: "u8 list list \<Rightarrow> bool" where
  "path_fits cs \<longleftrightarrow> length (render cs) < MAXPATH"

lemma render_butlast: "length (render (butlast cs)) \<le> length (render cs)"
proof (cases cs rule: rev_cases)
  case (snoc xs x)
  then show ?thesis by (cases "xs = []") (auto simp: render_def)
qed simp

lemma resolve1_ok:
  assumes "\<forall>c \<in> set cs. comp_ok c" and "path_fits cs" and "c \<noteq> []" and "0 \<notin> set c" and "47 \<notin> set c"
    and "resolve1 cs c = Some cs'"
  shows "(\<forall>c \<in> set cs'. comp_ok c) \<and> path_fits cs'"
proof -
  consider "cs' = cs" | "cs' = butlast cs" | "cs' = cs @ [c]" "comp_ok c" "path_fits cs'"
    using assms(3-6) by (auto simp: resolve1_def comp_ok_def path_fits_def split: if_splits)
  then show ?thesis
  proof cases
    case 2
    then have "path_fits cs'" using assms(2) render_butlast [of cs] by (simp add: path_fits_def)
    moreover have "\<forall>c \<in> set cs'. comp_ok c" using assms(1) 2 by (meson in_set_butlastD)
    ultimately show ?thesis by simp
  qed (use assms(1,2) in auto)
qed

lemma normalize_loop_ok:
  assumes "holds_path out cs" and "path_fits cs"
  shows "\<exists>out'. normalize_loop s out (int MAXPATH) = (if resolve cs (elems s) = None then -1 else 0, out') \<and>
    (\<forall>cs'. resolve cs (elems s) = Some cs' \<longrightarrow> holds_path out' cs')"
  using assms
proof (induction "length s" arbitrary: s out cs rule: less_induct)
  case less
  define q where "q = dropWhile (\<lambda>c. c = 47) s"
  define el where "el = takeWhile (\<lambda>c. c \<noteq> 47 \<and> c \<noteq> 0) q"
  note e = elems_step [of s, folded q_def, folded el_def]
  have s0: "cchar q 0 = 0" if "cchar s 0 = 0"
    using that unfolding q_def by (cases s) auto
  show ?case
  proof (cases "cchar q 0 = 0")
    case True
    then have "normalize_loop s out (int MAXPATH) = (0, out)"
      by (subst normalize_loop.simps) (simp add: q_def Let_def)
    then show ?thesis using less.prems(1) e(1) [OF True] by simp
  next
    case False
    then have s: "cchar s 0 \<noteq> 0" using s0 by blast
    let ?rest = "drop (length el) q"
    have el: "elems s = el # elems ?rest" "el \<noteq> []" using e(2,3) [OF False] by simp_all
    have tc: "take_component q = (if DIRSIZ < length el then None else Some el)" by (simp add: component_el el_def Let_def)
    have short: "length ?rest < length s" if "\<not> DIRSIZ < length el"
      using component_nonempty(2) [of s el] False tc that by (simp add: q_def)
    have step: "normalize_loop s out (int MAXPATH) =
       (case take_component q of
          None \<Rightarrow> (-1, out)
        | Some c \<Rightarrow>
            if c = [] \<or> c = [46] then normalize_loop (drop (length c) q) out (int MAXPATH)
            else if c = [46, 46] then normalize_loop (drop (length c) q) (pop_path_component out) (int MAXPATH)
            else case append_path_component (safestrcpy (replicate MAXPATH 0) out (int MAXPATH)) (int MAXPATH) c of
                 (r, tmp) \<Rightarrow> if r < 0 then (-1, out)
                            else normalize_loop (drop (length c) q) (safestrcpy out tmp (int MAXPATH)) (int MAXPATH))"
      by (subst normalize_loop.simps, unfold Let_def, fold q_def) (simp only: s False if_False)
    have oks: "\<forall>c \<in> set cs. comp_ok c" using less.prems(1) by (simp add: holds_path_def)
    note ih = less.hyps [OF short]
    show ?thesis
    proof (cases "resolve1 cs el")
      case None
      then have "DIRSIZ < length el \<or> el \<noteq> [46] \<and> el \<noteq> [46, 46] \<and> \<not> length (render (cs @ [el])) < MAXPATH"
        by (auto simp: resolve1_def split: if_splits)
      moreover have "append_path_component (safestrcpy (replicate MAXPATH 0) out (int MAXPATH)) (int MAXPATH) el =
          (-1, safestrcpy (replicate MAXPATH 0) out (int MAXPATH))"
        if "\<not> DIRSIZ < length el" "el \<noteq> [46]" "el \<noteq> [46, 46]" "\<not> length (render (cs @ [el])) < MAXPATH"
        using append_component_ok [OF copy_path [OF less.prems(1), of "replicate MAXPATH 0"], of el] that e(4,5) el(2)
          less.prems(2) by (simp add: comp_ok_def path_fits_def)
      ultimately show ?thesis using step tc el None by auto
    next
      case (Some cs1)
      have nd: "\<not> DIRSIZ < length el" using Some by (auto simp: resolve1_def)
      have "\<exists>out1. holds_path out1 cs1 \<and> normalize_loop s out (int MAXPATH) = normalize_loop ?rest out1 (int MAXPATH)"
      proof (cases "el = [46] \<or> el = [46, 46]")
        case True
        then show ?thesis using Some nd step tc less.prems(1) pop_component_ok [OF less.prems(1)]
          by (auto simp: resolve1_def)
      next
        case False
        have f: "length (render (cs @ [el])) < MAXPATH" "cs1 = cs @ [el]"
          using Some False nd by (auto simp: resolve1_def split: if_splits)
        obtain tmp where t: "append_path_component (safestrcpy (replicate MAXPATH 0) out (int MAXPATH)) (int MAXPATH) el = (0, tmp)"
          "holds_path tmp cs1"
          using append_component_ok [OF copy_path [OF less.prems(1), of "replicate MAXPATH 0"], of el] f e(4,5) el(2)
            less.prems(2) nd False by (auto simp: comp_ok_def path_fits_def)
        have "holds_path (safestrcpy out tmp (int MAXPATH)) cs1"
          using copy_path [OF t(2), of out] less.prems(1) f by (simp add: holds_path_def)
        then show ?thesis using step tc nd False el(2) t(1) by auto
      qed
      then obtain out1 where 1: "holds_path out1 cs1" "normalize_loop s out (int MAXPATH) = normalize_loop ?rest out1 (int MAXPATH)"
        by blast
      have "path_fits cs1" using resolve1_ok [OF oks less.prems(2) el(2) e(4,5) Some] by simp
      then show ?thesis using ih [OF nd 1(1)] 1(2) el(1) Some by simp
    qed
  qed
qed

section \<open>Properties\<close>

text \<open>
  Property C14 (refinement). \<open>normalize_cwd_path\<close> resolves a path the way the list
  specification does: starting from the root or from the components of the current
  directory, it drops empty and \<open>.\<close> components, \<open>..\<close> removes the last component
  (and stays at the root), other components are appended. It returns -1 exactly when a
  component has more than 14 bytes or the result does not fit; otherwise the array holds
  the canonical absolute path of the result, whose components are proper names.
\<close>

theorem normalize_cwd_path_resolves:
  assumes "holds_path cwdp cs" and "path_fits cs" and "length out = MAXPATH"
    and "start = (if cchar input 0 = 47 then [] else cs)"
  shows "\<exists>out'. normalize_cwd_path cwdp input out (int MAXPATH) =
      (if resolve start (elems input) = None then -1 else 0, out') \<and>
    (\<forall>cs'. resolve start (elems input) = Some cs' \<longrightarrow> cstr out' = render cs' \<and> (\<forall>c \<in> set cs'. comp_ok c))"
proof -
  define out0 where "out0 = (if cchar input 0 = 47 then safestrcpy out [47] (int MAXPATH)
    else safestrcpy out (if cchar cwdp 0 \<noteq> 0 then cwdp else [47]) (int MAXPATH))"
  have "cchar cwdp 0 \<noteq> 0" using assms(1) by (simp add: holds_path_def cchar_0_iff)
  moreover have "holds_path (safestrcpy out [47] (int MAXPATH)) []"
    using safestrcpy_copy(1,2) [of "int MAXPATH" out "[47]"] assms(3) by (simp add: holds_path_def render_def MAXPATH_def)
  ultimately have "holds_path out0 start"
    unfolding out0_def using copy_path [OF assms(1,3)] assms(2,4) by (simp add: path_fits_def)
  moreover have "path_fits start" using assms(2,4) by (auto simp: path_fits_def render_def MAXPATH_def)
  moreover have "normalize_cwd_path cwdp input out (int MAXPATH) = normalize_loop input out0 (int MAXPATH)"
    unfolding out0_def normalize_cwd_path_def Let_def by (simp add: MAXPATH_def)
  ultimately show ?thesis using normalize_loop_ok [of out0 start input] unfolding holds_path_def by metis
qed

text \<open>The current directory \<open>/a/b\<close>.\<close>

definition cwd_ab :: "u8 list" where
  "cwd_ab = [47, 97, 47, 98] @ replicate 124 0"

lemma cwd_ab_path: "holds_path cwd_ab [[97], [98]]" "path_fits [[97], [98]]"
  by (simp_all add: holds_path_def path_fits_def cwd_ab_def render_def comp_ok_def cstr_append MAXPATH_def DIRSIZ_def)
    (simp add: cstr_def)

theorem normalize_cwd_path_resolves_witness:
  "holds_path cwd_ab [[97], [98]] \<and>
   (\<exists>out'. normalize_cwd_path cwd_ab [46, 46, 47, 46, 47, 99, 0] (replicate MAXPATH 0) (int MAXPATH) = (0, out') \<and>
      cstr out' = [47, 97, 47, 99])"
  using normalize_cwd_path_resolves [OF cwd_ab_path, of "replicate MAXPATH 0" _ "[46, 46, 47, 46, 47, 99, 0]"] cwd_ab_path
  by (auto simp: elems_def resolve1_def render_def DIRSIZ_def MAXPATH_def)

end
