(* ===== verification/Pipe.thy ===== *)
theory Pipe
  imports Sysargs
begin

text \<open>
  Bounded queues: a ring buffer with its contract as the locale \<open>fifo\<close>, and the pipes
  of \<open>kernel/syscall/sysfile.c\<close>. A \<open>struct pipe\<close> lives in a page of physical
  memory, at the byte offsets of the C layout; its lock is \<open>LPipe\<close>. A call that
  sleeps stops with \<open>Blocked\<close> and what it needs to continue; the \<open>_resume\<close>
  functions are the code after \<open>sleep\<close> returns.
\<close>

section \<open>Ring buffers\<close>

definition ring_abs :: "'a list \<Rightarrow> nat \<Rightarrow> nat \<Rightarrow> 'a list" where
  "ring_abs d r n = map (\<lambda>i. d ! ((r + i) mod length d)) [0..<n]"

lemma ring_push:
  assumes "n < length d"
  shows "ring_abs (d[(r + n) mod length d := x]) r (Suc n) = ring_abs d r n @ [x]"
proof (rule nth_equalityI)
  fix i assume "i < length (ring_abs (d[(r + n) mod length d := x]) r (Suc n))"
  then have i: "i \<le> n" by (simp add: ring_abs_def)
  have ne: "(r + i) mod length d \<noteq> (r + n) mod length d" if "i < n"
  proof
    assume "(r + i) mod length d = (r + n) mod length d"
    then have "length d dvd (r + n) - (r + i)" using mod_eq_dvd_iff_nat [of "r + i" "r + n" "length d"] that by simp
    then show False using that assms dvd_imp_le [of "length d" "n - i"] by simp
  qed
  have lt: "(r + k) mod length d < length d" for k using assms by (cases d) auto
  show "ring_abs (d[(r + n) mod length d := x]) r (Suc n) ! i = (ring_abs d r n @ [x]) ! i"
    using i ne lt by (cases "i = n") (auto simp: ring_abs_def nth_append simp del: upt_Suc)
qed (simp add: ring_abs_def)

lemma ring_pop: "ring_abs d r (Suc n) = d ! (r mod length d) # ring_abs d (Suc r) n"
  by (simp add: ring_abs_def map_upt_Suc del: upt_Suc)

lemma ring_mod: "ring_abs d (r mod length d) n = ring_abs d r n"
  by (simp add: ring_abs_def mod_add_left_eq)

lemma length_ring [simp]: "length (ring_abs d r n) = n"
  by (simp add: ring_abs_def)

text \<open>
  The contract of a bounded queue: \<open>contents\<close> in the order of arrival; a push at the
  back succeeds below the capacity, a pop takes the front.
\<close>

locale fifo =
  fixes ok :: "'s \<Rightarrow> bool" and contents :: "'s \<Rightarrow> 'x list" and capacity :: nat
    and push :: "'x \<Rightarrow> 's \<Rightarrow> 's" and pop :: "'s \<Rightarrow> 'x \<times> 's"
  assumes push_ok: "ok s \<Longrightarrow> length (contents s) < capacity \<Longrightarrow> ok (push x s)"
    and push_contents: "ok s \<Longrightarrow> length (contents s) < capacity \<Longrightarrow> contents (push x s) = contents s @ [x]"
    and pop_contents: "ok s \<Longrightarrow> contents s = x # xs \<Longrightarrow> \<exists>s'. pop s = (x, s') \<and> ok s' \<and> contents s' = xs"
    and bounded: "ok s \<Longrightarrow> length (contents s) \<le> capacity"
begin

definition push_all :: "'x list \<Rightarrow> 's \<Rightarrow> 's" where
  "push_all xs s = fold push xs s"

fun pop_all :: "nat \<Rightarrow> 's \<Rightarrow> 'x list \<times> 's" where
  "pop_all 0 s = ([], s)"
| "pop_all (Suc n) s = (let (x, s) = pop s; (xs, s) = pop_all n s in (x # xs, s))"

lemma push_all_contents:
  assumes "ok s" and "length (contents s) + length xs \<le> capacity"
  shows "ok (push_all xs s)" and "contents (push_all xs s) = contents s @ xs"
  using assms
proof (induction xs arbitrary: s)
  case (Cons x xs)
  {
    case 1
    then show ?case using Cons.IH(1) [of "push x s"] push_ok push_contents by (simp add: push_all_def)
  next
    case 2
    then show ?case using Cons.IH(2) [of "push x s"] push_ok push_contents by (simp add: push_all_def)
  }
qed (simp_all add: push_all_def)

lemma pop_all_contents:
  assumes "ok s" and "n \<le> length (contents s)"
  shows "\<exists>s'. pop_all n s = (take n (contents s), s') \<and> ok s' \<and> contents s' = drop n (contents s)"
  using assms
proof (induction n arbitrary: s)
  case (Suc n)
  then obtain x xs where c: "contents s = x # xs" by (cases "contents s") auto
  obtain s1 where "pop s = (x, s1)" "ok s1" "contents s1 = xs" using pop_contents [OF Suc.prems(1) c] by blast
  then show ?case using Suc.IH [of s1] Suc.prems c by auto
qed simp

text \<open>What goes in comes out, in order, after what was there before.\<close>

lemma in_order:
  assumes "ok s" and "length (contents s) + length xs \<le> capacity"
  shows "fst (pop_all (length (contents s) + length xs) (push_all xs s)) = contents s @ xs"
  using pop_all_contents [OF push_all_contents(1) [OF assms]] push_all_contents(2) [OF assms] by fastforce

end

section \<open>The pipe structure\<close>

definition PIPESIZE :: nat where [kdefs]: "PIPESIZE = 512"

record pipe =
  p_data :: "u8 list"
  p_nread :: u32
  p_nwrite :: u32
  p_readopen :: u32
  p_writeopen :: u32

text \<open>Offset of \<open>data\<close> behind the 24 bytes of the spinlock.\<close>

definition pipe_off :: u64 where "pipe_off = 24"

definition pipe_at :: "mem \<Rightarrow> u64 \<Rightarrow> pipe" where
  "pipe_at m pi =
     (let b = mem_read m (pi + pipe_off) (PIPESIZE + 16) in
      \<lparr>p_data = take PIPESIZE b, p_nread = le_word (take 4 (drop PIPESIZE b)),
       p_nwrite = le_word (take 4 (drop (PIPESIZE + 4) b)), p_readopen = le_word (take 4 (drop (PIPESIZE + 8) b)),
       p_writeopen = le_word (take 4 (drop (PIPESIZE + 12) b))\<rparr>)"

definition pipe_put :: "u64 \<Rightarrow> pipe \<Rightarrow> 'a mem_st_scheme \<Rightarrow> 'a mem_st_scheme" where
  "pipe_put pi v s = s\<lparr>pmem := mem_write (pmem s) (pi + pipe_off)
     (p_data v @ le_bytes 4 (p_nread v) @ le_bytes 4 (p_nwrite v) @ le_bytes 4 (p_readopen v) @ le_bytes 4 (p_writeopen v))\<rparr>"

definition pipe_push :: "u8 \<Rightarrow> pipe \<Rightarrow> pipe" where
  "pipe_push c v = v\<lparr>p_data := (p_data v)[unat (p_nwrite v) mod PIPESIZE := c], p_nwrite := p_nwrite v + 1\<rparr>"

definition pipe_pop :: "pipe \<Rightarrow> u8 \<times> pipe" where
  "pipe_pop v = (p_data v ! (unat (p_nread v) mod PIPESIZE), v\<lparr>p_nread := p_nread v + 1\<rparr>)"

section \<open>Pipe operations\<close>

datatype 'c io = Blocked 'c | Result int

definition is_killed :: "'a proc_st_scheme \<Rightarrow> bool option" where
  "is_killed s = do { p \<leftarrow> myproc s; Some (killed (procs s p)) }"

text \<open>The loop of \<open>pipewrite\<close> from byte \<open>i\<close> on, with \<open>pi->lock\<close> held; \<open>bs\<close> are
  the bytes still to be written.\<close>

fun pipewrite_loop ::
  "u64 \<Rightarrow> u8 list \<Rightarrow> nat \<Rightarrow> 'a proc_st_scheme \<Rightarrow> ((u8 list \<times> nat) io \<times> 'a proc_st_scheme) option" where
  "pipewrite_loop pi [] i s =
     do { s \<leftarrow> wakeup (CPipeR pi) s; Some (Result (int i), release (LPipe pi) s) }"
| "pipewrite_loop pi (b # bs) i s =
     do { k \<leftarrow> is_killed s;
          let v = pipe_at (pmem s) pi;
          if k \<or> p_readopen v = 0 then Some (Result (-1), release (LPipe pi) s)
          else if p_nwrite v - p_nread v = of_nat PIPESIZE
          then do { s \<leftarrow> wakeup (CPipeR pi) s;
                    s \<leftarrow> sleep_out (CPipeW pi) (LPipe pi) s;
                    Some (Blocked (b # bs, i), s) }
          else pipewrite_loop pi bs (Suc i) (pipe_put pi (pipe_push b v) s) }"

definition pipewrite ::
  "u64 \<Rightarrow> u8 list \<Rightarrow> 'a proc_st_scheme \<Rightarrow> ((u8 list \<times> nat) io \<times> 'a proc_st_scheme) option" where
  "pipewrite pi bs s = do { s \<leftarrow> acquire (LPipe pi) s; pipewrite_loop pi bs 0 s }"

definition pipewrite_resume ::
  "nat \<Rightarrow> u64 \<Rightarrow> u8 list \<Rightarrow> nat \<Rightarrow> 'a proc_st_scheme \<Rightarrow> ((u8 list \<times> nat) io \<times> 'a proc_st_scheme) option" where
  "pipewrite_resume p pi bs i s =
     do { s \<leftarrow> sleep_in p (LPipe pi) s;
          if killed (procs s p) then Some (Result (-1), release (LPipe pi) s)
          else pipewrite_loop pi bs i s }"

text \<open>The copy loop of \<open>piperead\<close>: \<open>n\<close> bytes are still wanted, \<open>i\<close> have been read.\<close>

fun piperead_copy :: "u64 \<Rightarrow> u64 \<Rightarrow> nat \<Rightarrow> nat \<Rightarrow> 'a proc_st_scheme \<Rightarrow> (int \<times> 'a proc_st_scheme) option" where
  "piperead_copy pi addr 0 i s =
     do { s \<leftarrow> wakeup (CPipeW pi) s; Some (int i, release (LPipe pi) s) }"
| "piperead_copy pi addr (Suc n) i s =
     (let v = pipe_at (pmem s) pi in
      if p_nwrite v = p_nread v
      then do { s \<leftarrow> wakeup (CPipeW pi) s; Some (int i, release (LPipe pi) s) }
      else do { p \<leftarrow> myproc s;
                u \<leftarrow> user_byte s (pagetable (procs s p)) False (addr + of_nat i);
                (case u of
                   None \<Rightarrow> Some (-1, release (LPipe pi) s)
                 | Some a \<Rightarrow>
                     let s = s\<lparr>pmem := (pmem s)(a := fst (pipe_pop v))\<rparr>;
                         s = pipe_put pi (snd (pipe_pop (pipe_at (pmem s) pi))) s
                     in piperead_copy pi addr n (Suc i) s) })"

text \<open>One pass over the head of the waiting loop, with \<open>pi->lock\<close> held.\<close>

definition piperead_loop :: "u64 \<Rightarrow> u64 \<Rightarrow> int \<Rightarrow> 'a proc_st_scheme \<Rightarrow> (unit io \<times> 'a proc_st_scheme) option" where
  "piperead_loop pi addr n s =
     (let v = pipe_at (pmem s) pi in
      if p_nwrite v = p_nread v
      then do { k \<leftarrow> is_killed s;
                if k then Some (Result (-1), release (LPipe pi) s)
                else if p_writeopen v = 0 then Some (Result 0, release (LPipe pi) s)
                else do { s \<leftarrow> wakeup (CPipeW pi) s;
                          s \<leftarrow> sleep_out (CPipeR pi) (LPipe pi) s;
                          Some (Blocked (), s) } }
      else do { (r, s) \<leftarrow> piperead_copy pi addr (nat n) 0 s; Some (Result r, s) })"

definition piperead :: "u64 \<Rightarrow> u64 \<Rightarrow> int \<Rightarrow> 'a proc_st_scheme \<Rightarrow> (unit io \<times> 'a proc_st_scheme) option" where
  "piperead pi addr n s = do { s \<leftarrow> acquire (LPipe pi) s; piperead_loop pi addr n s }"

definition piperead_resume ::
  "nat \<Rightarrow> u64 \<Rightarrow> u64 \<Rightarrow> int \<Rightarrow> 'a proc_st_scheme \<Rightarrow> (unit io \<times> 'a proc_st_scheme) option" where
  "piperead_resume p pi addr n s =
     do { s \<leftarrow> sleep_in p (LPipe pi) s;
          if killed (procs s p) then Some (Result (-1), release (LPipe pi) s)
          else piperead_loop pi addr n s }"

definition pipeclose :: "u64 \<Rightarrow> bool \<Rightarrow> 'a proc_st_scheme \<Rightarrow> 'a proc_st_scheme option" where
  "pipeclose pi writable s =
     do { s \<leftarrow> acquire (LPipe pi) s;
          s \<leftarrow> (if writable
                then wakeup (CPipeR pi) (pipe_put pi ((pipe_at (pmem s) pi)\<lparr>p_writeopen := 0\<rparr>) s)
                else wakeup (CPipeW pi) (pipe_put pi ((pipe_at (pmem s) pi)\<lparr>p_readopen := 0\<rparr>) s));
          let v = pipe_at (pmem s) pi;
          if p_readopen v = 0 \<and> p_writeopen v = 0 then kfree (release (LPipe pi) s) pi
          else Some (release (LPipe pi) s) }"

section \<open>Pipes as queues\<close>

definition pipe_ok :: "pipe \<Rightarrow> bool" where
  "pipe_ok v \<longleftrightarrow> length (p_data v) = PIPESIZE \<and> unat (p_nwrite v - p_nread v) \<le> PIPESIZE"

definition pipe_contents :: "pipe \<Rightarrow> u8 list" where
  "pipe_contents v = ring_abs (p_data v) (unat (p_nread v)) (unat (p_nwrite v - p_nread v))"

lemma pipe_at_put:
  assumes "length (p_data v) = PIPESIZE"
  shows "pipe_at (pmem (pipe_put pi v s)) pi = v"
proof -
  let ?b = "p_data v @ le_bytes 4 (p_nread v) @ le_bytes 4 (p_nwrite v) @ le_bytes 4 (p_readopen v) @ le_bytes 4 (p_writeopen v)"
  have "length ?b = PIPESIZE + 16" using assms by simp
  then have r: "mem_read (mem_write (pmem s) (pi + pipe_off) ?b) (pi + pipe_off) (PIPESIZE + 16) = ?b"
    using mem_read_write_same [of ?b "pmem s" "pi + pipe_off"] by (simp add: PIPESIZE_def)
  show ?thesis
    unfolding pipe_at_def pipe_put_def by (simp add: r Let_def assms le_word_le_bytes)
qed

lemma pipe_at_length: "length (p_data (pipe_at m pi)) = PIPESIZE"
  by (simp add: pipe_at_def Let_def)

lemma pipe_at_cong:
  assumes "\<And>i. i < PIPESIZE + 16 \<Longrightarrow> m (pi + pipe_off + of_nat i) = m' (pi + pipe_off + of_nat i)"
  shows "pipe_at m pi = pipe_at m' pi"
  using mem_read_cong [of "PIPESIZE + 16" m "pi + pipe_off" m'] assms by (simp add: pipe_at_def)

lemma unat_mod_512: "unat (a + b :: u32) mod 512 = (unat a + unat b) mod 512"
  by (simp add: unat_word_ariths(1) mod_mod_cancel)

lemma pipe_push_ok:
  assumes "pipe_ok v" and "length (pipe_contents v) < PIPESIZE"
  shows "pipe_ok (pipe_push x v)" and "pipe_contents (pipe_push x v) = pipe_contents v @ [x]"
proof -
  let ?n = "unat (p_nwrite v - p_nread v)"
  have n: "?n < 512" using assms(2) by (simp add: pipe_contents_def PIPESIZE_def)
  have "p_nwrite v + 1 - p_nread v = p_nwrite v - p_nread v + 1" by (simp add: algebra_simps)
  moreover have "unat (p_nwrite v - p_nread v + 1) = Suc ?n"
    using n unat_add_small [of "p_nwrite v - p_nread v" 1] by simp
  ultimately have u: "unat (p_nwrite v + 1 - p_nread v) = Suc ?n" by (simp only:)
  have "unat (p_nwrite v) mod 512 = (unat (p_nread v) + ?n) mod 512"
    using unat_mod_512 [of "p_nread v" "p_nwrite v - p_nread v"] by simp
  then have i: "unat (p_nwrite v) mod PIPESIZE = (unat (p_nread v) + ?n) mod length (p_data v)"
    using assms(1) by (simp add: pipe_ok_def PIPESIZE_def)
  show "pipe_ok (pipe_push x v)" using assms(1) u n by (simp add: pipe_ok_def pipe_push_def PIPESIZE_def)
  show "pipe_contents (pipe_push x v) = pipe_contents v @ [x]"
  proof -
    have "?n < length (p_data v)" using n assms(1) by (simp add: pipe_ok_def PIPESIZE_def)
    from ring_push [OF this] show ?thesis by (simp add: pipe_contents_def pipe_push_def u i)
  qed
qed

lemma pipe_pop_ok:
  assumes "pipe_ok v" and "pipe_contents v = x # xs"
  shows "\<exists>v'. pipe_pop v = (x, v') \<and> pipe_ok v' \<and> pipe_contents v' = xs"
proof -
  let ?n = "unat (p_nwrite v - p_nread v)"
  obtain m where m: "?n = Suc m" using assms(2) by (cases ?n) (auto simp: pipe_contents_def ring_abs_def)
  have "p_nwrite v - (p_nread v + 1) = (p_nwrite v - p_nread v) - 1" by (simp add: algebra_simps)
  moreover have "unat (p_nwrite v - p_nread v - 1) = m"
    using m unat_sub [of 1 "p_nwrite v - p_nread v"] by (simp add: word_le_nat_alt)
  ultimately have u: "unat (p_nwrite v - (p_nread v + 1)) = m" by (simp only:)
  have len: "length (p_data v) = 512" using assms(1) by (simp add: pipe_ok_def PIPESIZE_def)
  have "unat (p_nread v + 1) mod length (p_data v) = Suc (unat (p_nread v)) mod length (p_data v)"
    using unat_mod_512 [of "p_nread v" 1] len by simp
  then have r: "ring_abs (p_data v) (unat (p_nread v + 1)) m = ring_abs (p_data v) (Suc (unat (p_nread v))) m"
    using ring_mod by metis
  show ?thesis using assms ring_pop [of "p_data v" "unat (p_nread v)" m] m u r len
    by (simp add: pipe_contents_def pipe_pop_def pipe_ok_def PIPESIZE_def)
qed

interpretation pq: fifo pipe_ok pipe_contents PIPESIZE pipe_push pipe_pop
proof (unfold_locales, goal_cases)
  case (4 s)
  then show ?case by (simp add: pipe_contents_def pipe_ok_def)
qed (auto simp: pipe_push_ok intro: pipe_pop_ok)

section \<open>Reading and writing\<close>

text \<open>None of the process-table operations touches memory.\<close>

lemma pmem_locks: "pmem (release lk s) = pmem s" "acquire lk s = Some s' \<Longrightarrow> pmem s' = pmem s"
  by (auto simp: lock_defs Let_def)

declare pmem_locks(1) [simp]

lemma pmem_wakeup_one: "wakeup_one ch i s = Some s' \<Longrightarrow> pmem s' = pmem s"
  by (auto simp: wakeup_one_def Let_def elim!: bind_eq_SomeE split: if_splits dest: pmem_locks(2))

lemma pmem_for_wakeup: "for_each (wakeup_one ch) is s = Some s' \<Longrightarrow> pmem s' = pmem s"
  by (induction "is" arbitrary: s) (auto elim!: bind_eq_SomeE dest: pmem_wakeup_one)

lemma pmem_wakeup: "wakeup ch s = Some s' \<Longrightarrow> pmem s' = pmem s"
  unfolding wakeup_def by (rule pmem_for_wakeup)

lemma pmem_sleep_out: "sleep_out ch lk s = Some s' \<Longrightarrow> pmem s' = pmem s"
  by (auto simp: sleep_out_def sched_def elim!: bind_eq_SomeE split: if_splits dest!: pmem_locks(2))

lemma pipe_put_simps [simp]:
  "procs (pipe_put pi v s) = procs s" "myproc (pipe_put pi v s) = myproc s" "holds (pipe_put pi v s) = holds s"
  by (simp_all add: pipe_put_def myproc_def holds_def fun_eq_iff)

lemma pmem_upd_simps [simp]: "myproc (s\<lparr>pmem := m\<rparr>) = myproc s" "holds (s\<lparr>pmem := m\<rparr>) = holds s"
  by (simp_all add: myproc_def holds_def fun_eq_iff)

definition pcontents :: "'a mem_st_scheme \<Rightarrow> u64 \<Rightarrow> u8 list" where
  "pcontents s pi = pipe_contents (pipe_at (pmem s) pi)"

definition pipe_inv :: "'a mem_st_scheme \<Rightarrow> u64 \<Rightarrow> bool" where
  "pipe_inv s pi = pipe_ok (pipe_at (pmem s) pi)"

lemma pipe_full_iff:
  "pipe_ok v \<Longrightarrow> p_nwrite v - p_nread v = of_nat PIPESIZE \<longleftrightarrow> length (pipe_contents v) = PIPESIZE"
  "pipe_ok v \<Longrightarrow> p_nwrite v = p_nread v \<longleftrightarrow> pipe_contents v = []"
proof -
  have "p_nwrite v - p_nread v = 512 \<longleftrightarrow> unat (p_nwrite v - p_nread v) = 512"
    using word_unat_eq_iff [of "p_nwrite v - p_nread v" 512] by simp
  then show "pipe_ok v \<Longrightarrow> p_nwrite v - p_nread v = of_nat PIPESIZE \<longleftrightarrow> length (pipe_contents v) = PIPESIZE"
    by (simp add: pipe_contents_def PIPESIZE_def)
  have "pipe_contents v = [] \<longleftrightarrow> length (pipe_contents v) = 0" by simp
  also have "\<dots> \<longleftrightarrow> p_nwrite v - p_nread v = 0" by (simp add: pipe_contents_def unat_eq_zero)
  finally show "p_nwrite v = p_nread v \<longleftrightarrow> pipe_contents v = []" by auto
qed

lemma pipewrite_loop_ok:
  assumes "holds s {LPipe pi} ie" and "myproc s = Some p" and "\<not> killed (procs s p)"
    and "pipe_inv s pi" and "p_readopen (pipe_at (pmem s) pi) \<noteq> 0"
    and "room = PIPESIZE - length (pcontents s pi)"
  shows "\<exists>s'. pipe_inv s' pi \<and> pcontents s' pi = pcontents s pi @ take room bs \<and>
    (if length bs \<le> room
     then pipewrite_loop pi bs i s = Some (Result (int (i + length bs)), s') \<and> holds s' {} ie
     else pipewrite_loop pi bs i s = Some (Blocked (drop room bs, i + room), s') \<and>
       status (procs s' p) = TASK_SLEEPING \<and> chan (procs s' p) = CPipeW pi \<and> holds s' {LProc p} ie)"
  using assms
proof (induction bs arbitrary: s i room)
  case Nil
  have "\<forall>j. LProc j \<in> {LPipe pi} \<longrightarrow> myproc s = Some j" by simp
  from wakeup_ok [OF Nil(1) this, of "CPipeR pi"] obtain s1 where
    1: "wakeup (CPipeR pi) s = Some s1" "holds s1 {LPipe pi} ie" by blast
  have "holds (release (LPipe pi) s1) {} ie" using after_release(1) [of s1 "LPipe pi" "{}" ie] 1(2) by simp
  then show ?case using 1(1) Nil pmem_wakeup [OF 1(1)] by (auto simp: pipe_inv_def pcontents_def)
next
  case (Cons b bs)
  let ?v = "pipe_at (pmem s) pi"
  have ok: "pipe_ok ?v" using Cons.prems(4) by (simp add: pipe_inv_def)
  show ?case
  proof (cases "room = 0")
    case True
    then have full: "length (pipe_contents ?v) = PIPESIZE"
      using Cons.prems(6) pq.bounded [OF ok] by (simp add: pcontents_def)
    have "\<forall>j. LProc j \<in> {LPipe pi} \<longrightarrow> myproc s = Some j" by simp
    from wakeup_ok [OF Cons.prems(1) this, of "CPipeR pi"] obtain s1 where
      1: "wakeup (CPipeR pi) s = Some s1" "holds s1 {LPipe pi} ie" "myproc s1 = Some p" using Cons.prems(2) by auto
    obtain s2 where 2: "sleep_out (CPipeW pi) (LPipe pi) s1 = Some s2" "holds s2 {LProc p} ie"
      "status (procs s2 p) = TASK_SLEEPING" "chan (procs s2 p) = CPipeW pi"
      using sleep_out_held [OF 1(2,3), of "CPipeW pi"] by auto
    have "pmem s2 = pmem s" using pmem_wakeup [OF 1(1)] pmem_sleep_out [OF 2(1)] by simp
    then show ?thesis
      using 1 2 True Cons.prems full pipe_full_iff(1) [OF ok] by (auto simp: is_killed_def pipe_inv_def pcontents_def)
  next
    case False
    have nf: "length (pipe_contents ?v) < PIPESIZE" using False Cons.prems(6) by (simp add: pcontents_def)
    let ?s = "pipe_put pi (pipe_push b ?v) s"
    note pu = pipe_push_ok [OF ok nf, of b]
    have at: "pipe_at (pmem ?s) pi = pipe_push b ?v" using pu(1) by (intro pipe_at_put) (simp add: pipe_ok_def)
    have "room - 1 = PIPESIZE - length (pcontents ?s pi)" using Cons.prems(6) by (simp add: pcontents_def at pu)
    from Cons.IH [of ?s, OF _ _ _ _ _ this, of "Suc i"] obtain s' where s': "pipe_inv s' pi"
      "pcontents s' pi = pcontents ?s pi @ take (room - 1) bs"
      "if length bs \<le> room - 1
       then pipewrite_loop pi bs (Suc i) ?s = Some (Result (int (Suc i + length bs)), s') \<and> holds s' {} ie
       else pipewrite_loop pi bs (Suc i) ?s = Some (Blocked (drop (room - 1) bs, Suc i + (room - 1)), s') \<and>
         status (procs s' p) = TASK_SLEEPING \<and> chan (procs s' p) = CPipeW pi \<and> holds s' {LProc p} ie"
      using Cons.prems pu(1) at by (auto simp: pipe_inv_def pipe_push_def)
    have step: "pipewrite_loop pi (b # bs) i s = pipewrite_loop pi bs (Suc i) ?s"
      using Cons.prems nf pipe_full_iff(1) [OF ok] by (simp add: is_killed_def)
    have "pcontents s' pi = pcontents s pi @ take room (b # bs)"
      using s'(2) False by (simp add: pcontents_def at pu take_Cons')
    then show ?thesis using s'(1,3) step False by (intro exI [of _ s']) (auto simp: drop_Cons' split: if_splits)
  qed
qed

text \<open>
  A user buffer: byte \<open>i\<close> of the destination is the physical byte \<open>ua i\<close>, also
  after bytes of the buffer or of the pipe have changed (the page table lies elsewhere).
\<close>

definition pipe_bytes :: "u64 \<Rightarrow> u64 set" where
  "pipe_bytes pi = (\<lambda>i. pi + pipe_off + of_nat i) ` {..<PIPESIZE + 16}"

definition user_buf :: "'a mem_st_scheme \<Rightarrow> u64 \<Rightarrow> u64 \<Rightarrow> u64 \<Rightarrow> nat \<Rightarrow> (nat \<Rightarrow> u64) \<Rightarrow> bool" where
  "user_buf s pi pt addr n ua \<longleftrightarrow> inj_on ua {..<n} \<and> ua ` {..<n} \<inter> pipe_bytes pi = {} \<and>
     (\<forall>t i. i < n \<and> (\<forall>x. x \<notin> ua ` {..<n} \<union> pipe_bytes pi \<longrightarrow> pmem t x = pmem s x) \<longrightarrow>
        user_byte (t :: 'a mem_st_scheme) pt False (addr + of_nat i) = Some (Some (ua i)))"

lemma user_bufD:
  fixes s t :: "'a mem_st_scheme"
  assumes "user_buf s pi pt addr n ua" and "i < n" and "\<forall>x. x \<notin> ua ` {..<n} \<union> pipe_bytes pi \<longrightarrow> pmem t x = pmem s x"
  shows "user_byte t pt False (addr + of_nat i) = Some (Some (ua i))"
proof -
  have "\<forall>t i. i < n \<and> (\<forall>x. x \<notin> ua ` {..<n} \<union> pipe_bytes pi \<longrightarrow> pmem t x = pmem s x) \<longrightarrow>
        user_byte (t :: 'a mem_st_scheme) pt False (addr + of_nat i) = Some (Some (ua i))"
    using assms(1) unfolding user_buf_def by (elim conjE)
  from this [THEN spec, of t, THEN spec, of i] show ?thesis by (rule mp) (intro conjI assms)
qed

lemma pipe_put_out:
  assumes "length (p_data v) = PIPESIZE" and "x \<notin> pipe_bytes pi"
  shows "pmem (pipe_put pi v s) x = pmem s x"
proof -
  have x: "x = pi + pipe_off + of_nat (unat (x - (pi + pipe_off)))" by simp
  have "\<not> unat (x - (pi + pipe_off)) < PIPESIZE + 16"
  proof
    assume "unat (x - (pi + pipe_off)) < PIPESIZE + 16"
    then have "x \<in> pipe_bytes pi" unfolding pipe_bytes_def
      by (intro image_eqI [where x = "unat (x - (pi + pipe_off))"]) (rule x, simp)
    then show False using assms(2) by simp
  qed
  then show ?thesis using assms(1) by (simp add: pipe_put_def mem_write_def)
qed

lemma pipe_at_upd: "a \<notin> pipe_bytes pi \<Longrightarrow> pipe_at (m(a := c)) pi = pipe_at m pi"
  by (intro pipe_at_cong) (auto simp: pipe_bytes_def)

lemma piperead_end:
  assumes "holds s {LPipe pi} ie"
  shows "\<exists>s'. wakeup (CPipeW pi) s = Some s' \<and> holds (release (LPipe pi) s') {} ie \<and> pmem s' = pmem s"
proof -
  have "\<forall>j. LProc j \<in> {LPipe pi} \<longrightarrow> myproc s = Some j" by simp
  from wakeup_ok [OF assms this, of "CPipeW pi"] obtain s1 where
    1: "wakeup (CPipeW pi) s = Some s1" "holds s1 {LPipe pi} ie" by blast
  then show ?thesis using after_release(1) [of s1 "LPipe pi" "{}" ie] pmem_wakeup [OF 1(1)] by auto
qed

lemma piperead_copy_ok:
  fixes s t :: "'a proc_st_scheme"
  assumes "holds t {LPipe pi} ie" and "myproc t = Some p" and "pagetable (procs t p) = pt" and "pipe_inv t pi"
    and "user_buf s pi pt addr N ua" and "i + n \<le> N" and "\<forall>x. x \<notin> ua ` {..<N} \<union> pipe_bytes pi \<longrightarrow> pmem t x = pmem s x"
    and "k = min n (length (pcontents t pi))"
  shows "\<exists>t'. piperead_copy pi addr n i t = Some (int (i + k), t') \<and> holds t' {} ie \<and> pipe_inv t' pi \<and>
    pcontents t' pi = drop k (pcontents t pi) \<and> (\<forall>j < k. pmem t' (ua (i + j)) = pcontents t pi ! j) \<and>
    (\<forall>x. x \<notin> pipe_bytes pi \<union> ua ` {i..<i + k} \<longrightarrow> pmem t' x = pmem t x)"
  using assms
proof (induction n arbitrary: t i k)
  case 0
  then show ?case using piperead_end [OF "0.prems"(1)] by (auto simp: pipe_inv_def pcontents_def)
next
  case (Suc n)
  let ?v = "pipe_at (pmem t) pi"
  have ok: "pipe_ok ?v" using Suc.prems(4) by (simp add: pipe_inv_def)
  note ub = Suc.prems(5) [unfolded user_buf_def]
  show ?case
  proof (cases "pipe_contents ?v")
    case Nil
    then show ?thesis
      using piperead_end [OF Suc.prems(1)] Suc.prems(4,8) pipe_full_iff(2) [OF ok] by (auto simp: pipe_inv_def pcontents_def)
  next
    case (Cons x xs)
    obtain v' where pop: "pipe_pop ?v = (x, v')" "pipe_ok v'" "pipe_contents v' = xs" using pipe_pop_ok [OF ok Cons] by blast
    have iN: "i < N" using Suc.prems(6) by simp
    have u: "user_byte t pt False (addr + of_nat i) = Some (Some (ua i))"
      using user_bufD [OF Suc.prems(5) iN Suc.prems(7)] by simp
    have ui: "ua i \<notin> pipe_bytes pi" using ub iN by auto
    let ?t1 = "t\<lparr>pmem := (pmem t)(ua i := x)\<rparr>"
    let ?t2 = "pipe_put pi v' ?t1"
    have at1: "pipe_at (pmem ?t1) pi = ?v" using pipe_at_upd [OF ui] by simp
    have at2: "pipe_at (pmem ?t2) pi = v'" using pop(2) by (intro pipe_at_put) (simp add: pipe_ok_def)
    have out: "pmem ?t2 y = pmem ?t1 y" if "y \<notin> pipe_bytes pi" for y
      using pop(2) that by (intro pipe_put_out) (simp_all add: pipe_ok_def)
    have ag: "\<forall>y. y \<notin> ua ` {..<N} \<union> pipe_bytes pi \<longrightarrow> pmem ?t2 y = pmem s y"
    proof (intro allI impI)
      fix y assume y: "y \<notin> ua ` {..<N} \<union> pipe_bytes pi"
      then have "y \<noteq> ua i" "y \<notin> pipe_bytes pi" using iN by auto
      then show "pmem ?t2 y = pmem s y" using out [of y] Suc.prems(7) y by simp
    qed
    have c2: "pcontents ?t2 pi = xs" by (simp only: pcontents_def at2 pop(3))
    have h2: "pipe_inv ?t2 pi" "holds ?t2 {LPipe pi} ie" "myproc ?t2 = Some p" "pagetable (procs ?t2 p) = pt" "Suc i + n \<le> N"
      using Suc.prems(1-4,6) pop(2) unfolding pipe_inv_def at2 by simp_all
    obtain t' where t': "piperead_copy pi addr n (Suc i) ?t2 = Some (int (Suc i + min n (length xs)), t')" "holds t' {} ie"
      "pipe_inv t' pi" "pcontents t' pi = drop (min n (length xs)) xs"
      "\<forall>j < min n (length xs). pmem t' (ua (Suc i + j)) = xs ! j"
      "\<forall>y. y \<notin> pipe_bytes pi \<union> ua ` {Suc i..<Suc i + min n (length xs)} \<longrightarrow> pmem t' y = pmem ?t2 y"
      using Suc.IH [OF h2(2-4,1) Suc.prems(5) h2(5) ag refl, unfolded c2] by blast
    have ne: "p_nwrite ?v \<noteq> p_nread ?v" using pipe_full_iff(2) [OF ok] Cons by simp
    have step: "piperead_copy pi addr (Suc n) i t = piperead_copy pi addr n (Suc i) ?t2"
      using ne Suc.prems(2,3) u at1 pop(1) by (simp add: Let_def)
    let ?K = "min n (length xs)"
    have k: "k = Suc ?K" using Suc.prems(8) Cons by (simp add: pcontents_def)
    have "ua i \<notin> ua ` {Suc i..<Suc i + ?K}"
    proof
      assume "ua i \<in> ua ` {Suc i..<Suc i + ?K}"
      then obtain j where j: "ua i = ua j" "Suc i \<le> j" "j < Suc i + ?K" by auto
      then have "j < N" using Suc.prems(6) by simp
      then show False using j iN ub by (auto dest: inj_onD)
    qed
    then have ti: "pmem t' (ua i) = x" using t'(6) ui out [OF ui] by simp
    have "pmem t' (ua (i + j)) = pcontents t pi ! j" if "j < k" for j
      using that ti t'(5) Cons k by (cases j) (auto simp: pcontents_def)
    moreover have "pmem t' y = pmem t y" if "y \<notin> pipe_bytes pi \<union> ua ` {i..<i + k}" for y
    proof -
      have "y \<noteq> ua i" "y \<notin> ua ` {Suc i..<Suc i + ?K}" "y \<notin> pipe_bytes pi" using that k by auto
      then show ?thesis using t'(6) out [of y] by simp
    qed
    ultimately show ?thesis using t'(1-4) step k Cons by (intro exI [of _ t']) (simp add: pcontents_def)
  qed
qed

section \<open>Properties\<close>

text \<open>
  Property C22 (functional). A write to a pipe appends its bytes to the pipe's contents in
  order. If they fit, all are written and no lock is left held; if not, the pipe is filled
  to its 512 bytes, exactly the rest remains to be written, and the process sleeps on the
  pipe's write channel.
\<close>

theorem pipewrite_appends:
  assumes "holds s {} ie" and "myproc s = Some p" and "\<not> killed (procs s p)"
    and "pipe_inv s pi" and "p_readopen (pipe_at (pmem s) pi) \<noteq> 0" and "room = PIPESIZE - length (pcontents s pi)"
  shows "\<exists>s'. pipe_inv s' pi \<and> pcontents s' pi = pcontents s pi @ take room bs \<and>
    (if length bs \<le> room
     then pipewrite pi bs s = Some (Result (int (length bs)), s') \<and> holds s' {} ie
     else pipewrite pi bs s = Some (Blocked (drop room bs, room), s') \<and>
       status (procs s' p) = TASK_SLEEPING \<and> chan (procs s' p) = CPipeW pi)"
proof -
  obtain s1 where 1: "acquire (LPipe pi) s = Some s1" "holds s1 {LPipe pi} ie" "procs s1 = procs s" "myproc s1 = Some p"
    using with_lock [OF assms(1), of "LPipe pi"] assms(2) by auto
  have m: "pmem s1 = pmem s" by (rule pmem_locks(2) [OF 1(1)])
  have pre: "\<not> killed (procs s1 p)" "pipe_inv s1 pi" "p_readopen (pipe_at (pmem s1) pi) \<noteq> 0" "room = PIPESIZE - length (pcontents s1 pi)"
    using assms(3-6) by (simp_all add: m 1(3) pipe_inv_def pcontents_def)
  have "pcontents s1 pi = pcontents s pi" by (simp add: pcontents_def m)
  then show ?thesis using pipewrite_loop_ok [OF 1(2,4) pre, of bs 0] 1(1) by (auto simp: pipewrite_def)
qed

text \<open>A machine with a pipe that holds two bytes.\<close>

definition pipe_ab :: pipe where
  "pipe_ab = pipe_push 98 (pipe_push 97 \<lparr>p_data = replicate 512 0, p_nread = 0, p_nwrite = 0, p_readopen = 1, p_writeopen = 1\<rparr>)"

definition tiny_pipe :: proc_st where
  "tiny_pipe = pipe_put 0x80006000 pipe_ab tiny_user"

lemma pipe_ab: "pipe_ok pipe_ab" "pipe_contents pipe_ab = [97, 98]" "p_readopen pipe_ab = 1"
proof -
  let ?v = "\<lparr>p_data = replicate 512 0, p_nread = 0, p_nwrite = 0, p_readopen = 1, p_writeopen = 1\<rparr> :: pipe"
  have 0: "pipe_ok ?v" "pipe_contents ?v = []" by (simp_all add: pipe_ok_def pipe_contents_def PIPESIZE_def ring_abs_def)
  note 1 = pipe_push_ok [OF 0(1), of 97, unfolded 0(2)]
  have 2: "pipe_ok (pipe_push 97 ?v)" "pipe_contents (pipe_push 97 ?v) = [97]" using 1 by (simp_all add: PIPESIZE_def)
  note 3 = pipe_push_ok [OF 2(1), of 98, unfolded 2(2)]
  show "pipe_ok pipe_ab" "pipe_contents pipe_ab = [97, 98]" using 3 by (simp_all add: pipe_ab_def PIPESIZE_def)
  show "p_readopen pipe_ab = 1" by (simp add: pipe_ab_def pipe_push_def)
qed

lemma tiny_pipe:
  "holds tiny_pipe {} True" "myproc tiny_pipe = Some 0" "\<not> killed (procs tiny_pipe 0)"
  "pipe_at (pmem tiny_pipe) 0x80006000 = pipe_ab" "pagetable (procs tiny_pipe 0) = 0x80001000"
proof -
  have "holds tiny_user {} True" by (simp add: tiny_user_def one_running_def one_ready_def holds_def)
  then show "holds tiny_pipe {} True" by (simp add: tiny_pipe_def)
  show "myproc tiny_pipe = Some 0" "pagetable (procs tiny_pipe 0) = 0x80001000" by (simp_all add: tiny_pipe_def)
  show "\<not> killed (procs tiny_pipe 0)" by (simp add: tiny_pipe_def tiny_user_def zero_proc_def)
  show "pipe_at (pmem tiny_pipe) 0x80006000 = pipe_ab"
    unfolding tiny_pipe_def using pipe_ab(1) by (intro pipe_at_put) (simp add: pipe_ok_def)
qed

theorem pipewrite_appends_witness:
  "holds tiny_pipe {} True \<and> (\<exists>s'. pipewrite 0x80006000 [99] tiny_pipe = Some (Result 1, s') \<and>
     pcontents s' 0x80006000 = [97, 98, 99])"
proof -
  have inv: "pipe_inv tiny_pipe 0x80006000" "pcontents tiny_pipe 0x80006000 = [97, 98]"
    "p_readopen (pipe_at (pmem tiny_pipe) 0x80006000) \<noteq> 0"
    using tiny_pipe(4) pipe_ab by (simp_all add: pipe_inv_def pcontents_def)
  show ?thesis using pipewrite_appends [OF tiny_pipe(1-3) inv(1,3) refl, of "[99]"] tiny_pipe(1) inv(2)
    by (auto simp: PIPESIZE_def)
qed

text \<open>
  Property C23 (functional). A read from a non-empty pipe takes the oldest bytes, at most
  \<open>n\<close>, delivers them in order to the user buffer, removes exactly them from the pipe,
  and changes no other byte of memory; a read from an empty pipe returns 0 (end of file) when
  the write end is closed and otherwise puts the process to sleep on the read channel.
\<close>

theorem piperead_takes_oldest:
  assumes "holds s {} ie" and "myproc s = Some p" and "\<not> killed (procs s p)" and "pipe_inv s pi"
    and "user_buf s pi (pagetable (procs s p)) addr (nat n) ua" and "k = min (nat n) (length (pcontents s pi))"
  shows "\<exists>s'. (if pcontents s pi \<noteq> []
      then piperead pi addr n s = Some (Result (int k), s') \<and> holds s' {} ie \<and> pipe_inv s' pi \<and>
        pcontents s' pi = drop k (pcontents s pi) \<and> (\<forall>j < k. pmem s' (ua j) = pcontents s pi ! j) \<and>
        (\<forall>x. x \<notin> pipe_bytes pi \<union> ua ` {..<k} \<longrightarrow> pmem s' x = pmem s x)
      else if p_writeopen (pipe_at (pmem s) pi) = 0
      then piperead pi addr n s = Some (Result 0, s') \<and> holds s' {} ie
      else piperead pi addr n s = Some (Blocked (), s') \<and>
        status (procs s' p) = TASK_SLEEPING \<and> chan (procs s' p) = CPipeR pi)"
proof -
  obtain s1 where 1: "acquire (LPipe pi) s = Some s1" "holds s1 {LPipe pi} ie" "procs s1 = procs s" "myproc s1 = Some p"
    using with_lock [OF assms(1), of "LPipe pi"] assms(2) by auto
  have m: "pmem s1 = pmem s" by (rule pmem_locks(2) [OF 1(1)])
  let ?v = "pipe_at (pmem s) pi"
  have ok: "pipe_ok ?v" using assms(4) by (simp add: pipe_inv_def)
  note em = pipe_full_iff(2) [OF ok, folded pcontents_def]
  show ?thesis
  proof (cases "pcontents s pi = []")
    case False
    have h: "pagetable (procs s1 p) = pagetable (procs s p)" "pipe_inv s1 pi" "0 + nat n \<le> nat n"
      "\<forall>x. x \<notin> ua ` {..<nat n} \<union> pipe_bytes pi \<longrightarrow> pmem s1 x = pmem s x" "k = min (nat n) (length (pcontents s1 pi))"
      "pcontents s1 pi = pcontents s pi"
      using assms(4,6) by (simp_all add: 1(3) m pipe_inv_def pcontents_def)
    have ne: "p_nwrite ?v \<noteq> p_nread ?v" using False em by (simp add: pcontents_def)
    obtain t where "piperead_copy pi addr (nat n) 0 s1 = Some (int k, t)" "holds t {} ie" "pipe_inv t pi"
      "pcontents t pi = drop k (pcontents s pi)" "\<forall>j < k. pmem t (ua j) = pcontents s pi ! j"
      "\<forall>x. x \<notin> pipe_bytes pi \<union> ua ` {..<k} \<longrightarrow> pmem t x = pmem s x"
      using piperead_copy_ok [OF 1(2,4) h(1,2) assms(5) h(3,4,5)] by (auto simp: h(6) m atLeast0LessThan)
    then show ?thesis using 1(1) ne m False by (auto simp: piperead_def piperead_loop_def)
  next
    case True
    then have e: "p_nwrite ?v = p_nread ?v" using em by (simp add: pcontents_def)
    have k0: "is_killed s1 = Some False" using 1(3,4) assms(3) by (simp add: is_killed_def)
    obtain s2 where 2: "wakeup (CPipeW pi) s1 = Some s2" "holds s2 {LPipe pi} ie" "myproc s2 = Some p"
      using wakeup_ok [OF 1(2), of "CPipeW pi"] 1(4) by auto
    obtain s3 where 3: "sleep_out (CPipeR pi) (LPipe pi) s2 = Some s3" "status (procs s3 p) = TASK_SLEEPING"
      "chan (procs s3 p) = CPipeR pi" using sleep_out_held [OF 2(2,3), of "CPipeR pi"] by auto
    show ?thesis
    proof (cases "p_writeopen ?v = 0")
      case True
      then show ?thesis using 1(1) e k0 m \<open>pcontents s pi = []\<close> after_release(1) [of s1 "LPipe pi" "{}" ie] 1(2)
        by (auto simp: piperead_def piperead_loop_def)
    next
      case False
      then show ?thesis using 1(1) e k0 m \<open>pcontents s pi = []\<close> 2(1) 3 by (auto simp: piperead_def piperead_loop_def)
    qed
  qed
qed

lemma pipe_bytes_high: "x \<in> pipe_bytes 0x80006000 \<Longrightarrow> 0x80004000 \<le> unat x"
proof -
  assume "x \<in> pipe_bytes 0x80006000"
  then obtain i where i: "x = 0x80006018 + of_nat i" "i < 528" by (auto simp: pipe_bytes_def pipe_off_def PIPESIZE_def)
  then show ?thesis using unat_add_small [of "0x80006018 :: u64" i] by simp
qed

lemma tiny_pipe_buf: "user_buf tiny_pipe 0x80006000 0x80001000 0 2 (\<lambda>i. 0x80004000 + of_nat i)"
  unfolding user_buf_def
proof (intro conjI allI impI)
  let ?ua = "\<lambda>i. 0x80004000 + of_nat i :: u64"
  have two: "{..<2} = {0, 1 :: nat}" by auto
  show "inj_on ?ua {..<2}" by (simp add: two)
  have "x \<notin> pipe_bytes 0x80006000" if "x \<in> {0x80004000, 0x80004001}" for x
  proof
    assume "x \<in> pipe_bytes 0x80006000"
    then obtain i where i: "x = 0x80006018 + of_nat i" "i < 528" by (auto simp: pipe_bytes_def pipe_off_def PIPESIZE_def)
    then have "unat x = 0x80006018 + i" using unat_add_small [of "0x80006018 :: u64" i] by simp
    then show False using that by auto
  qed
  then show "?ua ` {..<2} \<inter> pipe_bytes 0x80006000 = {}" by (auto simp: two)
  fix t :: proc_st and i :: nat
  assume a: "i < 2 \<and> (\<forall>x. x \<notin> ?ua ` {..<2} \<union> pipe_bytes 0x80006000 \<longrightarrow> pmem t x = pmem tiny_pipe x)"
  have low: "pmem t x = pmem tiny_user x" if "unat x < 0x80004000" for x
  proof -
    have "x \<notin> ?ua ` {..<2} \<union> pipe_bytes 0x80006000"
      using that pipe_bytes_high [of x] by (auto simp: two)
    moreover from this have "pmem tiny_pipe x = pmem tiny_user x"
      unfolding tiny_pipe_def using pipe_ab(1) by (intro pipe_put_out) (auto simp: pipe_ok_def)
    ultimately show ?thesis using a by simp
  qed
  have ld: "load64 (pmem t) b = load64 (pmem tiny_user) b" if "unat b \<le> 0x80003000" for b
    unfolding load64_def using that
    by (intro arg_cong [of _ _ le_word] mem_read_cong low) (simp add: unat_add_small)
  show "user_byte t 0x80001000 False (0 + of_nat i) = Some (Some (?ua i))"
    using a by (subst user_byte_walk) (auto simp: ld tiny_ptes two less_2_cases_iff)
qed

theorem piperead_takes_oldest_witness:
  "user_buf tiny_pipe 0x80006000 0x80001000 0 2 (\<lambda>i. 0x80004000 + of_nat i) \<and>
   (\<exists>s'. piperead 0x80006000 0 2 tiny_pipe = Some (Result 2, s') \<and> pcontents s' 0x80006000 = [] \<and>
      pmem s' 0x80004000 = 97 \<and> pmem s' 0x80004001 = 98)"
proof -
  have inv: "pipe_inv tiny_pipe 0x80006000" "pcontents tiny_pipe 0x80006000 = [97, 98]"
    using tiny_pipe(4) pipe_ab by (simp_all add: pipe_inv_def pcontents_def)
  have b: "user_buf tiny_pipe 0x80006000 (pagetable (procs tiny_pipe 0)) 0 (nat 2) (\<lambda>i. 0x80004000 + of_nat i)"
    using tiny_pipe_buf tiny_pipe(5) by simp
  have "(2 :: nat) = min (nat 2) (length (pcontents tiny_pipe 0x80006000))" by (simp add: inv)
  from piperead_takes_oldest [OF tiny_pipe(1-3) inv(1) b this] obtain s' where
    s': "piperead 0x80006000 0 2 tiny_pipe = Some (Result (int 2), s')" "pcontents s' 0x80006000 = drop 2 [97, 98]"
      "\<forall>j < 2. pmem s' (0x80004000 + of_nat j) = [97, 98] ! j" by (auto simp: inv(2))
  have "pmem s' 0x80004000 = 97" "pmem s' 0x80004001 = 98" using s'(3) by (force dest: spec [of _ 0], force dest: spec [of _ 1])
  then show ?thesis using s'(1,2) tiny_pipe_buf by auto
qed

end
