(* ===== verification/Console.thy ===== *)
theory Console
  imports Path Pipe
begin

text \<open>
  The console: \<open>kernel/driver/console.c\<close> and \<open>kernel/driver/uart.c\<close>. The state
  record \<open>kst\<close> completes the kernel state with the open-file table, the input ring of
  the console and the bytes sent to the serial port. The input ring is another instance of
  the queue contract \<open>fifo\<close>. Formatted output is a function from the format and its
  arguments to the bytes printed.
\<close>

section \<open>State\<close>

record file_rec =
  f_type :: nat
  f_ref :: int
  f_readable :: bool
  f_writable :: bool
  f_pipe :: u64
  f_ip :: "nat option"
  f_off :: u32

record kst = fs_st +
  ftable :: "nat \<Rightarrow> file_rec"
  cons_buffer :: "u8 list"
  cons_head :: nat
  cons_tail :: nat
  uart_out :: "u8 list"     \<comment> \<open>bytes written to the UART, oldest first\<close>
  forkret_addr :: u64       \<comment> \<open>address of \<open>forkret\<close>, fixed by the linker\<close>

section \<open>Output\<close>

definition uart_putc :: "u8 \<Rightarrow> 'a kst_scheme \<Rightarrow> 'a kst_scheme" where
  "uart_putc c s = s\<lparr>uart_out := uart_out s @ [c]\<rparr>"

primrec uart_puts :: "u8 list \<Rightarrow> 'a kst_scheme \<Rightarrow> 'a kst_scheme" where
  "uart_puts [] s = s"
| "uart_puts (c # cs) s = (if c = 0 then s else uart_puts cs (uart_putc c s))"

definition consputc :: "u8 \<Rightarrow> 'a kst_scheme \<Rightarrow> 'a kst_scheme" where
  "consputc c s = uart_putc c s"

definition digit :: "nat \<Rightarrow> u8" where
  "digit d = (if d < 10 then 48 + of_nat d else 87 + of_nat d)"

text \<open>The do-while loop of \<open>printint\<close>, least significant digit first; the base is 10 or 16.\<close>

function printint_digits :: "nat \<Rightarrow> nat \<Rightarrow> u8 list" where
  "printint_digits x base =
     digit (x mod base) # (if x div base \<noteq> 0 \<and> 1 < base then printint_digits (x div base) base else [])"
  by pat_completeness auto
termination by (relation "measure fst") (auto intro!: div_less_dividend gr0I)

declare printint_digits.simps [simp del]

definition printint :: "u64 \<Rightarrow> nat \<Rightarrow> bool \<Rightarrow> u8 list" where
  "printint xx base sign =
     (let neg = (sign \<and> sint xx < 0); x = (if neg then - xx else xx);
          buf = printint_digits (unat x) base @ (if neg then [45] else [])
      in rev buf)"

text \<open>Arguments of \<open>printf\<close>: a word, or a string pointer (\<^term>\<open>None\<close> for NULL).\<close>

datatype parg = PW u64 | PS "u8 list option"

definition str_null :: "u8 list" where "str_null = [40, 110, 117, 108, 108, 41]"

text \<open>One conversion: the bytes it prints and the remaining arguments; \<^term>\<open>None\<close> when the
  argument of the conversion is missing or of the wrong kind.\<close>

fun printf_conv :: "bool \<Rightarrow> u8 \<Rightarrow> parg list \<Rightarrow> (u8 list \<times> parg list) option" where
  "printf_conv is_long c args =
     (let int_arg = (\<lambda>w :: u64. if is_long then w else scast (ucast w :: u32));
          uint_arg = (\<lambda>w :: u64. if is_long then w else ucast (ucast w :: u32)) in
      if c = 100 then (case args of PW w # as \<Rightarrow> Some (printint (int_arg w) 10 True, as) | _ \<Rightarrow> None)
      else if c = 117 then (case args of PW w # as \<Rightarrow> Some (printint (uint_arg w) 10 False, as) | _ \<Rightarrow> None)
      else if c = 120 then (case args of PW w # as \<Rightarrow> Some (printint (uint_arg w) 16 False, as) | _ \<Rightarrow> None)
      else if c = 112 then (case args of PW w # as \<Rightarrow> Some (printint w 16 False, as) | _ \<Rightarrow> None)
      else if c = 115 then
        (case args of PS p # as \<Rightarrow> Some (cstr (case p of None \<Rightarrow> str_null | Some s \<Rightarrow> s), as) | _ \<Rightarrow> None)
      else if c = 99 then (case args of PW w # as \<Rightarrow> Some ([ucast w], as) | _ \<Rightarrow> None)
      else if c = 37 then Some ([37], args)
      else Some (37 # (if is_long then [108] else []) @ [c], args))"

fun printf_out :: "u8 list \<Rightarrow> parg list \<Rightarrow> u8 list option" where
  "printf_out [] args = Some []"
| "printf_out (c # fmt) args =
     (if c = 0 then Some []
      else if c \<noteq> 37 then map_option (Cons c) (printf_out fmt args)
      else case fmt of
          [] \<Rightarrow> Some []
        | c1 # fmt1 \<Rightarrow>
            if c1 = 108
            then (case fmt1 of
                    [] \<Rightarrow> Some []
                  | c2 # fmt2 \<Rightarrow>
                      if c2 = 0 then Some []
                      else do { (out, args) \<leftarrow> printf_conv True c2 args; rest \<leftarrow> printf_out fmt2 args; Some (out @ rest) })
            else if c1 = 0 then Some []
            else do { (out, args) \<leftarrow> printf_conv False c1 args; rest \<leftarrow> printf_out fmt1 args; Some (out @ rest) })"

definition printf :: "u8 list \<Rightarrow> parg list \<Rightarrow> 'a kst_scheme \<Rightarrow> 'a kst_scheme option" where
  "printf fmt args s = do { out \<leftarrow> printf_out fmt args; Some (fold consputc out s) }"

definition clear_screen :: "'a kst_scheme \<Rightarrow> 'a kst_scheme option" where
  "clear_screen s = do { s \<leftarrow> printf [27, 91, 50, 74] [] s; printf [27, 91, 72] [] s }"

definition console_print_char :: "u8 \<Rightarrow> 'a kst_scheme \<Rightarrow> 'a kst_scheme" where
  "console_print_char c s =
     (if c = 13 then consputc 13 s
      else if c = 10 then consputc 10 (consputc 13 s)
      else if c = 0x7f then consputc 8 (consputc 32 (consputc 8 s))
      else consputc c s)"

section \<open>Input\<close>

definition CONS_BUF_SIZE :: nat where [kdefs]: "CONS_BUF_SIZE = 1024"

text \<open>Control-C: mark every process but the first as killed and wake the sleepers.\<close>

definition cons_kill :: "nat \<Rightarrow> 'a kst_scheme \<Rightarrow> 'a kst_scheme option" where
  "cons_kill i s =
     do { s \<leftarrow> acquire (LProc i) s;
          let x = procs s i;
          let s = (if 1 < pid x \<and> status x \<noteq> TASK_FREE \<and> status x \<noteq> TASK_ZOMBIE
                   then upd_proc i (\<lambda>x. x\<lparr>killed := True,
                          status := if status x = TASK_SLEEPING then TASK_READY else status x\<rparr>) s
                   else s);
          Some (release (LProc i) s) }"

definition cons_push :: "u8 \<Rightarrow> 'a kst_scheme \<Rightarrow> 'a kst_scheme" where
  "cons_push c s = s\<lparr>cons_buffer := (cons_buffer s)[cons_tail s := c],
     cons_tail := (cons_tail s + 1) mod CONS_BUF_SIZE\<rparr>"

definition consoleintr :: "u8 \<Rightarrow> 'a kst_scheme \<Rightarrow> 'a kst_scheme option" where
  "consoleintr c s =
     (if c = 3
      then do { s \<leftarrow> for_each cons_kill [0..<NPROC] s; wakeup CCons s }
      else let c = (if c = 13 then 10 else c); next_tail = (cons_tail s + 1) mod CONS_BUF_SIZE in
        if next_tail \<noteq> cons_head s then wakeup CCons (cons_push c s) else Some s)"

definition cons_pop :: "'a kst_scheme \<Rightarrow> u8 \<times> 'a kst_scheme" where
  "cons_pop s = (cons_buffer s ! cons_head s, s\<lparr>cons_head := (cons_head s + 1) mod CONS_BUF_SIZE\<rparr>)"

text \<open>
  \<open>consgetc\<close> up to a return or to the next \<open>yield\<close>: \<^term>\<open>None\<close> inside means that
  the process has yielded and starts again at the head of the loop when it resumes.
\<close>

definition consgetc :: "'a kst_scheme \<Rightarrow> (int option \<times> 'a kst_scheme) option" where
  "consgetc s =
     (let dead = (case myproc s of None \<Rightarrow> False | Some p \<Rightarrow> killed (procs s p)) in
      if cons_head s = cons_tail s
      then if dead then Some (Some (-1), s)
           else do { s \<leftarrow> yield_out s; Some (None, s) }
      else if dead then Some (Some (-1), s)
      else let (c, s) = cons_pop s in Some (Some (uint c), s))"

definition console_pending :: "'a kst_scheme \<Rightarrow> int" where
  "console_pending s =
     (if cons_head s \<le> cons_tail s then int (cons_tail s) - int (cons_head s)
      else int CONS_BUF_SIZE - int (cons_head s) + int (cons_tail s))"

section \<open>The input ring is a queue\<close>

definition cons_ok :: "'a kst_scheme \<Rightarrow> bool" where
  "cons_ok s \<longleftrightarrow> length (cons_buffer s) = CONS_BUF_SIZE \<and> cons_head s < CONS_BUF_SIZE \<and> cons_tail s < CONS_BUF_SIZE"

definition cons_count :: "'a kst_scheme \<Rightarrow> nat" where
  "cons_count s = (if cons_head s \<le> cons_tail s then cons_tail s - cons_head s
     else CONS_BUF_SIZE - cons_head s + cons_tail s)"

definition cons_contents :: "'a kst_scheme \<Rightarrow> u8 list" where
  "cons_contents s = ring_abs (cons_buffer s) (cons_head s) (cons_count s)"

lemma cons_tail_eq: "cons_ok s \<Longrightarrow> cons_tail s = (cons_head s + cons_count s) mod CONS_BUF_SIZE"
  by (auto simp: cons_ok_def cons_count_def)

lemma cons_count_push:
  "cons_ok s \<Longrightarrow> cons_count s < CONS_BUF_SIZE - 1 \<Longrightarrow> cons_ok (cons_push c s) \<and> cons_count (cons_push c s) = Suc (cons_count s)"
  unfolding cons_ok_def cons_count_def cons_push_def
  by (auto simp: CONS_BUF_SIZE_def mod_Suc split: if_splits)

interpretation cq: fifo cons_ok cons_contents "CONS_BUF_SIZE - 1" cons_push cons_pop
proof (unfold_locales, goal_cases)
  case (1 s x)
  then show ?case using cons_count_push [of s x] by (simp add: cons_contents_def)
next
  case (2 s x)
  then have n: "cons_count s < CONS_BUF_SIZE - 1" by (simp add: cons_contents_def)
  have "cons_count s < length (cons_buffer s)" using 2 n by (simp add: cons_ok_def)
  from ring_push [OF this, of "cons_head s" x] show ?case
    using cons_count_push [OF 2(1) n, of x] cons_tail_eq [OF 2(1)] 2(1)
    by (simp add: cons_contents_def cons_push_def cons_ok_def)
next
  case (3 s x xs)
  then obtain m where m: "cons_count s = Suc m" by (cases "cons_count s") (auto simp: cons_contents_def ring_abs_def)
  let ?s = "s\<lparr>cons_head := (cons_head s + 1) mod CONS_BUF_SIZE\<rparr>"
  have ok: "cons_ok ?s" "cons_count ?s = m"
    using 3(1) m unfolding cons_ok_def cons_count_def
    by (auto simp: CONS_BUF_SIZE_def mod_Suc split: if_splits)
  have "ring_abs (cons_buffer s) (cons_head ?s) m = ring_abs (cons_buffer s) (Suc (cons_head s)) m"
    using ring_mod [of "cons_buffer s" "Suc (cons_head s)" m] 3(1) by (simp add: cons_ok_def)
  then show ?case using 3 ok ring_pop [of "cons_buffer s" "cons_head s" m] m
    by (auto simp: cons_contents_def cons_pop_def cons_ok_def)
next
  case (4 s)
  then show ?case by (auto simp: cons_contents_def cons_count_def cons_ok_def)
qed

section \<open>Waking leaves the console alone\<close>

text \<open>Everything but the process table, the CPU state and the locks.\<close>

definition proc_rest :: "'a proc_st_scheme \<Rightarrow> 'a proc_st_scheme" where
  "proc_rest s = s\<lparr>procs := (\<lambda>_. zero_proc), cpu := \<lparr>cproc = None, noff = 0, intena = False\<rparr>, sie := False,
     locks := (\<lambda>_. lock_free)\<rparr>"

lemma proc_rest_fields [simp]:
  "proc_rest (s\<lparr>procs := f\<rparr>) = proc_rest s" "proc_rest (s\<lparr>cpu := c\<rparr>) = proc_rest s"
  "proc_rest (s\<lparr>sie := b\<rparr>) = proc_rest s" "proc_rest (s\<lparr>locks := l\<rparr>) = proc_rest s"
  by (simp_all add: proc_rest_def)

lemma proc_rest_off [simp]: "proc_rest (push_off s) = proc_rest s" "proc_rest (pop_off s) = proc_rest s"
  by (simp_all add: push_off_def pop_off_def intr_off_def intr_on_def Let_def)

lemma proc_rest_basic [simp]:
  "proc_rest (release lk s) = proc_rest s" "proc_rest (upd_proc i f s) = proc_rest s"
  "proc_rest (set_cproc x s) = proc_rest s"
  by (simp_all add: release_def upd_proc_def set_cproc_def)

lemma proc_rest_acquire_option: "map_option proc_rest (acquire lk s) \<in> {None, Some (proc_rest s)}"
  unfolding acquire_def Let_def
  by (cases "locked (locks (push_off s) lk)")
    (simp_all only: if_True if_False option.map insert_iff simp_thms proc_rest_fields proc_rest_off)

lemma proc_rest_acquire: "acquire lk s = Some s' \<Longrightarrow> proc_rest s' = proc_rest s"
  using proc_rest_acquire_option [of lk s] by simp

lemma proc_rest_wakeup_one: "wakeup_one ch i s = Some s' \<Longrightarrow> proc_rest s' = proc_rest s"
  by (auto simp: wakeup_one_def Let_def elim!: bind_eq_SomeE split: if_splits dest: proc_rest_acquire)

lemma proc_rest_wakeup: "wakeup ch s = Some s' \<Longrightarrow> proc_rest s' = proc_rest s"
proof -
  have "for_each (wakeup_one ch) is s = Some s' \<Longrightarrow> proc_rest s' = proc_rest s" for "is"
    by (induction "is" arbitrary: s) (auto elim!: bind_eq_SomeE dest: proc_rest_wakeup_one)
  then show "wakeup ch s = Some s' \<Longrightarrow> proc_rest s' = proc_rest s" by (simp add: wakeup_def)
qed

lemma proc_rest_switch:
  "sleep_out ch lk s = Some s' \<Longrightarrow> proc_rest s' = proc_rest s" "yield_out s = Some s' \<Longrightarrow> proc_rest s' = proc_rest s"
  "sleep_in p lk s = Some s' \<Longrightarrow> proc_rest s' = proc_rest s"
  "scheduler_pick p s = Some (b, s') \<Longrightarrow> proc_rest s' = proc_rest s" "proc_rest (scheduler_back p s) = proc_rest s"
  by (auto simp: sleep_out_def yield_out_def sleep_in_def scheduler_pick_def scheduler_back_def sched_def Let_def
    elim!: bind_eq_SomeE split: if_splits dest!: proc_rest_acquire)

lemma proc_rest_cons:
  assumes "proc_rest s' = proc_rest (s :: 'a kst_scheme)"
  shows "cons_ok s' = cons_ok s" and "cons_contents s' = cons_contents s" and "ftable s' = ftable s"
    and "uart_out s' = uart_out s" and "icache s' = icache s" and "pmem s' = pmem s"
proof -
  have "cons_buffer s' = cons_buffer s" "cons_head s' = cons_head s" "cons_tail s' = cons_tail s"
    using arg_cong [OF assms, of cons_buffer] arg_cong [OF assms, of cons_head] arg_cong [OF assms, of cons_tail]
    by (simp_all add: proc_rest_def)
  then show "cons_ok s' = cons_ok s" "cons_contents s' = cons_contents s"
    by (simp_all add: cons_ok_def cons_contents_def cons_count_def)
  show "ftable s' = ftable s" "uart_out s' = uart_out s" "icache s' = icache s" "pmem s' = pmem s"
    using arg_cong [OF assms, of ftable] arg_cong [OF assms, of uart_out] arg_cong [OF assms, of icache]
      arg_cong [OF assms, of pmem] by (simp_all add: proc_rest_def)
qed

lemma cons_full_iff: "cons_ok s \<Longrightarrow> (cons_tail s + 1) mod CONS_BUF_SIZE = cons_head s \<longleftrightarrow> cons_count s = CONS_BUF_SIZE - 1"
  by (auto simp: cons_ok_def cons_count_def CONS_BUF_SIZE_def mod_Suc)

lemma cons_push_simps [simp]: "holds (cons_push c s) = holds s" "myproc (cons_push c s) = myproc s" "procs (cons_push c s) = procs s"
  by (simp_all add: cons_push_def holds_def myproc_def fun_eq_iff)

section \<open>Control-C\<close>

text \<open>A loop over the process table whose body updates its own slot.\<close>

lemma for_each_slots:
  assumes "\<And>i s. I s \<Longrightarrow> i < n \<Longrightarrow> \<exists>s'. f i s = Some s' \<and> I s' \<and> procs s' = (procs s)(i := g i (procs s i))" and "I s"
  shows "\<exists>s'. for_each f [0..<n] s = Some s' \<and> I s' \<and> procs s' = (\<lambda>i. if i < n then g i (procs s i) else procs s i)"
  using assms(1)
proof (induction n)
  case 0
  then show ?case using assms(2) by auto
next
  case (Suc n)
  have "\<And>i s. I s \<Longrightarrow> i < n \<Longrightarrow> \<exists>s'. f i s = Some s' \<and> I s' \<and> procs s' = (procs s)(i := g i (procs s i))"
    by (rule Suc.prems) simp_all
  from Suc.IH [OF this] obtain s1 where 1: "for_each f [0..<n] s = Some s1" "I s1"
    "procs s1 = (\<lambda>i. if i < n then g i (procs s i) else procs s i)" by auto
  obtain s2 where "f n s1 = Some s2" "I s2" "procs s2 = (procs s1)(n := g n (procs s1 n))"
    using Suc.prems [OF 1(2), of n] by blast
  then show ?case using 1(1,3) by (auto simp: for_each_append fun_eq_iff less_Suc_eq)
qed

definition victim :: "proc_rec \<Rightarrow> bool" where
  "victim x \<longleftrightarrow> 1 < pid x \<and> status x \<noteq> TASK_FREE \<and> status x \<noteq> TASK_ZOMBIE"

definition kill_rec :: "proc_rec \<Rightarrow> proc_rec" where
  "kill_rec x = (if victim x
     then x\<lparr>killed := True, status := if status x = TASK_SLEEPING then TASK_READY else status x\<rparr> else x)"

lemma wake_kill:
  assumes "i < NPROC"
  shows "wake me CCons i (kill_rec x) = x\<lparr>killed := (killed x \<or> victim x),
     status := if status x = TASK_SLEEPING \<and> (victim x \<or> chan x = CCons \<and> me \<noteq> Some i) then TASK_READY else status x\<rparr>"
proof (cases "victim x")
  case True
  then show ?thesis by (simp add: wake_def kill_rec_def)
next
  case False
  then have "kill_rec x = x" by (simp add: kill_rec_def)
  then show ?thesis using False assms by (cases x) (auto simp: wake_def)
qed

lemma cons_kill_ok:
  assumes "holds s {} ie"
  shows "\<exists>s'. cons_kill i s = Some s' \<and> holds s' {} ie \<and> myproc s' = myproc s \<and> proc_rest s' = proc_rest s \<and>
    procs s' = (procs s)(i := kill_rec (procs s i))"
proof -
  obtain s1 where 1: "acquire (LProc i) s = Some s1" "holds s1 {LProc i} ie" "procs s1 = procs s" "myproc s1 = myproc s"
    using with_lock [OF assms, of "LProc i"] by auto
  note r = after_release [of _ _ "{}" ie, simplified]
  note s1 = proc_rest_acquire [OF 1(1)]
  have h: "holds (upd_proc i f s1) {LProc i} ie" for f using 1(2) by simp
  show ?thesis unfolding cons_kill_def
    using 1(1,3,4) s1 r [OF 1(2)] r [OF h] by (simp add: kill_rec_def victim_def Let_def)
qed

section \<open>Printing numbers\<close>

definition undigit :: "u8 \<Rightarrow> nat" where
  "undigit c = (if c < 58 then unat c - 48 else unat c - 87)"

definition number_of :: "nat \<Rightarrow> u8 list \<Rightarrow> nat" where
  "number_of base ds = foldl (\<lambda>n d. n * base + undigit d) 0 ds"

definition parse_int :: "nat \<Rightarrow> u8 list \<Rightarrow> int" where
  "parse_int base ds = (if ds \<noteq> [] \<and> hd ds = 45 then - int (number_of base (tl ds)) else int (number_of base ds))"

lemma undigit_digit: "d < 16 \<Longrightarrow> undigit (digit d) = d" "d < 16 \<Longrightarrow> digit d \<noteq> 45"
proof -
  assume d: "d < 16"
  have "unat (48 + of_nat d :: u8) = 48 + d" "unat (87 + of_nat d :: u8) = 87 + d"
    using d by (simp_all add: unat_word_ariths unat_of_nat)
  then have "unat (digit d) = (if d < 10 then 48 + d else 87 + d)" by (simp add: digit_def)
  then show "undigit (digit d) = d" "digit d \<noteq> 45"
    using d by (auto simp: undigit_def word_less_nat_alt split: if_splits)
qed

lemma printint_digits_value:
  assumes "1 < base" and "base \<le> 16"
  shows "number_of base (rev (printint_digits x base)) = x" and "\<forall>d \<in> set (printint_digits x base). d \<noteq> 45"
proof -
  have "number_of base (rev (printint_digits x base)) = x \<and> (\<forall>d \<in> set (printint_digits x base). d \<noteq> 45)"
  proof (induction x rule: less_induct)
    case (less x)
    have d: "undigit (digit (x mod base)) = x mod base" "digit (x mod base) \<noteq> 45"
      using undigit_digit [of "x mod base"] assms mod_less_divisor [of base x] by linarith+
    show ?case
    proof (cases "x div base = 0")
      case True
      then have "printint_digits x base = [digit (x mod base)]" by (subst printint_digits.simps) simp
      then show ?thesis using True d assms by (auto simp: number_of_def div_eq_0_iff)
    next
      case False
      then have "x div base < x" using assms by (intro div_less_dividend) (auto intro: gr0I)
      then have ih: "number_of base (rev (printint_digits (x div base) base)) = x div base"
        "\<forall>d \<in> set (printint_digits (x div base) base). d \<noteq> 45" using less by auto
      have "printint_digits x base = digit (x mod base) # printint_digits (x div base) base"
        using False assms by (subst printint_digits.simps) simp
      then show ?thesis using ih d by (simp add: number_of_def)
    qed
  qed
  then show "number_of base (rev (printint_digits x base)) = x" "\<forall>d \<in> set (printint_digits x base). d \<noteq> 45" by simp_all
qed

section \<open>Properties\<close>

text \<open>
  Property C37 (round trip). \<open>printint\<close> prints a number that reads back as the argument:
  signed for the signed conversions, the most negative value included, unsigned otherwise,
  in base 10 and in base 16.
\<close>

theorem printint_parses_back:
  assumes "base = 10 \<or> base = 16"
  shows "parse_int base (printint xx base True) = sint xx \<and> parse_int base (printint xx base False) = uint xx"
proof -
  have b: "1 < base" "base \<le> 16" using assms by auto
  note v = printint_digits_value [OF b]
  have nonneg: "parse_int base (rev (printint_digits x base)) = int x" for x
    using v(1) [of x] v(2) [of x] hd_in_set [of "rev (printint_digits x base)"] by (auto simp: parse_int_def)
  have "parse_int base (printint xx base True) = sint xx"
  proof (cases "sint xx < 0")
    case True
    have "uint (- xx) = - sint xx"
    proof -
      have "uint (- xx) = (- uint xx) mod 2 ^ LENGTH(64)" by (rule uint_word_ariths(4))
      also have "\<dots> = (- sint xx) mod 2 ^ LENGTH(64)"
        by (simp only: uint_sint take_bit_eq_mod mod_minus_eq)
      also have "\<dots> = - sint xx"
      proof (rule mod_pos_pos_trivial)
        show "0 \<le> - sint xx" using True by linarith
        have "- sint xx \<le> 2 ^ (LENGTH(64) - 1)" using sint_ge [of xx] by linarith
        also have "\<dots> < 2 ^ LENGTH(64)" by simp
        finally show "- sint xx < 2 ^ LENGTH(64)" .
      qed
      finally show ?thesis .
    qed
    then have "int (unat (- xx)) = - sint xx" by simp
    then show ?thesis using True v(1) [of "unat (- xx)"] by (simp add: printint_def Let_def parse_int_def)
  next
    case False
    have "uint xx = sint xx"
    proof (subst uint_sint, rule take_bit_int_eq_self)
      show "0 \<le> sint xx" using False by (rule leI)
      show "sint xx < 2 ^ LENGTH(64)" by (rule less_le_trans [OF sint_lt]) simp
    qed
    then show ?thesis using False nonneg [of "unat xx"] by (simp add: printint_def Let_def)
  qed
  moreover have "parse_int base (printint xx base False) = uint xx"
    using nonneg [of "unat xx"] by (simp add: printint_def Let_def)
  ultimately show ?thesis by simp
qed

theorem printint_parses_back_witness:
  "parse_int 10 (printint (- 42) 10 True) = - 42 \<and> parse_int 16 (printint 255 16 False) = 255"
  using printint_parses_back [of 10 "- 42"] printint_parses_back [of 16 255] by simp

text \<open>A kernel state with an empty console ring: process 0 is running, process 1 sleeps.\<close>

definition tiny_cons :: kst where
  "tiny_cons = fs_st.extend small_dir \<lparr>
     ftable = (\<lambda>_. \<lparr>f_type = 0, f_ref = 0, f_readable = False, f_writable = False, f_pipe = 0, f_ip = None, f_off = 0\<rparr>),
     cons_buffer = replicate 1024 0, cons_head = 0, cons_tail = 0, uart_out = [], forkret_addr = 0x80001000\<rparr>
   \<lparr>procs := (\<lambda>_. zero_proc)(0 := zero_proc\<lparr>status := TASK_RUNNING, pid := 1\<rparr>,
       1 := zero_proc\<lparr>status := TASK_SLEEPING, pid := 2, chan := CDisk\<rparr>),
     cpu := \<lparr>cproc = Some 0, noff = 0, intena = False\<rparr>, sie := True, locks := (\<lambda>_. lock_free)\<rparr>"

lemma tiny_cons:
  "holds tiny_cons {} True" "myproc tiny_cons = Some 0" "cons_ok tiny_cons" "cons_contents tiny_cons = []"
  "procs tiny_cons = (\<lambda>_. zero_proc)(0 := zero_proc\<lparr>status := TASK_RUNNING, pid := 1\<rparr>,
       1 := zero_proc\<lparr>status := TASK_SLEEPING, pid := 2, chan := CDisk\<rparr>)"
  by (simp_all add: tiny_cons_def holds_def myproc_def cons_ok_def cons_contents_def cons_count_def ring_abs_def
    CONS_BUF_SIZE_def fs_st.defs)

text \<open>
  Property C35 (functional). A key press other than Control-C appends its character to the
  console queue, a carriage return as a newline; when the queue holds 1023 characters the key
  is dropped. \<open>consgetc\<close> takes the oldest character, returns -1 without consuming one
  when the process is killed, and yields when the queue is empty. \<open>console_pending\<close> is
  the length of the queue.
\<close>

theorem console_queue:
  assumes "cons_ok s" and "holds s {} ie"
  shows "(\<exists>s'. c \<noteq> 3 \<longrightarrow> consoleintr c s = Some s' \<and> cons_ok s' \<and> holds s' {} ie \<and>
      cons_contents s' = (if length (cons_contents s) < 1023 then cons_contents s @ [if c = 13 then 10 else c]
         else cons_contents s)) \<and>
    (myproc s = Some p \<longrightarrow> (case cons_contents s of
        [] \<Rightarrow> consgetc s = (if killed (procs s p) then Some (Some (-1), s) else map_option (Pair None) (yield_out s))
      | d # ds \<Rightarrow> if killed (procs s p) then consgetc s = Some (Some (-1), s)
          else (\<exists>s'. consgetc s = Some (Some (uint d), s') \<and> cons_ok s' \<and> cons_contents s' = ds))) \<and>
    console_pending s = int (length (cons_contents s))"
proof (intro conjI impI)
  have len: "length (cons_contents s) = cons_count s" by (simp add: cons_contents_def)
  have le: "cons_count s \<le> 1023" using cq.bounded [OF assms(1)] by (simp add: len CONS_BUF_SIZE_def)
  show "\<exists>s'. c \<noteq> 3 \<longrightarrow> consoleintr c s = Some s' \<and> cons_ok s' \<and> holds s' {} ie \<and>
      cons_contents s' = (if length (cons_contents s) < 1023 then cons_contents s @ [if c = 13 then 10 else c]
         else cons_contents s)"
  proof (cases "cons_count s < 1023")
    case True
    define d where "d = (if c = 13 then 10 else c)"
    have b: "length (cons_contents s) < CONS_BUF_SIZE - 1" using True by (simp add: len CONS_BUF_SIZE_def)
    have h: "holds (cons_push d s) {} ie" using assms(2) by simp
    obtain s' where w: "wakeup CCons (cons_push d s) = Some s'" "holds s' {} ie" using wakeup_ok [OF h] by blast
    note r = proc_rest_cons [OF proc_rest_wakeup [OF w(1)]]
    have "(cons_tail s + 1) mod CONS_BUF_SIZE \<noteq> cons_head s"
      using cons_full_iff [OF assms(1)] True by (simp add: CONS_BUF_SIZE_def)
    then have "c \<noteq> 3 \<longrightarrow> consoleintr c s = Some s'" using w by (simp add: consoleintr_def d_def)
    moreover have "cons_ok s'" "cons_contents s' = cons_contents s @ [d]"
      using cq.push_ok [OF assms(1) b] cq.push_contents [OF assms(1) b] r by simp_all
    ultimately show ?thesis using w(2) True len by (auto simp: d_def)
  next
    case False
    then have "cons_count s = CONS_BUF_SIZE - 1" using le by (simp add: CONS_BUF_SIZE_def)
    then have "(cons_tail s + 1) mod CONS_BUF_SIZE = cons_head s" using cons_full_iff [OF assms(1)] by simp
    then show ?thesis using False len assms by (intro exI [of _ s]) (simp add: consoleintr_def)
  qed
  show "console_pending s = int (length (cons_contents s))"
    using assms(1) by (auto simp: console_pending_def len cons_count_def cons_ok_def)
  assume p: "myproc s = Some p"
  have em: "cons_head s = cons_tail s \<longleftrightarrow> cons_contents s = []"
  proof -
    have "cons_contents s = [] \<longleftrightarrow> cons_count s = 0" by (metis len length_0_conv)
    then show ?thesis using assms(1) by (auto simp: cons_ok_def cons_count_def)
  qed
  show "case cons_contents s of
        [] \<Rightarrow> consgetc s = (if killed (procs s p) then Some (Some (-1), s) else map_option (Pair None) (yield_out s))
      | d # ds \<Rightarrow> if killed (procs s p) then consgetc s = Some (Some (-1), s)
          else (\<exists>s'. consgetc s = Some (Some (uint d), s') \<and> cons_ok s' \<and> cons_contents s' = ds)"
  proof (cases "cons_contents s")
    case Nil
    then show ?thesis using em p by (cases "yield_out s") (simp_all add: consgetc_def)
  next
    case (Cons d ds)
    then obtain s' where "cons_pop s = (d, s')" "cons_ok s'" "cons_contents s' = ds"
      using cq.pop_contents [OF assms(1)] by blast
    then show ?thesis using Cons em p by (simp add: consgetc_def)
  qed
qed

theorem console_queue_witness:
  "cons_ok tiny_cons \<and> holds tiny_cons {} True \<and>
   (\<exists>s'. consoleintr 13 tiny_cons = Some s' \<and> cons_contents s' = [10]) \<and> console_pending tiny_cons = 0"
  using console_queue [OF tiny_cons(3,1), of 13 0] tiny_cons by auto

text \<open>
  Property C36 (functional). Control-C marks as killed every process of the table that
  is neither free nor a zombie and is not the first process (\<open>victim\<close>), makes those that sleep ready
  whatever they wait for, and changes no other field of the process table; the console queue
  is untouched.
\<close>

theorem control_c_kills:
  assumes "holds s {} ie"
  shows "\<exists>s'. consoleintr 3 s = Some s' \<and> holds s' {} ie \<and> cons_contents s' = cons_contents s \<and>
    (\<forall>i < NPROC. procs s' i = (procs s i)\<lparr>killed := (killed (procs s i) \<or> victim (procs s i)),
         status := if status (procs s i) = TASK_SLEEPING \<and> (victim (procs s i) \<or> chan (procs s i) = CCons \<and> myproc s \<noteq> Some i)
           then TASK_READY else status (procs s i)\<rparr>)"
proof -
  let ?I = "\<lambda>t. holds t {} ie \<and> myproc t = myproc s \<and> proc_rest t = proc_rest s"
  obtain s1 where 1: "for_each cons_kill [0..<NPROC] s = Some s1" "?I s1"
    "procs s1 = (\<lambda>i. if i < NPROC then kill_rec (procs s i) else procs s i)"
  proof -
    have b: "\<exists>t'. cons_kill i t = Some t' \<and> ?I t' \<and> procs t' = (procs t)(i := kill_rec (procs t i))" if "?I t" for i t
      using cons_kill_ok [of t ie i] that by auto
    have "\<exists>t. for_each cons_kill [0..<NPROC] s = Some t \<and> ?I t \<and>
        procs t = (\<lambda>i. if i < NPROC then kill_rec (procs s i) else procs s i)"
      by (rule for_each_slots) (use b assms(1) in auto)
    then show ?thesis using that by blast
  qed
  obtain s2 where 2: "wakeup CCons s1 = Some s2" "holds s2 {} ie" "procs s2 = (\<lambda>i. wake (myproc s1) CCons i (procs s1 i))"
    using wakeup_ok [of s1 "{}" ie CCons] 1(2) by auto
  have "proc_rest s2 = proc_rest s" using proc_rest_wakeup [OF 2(1)] 1(2) by simp
  then have c: "cons_contents s2 = cons_contents s" by (rule proc_rest_cons(2))
  have "procs s2 i = (procs s i)\<lparr>killed := (killed (procs s i) \<or> victim (procs s i)),
         status := if status (procs s i) = TASK_SLEEPING \<and> (victim (procs s i) \<or> chan (procs s i) = CCons \<and> myproc s \<noteq> Some i)
           then TASK_READY else status (procs s i)\<rparr>"
    if "i < NPROC" for i
    using wake_kill [OF that, of "myproc s" "procs s i"] that by (simp add: 2(3) 1)
  then show ?thesis using 1(1) 2(1,2) c by (simp add: consoleintr_def)
qed

theorem control_c_kills_witness:
  "holds tiny_cons {} True \<and> (\<exists>s'. consoleintr 3 tiny_cons = Some s' \<and> killed (procs s' 1) \<and>
     status (procs s' 1) = TASK_READY \<and> \<not> killed (procs s' 0) \<and> status (procs s' 0) = TASK_RUNNING)"
proof -
  have n: "(0 :: nat) < NPROC" "1 < NPROC" by (simp_all add: NPROC_def)
  obtain s' where s': "consoleintr 3 tiny_cons = Some s'" "\<forall>i < NPROC. procs s' i = (procs tiny_cons i)\<lparr>killed := (killed (procs tiny_cons i) \<or> victim (procs tiny_cons i)),
         status := if status (procs tiny_cons i) = TASK_SLEEPING \<and> (victim (procs tiny_cons i) \<or> chan (procs tiny_cons i) = CCons \<and> myproc tiny_cons \<noteq> Some i)
           then TASK_READY else status (procs tiny_cons i)\<rparr>"
    using control_c_kills [OF tiny_cons(1)] by blast
  note p = tiny_cons(5)
  have "procs s' 1 = (procs tiny_cons 1)\<lparr>killed := True, status := TASK_READY\<rparr>"
    using s'(2) [rule_format, OF n(2)] by (simp only: p) (simp add: victim_def)
  moreover have "procs s' 0 = procs tiny_cons 0"
    using s'(2) [rule_format, OF n(1)] by (simp only: p) (simp add: victim_def zero_proc_def)
  ultimately show ?thesis using s'(1) tiny_cons(1) by (simp only: p) (simp add: zero_proc_def)
qed

end
