(* ===== verification/Frame.thy ===== *)
theory Frame
  imports Dir Vm
begin

text \<open>
  What the file-system and memory routines leave alone, whatever their arguments and whether or
  not they succeed: the file system changes only the disk, the buffer cache and the inode cache (collection
  \<open>fs_frame\<close>), the memory routines also memory (collection \<open>frame\<close>, with one rule per routine of either kind).
\<close>

text \<open>Everything but the disk, the buffer cache and the inode cache; and without memory.\<close>

definition off_fs :: "'a fs_st_scheme \<Rightarrow> 'a fs_st_scheme" where
  "off_fs s = s\<lparr>disk_blocks := (\<lambda>_. []),
     bcache := (\<lambda>_. \<lparr>b_valid = False, b_disk = False, b_dev = 0, b_blockno = 0, b_refcnt = 0,
       b_prev = 0, b_next = 0, b_data = []\<rparr>),
     icache := (\<lambda>_. \<lparr>i_dev = 0, i_inum = 0, i_ref = 0, i_valid = False, i_type = 0, i_major = 0, i_minor = 0,
       i_nlink = 0, i_size = 0, i_addrs = []\<rparr>)\<rparr>"

definition off_disk :: "'a fs_st_scheme \<Rightarrow> 'a fs_st_scheme" where
  "off_disk s = (off_fs s)\<lparr>pmem := (\<lambda>_. 0), free_mem_list := 0\<rparr>"

lemma off_fs_fields [simp]:
  "off_fs (s\<lparr>disk_blocks := d\<rparr>) = off_fs s" "off_fs (s\<lparr>bcache := c\<rparr>) = off_fs s" "off_fs (s\<lparr>icache := i\<rparr>) = off_fs s"
  by (simp_all add: off_fs_def)

lemma off_disk_fields [simp]:
  "off_disk (s\<lparr>pmem := m\<rparr>) = off_disk s" "off_disk (s\<lparr>disk_blocks := d\<rparr>) = off_disk s"
  "off_disk (s\<lparr>bcache := c\<rparr>) = off_disk s" "off_disk (s\<lparr>icache := i\<rparr>) = off_disk s"
  "off_disk (s\<lparr>free_mem_list := l\<rparr>) = off_disk s"
  by (simp_all add: off_disk_def off_fs_def)

lemma off_fs_disk: "off_fs s' = off_fs s \<Longrightarrow> off_disk s' = off_disk s"
  by (simp add: off_disk_def)

named_theorems fs_frame
named_theorems frame

lemma off_fs_simps [simp]:
  "off_fs (upd_inode ip f s) = off_fs s" "off_fs (bset b d s) = off_fs s"
  "off_fs (bwrite b s) = off_fs s" "off_fs (brelse b s) = off_fs s" "off_fs (idup ip s) = off_fs s"
  "off_fs (disk_rw b w s) = off_fs s"
  by (simp_all add: upd_inode_def bset_def bwrite_def disk_rw_def brelse_def idup_def Let_def)

lemma offs_bread [fs_frame]: "bread s dev n = Some (b, s') \<Longrightarrow> off_fs s' = off_fs s"
  by (auto simp: bread_def bget_def Let_def split: if_splits option.splits elim!: bind_eq_SomeE)

lemma offs_bzero [fs_frame]: "bzero s dev n = Some s' \<Longrightarrow> off_fs s' = off_fs s"
  by (auto simp: bzero_def Let_def elim!: bind_eq_SomeE dest!: fs_frame)

lemma offs_balloc_loop: "balloc_loop s dev b = Some (n, s') \<Longrightarrow> off_fs s' = off_fs s"
proof (induction "unat (sb_size (sb s)) - b" arbitrary: s b rule: less_induct)
  case less
  note e = less.prems [unfolded balloc_loop.simps [of s dev b]]
  then have lt: "b < unat (sb_size (sb s))" by (simp split: if_splits)
  then obtain bp t where t: "bread s dev (BMAP_BLOCK (of_nat b) (sb s)) = Some (bp, t)"
    using e by (auto elim!: bind_eq_SomeE)
  show ?case
  proof (cases "List.find (free_bit (bdata t bp)) [0..<min BPB (unat (sb_size (sb s)) - b)]")
    case None
    then have "balloc_loop (brelse bp t) dev (b + BPB) = Some (n, s')" using e lt t by simp
    moreover have "unat (sb_size (sb (brelse bp t))) - (b + BPB) < unat (sb_size (sb s)) - b"
      using lt sb_bread [OF t] by (simp add: sb_brelse BPB_def)
    ultimately have "off_fs s' = off_fs (brelse bp t)" by (rule less.hyps [rotated])
    then show ?thesis using offs_bread [OF t] by simp
  next
    case (Some bi)
    then show ?thesis using e lt t by (auto simp: Let_def elim!: bind_eq_SomeE dest!: fs_frame)
  qed
qed

lemma offs_balloc [fs_frame]: "balloc s dev = Some (n, s') \<Longrightarrow> off_fs s' = off_fs s"
  by (simp add: balloc_def offs_balloc_loop)

lemma offs_bfree [fs_frame]: "bfree s dev n = Some s' \<Longrightarrow> off_fs s' = off_fs s"
  by (auto simp: bfree_def Let_def elim!: bind_eq_SomeE split: if_splits dest!: fs_frame)

lemma offs_bmap_entry [fs_frame]: "bmap_entry s dev blk i = Some (n, s') \<Longrightarrow> off_fs s' = off_fs s"
  by (auto simp: bmap_entry_def Let_def elim!: bind_eq_SomeE split: if_splits dest!: fs_frame)

lemma offs_bmap_addr [fs_frame]: "bmap_addr s ip i = Some (n, s') \<Longrightarrow> off_fs s' = off_fs s"
  by (auto simp: bmap_addr_def Let_def elim!: bind_eq_SomeE split: if_splits dest!: fs_frame)

lemma offs_bmap [fs_frame]: "bmap s ip bn = Some (n, s') \<Longrightarrow> off_fs s' = off_fs s"
  by (auto simp: bmap_def Let_def elim!: bind_eq_SomeE split: if_splits dest!: fs_frame)

lemma offs_iupdate [fs_frame]: "iupdate ip s = Some s' \<Longrightarrow> off_fs s' = off_fs s"
  by (auto simp: iupdate_def Let_def elim!: bind_eq_SomeE dest!: fs_frame)

lemma offs_for_each:
  assumes "\<And>i s s'. f i s = Some s' \<Longrightarrow> off_fs s' = off_fs s" and "for_each f is s = Some s'"
  shows "off_fs s' = off_fs s"
  using assms(2) by (induction "is" arbitrary: s) (auto elim!: bind_eq_SomeE dest: assms(1))

lemma offs_itrunc_leaf: "itrunc_leaf dev a i s = Some s' \<Longrightarrow> off_fs s' = off_fs s"
  by (auto simp: itrunc_leaf_def split: if_splits dest!: fs_frame)

lemma offs_leaves [fs_frame]: "for_each (itrunc_leaf dev a) is s = Some s' \<Longrightarrow> off_fs s' = off_fs s"
  by (rule offs_for_each [OF offs_itrunc_leaf])

lemma offs_itrunc_mid: "itrunc_mid dev a i s = Some s' \<Longrightarrow> off_fs s' = off_fs s"
  by (auto simp: itrunc_mid_def elim!: bind_eq_SomeE split: if_splits dest!: fs_frame)

lemma offs_mids [fs_frame]: "for_each (itrunc_mid dev a) is s = Some s' \<Longrightarrow> off_fs s' = off_fs s"
  by (rule offs_for_each [OF offs_itrunc_mid])

lemma offs_itrunc_direct: "itrunc_direct ip i s = Some s' \<Longrightarrow> off_fs s' = off_fs s"
  by (auto simp: itrunc_direct_def elim!: bind_eq_SomeE split: if_splits dest!: fs_frame)

lemma offs_directs [fs_frame]: "for_each (itrunc_direct ip) is s = Some s' \<Longrightarrow> off_fs s' = off_fs s"
  by (rule offs_for_each [OF offs_itrunc_direct])

lemma offs_itrunc_index [fs_frame]:
  "itrunc_index ip k itrunc_leaf s = Some s' \<Longrightarrow> off_fs s' = off_fs s"
  "itrunc_index ip k itrunc_mid s = Some s' \<Longrightarrow> off_fs s' = off_fs s"
  by (auto simp: itrunc_index_def Let_def elim!: bind_eq_SomeE split: if_splits dest!: fs_frame)

lemma offs_itrunc [fs_frame]: "itrunc ip s = Some s' \<Longrightarrow> off_fs s' = off_fs s"
  by (auto simp: itrunc_def elim!: bind_eq_SomeE dest!: fs_frame)

lemma offs_iget [fs_frame]: "iget s dev n = Some (ip, s') \<Longrightarrow> off_fs s' = off_fs s"
  by (auto simp: iget_def Let_def split: option.splits)

lemma offs_ilock [fs_frame]: "ilock ip s = Some s' \<Longrightarrow> off_fs s' = off_fs s"
  by (auto simp: ilock_def Let_def elim!: bind_eq_SomeE split: if_splits dest!: fs_frame)

lemma offs_iunlock [fs_frame]: "iunlock ip s = Some s' \<Longrightarrow> off_fs s' = off_fs s"
  by (auto simp: iunlock_def split: if_splits)

lemma offs_iput [fs_frame]: "iput ip s = Some s' \<Longrightarrow> off_fs s' = off_fs s"
  by (auto simp: iput_def Let_def elim!: bind_eq_SomeE split: if_splits dest!: fs_frame)

lemma offs_iunlockput [fs_frame]: "iunlockput ip s = Some s' \<Longrightarrow> off_fs s' = off_fs s"
  by (auto simp: iunlockput_def elim!: bind_eq_SomeE dest!: fs_frame)

lemma offs_ialloc [fs_frame]: "ialloc s dev type = Some (ip, s') \<Longrightarrow> off_fs s' = off_fs s"
proof -
  have "ialloc_loop s dev type is = Some (ip, s') \<Longrightarrow> off_fs s' = off_fs s" for "is"
    by (induction "is" arbitrary: s) (auto simp: Let_def elim!: bind_eq_SomeE split: if_splits dest!: fs_frame)
  then show "ialloc s dev type = Some (ip, s') \<Longrightarrow> off_fs s' = off_fs s" by (simp add: ialloc_def)
qed

text \<open>The same without memory.\<close>

lemma off_disk_simps [simp]:
  "off_disk (upd_inode ip f s) = off_disk s" "off_disk (bset b d s) = off_disk s"
  "off_disk (bwrite b s) = off_disk s" "off_disk (brelse b s) = off_disk s" "off_disk (idup ip s) = off_disk s"
  "off_disk (disk_rw b w s) = off_disk s"
  by (simp_all add: upd_inode_def bset_def bwrite_def disk_rw_def brelse_def idup_def Let_def)

lemmas off_bread [frame] = offs_bread [THEN off_fs_disk]
lemmas off_bzero [frame] = offs_bzero [THEN off_fs_disk]
lemmas off_balloc [frame] = offs_balloc [THEN off_fs_disk]
lemmas off_bfree [frame] = offs_bfree [THEN off_fs_disk]
lemmas off_bmap_entry [frame] = offs_bmap_entry [THEN off_fs_disk]
lemmas off_bmap_addr [frame] = offs_bmap_addr [THEN off_fs_disk]
lemmas off_bmap [frame] = offs_bmap [THEN off_fs_disk]
lemmas off_iupdate [frame] = offs_iupdate [THEN off_fs_disk]
lemmas off_leaves [frame] = offs_leaves [THEN off_fs_disk]
lemmas off_mids [frame] = offs_mids [THEN off_fs_disk]
lemmas off_directs [frame] = offs_directs [THEN off_fs_disk]
lemmas off_itrunc_index [frame] = offs_itrunc_index [THEN off_fs_disk]
lemmas off_itrunc [frame] = offs_itrunc [THEN off_fs_disk]
lemmas off_iget [frame] = offs_iget [THEN off_fs_disk]
lemmas off_ilock [frame] = offs_ilock [THEN off_fs_disk]
lemmas off_iunlock [frame] = offs_iunlock [THEN off_fs_disk]
lemmas off_iput [frame] = offs_iput [THEN off_fs_disk]
lemmas off_iunlockput [frame] = offs_iunlockput [THEN off_fs_disk]
lemmas off_ialloc [frame] = offs_ialloc [THEN off_fs_disk]

lemma off_for_each:
  assumes "\<And>i s s'. f i s = Some s' \<Longrightarrow> off_disk s' = off_disk s" and "for_each f is s = Some s'"
  shows "off_disk s' = off_disk s"
  using assms(2) by (induction "is" arbitrary: s) (auto elim!: bind_eq_SomeE dest: assms(1))

section \<open>Memory routines\<close>

lemma off_kalloc [simp]: "off_disk (snd (kalloc s)) = off_disk s"
  by (simp add: kalloc_def)

lemma off_kallocD [frame]: "kalloc s = (m, t) \<Longrightarrow> off_disk t = off_disk s"
  using off_kalloc [of s] by simp

lemma off_kfree [frame]: "kfree s pa = Some s' \<Longrightarrow> off_disk s' = off_disk s"
  by (auto simp: kfree_def split: if_splits)

lemma off_walk_loop: "walk_loop s pt va alloc k = (pte, s') \<Longrightarrow> off_disk s' = off_disk s"
proof (induction k arbitrary: s pt alloc)
  case (Suc k)
  show ?case
  proof (cases "kalloc s")
    case (Pair page t)
    then have t: "off_disk t = off_disk s" using off_kalloc [of s] by simp
    note e = Suc.prems [unfolded walk_loop.simps Pair Let_def prod.case]
    show ?thesis
    proof (cases "load64 (pmem s) (pt + 8 * PX (Suc k) va) AND PTE_V \<noteq> 0 \<or> \<not> alloc \<or> page = 0")
      case True
      then show ?thesis using e t by (auto split: if_splits dest!: Suc.IH)
    next
      case False
      then show ?thesis using e t by (auto dest!: Suc.IH)
    qed
  qed
qed simp

lemma off_walk [frame]: "walk s pt va alloc = Some (pte, s') \<Longrightarrow> off_disk s' = off_disk s"
  by (auto simp: walk_def intro: off_walk_loop)

lemma off_copyout [frame]: "copyout s pt va bs = Some (r, s') \<Longrightarrow> off_disk s' = off_disk s"
proof (induction "length bs" arbitrary: s va bs rule: less_induct)
  case less
  note e = less.prems [unfolded copyout.simps [of s pt va bs]]
  show ?case
  proof (cases "bs = []")
    case False
    let ?n = "min (4096 - unat (va - PGROUNDDOWN va)) (length bs)"
    have "length (drop ?n bs) < length bs" using False page_off_lt [of va] by simp
    then show ?thesis using e False by (auto simp: Let_def elim!: bind_eq_SomeE split: if_splits dest!: frame less.hyps [rotated])
  qed (use e in simp)
qed

lemma off_mappages_loop: "mappages_loop s pt a z pa perm = Some (r, s') \<Longrightarrow> off_disk s' = off_disk s"
proof (induction "unat MAXVA - unat a" arbitrary: s a pa rule: less_induct)
  case less
  note e = less.prems [unfolded mappages_loop.simps [of s pt a z pa perm]]
  obtain pte t where t: "walk s pt a True = Some (pte, t)" using e by (auto elim: bind_eq_SomeE)
  have d: "unat MAXVA - unat (a + PGSIZE) < unat MAXVA - unat a" by (rule MAXVA_step(2) [OF walk_SomeD [OF t]])
  show ?case using e t by (auto simp: Let_def split: if_splits dest!: frame less.hyps [OF d])
qed

lemma off_mappages [frame]: "mappages s pt pa va sz perm = Some (r, s') \<Longrightarrow> off_disk s' = off_disk s"
  by (auto simp: mappages_def split: if_splits dest!: off_mappages_loop)

lemma off_uvmcopy_loop: "uvmcopy_loop s old new i sz = Some (r, s') \<Longrightarrow> off_disk s' = off_disk s"
proof (induction "unat MAXVA - unat i" arbitrary: s i rule: less_induct)
  case less
  note e = less.prems [unfolded uvmcopy_loop.simps [of s old new i sz]]
  show ?case
  proof (cases "i < sz")
    case True
    then obtain pte t where t: "walk s old i False = Some (pte, t)" using e by (auto elim: bind_eq_SomeE)
    have d: "unat MAXVA - unat (i + PGSIZE) < unat MAXVA - unat i" by (rule MAXVA_step(2) [OF walk_SomeD [OF t]])
    obtain m u where u: "kalloc t = (m, u)" by fastforce
    then have "off_disk u = off_disk t" using off_kalloc [of t] by simp
    then show ?thesis using e t u True
      by (auto simp: Let_def elim!: bind_eq_SomeE split: if_splits dest!: frame less.hyps [OF d])
  qed (use e in simp)
qed

lemma off_uvmcopy [frame]: "uvmcopy s old new sz = Some (r, s') \<Longrightarrow> off_disk s' = off_disk s"
  by (auto simp: uvmcopy_def dest: off_uvmcopy_loop)

lemma off_proc_pagetable [frame]: "proc_pagetable s tf = Some (pt, s') \<Longrightarrow> off_disk s' = off_disk s"
  by (auto simp: proc_pagetable_def Let_def elim!: bind_eq_SomeE split: if_splits prod.splits dest!: frame)

lemma off_uvmunmap_loop: "uvmunmap_loop s pt a e f = Some s' \<Longrightarrow> off_disk s' = off_disk s"
proof (induction "unat MAXVA - unat a" arbitrary: s a f rule: less_induct)
  case less
  note e = less.prems [unfolded uvmunmap_loop.simps [of s pt a e f]]
  show ?case
  proof (cases "a < e")
    case True
    then obtain pte t where t: "walk s pt a False = Some (pte, t)" using e by (auto elim: bind_eq_SomeE)
    have d: "unat MAXVA - unat (a + PGSIZE) < unat MAXVA - unat a" by (rule MAXVA_step(2) [OF walk_SomeD [OF t]])
    show ?thesis using e t True
      by (auto simp: Let_def elim!: bind_eq_SomeE split: if_splits dest!: frame less.hyps [OF d])
  qed (use e in simp)
qed

lemma off_uvmunmap [frame]: "uvmunmap s pt va n f = Some s' \<Longrightarrow> off_disk s' = off_disk s"
  by (auto simp: uvmunmap_def split: if_splits dest: off_uvmunmap_loop)

lemma off_freewalk_loop:
  assumes "freewalk_loop s pt i = Some s'"
  shows "off_disk s' = off_disk s"
proof (rule freewalk_loop.raw_induct [OF _ assms])
  fix f s pt i s'
  assume hyp: "\<And>s pt i s'. f s pt i = Some s' \<Longrightarrow> off_disk s' = off_disk s"
    and "(if i < 512 then
        let a = pt + 8 * of_nat i; pte = load64 (pmem s) a in
        if pte AND PTE_V \<noteq> 0 \<and> pte AND (PTE_R OR PTE_W OR PTE_X) = 0
        then do { s1 \<leftarrow> f s (PTE2PA pte) 0; f (s1\<lparr>pmem := store64 (pmem s1) a 0\<rparr>) pt (Suc i) }
        else if pte AND PTE_V \<noteq> 0 then None else f s pt (Suc i)
      else kfree s pt) = Some s'"
  then show "off_disk s' = off_disk s"
    by (auto simp: Let_def elim!: bind_eq_SomeE split: if_splits dest!: frame hyp)
qed

lemma off_freewalk [frame]: "freewalk s pt = Some s' \<Longrightarrow> off_disk s' = off_disk s"
  by (simp add: freewalk_def off_freewalk_loop)

lemma off_pft_leaf: "pft_leaf fb pt k s = Some s' \<Longrightarrow> off_disk s' = off_disk s"
  by (auto simp: pft_leaf_def Let_def elim!: bind_eq_SomeE split: if_splits dest!: frame)

lemma off_pft_leafs [frame]: "for_each (pft_leaf fb pt) is s = Some s' \<Longrightarrow> off_disk s' = off_disk s"
  by (rule off_for_each [OF off_pft_leaf])

lemma off_pft_mid: "pft_mid fb pt k s = Some s' \<Longrightarrow> off_disk s' = off_disk s"
  by (auto simp: pft_mid_def Let_def split: if_splits dest!: frame)

lemma off_pft_mids [frame]: "for_each (pft_mid fb pt) is s = Some s' \<Longrightarrow> off_disk s' = off_disk s"
  by (rule off_for_each [OF off_pft_mid])

lemma off_pft_top: "pft_top fb pt k s = Some s' \<Longrightarrow> off_disk s' = off_disk s"
  by (auto simp: pft_top_def Let_def split: if_splits dest!: frame)

lemma off_pft_tops [frame]: "for_each (pft_top fb pt) is s = Some s' \<Longrightarrow> off_disk s' = off_disk s"
  by (rule off_for_each [OF off_pft_top])

lemma off_proc_freepagetable [frame]: "proc_freepagetable s tf pt = Some s' \<Longrightarrow> off_disk s' = off_disk s"
  by (auto simp: proc_freepagetable_def elim!: bind_eq_SomeE dest!: frame)

lemma off_uvmdealloc [frame]: "uvmdealloc s pt old new = Some (n, s') \<Longrightarrow> off_disk s' = off_disk s"
  by (auto simp: uvmdealloc_def Let_def elim!: bind_eq_SomeE split: if_splits dest!: frame)

lemma off_uvmalloc_loop: "uvmalloc_loop s pt old a new = Some (n, s') \<Longrightarrow> off_disk s' = off_disk s"
proof (induction "unat MAXVA + 4096 - unat a" arbitrary: s a rule: less_induct)
  case less
  note e = less.prems [unfolded uvmalloc_loop.simps [of s pt old a new]]
  show ?case
  proof (cases "a < new")
    case True
    obtain m u where u: "kalloc s = (m, u)" by fastforce
    then have ou: "off_disk u = off_disk s" using off_kalloc [of s] by simp
    show ?thesis
    proof (cases "m = 0")
      case False
      then obtain r t where t: "mappages (u\<lparr>pmem := memset (pmem u) m 0 4096\<rparr>) pt m a PGSIZE (PTE_W OR PTE_R OR PTE_U) = Some (r, t)"
        using e u True by (auto elim: bind_eq_SomeE)
      have d: "unat MAXVA + 4096 - unat (a + PGSIZE) < unat MAXVA + 4096 - unat a"
        by (rule MAXVA_step' [OF mappages_SomeD [OF t]])
      show ?thesis using e t u ou True False
        by (auto elim!: bind_eq_SomeE split: if_splits dest!: frame less.hyps [OF d])
    qed (use e u ou True in \<open>auto elim!: bind_eq_SomeE dest!: frame\<close>)
  qed (use e in simp)
qed

lemma off_uvmalloc [frame]: "uvmalloc s pt old new = Some (n, s') \<Longrightarrow> off_disk s' = off_disk s"
  by (auto simp: uvmalloc_def split: if_splits dest: off_uvmalloc_loop)

lemma off_deliver [frame]: "deliver dst tot chunk s = Some (r, s') \<Longrightarrow> off_disk s' = off_disk s"
  by (auto simp: deliver_def elim!: bind_eq_SomeE split: rdst.splits dest: frame)

lemma chunk_pos: "0 < rem \<Longrightarrow> rem - min (BSIZE - k mod BSIZE) rem < rem"
  by (simp add: BSIZE_def)

lemma off_readi_loop: "readi_loop s ip dst off rem acc = Some (got, s') \<Longrightarrow> off_disk s' = off_disk s"
proof (induction rem arbitrary: s off acc rule: less_induct)
  case (less rem)
  note e = less.prems [unfolded readi_loop.simps [of s ip dst off rem acc]]
  show ?case
  proof (cases "rem = 0")
    case False
    then show ?thesis using e less.IH [OF chunk_pos [of rem "unat off"]]
      by (auto simp: Let_def elim!: bind_eq_SomeE split: if_splits dest!: frame)
  qed (use e in simp)
qed

lemma off_readi [frame]: "readi s ip dst off n = Some (got, s') \<Longrightarrow> off_disk s' = off_disk s"
  by (auto simp: readi_def Let_def split: if_splits dest: off_readi_loop)

section \<open>Reading into the kernel and writing\<close>

lemma offs_deliver: "deliver DLocal tot chunk s = Some (r, s') \<Longrightarrow> off_fs s' = off_fs s"
  by (simp add: deliver_def)

lemma offs_readi_loop: "readi_loop s ip DLocal off rem acc = Some (got, s') \<Longrightarrow> off_fs s' = off_fs s"
proof (induction rem arbitrary: s off acc rule: less_induct)
  case (less rem)
  note e = less.prems [unfolded readi_loop.simps [of s ip DLocal off rem acc]]
  show ?case
  proof (cases "rem = 0")
    case False
    then show ?thesis using e less.IH [OF chunk_pos [of rem "unat off"]]
      by (auto simp: Let_def elim!: bind_eq_SomeE split: if_splits dest!: fs_frame offs_deliver)
  qed (use e in simp)
qed

lemma offs_readi [fs_frame]: "readi s ip DLocal off n = Some (got, s') \<Longrightarrow> off_fs s' = off_fs s"
  by (auto simp: readi_def Let_def split: if_splits dest: offs_readi_loop)

lemma offs_writei_loop [fs_frame]: "writei_loop s ip off bs = Some (e, s') \<Longrightarrow> off_fs s' = off_fs s"
proof (induction "length bs" arbitrary: s off bs rule: less_induct)
  case less
  note e = less.prems [unfolded writei_loop.simps [of s ip off bs]]
  show ?case
  proof (cases "bs = []")
    case False
    then have "length (drop (min (BSIZE - unat off mod BSIZE) (length bs)) bs) < length bs"
      using chunk_pos [of "length bs" "unat off"] by simp
    from less.hyps [OF this] show ?thesis using e False
      by (auto simp: Let_def elim!: bind_eq_SomeE dest!: fs_frame)
  qed (use e in simp)
qed

lemma offs_writei_tail [fs_frame]: "writei_tail s ip off bs = Some (r, s') \<Longrightarrow> off_fs s' = off_fs s"
  by (auto simp: writei_tail_def elim!: bind_eq_SomeE split: if_splits dest!: fs_frame)

lemma offs_writei_zeros [fs_frame]: "writei_zeros s ip gap = Some (r, s') \<Longrightarrow> off_fs s' = off_fs s"
  by (auto simp: writei_zeros_def Let_def split: if_splits dest!: fs_frame)

lemma offs_writei_fill_result:
  assumes "writei_fill s ip off = Some r"
  shows "off_fs (snd r) = off_fs s"
proof (rule writei_fill.raw_induct [OF _ assms])
  fix fill and s :: "'a fs_st_scheme" and ip off r
  assume ih: "\<And>s ip off r. fill s ip off = Some r \<Longrightarrow> off_fs (snd r) = off_fs s"
    and e: "(if i_size (icache s ip) < off
      then let gap = min (off - i_size (icache s ip)) 128 in
        do { (r, s) \<leftarrow> writei_zeros s ip gap;
             if r \<noteq> int (unat gap) then Some (False, s) else fill s ip off }
      else Some (True, s)) = Some r"
  show "off_fs (snd r) = off_fs s"
  proof (cases "i_size (icache s ip) < off")
    case True
    then obtain w t where t: "writei_zeros s ip (min (off - i_size (icache s ip)) 128) = Some (w, t)"
      "r = (False, t) \<or> fill t ip off = Some r"
      using e by (auto simp: Let_def elim!: bind_eq_SomeE split: if_splits)
    then show ?thesis using ih [of t ip off r] offs_writei_zeros [OF t(1)] by auto
  qed (use e in auto)
qed

lemma offs_writei_fill [fs_frame]: "writei_fill s ip off = Some (b, s') \<Longrightarrow> off_fs s' = off_fs s"
  using offs_writei_fill_result by fastforce

lemma offs_writei [fs_frame]: "writei s ip off bs = Some (r, s') \<Longrightarrow> off_fs s' = off_fs s"
  by (auto simp: writei_def elim!: bind_eq_SomeE split: if_splits dest!: fs_frame)

section \<open>Directories and path names\<close>

lemma offs_dirlookup_loop:
  assumes "dirlookup_loop s dp name off = Some r"
  shows "off_fs (snd r) = off_fs s"
proof (rule dirlookup_loop.raw_induct [OF _ assms])
  fix look and s :: "'a fs_st_scheme" and dp name off r
  assume ih: "\<And>s dp name off r. look s dp name off = Some r \<Longrightarrow> off_fs (snd r) = off_fs s"
    and e: "(if off < i_size (icache s dp)
      then do { (de, s) \<leftarrow> readi s dp DLocal off (of_nat de_size);
                if length de \<noteq> de_size then None
                else if de_inum de \<noteq> 0 \<and> name_match DIRSIZ (de_name de) name
                then do { (ip, s) \<leftarrow> iget s (i_dev (icache s dp)) (ucast (de_inum de)); Some (Some (ip, off), s) }
                else look s dp name (off + of_nat de_size) }
      else Some (None, s)) = Some r"
  show "off_fs (snd r) = off_fs s"
  proof (cases "off < i_size (icache s dp)")
    case True
    then obtain de t where t: "readi s dp DLocal off (of_nat de_size) = Some (de, t)"
      "(if de_inum de \<noteq> 0 \<and> name_match DIRSIZ (de_name de) name
        then do { (ip, s) \<leftarrow> iget t (i_dev (icache t dp)) (ucast (de_inum de)); Some (Some (ip, off), s) }
        else look t dp name (off + of_nat de_size)) = Some r"
      using e by (auto elim!: bind_eq_SomeE)
    then show ?thesis using offs_readi [OF t(1)] by (auto elim!: bind_eq_SomeE split: if_splits dest!: ih fs_frame)
  qed (use e in auto)
qed

lemma offs_dirlookup [fs_frame]: "dirlookup s dp name = Some (r, s') \<Longrightarrow> off_fs s' = off_fs s"
  using offs_dirlookup_loop by (fastforce simp: dirlookup_def)

lemma offs_dirlink_slot_result:
  assumes "dirlink_slot s dp off = Some r"
  shows "off_fs (snd r) = off_fs s"
proof (rule dirlink_slot.raw_induct [OF _ assms])
  fix slot and s :: "'a fs_st_scheme" and dp off r
  assume ih: "\<And>s dp off r. slot s dp off = Some r \<Longrightarrow> off_fs (snd r) = off_fs s"
    and e: "(if off < i_size (icache s dp)
      then do { (de, s) \<leftarrow> readi s dp DLocal off (of_nat de_size);
                if length de \<noteq> de_size then None
                else if de_inum de = 0 then Some (off, s)
                else slot s dp (off + of_nat de_size) }
      else Some (off, s)) = Some r"
  show "off_fs (snd r) = off_fs s"
  proof (cases "off < i_size (icache s dp)")
    case True
    then obtain de t where t: "readi s dp DLocal off (of_nat de_size) = Some (de, t)"
      "(if de_inum de = 0 then Some (off, t) else slot t dp (off + of_nat de_size)) = Some r"
      using e by (auto elim!: bind_eq_SomeE)
    then show ?thesis using offs_readi [OF t(1)] by (auto split: if_splits dest!: ih)
  qed (use e in auto)
qed

lemma offs_dirlink_slot [fs_frame]: "dirlink_slot s dp off = Some (n, s') \<Longrightarrow> off_fs s' = off_fs s"
  using offs_dirlink_slot_result by fastforce

lemma offs_dirlink [fs_frame]: "dirlink s dp name inum = Some (r, s') \<Longrightarrow> off_fs s' = off_fs s"
  by (auto simp: dirlink_def Let_def elim!: bind_eq_SomeE split: option.splits dest!: fs_frame)

lemma offs_namei_start [fs_frame]: "namei_start s path = Some (ip, s') \<Longrightarrow> off_fs s' = off_fs s"
  by (auto simp: namei_start_def elim!: bind_eq_SomeE split: if_splits option.splits dest!: fs_frame)

lemma offs_namei_loop [fs_frame]: "namei_loop s ip path name = Some (r, s') \<Longrightarrow> off_fs s' = off_fs s"
proof (induction "length path" arbitrary: s ip path name rule: less_induct)
  case less
  note e = less.prems [unfolded namei_loop.simps [of s ip path name]]
  show ?case
  proof (cases "skipelem path name")
    case (Some x)
    then obtain path' name' where x: "skipelem path name = Some (path', name')" by (cases x) auto
    from less.hyps [OF skipelem_shorter [OF this]] e x show ?thesis
      by (auto elim!: bind_eq_SomeE split: if_splits option.splits dest!: fs_frame)
  qed (use e in auto)
qed

lemma offs_namei [fs_frame]: "namei s path = Some (r, s') \<Longrightarrow> off_fs s' = off_fs s"
  by (auto simp: namei_def elim!: bind_eq_SomeE dest!: fs_frame)

lemma offs_nameiparent_loop [fs_frame]: "nameiparent_loop s ip path name = Some (r, s') \<Longrightarrow> off_fs s' = off_fs s"
proof (induction "length path" arbitrary: s ip path name rule: less_induct)
  case less
  note e = less.prems [unfolded nameiparent_loop.simps [of s ip path name]]
  show ?case
  proof (cases "skipelem path name")
    case None
    then show ?thesis using e by (auto elim!: bind_eq_SomeE dest!: fs_frame)
  next
    case (Some x)
    then obtain path' name' where x: "skipelem path name = Some (path', name')" by (cases x) auto
    from less.hyps [OF skipelem_shorter [OF this]] e x show ?thesis
      by (auto elim!: bind_eq_SomeE split: if_splits option.splits dest!: fs_frame)
  qed
qed

lemma offs_nameiparent [fs_frame]: "nameiparent s path = Some (r, s') \<Longrightarrow> off_fs s' = off_fs s"
  by (auto simp: nameiparent_def elim!: bind_eq_SomeE dest!: fs_frame)

lemmas off_writei_loop [frame] = offs_writei_loop [THEN off_fs_disk]
lemmas off_writei_tail [frame] = offs_writei_tail [THEN off_fs_disk]
lemmas off_writei_zeros [frame] = offs_writei_zeros [THEN off_fs_disk]
lemmas off_writei_fill [frame] = offs_writei_fill [THEN off_fs_disk]
lemmas off_writei [frame] = offs_writei [THEN off_fs_disk]
lemmas off_dirlookup [frame] = offs_dirlookup [THEN off_fs_disk]
lemmas off_dirlink_slot [frame] = offs_dirlink_slot [THEN off_fs_disk]
lemmas off_dirlink [frame] = offs_dirlink [THEN off_fs_disk]
lemmas off_namei_start [frame] = offs_namei_start [THEN off_fs_disk]
lemmas off_namei_loop [frame] = offs_namei_loop [THEN off_fs_disk]
lemmas off_namei [frame] = offs_namei [THEN off_fs_disk]
lemmas off_nameiparent_loop [frame] = offs_nameiparent_loop [THEN off_fs_disk]
lemmas off_nameiparent [frame] = offs_nameiparent [THEN off_fs_disk]

text \<open>The parts of the state that the frame fixes.\<close>

lemma off_disk_eqD:
  assumes "off_disk s' = off_disk s"
  shows "procs s' = procs s" and "cpu s' = cpu s" and "sie s' = sie s" and "locks s' = locks s"
    and "nextpid s' = nextpid s" and "myproc s' = myproc s" and "holds s' = holds s"
    and "fs_st.more s' = fs_st.more s"
proof -
  show p: "procs s' = procs s" "cpu s' = cpu s" "sie s' = sie s" "locks s' = locks s" "nextpid s' = nextpid s"
    using arg_cong [OF assms, of procs] arg_cong [OF assms, of cpu] arg_cong [OF assms, of sie]
      arg_cong [OF assms, of locks] arg_cong [OF assms, of nextpid] by (simp_all add: off_disk_def off_fs_def)
  show "myproc s' = myproc s" "holds s' = holds s" using p by (simp_all add: myproc_def holds_def fun_eq_iff)
  show "fs_st.more s' = fs_st.more s" using arg_cong [OF assms, of fs_st.more] by (simp add: off_disk_def off_fs_def)
qed

end
