(* ===== verification/File.thy ===== *)
theory File
  imports Console Frame
begin

text \<open>
  Open files: \<open>kernel/fs/file.c\<close>. A \<open>struct file *\<close> is an index into
  \<open>ftable.file\<close>; a descriptor table entry \<open>p->ofile[fd]\<close> is such an index or
  \<^term>\<open>None\<close>. The second part proves that the operations on descriptors keep the
  reference count of every open file equal to the number of descriptors that name it.
\<close>

section \<open>Operations\<close>

definition NFILE :: nat where [kdefs]: "NFILE = 100"

definition FD_NONE :: nat where [kdefs]: "FD_NONE = 0"
definition FD_PIPE :: nat where [kdefs]: "FD_PIPE = 1"
definition FD_INODE :: nat where [kdefs]: "FD_INODE = 2"
definition FD_DEVICE :: nat where [kdefs]: "FD_DEVICE = 3"
definition FD_CONSOLE :: nat where [kdefs]: "FD_CONSOLE = 4"

definition upd_file :: "nat \<Rightarrow> (file_rec \<Rightarrow> file_rec) \<Rightarrow> 'a kst_scheme \<Rightarrow> 'a kst_scheme" where
  "upd_file f g s = s\<lparr>ftable := (ftable s)(f := g (ftable s f))\<rparr>"

definition set_ofile :: "nat \<Rightarrow> nat \<Rightarrow> nat option \<Rightarrow> 'a proc_st_scheme \<Rightarrow> 'a proc_st_scheme" where
  "set_ofile p fd v s = upd_proc p (\<lambda>x. x\<lparr>ofile := (ofile x)(fd := v)\<rparr>) s"

definition filealloc :: "'a kst_scheme \<Rightarrow> nat option \<times> 'a kst_scheme" where
  "filealloc s =
     (case List.find (\<lambda>f. f_ref (ftable s f) = 0) [0..<NFILE] of
        None \<Rightarrow> (None, s)
      | Some f \<Rightarrow> (Some f, upd_file f (\<lambda>x. x\<lparr>f_ref := 1\<rparr>) s))"

text \<open>A result of -1 is the inner \<^term>\<open>None\<close>.\<close>

definition fdalloc :: "nat \<Rightarrow> 'a proc_st_scheme \<Rightarrow> (nat option \<times> 'a proc_st_scheme) option" where
  "fdalloc f s =
     do { p \<leftarrow> myproc s;
          (case List.find (\<lambda>fd. ofile (procs s p) fd = None) [0..<NOFILE] of
             None \<Rightarrow> Some (None, s)
           | Some fd \<Rightarrow> Some (Some fd, set_ofile p fd (Some f) s)) }"

definition filedup :: "nat \<Rightarrow> 'a kst_scheme \<Rightarrow> 'a kst_scheme" where
  "filedup f s = upd_file f (\<lambda>x. x\<lparr>f_ref := f_ref x + 1\<rparr>) s"

definition fileclose :: "nat \<Rightarrow> 'a kst_scheme \<Rightarrow> 'a kst_scheme option" where
  "fileclose f s =
     (let f_copy = ftable s f in
      if f_ref (ftable s f) < 1 then None  \<comment> \<open>panic: fileclose\<close>
      else let s = upd_file f (\<lambda>x. x\<lparr>f_ref := f_ref x - 1\<rparr>) s in
        if 0 < f_ref (ftable s f) then Some s
        else do { s \<leftarrow> (if f_type (ftable s f) = FD_INODE then do { ip \<leftarrow> f_ip (ftable s f); iput ip s }
                       else if f_type (ftable s f) = FD_CONSOLE then Some s
                       else if f_type f_copy = FD_PIPE then pipeclose (f_pipe f_copy) (f_writable f_copy) s
                       else Some s);
                  Some (upd_file f (\<lambda>x. x\<lparr>f_type := 0, f_ip := None, f_off := 0\<rparr>) s) })"

definition fileread :: "nat \<Rightarrow> int \<Rightarrow> u64 \<Rightarrow> 'a kst_scheme \<Rightarrow> (int \<times> 'a kst_scheme) option" where
  "fileread f n buf s =
     (if \<not> f_readable (ftable s f) then Some (-1, s)
      else do { ip \<leftarrow> f_ip (ftable s f);
                s \<leftarrow> ilock ip s;
                (got, s) \<leftarrow> readi s ip (DUser buf) (f_off (ftable s f)) (of_int n);
                let read_byte = int (length got);
                let s = upd_file f (\<lambda>x. x\<lparr>f_off := f_off x + of_int read_byte\<rparr>) s;
                s \<leftarrow> iunlock ip s;
                Some (read_byte, s) })"

text \<open>The bytes at \<open>addr\<close> are \<open>bs\<close>, \<open>n\<close> of them.\<close>

definition filewrite :: "nat \<Rightarrow> u8 list \<Rightarrow> 'a kst_scheme \<Rightarrow> (int \<times> 'a kst_scheme) option" where
  "filewrite f bs s =
     (if \<not> f_writable (ftable s f) then Some (-1, s)
      else do { ip \<leftarrow> f_ip (ftable s f);
                s \<leftarrow> ilock ip s;
                (r, s) \<leftarrow> writei s ip (f_off (ftable s f)) bs;
                let (ret, s) = (if 0 < r then (r, upd_file f (\<lambda>x. x\<lparr>f_off := f_off x + of_int r\<rparr>) s) else (-1, s));
                s \<leftarrow> iunlock ip s;
                Some (ret, s) })"

definition filestat :: "nat \<Rightarrow> u64 \<Rightarrow> 'a kst_scheme \<Rightarrow> (int \<times> 'a kst_scheme) option" where
  "filestat f addr s =
     do { p \<leftarrow> myproc s;
          if f_type (ftable s f) = FD_INODE \<or> f_type (ftable s f) = FD_DEVICE
          then do { ip \<leftarrow> f_ip (ftable s f);
                    s \<leftarrow> ilock ip s;
                    let st = stati (icache s ip);
                    s \<leftarrow> iunlock ip s;
                    (r, s) \<leftarrow> copyout s (pagetable (procs s p)) addr st;
                    Some (if r < 0 then -1 else 0, s) }
          else Some (-1, s) }"

section \<open>Frames\<close>

text \<open>
  Most kernel routines move processes between states and touch memory and the disk, but
  neither a descriptor nor a reference count: no descriptor changes, every open file has the
  references it had and no process dies.
\<close>

definition dead :: "proc_rec \<Rightarrow> bool" where
  "dead x \<longleftrightarrow> status x = TASK_FREE \<or> status x = TASK_ZOMBIE"

definition procs_keep :: "(nat \<Rightarrow> proc_rec) \<Rightarrow> (nat \<Rightarrow> proc_rec) \<Rightarrow> bool" where
  "procs_keep P P' \<longleftrightarrow> (\<forall>p. ofile (P' p) = ofile (P p) \<and> (dead (P' p) \<longrightarrow> dead (P p)))"

definition fd_keep :: "'a kst_scheme \<Rightarrow> 'a kst_scheme \<Rightarrow> bool" where
  "fd_keep s s' \<longleftrightarrow> procs_keep (procs s) (procs s') \<and> (\<forall>f. f_ref (ftable s' f) = f_ref (ftable s f))"

lemma procs_keep_refl [simp]: "procs_keep P P" by (simp add: procs_keep_def)

lemma procs_keep_trans: "procs_keep P Q \<Longrightarrow> procs_keep Q R \<Longrightarrow> procs_keep P R"
  by (simp add: procs_keep_def)

lemma procs_keep_upd:
  "ofile x = ofile (P i) \<Longrightarrow> dead x \<longrightarrow> dead (P i) \<Longrightarrow> procs_keep P (P(i := x))"
  by (simp add: procs_keep_def)

lemma procs_lock: "procs (release lk s) = procs s" "acquire lk s = Some s' \<Longrightarrow> procs s' = procs s"
  by (auto simp: lock_defs Let_def)

declare procs_lock(1) [simp]

lemma procs_sched: "sched s = Some s' \<Longrightarrow> s' = s"
  by (auto simp: sched_def elim!: bind_eq_SomeE)

lemma keep_wakeup: "wakeup ch s = Some s' \<Longrightarrow> procs_keep (procs s) (procs s')"
proof -
  have one: "procs_keep (procs t) (procs t')" if w: "wakeup_one ch i t = Some t'" for i t t'
  proof (cases "Some i = myproc t")
    case False
    then obtain u where u: "acquire (LProc i) t = Some u"
      "t' = release (LProc i) (if status (procs u i) = TASK_SLEEPING \<and> chan (procs u i) = ch
         then upd_proc i (\<lambda>x. x\<lparr>status := TASK_READY\<rparr>) u else u)"
      using w by (auto simp: wakeup_one_def Let_def elim!: bind_eq_SomeE)
    then show ?thesis using procs_lock(2) [OF u(1)] by (auto simp: dead_def intro!: procs_keep_upd)
  qed (use w in \<open>simp add: wakeup_one_def\<close>)
  have "for_each (wakeup_one ch) is t = Some t' \<Longrightarrow> procs_keep (procs t) (procs t')" for "is" t t'
    by (induction "is" arbitrary: t) (auto elim!: bind_eq_SomeE dest!: one intro: procs_keep_trans)
  then show "wakeup ch s = Some s' \<Longrightarrow> procs_keep (procs s) (procs s')" by (simp add: wakeup_def)
qed

lemma keep_sleep_out: "sleep_out ch lk s = Some s' \<Longrightarrow> procs_keep (procs s) (procs s')"
  by (auto simp: sleep_out_def dead_def elim!: bind_eq_SomeE split: if_splits dest!: procs_lock(2) procs_sched
    intro!: procs_keep_upd)

lemma keep_yield_out: "yield_out s = Some s' \<Longrightarrow> procs_keep (procs s) (procs s')"
  by (auto simp: yield_out_def dead_def elim!: bind_eq_SomeE dest!: procs_lock(2) procs_sched intro!: procs_keep_upd)

lemma keep_sleep_in: "sleep_in p lk s = Some s' \<Longrightarrow> procs_keep (procs s) (procs s')"
  by (auto simp: sleep_in_def dead_def Let_def split: if_splits dest!: procs_lock(2) intro!: procs_keep_upd)

section \<open>The contract of the descriptor table\<close>

text \<open>
  The reference discipline that the system calls follow: \<open>inv s Q\<close> says that the
  reference counts of the open files are right when the running kernel code holds the
  references of \<open>Q\<close> in local variables. Taking a file out of a slot moves the
  descriptor's reference to a local, storing it gives the local's reference to the slot,
  \<open>dup\<close> makes a reference and \<open>close\<close> consumes one.
\<close>

locale fd_table =
  fixes inv :: "'s \<Rightarrow> nat multiset \<Rightarrow> bool" and slot :: "'s \<Rightarrow> nat \<Rightarrow> nat \<Rightarrow> nat option"
    and put :: "nat \<Rightarrow> nat \<Rightarrow> nat option \<Rightarrow> 's \<Rightarrow> 's" and dup :: "nat \<Rightarrow> 's \<Rightarrow> 's"
    and close :: "nat \<Rightarrow> 's \<Rightarrow> 's option" and valid :: "'s \<Rightarrow> nat \<Rightarrow> nat \<Rightarrow> bool"
  assumes take: "inv s Q \<Longrightarrow> valid s p fd \<Longrightarrow> slot s p fd = Some f \<Longrightarrow> inv (put p fd None s) (add_mset f Q)"
    and store: "inv s (add_mset f Q) \<Longrightarrow> valid s p fd \<Longrightarrow> slot s p fd = None \<Longrightarrow> inv (put p fd (Some f) s) Q"
    and dup_ok: "inv s Q \<Longrightarrow> f \<in># Q \<or> valid s p fd \<and> slot s p fd = Some f \<Longrightarrow> inv (dup f s) (add_mset f Q)"
    and close_ok: "inv s (add_mset f Q) \<Longrightarrow> close f s = Some s' \<Longrightarrow> inv s' Q"
    and slot_put: "slot (put p fd v s) p fd' = (if fd' = fd then v else slot s p fd')"
    and slot_dup: "slot (dup f s) p fd = slot s p fd"
    and slot_close: "close f s = Some s' \<Longrightarrow> slot s' p fd = slot s p fd"
    and valid_dup: "valid (dup f s) p fd = valid s p fd"
    and valid_close: "valid s p fd \<Longrightarrow> close f s = Some s' \<Longrightarrow> valid s' p fd"
    and dup_put: "dup f (put p fd v s) = put p fd v (dup f s)"
    and close_clear: "inv s Q \<Longrightarrow> valid s p fd \<Longrightarrow> slot s p fd = Some f \<Longrightarrow> close f s = Some s' \<Longrightarrow> inv (put p fd None s') Q"
begin

lemma close_slot:
  assumes "inv s Q" and "valid s p fd" and "slot s p fd = Some f" and "close f (put p fd None s) = Some s'"
  shows "inv s' Q"
  using close_ok [OF take [OF assms(1-3)] assms(4)] .

lemma copy_slot:
  assumes "inv s Q" and "valid s p fd" and "slot s p fd = Some f" and "valid s p' fd'" and "slot s p' fd' = None"
  shows "inv (dup f (put p' fd' (Some f) s)) Q"
  unfolding dup_put using assms
  by (intro store) (auto intro!: dup_ok simp: slot_dup valid_dup)

text \<open>\<open>dup2\<close> on two different descriptors.\<close>

lemma replace_slot:
  assumes "inv s Q" and "valid s p fd" and "slot s p fd = Some f" and "valid s p fd'" and "fd' \<noteq> fd"
    and "slot s p fd' = Some g" and "close g s = Some s'" and "\<And>t. valid (put p fd' None t) p fd = valid t p fd"
    and "\<And>t. valid (put p fd' None t) p fd' = valid t p fd'"
  shows "inv (dup f (put p fd' (Some f) (put p fd' None s'))) Q"
proof (rule copy_slot)
  show "inv (put p fd' None s') Q" by (rule close_clear [OF assms(1,4,6,7)])
qed (use assms in \<open>auto simp: slot_put slot_close [OF assms(7)] intro: valid_close [OF _ assms(7)]\<close>)

end

text \<open>The descriptors that refer to a file.\<close>

definition fd_refs :: "'a proc_st_scheme \<Rightarrow> nat \<Rightarrow> (nat \<times> nat) set" where
  "fd_refs s f = {(p, fd). p < NPROC \<and> fd < NOFILE \<and> ofile (procs s p) fd = Some f}"

definition fref_count :: "'a kst_scheme \<Rightarrow> nat multiset \<Rightarrow> bool" where
  "fref_count s Q \<longleftrightarrow>
     (\<forall>f < NFILE. f_ref (ftable s f) = int (card (fd_refs s f) + count Q f)) \<and> set_mset Q \<subseteq> {..<NFILE} \<and>
     (\<forall>p < NPROC. \<forall>fd < NOFILE. \<forall>f. ofile (procs s p) fd = Some f \<longrightarrow> f < NFILE)"

definition dead_closed :: "'a proc_st_scheme \<Rightarrow> bool" where
  "dead_closed s \<longleftrightarrow> (\<forall>p < NPROC. dead (procs s p) \<longrightarrow> (\<forall>fd < NOFILE. ofile (procs s p) fd = None))"

definition fref_inv :: "'a kst_scheme \<Rightarrow> nat multiset \<Rightarrow> bool" where
  "fref_inv s Q \<longleftrightarrow> fref_count s Q \<and> dead_closed s"

definition fd_valid :: "'a proc_st_scheme \<Rightarrow> nat \<Rightarrow> nat \<Rightarrow> bool" where
  "fd_valid s p fd \<longleftrightarrow> p < NPROC \<and> fd < NOFILE \<and> \<not> dead (procs s p)"

lemma finite_fd_refs [simp]: "finite (fd_refs s f)"
  by (rule finite_subset [of _ "{..<NPROC} \<times> {..<NOFILE}"]) (auto simp: fd_refs_def)

lemma fd_refs_put:
  assumes "p < NPROC" and "fd < NOFILE"
  shows "fd_refs (set_ofile p fd v s) f = (if v = Some f then insert (p, fd) (fd_refs s f) else fd_refs s f - {(p, fd)})"
  using assms by (auto simp: fd_refs_def set_ofile_def split: if_splits)

lemma fd_refs_keep: "procs_keep (procs s) (procs s') \<Longrightarrow> fd_refs s' f = fd_refs s f"
  by (simp add: fd_refs_def procs_keep_def)

lemma count_keep: "fref_count s Q \<Longrightarrow> fd_keep s s' \<Longrightarrow> fref_count s' Q"
  using fd_refs_keep [of s s'] by (auto simp: fref_count_def fd_keep_def procs_keep_def)

lemma dead_closed_keep: "dead_closed s \<Longrightarrow> procs_keep (procs s) (procs s') \<Longrightarrow> dead_closed s'"
  by (auto simp: dead_closed_def procs_keep_def)

lemma fref_keep: "fref_inv s Q \<Longrightarrow> fd_keep s s' \<Longrightarrow> fref_inv s' Q"
  by (auto simp: fref_inv_def intro: count_keep dead_closed_keep) (auto simp: fd_keep_def intro: dead_closed_keep)

lemma procs_off: "off_disk s' = off_disk (s :: 'a fs_st_scheme) \<Longrightarrow> procs s' = procs s"
  by (rule off_disk_eqD(1))

lemma ftable_off: "off_disk s' = off_disk (s :: 'a kst_scheme) \<Longrightarrow> ftable s' = ftable s"
proof -
  assume "off_disk s' = off_disk s"
  then have "ftable (off_disk s') = ftable (off_disk s)" by simp
  then show ?thesis by (simp add: off_disk_def off_fs_def)
qed

lemma fd_keep_off: "off_disk s' = off_disk s \<Longrightarrow> fd_keep s s'"
proof -
  assume h: "off_disk s' = off_disk s"
  have "procs s' = procs s" by (rule procs_off [OF h])
  moreover have "ftable s' = ftable s" by (rule ftable_off [OF h])
  ultimately show "fd_keep s s'" by (simp add: fd_keep_def)
qed

lemma fd_keep_trans: "fd_keep s t \<Longrightarrow> fd_keep t u \<Longrightarrow> fd_keep s u"
  by (auto simp: fd_keep_def intro: procs_keep_trans)

lemma fd_keep_refl [simp]: "fd_keep s s" by (simp add: fd_keep_def)

lemma ftable_lock: "ftable (release lk s) = ftable s" "acquire lk s = Some s' \<Longrightarrow> ftable s' = ftable s"
  using proc_rest_cons(3) proc_rest_basic(1) proc_rest_acquire by blast+

declare ftable_lock(1) [simp]

lemma fd_keep_wakeup: "wakeup ch s = Some s' \<Longrightarrow> fd_keep s s'"
  by (simp add: fd_keep_def keep_wakeup proc_rest_cons(3) [OF proc_rest_wakeup])

lemma fd_keep_acquire: "acquire lk s = Some s' \<Longrightarrow> fd_keep s s'"
  by (simp add: fd_keep_def procs_lock(2) ftable_lock(2))

lemma fd_keep_release [simp]: "fd_keep s (release lk t) = fd_keep s t" "fd_keep (release lk s) t = fd_keep s t"
  by (simp_all add: fd_keep_def)

lemma fd_keep_pmem [simp]: "fd_keep s (t\<lparr>pmem := m\<rparr>) = fd_keep s t" "fd_keep (s\<lparr>pmem := m\<rparr>) t = fd_keep s t"
  by (simp_all add: fd_keep_def)

lemma fd_keep_pipe_put [simp]: "fd_keep s (pipe_put pi v t) = fd_keep s t" "fd_keep (pipe_put pi v s) t = fd_keep s t"
  by (simp_all add: pipe_put_def)

lemma fd_keep_pipeclose: "pipeclose pi w s = Some s' \<Longrightarrow> fd_keep s s'"
  by (auto simp: pipeclose_def Let_def elim!: bind_eq_SomeE split: if_splits
    dest!: fd_keep_acquire fd_keep_wakeup frame fd_keep_off) (blast intro: fd_keep_trans)+

lemma upd_file_simps [simp]:
  "procs (upd_file f g s) = procs s" "ftable (upd_file f g s) = (ftable s)(f := g (ftable s f))"
  "myproc (upd_file f g s) = myproc s" "icache (upd_file f g s) = icache s" "pmem (upd_file f g s) = pmem s"
  by (simp_all add: upd_file_def myproc_def)

lemma set_ofile_simps [simp]:
  "dead (procs (set_ofile p fd v s) q) = dead (procs s q)"
  "ofile (procs (set_ofile p fd v s) q) = (if q = p then (ofile (procs s p))(fd := v) else ofile (procs s q))"
  "myproc (set_ofile p fd v s) = myproc s"
  by (simp_all add: set_ofile_def upd_proc_def dead_def myproc_def)

lemma ftable_set_ofile [simp]: "ftable (set_ofile p fd v s) = ftable s"
  by (simp add: set_ofile_def upd_proc_def)

text \<open>Closing drops one reference of the file; the rest of the table keeps its counts.\<close>

lemma fileclose_keep:
  assumes "fileclose f s = Some s'"
  shows "procs_keep (procs s) (procs s')" and "1 \<le> f_ref (ftable s f)"
    and "f_ref (ftable s' g) = (if g = f then f_ref (ftable s f) - 1 else f_ref (ftable s g))"
proof -
  let ?s = "upd_file f (\<lambda>x. x\<lparr>f_ref := f_ref x - 1\<rparr>) s"
  show "1 \<le> f_ref (ftable s f)" using assms by (auto simp: fileclose_def Let_def split: if_splits)
  consider "s' = ?s" | t where "s' = upd_file f (\<lambda>x. x\<lparr>f_type := 0, f_ip := None, f_off := 0\<rparr>) t" "fd_keep ?s t"
    using assms by (auto simp: fileclose_def Let_def elim!: bind_eq_SomeE split: if_splits
      dest!: frame fd_keep_off fd_keep_pipeclose)
  then have "procs_keep (procs s) (procs s') \<and> (\<forall>g. f_ref (ftable s' g) = (if g = f then f_ref (ftable s f) - 1 else f_ref (ftable s g)))"
  proof cases
    case 2
    then show ?thesis by (simp add: fd_keep_def)
  qed simp
  then show "procs_keep (procs s) (procs s')" "f_ref (ftable s' g) = (if g = f then f_ref (ftable s f) - 1 else f_ref (ftable s g))"
    by simp_all
qed

lemma card_fd_refs_put:
  assumes "p < NPROC" and "fd < NOFILE"
  shows "int (card (fd_refs (set_ofile p fd v s) f)) =
    int (card (fd_refs s f)) - (if ofile (procs s p) fd = Some f then 1 else 0) + (if v = Some f then 1 else 0)"
proof -
  have m: "(p, fd) \<in> fd_refs s f \<longleftrightarrow> ofile (procs s p) fd = Some f" using assms by (simp add: fd_refs_def)
  show ?thesis unfolding fd_refs_put [OF assms]
    using m card_gt_0_iff [of "fd_refs s f"] by (auto simp: insert_absorb card_Diff_singleton)
qed

lemma count_put:
  assumes "fref_count s Q" and "p < NPROC" and "fd < NOFILE" and "v = None \<or> (\<exists>g < NFILE. v = Some g)"
    and "\<And>f. f < NFILE \<Longrightarrow> int (count Q' f) = int (count Q f) + (if ofile (procs s p) fd = Some f then 1 else 0) - (if v = Some f then 1 else 0)"
    and "set_mset Q' \<subseteq> {..<NFILE}"
  shows "fref_count (set_ofile p fd v s) Q'"
  using assms card_fd_refs_put [OF assms(2,3), of v s] by (auto simp: fref_count_def split: if_splits)

lemma dead_closed_put: "dead_closed s \<Longrightarrow> v = None \<or> \<not> dead (procs s p) \<Longrightarrow> dead_closed (set_ofile p fd v s)"
  by (auto simp: dead_closed_def)

lemma fref_put:
  assumes "fref_inv s Q" and "fd_valid s p fd" and "v = None \<or> (\<exists>g < NFILE. v = Some g)"
    and "\<And>f. f < NFILE \<Longrightarrow> int (count Q' f) = int (count Q f) + (if ofile (procs s p) fd = Some f then 1 else 0) - (if v = Some f then 1 else 0)"
    and "set_mset Q' \<subseteq> {..<NFILE}"
  shows "fref_inv (set_ofile p fd v s) Q'"
  using assms count_put [OF _ _ _ assms(3-5)] dead_closed_put [of s v p fd] by (simp add: fref_inv_def fd_valid_def)

lemma count_close: "fref_count s (add_mset f Q) \<Longrightarrow> fileclose f s = Some s' \<Longrightarrow> fref_count s' Q"
  using fileclose_keep [of f s s'] fd_refs_keep [of s s']
  by (auto simp: fref_count_def procs_keep_def split: if_splits)

text \<open>Closing first and clearing the slot afterwards, as \<open>dup2\<close> and \<open>exit\<close> do.\<close>

lemma count_close_clear:
  assumes "fref_count s Q" and "p < NPROC" and "fd < NOFILE" and "ofile (procs s p) fd = Some f" and "fileclose f s = Some s'"
  shows "fref_count (set_ofile p fd None s') Q"
proof -
  note k = fileclose_keep [OF assms(5)]
  have "ofile (procs s' q) = ofile (procs s q)" for q using k(1) by (auto simp: procs_keep_def)
  moreover have "f_ref (ftable (set_ofile p fd None s') g) = int (card (fd_refs (set_ofile p fd None s') g) + count Q g)"
    if "g < NFILE" for g
    using card_fd_refs_put [OF assms(2,3), of None s' g] assms(1,4) that k(3) [of g] fd_refs_keep [OF k(1), of g] calculation
    by (auto simp: fref_count_def)
  ultimately show ?thesis using assms(1) by (auto simp: fref_count_def)
qed

interpretation ft: fd_table fref_inv "\<lambda>s p. ofile (procs s p)" set_ofile filedup fileclose fd_valid
proof (unfold_locales, goal_cases)
  case (1 s Q p fd f)
  then have "f < NFILE" by (auto simp: fref_inv_def fref_count_def fd_valid_def)
  then show ?case using 1 by (intro fref_put [OF 1(1,2)]) (auto simp: fref_inv_def fref_count_def)
next
  case (2 s f Q p fd)
  then have "f < NFILE" "set_mset Q \<subseteq> {..<NFILE}" by (auto simp: fref_inv_def fref_count_def)
  then show ?case using 2(3) by (intro fref_put [OF 2(1,2)]) auto
next
  case (3 s Q f p fd)
  then have "f < NFILE" by (auto simp: fref_inv_def fref_count_def fd_valid_def)
  moreover have "fd_refs (filedup f s) g = fd_refs s g" for g by (simp add: fd_refs_def filedup_def)
  ultimately show ?case using 3(1) by (auto simp: fref_inv_def fref_count_def dead_closed_def filedup_def)
next
  case (4 s f Q s')
  then show ?case using count_close [OF _ 4(2)] dead_closed_keep [OF _ fileclose_keep(1) [OF 4(2)]] by (auto simp: fref_inv_def)
next
  case (7 f s s' p fd)
  then show ?case using fileclose_keep(1) [OF 7] by (simp add: procs_keep_def)
next
  case (9 s p fd f s')
  then show ?case using fileclose_keep(1) [OF 9(2)] by (auto simp: fd_valid_def procs_keep_def)
next
  case (10 f p fd v s)
  then show ?case by (simp add: filedup_def upd_file_def set_ofile_def upd_proc_def)
next
  case (11 s Q p fd f s')
  then show ?case using count_close_clear [OF _ _ _ 11(3,4)] dead_closed_keep [OF _ fileclose_keep(1) [OF 11(4)]]
    by (auto simp: fref_inv_def fd_valid_def intro: dead_closed_put)
qed (auto simp: filedup_def fd_valid_def)

end
