(* ===== verification/Syscall_File.thy ===== *)
theory Syscall_File
  imports File
begin

text \<open>
  System calls on files, directories and descriptors: \<open>kernel/syscall/sysfile.c\<close> and
  the file part of \<open>kernel/syscall/sysproc.c\<close>. A handler returns the value that
  becomes \<open>a0\<close> and the state. A handler that sleeps or yields returns
  \<open>Blocked c\<close>, where \<open>c\<close> records its local variables at that point; the
  matching \<open>_resume\<close> definition continues there when the process runs again.
\<close>

section \<open>Suspended system calls\<close>

text \<open>
  \<open>CWrite\<close>: file, pipe, bytes of the chunk not yet in the pipe, bytes of the chunk in the
  pipe, next user address, total written, bytes left, size of the chunk. \<open>CReadPipe\<close>: pipe,
  user address, count. \<open>CReadCons\<close>: user address, count, bytes read. \<open>CWait\<close>:
  address for the exit status. \<open>CExited\<close>: the process has exited.
\<close>

datatype cont =
  CWrite nat u64 "u8 list" nat u64 int int int
  | CReadPipe u64 u64 int
  | CReadCons u64 int int
  | CWait u64
  | CExited

definition O_RDONLY :: u32 where [kdefs]: "O_RDONLY = 0"
definition O_WRONLY :: u32 where [kdefs]: "O_WRONLY = 1"
definition O_RDWR :: u32 where [kdefs]: "O_RDWR = 2"
definition O_CREAT :: u32 where [kdefs]: "O_CREAT = 0x200"
definition O_TRUNC :: u32 where [kdefs]: "O_TRUNC = 0x400"
definition O_EXCL :: u32 where [kdefs]: "O_EXCL = 0x800"
definition O_APPEND :: u32 where [kdefs]: "O_APPEND = 0x1000"
definition TIOCINQ :: int where [kdefs]: "TIOCINQ = 0x541B"
definition F_DUPFD :: int where [kdefs]: "F_DUPFD = 0"
definition F_GETFD :: int where [kdefs]: "F_GETFD = 1"
definition F_SETFD :: int where [kdefs]: "F_SETFD = 2"
definition F_GETFL :: int where [kdefs]: "F_GETFL = 3"
definition F_SETFL :: int where [kdefs]: "F_SETFL = 4"
definition SEEK_SET :: int where [kdefs]: "SEEK_SET = 0"
definition SEEK_CUR :: int where [kdefs]: "SEEK_CUR = 1"
definition SEEK_END :: int where [kdefs]: "SEEK_END = 2"

text \<open>The handlers' common prologue: a descriptor argument that names an open file.\<close>

definition with_fd :: "nat \<Rightarrow> (nat \<Rightarrow> nat \<Rightarrow> 'a kst_scheme \<Rightarrow> (int \<times> 'a kst_scheme) option) \<Rightarrow>
    'a kst_scheme \<Rightarrow> (int \<times> 'a kst_scheme) option" where
  "with_fd n body s =
     do { r \<leftarrow> argfd n s;
          (case r of None \<Rightarrow> Some (-1, s) | Some (fd, f) \<Rightarrow> body (nat fd) f s) }"

section \<open>Descriptors\<close>

definition sys_ioctl :: "'a kst_scheme \<Rightarrow> (int \<times> 'a kst_scheme) option" where
  "sys_ioctl s =
     do { p \<leftarrow> myproc s;
          request \<leftarrow> argint 1 s;
          arg \<leftarrow> argaddr 2 s;
          with_fd 0 (\<lambda>fd f s.
            if request = TIOCINQ \<and> f_type (ftable s f) = FD_CONSOLE
            then if arg \<noteq> 0
                 then do { (r, s) \<leftarrow> copyout s (pagetable (procs s p)) arg (le_bytes 4 (of_int (console_pending s) :: u32));
                           Some (if r < 0 then -1 else 0, s) }
                 else Some (0, s)
            else Some (-1, s)) s }"

definition sys_fcntl :: "'a kst_scheme \<Rightarrow> (int \<times> 'a kst_scheme) option" where
  "sys_fcntl s =
     do { p \<leftarrow> myproc s;
          cmd \<leftarrow> argint 1 s;
          arg \<leftarrow> argint 2 s;
          with_fd 0 (\<lambda>fd f s.
            if cmd = F_DUPFD
            then if arg < 0 \<or> int NOFILE \<le> arg then Some (-1, s)
                 else (case List.find (\<lambda>newfd. ofile (procs s p) newfd = None) [nat arg..<NOFILE] of
                         None \<Rightarrow> Some (-1, s)
                       | Some newfd \<Rightarrow> Some (int newfd, filedup f (set_ofile p newfd (Some f) s)))
            else if cmd = F_GETFD then Some (0, s)
            else if cmd = F_SETFD then Some (0, s)
            else if cmd = F_GETFL
            then Some (if f_readable (ftable s f) \<and> f_writable (ftable s f) then uint O_RDWR
                       else if f_writable (ftable s f) then uint O_WRONLY else uint O_RDONLY, s)
            else if cmd = F_SETFL then Some (0, s)
            else Some (-1, s)) s }"

definition sys_close :: "'a kst_scheme \<Rightarrow> (int \<times> 'a kst_scheme) option" where
  "sys_close s =
     do { p \<leftarrow> myproc s;
          with_fd 0 (\<lambda>fd f s. do { s \<leftarrow> fileclose f (set_ofile p fd None s); Some (0, s) }) s }"

definition sys_dup :: "'a kst_scheme \<Rightarrow> (int \<times> 'a kst_scheme) option" where
  "sys_dup s =
     with_fd 0 (\<lambda>fd f s.
       do { (r, s) \<leftarrow> fdalloc f s;
            (case r of None \<Rightarrow> Some (-1, s) | Some newfd \<Rightarrow> Some (int newfd, filedup f s)) }) s"

definition sys_dup2 :: "'a kst_scheme \<Rightarrow> (int \<times> 'a kst_scheme) option" where
  "sys_dup2 s =
     do { p \<leftarrow> myproc s;
          oldfd \<leftarrow> argint 0 s;
          newfd \<leftarrow> argint 1 s;
          if oldfd < 0 \<or> int NOFILE \<le> oldfd \<or> newfd < 0 \<or> int NOFILE \<le> newfd then Some (-1, s)
          else (case ofile (procs s p) (nat oldfd) of
                  None \<Rightarrow> Some (-1, s)
                | Some f \<Rightarrow>
                    if oldfd = newfd then Some (newfd, s)
                    else do { s \<leftarrow> (case ofile (procs s p) (nat newfd) of
                                    None \<Rightarrow> Some s
                                  | Some g \<Rightarrow> do { s \<leftarrow> fileclose g s; Some (set_ofile p (nat newfd) None s) });
                              let s = set_ofile p (nat newfd) (Some f) s;
                              Some (newfd, filedup f s) }) }"

definition sys_fstat :: "'a kst_scheme \<Rightarrow> (int \<times> 'a kst_scheme) option" where
  "sys_fstat s = do { st \<leftarrow> argaddr 1 s; with_fd 0 (\<lambda>fd f s. filestat f st s) s }"

definition sys_lseek :: "'a kst_scheme \<Rightarrow> (int \<times> 'a kst_scheme) option" where
  "sys_lseek s =
     with_fd 0 (\<lambda>fd f s.
       do { offset \<leftarrow> argint 1 s;
            whence \<leftarrow> argint 2 s;
            if whence = SEEK_SET
            then let s = upd_file f (\<lambda>x. x\<lparr>f_off := of_int offset\<rparr>) s in Some (uint (f_off (ftable s f)), s)
            else if whence = SEEK_CUR
            then let s = upd_file f (\<lambda>x. x\<lparr>f_off := f_off x + of_int offset\<rparr>) s in Some (uint (f_off (ftable s f)), s)
            else if whence = SEEK_END
            then do { ip \<leftarrow> f_ip (ftable s f);
                      let s = upd_file f (\<lambda>x. x\<lparr>f_off := i_size (icache s ip) + of_int offset\<rparr>) s;
                      Some (uint (f_off (ftable s f)), s) }
            else Some (-1, s) }) s"

section \<open>Opening and truncating\<close>

text \<open>A directory may not be opened for writing; the inode is locked, and released on failure.\<close>

definition open_check :: "nat \<Rightarrow> u32 \<Rightarrow> 'a fs_st_scheme \<Rightarrow> (nat option \<times> 'a fs_st_scheme) option" where
  "open_check ip flags s =
     (if i_type (icache s ip) = T_DIR \<and> flags AND (O_WRONLY OR O_RDWR) \<noteq> 0
      then do { s \<leftarrow> iunlockput ip s; Some (None, s) }
      else Some (Some ip, s))"

text \<open>The \<open>O_CREAT\<close> branch: the locked inode, or \<^term>\<open>None\<close> inside for -1.\<close>

definition open_creat :: "u8 list \<Rightarrow> u32 \<Rightarrow> 'a fs_st_scheme \<Rightarrow> (nat option \<times> 'a fs_st_scheme) option" where
  "open_creat path flags s =
     do { (r, s) \<leftarrow> nameiparent s path;
          (case r of
             None \<Rightarrow> Some (None, s)
           | Some (dp, name) \<Rightarrow>
               do { s \<leftarrow> ilock dp s;
                    (r, s) \<leftarrow> dirlookup s dp name;
                    (case r of
                       None \<Rightarrow>
                         do { (ip, s) \<leftarrow> ialloc s (i_dev (icache s dp)) T_FILE;
                              s \<leftarrow> ilock ip s;
                              let s = upd_inode ip (\<lambda>x. x\<lparr>i_nlink := 1\<rparr>) s;
                              s \<leftarrow> iupdate ip s;
                              (r, s) \<leftarrow> dirlink s dp name (i_inum (icache s ip));
                              if r < 0
                              then do { s \<leftarrow> iunlockput ip s; s \<leftarrow> iunlockput dp s; Some (None, s) }
                              else do { s \<leftarrow> iunlockput dp s; Some (Some ip, s) } }
                     | Some (ip, _) \<Rightarrow>
                         do { s \<leftarrow> iunlockput dp s;
                              if flags AND O_EXCL \<noteq> 0
                              then do { s \<leftarrow> iput ip s; Some (None, s) }
                              else do { s \<leftarrow> ilock ip s; open_check ip flags s } }) }) }"

definition open_existing :: "u8 list \<Rightarrow> u32 \<Rightarrow> 'a fs_st_scheme \<Rightarrow> (nat option \<times> 'a fs_st_scheme) option" where
  "open_existing path flags s =
     do { (r, s) \<leftarrow> namei s path;
          (case r of
             None \<Rightarrow> Some (None, s)
           | Some ip \<Rightarrow> do { s \<leftarrow> ilock ip s; open_check ip flags s }) }"

text \<open>Steps 5 to 8 of \<open>sys_open\<close>: a file object and a descriptor for the locked inode.\<close>

definition open_install :: "nat \<Rightarrow> u32 \<Rightarrow> 'a kst_scheme \<Rightarrow> (int \<times> 'a kst_scheme) option" where
  "open_install ip flags s =
     do { s \<leftarrow> (if flags AND O_TRUNC \<noteq> 0 \<and> i_type (icache s ip) = T_FILE \<and> flags AND (O_WRONLY OR O_RDWR) \<noteq> 0
                then itrunc ip s else Some s);
          let (r, s) = filealloc s;
          (case r of
             None \<Rightarrow> do { s \<leftarrow> iunlockput ip s; Some (-1, s) }
           | Some f \<Rightarrow>
               do { (r, s) \<leftarrow> fdalloc f s;
                    (case r of
                       None \<Rightarrow> do { s \<leftarrow> fileclose f s; s \<leftarrow> iunlock ip s; Some (-1, s) }
                     | Some fd \<Rightarrow>
                         do { let s = upd_file f (\<lambda>x. x\<lparr>f_type := FD_INODE, f_ip := Some ip, f_off := 0,
                                f_readable := (flags AND O_WRONLY = 0),
                                f_writable := (flags AND O_WRONLY \<noteq> 0 \<or> flags AND O_RDWR \<noteq> 0)\<rparr>) s;
                              let s = (if flags AND O_APPEND \<noteq> 0 \<and> i_type (icache s ip) = T_FILE
                                       then upd_file f (\<lambda>x. x\<lparr>f_off := i_size (icache s ip)\<rparr>) s else s);
                              s \<leftarrow> iunlock ip s;
                              Some (int fd, s) }) }) }"

definition sys_open :: "'a kst_scheme \<Rightarrow> (int \<times> 'a kst_scheme) option" where
  "sys_open s =
     do { path \<leftarrow> argstr 0 MAXPATH s;
          flags \<leftarrow> argint 1 s;
          (case path of
             None \<Rightarrow> Some (-1, s)
           | Some path \<Rightarrow>
               do { let flags = (of_int flags :: u32);
                    (r, s) \<leftarrow> (if flags AND O_CREAT \<noteq> 0 then open_creat path flags s else open_existing path flags s);
                    (case r of None \<Rightarrow> Some (-1, s) | Some ip \<Rightarrow> open_install ip flags s) }) }"

text \<open>The loop of \<open>sys_ftruncate\<close> that extends the file with zeros, at most 128 at a time.\<close>

partial_function (option) ftruncate_fill ::
  "nat \<Rightarrow> int \<Rightarrow> 'a fs_st_scheme \<Rightarrow> (bool \<times> 'a fs_st_scheme) option" where
  "ftruncate_fill ip len s =
     (if sint (i_size (icache s ip)) < len
      then let n = min (len - sint (i_size (icache s ip))) 128 in
        do { (r, s) \<leftarrow> writei s ip (i_size (icache s ip)) (replicate (nat n) 0);
             if r \<noteq> n then Some (False, s) else ftruncate_fill ip len s }
      else Some (True, s))"

definition sys_ftruncate :: "'a kst_scheme \<Rightarrow> (int \<times> 'a kst_scheme) option" where
  "sys_ftruncate s =
     with_fd 0 (\<lambda>fd f s.
       do { len \<leftarrow> argint 1 s;
            if f_type (ftable s f) \<noteq> FD_INODE \<or> \<not> f_writable (ftable s f) \<or> len < 0 then Some (-1, s)
            else do { ip \<leftarrow> f_ip (ftable s f);
                      s \<leftarrow> ilock ip s;
                      if i_type (icache s ip) \<noteq> T_FILE
                      then do { s \<leftarrow> iunlock ip s; Some (-1, s) }
                      else do { (ok, s) \<leftarrow> (if len = 0 then do { s \<leftarrow> itrunc ip s; Some (True, s) }
                                  else if sint (i_size (icache s ip)) < len then ftruncate_fill ip len s
                                  else do { s \<leftarrow> iupdate ip (upd_inode ip (\<lambda>x. x\<lparr>i_size := of_int len\<rparr>) s); Some (True, s) });
                                if \<not> ok then do { s \<leftarrow> iunlock ip s; Some (-1, s) }
                                else do { let s = (if of_int len < f_off (ftable s f)
                                                   then upd_file f (\<lambda>x. x\<lparr>f_off := of_int len\<rparr>) s else s);
                                          s \<leftarrow> iunlock ip s;
                                          Some (0, s) } } } }) s"

section \<open>Directories\<close>

definition sys_mkdir :: "'a kst_scheme \<Rightarrow> (int \<times> 'a kst_scheme) option" where
  "sys_mkdir s =
     do { path \<leftarrow> argstr 0 MAXPATH s;
          (case path of
             None \<Rightarrow> Some (-1, s)
           | Some path \<Rightarrow>
         do { (r, s) \<leftarrow> nameiparent s path;
              (case r of
                 None \<Rightarrow> Some (-1, s)
               | Some (dp, name) \<Rightarrow>
             do { s \<leftarrow> ilock dp s;
                  (r, s) \<leftarrow> dirlookup s dp name;
                  (case r of
                     Some (ip, _) \<Rightarrow>
                       do { s \<leftarrow> iunlockput dp s; s \<leftarrow> ilock ip s; s \<leftarrow> iunlockput ip s; Some (-1, s) }
                   | None \<Rightarrow>
                       do { (ip, s) \<leftarrow> ialloc s (i_dev (icache s dp)) T_DIR;
                            s \<leftarrow> ilock ip s;
                            let s = upd_inode ip (\<lambda>x. x\<lparr>i_nlink := 2\<rparr>) s;
                            (r1, s) \<leftarrow> dirlink s ip [46, 0] (i_inum (icache s ip));
                            (r2, s) \<leftarrow> (if r1 < 0 then Some (-1, s) else dirlink s ip [46, 46, 0] (i_inum (icache s dp)));
                            (r3, s) \<leftarrow> (if r2 < 0 then Some (-1, s) else dirlink s dp name (i_inum (icache s ip)));
                            if r3 < 0
                            then do { s \<leftarrow> iunlockput ip s; s \<leftarrow> iunlockput dp s; Some (-1, s) }
                            else do { s \<leftarrow> iupdate dp (upd_inode dp (\<lambda>x. x\<lparr>i_nlink := i_nlink x + 1\<rparr>) s);
                                      s \<leftarrow> iupdate ip s;
                                      s \<leftarrow> iunlockput dp s;
                                      s \<leftarrow> iunlockput ip s;
                                      Some (0, s) } }) }) }) }"

definition sys_chdir :: "'a kst_scheme \<Rightarrow> (int \<times> 'a kst_scheme) option" where
  "sys_chdir s =
     do { p \<leftarrow> myproc s;
          path \<leftarrow> argstr 0 128 s;
          (case path of
             None \<Rightarrow> Some (-1, s)
           | Some path \<Rightarrow>
         do { (r, s) \<leftarrow> namei s path;
              (case r of
                 None \<Rightarrow> Some (-1, s)
               | Some ip \<Rightarrow>
             do { s \<leftarrow> ilock ip s;
                  if i_type (icache s ip) \<noteq> T_DIR
                  then do { s \<leftarrow> iunlockput ip s; Some (-1, s) }
                  else do { s \<leftarrow> iunlock ip s;
                            let (r, next) = normalize_cwd_path (cwd_path (procs s p)) path (replicate MAXPATH 0) (int MAXPATH);
                            if r < 0
                            then do { s \<leftarrow> iput ip s; Some (-1, s) }
                            else do { old \<leftarrow> cwd (procs s p);  \<comment> \<open>NULL dereference in \<open>iput\<close>\<close>
                                      s \<leftarrow> iput old s;
                                      Some (0, upd_proc p (\<lambda>x. x\<lparr>cwd := Some ip,
                                        cwd_path := safestrcpy (cwd_path x) next (int MAXPATH)\<rparr>) s) } } }) }) }"

definition sys_getcwd :: "'a kst_scheme \<Rightarrow> (int \<times> 'a kst_scheme) option" where
  "sys_getcwd s =
     do { p \<leftarrow> myproc s;
          let dir = (if cchar (cwd_path (procs s p)) 0 \<noteq> 0 then cwd_path (procs s p) else [47, 0]);
          let len = int (strlen dir) + 1;
          addr \<leftarrow> argaddr 0 s;
          size \<leftarrow> argint 1 s;
          if size \<le> 0 \<or> size < len then Some (0, s)
          else do { (r, s) \<leftarrow> copyout s (pagetable (procs s p)) addr (cstr dir @ [0]);
                    Some (if r < 0 then 0 else uint addr, s) } }"

text \<open>Overwriting a directory entry with zeros; a short write panics.\<close>

definition clear_dirent :: "nat \<Rightarrow> u32 \<Rightarrow> 'a fs_st_scheme \<Rightarrow> 'a fs_st_scheme option" where
  "clear_dirent dp off s =
     do { (n, s) \<leftarrow> writei s dp off (replicate de_size 0);
          if n \<noteq> int de_size then None else Some s }"

definition is_dot :: "u8 list \<Rightarrow> bool" where
  "is_dot name \<longleftrightarrow> namecmp name [46, 0] = 0 \<or> namecmp name [46, 46, 0] = 0"

definition sys_unlink :: "'a kst_scheme \<Rightarrow> (int \<times> 'a kst_scheme) option" where
  "sys_unlink s =
     do { path \<leftarrow> argstr 0 MAXPATH s;
          (case path of
             None \<Rightarrow> Some (-1, s)
           | Some path \<Rightarrow>
         do { (r, s) \<leftarrow> nameiparent s path;
              (case r of
                 None \<Rightarrow> Some (-1, s)
               | Some (dp, name) \<Rightarrow>
             do { s \<leftarrow> ilock dp s;
                  if is_dot name then do { s \<leftarrow> iunlockput dp s; Some (-1, s) }
                  else do { (r, s) \<leftarrow> dirlookup s dp name;
                     (case r of
                        None \<Rightarrow> do { s \<leftarrow> iunlockput dp s; Some (-1, s) }
                      | Some (ip, off) \<Rightarrow>
                          do { s \<leftarrow> ilock ip s;
                               s \<leftarrow> clear_dirent dp off s;
                               s \<leftarrow> (if i_type (icache s ip) = T_DIR
                                     then iupdate dp (upd_inode dp (\<lambda>x. x\<lparr>i_nlink := i_nlink x - 1\<rparr>) s)
                                     else Some s);
                               s \<leftarrow> iupdate ip (upd_inode ip (\<lambda>x. x\<lparr>i_nlink := i_nlink x - 1\<rparr>) s);
                               s \<leftarrow> iunlockput ip s;
                               s \<leftarrow> iunlockput dp s;
                               Some (0, s) }) } }) }) }"

text \<open>
  The cleanup at the labels \<open>bad_target\<close>, \<open>bad_new_dp\<close>, \<open>bad_ip\<close> and
  \<open>bad_old_dp\<close>: the inodes are released in order and the result is -1.
\<close>

fun put_all :: "nat list \<Rightarrow> 'a fs_st_scheme \<Rightarrow> 'a fs_st_scheme option" where
  "put_all [] s = Some s"
| "put_all (ip # ips) s = do { s \<leftarrow> iunlockput ip s; put_all ips s }"

definition fail_put :: "nat list \<Rightarrow> 'a fs_st_scheme \<Rightarrow> (int \<times> 'a fs_st_scheme) option" where
  "fail_put ips s = do { s \<leftarrow> put_all ips s; Some (-1, s) }"

text \<open>From the lookup of the target name on: an existing file of that name is unlinked first.\<close>

definition rename_link ::
  "nat \<Rightarrow> u32 \<Rightarrow> nat \<Rightarrow> nat \<Rightarrow> u8 list \<Rightarrow> 'a fs_st_scheme \<Rightarrow> (int \<times> 'a fs_st_scheme) option" where
  "rename_link old_dp old_off ip new_dp new_name s =
     do { (r, s) \<leftarrow> dirlink s new_dp new_name (i_inum (icache s ip));
          if r < 0 then fail_put [new_dp, ip, old_dp] s
          else do { s \<leftarrow> clear_dirent old_dp old_off s;
                    s \<leftarrow> put_all [new_dp, ip, old_dp] s;
                    Some (0, s) } }"

definition rename_target ::
  "nat \<Rightarrow> u32 \<Rightarrow> nat \<Rightarrow> nat \<Rightarrow> u8 list \<Rightarrow> 'a fs_st_scheme \<Rightarrow> (int \<times> 'a fs_st_scheme) option" where
  "rename_target old_dp old_off ip new_dp new_name s =
     do { (r, s) \<leftarrow> dirlookup s new_dp new_name;
          (case r of
             None \<Rightarrow> rename_link old_dp old_off ip new_dp new_name s
           | Some (target, target_off) \<Rightarrow>
               do { s \<leftarrow> ilock target s;
                    if i_type (icache s target) \<noteq> T_FILE then fail_put [target, new_dp, ip, old_dp] s
                    else do { s \<leftarrow> clear_dirent new_dp target_off s;
                              s \<leftarrow> iupdate target (upd_inode target (\<lambda>x. x\<lparr>i_nlink := i_nlink x - 1\<rparr>) s);
                              s \<leftarrow> iunlockput target s;
                              rename_link old_dp old_off ip new_dp new_name s } }) }"

definition sys_rename :: "'a kst_scheme \<Rightarrow> (int \<times> 'a kst_scheme) option" where
  "sys_rename s =
     do { old_path \<leftarrow> argstr 0 MAXPATH s;
          new_path \<leftarrow> argstr 1 MAXPATH s;
          (case (old_path, new_path) of
             (Some old_path, Some new_path) \<Rightarrow>
         do { (r, s) \<leftarrow> nameiparent s old_path;
              (case r of
                 None \<Rightarrow> Some (-1, s)
               | Some (old_dp, old_name) \<Rightarrow>
             do { s \<leftarrow> ilock old_dp s;
                  if is_dot old_name then fail_put [old_dp] s
                  else do { (r, s) \<leftarrow> dirlookup s old_dp old_name;
                     (case r of
                        None \<Rightarrow> fail_put [old_dp] s
                      | Some (ip, old_off) \<Rightarrow>
                    do { s \<leftarrow> ilock ip s;
                         if i_type (icache s ip) \<noteq> T_FILE then fail_put [ip, old_dp] s
                         else do { (r, s) \<leftarrow> nameiparent s new_path;
                            (case r of
                               None \<Rightarrow> fail_put [ip, old_dp] s
                             | Some (new_dp, new_name) \<Rightarrow>
                           do { s \<leftarrow> ilock new_dp s;
                                if is_dot new_name then fail_put [new_dp, ip, old_dp] s
                                else if i_dev (icache s old_dp) = i_dev (icache s new_dp) \<and>
                                        i_inum (icache s old_dp) = i_inum (icache s new_dp) \<and> namecmp old_name new_name = 0
                                then do { s \<leftarrow> put_all [new_dp, ip, old_dp] s; Some (0, s) }
                                else rename_target old_dp old_off ip new_dp new_name s }) } }) } }) }
           | _ \<Rightarrow> Some (-1, s)) }"

section \<open>Pipes\<close>

text \<open>Copying kernel bytes to user memory one by one, as \<open>sys_pipe\<close> does; False when a page is missing.\<close>

fun put_user :: "u64 \<Rightarrow> u64 \<Rightarrow> u8 list \<Rightarrow> 'a mem_st_scheme \<Rightarrow> (bool \<times> 'a mem_st_scheme) option" where
  "put_user pt va [] s = Some (True, s)"
| "put_user pt va (b # bs) s =
     do { r \<leftarrow> user_byte s pt False va;
          (case r of
             None \<Rightarrow> Some (False, s)
           | Some a \<Rightarrow> put_user pt (va + 1) bs (s\<lparr>pmem := (pmem s)(a := b)\<rparr>)) }"

text \<open>
  Freeing the page of a pipe whose file objects live on: the free-list link that \<open>kfree\<close>
  stores in the first eight bytes lies over \<open>pi->lock.locked\<close>.
\<close>

definition kfree_pipe :: "u64 \<Rightarrow> 'a proc_st_scheme \<Rightarrow> 'a proc_st_scheme option" where
  "kfree_pipe pi s =
     do { s \<leftarrow> kfree s pi;
          Some (s\<lparr>locks := (locks s)(LPipe pi := (locks s (LPipe pi))\<lparr>
                  locked := ((ucast (load64 (pmem s) pi) :: u32) \<noteq> 0)\<rparr>)\<rparr>) }"

definition close_end :: "nat \<Rightarrow> nat option \<Rightarrow> nat option \<Rightarrow> 'a kst_scheme \<Rightarrow> 'a kst_scheme option" where
  "close_end p f fd s =
     (case f of
        None \<Rightarrow> Some s
      | Some f \<Rightarrow> fileclose f (case fd of None \<Rightarrow> s | Some fd \<Rightarrow> set_ofile p fd None s))"

text \<open>The cleanup at the label \<open>bad\<close>, with a pipe page allocated.\<close>

definition pipe_bad :: "nat \<Rightarrow> u64 \<Rightarrow> nat option \<Rightarrow> nat option \<Rightarrow> nat option \<Rightarrow> nat option \<Rightarrow>
    'a kst_scheme \<Rightarrow> (int \<times> 'a kst_scheme) option" where
  "pipe_bad p pi rd wr fd0 fd1 s =
     do { s \<leftarrow> kfree_pipe pi s;
          s \<leftarrow> close_end p rd fd0 s;
          s \<leftarrow> close_end p wr fd1 s;
          Some (-1, s) }"

definition new_pipe :: "u64 \<Rightarrow> 'a proc_st_scheme \<Rightarrow> 'a proc_st_scheme" where
  "new_pipe pi s =
     (let s = initlock (LPipe pi) s in
      pipe_put pi ((pipe_at (pmem s) pi)\<lparr>p_nread := 0, p_nwrite := 0, p_readopen := 1, p_writeopen := 1\<rparr>) s)"

definition pipe_file :: "nat \<Rightarrow> u64 \<Rightarrow> bool \<Rightarrow> 'a kst_scheme \<Rightarrow> 'a kst_scheme" where
  "pipe_file f pi w s = upd_file f (\<lambda>x. x\<lparr>f_type := FD_PIPE, f_readable := (\<not> w), f_writable := w, f_pipe := pi\<rparr>) s"

text \<open>With the two file objects in place: descriptors, and their numbers to the user.\<close>

definition pipe_fds :: "nat \<Rightarrow> u64 \<Rightarrow> u64 \<Rightarrow> nat \<Rightarrow> nat \<Rightarrow> 'a kst_scheme \<Rightarrow> (int \<times> 'a kst_scheme) option" where
  "pipe_fds p fdarray pi rd wr s =
     do { (fd0, s) \<leftarrow> fdalloc rd s;
          (case fd0 of
             None \<Rightarrow> pipe_bad p pi (Some rd) (Some wr) None None s
           | Some fd0 \<Rightarrow>
               do { (fd1, s) \<leftarrow> fdalloc wr s;
                    (case fd1 of
                       None \<Rightarrow> pipe_bad p pi (Some rd) (Some wr) (Some fd0) None s
                     | Some fd1 \<Rightarrow>
                         do { (ok, s) \<leftarrow> put_user (pagetable (procs s p)) fdarray
                                (le_bytes 4 (of_nat fd0 :: u32) @ le_bytes 4 (of_nat fd1 :: u32)) s;
                              if ok then Some (0, s)
                              else pipe_bad p pi (Some rd) (Some wr) (Some fd0) (Some fd1) s }) }) }"

definition sys_pipe :: "'a kst_scheme \<Rightarrow> (int \<times> 'a kst_scheme) option" where
  "sys_pipe s =
     do { p \<leftarrow> myproc s;
          fdarray \<leftarrow> argaddr 0 s;
          let (pi, s) = kalloc s;
          if pi = 0 then Some (-1, s)
          else do { let (rd, s) = filealloc (new_pipe pi s);
                    (case rd of
                       None \<Rightarrow> pipe_bad p pi None None None None s
                     | Some rd \<Rightarrow>
                         do { let (wr, s) = filealloc s;
                              (case wr of
                                 None \<Rightarrow> pipe_bad p pi (Some rd) None None None s
                               | Some wr \<Rightarrow> pipe_fds p fdarray pi rd wr (pipe_file wr pi True (pipe_file rd pi False s))) }) } }"

section \<open>Reading and writing\<close>

text \<open>
  The console branch of \<open>sys_read\<close>. \<open>head\<close> tells whether the loop is at its
  head, where it looks at \<open>p->killed\<close>, or inside \<open>consgetc\<close> after a \<open>yield\<close>.
\<close>

function cons_read_loop ::
  "bool \<Rightarrow> u64 \<Rightarrow> int \<Rightarrow> int \<Rightarrow> 'a kst_scheme \<Rightarrow> (cont io \<times> 'a kst_scheme) option" where
  "cons_read_loop head ua n i s =
     (if i < n
      then do { p \<leftarrow> myproc s;
                if head \<and> killed (procs s p) then Some (Result i, s)
                else do { (c, s) \<leftarrow> consgetc s;
                     (case c of
                        None \<Rightarrow> Some (Blocked (CReadCons ua n i), s)
                      | Some c \<Rightarrow>
                          if c < 0 then Some (Result i, s)
                          else do { a \<leftarrow> user_byte s (pagetable (procs s p)) False ua;
                               (case a of
                                  None \<Rightarrow> Some (Result (-1), s)
                                | Some a \<Rightarrow>
                                    let s = s\<lparr>pmem := (pmem s)(a := of_int c)\<rparr> in
                                    if c = 10 then Some (Result (i + 1), s)
                                    else cons_read_loop True (ua + 1) n (i + 1) s) }) } }
      else Some (Result i, s))"
  by pat_completeness auto
termination by (relation "measure (\<lambda>(head, ua, n, i, s). nat (n - i))") auto

declare cons_read_loop.simps [simp del]

definition lift_result :: "(int \<times> 'a kst_scheme) option \<Rightarrow> (cont io \<times> 'a kst_scheme) option" where
  "lift_result m = do { (r, s) \<leftarrow> m; Some (Result r, s) }"

fun pipe_read_io :: "u64 \<Rightarrow> u64 \<Rightarrow> int \<Rightarrow> (unit io \<times> 'a kst_scheme) option \<Rightarrow> (cont io \<times> 'a kst_scheme) option" where
  "pipe_read_io pi addr n None = None"
| "pipe_read_io pi addr n (Some (Result r, s)) = Some (Result r, s)"
| "pipe_read_io pi addr n (Some (Blocked _, s)) = Some (Blocked (CReadPipe pi addr n), s)"

definition sys_read :: "'a kst_scheme \<Rightarrow> (cont io \<times> 'a kst_scheme) option" where
  "sys_read s =
     do { n \<leftarrow> argint 2 s;
          addr \<leftarrow> argaddr 1 s;
          r \<leftarrow> argfd 0 s;
          (case r of
             None \<Rightarrow> Some (Result (-1), s)
           | Some (fd, f) \<Rightarrow>
               if \<not> f_readable (ftable s f) then Some (Result (-1), s)
               else if f_type (ftable s f) = FD_CONSOLE then cons_read_loop True addr n 0 s
               else if f_type (ftable s f) = FD_INODE then lift_result (fileread f n addr s)
               else if f_type (ftable s f) = FD_PIPE then pipe_read_io (f_pipe (ftable s f)) addr n (piperead (f_pipe (ftable s f)) addr n s)
               else Some (Result (-1), s)) }"

definition cons_read_resume :: "nat \<Rightarrow> u64 \<Rightarrow> int \<Rightarrow> int \<Rightarrow> 'a kst_scheme \<Rightarrow> (cont io \<times> 'a kst_scheme) option" where
  "cons_read_resume p ua n i s = cons_read_loop False ua n i (yield_in p s)"

definition pipe_read_resume :: "nat \<Rightarrow> u64 \<Rightarrow> u64 \<Rightarrow> int \<Rightarrow> 'a kst_scheme \<Rightarrow> (cont io \<times> 'a kst_scheme) option" where
  "pipe_read_resume p pi addr n s = pipe_read_io pi addr n (piperead_resume p pi addr n s)"

text \<open>The first loop of a chunk of \<open>sys_write\<close>; the inner \<^term>\<open>None\<close> is a missing page.\<close>

fun fetch_chunk :: "'a mem_st_scheme \<Rightarrow> u64 \<Rightarrow> u64 \<Rightarrow> nat \<Rightarrow> u8 list option option" where
  "fetch_chunk s pt ua 0 = Some (Some [])"
| "fetch_chunk s pt ua (Suc n) =
     do { a \<leftarrow> user_byte s pt False ua;
          (case a of
             None \<Rightarrow> Some None
           | Some a \<Rightarrow> map_option (map_option (Cons (pmem s a))) (fetch_chunk s pt (ua + 1) n)) }"

definition unknown_file_msg :: "u8 list" where
  "unknown_file_msg = [91, 84, 114, 97, 99, 101, 58, 32, 85, 78, 75, 78, 79, 87, 78, 32, 102, 105, 108, 101, 32,
     116, 121, 112, 101, 33, 93, 10]"

text \<open>After a chunk: the value to return, or the new total and what is left.\<close>

definition write_next :: "int \<Rightarrow> int \<Rightarrow> int \<Rightarrow> int \<Rightarrow> int + int \<times> int" where
  "write_next tot left chunk ret =
     (if ret < 0 then Inl (if 0 < tot then tot else -1)
      else if ret < chunk then Inl (tot + ret)
      else Inr (tot + ret, left - ret))"

lemma write_next_less: "write_next tot left chunk ret = Inr (t', l') \<Longrightarrow> 0 < chunk \<Longrightarrow> l' < left"
  by (auto simp: write_next_def split: if_splits)

text \<open>One chunk to its file: the result of the write, or where a pipe write sleeps.\<close>

definition write_chunk :: "nat \<Rightarrow> u8 list \<Rightarrow> 'a kst_scheme \<Rightarrow> ((u8 list \<times> nat) io \<times> 'a kst_scheme) option" where
  "write_chunk f buf s =
     (if f_type (ftable s f) = FD_CONSOLE then Some (Result (int (length buf)), fold console_print_char buf s)
      else if f_type (ftable s f) = FD_INODE then do { (r, s) \<leftarrow> filewrite f buf s; Some (Result r, s) }
      else pipewrite (f_pipe (ftable s f)) buf s)"

function write_loop :: "nat \<Rightarrow> u64 \<Rightarrow> int \<Rightarrow> int \<Rightarrow> 'a kst_scheme \<Rightarrow> (cont io \<times> 'a kst_scheme) option" where
  "write_loop f ua tot left s =
     (if left \<le> 0 then Some (Result tot, s)
      else let chunk = min left 128 in
        do { p \<leftarrow> myproc s;
             buf \<leftarrow> fetch_chunk s (pagetable (procs s p)) ua (nat chunk);
             (case buf of
                None \<Rightarrow> Some (Result (if 0 < tot then tot else -1), s)
              | Some buf \<Rightarrow>
                  if f_type (ftable s f) \<notin> {FD_CONSOLE, FD_INODE, FD_PIPE}
                  then Some (Result (-1), fold console_print_char unknown_file_msg s)
                  else do { (r, s') \<leftarrow> write_chunk f buf s;
                       (case r of
                          Blocked (bs, i) \<Rightarrow>
                            Some (Blocked (CWrite f (f_pipe (ftable s f)) bs i (ua + of_int chunk) tot left chunk), s')
                        | Result ret \<Rightarrow>
                            (case write_next tot left chunk ret of
                               Inl v \<Rightarrow> Some (Result v, s')
                             | Inr (tot', left') \<Rightarrow> write_loop f (ua + of_int chunk) tot' left' s')) }) })"
  by pat_completeness auto
termination
  by (relation "measure (\<lambda>(f, ua, tot, left, s). nat left)") (auto dest!: write_next_less)

declare write_loop.simps [simp del]

definition sys_write :: "'a kst_scheme \<Rightarrow> (cont io \<times> 'a kst_scheme) option" where
  "sys_write s =
     do { len \<leftarrow> argint 2 s;
          addr \<leftarrow> argaddr 1 s;
          r \<leftarrow> argfd 0 s;
          (case r of
             None \<Rightarrow> Some (Result (-1), s)
           | Some (fd, f) \<Rightarrow>
               if \<not> f_writable (ftable s f) then Some (Result (-1), s) else write_loop f addr 0 len s) }"

text \<open>A pipe write that slept goes on with the rest of its chunk, and then with the next chunks.\<close>

definition write_resume :: "nat \<Rightarrow> nat \<Rightarrow> u64 \<Rightarrow> u8 list \<Rightarrow> nat \<Rightarrow> u64 \<Rightarrow> int \<Rightarrow> int \<Rightarrow> int \<Rightarrow>
    'a kst_scheme \<Rightarrow> (cont io \<times> 'a kst_scheme) option" where
  "write_resume p f pi bs i ua tot left chunk s =
     do { (r, s) \<leftarrow> pipewrite_resume p pi bs i s;
          (case r of
             Blocked (bs, i) \<Rightarrow> Some (Blocked (CWrite f pi bs i ua tot left chunk), s)
           | Result ret \<Rightarrow>
               (case write_next tot left chunk ret of
                  Inl v \<Rightarrow> Some (Result v, s)
                | Inr (tot', left') \<Rightarrow> write_loop f ua tot' left' s)) }"

end
