(* ===== verification/Syscall_Proc.thy ===== *)
theory Syscall_Proc
  imports Syscall_File
begin

text \<open>
  System calls on processes: \<open>getpid\<close>, \<open>exit\<close>, \<open>wait\<close>,
  \<open>fork\<close> and \<open>sbrk\<close> of \<open>kernel/syscall/sysproc.c\<close>.
  \<open>fork\<close> copies 552 bytes of trapframe, the size of \<open>struct trapframe\<close>.
\<close>

definition sys_getpid :: "'a kst_scheme \<Rightarrow> (int \<times> 'a kst_scheme) option" where
  "sys_getpid s = do { p \<leftarrow> myproc s; Some (pid (procs s p), s) }"

section \<open>Exit\<close>

definition exit_close :: "nat \<Rightarrow> nat \<Rightarrow> 'a kst_scheme \<Rightarrow> 'a kst_scheme option" where
  "exit_close p fd s =
     (case ofile (procs s p) fd of
        None \<Rightarrow> Some s
      | Some f \<Rightarrow> do { s \<leftarrow> fileclose f s; Some (set_ofile p fd None s) })"

definition exit_cwd :: "nat \<Rightarrow> 'a kst_scheme \<Rightarrow> 'a kst_scheme option" where
  "exit_cwd p s =
     (case cwd (procs s p) of
        None \<Rightarrow> Some s
      | Some ip \<Rightarrow> do { s \<leftarrow> iput ip s; Some (upd_proc p (\<lambda>x. x\<lparr>cwd := None\<rparr>) s) })"

definition proc_exit :: "int \<Rightarrow> 'a kst_scheme \<Rightarrow> 'a kst_scheme option" where
  "proc_exit code s =
     do { p \<leftarrow> myproc s;
          s \<leftarrow> exit_mark (of_int code) s;
          s \<leftarrow> for_each (exit_close p) [0..<NOFILE] s;
          s \<leftarrow> exit_cwd p s;
          exit_tail s }"

definition sys_exit :: "'a kst_scheme \<Rightarrow> (cont io \<times> 'a kst_scheme) option" where
  "sys_exit s = do { code \<leftarrow> argint 0 s; s \<leftarrow> proc_exit code s; Some (Blocked CExited, s) }"

section \<open>Wait\<close>

text \<open>A pass over the process table, with \<open>p->lock\<close> held: a result to return, or whether there are children.\<close>

fun wait_scan :: "nat \<Rightarrow> u64 \<Rightarrow> nat list \<Rightarrow> bool \<Rightarrow> 'a kst_scheme \<Rightarrow> ((int + bool) \<times> 'a kst_scheme) option" where
  "wait_scan p addr [] kids s = Some (Inr kids, s)"
| "wait_scan p addr (i # is) kids s =
     (if parent (procs s i) = Some p
      then do { s \<leftarrow> acquire (LProc i) s;
                if status (procs s i) = TASK_ZOMBIE
                then do { let n = pid (procs s i);
                          (r, s) \<leftarrow> (if addr \<noteq> 0
                             then copyout s (pagetable (procs s p)) addr (le_bytes 4 (xstate (procs s i)))
                             else Some (0, s));
                          if r < 0 then Some (Inl (-1), release (LProc p) (release (LProc i) s))
                          else let s = upd_proc i (\<lambda>x. x\<lparr>status := TASK_FREE, pid := 0, parent := None, killed := False,
                                         xstate := 0, chan := CNull\<rparr>) s
                               in Some (Inl n, release (LProc p) (release (LProc i) s)) }
                else wait_scan p addr is True (release (LProc i) s) }
      else wait_scan p addr is kids s)"

definition wait_loop :: "nat \<Rightarrow> u64 \<Rightarrow> 'a kst_scheme \<Rightarrow> (cont io \<times> 'a kst_scheme) option" where
  "wait_loop p addr s =
     do { (r, s) \<leftarrow> wait_scan p addr [0..<NPROC] False s;
          (case r of
             Inl v \<Rightarrow> Some (Result v, s)
           | Inr kids \<Rightarrow>
               if \<not> kids \<or> killed (procs s p) then Some (Result (-1), release (LProc p) s)
               else do { s \<leftarrow> sleep_out (CProc p) (LProc p) s; Some (Blocked (CWait addr), s) }) }"

definition sys_wait :: "'a kst_scheme \<Rightarrow> (cont io \<times> 'a kst_scheme) option" where
  "sys_wait s =
     do { p \<leftarrow> myproc s;
          addr \<leftarrow> argaddr 0 s;
          s \<leftarrow> acquire (LProc p) s;
          wait_loop p addr s }"

definition wait_resume :: "nat \<Rightarrow> u64 \<Rightarrow> 'a kst_scheme \<Rightarrow> (cont io \<times> 'a kst_scheme) option" where
  "wait_resume p addr s = do { s \<leftarrow> sleep_in p (LProc p) s; wait_loop p addr s }"

section \<open>Fork\<close>

definition trapframe_size :: nat where "trapframe_size = 552"

definition set_status :: "nat \<Rightarrow> task_status \<Rightarrow> 'a proc_st_scheme \<Rightarrow> 'a proc_st_scheme option" where
  "set_status i st s =
     do { s \<leftarrow> acquire (LProc i) s;
          Some (release (LProc i) (upd_proc i (\<lambda>x. x\<lparr>status := st\<rparr>) s)) }"

definition fork_file :: "nat \<Rightarrow> nat \<Rightarrow> nat \<Rightarrow> 'a kst_scheme \<Rightarrow> 'a kst_scheme" where
  "fork_file p np i s =
     (case ofile (procs s p) i of
        None \<Rightarrow> s
      | Some f \<Rightarrow> filedup f (set_ofile np i (Some f) s))"

text \<open>With the memory copied: descriptors, parent, directory, and the child is ready.\<close>

definition fork_finish :: "nat \<Rightarrow> nat \<Rightarrow> 'a kst_scheme \<Rightarrow> (int \<times> 'a kst_scheme) option" where
  "fork_finish p np s =
     do { let s = upd_proc np (\<lambda>x. x\<lparr>psz := psz (procs s p)\<rparr>) s;
          let s = fold (fork_file p np) [0..<NOFILE] s;
          let s = upd_proc np (\<lambda>x. x\<lparr>parent := Some p\<rparr>) s;
          let s = (case cwd (procs s p) of
                     None \<Rightarrow> s
                   | Some ip \<Rightarrow> upd_proc np (\<lambda>x. x\<lparr>cwd := Some ip\<rparr>) (idup ip s));
          let path = (if cchar (cwd_path (procs s p)) 0 \<noteq> 0 then cwd_path (procs s p) else [47, 0]);
          let s = upd_proc np (\<lambda>x. x\<lparr>cwd_path := safestrcpy (cwd_path x) path (int MAXPATH)\<rparr>) s;
          s \<leftarrow> set_status np TASK_READY s;
          Some (pid (procs s np), s) }"

text \<open>From the trapframe copy on, with the child's page table in place.\<close>

definition fork_copy :: "nat \<Rightarrow> nat \<Rightarrow> 'a kst_scheme \<Rightarrow> (int \<times> 'a kst_scheme) option" where
  "fork_copy p np s =
     do { let tf = mem_read (pmem s) (trapframe (procs s p)) trapframe_size;
          let s = s\<lparr>pmem := mem_write (pmem s) (trapframe (procs s np)) tf\<rparr>;
          let s = s\<lparr>pmem := store64 (pmem s) (trapframe (procs s np) + tf_a0) 0\<rparr>;
          (r, s) \<leftarrow> uvmcopy s (pagetable (procs s p)) (pagetable (procs s np)) (psz (procs s p));
          if r < 0 then Some (-1, s) else fork_finish p np s }"

definition sys_fork :: "'a kst_scheme \<Rightarrow> (int \<times> 'a kst_scheme) option" where
  "sys_fork s =
     do { p \<leftarrow> myproc s;
          (r, s) \<leftarrow> allocproc s;
          (case r of
             None \<Rightarrow> Some (-1, s)
           | Some np \<Rightarrow>
               do { let (ks, s) = kalloc s;
                    let s = upd_proc np (\<lambda>x. x\<lparr>kstack := ks\<rparr>) s;
                    if ks = 0
                    then do { s \<leftarrow> kfree s (trapframe (procs s np));
                              s \<leftarrow> set_status np TASK_FREE s;
                              Some (-1, s) }
                    else do { let s = upd_proc np (\<lambda>x. x\<lparr>ctx_sp := kstack x + PGSIZE, ctx_ra := forkret_addr s\<rparr>) s;
                              (pt, s) \<leftarrow> proc_pagetable s (trapframe (procs s np));
                              let s = upd_proc np (\<lambda>x. x\<lparr>pagetable := pt\<rparr>) s;
                              if pt = 0
                              then do { s \<leftarrow> kfree s (kstack (procs s np));
                                        s \<leftarrow> kfree s (trapframe (procs s np));
                                        s \<leftarrow> set_status np TASK_FREE s;
                                        Some (-1, s) }
                              else fork_copy p np s } }) }"

section \<open>Growing the address space\<close>

definition sys_sbrk :: "'a kst_scheme \<Rightarrow> (int \<times> 'a kst_scheme) option" where
  "sys_sbrk s =
     do { n \<leftarrow> argint 0 s;
          p \<leftarrow> myproc s;
          let addr = sint (ucast (psz (procs s p)) :: u32);
          (r, s) \<leftarrow> growproc n s;
          Some (if r < 0 then -1 else addr, s) }"

end
