(* ===== verification/Exec.thy ===== *)
theory Exec
  imports Syscall_Proc
begin

text \<open>
  \<open>sys_exec\<close> of \<open>kernel/syscall/sysproc.c\<close>: the argument pages, the ELF loader, the
  new stack and the switch of address spaces. Every \<open>goto bad\<close> after \<open>namei\<close> is the
  inner \<^term>\<open>None\<close> of a step, which \<open>sys_exec\<close> turns into \<open>exec_bad\<close>. The
  \<open>goto bad\<close> of the argument loops runs into \<open>if (ip)\<close> with \<open>ip\<close> uninitialised: it is
  undefined behaviour and the outer \<^term>\<open>None\<close>.
\<close>

definition MAXARG :: nat where [kdefs]: "MAXARG = 32"
definition ELF_MAGIC :: u32 where [kdefs]: "ELF_MAGIC = 0x464C457F"
definition ELF_PROG_LOAD :: u32 where [kdefs]: "ELF_PROG_LOAD = 1"

record elfhdr =
  e_magic :: u32
  e_entry :: u64
  e_phoff :: u64
  e_phnum :: u16

definition decode_elfhdr :: "u8 list \<Rightarrow> elfhdr" where
  "decode_elfhdr b = \<lparr>e_magic = le_word (take 4 b), e_entry = le_word (take 8 (drop 24 b)),
     e_phoff = le_word (take 8 (drop 32 b)), e_phnum = le_word (take 2 (drop 56 b))\<rparr>"

record proghdr =
  ph_type :: u32
  ph_off :: u64
  ph_vaddr :: u64
  ph_filesz :: u64
  ph_memsz :: u64

definition decode_proghdr :: "u8 list \<Rightarrow> proghdr" where
  "decode_proghdr b = \<lparr>ph_type = le_word (take 4 b), ph_off = le_word (take 8 (drop 8 b)),
     ph_vaddr = le_word (take 8 (drop 16 b)), ph_filesz = le_word (take 8 (drop 32 b)),
     ph_memsz = le_word (take 8 (drop 40 b))\<rparr>"

section \<open>Messages\<close>

text \<open>The format strings of the diagnostics, in UTF-8.\<close>

definition msg_short :: "u8 list" where
  "msg_short = [10, 91, 69, 88, 69, 67, 32, 70, 65, 84, 65, 76, 93, 32, 69, 76, 70, 32, 229, 164, 180, 232, 175,
     187, 229, 143, 150, 229, 164, 177, 232, 180, 165, 239, 188, 129, 229, 143, 170, 232, 175, 187, 229,
     136, 176, 228, 186, 134, 32, 37, 100, 32, 229, 173, 151, 232, 138, 130, 239, 188, 136, 230, 150,
     135, 228, 187, 182, 229, 143, 175, 232, 131, 189, 230, 152, 175, 231, 169, 186, 231, 154, 132, 239,
     188, 137, 10]"

definition msg_magic :: "u8 list" where
  "msg_magic = [10, 91, 69, 88, 69, 67, 32, 70, 65, 84, 65, 76, 93, 32, 69, 76, 70, 32, 230, 160, 188, 229, 188,
     143, 230, 141, 159, 229, 157, 143, 239, 188, 129, 10]"

definition msg_want :: "u8 list" where
  "msg_want = [32, 45, 62, 32, 230, 156, 159, 230, 156, 155, 231, 154, 132, 233, 173, 148, 230, 149, 176, 32, 40,
     69, 76, 70, 95, 77, 65, 71, 73, 67, 41, 58, 32, 48, 120, 37, 108, 120, 10]"

definition msg_got :: "u8 list" where
  "msg_got = [32, 45, 62, 32, 229, 174, 158, 233, 153, 133, 232, 175, 187, 229, 136, 176, 231, 154, 132, 233,
     173, 148, 230, 149, 176, 58, 32, 48, 120, 37, 120, 10]"

definition msg_readi :: "u8 list" where
  "msg_readi = [10, 91, 69, 88, 69, 67, 32, 70, 65, 84, 65, 76, 93, 32, 114, 101, 97, 100, 105, 32, 231, 191, 187,
     232, 189, 166, 231, 142, 176, 229, 156, 186, 239, 188, 129, 10]"

definition msg_vaddr :: "u8 list" where
  "msg_vaddr = [32, 45, 62, 32, 229, 189, 147, 229, 137, 141, 32, 69, 76, 70, 32, 230, 174, 181, 32, 118, 97, 100,
     100, 114, 32, 58, 32, 48, 120, 37, 108, 120, 10]"

definition msg_n :: "u8 list" where
  "msg_n = [32, 45, 62, 32, 230, 131, 179, 232, 166, 129, 232, 175, 187, 229, 143, 150, 231, 154, 132, 229,
     173, 151, 232, 138, 130, 230, 149, 176, 32, 110, 58, 32, 37, 100, 10]"

definition msg_r :: "u8 list" where
  "msg_r = [32, 45, 62, 32, 229, 174, 158, 233, 153, 133, 232, 175, 187, 229, 136, 176, 231, 154, 132, 229,
     173, 151, 232, 138, 130, 230, 149, 176, 32, 114, 58, 32, 37, 100, 10]"

definition msg_off :: "u8 list" where
  "msg_off = [32, 45, 62, 32, 231, 191, 187, 232, 189, 166, 230, 151, 182, 231, 154, 132, 230, 150, 135, 228,
     187, 182, 229, 129, 143, 231, 167, 187, 32, 102, 105, 108, 101, 95, 111, 102, 102, 58, 32, 37, 100,
     10]"

section \<open>Arguments\<close>

text \<open>A string in kernel memory; \<^term>\<open>None\<close> when it has no end.\<close>

partial_function (option) kernel_strlen_loop :: "mem \<Rightarrow> u64 \<Rightarrow> nat \<Rightarrow> nat option" where
  "kernel_strlen_loop m s len = (if m (s + of_nat len) \<noteq> 0 then kernel_strlen_loop m s (Suc len) else Some len)"

definition kernel_strlen :: "mem \<Rightarrow> u64 \<Rightarrow> nat option" where
  "kernel_strlen m s = kernel_strlen_loop m s 0"

text \<open>Pointer \<open>i\<close> and the following ones, at most \<open>k\<close>, each copied to a page of its own.\<close>

fun exec_args :: "u64 \<Rightarrow> nat \<Rightarrow> nat \<Rightarrow> u64 list \<Rightarrow> 'a kst_scheme \<Rightarrow> (u64 list \<times> 'a kst_scheme) option" where
  "exec_args ua i 0 acc s = Some (acc, s)"
| "exec_args ua i (Suc k) acc s =
     do { r \<leftarrow> fetchaddr (ua + 8 * of_nat i) s;
          (case r of
             None \<Rightarrow> None
           | Some uarg \<Rightarrow>
               if uarg = 0 then Some (acc, s)
               else let (page, s) = kalloc s in
                 if page = 0 then None
                 else do { (n, _, s) \<leftarrow> fetchstr uarg (Some page) 4096 s;
                           if n < 0 then None else exec_args ua (Suc i) k (acc @ [page]) s }) }"

definition free_arg :: "u64 list \<Rightarrow> u64 list \<Rightarrow> nat \<Rightarrow> 'a mem_st_scheme \<Rightarrow> 'a mem_st_scheme option" where
  "free_arg argv env i s =
     do { s \<leftarrow> (if i < length argv then kfree s (argv ! i) else Some s);
          if i < length env then kfree s (env ! i) else Some s }"

definition free_args :: "u64 list \<Rightarrow> u64 list \<Rightarrow> 'a mem_st_scheme \<Rightarrow> 'a mem_st_scheme option" where
  "free_args argv env s = for_each (free_arg argv env) [0..<MAXARG] s"

text \<open>The label \<open>bad\<close>.\<close>

definition exec_bad :: "u64 list \<Rightarrow> u64 list \<Rightarrow> u64 \<Rightarrow> nat option \<Rightarrow> 'a kst_scheme \<Rightarrow> (int \<times> 'a kst_scheme) option" where
  "exec_bad argv env new_pagetable ip s =
     do { p \<leftarrow> myproc s;
          s \<leftarrow> free_args argv env s;
          s \<leftarrow> (if new_pagetable \<noteq> 0 then proc_freepagetable s (trapframe (procs s p)) new_pagetable else Some s);
          s \<leftarrow> (case ip of None \<Rightarrow> Some s | Some ip \<Rightarrow> iunlockput ip s);
          Some (-1, s) }"

section \<open>Loading segments\<close>

text \<open>One page of a segment: allocated, zeroed and mapped; False is \<open>goto bad\<close>.\<close>

definition exec_page :: "u64 \<Rightarrow> u64 \<Rightarrow> u64 \<Rightarrow> 'a mem_st_scheme \<Rightarrow> (bool \<times> 'a mem_st_scheme) option" where
  "exec_page pt a perm s =
     (let (pa, s) = kalloc s in
      if pa = 0 then Some (False, s)
      else do { (r, s) \<leftarrow> mappages (s\<lparr>pmem := memset (pmem s) pa 0 4096\<rparr>) pt pa a PGSIZE perm;
                if r < 0 then do { s \<leftarrow> kfree s pa; Some (False, s) } else Some (True, s) })"

lemma exec_page_SomeD: "exec_page pt a perm s = Some (True, s') \<Longrightarrow> unat a < unat MAXVA + 4096"
  by (auto simp: exec_page_def Let_def split: prod.splits if_splits elim!: bind_eq_SomeE dest!: mappages_SomeD)

function exec_map :: "u64 \<Rightarrow> u64 \<Rightarrow> u64 \<Rightarrow> 'a mem_st_scheme \<Rightarrow> (bool \<times> 'a mem_st_scheme) option" where
  "exec_map pt a va_end s =
     (if a < va_end
      then do { (ok, s') \<leftarrow> exec_page pt a (PTE_R OR PTE_W OR PTE_X OR PTE_U) s;
                if ok then exec_map pt (a + PGSIZE) va_end s' else Some (False, s') }
      else Some (True, s))"
  by pat_completeness auto
termination
  by (relation "measure (\<lambda>(pt, a, va_end, s). unat MAXVA + 4096 - unat a)")
    (auto dest!: exec_page_SomeD MAXVA_step')

declare exec_map.simps [simp del]

lemma seg_step:
  assumes "0 < (file_sz :: u64)"
  shows "file_sz - (if file_sz < PGSIZE - (va - PGROUNDDOWN va) then file_sz else PGSIZE - (va - PGROUNDDOWN va)) < file_sz"
proof -
  let ?o = "va - PGROUNDDOWN va"
  have o: "unat ?o < 4096" by (rule page_off_lt)
  then have "?o < PGSIZE" by (simp add: word_less_nat_alt PGSIZE_def)
  then have "unat (PGSIZE - ?o) = 4096 - unat ?o" by (simp add: unat_sub PGSIZE_def)
  then have pos: "0 < PGSIZE - ?o" using o by (simp add: word_less_nat_alt)
  have "x - y < x" if "0 < y" "y \<le> x" for x y :: u64
    using that unat_sub [of y x] by (simp add: word_less_nat_alt word_le_nat_alt)
  then show ?thesis using pos assms by auto
qed

text \<open>The bytes of a segment go straight into its pages.\<close>

function exec_load :: "nat \<Rightarrow> u64 \<Rightarrow> u64 \<Rightarrow> u64 \<Rightarrow> u64 \<Rightarrow> u64 \<Rightarrow> 'a kst_scheme \<Rightarrow> (bool \<times> 'a kst_scheme) option" where
  "exec_load ip pt vaddr seg_va file_off file_sz s =
     (if 0 < file_sz
      then let a = PGROUNDDOWN seg_va; offset_in_page = seg_va - a; n = PGSIZE - offset_in_page;
               n = (if file_sz < n then file_sz else n) in
        do { (pte, s) \<leftarrow> walk s pt a False;
             if pte = 0 \<or> load64 (pmem s) pte AND PTE_V = 0 then Some (False, s)
             else do { (got, s) \<leftarrow> readi s ip (DKern (PTE2PA (load64 (pmem s) pte) + offset_in_page)) (ucast file_off) (ucast n);
                       if of_nat (length got) \<noteq> n
                       then do { s \<leftarrow> printf msg_readi [] s;
                                 s \<leftarrow> printf msg_vaddr [PW vaddr] s;
                                 s \<leftarrow> printf msg_n [PW n] s;
                                 s \<leftarrow> printf msg_r [PW (of_nat (length got))] s;
                                 s \<leftarrow> printf msg_off [PW file_off] s;
                                 Some (False, s) }
                       else exec_load ip pt vaddr (seg_va + n) (file_off + n) (file_sz - n) s } }
      else Some (True, s))"
  by pat_completeness auto
termination
proof (relation "measure (\<lambda>(ip, pt, vaddr, seg_va, file_off, file_sz, s). unat file_sz)", goal_cases)
  case (2 ip pt vaddr seg_va file_off file_sz s a off n n')
  then show ?case using seg_step [of file_sz seg_va] by (simp add: word_less_nat_alt split: if_splits)
qed simp

declare exec_load.simps [simp del]

text \<open>The segments from number \<open>i\<close> on; the result is the new size.\<close>

fun exec_segments :: "nat \<Rightarrow> u64 \<Rightarrow> nat \<Rightarrow> u32 \<Rightarrow> u64 \<Rightarrow> 'a kst_scheme \<Rightarrow> (u64 option \<times> 'a kst_scheme) option" where
  "exec_segments ip pt 0 off sz s = Some (Some sz, s)"
| "exec_segments ip pt (Suc k) off sz s =
     do { (b, s) \<leftarrow> readi s ip DLocal off 56;
          if length b \<noteq> 56 then Some (None, s)
          else let ph = decode_proghdr b in
            if ph_type ph \<noteq> ELF_PROG_LOAD then exec_segments ip pt k (off + 56) sz s
            else if ph_memsz ph < ph_filesz ph \<or> ph_vaddr ph + ph_memsz ph < ph_vaddr ph then Some (None, s)
            else do { (ok, s) \<leftarrow> exec_map pt (PGROUNDDOWN (ph_vaddr ph)) (PGROUNDUP (ph_vaddr ph + ph_memsz ph)) s;
                      if \<not> ok then Some (None, s)
                      else do { (ok, s) \<leftarrow> exec_load ip pt (ph_vaddr ph) (ph_vaddr ph) (ph_off ph) (ph_filesz ph) s;
                                if \<not> ok then Some (None, s)
                                else exec_segments ip pt k (off + 56) (max sz (ph_vaddr ph + ph_memsz ph)) s } } }"

text \<open>Reading and checking the header, the page table and the segments, with \<open>ip\<close> locked. The
  results: the new page table (0 when there is none yet), and the header and size unless \<open>goto bad\<close>.\<close>

definition exec_image :: "nat \<Rightarrow> 'a kst_scheme \<Rightarrow> (u64 \<times> (elfhdr \<times> u64) option \<times> 'a kst_scheme) option" where
  "exec_image ip s =
     do { p \<leftarrow> myproc s;
          (b, s) \<leftarrow> readi s ip DLocal 0 64;
          if length b \<noteq> 64
          then do { s \<leftarrow> printf msg_short [PW (of_nat (length b))] s; Some (0, None, s) }
          else let elf = decode_elfhdr b in
            if e_magic elf \<noteq> ELF_MAGIC
            then do { s \<leftarrow> printf msg_magic [] s;
                      s \<leftarrow> printf msg_want [PW (ucast ELF_MAGIC)] s;
                      s \<leftarrow> printf msg_got [PW (ucast (e_magic elf))] s;
                      Some (0, None, s) }
            else do { (b, s) \<leftarrow> readi s ip DLocal 0 64;
                      let elf = decode_elfhdr b;
                      if length b \<noteq> 64 \<or> e_magic elf \<noteq> ELF_MAGIC then Some (0, None, s)
                      else do { (pt, s) \<leftarrow> proc_pagetable s (trapframe (procs s p));
                                if pt = 0 then Some (0, None, s)
                                else do { (r, s) \<leftarrow> exec_segments ip pt (unat (e_phnum elf)) (ucast (e_phoff elf)) 0 s;
                                          Some (pt, map_option (Pair elf) r, s) } } } }"

section \<open>The stack\<close>

text \<open>The page with \<open>li a7, SYS_exit; li a0, 0; ecall\<close>, to which a returning program goes.\<close>

definition exit_code :: "u8 list" where
  "exit_code = le_bytes 4 (0x00200893 :: u32) @ le_bytes 4 (0x00000513 :: u32) @ le_bytes 4 (0x00000073 :: u32)"

definition exec_exitstub :: "u64 \<Rightarrow> u64 \<Rightarrow> 'a mem_st_scheme \<Rightarrow> (bool \<times> 'a mem_st_scheme) option" where
  "exec_exitstub pt exitstub s =
     (let (pa, s) = kalloc s in
      if pa = 0 then Some (False, s)
      else let s = s\<lparr>pmem := memset (pmem s) pa 0 4096\<rparr>; s = s\<lparr>pmem := mem_write (pmem s) pa exit_code\<rparr>
        in do { (r, s) \<leftarrow> mappages s pt pa exitstub PGSIZE (PTE_R OR PTE_X OR PTE_U);
                if r < 0 then do { s \<leftarrow> kfree s pa; Some (False, s) } else Some (True, s) })"

fun exec_stack :: "u64 \<Rightarrow> u64 \<Rightarrow> nat list \<Rightarrow> 'a mem_st_scheme \<Rightarrow> (bool \<times> 'a mem_st_scheme) option" where
  "exec_stack pt sz [] s = Some (True, s)"
| "exec_stack pt sz (i # is) s =
     do { (ok, s) \<leftarrow> exec_page pt (sz + of_nat i * PGSIZE) (PTE_R OR PTE_W OR PTE_U) s;
          if ok then exec_stack pt sz is s else Some (False, s) }"

text \<open>\<open>sp -= len; sp -= sp % 16\<close>, the check against the stack base and the copy.\<close>

definition exec_push :: "u64 \<Rightarrow> u64 \<Rightarrow> u64 \<Rightarrow> u8 list \<Rightarrow> 'a mem_st_scheme \<Rightarrow> (u64 option \<times> 'a mem_st_scheme) option" where
  "exec_push pt stackbase sp bs s =
     (let sp = sp - of_nat (length bs); sp = sp - sp mod 16 in
      if sp < stackbase then Some (None, s)
      else do { (r, s) \<leftarrow> copyout s pt sp bs; Some (if r < 0 then None else Some sp, s) })"

text \<open>The strings of the pages, one after the other; the result is the stack pointer and their addresses.\<close>

fun exec_strings ::
  "u64 \<Rightarrow> u64 \<Rightarrow> u64 \<Rightarrow> u64 list \<Rightarrow> u64 list \<Rightarrow> 'a mem_st_scheme \<Rightarrow> ((u64 \<times> u64 list) option \<times> 'a mem_st_scheme) option" where
  "exec_strings pt stackbase sp [] acc s = Some (Some (sp, acc), s)"
| "exec_strings pt stackbase sp (a # as) acc s =
     do { len \<leftarrow> kernel_strlen (pmem s) a;
          (r, s) \<leftarrow> exec_push pt stackbase sp (mem_read (pmem s) a (len + 1)) s;
          (case r of
             None \<Rightarrow> Some (None, s)
           | Some sp \<Rightarrow> exec_strings pt stackbase sp as (acc @ [sp]) s) }"

definition pointers :: "u64 list \<Rightarrow> u8 list" where
  "pointers as = concat (map (le_bytes 8) (as @ [0]))"

text \<open>Strings and pointer arrays: the final \<open>sp\<close>, \<open>argv_user\<close> and \<open>envp_user\<close>.\<close>

definition exec_vectors ::
  "u64 \<Rightarrow> u64 \<Rightarrow> u64 \<Rightarrow> u64 list \<Rightarrow> u64 list \<Rightarrow> 'a mem_st_scheme \<Rightarrow> ((u64 \<times> u64) option \<times> 'a mem_st_scheme) option" where
  "exec_vectors pt stackbase sp argv env s =
     do { (r, s) \<leftarrow> exec_strings pt stackbase sp argv [] s;
          (case r of
             None \<Rightarrow> Some (None, s)
           | Some (sp, ustack) \<Rightarrow>
         do { (r, s) \<leftarrow> exec_strings pt stackbase sp env [] s;
              (case r of
                 None \<Rightarrow> Some (None, s)
               | Some (sp, envstack) \<Rightarrow>
             do { (r, s) \<leftarrow> exec_push pt stackbase sp (pointers envstack) s;
                  (case r of
                     None \<Rightarrow> Some (None, s)
                   | Some envp_user \<Rightarrow>
                 do { (r, s) \<leftarrow> exec_push pt stackbase envp_user (pointers ustack) s;
                      Some (map_option (\<lambda>argv_user. (argv_user, envp_user)) r, s) }) }) }) }"

text \<open>The user part of the new address space above the segments: the exit page, 32 stack pages and
  the vectors. The result: the new size, \<open>exitstub\<close>, \<open>argv_user\<close> and \<open>envp_user\<close>.\<close>

definition exec_space ::
  "u64 \<Rightarrow> u64 \<Rightarrow> u64 list \<Rightarrow> u64 list \<Rightarrow> 'a mem_st_scheme \<Rightarrow> ((u64 \<times> u64 \<times> u64 \<times> u64) option \<times> 'a mem_st_scheme) option" where
  "exec_space pt sz argv env s =
     do { let exitstub = PGROUNDUP sz;
          (ok, s) \<leftarrow> exec_exitstub pt exitstub s;
          if \<not> ok then Some (None, s)
          else do { let stackbase = exitstub + PGSIZE;
                    (ok, s) \<leftarrow> exec_stack pt stackbase [0..<32] s;
                    if \<not> ok then Some (None, s)
                    else do { let top = stackbase + 32 * PGSIZE;
                              (r, s) \<leftarrow> exec_vectors pt stackbase top argv env s;
                              Some (map_option (\<lambda>(argv_user, envp_user). (top, exitstub, argv_user, envp_user)) r, s) } } }"

section \<open>The system call\<close>

text \<open>Step 7: the process gets the new address space and registers.\<close>

definition exec_switch :: "nat \<Rightarrow> u64 \<Rightarrow> u64 \<Rightarrow> u64 \<Rightarrow> u64 \<Rightarrow> u64 \<Rightarrow> nat \<Rightarrow> u64 \<Rightarrow> 'a proc_st_scheme \<Rightarrow> 'a proc_st_scheme" where
  "exec_switch p pt sz entry exitstub argv_user argc envp_user s =
     (let s = upd_proc p (\<lambda>x. x\<lparr>pagetable := pt, psz := sz\<rparr>) s;
          tf = trapframe (procs s p);
          m = memset (pmem s) tf 0 4096;
          m = store64 m (tf + 24) entry;
          m = store64 m (tf + 40) exitstub;
          m = store64 m (tf + 48) argv_user;
          m = store64 m (tf + 112) (of_nat argc);
          m = store64 m (tf + 120) argv_user;
          m = store64 m (tf + 128) envp_user
      in s\<lparr>pmem := m\<rparr>)"

definition exec_commit ::
  "u64 \<Rightarrow> elfhdr \<Rightarrow> u64 list \<Rightarrow> u64 list \<Rightarrow> u64 \<times> u64 \<times> u64 \<times> u64 \<Rightarrow> 'a kst_scheme \<Rightarrow> (int \<times> 'a kst_scheme) option" where
  "exec_commit pt elf argv env layout s =
     (case layout of (sz, exitstub, argv_user, envp_user) \<Rightarrow>
      do { p \<leftarrow> myproc s;
           let old_pagetable = pagetable (procs s p);
           let s = exec_switch p pt sz (e_entry elf) exitstub argv_user (length argv) envp_user s;
           s \<leftarrow> free_args argv env s;
           s \<leftarrow> (if old_pagetable \<noteq> 0 then proc_freepagetable s (trapframe (procs s p)) old_pagetable else Some s);
           Some (int (length argv), s) })"

text \<open>From \<open>namei\<close> on, with the arguments in their pages.\<close>

definition exec_file :: "u8 list \<Rightarrow> u64 list \<Rightarrow> u64 list \<Rightarrow> 'a kst_scheme \<Rightarrow> (int \<times> 'a kst_scheme) option" where
  "exec_file path argv env s =
     do { (r, s) \<leftarrow> namei s path;
          (case r of
             None \<Rightarrow> exec_bad argv env 0 None s
           | Some ip \<Rightarrow>
               do { s \<leftarrow> ilock ip s;
                    (pt, r, s) \<leftarrow> exec_image ip s;
                    (case r of
                       None \<Rightarrow> exec_bad argv env pt (Some ip) s
                     | Some (elf, sz) \<Rightarrow>
                         do { s \<leftarrow> iunlockput ip s;
                              (r, s) \<leftarrow> exec_space pt sz argv env s;
                              (case r of
                                 None \<Rightarrow> exec_bad argv env pt None s
                               | Some layout \<Rightarrow> exec_commit pt elf argv env layout s) }) }) }"

definition sys_exec :: "'a kst_scheme \<Rightarrow> (int \<times> 'a kst_scheme) option" where
  "sys_exec s =
     do { path \<leftarrow> argstr 0 128 s;
          uargv \<leftarrow> argaddr 1 s;
          uenvp \<leftarrow> argaddr 2 s;
          (case path of
             None \<Rightarrow> Some (-1, s)
           | Some path \<Rightarrow>
               do { (argv, s) \<leftarrow> exec_args uargv 0 MAXARG [] s;
                    (env, s) \<leftarrow> (if uenvp \<noteq> 0 then exec_args uenvp 0 MAXARG [] s else Some ([], s));
                    exec_file path argv env s }) }"

end
