(* ===== verification/Syscall.thy ===== *)
theory Syscall
  imports Exec
begin

text \<open>
  The dispatcher \<open>syscall\<close> of \<open>kernel/syscall/syscall.c\<close> and the continuation of
  suspended calls. The dispatch table \<open>syscalls\<close> is a function from call numbers to
  handlers, \<^term>\<open>None\<close> for an empty entry.
\<close>

definition SYS_fork :: int where [kdefs]: "SYS_fork = 1"
definition SYS_exit :: int where [kdefs]: "SYS_exit = 2"
definition SYS_wait :: int where [kdefs]: "SYS_wait = 3"
definition SYS_getpid :: int where [kdefs]: "SYS_getpid = 11"
definition SYS_sbrk :: int where [kdefs]: "SYS_sbrk = 12"
definition SYS_exec :: int where [kdefs]: "SYS_exec = 13"
definition SYS_open :: int where [kdefs]: "SYS_open = 15"
definition SYS_write :: int where [kdefs]: "SYS_write = 16"
definition SYS_read :: int where [kdefs]: "SYS_read = 17"
definition SYS_close :: int where [kdefs]: "SYS_close = 18"
definition SYS_fstat :: int where [kdefs]: "SYS_fstat = 19"
definition SYS_mkdir :: int where [kdefs]: "SYS_mkdir = 20"
definition SYS_chdir :: int where [kdefs]: "SYS_chdir = 21"
definition SYS_pipe :: int where [kdefs]: "SYS_pipe = 22"
definition SYS_dup :: int where [kdefs]: "SYS_dup = 23"
definition SYS_unlink :: int where [kdefs]: "SYS_unlink = 24"
definition SYS_lseek :: int where [kdefs]: "SYS_lseek = 25"
definition SYS_ftruncate :: int where [kdefs]: "SYS_ftruncate = 26"
definition SYS_ioctl :: int where [kdefs]: "SYS_ioctl = 27"
definition SYS_rename :: int where [kdefs]: "SYS_rename = 28"
definition SYS_getcwd :: int where [kdefs]: "SYS_getcwd = 29"
definition SYS_dup2 :: int where [kdefs]: "SYS_dup2 = 30"
definition SYS_fcntl :: int where [kdefs]: "SYS_fcntl = 31"

type_synonym 'a handler = "'a kst_scheme \<Rightarrow> (cont io \<times> 'a kst_scheme) option"

definition syscalls :: "int \<Rightarrow> 'a handler option" where
  "syscalls num =
     (if num = SYS_getpid then Some (\<lambda>s. lift_result (sys_getpid s))
      else if num = SYS_exit then Some sys_exit
      else if num = SYS_fork then Some (\<lambda>s. lift_result (sys_fork s))
      else if num = SYS_write then Some sys_write
      else if num = SYS_wait then Some sys_wait
      else if num = SYS_exec then Some (\<lambda>s. lift_result (sys_exec s))
      else if num = SYS_open then Some (\<lambda>s. lift_result (sys_open s))
      else if num = SYS_read then Some sys_read
      else if num = SYS_close then Some (\<lambda>s. lift_result (sys_close s))
      else if num = SYS_fstat then Some (\<lambda>s. lift_result (sys_fstat s))
      else if num = SYS_mkdir then Some (\<lambda>s. lift_result (sys_mkdir s))
      else if num = SYS_chdir then Some (\<lambda>s. lift_result (sys_chdir s))
      else if num = SYS_pipe then Some (\<lambda>s. lift_result (sys_pipe s))
      else if num = SYS_dup then Some (\<lambda>s. lift_result (sys_dup s))
      else if num = SYS_unlink then Some (\<lambda>s. lift_result (sys_unlink s))
      else if num = SYS_sbrk then Some (\<lambda>s. lift_result (sys_sbrk s))
      else if num = SYS_lseek then Some (\<lambda>s. lift_result (sys_lseek s))
      else if num = SYS_ftruncate then Some (\<lambda>s. lift_result (sys_ftruncate s))
      else if num = SYS_ioctl then Some (\<lambda>s. lift_result (sys_ioctl s))
      else if num = SYS_rename then Some (\<lambda>s. lift_result (sys_rename s))
      else if num = SYS_getcwd then Some (\<lambda>s. lift_result (sys_getcwd s))
      else if num = SYS_dup2 then Some (\<lambda>s. lift_result (sys_dup2 s))
      else if num = SYS_fcntl then Some (\<lambda>s. lift_result (sys_fcntl s))
      else None)"

text \<open>The result goes to \<open>a0\<close> of the trapframe when the handler returns.\<close>

definition syscall_return :: "nat \<Rightarrow> cont io \<times> 'a kst_scheme \<Rightarrow> cont io \<times> 'a kst_scheme" where
  "syscall_return p r =
     (case r of
        (Result v, s) \<Rightarrow> (Result v, s\<lparr>pmem := store64 (pmem s) (trapframe (procs s p) + tf_a0) (of_int v)\<rparr>)
      | (Blocked c, s) \<Rightarrow> (Blocked c, s))"

definition syscall :: "'a kst_scheme \<Rightarrow> (cont io \<times> 'a kst_scheme) option" where
  "syscall s =
     do { p \<leftarrow> myproc s;
          let num = sint (ucast (load64 (pmem s) (trapframe (procs s p) + tf_a7)) :: u32);
          map_option (syscall_return p)
            (case (if 1 \<le> num \<and> num < 32 then syscalls num else None) of
               Some h \<Rightarrow> h s
             | None \<Rightarrow> Some (Result (-1), s)) }"

text \<open>A suspended call goes on when its process has been switched to.\<close>

fun resume_call :: "nat \<Rightarrow> cont \<Rightarrow> 'a handler" where
  "resume_call p (CWrite f pi bs i ua tot left chunk) s = write_resume p f pi bs i ua tot left chunk s"
| "resume_call p (CReadPipe pi addr n) s = pipe_read_resume p pi addr n s"
| "resume_call p (CReadCons ua n i) s = cons_read_resume p ua n i s"
| "resume_call p (CWait addr) s = wait_resume p addr s"
| "resume_call p CExited s = None"  \<comment> \<open>panic: exit reached unreachable code\<close>

definition syscall_resume :: "nat \<Rightarrow> cont \<Rightarrow> 'a handler" where
  "syscall_resume p c s = map_option (syscall_return p) (resume_call p c s)"

end
