(* ===== verification/Descriptor_Inv.thy ===== *)
theory Descriptor_Inv
  imports Syscall
begin

text \<open>
  The reference counts of the open files are exact before and after every system call:
  whatever its arguments, and whether it returns, fails, sleeps or exits, \<open>f->ref\<close> is the
  number of descriptors of all processes that name the file, and a dead process has none. The
  operations that touch no descriptor keep a view of the state, \<open>fd_view\<close>; the others go
  through the contract of the descriptor table (\<open>fd_table\<close> in \<open>File\<close>).
\<close>

section \<open>The view\<close>

definition running :: "proc_rec \<Rightarrow> bool" where
  "running x \<longleftrightarrow> status x = TASK_RUNNING"

definition fd_view :: "'a kst_scheme \<Rightarrow> (nat \<Rightarrow> (nat \<Rightarrow> nat option) \<times> bool \<times> bool) \<times> (nat \<Rightarrow> int) \<times> nat option" where
  "fd_view s = (\<lambda>p. (ofile (procs s p), dead (procs s p), running (procs s p)), \<lambda>f. f_ref (ftable s f), myproc s)"

named_theorems view

lemma fd_view_keep: "fd_view s' = fd_view s \<Longrightarrow> fd_keep s s'"
  by (auto simp: fd_view_def fd_keep_def procs_keep_def fun_eq_iff)

lemma fd_view_myproc: "fd_view s' = fd_view s \<Longrightarrow> myproc s' = myproc s"
  by (simp add: fd_view_def)

lemma view_off [view]: "off_disk s' = off_disk s \<Longrightarrow> fd_view s' = fd_view s"
  using off_disk_eqD(1,6) [of s' s] ftable_off [of s' s] by (auto simp: fd_view_def)

lemma view_pmem [simp]: "fd_view (s\<lparr>pmem := m\<rparr>) = fd_view s" "fd_view (s\<lparr>locks := l\<rparr>) = fd_view s"
  by (simp_all add: fd_view_def myproc_def)

lemma view_release [simp]: "fd_view (release lk s) = fd_view s"
  by (simp add: fd_view_def) (auto simp: lock_defs Let_def myproc_def)

lemma view_acquire [view]: "acquire lk s = Some s' \<Longrightarrow> fd_view s' = fd_view s"
  using procs_lock(2) [of lk s s'] ftable_lock(2) [of lk s s']
  by (simp add: fd_view_def) (auto simp: lock_defs Let_def myproc_def split: if_splits)

lemma view_upd_proc [simp]:
  "ofile (g (procs s p)) = ofile (procs s p) \<Longrightarrow> dead (g (procs s p)) = dead (procs s p) \<Longrightarrow>
   running (g (procs s p)) = running (procs s p) \<Longrightarrow> fd_view (upd_proc p g s) = fd_view s"
  by (auto simp: fd_view_def upd_proc_def myproc_def fun_eq_iff)

lemma view_upd_file [simp]: "f_ref (g (ftable s f)) = f_ref (ftable s f) \<Longrightarrow> fd_view (upd_file f g s) = fd_view s"
  by (auto simp: fd_view_def fun_eq_iff)

lemma view_disk [simp]: "fd_view (upd_inode ip g s) = fd_view s" "fd_view (idup ip s) = fd_view s"
  "fd_view (brelse b s) = fd_view s"
  by (rule view_off, simp)+

lemma running_upd [simp]:
  "running (x\<lparr>pagetable := a\<rparr>) = running x" "running (x\<lparr>psz := b\<rparr>) = running x" "running (x\<lparr>cwd := c\<rparr>) = running x"
  "running (x\<lparr>cwd_path := d\<rparr>) = running x" "running (x\<lparr>parent := e\<rparr>) = running x" "running (x\<lparr>kstack := a\<rparr>) = running x"
  "running (x\<lparr>ctx_sp := a\<rparr>) = running x" "running (x\<lparr>ctx_ra := a\<rparr>) = running x" "running (x\<lparr>trapframe := a\<rparr>) = running x"
  "running (x\<lparr>chan := h\<rparr>) = running x" "running (x\<lparr>ofile := i\<rparr>) = running x"
  by (simp_all add: running_def)

lemma dead_upd [simp]:
  "dead (x\<lparr>pagetable := a\<rparr>) = dead x" "dead (x\<lparr>psz := b\<rparr>) = dead x" "dead (x\<lparr>cwd := c\<rparr>) = dead x"
  "dead (x\<lparr>cwd_path := d\<rparr>) = dead x" "dead (x\<lparr>parent := e\<rparr>) = dead x" "dead (x\<lparr>kstack := a\<rparr>) = dead x"
  "dead (x\<lparr>ctx_sp := a\<rparr>) = dead x" "dead (x\<lparr>ctx_ra := a\<rparr>) = dead x" "dead (x\<lparr>trapframe := a\<rparr>) = dead x"
  "dead (x\<lparr>chan := h\<rparr>) = dead x"
  by (simp_all add: dead_def)

lemma view_wakeup_one [view]: "wakeup_one ch i s = Some s' \<Longrightarrow> fd_view s' = fd_view s"
  by (auto simp: wakeup_one_def Let_def dead_def running_def elim!: bind_eq_SomeE split: if_splits dest!: view)

lemma view_wakeup [view]: "wakeup ch s = Some s' \<Longrightarrow> fd_view s' = fd_view s"
proof -
  have "for_each (wakeup_one ch) is s = Some s' \<Longrightarrow> fd_view s' = fd_view s" for "is"
    by (induction "is" arbitrary: s) (auto elim!: bind_eq_SomeE dest!: view)
  then show "wakeup ch s = Some s' \<Longrightarrow> fd_view s' = fd_view s" by (simp add: wakeup_def)
qed

lemma view_pipe_put [simp]: "fd_view (pipe_put pi v s) = fd_view s"
  by (simp add: pipe_put_def)

lemma view_putc [simp]: "fd_view (uart_putc c s) = fd_view s"
  by (simp add: fd_view_def uart_putc_def myproc_def)

lemma view_print_char [simp]: "fd_view (console_print_char c s) = fd_view s"
  by (simp add: console_print_char_def consputc_def)

lemma view_print_chars [simp]: "fd_view (fold console_print_char cs s) = fd_view s"
  by (induction cs arbitrary: s) simp_all

lemma view_printf [view]: "printf fmt args s = Some s' \<Longrightarrow> fd_view s' = fd_view s"
proof -
  have "fd_view (fold consputc cs s) = fd_view s" for cs by (induction cs arbitrary: s) (simp_all add: consputc_def)
  then show "printf fmt args s = Some s' \<Longrightarrow> fd_view s' = fd_view s" by (auto simp: printf_def elim!: bind_eq_SomeE)
qed

lemma view_fileread [view]: "fileread f n buf s = Some (r, s') \<Longrightarrow> fd_view s' = fd_view s"
  by (auto simp: fileread_def Let_def elim!: bind_eq_SomeE split: if_splits dest!: frame view)

lemma view_filewrite [view]: "filewrite f bs s = Some (r, s') \<Longrightarrow> fd_view s' = fd_view s"
  by (auto simp: filewrite_def Let_def elim!: bind_eq_SomeE split: if_splits dest!: frame view)

lemma view_filestat [view]: "filestat f addr s = Some (r, s') \<Longrightarrow> fd_view s' = fd_view s"
  by (auto simp: filestat_def Let_def elim!: bind_eq_SomeE split: if_splits dest!: frame view)

section \<open>Calls that touch no descriptor\<close>

lemma with_fdE:
  assumes "with_fd n body s = Some (r, s')"
  obtains "s' = s" | fd f where "body fd f s = Some (r, s')" "fd < NOFILE"
    "\<exists>p. myproc s = Some p \<and> ofile (procs s p) fd = Some f"
  using assms by (auto simp: with_fd_def argfd_def fd_file_def elim!: bind_eq_SomeE split: if_splits option.splits)

lemma view_ioctl: "sys_ioctl s = Some (r, s') \<Longrightarrow> fd_view s' = fd_view s"
  by (auto simp: sys_ioctl_def elim!: bind_eq_SomeE with_fdE split: if_splits dest!: frame view)

lemma view_fstat: "sys_fstat s = Some (r, s') \<Longrightarrow> fd_view s' = fd_view s"
  by (auto simp: sys_fstat_def elim!: bind_eq_SomeE with_fdE dest!: view)

lemma view_lseek: "sys_lseek s = Some (r, s') \<Longrightarrow> fd_view s' = fd_view s"
  by (auto simp: sys_lseek_def Let_def elim!: bind_eq_SomeE with_fdE split: if_splits)

lemma view_getpid: "sys_getpid s = Some (r, s') \<Longrightarrow> fd_view s' = fd_view s"
  by (auto simp: sys_getpid_def elim!: bind_eq_SomeE)

lemma off_ftruncate_fill [frame]: "ftruncate_fill ip len s = Some (b, s') \<Longrightarrow> off_disk s' = off_disk s"
proof -
  have *: "\<And>x. ftruncate_fill ip len s = Some x \<Longrightarrow> off_disk (snd x) = off_disk s"
  proof (rule ftruncate_fill.raw_induct [of "\<lambda>ip len s x. off_disk (snd x) = off_disk s"])
    fix f ip len s x
    assume hyp: "\<And>ip len s x. f ip len s = Some x \<Longrightarrow> off_disk (snd x) = off_disk s"
      and "(if sint (i_size (icache s ip)) < len
      then let n = min (len - sint (i_size (icache s ip))) 128 in
        do { (r, s) \<leftarrow> writei s ip (i_size (icache s ip)) (replicate (nat n) 0);
             if r \<noteq> n then Some (False, s) else f ip len s }
      else Some (True, s)) = Some x"
    then show "off_disk (snd x) = off_disk s"
      by (auto simp: Let_def elim!: bind_eq_SomeE split: if_splits dest!: frame hyp)
  qed
  show "ftruncate_fill ip len s = Some (b, s') \<Longrightarrow> off_disk s' = off_disk s" using * [of "(b, s')"] by simp
qed

lemma view_ftruncate: "sys_ftruncate s = Some (r, s') \<Longrightarrow> fd_view s' = fd_view s"
  by (auto simp: sys_ftruncate_def Let_def elim!: bind_eq_SomeE with_fdE split: if_splits dest!: frame view)


lemma off_mkdir: "sys_mkdir s = Some (r, s') \<Longrightarrow> off_disk s' = off_disk s"
  by (auto simp: sys_mkdir_def Let_def elim!: bind_eq_SomeE split: if_splits option.splits dest!: frame)

lemma view_chdir: "sys_chdir s = Some (r, s') \<Longrightarrow> fd_view s' = fd_view s"
  by (auto simp: sys_chdir_def Let_def elim!: bind_eq_SomeE split: if_splits option.splits prod.splits dest!: frame view)

lemma view_getcwd: "sys_getcwd s = Some (r, s') \<Longrightarrow> fd_view s' = fd_view s"
  by (auto simp: sys_getcwd_def Let_def elim!: bind_eq_SomeE split: if_splits dest!: frame view)

lemma off_clear_dirent [frame]: "clear_dirent dp off s = Some s' \<Longrightarrow> off_disk s' = off_disk s"
  by (auto simp: clear_dirent_def elim!: bind_eq_SomeE split: if_splits dest!: frame)

lemma off_put_all [frame]: "put_all ips s = Some s' \<Longrightarrow> off_disk s' = off_disk s"
  by (induction ips arbitrary: s) (auto elim!: bind_eq_SomeE dest!: frame)

lemma off_fail_put [frame]: "fail_put ips s = Some (r, s') \<Longrightarrow> off_disk s' = off_disk s"
  by (auto simp: fail_put_def elim!: bind_eq_SomeE dest!: frame)

lemma off_unlink: "sys_unlink s = Some (r, s') \<Longrightarrow> off_disk s' = off_disk s"
  by (auto simp: sys_unlink_def Let_def elim!: bind_eq_SomeE split: if_splits option.splits dest!: frame)

lemma off_rename_link [frame]: "rename_link dp off ip ndp name s = Some (r, s') \<Longrightarrow> off_disk s' = off_disk s"
  by (auto simp: rename_link_def elim!: bind_eq_SomeE split: if_splits dest!: frame simp del: put_all.simps)

lemma off_rename_target [frame]: "rename_target dp off ip ndp name s = Some (r, s') \<Longrightarrow> off_disk s' = off_disk s"
  by (auto simp: rename_target_def elim!: bind_eq_SomeE split: if_splits option.splits dest!: frame)

lemma off_rename: "sys_rename s = Some (r, s') \<Longrightarrow> off_disk s' = off_disk s"
  by (auto simp: sys_rename_def elim!: bind_eq_SomeE split: if_splits option.splits dest!: frame simp del: put_all.simps)

lemma view_growproc [view]: "growproc n s = Some (r, s') \<Longrightarrow> fd_view s' = fd_view s"
  by (auto simp: growproc_def Let_def elim!: bind_eq_SomeE split: if_splits dest!: frame view)

lemma view_sbrk: "sys_sbrk s = Some (r, s') \<Longrightarrow> fd_view s' = fd_view s"
  by (auto simp: sys_sbrk_def Let_def elim!: bind_eq_SomeE dest!: view)

section \<open>Exec\<close>

lemma off_fetchstr_loop: "fetchstr_loop s pt src dst i mx acc = Some (n, bs, s') \<Longrightarrow> off_disk s' = off_disk s"
proof (induction "mx - i" arbitrary: s dst i acc rule: less_induct)
  case less
  note e = less.prems [unfolded fetchstr_loop.simps [of s pt src dst i mx acc]]
  show ?case
  proof (cases "i < mx")
    case True
    then have "mx - Suc i < mx - i" by simp
    then show ?thesis using e True
      by (auto simp: Let_def elim!: bind_eq_SomeE split: option.splits if_splits dest!: less.hyps [rotated])
  qed (use e in simp)
qed

lemma off_fetchstr [frame]: "fetchstr src dst mx s = Some (n, bs, s') \<Longrightarrow> off_disk s' = off_disk s"
  by (auto simp: fetchstr_def elim!: bind_eq_SomeE dest: off_fetchstr_loop)

lemma off_exec_args [frame]: "exec_args ua i k acc s = Some (as, s') \<Longrightarrow> off_disk s' = off_disk s"
  by (induction k arbitrary: i acc s)
    (auto elim!: bind_eq_SomeE split: if_splits option.splits prod.splits dest!: frame)

lemma off_free_arg: "free_arg argv env i s = Some s' \<Longrightarrow> off_disk s' = off_disk s"
  by (auto simp: free_arg_def elim!: bind_eq_SomeE split: if_splits dest!: frame)

lemma off_free_args [frame]: "free_args argv env s = Some s' \<Longrightarrow> off_disk s' = off_disk s"
  unfolding free_args_def by (rule off_for_each [OF off_free_arg])

lemma off_exec_bad [frame]: "exec_bad argv env pt ip s = Some (r, s') \<Longrightarrow> off_disk s' = off_disk s"
  by (auto simp: exec_bad_def elim!: bind_eq_SomeE split: if_splits option.splits dest!: frame)

lemma off_exec_page [frame]: "exec_page pt a perm s = Some (b, s') \<Longrightarrow> off_disk s' = off_disk s"
  by (auto simp: exec_page_def elim!: bind_eq_SomeE split: if_splits prod.splits dest!: frame)

lemma off_exec_map [frame]: "exec_map pt a e s = Some (b, s') \<Longrightarrow> off_disk s' = off_disk s"
proof (induction "unat MAXVA + 4096 - unat a" arbitrary: s a rule: less_induct)
  case less
  note e = less.prems [unfolded exec_map.simps [of pt a e s]]
  show ?case
  proof (cases "a < e")
    case True
    then obtain ok t where t: "exec_page pt a (PTE_R OR PTE_W OR PTE_X OR PTE_U) s = Some (ok, t)"
      using e by (auto elim: bind_eq_SomeE)
    show ?thesis
    proof (cases ok)
      case ok: True
      have d: "unat MAXVA + 4096 - unat (a + PGSIZE) < unat MAXVA + 4096 - unat a"
        by (rule MAXVA_step' [OF exec_page_SomeD]) (use t ok in simp)
      show ?thesis using e t ok True by (auto dest!: frame less.hyps [OF d])
    qed (use e t True in \<open>auto dest!: frame\<close>)
  qed (use e in simp)
qed

lemma view_exec_load [view]: "exec_load ip pt va sva off sz s = Some (b, s') \<Longrightarrow> fd_view s' = fd_view s"
proof (induction "unat sz" arbitrary: s sva off sz rule: less_induct)
  case less
  note e = less.prems [unfolded exec_load.simps [of ip pt va sva off sz s]]
  show ?case
  proof (cases "0 < sz")
    case True
    define n where "n = (if sz < PGSIZE - (sva - PGROUNDDOWN sva) then sz else PGSIZE - (sva - PGROUNDDOWN sva))"
    have d: "unat (sz - n) < unat sz" using seg_step [OF True, of sva] by (simp add: word_less_nat_alt n_def)
    note e = e [unfolded Let_def, folded n_def]
    consider "fd_view s' = fd_view s" | off' sva' t where "exec_load ip pt va sva' off' (sz - n) t = Some (b, s')" "fd_view t = fd_view s"
      using e True by (auto elim!: bind_eq_SomeE split: if_splits dest!: frame view)
    then show ?thesis using less.hyps [OF d] by cases auto
  qed (use e in simp)
qed

lemma view_exec_segments [view]: "exec_segments ip pt k off sz s = Some (r, s') \<Longrightarrow> fd_view s' = fd_view s"
  by (induction k arbitrary: off sz s)
    (auto simp: Let_def elim!: bind_eq_SomeE split: if_splits dest!: frame view)

lemma view_exec_image [view]: "exec_image ip s = Some (pt, r, s') \<Longrightarrow> fd_view s' = fd_view s"
  by (auto simp: exec_image_def Let_def elim!: bind_eq_SomeE split: if_splits dest!: frame view)

lemma off_exec_exitstub [frame]: "exec_exitstub pt a s = Some (b, s') \<Longrightarrow> off_disk s' = off_disk s"
  by (auto simp: exec_exitstub_def Let_def elim!: bind_eq_SomeE split: if_splits prod.splits dest!: frame)

lemma off_exec_stack [frame]: "exec_stack pt sz is s = Some (b, s') \<Longrightarrow> off_disk s' = off_disk s"
  by (induction "is" arbitrary: s) (auto elim!: bind_eq_SomeE split: if_splits dest!: frame)

lemma off_exec_push [frame]: "exec_push pt base sp bs s = Some (r, s') \<Longrightarrow> off_disk s' = off_disk s"
  by (auto simp: exec_push_def Let_def elim!: bind_eq_SomeE split: if_splits dest!: frame)

lemma off_exec_strings [frame]: "exec_strings pt base sp as acc s = Some (r, s') \<Longrightarrow> off_disk s' = off_disk s"
  by (induction "as" arbitrary: sp acc s) (auto elim!: bind_eq_SomeE split: option.splits dest!: frame)

lemma off_exec_vectors [frame]: "exec_vectors pt base sp argv env s = Some (r, s') \<Longrightarrow> off_disk s' = off_disk s"
  by (auto simp: exec_vectors_def elim!: bind_eq_SomeE split: option.splits dest!: frame)

lemma off_exec_space [frame]: "exec_space pt sz argv env s = Some (r, s') \<Longrightarrow> off_disk s' = off_disk s"
  by (auto simp: exec_space_def Let_def elim!: bind_eq_SomeE split: if_splits dest!: frame)

lemma view_exec_switch [simp]: "fd_view (exec_switch p pt sz entry stub av argc ev s) = fd_view s"
  by (simp add: exec_switch_def Let_def)

lemma view_exec_commit [view]: "exec_commit pt elf argv env l s = Some (r, s') \<Longrightarrow> fd_view s' = fd_view s"
  by (auto simp: exec_commit_def Let_def elim!: bind_eq_SomeE split: prod.splits if_splits dest!: frame view)

lemma view_exec: "sys_exec s = Some (r, s') \<Longrightarrow> fd_view s' = fd_view s"
proof -
  have f: "exec_file path argv env t = Some (r, s') \<Longrightarrow> fd_view s' = fd_view t" for path argv env t
    by (auto simp: exec_file_def elim!: bind_eq_SomeE split: option.splits dest!: frame view)
  show "sys_exec s = Some (r, s') \<Longrightarrow> fd_view s' = fd_view s"
    by (auto simp: sys_exec_def elim!: bind_eq_SomeE split: option.splits if_splits dest!: frame view f)
qed


section \<open>Reading, writing and waiting\<close>

text \<open>Where a process leaves the processor its status may go from dead to alive, never back.\<close>

definition vkeep :: "(nat \<Rightarrow> 'a \<times> bool \<times> bool) \<times> 'b \<times> 'c \<Rightarrow> (nat \<Rightarrow> 'a \<times> bool \<times> bool) \<times> 'b \<times> 'c \<Rightarrow> bool" where
  "vkeep v v' \<longleftrightarrow> (\<forall>p. fst (fst v' p) = fst (fst v p) \<and> (fst (snd (fst v' p)) \<longrightarrow> fst (snd (fst v p))) \<and>
     (snd (snd (fst v' p)) \<longrightarrow> snd (snd (fst v p)))) \<and> snd v' = snd v"

lemma vkeep_refl [simp]: "vkeep v v" by (simp add: vkeep_def)

lemma vkeep_trans: "vkeep u v \<Longrightarrow> vkeep v w \<Longrightarrow> vkeep u w" by (simp add: vkeep_def)

lemma vkeep_keep: "vkeep (fd_view s) (fd_view s') \<Longrightarrow> fd_keep s s'"
  by (auto simp: vkeep_def fd_view_def fd_keep_def procs_keep_def fun_eq_iff)

named_theorems keeps

lemma vkeepI: "procs_keep (procs s) (procs s') \<Longrightarrow> ftable s' = ftable s \<Longrightarrow> myproc s' = myproc s \<Longrightarrow>
    (\<And>p. running (procs s' p) \<Longrightarrow> running (procs s p)) \<Longrightarrow> vkeep (fd_view s) (fd_view s')"
  by (simp add: vkeep_def fd_view_def procs_keep_def)

lemma switch_out:
  fixes s :: "'a kst_scheme"
  shows "sleep_out ch lk s = Some s' \<Longrightarrow> myproc s' = myproc s \<and> (running (procs s' p) \<longrightarrow> running (procs s p))"
    and "yield_out s = Some s' \<Longrightarrow> myproc s' = myproc s \<and> (running (procs s' p) \<longrightarrow> running (procs s p))"
proof -
  have r: "myproc (release lk t) = myproc t" for lk and t :: "'a kst_scheme"
    by (rule fd_view_myproc [OF view_release])
  have u: "myproc (upd_proc i g t) = myproc t" for i g and t :: "'a kst_scheme"
    by (simp add: upd_proc_def myproc_def)
  have a: "procs t' = procs t \<and> myproc t' = myproc t" if "acquire lk t = Some t'" for lk and t t' :: "'a kst_scheme"
    using procs_lock(2) [OF that] fd_view_myproc [OF view_acquire [OF that]] by simp
  show "sleep_out ch lk s = Some s' \<Longrightarrow> myproc s' = myproc s \<and> (running (procs s' p) \<longrightarrow> running (procs s p))"
    by (auto simp: sleep_out_def sched_def running_def r u Let_def elim!: bind_eq_SomeE split: if_splits dest!: a)
  show "yield_out s = Some s' \<Longrightarrow> myproc s' = myproc s \<and> (running (procs s' p) \<longrightarrow> running (procs s p))"
    by (auto simp: yield_out_def sched_def running_def r u elim!: bind_eq_SomeE split: if_splits dest!: a)
qed

lemma keeps_sleep_out [keeps]: "sleep_out ch lk s = Some s' \<Longrightarrow> vkeep (fd_view s) (fd_view s')"
  by (rule vkeepI [OF keep_sleep_out proc_rest_cons(3) [OF proc_rest_switch(1)]]) (use switch_out(1) in blast)+

lemma keeps_yield_out [keeps]: "yield_out s = Some s' \<Longrightarrow> vkeep (fd_view s) (fd_view s')"
  by (rule vkeepI [OF keep_yield_out proc_rest_cons(3) [OF proc_rest_switch(2)]]) (use switch_out(2) in blast)+

lemma view_sleep_in [view]: "sleep_in p lk s = Some s' \<Longrightarrow> fd_view s' = fd_view s"
  by (auto simp: sleep_in_def Let_def split: if_splits dest!: view)

lemma keeps_pipewrite_loop [keeps]: "pipewrite_loop pi bs i s = Some (r, s') \<Longrightarrow> vkeep (fd_view s) (fd_view s')"
  by (induction pi bs i s rule: pipewrite_loop.induct)
    (auto simp: Let_def elim!: bind_eq_SomeE split: if_splits dest!: view keeps)

lemma keeps_pipewrite [keeps]: "pipewrite pi bs s = Some (r, s') \<Longrightarrow> vkeep (fd_view s) (fd_view s')"
  by (auto simp: pipewrite_def elim!: bind_eq_SomeE dest!: view keeps)

lemma keeps_pipewrite_resume [keeps]: "pipewrite_resume p pi bs i s = Some (r, s') \<Longrightarrow> vkeep (fd_view s) (fd_view s')"
  by (auto simp: pipewrite_resume_def elim!: bind_eq_SomeE split: if_splits dest!: view keeps)

lemma view_piperead_copy [view]: "piperead_copy pi addr n i s = Some (r, s') \<Longrightarrow> fd_view s' = fd_view s"
  by (induction pi addr n i s rule: piperead_copy.induct)
    (auto simp: Let_def elim!: bind_eq_SomeE split: if_splits option.splits dest!: view)

lemma keeps_piperead_loop [keeps]: "piperead_loop pi addr n s = Some (r, s') \<Longrightarrow> vkeep (fd_view s) (fd_view s')"
  by (auto simp: piperead_loop_def Let_def elim!: bind_eq_SomeE split: if_splits dest!: view keeps)

lemma keeps_pipe_read_io [keeps]:
  "pipe_read_io pi addr n m = Some (r, s') \<Longrightarrow> (\<And>q. m = Some (q, s') \<Longrightarrow> vkeep v (fd_view s')) \<Longrightarrow> vkeep v (fd_view s')"
  by (induction pi addr n m rule: pipe_read_io.induct) auto

lemma keeps_piperead [keeps]: "piperead pi addr n s = Some (r, s') \<Longrightarrow> vkeep (fd_view s) (fd_view s')"
  by (auto simp: piperead_def elim!: bind_eq_SomeE dest!: view keeps_piperead_loop)

lemma keeps_piperead_resume [keeps]: "piperead_resume p pi addr n s = Some (r, s') \<Longrightarrow> vkeep (fd_view s) (fd_view s')"
  by (auto simp: piperead_resume_def elim!: bind_eq_SomeE split: if_splits dest!: view keeps_piperead_loop)

lemma keeps_consgetc: "consgetc s = Some (c, s') \<Longrightarrow> (if c = None then vkeep (fd_view s) (fd_view s') else fd_view s' = fd_view s)"
  by (auto simp: consgetc_def cons_pop_def Let_def fd_view_def myproc_def elim!: bind_eq_SomeE split: if_splits
    dest!: keeps_yield_out)

lemma keeps_cons_read [keeps]: "cons_read_loop head ua n i s = Some (r, s') \<Longrightarrow> vkeep (fd_view s) (fd_view s')"
proof (induction "nat (n - i)" arbitrary: head ua i s rule: less_induct)
  case less
  note e = less.prems [unfolded cons_read_loop.simps [of head ua n i s]]
  show ?case
  proof (cases "i < n")
    case True
    then have d: "nat (n - (i + 1)) < nat (n - i)" by simp
    show ?thesis using e True
      by (auto simp: Let_def elim!: bind_eq_SomeE split: option.splits if_splits dest!: keeps_consgetc less.hyps [OF d])
  qed (use e in simp)
qed

lemma keeps_write_chunk [keeps]: "write_chunk f buf s = Some (r, s') \<Longrightarrow> vkeep (fd_view s) (fd_view s')"
  by (auto simp: write_chunk_def elim!: bind_eq_SomeE split: if_splits dest!: keeps view)

lemma keeps_write_loop [keeps]: "write_loop f ua tot left s = Some (r, s') \<Longrightarrow> vkeep (fd_view s) (fd_view s')"
proof (induction "nat left" arbitrary: ua tot left s rule: less_induct)
  case less
  note e = less.prems [unfolded write_loop.simps [of f ua tot left s]]
  show ?case
  proof (cases "left \<le> 0")
    case False
    have d: "write_next tot left (min left 128) ret = Inr (t', l') \<Longrightarrow> nat l' < nat left" for ret t' l'
      using write_next_less [of tot left "min left 128" ret t' l'] False by simp
    show ?thesis using e False
      by (auto simp: Let_def elim!: bind_eq_SomeE split: option.splits if_splits io.splits sum.splits prod.splits
        dest!: keeps_write_chunk less.hyps [OF d]) (blast intro: vkeep_trans)+
  qed (use e in simp)
qed

lemma keeps_lift: "lift_result m = Some (r, s') \<Longrightarrow> \<exists>v. r = Result v \<and> m = Some (v, s')"
  by (auto simp: lift_result_def elim!: bind_eq_SomeE)

lemma keeps_pipe_read:
  "pipe_read_io pi addr n (piperead pi' addr' n' s) = Some (r, s') \<Longrightarrow> vkeep (fd_view s) (fd_view s')"
  "pipe_read_io pi addr n (piperead_resume p pi' addr' n' s) = Some (r, s') \<Longrightarrow> vkeep (fd_view s) (fd_view s')"
  by (erule keeps_pipe_read_io, erule keeps_piperead) (erule keeps_pipe_read_io, erule keeps_piperead_resume)

lemma keeps_read: "sys_read s = Some (r, s') \<Longrightarrow> vkeep (fd_view s) (fd_view s')"
  by (auto simp: sys_read_def elim!: bind_eq_SomeE split: option.splits if_splits
    dest!: keeps_lift keeps_cons_read view_fileread keeps_pipe_read)

lemma keeps_write: "sys_write s = Some (r, s') \<Longrightarrow> vkeep (fd_view s) (fd_view s')"
  by (auto simp: sys_write_def elim!: bind_eq_SomeE split: option.splits if_splits dest!: keeps_write_loop)

lemma keeps_write_resume: "write_resume p f pi bs i ua tot left chunk s = Some (r, s') \<Longrightarrow> vkeep (fd_view s) (fd_view s')"
  by (auto simp: write_resume_def elim!: bind_eq_SomeE split: io.splits sum.splits
    dest!: keeps_pipewrite_resume keeps_write_loop intro: vkeep_trans)

lemma keeps_read_resume:
  "cons_read_resume p ua n i s = Some (r, s') \<Longrightarrow> vkeep (fd_view s) (fd_view s')"
  "pipe_read_resume p pi addr n s = Some (r, s') \<Longrightarrow> vkeep (fd_view s) (fd_view s')"
  by (auto simp: cons_read_resume_def pipe_read_resume_def yield_in_def dest!: keeps_cons_read keeps_pipe_read)

lemma view_reap:
  assumes "fd_view t = fd_view s" and "status (procs s i) = TASK_ZOMBIE"
  shows "fd_view (upd_proc i (\<lambda>x. x\<lparr>status := TASK_FREE, pid := 0, parent := None, killed := False,
    xstate := 0, chan := CNull\<rparr>) t) = fd_view s"
proof -
  have "dead (procs t i) = dead (procs s i)" "running (procs t i) = running (procs s i)"
    using assms(1) by (simp_all add: fd_view_def fun_eq_iff)
  then show ?thesis using assms by (simp add: dead_def running_def)
qed

lemma view_wait_scan: "wait_scan p addr is kids s = Some (r, s') \<Longrightarrow> fd_view s' = fd_view s"
proof (induction "is" arbitrary: kids s)
  case (Cons i "is")
  show ?case
  proof (cases "parent (procs s i) = Some p")
    case True
    then obtain t where t: "acquire (LProc i) s = Some t" using Cons.prems by (auto elim: bind_eq_SomeE)
    have v: "fd_view t = fd_view s" by (rule view_acquire [OF t])
    show ?thesis
    proof (cases "status (procs t i) = TASK_ZOMBIE")
      case z: True
      obtain q u where u: "off_disk u = off_disk t" "s' = release (LProc p) (release (LProc i) (if q then u
        else upd_proc i (\<lambda>x. x\<lparr>status := TASK_FREE, pid := 0, parent := None, killed := False, xstate := 0, chan := CNull\<rparr>) u))"
        using Cons.prems t True z by (fastforce simp: Let_def elim!: bind_eq_SomeE split: if_splits dest!: frame)
      then show ?thesis using view_reap [OF view_off z] view_off [OF u(1)] v by simp
    next
      case False
      then have "wait_scan p addr is True (release (LProc i) t) = Some (r, s')" using Cons.prems t True by simp
      from Cons.IH [OF this] show ?thesis by (simp add: v)
    qed
  qed (use Cons in simp)
qed simp

lemma keeps_wait_loop [keeps]: "wait_loop p addr s = Some (r, s') \<Longrightarrow> vkeep (fd_view s) (fd_view s')"
  by (auto simp: wait_loop_def elim!: bind_eq_SomeE split: sum.splits if_splits dest!: view_wait_scan keeps_sleep_out)

lemma keeps_wait: "sys_wait s = Some (r, s') \<Longrightarrow> vkeep (fd_view s) (fd_view s')"
  by (auto simp: sys_wait_def elim!: bind_eq_SomeE dest!: view keeps_wait_loop)

lemma keeps_wait_resume: "wait_resume p addr s = Some (r, s') \<Longrightarrow> vkeep (fd_view s) (fd_view s')"
  by (auto simp: wait_resume_def elim!: bind_eq_SomeE dest!: view keeps_wait_loop)


section \<open>Calls on descriptors\<close>

definition current :: "'a proc_st_scheme \<Rightarrow> nat \<Rightarrow> bool" where
  "current s p \<longleftrightarrow> myproc s = Some p \<and> p < NPROC \<and> \<not> dead (procs s p)"

lemma inv_view: "fref_inv s Q \<Longrightarrow> fd_view s' = fd_view s \<Longrightarrow> fref_inv (s' :: 'a kst_scheme) Q" for s :: "'a kst_scheme"
  by (rule fref_keep [OF _ fd_view_keep])

lemma inv_vkeep: "fref_inv s Q \<Longrightarrow> vkeep (fd_view s) (fd_view s') \<Longrightarrow> fref_inv (s' :: 'a kst_scheme) Q" for s :: "'a kst_scheme"
  by (rule fref_keep [OF _ vkeep_keep])

lemma view_slots:
  assumes "fd_view s' = fd_view s"
  shows "ofile (procs s' p) = ofile (procs s p)" and "dead (procs s' p) = dead (procs s p)"
    and "running (procs s' p) = running (procs s p)"
    and "current s' q = current s q" and "fd_valid s' p fd = fd_valid s p fd"
proof -
  show "ofile (procs s' p) = ofile (procs s p)" "dead (procs s' p) = dead (procs s p)"
      "running (procs s' p) = running (procs s p)" for p
    using assms by (auto simp: fd_view_def fun_eq_iff)
  then show "current s' q = current s q" "fd_valid s' p fd = fd_valid s p fd"
    using fd_view_myproc [OF assms] by (simp_all add: current_def fd_valid_def)
qed

lemma current_valid: "current s p \<Longrightarrow> fd < NOFILE \<Longrightarrow> fd_valid s p fd"
  by (simp add: current_def fd_valid_def)

lemma current_simps [simp]:
  "current (set_ofile p fd v s) q = current s q" "current (upd_file f g s) q = current s q"
  by (simp_all add: current_def)

lemma valid_simps [simp]:
  "fd_valid (set_ofile p fd v s) q fd' = fd_valid s q fd'" "fd_valid (upd_file f g s) q fd' = fd_valid s q fd'"
  by (simp_all add: fd_valid_def)

lemma find_upt: "List.find P [m..<n] = Some i \<Longrightarrow> m \<le> i \<and> i < n \<and> P i"
  by (auto simp: find_Some_iff)

lemma fdalloc_cases:
  assumes "fdalloc f s = Some (r, s')" and "current s p"
  obtains "r = None" "s' = s"
  | fd where "r = Some fd" "s' = set_ofile p fd (Some f) s" "fd < NOFILE" "ofile (procs s p) fd = None"
proof (cases "List.find (\<lambda>fd. ofile (procs s p) fd = None) [0..<NOFILE]")
  case None
  then show ?thesis using assms that(1) by (simp add: fdalloc_def current_def)
next
  case (Some fd)
  then show ?thesis using assms that(2) [of fd] find_upt [OF Some] by (simp add: fdalloc_def current_def)
qed

lemma filealloc_inv:
  assumes "filealloc s = (r, s')" and "fref_inv s Q"
  shows "case r of None \<Rightarrow> s' = s | Some f \<Rightarrow> s' = upd_file f (\<lambda>x. x\<lparr>f_ref := 1\<rparr>) s \<and> fref_inv s' (add_mset f Q)"
proof (cases r)
  case (Some f)
  then have s': "s' = upd_file f (\<lambda>x. x\<lparr>f_ref := 1\<rparr>) s" and f: "f < NFILE" "f_ref (ftable s f) = 0"
    using assms(1) by (auto simp: filealloc_def split: option.splits dest!: find_upt)
  have "fd_refs s' g = fd_refs s g" for g by (simp add: s' fd_refs_def)
  then show ?thesis using assms(2) f Some by (auto simp: s' fref_inv_def fref_count_def dead_closed_def)
qed (use assms(1) in \<open>auto simp: filealloc_def split: option.splits\<close>)

lemma inv_close:
  assumes "sys_close s = Some (r, s')" and "fref_inv s Q" and "current s p"
  shows "fref_inv s' Q"
proof -
  from assms(1,3) have "with_fd 0 (\<lambda>fd f s. do { s \<leftarrow> fileclose f (set_ofile p fd None s); Some (0, s) }) s = Some (r, s')"
    by (auto simp: sys_close_def current_def elim!: bind_eq_SomeE)
  then show ?thesis
  proof (cases rule: with_fdE)
    case (2 fd f)
    then have "fileclose f (set_ofile p fd None s) = Some s'" "ofile (procs s p) fd = Some f"
      using assms(3) by (auto simp: current_def elim!: bind_eq_SomeE)
    then show ?thesis using ft.close_slot [OF assms(2) current_valid [OF assms(3) \<open>fd < NOFILE\<close>]] by blast
  qed (use assms in simp)
qed

lemma inv_dup:
  assumes "sys_dup s = Some (r, s')" and "fref_inv s Q" and "current s p"
  shows "fref_inv s' Q"
  using assms(1) unfolding sys_dup_def
proof (cases rule: with_fdE)
  case (2 fd f)
  then obtain nr t where t: "fdalloc f s = Some (nr, t)"
    "(case nr of None \<Rightarrow> Some (-1, t) | Some newfd \<Rightarrow> Some (int newfd, filedup f t)) = Some (r, s')"
    by (auto elim!: bind_eq_SomeE)
  have slot: "ofile (procs s p) fd = Some f" using 2 assms(3) by (auto simp: current_def)
  from t(1) assms(3) show ?thesis
  proof (cases rule: fdalloc_cases)
    case (2 newfd)
    then show ?thesis using t(2) ft.copy_slot [OF assms(2) current_valid [OF assms(3) \<open>fd < NOFILE\<close>] slot
        current_valid [OF assms(3)]] by auto
  qed (use t assms in auto)
qed (use assms in simp)

lemma inv_fcntl:
  assumes "sys_fcntl s = Some (r, s')" and "fref_inv s Q" and "current s p"
  shows "fref_inv s' Q"
proof -
  from assms(1,3) obtain cmd arg where "with_fd 0 (\<lambda>fd f s.
            if cmd = F_DUPFD
            then if arg < 0 \<or> int NOFILE \<le> arg then Some (-1, s)
                 else (case List.find (\<lambda>newfd. ofile (procs s p) newfd = None) [nat arg..<NOFILE] of
                         None \<Rightarrow> Some (-1, s)
                       | Some newfd \<Rightarrow> Some (int newfd, filedup f (set_ofile p newfd (Some f) s)))
            else if cmd = F_GETFD then Some (0, s)
            else if cmd = F_SETFD then Some (0, s)
            else if cmd = F_GETFL
            then Some (if f_readable (ftable s f) \<and> f_writable (ftable s f) then uint O_RDWR
                       else if f_writable (ftable s f) then uint O_WRONLY else uint O_RDONLY, s)
            else if cmd = F_SETFL then Some (0, s)
            else Some (-1, s)) s = Some (r, s')"
    by (auto simp: sys_fcntl_def current_def elim!: bind_eq_SomeE)
  then show ?thesis
  proof (cases rule: with_fdE)
    case (2 fd f)
    have slot: "ofile (procs s p) fd = Some f" using 2 assms(3) by (auto simp: current_def)
    show ?thesis using 2(1) assms(2)
      by (auto split: if_splits option.splits dest!: find_upt
        intro: ft.copy_slot [OF assms(2) current_valid [OF assms(3) \<open>fd < NOFILE\<close>] slot current_valid [OF assms(3)]])
  qed (use assms in simp)
qed

lemma inv_dup2:
  assumes "sys_dup2 s = Some (r, s')" and "fref_inv s Q" and c: "current s p"
  shows "fref_inv s' Q"
proof -
  have p: "myproc s = Some p" using c by (simp add: current_def)
  obtain old new where a: "argint 0 s = Some old" "argint 1 s = Some new"
    using assms(1) by (auto simp: sys_dup2_def elim!: bind_eq_SomeE)
  note e = assms(1) [unfolded sys_dup2_def p a bind.bind_lunit]
  show ?thesis
  proof (cases "old < 0 \<or> int NOFILE \<le> old \<or> new < 0 \<or> int NOFILE \<le> new \<or> old = new \<or> ofile (procs s p) (nat old) = None")
    case True
    then have "s' = s" using e by (auto split: if_splits option.splits)
    then show ?thesis using assms(2) by simp
  next
    case False
    then obtain f where f: "ofile (procs s p) (nat old) = Some f" by auto
    have n: "nat old < NOFILE" "nat new < NOFILE" "nat new \<noteq> nat old" using False by auto
    note v = current_valid [OF c n(1)] current_valid [OF c n(2)]
    show ?thesis
    proof (cases "ofile (procs s p) (nat new)")
      case None
      then have "s' = filedup f (set_ofile p (nat new) (Some f) s)" using e f False by auto
      then show ?thesis using ft.copy_slot [OF assms(2) v(1) f v(2) None] by simp
    next
      case (Some g)
      then obtain t where t: "fileclose g s = Some t"
        "s' = filedup f (set_ofile p (nat new) (Some f) (set_ofile p (nat new) None t))"
        using e f False by (auto elim!: bind_eq_SomeE)
      then show ?thesis using ft.replace_slot [OF assms(2) v(1) f v(2) n(3) Some t(1)] by simp
    qed
  qed
qed


section \<open>Open and pipe\<close>

lemma fdalloc_inv:
  assumes "fdalloc f s = Some (r, s')" and "current s p" and "fref_inv s (add_mset f Q)"
  shows "case r of None \<Rightarrow> s' = s
    | Some fd \<Rightarrow> fref_inv s' Q \<and> fd < NOFILE \<and> ofile (procs s p) fd = None \<and> s' = set_ofile p fd (Some f) s"
  using assms(1,2)
proof (cases rule: fdalloc_cases)
  case (2 fd)
  then show ?thesis using ft.store [OF assms(3) current_valid [OF assms(2)]] by auto
qed simp

lemma inv_open_install:
  assumes "open_install ip flags s = Some (r, s')" and "fref_inv s Q" and c: "current s p"
  shows "fref_inv s' Q"
proof -
  obtain t where t: "off_disk t = off_disk s" "(let (r, s) = filealloc t in
          (case r of
             None \<Rightarrow> do { s \<leftarrow> iunlockput ip s; Some (-1, s) }
           | Some f \<Rightarrow>
               do { (r, s) \<leftarrow> fdalloc f s;
                    (case r of
                       None \<Rightarrow> do { s \<leftarrow> fileclose f s; s \<leftarrow> iunlock ip s; Some (-1, s) }
                     | Some fd \<Rightarrow>
                         do { let s = upd_file f (\<lambda>x. x\<lparr>f_type := FD_INODE, f_ip := Some ip, f_off := 0,
                                f_readable := (flags AND O_WRONLY = 0),
                                f_writable := (flags AND O_WRONLY \<noteq> 0 \<or> flags AND O_RDWR \<noteq> 0)\<rparr>) s;
                              let s = (if flags AND O_APPEND \<noteq> 0 \<and> i_type (icache s ip) = T_FILE
                                       then upd_file f (\<lambda>x. x\<lparr>f_off := i_size (icache s ip)\<rparr>) s else s);
                              s \<leftarrow> iunlock ip s;
                              Some (int fd, s) }) })) = Some (r, s')"
    using assms(1) by (auto simp: open_install_def elim!: bind_eq_SomeE split: if_split_asm dest!: frame)
  note v = view_off [OF t(1)]
  have t_inv: "fref_inv t Q" and t_cur: "current t p" using inv_view [OF assms(2) v] c by (simp_all add: view_slots(4) [OF v])
  obtain fr u where u: "filealloc t = (fr, u)" by fastforce
  note fa = filealloc_inv [OF u t_inv]
  show ?thesis
  proof (cases fr)
    case None
    then show ?thesis using t(2) u fa t_inv by (auto elim!: bind_eq_SomeE dest!: frame view intro: inv_view)
  next
    case (Some f)
    then have u_inv: "fref_inv u (add_mset f Q)" and u_cur: "current u p" using fa t_cur by auto
    obtain fd w where w: "fdalloc f u = Some (fd, w)" using t(2) u Some by (auto elim!: bind_eq_SomeE)
    note fd = fdalloc_inv [OF w u_cur u_inv]
    show ?thesis
    proof (cases fd)
      case None
      then obtain x where "fileclose f u = Some x" "iunlock ip x = Some s'"
        using t(2) u Some w fd by (auto elim!: bind_eq_SomeE)
      then show ?thesis using ft.close_ok [OF u_inv] by (auto dest!: frame view intro: inv_view)
    next
      case (Some n)
      then have "fref_inv w Q" "fd_view s' = fd_view w"
        using t(2) u \<open>fr = Some f\<close> w fd by (auto simp: Let_def elim!: bind_eq_SomeE dest!: frame view)
      then show ?thesis by (rule inv_view)
    qed
  qed
qed

lemma off_open_check [frame]: "open_check ip flags s = Some (r, s') \<Longrightarrow> off_disk s' = off_disk s"
  by (auto simp: open_check_def elim!: bind_eq_SomeE split: if_splits dest!: frame)

lemma off_open_creat [frame]: "open_creat path flags s = Some (r, s') \<Longrightarrow> off_disk s' = off_disk s"
  by (auto simp: open_creat_def Let_def elim!: bind_eq_SomeE split: if_splits option.splits dest!: frame)

lemma off_open_existing [frame]: "open_existing path flags s = Some (r, s') \<Longrightarrow> off_disk s' = off_disk s"
  by (auto simp: open_existing_def elim!: bind_eq_SomeE split: option.splits dest!: frame)

lemma inv_open:
  assumes "sys_open s = Some (r, s')" and "fref_inv s Q" and c: "current s p"
  shows "fref_inv s' Q"
proof -
  consider "off_disk s' = off_disk s" | t ip flags where "off_disk t = off_disk s" "open_install ip flags t = Some (r, s')"
    using assms(1) by (auto simp: sys_open_def Let_def elim!: bind_eq_SomeE split: if_splits option.splits dest!: frame)
  then show ?thesis
  proof cases
    case 1
    then show ?thesis using inv_view [OF assms(2)] view_off by blast
  next
    case 2
    note v = view_off [OF 2(1)]
    show ?thesis using inv_open_install [OF 2(2) inv_view [OF assms(2) v]] c view_slots(4) [OF v] by blast
  qed
qed

lemma view_put_user [view]: "put_user pt va bs s = Some (b, s') \<Longrightarrow> fd_view s' = fd_view s"
  by (induction bs arbitrary: va s) (auto elim!: bind_eq_SomeE split: option.splits)

lemma view_kfree_pipe [view]: "kfree_pipe pi s = Some s' \<Longrightarrow> fd_view s' = fd_view s"
  by (auto simp: kfree_pipe_def elim!: bind_eq_SomeE dest!: frame view)

lemma view_initlock [simp]: "fd_view (initlock lk s) = fd_view s"
  by (simp add: initlock_def)

lemma view_new_pipe [simp]: "fd_view (new_pipe pi s) = fd_view s"
  by (simp add: new_pipe_def Let_def)

lemma view_pipe_file [simp]: "fd_view (pipe_file f pi w s) = fd_view s"
  by (simp add: pipe_file_def)

text \<open>A file with its descriptor, or a file that has none yet.\<close>

fun end_held :: "nat option \<Rightarrow> nat option \<Rightarrow> nat multiset \<Rightarrow> nat multiset" where
  "end_held (Some f) None Q = add_mset f Q"
| "end_held _ _ Q = Q"

definition end_ok :: "nat \<Rightarrow> nat option \<Rightarrow> nat option \<Rightarrow> 'a proc_st_scheme \<Rightarrow> bool" where
  "end_ok p f fd s \<longleftrightarrow> (case fd of None \<Rightarrow> True | Some n \<Rightarrow> n < NOFILE \<and> f \<noteq> None \<and> ofile (procs s p) n = f)"

lemma view_pipeclose [view]: "pipeclose pi w s = Some s' \<Longrightarrow> fd_view s' = fd_view s"
  by (auto simp: pipeclose_def Let_def elim!: bind_eq_SomeE split: if_splits dest!: frame view)

lemma fileclose_current:
  assumes "fileclose f s = Some s'" and "current s p"
  shows "current s' p"
proof -
  have "myproc s' = myproc s"
    using assms(1) by (auto simp: fileclose_def Let_def elim!: bind_eq_SomeE split: if_splits
      dest!: frame view fd_view_myproc)
  then show ?thesis using assms(2) fileclose_keep(1) [OF assms(1)] by (auto simp: current_def procs_keep_def)
qed

lemma close_end_inv:
  assumes "close_end p f fd s = Some s'" and "fref_inv s (end_held f fd Q)" and "current s p" and "end_ok p f fd s"
  shows "fref_inv s' Q \<and> current s' p \<and> (\<forall>n. fd \<noteq> Some n \<longrightarrow> ofile (procs s' p) n = ofile (procs s p) n)"
proof (cases f)
  case (Some g)
  then obtain t where t: "t = (case fd of None \<Rightarrow> s | Some fd \<Rightarrow> set_ofile p fd None s)" "fileclose g t = Some s'"
    using assms(1) by (simp add: close_end_def)
  have "fref_inv t (add_mset g Q)"
    using assms(2,4) Some ft.take [OF _ current_valid [OF assms(3)]] by (auto simp: t end_ok_def split: option.splits)
  then have i: "fref_inv s' Q" by (rule ft.close_ok [OF _ t(2)])
  have "current t p" using assms(3) by (simp add: t split: option.splits)
  then have "current s' p" by (rule fileclose_current [OF t(2)])
  then show ?thesis using i ft.slot_close [OF t(2), of p] by (auto simp: t split: option.splits)
qed (use assms in \<open>auto simp: close_end_def end_ok_def split: option.splits\<close>)

lemma pipe_bad_inv:
  assumes "pipe_bad p pi rd wr fd0 fd1 s = Some (r, s')" and "current s p"
    and "fref_inv s (end_held rd fd0 (end_held wr fd1 {#}))"
    and "end_ok p rd fd0 s" and "end_ok p wr fd1 s" and "fd0 = None \<or> fd0 \<noteq> fd1"
  shows "fref_inv s' {#}"
proof -
  obtain t u where t: "kfree_pipe pi s = Some t" "close_end p rd fd0 t = Some u" "close_end p wr fd1 u = Some s'"
    using assms(1) by (auto simp: pipe_bad_def elim!: bind_eq_SomeE)
  note v = view_kfree_pipe [OF t(1)]
  have ok: "end_ok p rd fd0 t" "end_ok p wr fd1 t" using assms(4,5) by (auto simp: end_ok_def view_slots(1) [OF v] split: option.splits)
  have "fref_inv t (end_held rd fd0 (end_held wr fd1 {#}))" "current t p"
    using inv_view [OF assms(3) v] assms(2) by (simp_all add: view_slots(4) [OF v])
  note 1 = close_end_inv [OF t(2) this ok(1)]
  then have "end_ok p wr fd1 u" using ok(2) assms(6) by (auto simp: end_ok_def split: option.splits)
  then show ?thesis using close_end_inv [OF t(3)] 1 by blast
qed

lemma inv_pipe_fds:
  assumes "pipe_fds p fdarray pi rd wr s = Some (r, s')" and c: "current s p"
    and i: "fref_inv s (add_mset rd (add_mset wr {#}))"
  shows "fref_inv s' {#}"
proof -
  obtain fd0 t where t: "fdalloc rd s = Some (fd0, t)" using assms(1) by (auto simp: pipe_fds_def elim!: bind_eq_SomeE)
  note f0 = fdalloc_inv [OF t c i]
  show ?thesis
  proof (cases fd0)
    case None
    then have "pipe_bad p pi (Some rd) (Some wr) None None s = Some (r, s')"
      using assms(1) t f0 by (simp add: pipe_fds_def)
    from pipe_bad_inv [OF this c] show ?thesis using i by (simp add: end_ok_def)
  next
    case (Some a)
    then have a: "fref_inv t (add_mset wr {#})" "a < NOFILE" "t = set_ofile p a (Some rd) s" "current t p"
      using f0 c by auto
    obtain fd1 u where u: "fdalloc wr t = Some (fd1, u)"
      using assms(1) t Some by (auto simp: pipe_fds_def elim!: bind_eq_SomeE)
    note f1 = fdalloc_inv [OF u a(4,1)]
    show ?thesis
    proof (cases fd1)
      case None
      then have "pipe_bad p pi (Some rd) (Some wr) (Some a) None t = Some (r, s')"
        using assms(1) t u Some f1 by (simp add: pipe_fds_def)
      from pipe_bad_inv [OF this a(4)] show ?thesis using a by (simp add: end_ok_def)
    next
      case (Some b)
      then have b: "fref_inv u {#}" "b < NOFILE" "u = set_ofile p b (Some wr) t" "current u p" "a \<noteq> b"
        using f1 a(4) by (auto simp: a(3))
      obtain ok w where w: "put_user (pagetable (procs u p)) fdarray
          (le_bytes 4 (of_nat a :: u32) @ le_bytes 4 (of_nat b :: u32)) u = Some (ok, w)"
        "(if ok then Some (0, w) else pipe_bad p pi (Some rd) (Some wr) (Some a) (Some b) w) = Some (r, s')"
        using assms(1) t u \<open>fd0 = Some a\<close> Some by (auto simp: pipe_fds_def elim!: bind_eq_SomeE)
      note v = view_put_user [OF w(1)]
      have "end_ok p (Some rd) (Some a) w" "end_ok p (Some wr) (Some b) w"
        using a(2,3) b(2,3,5) by (auto simp: end_ok_def view_slots(1) [OF v])
      moreover have "fref_inv w {#}" "current w p" using inv_view [OF b(1) v] b(4) by (simp_all add: view_slots(4) [OF v])
      ultimately show ?thesis using w(2) pipe_bad_inv [of p pi "Some rd" "Some wr" "Some a" "Some b" w r s'] b(5)
        by (simp split: if_splits)
    qed
  qed
qed

lemma inv_pipe:
  assumes "sys_pipe s = Some (r, s')" and "fref_inv s {#}" and c: "current s p"
  shows "fref_inv s' {#}"
proof -
  obtain fdarray where e: "(let (pi, s) = kalloc s in
          if pi = 0 then Some (-1, s)
          else do { let (rd, s) = filealloc (new_pipe pi s);
                    (case rd of
                       None \<Rightarrow> pipe_bad p pi None None None None s
                     | Some rd \<Rightarrow>
                         do { let (wr, s) = filealloc s;
                              (case wr of
                                 None \<Rightarrow> pipe_bad p pi (Some rd) None None None s
                               | Some wr \<Rightarrow> pipe_fds p fdarray pi rd wr (pipe_file wr pi True (pipe_file rd pi False s))) }) }) = Some (r, s')"
    using assms(1) c by (auto simp: sys_pipe_def current_def elim!: bind_eq_SomeE)
  obtain pi t where t: "kalloc s = (pi, t)" by fastforce
  define u where "u = new_pipe pi t"
  have v: "fd_view t = fd_view s" using off_kallocD [OF t] by (rule view_off)
  then have vu: "fd_view u = fd_view s" by (simp add: u_def)
  note u_inv = inv_view [OF assms(2) vu]
  show ?thesis
  proof (cases "pi = 0")
    case True
    then show ?thesis using e t inv_view [OF assms(2) v] by simp
  next
    case False
    obtain rd w where w: "filealloc u = (rd, w)" by fastforce
    note fw = filealloc_inv [OF w u_inv]
    have e: "(case rd of None \<Rightarrow> pipe_bad p pi None None None None w
       | Some rd \<Rightarrow> do { let (wr, s) = filealloc w;
            (case wr of None \<Rightarrow> pipe_bad p pi (Some rd) None None None s
             | Some wr \<Rightarrow> pipe_fds p fdarray pi rd wr (pipe_file wr pi True (pipe_file rd pi False s))) }) = Some (r, s')"
      using e t w False by (simp add: u_def)
    have uc: "current u p" using c by (simp add: view_slots(4) [OF vu])
    show ?thesis
    proof (cases rd)
      case None
      then show ?thesis using e fw pipe_bad_inv [of p pi None None None None w r s'] u_inv uc by (simp add: end_ok_def)
    next
      case (Some f)
      then have wi: "fref_inv w (add_mset f {#})" and wc: "current w p" using fw uc by auto
      obtain wr x where x: "filealloc w = (wr, x)" by fastforce
      note fx = filealloc_inv [OF x wi]
      show ?thesis
      proof (cases wr)
        case None
        then show ?thesis using e x Some fx pipe_bad_inv [of p pi "Some f" None None None w r s'] wi wc
          by (simp add: end_ok_def)
      next
        case (Some g)
        let ?y = "pipe_file g pi True (pipe_file f pi False x)"
        have y: "fd_view ?y = fd_view x" by simp
        have "fref_inv x (add_mset g (add_mset f {#}))" "current x p" using fx Some wc by auto
        then have "fref_inv ?y (add_mset f (add_mset g {#}))" "current ?y p"
          using inv_view [OF _ y] by (simp_all add: view_slots(4) [OF y] add_mset_commute)
        moreover have "pipe_fds p fdarray pi f g ?y = Some (r, s')" using e x Some \<open>rd = Some f\<close> by simp
        ultimately show ?thesis using inv_pipe_fds by blast
      qed
    qed
  qed
qed


section \<open>Exit and fork\<close>

text \<open>The exiting process is dead while it still has descriptors; all other dead processes have none.\<close>

definition exiting :: "nat \<Rightarrow> nat set \<Rightarrow> 'a kst_scheme \<Rightarrow> bool" where
  "exiting p F s \<longleftrightarrow> fref_count s {#} \<and> p < NPROC \<and> F \<subseteq> {..<NOFILE} \<and> (\<forall>fd \<in> F. ofile (procs s p) fd = None) \<and>
     (\<forall>q < NPROC. q \<noteq> p \<longrightarrow> dead (procs s q) \<longrightarrow> (\<forall>fd < NOFILE. ofile (procs s q) fd = None))"

lemma exiting_view:
  fixes s s' :: "'a kst_scheme"
  assumes "fd_view s' = fd_view s" and "exiting p F s"
  shows "exiting p F s'"
  using count_keep [OF _ fd_view_keep [OF assms(1)]] assms(2)
  by (simp add: exiting_def view_slots [OF assms(1)])

lemma exiting_close:
  assumes "exit_close p fd s = Some s'" and "exiting p F s" and "fd < NOFILE"
  shows "exiting p (insert fd F) s'"
proof (cases "ofile (procs s p) fd")
  case (Some f)
  then obtain t where t: "fileclose f s = Some t" "s' = set_ofile p fd None t"
    using assms(1) by (auto simp: exit_close_def elim!: bind_eq_SomeE)
  have "fref_count s' {#}"
    unfolding t(2) by (rule count_close_clear [OF _ _ assms(3) Some t(1)]) (use assms(2) in \<open>simp_all add: exiting_def\<close>)
  then show ?thesis using assms(2,3) fileclose_keep(1) [OF t(1)]
    by (auto simp: exiting_def t(2) procs_keep_def)
qed (use assms in \<open>auto simp: exit_close_def exiting_def\<close>)

lemma exiting_closes:
  "for_each (exit_close p) fds s = Some s' \<Longrightarrow> exiting p F s \<Longrightarrow> set fds \<subseteq> {..<NOFILE} \<Longrightarrow> exiting p (set fds \<union> F) s'"
proof (induction fds arbitrary: s F)
  case (Cons fd fds)
  then obtain t where "exit_close p fd s = Some t" "for_each (exit_close p) fds t = Some s'" by (auto elim!: bind_eq_SomeE)
  then show ?case using Cons.IH [of t "insert fd F"] exiting_close [of p fd s t F] Cons.prems by auto
qed auto

lemma exiting_done: "exiting p {..<NOFILE} s \<Longrightarrow> fref_inv s {#}"
  by (auto simp: exiting_def fref_inv_def dead_closed_def)

lemma inv_proc_exit:
  assumes "proc_exit code s = Some s'" and "fref_inv s {#}" and c: "current s p"
  shows "fref_inv s' {#}"
proof -
  obtain t u v where t: "exit_mark (of_int code) s = Some t" "for_each (exit_close p) [0..<NOFILE] t = Some u"
    "exit_cwd p u = Some v" "exit_tail v = Some s'"
    using assms(1) c by (auto simp: proc_exit_def current_def elim!: bind_eq_SomeE)
  have k: "ofile (procs t q) = ofile (procs s q)" "ftable t = ftable s" "q \<noteq> p \<Longrightarrow> procs t q = procs s q" for q
    using c t(1) by (auto simp: exit_mark_def current_def upd_proc_def)
  have "fref_count t {#}" using assms(2) by (simp add: fref_inv_def fref_count_def fd_refs_def k)
  then have "exiting p {} t" using assms(2) c by (auto simp: exiting_def fref_inv_def current_def dead_closed_def k)
  then have "exiting p {..<NOFILE} u" using exiting_closes [OF t(2), of "{}"] by (auto simp: atLeast0LessThan)
  moreover have "fd_view v = fd_view u" using t(3)
    by (auto simp: exit_cwd_def elim!: bind_eq_SomeE split: option.splits dest!: frame view)
  moreover have "fd_view s' = fd_view v" using t(4)
    by (auto simp: exit_tail_def elim!: bind_eq_SomeE split: option.splits dest!: view procs_sched)
  ultimately show ?thesis using exiting_done exiting_view by metis
qed

lemma inv_exit:
  assumes "sys_exit s = Some (r, s')" and "fref_inv s {#}" and "current s p"
  shows "fref_inv s' {#}"
  using assms inv_proc_exit [OF _ assms(2,3)] by (auto simp: sys_exit_def elim!: bind_eq_SomeE)

text \<open>A new process has no descriptors.\<close>

definition fresh :: "nat \<Rightarrow> 'a proc_st_scheme \<Rightarrow> bool" where
  "fresh np s \<longleftrightarrow> np < NPROC \<and> \<not> dead (procs s np) \<and> \<not> running (procs s np) \<and> (\<forall>fd < NOFILE. ofile (procs s np) fd = None)"

lemma fresh_view: assumes "fd_view s' = fd_view s" shows "fresh np s' = fresh np s"
  by (simp add: fresh_def view_slots [OF assms])

lemma allocproc_found_keep:
  assumes "allocproc_found i s = (r, s')" and "status (procs s i) = TASK_FREE" and "dead_closed s" and "i < NPROC"
  shows "vkeep (fd_view s) (fd_view s') \<and> myproc s' = myproc s \<and> (\<forall>np. r = Some np \<longrightarrow> np = i \<and> fresh np s' \<and> dead (procs s np))"
proof -
  define s1 where "s1 = upd_proc i (\<lambda>p. p\<lparr>pid := nextpid s, killed := False, xstate := 0,
      chan := CNull, parent := None, pname := [], psz := 0\<rparr>) (s\<lparr>nextpid := nextpid s + 1\<rparr>)"
  obtain tf t where t: "kalloc s1 = (tf, t)" by fastforce
  note o = off_disk_eqD(1,6) [OF off_kallocD [OF t]] ftable_off [OF off_kallocD [OF t]]
  have s1: "procs s1 = (procs s)(i := (procs s i)\<lparr>pid := nextpid s, killed := False, xstate := 0,
      chan := CNull, parent := None, pname := [], psz := 0\<rparr>)" "myproc s1 = myproc s" "ftable s1 = ftable s"
    by (simp_all add: s1_def upd_proc_def myproc_def)
  have e: "(r, s') = (if tf = 0 then (None, release (LProc i) (upd_proc i (\<lambda>p. p\<lparr>status := TASK_FREE\<rparr>) (upd_proc i (\<lambda>p. p\<lparr>trapframe := tf\<rparr>) t)))
      else (Some i, release (LProc i) (upd_proc i (\<lambda>p. p\<lparr>status := TASK_ALLOCATED\<rparr>) (upd_proc i (\<lambda>p. p\<lparr>trapframe := tf\<rparr>) t))))"
    using assms(1) t by (auto simp: allocproc_found_def allocpid_def Let_def s1_def)
  have f: "ftable (upd_proc i g u) = ftable u" "myproc (upd_proc i g u) = myproc u" for g and u :: "'a kst_scheme"
    by (simp_all add: upd_proc_def myproc_def)
  have r: "myproc (release lk u) = myproc u" for lk and u :: "'a kst_scheme" by (rule fd_view_myproc [OF view_release])
  then have "myproc s' = myproc s" using e o s1 f by (simp split: if_splits)
  moreover have "vkeep (fd_view s) (fd_view s') \<and> (\<forall>np. r = Some np \<longrightarrow> np = i \<and> fresh np s' \<and> dead (procs s np))"
  proof (cases "tf = 0")
    case True
    then show ?thesis using e assms(2) o s1
      by (auto simp: vkeep_def fd_view_def f r dead_def running_def)
  next
    case False
    then show ?thesis using e assms(2-4) o s1
      by (auto simp: vkeep_def fd_view_def f r dead_def running_def fresh_def dead_closed_def)
  qed
  ultimately show ?thesis by simp
qed

lemma allocproc_keep:
  assumes "allocproc s = Some (r, s')" and "fref_inv s Q"
  shows "vkeep (fd_view s) (fd_view s') \<and> myproc s' = myproc s \<and> (\<forall>np. r = Some np \<longrightarrow> fresh np s' \<and> dead (procs s np))"
proof -
  have "vkeep (fd_view s) (fd_view s') \<and> myproc s' = myproc s \<and> (\<forall>np. r = Some np \<longrightarrow> fresh np s' \<and> dead (procs s np))"
    if "allocproc_loop is s = Some (r, s')" and "dead_closed s" and "set is \<subseteq> {..<NPROC}" for "is"
    using that
  proof (induction "is" arbitrary: s)
    case (Cons i "is")
    then obtain t where t: "acquire (LProc i) s = Some t" by (auto elim!: bind_eq_SomeE)
    note v = view_acquire [OF t]
    have d: "dead_closed t"
      by (rule dead_closed_keep [OF Cons.prems(2)]) (use fd_view_keep [OF v] in \<open>simp add: fd_keep_def\<close>)
    show ?case
    proof (cases "status (procs t i) = TASK_FREE")
      case True
      then have "allocproc_found i t = (r, s')" using Cons.prems(1) t by simp
      from allocproc_found_keep [OF this True d] show ?thesis
        using Cons.prems(3) v fd_view_myproc [OF v] by (auto simp: view_slots(2) [OF v])
    next
      case False
      have d': "dead_closed (release (LProc i) t)" using d by (simp add: dead_closed_def)
      from False have "allocproc_loop is (release (LProc i) t) = Some (r, s')" using Cons.prems(1) t by simp
      from Cons.IH [OF this d'] show ?thesis using Cons.prems(3) v fd_view_myproc [OF v]
        by (auto simp: fd_view_myproc [OF view_release] view_slots(2) [OF v])
    qed
  qed simp
  from this [of "[0..<NPROC]"] show ?thesis using assms by (simp add: allocproc_def fref_inv_def atLeast0LessThan)
qed

lemma inv_free:
  assumes "set_status np TASK_FREE s = Some s'" and "fref_inv s Q" and "fresh np s"
  shows "fref_inv s' Q"
proof -
  obtain t where t: "acquire (LProc np) s = Some t" "s' = release (LProc np) (upd_proc np (\<lambda>x. x\<lparr>status := TASK_FREE\<rparr>) t)"
    using assms(1) by (auto simp: set_status_def elim!: bind_eq_SomeE)
  note v = view_acquire [OF t(1)]
  have i: "fref_inv t Q" "fresh np t" using inv_view [OF assms(2) v] assms(3) by (simp_all add: fresh_view [OF v])
  have "ofile (procs s' q) = ofile (procs t q)" "ftable s' = ftable t" "q \<noteq> np \<Longrightarrow> procs s' q = procs t q" for q
    by (auto simp: t(2) upd_proc_def)
  moreover have "dead_closed s'"
    unfolding dead_closed_def
  proof (intro allI impI)
    fix q fd
    assume "q < NPROC" "dead (procs s' q)" "fd < NOFILE"
    then show "ofile (procs s' q) fd = None" using i calculation
      by (cases "q = np") (auto simp: fref_inv_def dead_closed_def fresh_def)
  qed
  ultimately show ?thesis using i by (simp add: fref_inv_def fref_count_def fd_refs_def)
qed

lemma view_ready:
  assumes "set_status np TASK_READY s = Some s'" and "\<not> dead (procs s np)" and "\<not> running (procs s np)"
  shows "fd_view s' = fd_view s"
proof -
  obtain t where t: "acquire (LProc np) s = Some t" "s' = release (LProc np) (upd_proc np (\<lambda>x. x\<lparr>status := TASK_READY\<rparr>) t)"
    using assms(1) by (auto simp: set_status_def elim!: bind_eq_SomeE)
  have "procs t = procs s" by (rule procs_lock(2) [OF t(1)])
  then show ?thesis using view_acquire [OF t(1)] assms(2,3) by (simp add: t(2) dead_def running_def)
qed

text \<open>The loop that copies the descriptors.\<close>

lemma fork_file_inv:
  assumes "fref_inv s Q" and "fd_valid s p i" and "fd_valid s np i" and "ofile (procs s np) i = None"
  shows "fref_inv (fork_file p np i s) Q"
  using assms ft.copy_slot [OF assms(1,2) _ assms(3,4)] by (auto simp: fork_file_def split: option.splits)

lemma fork_file_simps [simp]:
  "dead (procs (fork_file p np i s) q) = dead (procs s q)"
  "q \<noteq> np \<or> fd \<noteq> i \<Longrightarrow> ofile (procs (fork_file p np i s) q) fd = ofile (procs s q) fd"
  "myproc (fork_file p np i s) = myproc s"
  by (auto simp: fork_file_def filedup_def split: option.splits)

lemma fork_files_inv:
  assumes "fref_inv s Q" and "p < NPROC" and "np < NPROC" and "\<not> dead (procs s p)" and "\<not> dead (procs s np)"
    and "distinct fds" and "set fds \<subseteq> {..<NOFILE}" and "\<forall>fd \<in> set fds. ofile (procs s np) fd = None"
  shows "fref_inv (fold (fork_file p np) fds s) Q \<and> \<not> dead (procs (fold (fork_file p np) fds s) np)"
  using assms
proof (induction fds arbitrary: s)
  case (Cons i fds)
  have "fref_inv (fork_file p np i s) Q"
    by (rule fork_file_inv) (use Cons.prems in \<open>simp_all add: fd_valid_def\<close>)
  moreover have "\<forall>fd \<in> set fds. ofile (procs (fork_file p np i s) np) fd = None"
  proof
    fix fd
    assume "fd \<in> set fds"
    then show "ofile (procs (fork_file p np i s) np) fd = None" using Cons.prems(6,8) by (cases "fd = i") auto
  qed
  ultimately show ?case using Cons.IH [of "fork_file p np i s"] Cons.prems(2-7) by simp
qed simp

lemma fork_file_running: "running (procs (fork_file p np fd s) q) = running (procs s q)"
  by (auto simp: fork_file_def upd_proc_def set_ofile_def filedup_def upd_file_def running_def split: option.split)

lemma fork_files_running: "running (procs (fold (fork_file p np) fds s) q) = running (procs s q)"
  by (induction fds arbitrary: s) (simp_all add: fork_file_running)

lemma inv_fork_finish:
  assumes "fork_finish p np s = Some (r, s')" and "fref_inv s Q" and c: "current s p" and n: "fresh np s"
  shows "fref_inv s' Q"
proof -
  define u where "u = upd_proc np (\<lambda>x. x\<lparr>psz := psz (procs s p)\<rparr>) s"
  have v: "fd_view u = fd_view s" by (simp add: u_def)
  define w where "w = fold (fork_file p np) [0..<NOFILE] u"
  have w: "fref_inv w Q \<and> \<not> dead (procs w np)"
    unfolding w_def
    by (rule fork_files_inv) (use inv_view [OF assms(2) v] c n in \<open>auto simp: current_def fresh_def view_slots [OF v]\<close>)
  define w1 where "w1 = upd_proc np (\<lambda>x. x\<lparr>parent := Some p\<rparr>) w"
  define w2 where "w2 = (case cwd (procs w1 p) of None \<Rightarrow> w1 | Some ip \<Rightarrow> upd_proc np (\<lambda>x. x\<lparr>cwd := Some ip\<rparr>) (idup ip w1))"
  define path where "path = (if cchar (cwd_path (procs w2 p)) 0 \<noteq> 0 then cwd_path (procs w2 p) else [47, 0])"
  define x where "x = upd_proc np (\<lambda>x. x\<lparr>cwd_path := safestrcpy (cwd_path x) path (int MAXPATH)\<rparr>) w2"
  have "set_status np TASK_READY x = Some s'"
    using assms(1) unfolding fork_finish_def Let_def u_def [symmetric] w_def [symmetric] w1_def [symmetric]
      w2_def [symmetric] path_def [symmetric] x_def [symmetric] by (auto elim!: bind_eq_SomeE)
  moreover have "fd_view x = fd_view w" by (simp add: x_def w2_def w1_def split: option.split)
  ultimately have x: "fd_view x = fd_view w" "set_status np TASK_READY x = Some s'" by simp_all
  have "\<not> dead (procs x np)" "\<not> running (procs x np)" using w n
    by (simp_all add: view_slots [OF x(1)] fresh_def w_def fork_files_running view_slots(3) [OF v])
  from view_ready [OF x(2) this] x(1) w show ?thesis by (auto intro: inv_view)
qed

lemma inv_fork_copy:
  assumes "fork_copy p np s = Some (r, s')" and "fref_inv s Q" and c: "current s p" and n: "fresh np s"
  shows "fref_inv s' Q"
proof -
  obtain t where v: "fd_view t = fd_view s" and t: "s' = t \<or> fork_finish p np t = Some (r, s')"
    using assms(1) by (auto simp: fork_copy_def Let_def elim!: bind_eq_SomeE split: if_splits dest!: frame view)
  show ?thesis using t inv_view [OF assms(2) v] inv_fork_finish [of p np t r s' Q] c n
    by (auto simp: view_slots(4) [OF v] fresh_view [OF v])
qed

lemma inv_fork:
  assumes "sys_fork s = Some (r, s')" and "fref_inv s Q" and c: "current s p"
  shows "fref_inv s' Q"
proof -
  have p: "myproc s = Some p" using c by (simp add: current_def)
  obtain a t where t: "allocproc s = Some (a, t)" using assms(1) by (auto simp: sys_fork_def elim!: bind_eq_SomeE)
  note k = allocproc_keep [OF t assms(2)]
  have i: "fref_inv t Q" by (rule inv_vkeep [OF assms(2)]) (use k in simp)
  show ?thesis
  proof (cases a)
    case None
    then show ?thesis using assms(1) t p i by (simp add: sys_fork_def)
  next
    case (Some np)
    have n: "fresh np t" using k Some by simp
    have "\<not> dead (procs t p)" using k c by (auto simp: vkeep_def fd_view_def current_def)
    then have tc: "current t p" using k c by (simp add: current_def)
    obtain ks u where u: "kalloc t = (ks, u)" by fastforce
    consider x where "set_status np TASK_FREE x = Some s'" "fd_view x = fd_view t"
      | x where "fork_copy p np x = Some (r, s')" "fd_view x = fd_view t"
      using assms(1) t p Some u
      by (auto simp: sys_fork_def Let_def elim!: bind_eq_SomeE split: if_splits dest!: frame view)
    then show ?thesis
    proof cases
      case 1
      then show ?thesis using inv_free [OF 1(1) inv_view [OF i 1(2)]] n fresh_view [OF 1(2)] by blast
    next
      case 2
      then show ?thesis using inv_fork_copy [OF 2(1) inv_view [OF i 2(2)]] n fresh_view [OF 2(2)] tc
          view_slots(4) [OF 2(2)] by blast
    qed
  qed
qed


section \<open>The dispatcher\<close>

lemma inv_syscalls:
  assumes "syscalls num = Some h" and "h s = Some (r, s')" and i: "fref_inv s {#}" and c: "current s p"
  shows "fref_inv s' {#}"
proof -
  note v = inv_view [OF i] inv_view [OF i view_off] inv_vkeep [OF i]
  note one = inv_dup [OF _ i c] inv_close [OF _ i c] inv_fcntl [OF _ i c] inv_dup2 [OF _ i c] inv_open [OF _ i c]
    inv_pipe [OF _ i c] inv_exit [OF _ i c] inv_fork [OF _ i c]
  note all = v(1) [OF view_getpid] v(1) [OF view_ioctl] v(1) [OF view_fstat] v(1) [OF view_lseek]
    v(1) [OF view_ftruncate] v(2) [OF off_mkdir] v(1) [OF view_chdir] v(1) [OF view_getcwd] v(2) [OF off_unlink]
    v(2) [OF off_rename] v(1) [OF view_sbrk] v(1) [OF view_exec] v(3) [OF keeps_read] v(3) [OF keeps_write]
    v(3) [OF keeps_wait] one
  show ?thesis using assms(1,2) unfolding syscalls_def by (auto split: if_split_asm dest!: keeps_lift intro: all)
qed

lemma inv_return: "fref_inv s {#} \<Longrightarrow> fref_inv (snd (syscall_return p (r, s))) {#}"
  by (cases r) (auto simp: syscall_return_def intro: inv_view)

lemma inv_syscall:
  assumes "syscall s = Some (r, s')" and i: "fref_inv s {#}" and c: "current s p"
  shows "fref_inv s' {#}"
proof -
  obtain q t where t: "(r, s') = syscall_return p (q, t)" and "t = s \<or> (\<exists>num h. syscalls num = Some h \<and> h s = Some (q, t))"
    using assms(1) c by (auto simp: syscall_def Let_def current_def elim!: bind_eq_SomeE split: option.splits if_splits)
      (metis surj_pair)+
  then have "fref_inv t {#}" using i inv_syscalls [OF _ _ i c] by auto
  from inv_return [OF this, of p q] show ?thesis unfolding t [symmetric] by simp
qed

lemma inv_syscall_resume:
  assumes "syscall_resume p c s = Some (r, s')" and i: "fref_inv s {#}"
  shows "fref_inv s' {#}"
proof -
  obtain q t where t: "syscall_return p (q, t) = (r, s')" and q: "resume_call p c s = Some (q, t)"
    using assms(1) by (cases "resume_call p c s") (auto simp: syscall_resume_def)
  have "fref_inv t {#}"
    using q by (cases c) (auto intro: inv_vkeep [OF i] dest!: keeps_write_resume keeps_read_resume keeps_wait_resume)
  from inv_return [OF this, of p q] show ?thesis unfolding t by simp
qed

text \<open>A process that calls \<open>dup(0)\<close> with the console open as descriptor 0.\<close>

definition tiny_dup :: kst where
  "tiny_dup = tiny_cons\<lparr>procs := (\<lambda>_. zero_proc)(0 := zero_proc\<lparr>status := TASK_RUNNING, pid := 1,
       trapframe := 0x80005000, ofile := (\<lambda>_. None)(0 := Some 0)\<rparr>),
     ftable := (ftable tiny_cons)(0 := \<lparr>f_type = FD_CONSOLE, f_ref = 1, f_readable = True, f_writable = True,
       f_pipe = 0, f_ip = None, f_off = 0\<rparr>),
     pmem := store64 (store64 (\<lambda>_. 0) (0x80005000 + tf_a0) 0) (0x80005000 + tf_a7) 23\<rparr>"

lemma tiny_dup_simps:
  "myproc tiny_dup = Some 0" "procs tiny_dup = (\<lambda>_. zero_proc)(0 := zero_proc\<lparr>status := TASK_RUNNING, pid := 1,
       trapframe := 0x80005000, ofile := (\<lambda>_. None)(0 := Some 0)\<rparr>)"
  "load64 (pmem tiny_dup) 0x800050A8 = 23" "load64 (pmem tiny_dup) 0x80005070 = 0"
  by (simp_all add: tiny_dup_def tiny_cons_def myproc_def tf_a0_def tf_a7_def load_store_other aligned_def)

lemma tiny_dup_inv: "fref_inv tiny_dup {#}" "current tiny_dup 0"
proof -
  have "fd_refs tiny_dup f = (if f = 0 then {(0, 0)} else {})" for f
    by (auto simp: fd_refs_def tiny_dup_simps zero_proc_def NPROC_def NOFILE_def split: if_splits)
  then show "fref_inv tiny_dup {#}"
    by (auto simp: fref_inv_def fref_count_def dead_closed_def tiny_dup_simps zero_proc_def NFILE_def dead_def split: if_splits)
      (auto simp: tiny_dup_def tiny_cons_def fs_st.defs)
  show "current tiny_dup 0" by (simp add: current_def tiny_dup_simps dead_def NPROC_def)
qed

lemma tiny_dup_call: "syscall tiny_dup =
  Some (Result 1, let s = filedup 0 (set_ofile 0 1 (Some 0) tiny_dup) in s\<lparr>pmem := store64 (pmem s) 0x80005070 1\<rparr>)"
proof -
  have f: "fdalloc 0 tiny_dup = Some (Some 1, set_ofile 0 1 (Some 0) tiny_dup)"
    by (simp add: fdalloc_def tiny_dup_simps NOFILE_def upt_rec zero_proc_def tf_a0_def)
  have a: "argfd 0 tiny_dup = Some (Some (0, 0))"
    by (simp add: argfd_def argint_def argraw_def fd_file_def tiny_dup_simps NOFILE_def tf_a0_def)
  have "sys_dup tiny_dup = Some (1, filedup 0 (set_ofile 0 1 (Some 0) tiny_dup))"
    by (simp add: sys_dup_def with_fd_def a f)
  then show ?thesis
    by (simp add: syscall_def tiny_dup_simps syscalls_def kdefs tf_a7_def tf_a0_def lift_result_def syscall_return_def Let_def)
      (simp add: filedup_def set_ofile_def upd_proc_def tiny_dup_simps)
qed

section \<open>Properties\<close>

text \<open>
  Property C7 (invariant). If before a system call every open file's reference count is the
  number of descriptors of all processes that refer to it, every descriptor refers to a file
  of the table and dead processes have no descriptors, then the same holds when the call
  returns, fails, sleeps, yields or exits, for every call number and all arguments; and it
  holds again after a suspended call has been continued.
\<close>

theorem syscalls_keep_references:
  assumes "fref_inv s {#}" and "current s p"
  shows "(\<forall>r s'. syscall s = Some (r, s') \<longrightarrow> fref_inv s' {#}) \<and>
    (\<forall>c r s'. syscall_resume p c s = Some (r, s') \<longrightarrow> fref_inv s' {#})"
  using inv_syscall inv_syscall_resume assms by blast

theorem syscalls_keep_references_witness:
  "fref_inv tiny_dup {#} \<and> current tiny_dup 0 \<and>
   (\<exists>s'. syscall tiny_dup = Some (Result 1, s') \<and> fref_inv s' {#} \<and> f_ref (ftable s' 0) = 2 \<and>
      ofile (procs s' 0) 1 = Some 0)"
proof -
  have "f_ref (ftable tiny_dup 0) = 1" by (simp add: tiny_dup_def)
  moreover have "f_ref (ftable (let s = filedup 0 (set_ofile 0 1 (Some 0) tiny_dup) in s\<lparr>pmem := store64 (pmem s) 0x80005070 1\<rparr>) 0)
      = f_ref (ftable tiny_dup 0) + 1"
    by (simp add: filedup_def Let_def)
  ultimately show ?thesis
    using syscalls_keep_references [OF tiny_dup_inv] tiny_dup_inv tiny_dup_call by (simp add: filedup_def Let_def)
qed

text \<open>
  Property C31 (error). When the calling process has no free descriptor, \<open>pipe\<close> never
  returns: its error path frees the page of the pipe before it closes the two file objects,
  the free list's link makes the lock of the freed pipe look taken, and \<open>fileclose\<close> spins
  on it for ever. (The hypotheses: a page is free and another one stays free, two file
  objects are free.)
\<close>

theorem pipe_without_descriptor_hangs:
  assumes "current s p" and "\<forall>fd < NOFILE. ofile (procs s p) fd \<noteq> None"
    and "f < NFILE" and "g < NFILE" and "f \<noteq> g" and "f_ref (ftable s f) = 0" and "f_ref (ftable s g) = 0"
    and "kalloc s = (pi, t)" and "pi \<noteq> 0" and "KERNBASE \<le> free_mem_list t" and "free_mem_list t < PHYSTOP"
  shows "sys_pipe s = None"
proof -
  have find: "\<exists>i. List.find P [0..<n] = Some i \<and> P i" if "P j" "j < n" for P j and n :: nat
    using that by (cases "List.find P [0..<n]") (auto simp: find_None_iff find_Some_iff)
  define u where "u = new_pipe pi t"
  have u: "ftable u = ftable s" "procs u = procs s" "myproc u = myproc s" "free_mem_list u = free_mem_list t"
    using off_disk_eqD(1,6) [OF off_kallocD [OF assms(8)]] ftable_off [OF off_kallocD [OF assms(8)]]
    by (simp_all add: u_def new_pipe_def Let_def initlock_def pipe_put_def myproc_def)
  obtain rd where rd: "List.find (\<lambda>f. f_ref (ftable u f) = 0) [0..<NFILE] = Some rd"
    using find [of "\<lambda>f. f_ref (ftable u f) = 0" f NFILE] assms(3,6) by (auto simp: u(1))
  define v where "v = upd_file rd (\<lambda>x. x\<lparr>f_ref := 1\<rparr>) u"
  obtain h where h: "h < NFILE" "h \<noteq> rd" "f_ref (ftable v h) = 0"
    using assms(3-7) by (cases "rd = f") (auto simp: v_def u(1))
  obtain wr where wr: "List.find (\<lambda>f. f_ref (ftable v f) = 0) [0..<NFILE] = Some wr" "f_ref (ftable v wr) = 0"
    using find [of "\<lambda>f. f_ref (ftable v f) = 0" h NFILE] h by auto
  have ne: "wr \<noteq> rd" using wr(2) by (auto simp: v_def)
  define w where "w = pipe_file wr pi True (pipe_file rd pi False (upd_file wr (\<lambda>x. x\<lparr>f_ref := 1\<rparr>) v))"
  have w: "procs w = procs s" "myproc w = myproc s" "ftable w rd = (ftable s rd)\<lparr>f_ref := 1, f_type := FD_PIPE,
      f_readable := True, f_writable := False, f_pipe := pi\<rparr>" "free_mem_list w = free_mem_list t"
    using ne by (simp_all add: w_def v_def u pipe_file_def) (simp add: upd_file_def u)
  have "List.find (\<lambda>fd. ofile (procs w p) fd = None) [0..<NOFILE] = None"
    using assms(2) by (auto simp: find_None_iff w)
  then have fd: "fdalloc rd w = Some (None, w)" using assms(1) by (simp add: fdalloc_def w current_def)
  have "fileclose rd x = None" if k: "kfree_pipe pi w = Some x" for x
  proof -
    have x: "ftable x = ftable w" "locked (locks x (LPipe pi)) = ((ucast (load64 (pmem x) pi) :: u32) \<noteq> 0)"
      "load64 (pmem x) pi = free_mem_list t"
      using k by (auto simp: kfree_pipe_def kfree_def w elim!: bind_eq_SomeE split: if_splits)
    have "unat (free_mem_list t) < 2 ^ 32" "0 < unat (free_mem_list t)"
      using assms(10,11) by (simp_all add: word_less_nat_alt word_le_nat_alt kdefs)
    then have "unat (ucast (free_mem_list t) :: u32) \<noteq> 0"
      by (simp add: unsigned_ucast_eq take_bit_nat_eq_self)
    then have "(ucast (free_mem_list t) :: u32) \<noteq> 0" by (metis unat_0)
    then have "acquire (LPipe pi) (upd_file rd (\<lambda>x. x\<lparr>f_ref := f_ref x - 1\<rparr>) x) = None"
      using x(2,3) by (simp add: acquire_def push_off_def intr_off_def Let_def upd_file_def)
    then show ?thesis by (simp add: fileclose_def Let_def x(1) w FD_PIPE_def FD_INODE_def FD_CONSOLE_def pipeclose_def)
  qed
  then have bad: "pipe_bad p pi (Some rd) (Some wr) None None w = None"
    by (cases "kfree_pipe pi w") (auto simp: pipe_bad_def close_end_def)
  obtain a where a: "argaddr 0 s = Some a" using assms(1) by (auto simp: argaddr_def argraw_def current_def)
  show ?thesis
    using assms(1,8,9) rd wr bad fd a
    by (simp add: sys_pipe_def current_def filealloc_def pipe_fds_def u_def [symmetric] v_def [symmetric] w_def [symmetric])
qed

text \<open>The same process with all descriptors in use, and two free pages.\<close>

definition tiny_full :: kst where
  "tiny_full = tiny_dup\<lparr>procs := (\<lambda>_. zero_proc)(0 := zero_proc\<lparr>status := TASK_RUNNING, pid := 1,
       trapframe := 0x80005000, ofile := (\<lambda>_. Some 0)\<rparr>),
     pmem := store64 (\<lambda>_. 0) 0x87000000 0x87001000, free_mem_list := 0x87000000\<rparr>"

theorem pipe_without_descriptor_hangs_witness:
  "current tiny_full 0 \<and> ofile (procs tiny_full 0) 15 \<noteq> None \<and> sys_pipe tiny_full = None"
proof -
  have c: "current tiny_full 0" "\<forall>fd < NOFILE. ofile (procs tiny_full 0) fd \<noteq> None"
    using tiny_dup_simps(1) by (simp_all add: tiny_full_def current_def myproc_def dead_def NPROC_def)
  have f: "f_ref (ftable tiny_full 1) = 0" "f_ref (ftable tiny_full 2) = 0"
    by (simp_all add: tiny_full_def tiny_dup_def tiny_cons_def fs_st.defs)
  have k: "kalloc tiny_full = (0x87000000, tiny_full\<lparr>free_mem_list := 0x87001000\<rparr>)"
    by (simp add: kalloc_def tiny_full_def)
  show ?thesis
    using pipe_without_descriptor_hangs [OF c _ _ _ f k] c by (simp add: NFILE_def NOFILE_def kdefs)
qed

end
