(* ===== verification/Virtio.thy ===== *)
theory Virtio
  imports Console
begin

text \<open>
  The disk driver \<open>kernel/driver/virtio_disk.c\<close>. Its static data (\<open>struct disk\<close>,
  the request headers and the rings in \<open>vring_mem\<close>) is the record \<open>vdisk\<close>; an address
  in a descriptor is the kernel object it points to (\<open>daddr\<close>). A read of a device register
  gives what the device presents there (\<open>mmio_in\<close>), the writes are logged in order
  (\<open>mmio_out\<close>). The device itself is not part of the program: it is an argument of the
  polling loop, and \<open>virtio_device\<close> states what the VirtIO specification says it does.
\<close>

section \<open>Data\<close>

definition NUM :: nat where [kdefs]: "NUM = 8"

definition VIRTIO_MMIO_MAGIC_VALUE :: nat where [kdefs]: "VIRTIO_MMIO_MAGIC_VALUE = 0x000"
definition VIRTIO_MMIO_VERSION :: nat where [kdefs]: "VIRTIO_MMIO_VERSION = 0x004"
definition VIRTIO_MMIO_DEVICE_ID :: nat where [kdefs]: "VIRTIO_MMIO_DEVICE_ID = 0x008"
definition VIRTIO_MMIO_VENDOR_ID :: nat where [kdefs]: "VIRTIO_MMIO_VENDOR_ID = 0x00c"
definition VIRTIO_MMIO_DEVICE_FEATURES :: nat where [kdefs]: "VIRTIO_MMIO_DEVICE_FEATURES = 0x010"
definition VIRTIO_MMIO_DRIVER_FEATURES :: nat where [kdefs]: "VIRTIO_MMIO_DRIVER_FEATURES = 0x020"
definition VIRTIO_MMIO_GUEST_PAGE_SIZE :: nat where [kdefs]: "VIRTIO_MMIO_GUEST_PAGE_SIZE = 0x028"
definition VIRTIO_MMIO_QUEUE_SEL :: nat where [kdefs]: "VIRTIO_MMIO_QUEUE_SEL = 0x030"
definition VIRTIO_MMIO_QUEUE_NUM_MAX :: nat where [kdefs]: "VIRTIO_MMIO_QUEUE_NUM_MAX = 0x034"
definition VIRTIO_MMIO_QUEUE_NUM :: nat where [kdefs]: "VIRTIO_MMIO_QUEUE_NUM = 0x038"
definition VIRTIO_MMIO_QUEUE_ALIGN :: nat where [kdefs]: "VIRTIO_MMIO_QUEUE_ALIGN = 0x03c"
definition VIRTIO_MMIO_QUEUE_PFN :: nat where [kdefs]: "VIRTIO_MMIO_QUEUE_PFN = 0x040"
definition VIRTIO_MMIO_QUEUE_NOTIFY :: nat where [kdefs]: "VIRTIO_MMIO_QUEUE_NOTIFY = 0x050"
definition VIRTIO_MMIO_INTERRUPT_STATUS :: nat where [kdefs]: "VIRTIO_MMIO_INTERRUPT_STATUS = 0x060"
definition VIRTIO_MMIO_INTERRUPT_ACK :: nat where [kdefs]: "VIRTIO_MMIO_INTERRUPT_ACK = 0x064"
definition VIRTIO_MMIO_STATUS :: nat where [kdefs]: "VIRTIO_MMIO_STATUS = 0x070"

definition VIRTIO_CONFIG_S_ACKNOWLEDGE :: u32 where [kdefs]: "VIRTIO_CONFIG_S_ACKNOWLEDGE = 1"
definition VIRTIO_CONFIG_S_DRIVER :: u32 where [kdefs]: "VIRTIO_CONFIG_S_DRIVER = 2"
definition VIRTIO_CONFIG_S_DRIVER_OK :: u32 where [kdefs]: "VIRTIO_CONFIG_S_DRIVER_OK = 4"
definition VIRTIO_CONFIG_S_FEATURES_OK :: u32 where [kdefs]: "VIRTIO_CONFIG_S_FEATURES_OK = 8"

definition VIRTIO_BLK_F_RO :: nat where [kdefs]: "VIRTIO_BLK_F_RO = 5"
definition VIRTIO_BLK_F_SCSI :: nat where [kdefs]: "VIRTIO_BLK_F_SCSI = 7"
definition VIRTIO_BLK_F_CONFIG_WCE :: nat where [kdefs]: "VIRTIO_BLK_F_CONFIG_WCE = 11"
definition VIRTIO_BLK_F_MQ :: nat where [kdefs]: "VIRTIO_BLK_F_MQ = 12"
definition VIRTIO_F_ANY_LAYOUT :: nat where [kdefs]: "VIRTIO_F_ANY_LAYOUT = 27"
definition VIRTIO_RING_F_INDIRECT_DESC :: nat where [kdefs]: "VIRTIO_RING_F_INDIRECT_DESC = 28"
definition VIRTIO_RING_F_EVENT_IDX :: nat where [kdefs]: "VIRTIO_RING_F_EVENT_IDX = 29"

definition VRING_DESC_F_NEXT :: u16 where [kdefs]: "VRING_DESC_F_NEXT = 1"
definition VRING_DESC_F_WRITE :: u16 where [kdefs]: "VRING_DESC_F_WRITE = 2"
definition VIRTIO_BLK_T_IN :: u32 where [kdefs]: "VIRTIO_BLK_T_IN = 0"
definition VIRTIO_BLK_T_OUT :: u32 where [kdefs]: "VIRTIO_BLK_T_OUT = 1"

text \<open>What a descriptor points to: a request header \<open>disk_req[i]\<close>, the data of a
  buffer, or a status byte \<open>disk.info[i].status\<close>.\<close>

datatype daddr = DNull | DReq nat | DBuf nat | DStatus nat

record virtq_desc =
  d_addr :: daddr
  d_len :: u32
  d_flags :: u16
  d_next :: u16

record virtio_blk_req =
  r_type :: u32
  r_reserved :: u32
  r_sector :: u64

record vdisk =
  desc :: "nat \<Rightarrow> virtq_desc"
  avail_idx :: u16
  avail_ring :: "nat \<Rightarrow> u16"
  used_dev_idx :: u16             \<comment> \<open>\<open>disk.used->idx\<close>, advanced by the device\<close>
  used_ring :: "nat \<Rightarrow> u32"       \<comment> \<open>\<open>disk.used->ring[i].id\<close>\<close>
  desc_ptr :: u64
  avail_ptr :: u64
  used_ptr :: u64
  dfree :: "nat \<Rightarrow> bool"
  used_idx :: u16                 \<comment> \<open>\<open>disk.used_idx\<close>, how far the driver has looked\<close>
  info_b :: "nat \<Rightarrow> nat option"
  info_status :: "nat \<Rightarrow> u8"
  disk_req :: "nat \<Rightarrow> virtio_blk_req"
  vring_mem :: u64                \<comment> \<open>address of the rings, fixed by the linker\<close>
  mmio_in :: "nat \<Rightarrow> u32"
  mmio_out :: "(nat \<times> u32) list"

record vst = kst + vd :: vdisk

definition upd_vd :: "(vdisk \<Rightarrow> vdisk) \<Rightarrow> 'a vst_scheme \<Rightarrow> 'a vst_scheme" where
  "upd_vd f s = s\<lparr>vd := f (vd s)\<rparr>"

definition mmio_write :: "nat \<Rightarrow> u32 \<Rightarrow> 'a vst_scheme \<Rightarrow> 'a vst_scheme" where
  "mmio_write r v s = upd_vd (\<lambda>d. d\<lparr>mmio_out := mmio_out d @ [(r, v)]\<rparr>) s"

definition zero_desc :: virtq_desc where
  "zero_desc = \<lparr>d_addr = DNull, d_len = 0, d_flags = 0, d_next = 0\<rparr>"

section \<open>Initialisation\<close>

definition virtio_features :: "u32 \<Rightarrow> u32" where
  "virtio_features w =
     (let features = (ucast w :: u64);
          features = features AND NOT (push_bit VIRTIO_BLK_F_RO 1);
          features = features AND NOT (push_bit VIRTIO_BLK_F_SCSI 1);
          features = features AND NOT (push_bit VIRTIO_BLK_F_CONFIG_WCE 1);
          features = features AND NOT (push_bit VIRTIO_BLK_F_MQ 1);
          features = features AND NOT (push_bit VIRTIO_F_ANY_LAYOUT 1);
          features = features AND NOT (push_bit VIRTIO_RING_F_EVENT_IDX 1);
          features = features AND NOT (push_bit VIRTIO_RING_F_INDIRECT_DESC 1)
      in ucast features)"

text \<open>Step 5 and 8: the rings in \<open>vring_mem\<close> are zeroed, every descriptor is free.\<close>

definition vring_init :: "vdisk \<Rightarrow> vdisk" where
  "vring_init d = d\<lparr>desc := (\<lambda>_. zero_desc), avail_idx := 0, avail_ring := (\<lambda>_. 0), used_dev_idx := 0,
     used_ring := (\<lambda>_. 0), desc_ptr := vring_mem d, avail_ptr := vring_mem d + of_nat NUM * 16,
     used_ptr := vring_mem d + PGSIZE\<rparr>"

definition virtio_disk_init :: "'a vst_scheme \<Rightarrow> 'a vst_scheme option" where
  "virtio_disk_init s =
     (let s = initlock LDisk s; reg = (\<lambda>r. mmio_in (vd s) r) in
      if reg VIRTIO_MMIO_MAGIC_VALUE \<noteq> 0x74726976 \<or> reg VIRTIO_MMIO_VERSION \<noteq> 1 \<or>
         reg VIRTIO_MMIO_DEVICE_ID \<noteq> 2 \<or> reg VIRTIO_MMIO_VENDOR_ID \<noteq> 0x554d4551
      then None  \<comment> \<open>panic: could not find virtio disk\<close>
      else do { let status = VIRTIO_CONFIG_S_ACKNOWLEDGE;
                let s = mmio_write VIRTIO_MMIO_STATUS status s;
                let status = status OR VIRTIO_CONFIG_S_DRIVER;
                let s = mmio_write VIRTIO_MMIO_STATUS status s;
                let s = mmio_write VIRTIO_MMIO_DRIVER_FEATURES (virtio_features (reg VIRTIO_MMIO_DEVICE_FEATURES)) s;
                let status = status OR VIRTIO_CONFIG_S_FEATURES_OK;
                let s = mmio_write VIRTIO_MMIO_STATUS status s;
                let s = mmio_write VIRTIO_MMIO_GUEST_PAGE_SIZE 4096 s;
                let s = mmio_write VIRTIO_MMIO_QUEUE_SEL 0 s;
                let qmax = reg VIRTIO_MMIO_QUEUE_NUM_MAX;
                if qmax = 0 then None  \<comment> \<open>panic: virtio disk has no queue 0\<close>
                else if qmax < of_nat NUM then None  \<comment> \<open>panic: virtio disk max queue too short\<close>
                else do { let s = upd_vd vring_init s;
                          let s = mmio_write VIRTIO_MMIO_QUEUE_NUM (of_nat NUM) s;
                          let s = mmio_write VIRTIO_MMIO_QUEUE_ALIGN 4096 s;
                          let s = mmio_write VIRTIO_MMIO_QUEUE_PFN (ucast (drop_bit 12 (desc_ptr (vd s)))) s;
                          let s = upd_vd (\<lambda>d. d\<lparr>dfree := (\<lambda>i. i < NUM \<or> dfree d i)\<rparr>) s;
                          let status = status OR VIRTIO_CONFIG_S_DRIVER_OK;
                          Some (mmio_write VIRTIO_MMIO_STATUS status s) } })"

section \<open>Descriptors\<close>

text \<open>The loop of \<open>alloc3_desc\<close>; \<open>idx\<close> are the descriptors taken so far.\<close>

fun alloc_descs :: "nat \<Rightarrow> nat list \<Rightarrow> 'a vst_scheme \<Rightarrow> nat list option \<times> 'a vst_scheme" where
  "alloc_descs 0 idx s = (Some idx, s)"
| "alloc_descs (Suc k) idx s =
     (case List.find (dfree (vd s)) [0..<NUM] of
        Some j \<Rightarrow> alloc_descs k (idx @ [j]) (upd_vd (\<lambda>d. d\<lparr>dfree := (dfree d)(j := False)\<rparr>) s)
      | None \<Rightarrow> (None, fold (\<lambda>j. upd_vd (\<lambda>d. d\<lparr>dfree := (dfree d)(j := True)\<rparr>)) idx s))"

definition alloc3_desc :: "'a vst_scheme \<Rightarrow> nat list option \<times> 'a vst_scheme" where
  "alloc3_desc s = alloc_descs 3 [] s"

definition free_desc :: "nat \<Rightarrow> 'a vst_scheme \<Rightarrow> 'a vst_scheme option" where
  "free_desc i s =
     (if NUM \<le> i then None  \<comment> \<open>panic: free_desc 1\<close>
      else if dfree (vd s) i then None  \<comment> \<open>panic: free_desc 2\<close>
      else wakeup CDisk (upd_vd (\<lambda>d. d\<lparr>desc := (desc d)(i := zero_desc), dfree := (dfree d)(i := True)\<rparr>) s))"

lemma vd_rest:
  assumes "proc_rest s' = proc_rest (s :: 'a vst_scheme)"
  shows "vd s' = vd s"
  using arg_cong [OF assms, of vd] by (simp add: proc_rest_def)

lemmas vd_wakeup = vd_rest [OF proc_rest_wakeup]

lemma free_desc_vd:
  assumes "free_desc i s = Some s'"
  shows "vd s' = (vd s)\<lparr>desc := (desc (vd s))(i := zero_desc), dfree := (dfree (vd s))(i := True)\<rparr>"
    and "i < NUM" and "\<not> dfree (vd s) i"
  using assms by (auto simp: free_desc_def upd_vd_def split: if_splits dest!: vd_wakeup)

lemma free_desc_less:
  assumes "free_desc i s = Some s'"
  shows "card {j. j < NUM \<and> \<not> dfree (vd s') j} < card {j. j < NUM \<and> \<not> dfree (vd s) j}"
  by (rule psubset_card_mono) (use free_desc_vd [OF assms] in auto)

text \<open>The chain is followed until a descriptor without \<open>VRING_DESC_F_NEXT\<close>; on a cycle
  \<open>free_desc\<close> panics.\<close>

function free_chain :: "nat \<Rightarrow> 'a vst_scheme \<Rightarrow> 'a vst_scheme option" where
  "free_chain i s =
     (case free_desc i s of
        None \<Rightarrow> None
      | Some s' \<Rightarrow>
          if d_flags (desc (vd s) i) AND VRING_DESC_F_NEXT \<noteq> 0
          then free_chain (unat (d_next (desc (vd s) i))) s' else Some s')"
  by pat_completeness auto
termination
  by (relation "measure (\<lambda>(i, s). card {j. j < NUM \<and> \<not> dfree (vd s) j})")
    (auto dest: free_desc_less)

declare free_chain.simps [simp del]

section \<open>Requests\<close>

text \<open>The three descriptors of a request, the available ring and the notification, with
  \<open>vdisk_lock\<close> held.\<close>

definition virtio_chain :: "nat \<Rightarrow> bool \<Rightarrow> u64 \<Rightarrow> nat \<Rightarrow> nat \<Rightarrow> nat \<Rightarrow> vdisk \<Rightarrow> vdisk" where
  "virtio_chain b wr sector i0 i1 i2 d =
     d\<lparr>disk_req := (disk_req d)(i0 := \<lparr>r_type = (if wr then VIRTIO_BLK_T_OUT else VIRTIO_BLK_T_IN),
          r_reserved = 0, r_sector = sector\<rparr>),
       desc := (desc d)
         (i0 := \<lparr>d_addr = DReq i0, d_len = 16, d_flags = VRING_DESC_F_NEXT, d_next = of_nat i1\<rparr>,
          i1 := \<lparr>d_addr = DBuf b, d_len = of_nat BSIZE,
                 d_flags = (if wr then 0 else VRING_DESC_F_WRITE) OR VRING_DESC_F_NEXT, d_next = of_nat i2\<rparr>,
          i2 := \<lparr>d_addr = DStatus i0, d_len = 1, d_flags = VRING_DESC_F_WRITE, d_next = 0\<rparr>),
       info_status := (info_status d)(i0 := 0),
       info_b := (info_b d)(i0 := Some b)\<rparr>"

definition virtio_publish :: "nat \<Rightarrow> vdisk \<Rightarrow> vdisk" where
  "virtio_publish i0 d =
     d\<lparr>avail_ring := (avail_ring d)(unat (avail_idx d) mod NUM := of_nat i0), avail_idx := avail_idx d + 1\<rparr>"

definition virtio_submit :: "nat \<Rightarrow> bool \<Rightarrow> nat list \<Rightarrow> 'a vst_scheme \<Rightarrow> 'a vst_scheme" where
  "virtio_submit b wr idx s =
     (let sector = ucast (b_blockno (bcache s b) * of_nat (BSIZE div 512));
          s = upd_vd (virtio_chain b wr sector (idx ! 0) (idx ! 1) (idx ! 2)) s;
          s = s\<lparr>bcache := upd_buf b (b_disk_update (\<lambda>_. True)) (bcache s)\<rparr>;
          s = upd_vd (virtio_publish (idx ! 0)) s
      in mmio_write VIRTIO_MMIO_QUEUE_NOTIFY 0 s)"

text \<open>A used element: \<^term>\<open>None\<close> for the panic, an index outside \<open>info\<close> or a NULL
  buffer.\<close>

definition virtio_complete :: "'a vst_scheme \<Rightarrow> 'a vst_scheme option" where
  "virtio_complete s =
     (let id = unat (used_ring (vd s) (unat (used_idx (vd s)) mod NUM)) in
      if NUM \<le> id then None
      else if info_status (vd s) id \<noteq> 0 then None  \<comment> \<open>panic: virtio_disk_intr status\<close>
      else do { b \<leftarrow> info_b (vd s) id;
                let s = s\<lparr>bcache := upd_buf b (b_disk_update (\<lambda>_. False)) (bcache s)\<rparr>;
                s \<leftarrow> wakeup (CBuf b) s;
                Some (upd_vd (\<lambda>d. d\<lparr>used_idx := used_idx d + 1\<rparr>) s) })"

lemma virtio_complete_vd: "virtio_complete s = Some s' \<Longrightarrow> vd s' = (vd s)\<lparr>used_idx := used_idx (vd s) + 1\<rparr>"
  by (auto simp: virtio_complete_def upd_vd_def Let_def elim!: bind_eq_SomeE split: if_splits dest!: vd_wakeup)

lemma unat_diff_less: "a \<noteq> b \<Longrightarrow> unat (b - (a + 1)) < unat (b - a)" for a b :: "'a :: len word"
proof -
  assume "a \<noteq> b"
  then have "b - a \<noteq> 0" by simp
  then have "unat (b - a - 1) = unat (b - a) - 1" "0 < unat (b - a)" by (simp_all add: unat_minus_one unat_gt_0)
  then show ?thesis by (simp add: diff_diff_eq)
qed

function virtio_intr_loop :: "'a vst_scheme \<Rightarrow> 'a vst_scheme option" where
  "virtio_intr_loop s =
     (if used_idx (vd s) = used_dev_idx (vd s) then Some s
      else case virtio_complete s of None \<Rightarrow> None | Some s' \<Rightarrow> virtio_intr_loop s')"
  by pat_completeness auto
termination
  by (relation "measure (\<lambda>s. unat (used_dev_idx (vd s) - used_idx (vd s)))")
    (auto simp: virtio_complete_vd unat_diff_less)

declare virtio_intr_loop.simps [simp del]

definition virtio_disk_intr :: "'a vst_scheme \<Rightarrow> 'a vst_scheme option" where
  "virtio_disk_intr s =
     do { s \<leftarrow> acquire LDisk s;
          let s = mmio_write VIRTIO_MMIO_INTERRUPT_ACK (mmio_in (vd s) VIRTIO_MMIO_INTERRUPT_STATUS AND 3) s;
          s \<leftarrow> virtio_intr_loop s;
          Some (release LDisk s) }"

section \<open>\<open>virtio_disk_rw\<close>\<close>

text \<open>Where a request sleeps: for free descriptors, or for the completion of its buffer.\<close>

datatype rw_cont = RwDesc nat bool | RwBuf nat nat

definition rw_finish :: "nat \<Rightarrow> 'a vst_scheme \<Rightarrow> 'a vst_scheme option" where
  "rw_finish i0 s =
     do { s \<leftarrow> free_chain i0 (upd_vd (\<lambda>d. d\<lparr>info_b := (info_b d)(i0 := None)\<rparr>) s);
          Some (release LDisk s) }"

text \<open>
  Without a current process the driver polls. \<open>dev n\<close> is what the device does
  before the \<open>n\<close>th call of \<open>virtio_disk_intr\<close>; the result is \<^term>\<open>None\<close> when the
  request is never completed.
\<close>

partial_function (option) rw_poll ::
  "(nat \<Rightarrow> 'a vst_scheme \<Rightarrow> 'a vst_scheme) \<Rightarrow> nat \<Rightarrow> nat \<Rightarrow> nat \<Rightarrow> 'a vst_scheme \<Rightarrow> 'a vst_scheme option" where
  "rw_poll dev n b i0 s =
     (if b_disk (bcache s b)
      then do { s \<leftarrow> virtio_disk_intr (dev n (release LDisk s));
                s \<leftarrow> acquire LDisk s;
                rw_poll dev (Suc n) b i0 s }
      else rw_finish i0 s)"

definition rw_wait ::
  "(nat \<Rightarrow> 'a vst_scheme \<Rightarrow> 'a vst_scheme) \<Rightarrow> nat \<Rightarrow> nat \<Rightarrow> 'a vst_scheme \<Rightarrow> (rw_cont io \<times> 'a vst_scheme) option" where
  "rw_wait dev b i0 s =
     (if b_disk (bcache s b) \<and> myproc s \<noteq> None
      then do { s \<leftarrow> sleep_out (CBuf b) LDisk s; Some (Blocked (RwBuf b i0), s) }
      else do { s \<leftarrow> rw_poll dev 0 b i0 s; Some (Result 0, s) })"

definition rw_alloc ::
  "(nat \<Rightarrow> 'a vst_scheme \<Rightarrow> 'a vst_scheme) \<Rightarrow> nat \<Rightarrow> bool \<Rightarrow> 'a vst_scheme \<Rightarrow> (rw_cont io \<times> 'a vst_scheme) option" where
  "rw_alloc dev b wr s =
     (case alloc3_desc s of
        (Some idx, s) \<Rightarrow> rw_wait dev b (idx ! 0) (virtio_submit b wr idx s)
      | (None, s) \<Rightarrow> do { s \<leftarrow> sleep_out CDisk LDisk s; Some (Blocked (RwDesc b wr), s) })"

definition virtio_disk_rw ::
  "(nat \<Rightarrow> 'a vst_scheme \<Rightarrow> 'a vst_scheme) \<Rightarrow> nat \<Rightarrow> bool \<Rightarrow> 'a vst_scheme \<Rightarrow> (rw_cont io \<times> 'a vst_scheme) option" where
  "virtio_disk_rw dev b wr s = do { s \<leftarrow> acquire LDisk s; rw_alloc dev b wr s }"

fun rw_resume ::
  "(nat \<Rightarrow> 'a vst_scheme \<Rightarrow> 'a vst_scheme) \<Rightarrow> nat \<Rightarrow> rw_cont \<Rightarrow> 'a vst_scheme \<Rightarrow> (rw_cont io \<times> 'a vst_scheme) option" where
  "rw_resume dev p (RwDesc b wr) s = do { s \<leftarrow> sleep_in p LDisk s; rw_alloc dev b wr s }"
| "rw_resume dev p (RwBuf b i0) s = do { s \<leftarrow> sleep_in p LDisk s; rw_wait dev b i0 s }"

section \<open>The device\<close>

text \<open>
  What the VirtIO specification says a block device does with the oldest chain it has not
  served: it follows the chain from the head in the available ring, as long as \<open>VRING_DESC_F_NEXT\<close> says,
  transfers the block at the header's sector (a block is two sectors), writes status 0, reports the head in the used
  ring and raises its interrupt. It does so for a chain in the form the specification asks for: a header of 16 bytes that the
  device reads, a data buffer of one block that it writes for a read request and reads for a write request, and one byte
  of status that it writes. What it does with any other chain the specification leaves open, and so does the
  model. The driver never looks at how the device does this.
\<close>

definition device_transfer :: "virtio_blk_req \<Rightarrow> nat \<Rightarrow> 'a blk_st_scheme \<Rightarrow> 'a blk_st_scheme" where
  "device_transfer req b s =
     (let n = ucast (r_sector req div 2) in
      if r_type req = VIRTIO_BLK_T_OUT then s\<lparr>disk_blocks := (disk_blocks s)(n := b_data (bcache s b))\<rparr>
      else s\<lparr>bcache := upd_buf b (b_data_update (\<lambda>_. disk_blocks s n)) (bcache s)\<rparr>)"

definition device_report :: "nat \<Rightarrow> nat \<Rightarrow> vdisk \<Rightarrow> vdisk" where
  "device_report head t d =
     d\<lparr>info_status := (info_status d)(t := 0),
       used_ring := (used_ring d)(unat (used_dev_idx d) mod NUM := of_nat head),
       used_dev_idx := used_dev_idx d + 1, mmio_in := (mmio_in d)(VIRTIO_MMIO_INTERRUPT_STATUS := 1)\<rparr>"

definition request_form :: "virtio_blk_req \<Rightarrow> virtq_desc \<Rightarrow> virtq_desc \<Rightarrow> virtq_desc \<Rightarrow> bool" where
  "request_form req d0 d1 d2 \<longleftrightarrow>
     d_len d0 = 16 \<and> d_flags d0 = VRING_DESC_F_NEXT \<and> (r_type req = VIRTIO_BLK_T_IN \<or> r_type req = VIRTIO_BLK_T_OUT) \<and>
     d_len d1 = 1024 \<and> d_flags d1 = (if r_type req = VIRTIO_BLK_T_IN then VRING_DESC_F_WRITE OR VRING_DESC_F_NEXT else VRING_DESC_F_NEXT) \<and>
     d_len d2 = 1 \<and> d_flags d2 = VRING_DESC_F_WRITE \<and> r_sector req mod 2 = 0"

text \<open>\<^term>\<open>None\<close>: the chain does not have the form of a request.\<close>

definition device_serve :: "'a vst_scheme \<Rightarrow> 'a vst_scheme option" where
  "device_serve s =
     (let d = vd s; head = unat (avail_ring d (unat (used_dev_idx d) mod NUM));
          d0 = desc d head; d1 = desc d (unat (d_next d0)); d2 = desc d (unat (d_next d1)) in
      case (d_addr d0, d_addr d1, d_addr d2) of
        (DReq r, DBuf b, DStatus t) \<Rightarrow>
          if request_form (disk_req d r) d0 d1 d2
          then Some (upd_vd (device_report head t) (device_transfer (disk_req d r) b s)) else None
      | _ \<Rightarrow> None)"

text \<open>A device that may take its time: with nothing to serve it does nothing; at each poll with a well-formed request it has
  done nothing or served it, and one that is pending at poll \<open>k\<close> is served then.\<close>

definition virtio_device :: "(nat \<Rightarrow> 'a vst_scheme \<Rightarrow> 'a vst_scheme) \<Rightarrow> nat \<Rightarrow> bool" where
  "virtio_device dev k \<longleftrightarrow>
     (\<forall>n s. avail_idx (vd s) = used_dev_idx (vd s) \<longrightarrow> dev n s = s) \<and>
     (\<forall>n s s'. avail_idx (vd s) \<noteq> used_dev_idx (vd s) \<longrightarrow> device_serve s = Some s' \<longrightarrow> dev n s = s \<or> dev n s = s') \<and>
     (\<forall>s s'. avail_idx (vd s) \<noteq> used_dev_idx (vd s) \<longrightarrow> device_serve s = Some s' \<longrightarrow> dev k s = s')"

section \<open>Lemmas\<close>

definition vd_idle :: "vdisk \<Rightarrow> bool" where
  "vd_idle d \<longleftrightarrow> used_idx d = used_dev_idx d \<and> avail_idx d = used_dev_idx d"

definition free_descs :: "vdisk \<Rightarrow> nat set" where
  "free_descs d = {j. j < NUM \<and> dfree d j}"

lemma finite_free_descs [simp]: "finite (free_descs d)" by (simp add: free_descs_def)

lemma vd_upd [simp]: "vd (upd_vd f s) = f (vd s)" "procs (upd_vd f s) = procs s" "myproc (upd_vd f s) = myproc s"
  "holds (upd_vd f s) = holds s" "bcache (upd_vd f s) = bcache s" "disk_blocks (upd_vd f s) = disk_blocks s"
  by (simp_all add: upd_vd_def myproc_def holds_def fun_eq_iff)

text \<open>Two updates of the free flags that have the same effect.\<close>

lemma upd_dfree_cong:
  "(\<And>i. G (F (dfree (vd s))) i = H (dfree (vd s)) i) \<Longrightarrow>
   upd_vd (\<lambda>d. d\<lparr>dfree := G (dfree d)\<rparr>) (upd_vd (\<lambda>d. d\<lparr>dfree := F (dfree d)\<rparr>) s) = upd_vd (\<lambda>d. d\<lparr>dfree := H (dfree d)\<rparr>) s"
proof -
  assume "\<And>i. G (F (dfree (vd s))) i = H (dfree (vd s)) i"
  then have "G (F (dfree (vd s))) = H (dfree (vd s))" by (rule ext)
  then show ?thesis by (simp add: upd_vd_def)
qed

lemma bcache_upd [simp]: "holds (s\<lparr>bcache := c\<rparr>) = holds s" "myproc (s\<lparr>bcache := c\<rparr>) = myproc s"
  by (simp_all add: myproc_def holds_def fun_eq_iff)

lemma alloc_descs_some:
  "alloc_descs n idx s = (Some idx', s') \<Longrightarrow> \<exists>js. idx' = idx @ js \<and> length js = n \<and> distinct js \<and>
     set js \<subseteq> free_descs (vd s) \<and> s' = upd_vd (\<lambda>d. d\<lparr>dfree := (\<lambda>j. dfree d j \<and> j \<notin> set js)\<rparr>) s"
proof (induction n arbitrary: idx s)
  case (Suc n)
  then obtain j where j: "List.find (dfree (vd s)) [0..<NUM] = Some j"
    "alloc_descs n (idx @ [j]) (upd_vd (\<lambda>d. d\<lparr>dfree := (dfree d)(j := False)\<rparr>) s) = (Some idx', s')"
    by (auto split: option.splits)
  have f: "j \<in> free_descs (vd s)" using j(1) by (auto simp: find_Some_iff free_descs_def)
  obtain js where js: "idx' = (idx @ [j]) @ js" "length js = n" "distinct js"
    "set js \<subseteq> free_descs ((vd s)\<lparr>dfree := (dfree (vd s))(j := False)\<rparr>)"
    "s' = upd_vd (\<lambda>d. d\<lparr>dfree := (\<lambda>i. dfree d i \<and> i \<notin> set js)\<rparr>) (upd_vd (\<lambda>d. d\<lparr>dfree := (dfree d)(j := False)\<rparr>) s)"
    using Suc.IH [OF j(2)] by auto
  then have "distinct (j # js)" "set (j # js) \<subseteq> free_descs (vd s)"
    using f by (auto simp: free_descs_def split: if_splits)
  moreover have "s' = upd_vd (\<lambda>d. d\<lparr>dfree := (\<lambda>i. dfree d i \<and> i \<notin> set (j # js))\<rparr>) s"
    unfolding js(5) by (rule upd_dfree_cong) auto
  ultimately show ?case using js(1,2) by (intro exI [of _ "j # js"]) simp
qed (auto simp: upd_vd_def)

lemma alloc_descs_none:
  "alloc_descs n idx s = (None, s') \<Longrightarrow> card (free_descs (vd s)) < n \<and>
     s' = upd_vd (\<lambda>d. d\<lparr>dfree := (\<lambda>j. dfree d j \<or> j \<in> set idx)\<rparr>) s"
proof (induction n arbitrary: idx s)
  case (Suc n)
  show ?case
  proof (cases "List.find (dfree (vd s)) [0..<NUM]")
    case None
    then have e: "free_descs (vd s) = {}" by (auto simp: find_None_iff free_descs_def)
    have "fold (\<lambda>j. upd_vd (\<lambda>d. d\<lparr>dfree := (dfree d)(j := True)\<rparr>)) idx t =
      upd_vd (\<lambda>d. d\<lparr>dfree := (\<lambda>j. dfree d j \<or> j \<in> set idx)\<rparr>) t" for t :: "'a vst_scheme"
    proof (induction idx arbitrary: t)
      case (Cons j idx)
      have "upd_vd (\<lambda>d. d\<lparr>dfree := (\<lambda>i. dfree d i \<or> i \<in> set idx)\<rparr>) (upd_vd (\<lambda>d. d\<lparr>dfree := (dfree d)(j := True)\<rparr>) t) =
        upd_vd (\<lambda>d. d\<lparr>dfree := (\<lambda>i. dfree d i \<or> i \<in> set (j # idx))\<rparr>) t"
        by (rule upd_dfree_cong) auto
      then show ?case by (simp only: fold_simps Cons.IH)
    qed (simp add: upd_vd_def)
    then show ?thesis using Suc.prems None e by simp
  next
    case (Some j)
    let ?t = "upd_vd (\<lambda>d. d\<lparr>dfree := (dfree d)(j := False)\<rparr>) s"
    have j: "j \<in> free_descs (vd s)" using Some by (auto simp: find_Some_iff free_descs_def)
    have i: "card (free_descs (vd ?t)) < n" "s' = upd_vd (\<lambda>d. d\<lparr>dfree := (\<lambda>i. dfree d i \<or> i \<in> set (idx @ [j]))\<rparr>) ?t"
      using Suc.IH [of "idx @ [j]" ?t] Suc.prems Some by simp_all
    have "free_descs (vd ?t) = free_descs (vd s) - {j}" by (auto simp: free_descs_def)
    then have "card (free_descs (vd s)) < Suc n" using i(1) j by simp
    moreover have "s' = upd_vd (\<lambda>d. d\<lparr>dfree := (\<lambda>j. dfree d j \<or> j \<in> set idx)\<rparr>) s"
      unfolding i(2) using j by (intro upd_dfree_cong) (auto simp: free_descs_def)
    ultimately show ?thesis by simp
  qed
qed simp

text \<open>Outside processes, CPU and locks, the lock operations and \<open>wakeup\<close> change nothing.\<close>

lemma vst_rest:
  assumes "proc_rest s' = proc_rest (s :: 'a vst_scheme)"
  shows "vd s' = vd s" and "bcache s' = bcache s" and "disk_blocks s' = disk_blocks s"
  using vd_rest [OF assms] arg_cong [OF assms, of bcache] arg_cong [OF assms, of disk_blocks] by (simp_all add: proc_rest_def)

lemma vst_release [simp]:
  "vd (release lk s) = vd s" "bcache (release lk s) = bcache s" "disk_blocks (release lk s) = disk_blocks s"
  for s :: "'a vst_scheme"
  by (rule vst_rest, simp)+

text \<open>A lock operation or a \<open>wakeup\<close> with the locks of \<open>L\<close> held.\<close>

lemma vst_acquire:
  assumes "holds (s :: 'a vst_scheme) L ie" and "lk \<notin> L"
  obtains s' where "acquire lk s = Some s'" "holds s' (insert lk L) ie" "procs s' = procs s" "myproc s' = myproc s"
    "vd s' = vd s" "bcache s' = bcache s" "disk_blocks s' = disk_blocks s"
  using with_lock [OF assms] vst_rest [OF proc_rest_acquire] by metis

lemma vst_wakeup:
  assumes "holds (s :: 'a vst_scheme) L ie" and "\<forall>j. LProc j \<in> L \<longrightarrow> myproc s = Some j"
  obtains s' where "wakeup ch s = Some s'" "holds s' L ie" "myproc s' = myproc s"
    "procs s' = (\<lambda>i. wake (myproc s) ch i (procs s i))"
    "vd s' = vd s" "bcache s' = bcache s" "disk_blocks s' = disk_blocks s"
  using wakeup_ok [OF assms, of ch] vst_rest [OF proc_rest_wakeup] by metis

definition clear_desc :: "nat \<Rightarrow> vdisk \<Rightarrow> vdisk" where
  "clear_desc i d = d\<lparr>desc := (desc d)(i := zero_desc), dfree := (dfree d)(i := True)\<rparr>"

lemma free_desc_ok:
  assumes "holds s {LDisk} ie" and "i < NUM" and "\<not> dfree (vd s) i"
  obtains s' where "free_desc i s = Some s'" "holds s' {LDisk} ie" "myproc s' = myproc s"
    "procs s' = (\<lambda>j. wake (myproc s) CDisk j (procs s j))" "vd s' = clear_desc i (vd s)"
    "bcache s' = bcache s" "disk_blocks s' = disk_blocks s"
proof -
  let ?s = "upd_vd (clear_desc i) s"
  have "holds ?s {LDisk} ie" using assms(1) by simp
  from vst_wakeup [OF this, of CDisk] obtain s' where "wakeup CDisk ?s = Some s'" "holds s' {LDisk} ie" "myproc s' = myproc s"
    "procs s' = (\<lambda>j. wake (myproc s) CDisk j (procs s j))" "vd s' = clear_desc i (vd s)"
    "bcache s' = bcache s" "disk_blocks s' = disk_blocks s" by auto
  moreover have "free_desc i s = wakeup CDisk ?s"
    using assms(2,3) by (simp add: free_desc_def clear_desc_def [abs_def])
  ultimately show ?thesis using that by simp
qed

text \<open>A request that is in flight: published by the driver and not yet served.\<close>

definition chain_ok :: "nat \<Rightarrow> bool \<Rightarrow> nat \<times> nat \<times> nat \<Rightarrow> vdisk \<Rightarrow> bool" where
  "chain_ok b wr idx d \<longleftrightarrow> (case idx of (i0, i1, i2) \<Rightarrow>
     distinct [i0, i1, i2] \<and> i0 < NUM \<and> i1 < NUM \<and> i2 < NUM \<and> \<not> dfree d i0 \<and> \<not> dfree d i1 \<and> \<not> dfree d i2 \<and>
     desc d i0 = \<lparr>d_addr = DReq i0, d_len = 16, d_flags = VRING_DESC_F_NEXT, d_next = of_nat i1\<rparr> \<and>
     desc d i1 = \<lparr>d_addr = DBuf b, d_len = 1024,
       d_flags = (if wr then VRING_DESC_F_NEXT else VRING_DESC_F_WRITE OR VRING_DESC_F_NEXT), d_next = of_nat i2\<rparr> \<and>
     desc d i2 = \<lparr>d_addr = DStatus i0, d_len = 1, d_flags = VRING_DESC_F_WRITE, d_next = 0\<rparr>)"

definition in_flight :: "nat \<Rightarrow> bool \<Rightarrow> u64 \<Rightarrow> nat \<times> nat \<times> nat \<Rightarrow> vdisk \<Rightarrow> bool" where
  "in_flight b wr sector idx d \<longleftrightarrow> chain_ok b wr idx d \<and> (case idx of (i0, i1, i2) \<Rightarrow>
     disk_req d i0 = \<lparr>r_type = (if wr then VIRTIO_BLK_T_OUT else VIRTIO_BLK_T_IN), r_reserved = 0, r_sector = sector\<rparr> \<and>
     info_b d i0 = Some b \<and> info_status d i0 = 0)"

definition pending :: "nat \<Rightarrow> vdisk \<Rightarrow> bool" where
  "pending i0 d \<longleftrightarrow> used_idx d = used_dev_idx d \<and> avail_idx d = used_dev_idx d + 1 \<and>
     avail_ring d (unat (used_dev_idx d) mod NUM) = of_nat i0"

definition served :: "nat \<Rightarrow> vdisk \<Rightarrow> bool" where
  "served i0 d \<longleftrightarrow> used_dev_idx d = used_idx d + 1 \<and> avail_idx d = used_dev_idx d \<and>
     used_ring d (unat (used_idx d) mod NUM) = of_nat i0"

lemma unat_of_small: "i < NUM \<Longrightarrow> unat (of_nat i :: 16 word) = i" "i < NUM \<Longrightarrow> unat (of_nat i :: u32) = i"
  by (simp_all add: NUM_def unsigned_of_nat take_bit_nat_eq_self)

lemma submit_in_flight:
  assumes "distinct [i0, i1, i2]" and "{i0, i1, i2} \<subseteq> {..<NUM}" and "\<not> dfree (vd s) i0" and "\<not> dfree (vd s) i1"
    and "\<not> dfree (vd s) i2" and "vd_idle (vd s)"
  shows "in_flight b wr (ucast (b_blockno (bcache s b) * 2)) (i0, i1, i2) (vd (virtio_submit b wr [i0, i1, i2] s))"
    and "pending i0 (vd (virtio_submit b wr [i0, i1, i2] s))"
  using assms
  by (simp_all add: virtio_submit_def Let_def virtio_chain_def virtio_publish_def in_flight_def chain_ok_def pending_def vd_idle_def
    mmio_write_def BSIZE_def)

lemma free_chain_ok:
  assumes "holds s {LDisk} ie" and "chain_ok b wr (i0, i1, i2) (vd s)"
  obtains s' where "free_chain i0 s = Some s'" "holds s' {LDisk} ie" "myproc s' = myproc s"
    "procs s' = (\<lambda>j. wake (myproc s) CDisk j (procs s j))"
    "vd s' = clear_desc i2 (clear_desc i1 (clear_desc i0 (vd s)))" "bcache s' = bcache s" "disk_blocks s' = disk_blocks s"
proof -
  note f = assms(2) [unfolded chain_ok_def prod.case]
  have ne: "i1 \<noteq> i0" "i2 \<noteq> i0" "i2 \<noteq> i1" using f by auto
  obtain t where t: "free_desc i0 s = Some t" "holds t {LDisk} ie" "myproc t = myproc s"
    "procs t = (\<lambda>j. wake (myproc s) CDisk j (procs s j))" "vd t = clear_desc i0 (vd s)" "bcache t = bcache s"
    "disk_blocks t = disk_blocks s" by (rule free_desc_ok [OF assms(1), of i0]) (use f in auto)
  obtain u where u: "free_desc i1 t = Some u" "holds u {LDisk} ie" "myproc u = myproc t"
    "procs u = (\<lambda>j. wake (myproc t) CDisk j (procs t j))" "vd u = clear_desc i1 (vd t)" "bcache u = bcache t"
    "disk_blocks u = disk_blocks t" by (rule free_desc_ok [OF t(2), of i1]) (use f ne in \<open>auto simp: t(5) clear_desc_def\<close>)
  obtain v where v: "free_desc i2 u = Some v" "holds v {LDisk} ie" "myproc v = myproc u"
    "procs v = (\<lambda>j. wake (myproc u) CDisk j (procs u j))" "vd v = clear_desc i2 (vd u)" "bcache v = bcache u"
    "disk_blocks v = disk_blocks u" by (rule free_desc_ok [OF u(2), of i2]) (use f ne in \<open>auto simp: t(5) u(5) clear_desc_def\<close>)
  have d: "desc (vd t) i1 = desc (vd s) i1" "desc (vd u) i2 = desc (vd s) i2"
    using ne by (simp_all add: t(5) u(5) clear_desc_def)
  have n: "unat (d_next (desc (vd s) i0)) = i1" "unat (d_next (desc (vd s) i1)) = i2"
    using f by (simp_all add: unat_of_small)
  have g: "d_flags (desc (vd s) i0) AND VRING_DESC_F_NEXT \<noteq> 0" "d_flags (desc (vd s) i1) AND VRING_DESC_F_NEXT \<noteq> 0"
    "d_flags (desc (vd s) i2) AND VRING_DESC_F_NEXT = 0"
    using f by (auto simp: VRING_DESC_F_NEXT_def VRING_DESC_F_WRITE_def)
  have "free_chain i2 u = Some v" using free_chain.simps [of i2 u] v(1) g(3) d(2) by simp
  then have "free_chain i1 t = Some v" using free_chain.simps [of i1 t] u(1) g(2) d(1) n(2) by simp
  then have "free_chain i0 s = Some v" using free_chain.simps [of i0 s] t(1) g(1) n(1) by simp
  moreover have "wake m ch j (wake m ch j x) = wake m ch j x" for m ch j x by (simp add: wake_def)
  ultimately show ?thesis using that v t u by simp
qed

text \<open>The effect of a transfer, as the device and as the driver's contract \<open>disk_rw\<close> have it.\<close>

lemma sector_block: "unat n < 2 ^ 31 \<Longrightarrow> ucast ((ucast (n * 2) :: u64) div 2) = n" for n :: u32
proof -
  assume h: "unat n < 2 ^ 31"
  have "unat (n * 2) = unat n * 2" using h by (simp add: unat_word_ariths)
  then have "unat ((ucast (n * 2) :: u64) div 2) = unat n" using h by (simp add: unsigned_ucast_eq unat_div take_bit_nat_eq_self)
  then show ?thesis using h by (simp add: word_unat_eq_iff unsigned_ucast_eq take_bit_nat_eq_self)
qed

lemma even_sector: "unat n < 2 ^ 31 \<Longrightarrow> (ucast (n * 2) :: u64) mod 2 = 0" for n :: u32
proof -
  assume h: "unat n < 2 ^ 31"
  have "unat (n * 2) = unat n * 2" using h by (simp add: unat_word_ariths)
  then have "unat ((ucast (n * 2) :: u64) mod 2) = 0" using h by (simp add: unsigned_ucast_eq unat_mod_distrib take_bit_nat_eq_self)
  then show ?thesis by (simp add: unat_eq_zero)
qed

lemma serve_ok:
  assumes "pending i0 (vd s)" and "in_flight b wr (ucast (n * 2)) (i0, i1, i2) (vd s)" and "unat n < 2 ^ 31"
  obtains s' where "device_serve s = Some s'" and "served i0 (vd s')" and "in_flight b wr (ucast (n * 2)) (i0, i1, i2) (vd s')"
    and "dfree (vd s') = dfree (vd s)" and "holds s' = holds s"
    and "myproc s' = myproc s" and "procs s' = procs s"
    and "bcache s' = (if wr then bcache s else upd_buf b (b_data_update (\<lambda>_. disk_blocks s n)) (bcache s))"
    and "disk_blocks s' = (if wr then (disk_blocks s)(n := b_data (bcache s b)) else disk_blocks s)"
proof -
  note f = assms(2) [unfolded in_flight_def chain_ok_def prod.case] and p = assms(1) [unfolded pending_def]
  define req where "req = disk_req (vd s) i0"
  define t where "t = device_transfer req b s"
  let ?s' = "upd_vd (device_report i0 i0) t"
  have "request_form req (desc (vd s) i0) (desc (vd s) i1) (desc (vd s) i2)"
    using f even_sector [OF assms(3)] by (simp add: request_form_def req_def VIRTIO_BLK_T_OUT_def VIRTIO_BLK_T_IN_def)
  then have e: "device_serve s = Some ?s'"
    using f p by (simp add: device_serve_def Let_def unat_of_small req_def t_def)
  have r: "ucast (r_sector req div 2) = n" "r_type req = VIRTIO_BLK_T_OUT \<longleftrightarrow> wr"
    using f sector_block [OF assms(3)] by (auto simp: req_def VIRTIO_BLK_T_OUT_def VIRTIO_BLK_T_IN_def)
  have t: "vd t = vd s" "holds t = holds s" "myproc t = myproc s" "procs t = procs s"
    by (simp_all add: t_def device_transfer_def Let_def holds_def myproc_def fun_eq_iff)
  show ?thesis
  proof (rule that [OF e])
    show "served i0 (vd ?s')" "in_flight b wr (ucast (n * 2)) (i0, i1, i2) (vd ?s')" "dfree (vd ?s') = dfree (vd s)"
      "holds ?s' = holds s" "myproc ?s' = myproc s" "procs ?s' = procs s"
      using assms(1,2) by (simp_all add: t device_report_def served_def pending_def in_flight_def chain_ok_def)
    show "bcache ?s' = (if wr then bcache s else upd_buf b (b_data_update (\<lambda>_. disk_blocks s n)) (bcache s))"
      "disk_blocks ?s' = (if wr then (disk_blocks s)(n := b_data (bcache s b)) else disk_blocks s)"
      using r by simp_all (simp_all add: t_def device_transfer_def Let_def)
  qed
qed

lemma intr_served:
  assumes "holds s {} ie" and "served i0 (vd s)" and "in_flight b wr sector (i0, i1, i2) (vd s)"
  obtains s' where "virtio_disk_intr s = Some s'" "holds s' {} ie" "myproc s' = myproc s"
    "procs s' = (\<lambda>i. wake (myproc s) (CBuf b) i (procs s i))" "vd_idle (vd s')"
    "in_flight b wr sector (i0, i1, i2) (vd s')" "dfree (vd s') = dfree (vd s)"
    "bcache s' = upd_buf b (b_disk_update (\<lambda>_. False)) (bcache s)" "disk_blocks s' = disk_blocks s"
proof -
  note f = assms(3) [unfolded in_flight_def chain_ok_def prod.case] and p = assms(2) [unfolded served_def]
  obtain t where t: "acquire LDisk s = Some t" "holds t {LDisk} ie" "procs t = procs s" "myproc t = myproc s"
    "vd t = vd s" "bcache t = bcache s" "disk_blocks t = disk_blocks s" by (rule vst_acquire [OF assms(1), of LDisk]) auto
  define u where "u = mmio_write VIRTIO_MMIO_INTERRUPT_ACK (mmio_in (vd t) VIRTIO_MMIO_INTERRUPT_STATUS AND 3) t"
  define out where "out = mmio_out (vd t) @ [(VIRTIO_MMIO_INTERRUPT_ACK, mmio_in (vd t) VIRTIO_MMIO_INTERRUPT_STATUS AND 3)]"
  have u: "holds u {LDisk} ie" "procs u = procs s" "myproc u = myproc s" "bcache u = bcache s"
    "disk_blocks u = disk_blocks s" "vd u = (vd s)\<lparr>mmio_out := out\<rparr>"
    using t by (simp_all add: u_def mmio_write_def out_def)
  let ?u = "u\<lparr>bcache := upd_buf b (b_disk_update (\<lambda>_. False)) (bcache u)\<rparr>"
  have "holds ?u {LDisk} ie" using u(1) by (simp add: holds_def)
  from vst_wakeup [OF this, of "CBuf b"] obtain v where v: "wakeup (CBuf b) ?u = Some v" "holds v {LDisk} ie"
    "myproc v = myproc s" "procs v = (\<lambda>i. wake (myproc s) (CBuf b) i (procs s i))" "vd v = vd u"
    "bcache v = upd_buf b (b_disk_update (\<lambda>_. False)) (bcache s)" "disk_blocks v = disk_blocks s"
    using u by (auto simp: myproc_def)
  define w where "w = upd_vd (\<lambda>d. d\<lparr>used_idx := used_idx d + 1\<rparr>) v"
  have d: "used_ring (vd u) = used_ring (vd s)" "used_idx (vd u) = used_idx (vd s)" "info_status (vd u) = info_status (vd s)"
    "info_b (vd u) = info_b (vd s)" "used_dev_idx (vd u) = used_dev_idx (vd s)" by (simp_all add: u(6))
  have "virtio_complete u = Some w"
    using f p v(1) by (simp add: virtio_complete_def Let_def d unat_of_small w_def)
  moreover have wd: "vd w = (vd s)\<lparr>used_idx := used_idx (vd s) + 1, mmio_out := out\<rparr>"
    by (simp add: w_def v(5) u(6))
  then have "virtio_intr_loop w = Some w" using p by (simp add: virtio_intr_loop.simps [of w])
  ultimately have "virtio_intr_loop u = Some w"
    using p by (simp add: virtio_intr_loop.simps [of u] d)
  then have "virtio_disk_intr s = Some (release LDisk w)" using t(1) by (simp add: virtio_disk_intr_def u_def Let_def)
  moreover note wd
  moreover have "holds w {LDisk} ie" using v(2) by (simp add: w_def)
  from after_release [OF this] have "holds (release LDisk w) {} ie" "procs (release LDisk w) = procs w"
    "myproc (release LDisk w) = myproc w" by simp_all
  ultimately show ?thesis using that [of "release LDisk w"] v f p
    by (simp add: w_def vd_idle_def in_flight_def chain_ok_def)
qed

lemma intr_none:
  assumes "holds s {} ie" and "used_idx (vd s) = used_dev_idx (vd s)"
  obtains s' out where "virtio_disk_intr s = Some s'" "holds s' {} ie" "myproc s' = myproc s" "procs s' = procs s"
    "vd s' = (vd s)\<lparr>mmio_out := out\<rparr>" "bcache s' = bcache s" "disk_blocks s' = disk_blocks s"
proof -
  obtain t where t: "acquire LDisk s = Some t" "holds t {LDisk} ie" "procs t = procs s" "myproc t = myproc s"
    "vd t = vd s" "bcache t = bcache s" "disk_blocks t = disk_blocks s" by (rule vst_acquire [OF assms(1), of LDisk]) auto
  define u where "u = mmio_write VIRTIO_MMIO_INTERRUPT_ACK (mmio_in (vd t) VIRTIO_MMIO_INTERRUPT_STATUS AND 3) t"
  define out where "out = mmio_out (vd t) @ [(VIRTIO_MMIO_INTERRUPT_ACK, mmio_in (vd t) VIRTIO_MMIO_INTERRUPT_STATUS AND 3)]"
  have u: "vd u = (vd s)\<lparr>mmio_out := out\<rparr>" "holds u {LDisk} ie" using t by (simp_all add: u_def mmio_write_def out_def)
  have "virtio_intr_loop u = Some u" using assms(2) by (simp add: virtio_intr_loop.simps [of u] u(1))
  then have "virtio_disk_intr s = Some (release LDisk u)" using t(1) by (simp add: virtio_disk_intr_def u_def Let_def)
  moreover have "procs u = procs s" "myproc u = myproc s" "bcache u = bcache s" "disk_blocks u = disk_blocks s"
    using t by (simp_all add: u_def mmio_write_def)
  ultimately show ?thesis using that [of "release LDisk u" out] u after_release [of u LDisk "{}" ie] by simp
qed

text \<open>Out of the idle state with three free descriptors a request is in flight.\<close>

lemma request_ok:
  assumes "holds s {} ie" and "vd_idle (vd s)" and "3 \<le> card (free_descs (vd s))"
  obtains i0 i1 i2 t where "virtio_disk_rw dev b wr s = rw_wait dev b i0 t" "holds t {LDisk} ie" "procs t = procs s"
    "myproc t = myproc s" "in_flight b wr (ucast (b_blockno (bcache s b) * 2)) (i0, i1, i2) (vd t)" "pending i0 (vd t)"
    "dfree (vd t) = (\<lambda>j. dfree (vd s) j \<and> j \<notin> {i0, i1, i2})" "{i0, i1, i2} \<subseteq> free_descs (vd s)"
    "bcache t = upd_buf b (b_disk_update (\<lambda>_. True)) (bcache s)" "disk_blocks t = disk_blocks s"
proof -
  obtain u where u: "acquire LDisk s = Some u" "holds u {LDisk} ie" "procs u = procs s" "myproc u = myproc s"
    "vd u = vd s" "bcache u = bcache s" "disk_blocks u = disk_blocks s" by (rule vst_acquire [OF assms(1), of LDisk]) auto
  obtain r v where r: "alloc3_desc u = (r, v)" by fastforce
  have "r \<noteq> None" using r alloc_descs_none [of 3 "[]" u v] assms(3) u(5) by (auto simp: alloc3_desc_def)
  then obtain idx where idx: "r = Some idx" by auto
  then have "alloc_descs 3 [] u = (Some idx, v)" using r by (simp add: alloc3_desc_def)
  from alloc_descs_some [OF this] obtain js where js: "idx = [] @ js" "length js = 3" "distinct js"
    "set js \<subseteq> free_descs (vd u)" "v = upd_vd (\<lambda>d. d\<lparr>dfree := (\<lambda>j. dfree d j \<and> j \<notin> set js)\<rparr>) u" by blast
  obtain i0 i1 i2 where i: "js = [i0, i1, i2]" using js(2) by (auto simp: length_Suc_conv eval_nat_numeral)
  have "distinct [i0, i1, i2]" "{i0, i1, i2} \<subseteq> {..<NUM}" "\<not> dfree (vd v) i0" "\<not> dfree (vd v) i1" "\<not> dfree (vd v) i2"
    "vd_idle (vd v)"
    using js(3,4) assms(2) unfolding i js(5) by (auto simp: free_descs_def vd_idle_def u(5))
  note f = submit_in_flight [OF this, of b wr]
  let ?t = "virtio_submit b wr [i0, i1, i2] v"
  have t: "holds ?t = holds v" "procs ?t = procs v" "myproc ?t = myproc v" "disk_blocks ?t = disk_blocks v"
    "bcache ?t = upd_buf b (b_disk_update (\<lambda>_. True)) (bcache v)" "dfree (vd ?t) = dfree (vd v)"
    by (simp_all add: virtio_submit_def Let_def mmio_write_def virtio_chain_def virtio_publish_def)
  have v: "bcache v = bcache s" "disk_blocks v = disk_blocks s" "procs v = procs s" "myproc v = myproc s" "holds v = holds u"
    "dfree (vd v) = (\<lambda>j. dfree (vd s) j \<and> j \<notin> set js)"
    by (simp_all add: js(5) u)
  have "virtio_disk_rw dev b wr s = rw_wait dev b i0 ?t"
    using r idx by (simp add: virtio_disk_rw_def u(1) rw_alloc_def js(1) i)
  then show ?thesis using that [of i0 ?t i1 i2] f js(4) u(2) unfolding t v by (simp add: i u(5))
qed

text \<open>With the request completed the descriptors go back and the lock is released.\<close>

lemma rw_finish_ok:
  assumes "holds s {LDisk} ie" and "in_flight b wr sector (i0, i1, i2) (vd s)" and "vd_idle (vd s)"
  obtains s' where "rw_finish i0 s = Some s'" "holds s' {} ie" "myproc s' = myproc s"
    "procs s' = (\<lambda>j. wake (myproc s) CDisk j (procs s j))" "vd_idle (vd s')"
    "dfree (vd s') = (\<lambda>j. dfree (vd s) j \<or> j \<in> {i0, i1, i2})" "bcache s' = bcache s" "disk_blocks s' = disk_blocks s"
proof -
  let ?s = "upd_vd (\<lambda>d. d\<lparr>info_b := (info_b d)(i0 := None)\<rparr>) s"
  have "holds ?s {LDisk} ie" "chain_ok b wr (i0, i1, i2) (vd ?s)"
    using assms(1,2) by (simp_all add: in_flight_def chain_ok_def)
  from free_chain_ok [OF this] obtain t where t: "free_chain i0 ?s = Some t" "holds t {LDisk} ie" "myproc t = myproc s"
    "procs t = (\<lambda>j. wake (myproc s) CDisk j (procs s j))" "vd t = clear_desc i2 (clear_desc i1 (clear_desc i0 (vd ?s)))"
    "bcache t = bcache s" "disk_blocks t = disk_blocks s" by auto
  moreover have "dfree (vd t) = (\<lambda>j. dfree (vd s) j \<or> j \<in> {i0, i1, i2})" by (auto simp: t(5) clear_desc_def fun_eq_iff)
  moreover have "vd_idle (vd t)" using assms(3) by (simp add: t(5) clear_desc_def vd_idle_def)
  ultimately show ?thesis using that [of "release LDisk t"] after_release [of t LDisk "{}" ie] by (simp add: rw_finish_def)
qed

text \<open>The state that the contract of the block layer asks for.\<close>

lemma contract_ok:
  assumes "bcache t = upd_buf b (b_disk_update (\<lambda>_. True)) (bcache s)" and "disk_blocks t = disk_blocks s"
    and "bcache u = upd_buf b (b_disk_update (\<lambda>_. False))
      (if wr then bcache t else upd_buf b (b_data_update (\<lambda>_. disk_blocks t (b_blockno (bcache s b)))) (bcache t))"
    and "disk_blocks u = (if wr then (disk_blocks t)(b_blockno (bcache s b) := b_data (bcache t b)) else disk_blocks t)"
  shows "bcache u = bcache (disk_rw b wr s) \<and> disk_blocks u = disk_blocks (disk_rw b wr s)"
  using assms by (cases wr) (simp_all add: disk_rw_def upd_buf_def fun_eq_iff)

lemma in_flight_out [simp]: "in_flight b wr sector idx (d\<lparr>mmio_out := out\<rparr>) = in_flight b wr sector idx d"
  "pending i0 (d\<lparr>mmio_out := out\<rparr>) = pending i0 d"
  by (simp_all add: in_flight_def chain_ok_def pending_def)

lemma rw_poll_ok:
  assumes "virtio_device dev k" and "n \<le> k" and "holds s {LDisk} ie" and "myproc s = None"
    and "in_flight b wr (ucast (m * 2)) (i0, i1, i2) (vd s)" and "pending i0 (vd s)" and "unat m < 2 ^ 31"
    and "b_disk (bcache s b)"
  shows "\<exists>s'. rw_poll dev n b i0 s = Some s' \<and> holds s' {} ie \<and> vd_idle (vd s') \<and>
    dfree (vd s') = (\<lambda>j. dfree (vd s) j \<or> j \<in> {i0, i1, i2}) \<and>
    bcache s' = upd_buf b (b_disk_update (\<lambda>_. False))
      (if wr then bcache s else upd_buf b (b_data_update (\<lambda>_. disk_blocks s m)) (bcache s)) \<and>
    disk_blocks s' = (if wr then (disk_blocks s)(m := b_data (bcache s b)) else disk_blocks s)"
  using assms(2-6,8)
proof (induction "k - n" arbitrary: n s rule: less_induct)
  case less
  let ?r = "release LDisk s"
  have r: "holds ?r {} ie" "procs ?r = procs s" "myproc ?r = None" "pending i0 (vd ?r)"
    "in_flight b wr (ucast (m * 2)) (i0, i1, i2) (vd ?r)"
    using after_release [of s LDisk "{}" ie] less.prems by simp_all
  have av: "avail_idx (vd ?r) \<noteq> used_dev_idx (vd ?r)" using r(4) by (simp add: pending_def)
  have step: "rw_poll dev n b i0 s = rw_poll dev (Suc n) b i0 v"
    if "virtio_disk_intr (dev n ?r) = Some u" "acquire LDisk u = Some v" for u v
    using that less.prems(6) by (simp add: rw_poll.simps [of dev n b i0 s])
  obtain w0 where sv: "device_serve ?r = Some w0" "served i0 (vd w0)" "in_flight b wr (ucast (m * 2)) (i0, i1, i2) (vd w0)"
    "dfree (vd w0) = dfree (vd ?r)" "holds w0 = holds ?r" "myproc w0 = myproc ?r" "procs w0 = procs ?r"
    "bcache w0 = (if wr then bcache ?r else upd_buf b (b_data_update (\<lambda>_. disk_blocks ?r m)) (bcache ?r))"
    "disk_blocks w0 = (if wr then (disk_blocks ?r)(m := b_data (bcache ?r b)) else disk_blocks ?r)"
    by (rule serve_ok [OF r(4,5) assms(7)])
  show ?case
  proof (cases "dev n ?r = w0")
    case True
    have "holds w0 {} ie" using r(1) by (simp add: sv(5))
    from intr_served [OF this sv(2,3)] obtain u where u: "virtio_disk_intr (dev n ?r) = Some u" "holds u {} ie"
      "myproc u = None" "vd_idle (vd u)" "in_flight b wr (ucast (m * 2)) (i0, i1, i2) (vd u)" "dfree (vd u) = dfree (vd s)"
      "bcache u = upd_buf b (b_disk_update (\<lambda>_. False)) (bcache w0)"
      "disk_blocks u = disk_blocks w0" using True sv(4,6) r(3) by auto
    obtain v where v: "acquire LDisk u = Some v" "holds v {LDisk} ie" "vd v = vd u" "bcache v = bcache u"
      "disk_blocks v = disk_blocks u" by (rule vst_acquire [OF u(2), of LDisk]) auto
    have "in_flight b wr (ucast (m * 2)) (i0, i1, i2) (vd v)" "vd_idle (vd v)" using u(4,5) v(3) by simp_all
    from rw_finish_ok [OF v(2) this] obtain w where w: "rw_finish i0 v = Some w" "holds w {} ie" "vd_idle (vd w)"
      "dfree (vd w) = (\<lambda>j. dfree (vd v) j \<or> j \<in> {i0, i1, i2})" "bcache w = bcache v" "disk_blocks w = disk_blocks v" by auto
    have "\<not> b_disk (bcache v b)" by (simp add: v(4) u(7) upd_buf_def)
    then have "rw_poll dev n b i0 s = Some w" using step [OF u(1) v(1)] w(1) by (simp add: rw_poll.simps [of dev "Suc n"])
    then show ?thesis using w u(6-8) v(3-5) sv(8,9) by simp
  next
    case False
    then have d: "dev n ?r = ?r" and n: "n < k" using assms(1) av less.prems(1) sv(1) unfolding virtio_device_def by (blast, metis le_neq_implies_less)
    have "used_idx (vd ?r) = used_dev_idx (vd ?r)" using r(4) by (simp add: pending_def)
    then obtain u out where u: "virtio_disk_intr ?r = Some u" "holds u {} ie" "myproc u = myproc ?r" "procs u = procs ?r"
      "vd u = (vd ?r)\<lparr>mmio_out := out\<rparr>" "bcache u = bcache ?r" "disk_blocks u = disk_blocks ?r" by (rule intr_none [OF r(1)])
    obtain v where v: "acquire LDisk u = Some v" "holds v {LDisk} ie" "myproc v = myproc u" "vd v = vd u" "bcache v = bcache u"
      "disk_blocks v = disk_blocks u" by (rule vst_acquire [OF u(2), of LDisk]) auto
    have "virtio_disk_intr (dev n ?r) = Some u" using u(1) d by simp
    note st = step [OF this v(1)]
    have e: "vd v = (vd s)\<lparr>mmio_out := out\<rparr>" "bcache v = bcache s" "disk_blocks v = disk_blocks s" "myproc v = None"
      using v u r(3) by simp_all
    have "k - Suc n < k - n" "Suc n \<le> k" using n by simp_all
    moreover have "in_flight b wr (ucast (m * 2)) (i0, i1, i2) (vd v)" "pending i0 (vd v)" "b_disk (bcache v b)"
      using less.prems by (simp_all add: e)
    ultimately have "\<exists>s'. rw_poll dev (Suc n) b i0 v = Some s' \<and> holds s' {} ie \<and> vd_idle (vd s') \<and>
      dfree (vd s') = (\<lambda>j. dfree (vd v) j \<or> j \<in> {i0, i1, i2}) \<and>
      bcache s' = upd_buf b (b_disk_update (\<lambda>_. False))
        (if wr then bcache v else upd_buf b (b_data_update (\<lambda>_. disk_blocks v m)) (bcache v)) \<and>
      disk_blocks s' = (if wr then (disk_blocks v)(m := b_data (bcache v b)) else disk_blocks v)"
      using less.hyps v(2) e(4) by blast
    moreover have "dfree (vd v) = dfree (vd s)" by (simp add: e)
    ultimately show ?thesis by (simp only: st e(2,3))
  qed
qed

section \<open>Properties\<close>

text \<open>
  \<open>alloc3_desc\<close> takes three different free descriptors and marks
  exactly them used, or it fails because fewer than three are free and then changes nothing.
\<close>

theorem alloc3_desc_all_or_nothing:
  "case alloc3_desc s of
     (Some idx, s') \<Rightarrow> length idx = 3 \<and> distinct idx \<and> set idx \<subseteq> free_descs (vd s) \<and>
       s' = upd_vd (\<lambda>d. d\<lparr>dfree := (\<lambda>j. dfree d j \<and> j \<notin> set idx)\<rparr>) s
   | (None, s') \<Rightarrow> s' = s \<and> card (free_descs (vd s)) < 3"
proof (cases "alloc3_desc s")
  case (Pair r s')
  show ?thesis
  proof (cases r)
    case None
    then show ?thesis using Pair alloc_descs_none [of 3 "[]" s s'] by (simp add: alloc3_desc_def upd_vd_def)
  next
    case (Some idx)
    then show ?thesis using Pair alloc_descs_some [of 3 "[]" s idx s'] by (auto simp: alloc3_desc_def)
  qed
qed

text \<open>
  Property C12 (refinement). At boot, when no process runs and the driver polls,
  \<open>virtio_disk_rw\<close> returns on every device that serves a pending request in finitely many
  polls, and has the effect that the buffer cache relies on (\<open>disk_rw\<close>): the block and the
  buffer are as the contract says, the queue is idle again and all descriptors are back.
\<close>

theorem virtio_disk_rw_refines_contract:
  assumes "holds s {} ie" and "myproc s = None" and "vd_idle (vd s)" and "3 \<le> card (free_descs (vd s))"
    and "unat (b_blockno (bcache s b)) < 2 ^ 31" and "virtio_device dev k"
  shows "\<exists>s'. virtio_disk_rw dev b wr s = Some (Result 0, s') \<and>
    bcache s' = bcache (disk_rw b wr s) \<and> disk_blocks s' = disk_blocks (disk_rw b wr s) \<and>
    holds s' {} ie \<and> vd_idle (vd s') \<and> dfree (vd s') = dfree (vd s)"
proof -
  obtain i0 i1 i2 t where t: "virtio_disk_rw dev b wr s = rw_wait dev b i0 t" "holds t {LDisk} ie"
    "procs t = procs s" "myproc t = myproc s" "in_flight b wr (ucast (b_blockno (bcache s b) * 2)) (i0, i1, i2) (vd t)"
    "pending i0 (vd t)" "dfree (vd t) = (\<lambda>j. dfree (vd s) j \<and> j \<notin> {i0, i1, i2})" "{i0, i1, i2} \<subseteq> free_descs (vd s)"
    "bcache t = upd_buf b (b_disk_update (\<lambda>_. True)) (bcache s)" "disk_blocks t = disk_blocks s"
    by (rule request_ok [OF assms(1,3,4)])
  have mp: "myproc t = None" using t(4) assms(2) by simp
  have bd: "b_disk (bcache t b)" by (simp add: t(9) upd_buf_def)
  obtain u where u: "rw_poll dev 0 b i0 t = Some u" "holds u {} ie" "vd_idle (vd u)"
    "dfree (vd u) = (\<lambda>j. dfree (vd t) j \<or> j \<in> {i0, i1, i2})"
    "bcache u = upd_buf b (b_disk_update (\<lambda>_. False))
      (if wr then bcache t else upd_buf b (b_data_update (\<lambda>_. disk_blocks t (b_blockno (bcache s b)))) (bcache t))"
    "disk_blocks u = (if wr then (disk_blocks t)(b_blockno (bcache s b) := b_data (bcache t b)) else disk_blocks t)"
    using rw_poll_ok [OF assms(6) _ t(2) mp t(5,6) assms(5) bd, of 0] by auto
  have "dfree (vd u) = dfree (vd s)" using t(8) by (auto simp: u(4) t(7) free_descs_def)
  then show ?thesis using contract_ok [OF t(9,10) u(5,6)] u(1-3) t(1) mp by (simp add: rw_wait_def)
qed

text \<open>
  A kernel at boot: no process, an idle queue, all eight descriptors free; and a device that
  serves the request at its third poll.
\<close>

definition tiny_disk :: vst where
  "tiny_disk = kst.extend (tiny_cons\<lparr>procs := (\<lambda>_. zero_proc), cpu := \<lparr>cproc = None, noff = 0, intena = False\<rparr>\<rparr>)
     \<lparr>vd = \<lparr>desc = (\<lambda>_. zero_desc), avail_idx = 7, avail_ring = (\<lambda>_. 0), used_dev_idx = 7, used_ring = (\<lambda>_. 0),
       desc_ptr = 0, avail_ptr = 0, used_ptr = 0, dfree = (\<lambda>i. i < NUM), used_idx = 7, info_b = (\<lambda>_. None),
       info_status = (\<lambda>_. 0), disk_req = (\<lambda>_. \<lparr>r_type = 0, r_reserved = 0, r_sector = 0\<rparr>), vring_mem = 0x80100000,
       mmio_in = (\<lambda>_. 0), mmio_out = []\<rparr>\<rparr>
     \<lparr>bcache := (\<lambda>_. \<lparr>b_valid = False, b_disk = False, b_dev = 1, b_blockno = 5, b_refcnt = 1, b_prev = 0, b_next = 0,
       b_data = []\<rparr>), disk_blocks := (\<lambda>n. if n = 5 then replicate 1024 42 else replicate 1024 0)\<rparr>"

definition slow_device :: "nat \<Rightarrow> 'a vst_scheme \<Rightarrow> 'a vst_scheme" where
  "slow_device n s =
     (if n = 2 \<and> avail_idx (vd s) \<noteq> used_dev_idx (vd s) then (case device_serve s of Some s' \<Rightarrow> s' | None \<Rightarrow> s) else s)"

lemma tiny_disk:
  "holds tiny_disk {} True" "myproc tiny_disk = None" "vd_idle (vd tiny_disk)" "free_descs (vd tiny_disk) = {..<8}"
  "b_blockno (bcache tiny_disk 0) = 5" "disk_blocks tiny_disk 5 = replicate 1024 42" "virtio_device slow_device 2"
  by (auto simp: tiny_disk_def holds_def myproc_def vd_idle_def free_descs_def NUM_def tiny_cons_def fs_st.defs kst.defs
    virtio_device_def slow_device_def)

theorem virtio_disk_rw_refines_contract_witness:
  "holds tiny_disk {} True \<and> virtio_device slow_device 2 \<and>
   (\<exists>s'. virtio_disk_rw slow_device 0 False tiny_disk = Some (Result 0, s') \<and>
      b_data (bcache s' 0) = replicate 1024 42 \<and> free_descs (vd s') = {..<8})"
proof -
  obtain s' where s': "virtio_disk_rw slow_device 0 False tiny_disk = Some (Result 0, s')"
    "bcache s' = bcache (disk_rw 0 False tiny_disk)" "dfree (vd s') = dfree (vd tiny_disk)"
    using virtio_disk_rw_refines_contract [OF tiny_disk(1-3) _ _ tiny_disk(7), of 0 False] tiny_disk(4,5) by auto
  have "b_data (bcache s' 0) = replicate 1024 42" by (simp add: s'(2) disk_rw_def upd_buf_def tiny_disk(5,6))
  moreover have "free_descs (vd s') = {..<8}" using tiny_disk(4) by (simp add: free_descs_def s'(3))
  ultimately show ?thesis using s'(1) tiny_disk(1,7) by blast
qed

text \<open>
  What may happen between two steps of a request in flight: other processes and interrupts may
  run, as long as none uses the disk driver or the buffer and nobody holds a lock when the hart comes back. \<open>apart b s s'\<close>: the driver,
  its buffer and process \<open>p\<close> are as they were.
\<close>

definition apart :: "nat \<Rightarrow> nat \<Rightarrow> 'a vst_scheme \<Rightarrow> 'a vst_scheme \<Rightarrow> bool" where
  "apart p b s s' \<longleftrightarrow> vd s' = vd s \<and> bcache s' b = bcache s b \<and> procs s' p = procs s p \<and>
     (\<exists>ie. holds s' {} ie) \<and> myproc s' \<noteq> Some p"

lemma request_sleeps:
  assumes c: "calm s (Some p)" and "vd_idle (vd s)" and "3 \<le> card (free_descs (vd s))"
  obtains i0 i1 i2 s1 where "virtio_disk_rw dev b wr s = Some (Blocked (RwBuf b i0), s1)"
    and "procs s1 = (procs s)(p := (procs s p)\<lparr>status := TASK_SLEEPING, chan := CBuf b\<rparr>)"
    and "in_flight b wr (ucast (b_blockno (bcache s b) * 2)) (i0, i1, i2) (vd s1)" and "pending i0 (vd s1)"
    and "dfree (vd s1) = (\<lambda>j. dfree (vd s) j \<and> j \<notin> {i0, i1, i2})" and "{i0, i1, i2} \<subseteq> free_descs (vd s)"
    and "bcache s1 = upd_buf b (b_disk_update (\<lambda>_. True)) (bcache s)" and "disk_blocks s1 = disk_blocks s"
    and "calm (scheduler_back p s1) None" and "procs (scheduler_back p s1) = procs s1"
    and "vd (scheduler_back p s1) = vd s1" and "bcache (scheduler_back p s1) = bcache s1"
proof -
  obtain ie where h: "holds s {} ie" and mp: "myproc s = Some p" using c by (auto simp: calm_def)
  obtain i0 i1 i2 t where t: "virtio_disk_rw dev b wr s = rw_wait dev b i0 t" "holds t {LDisk} ie" "procs t = procs s"
    "myproc t = myproc s" "in_flight b wr (ucast (b_blockno (bcache s b) * 2)) (i0, i1, i2) (vd t)" "pending i0 (vd t)"
    "dfree (vd t) = (\<lambda>j. dfree (vd s) j \<and> j \<notin> {i0, i1, i2})" "{i0, i1, i2} \<subseteq> free_descs (vd s)"
    "bcache t = upd_buf b (b_disk_update (\<lambda>_. True)) (bcache s)" "disk_blocks t = disk_blocks s"
    by (rule request_ok [OF h assms(2,3)])
  obtain s1 where 1: "sleep_out (CBuf b) LDisk t = Some s1" "holds s1 {LProc p} ie" "myproc s1 = Some p"
    "procs s1 = (procs s)(p := (procs s p)\<lparr>status := TASK_SLEEPING, chan := CBuf b\<rparr>)"
    using sleep_out_held [OF t(2), of p "CBuf b"] t(3,4) mp by auto
  have r1: "vd s1 = vd t" "bcache s1 = bcache t" "disk_blocks s1 = disk_blocks t"
    using vst_rest [OF proc_rest_switch(1) [OF 1(1)]] by simp_all
  have rw: "virtio_disk_rw dev b wr s = Some (Blocked (RwBuf b i0), s1)"
    using t(1,4,9) mp 1(1) by (simp add: rw_wait_def upd_buf_def)
  have "\<forall>j. status (procs s1 j) \<noteq> TASK_RUNNING" using c by (auto simp: 1(4) calm_def)
  note b = scheduler_back_ok [OF 1(2) this]
  show ?thesis
    using that [OF rw 1(4) _ _ _ t(8)] t(5-7,9,10) b vst_rest [OF proc_rest_switch(5), of p s1] unfolding r1 by blast
qed

lemma request_woken:
  assumes k: "holds k {} ik" "myproc k \<noteq> Some p" and p: "p < NPROC" "status (procs k p) = TASK_SLEEPING" "chan (procs k p) = CBuf b"
    and f: "in_flight b wr (ucast (n * 2)) (i0, i1, i2) (vd k)" "pending i0 (vd k)" "unat n < 2 ^ 31"
  obtains kd s2 where "device_serve k = Some kd" and "virtio_disk_intr kd = Some s2"
    and "calm k None \<longrightarrow> calm s2 None" and "procs s2 p = (procs k p)\<lparr>status := TASK_READY\<rparr>" and "vd_idle (vd s2)"
    and "in_flight b wr (ucast (n * 2)) (i0, i1, i2) (vd s2)" and "dfree (vd s2) = dfree (vd k)"
    and "bcache s2 = upd_buf b (b_disk_update (\<lambda>_. False)) (if wr then bcache k else upd_buf b (b_data_update (\<lambda>_. disk_blocks k n)) (bcache k))"
    and "disk_blocks s2 = (if wr then (disk_blocks k)(n := b_data (bcache k b)) else disk_blocks k)"
proof -
  obtain kd where sv: "device_serve k = Some kd" "served i0 (vd kd)" "in_flight b wr (ucast (n * 2)) (i0, i1, i2) (vd kd)"
    "dfree (vd kd) = dfree (vd k)" "holds kd = holds k" "myproc kd = myproc k" "procs kd = procs k"
    "bcache kd = (if wr then bcache k else upd_buf b (b_data_update (\<lambda>_. disk_blocks k n)) (bcache k))"
    "disk_blocks kd = (if wr then (disk_blocks k)(n := b_data (bcache k b)) else disk_blocks k)"
    by (rule serve_ok [OF f(2,1,3)])
  have "holds kd {} ik" using k(1) by (simp add: sv(5))
  from intr_served [OF this sv(2,3)] obtain s2 where 2: "virtio_disk_intr kd = Some s2" "holds s2 {} ik" "myproc s2 = myproc k"
    "procs s2 = (\<lambda>i. wake (myproc k) (CBuf b) i (procs k i))" "vd_idle (vd s2)"
    "in_flight b wr (ucast (n * 2)) (i0, i1, i2) (vd s2)" "dfree (vd s2) = dfree (vd k)"
    "bcache s2 = upd_buf b (b_disk_update (\<lambda>_. False)) (bcache kd)" "disk_blocks s2 = disk_blocks kd"
    using sv(4,6,7) by auto
  show ?thesis using that [OF sv(1) 2(1) _ _ 2(5-7)] 2(2-4,8,9) sv(8,9) k(2) p by (auto simp: calm_def wake_running) (auto simp: wake_def)
qed

lemma request_returns:
  assumes m: "calm m None" and p: "status (procs m p) = TASK_READY"
    and f: "in_flight b wr sector (i0, i1, i2) (vd m)" "vd_idle (vd m)" "\<not> b_disk (bcache m b)"
  obtains s3 s4 where "scheduler_pick p m = Some (True, s3)" and "rw_resume dev p (RwBuf b i0) s3 = Some (Result 0, s4)"
    and "calm s4 (Some p)" and "vd_idle (vd s4)" and "dfree (vd s4) = (\<lambda>j. dfree (vd m) j \<or> j \<in> {i0, i1, i2})"
    and "bcache s4 = bcache m" and "disk_blocks s4 = disk_blocks m"
proof -
  obtain s3 i3 where 3: "scheduler_pick p m = Some (True, s3)" "holds s3 {LProc p} i3" "myproc s3 = Some p"
    "procs s3 = (procs m)(p := (procs m p)\<lparr>status := TASK_RUNNING\<rparr>)"
    using scheduler_pick_ok [OF m, of p] p by auto
  have r3: "vd s3 = vd m" "bcache s3 = bcache m" "disk_blocks s3 = disk_blocks m"
    using vst_rest [OF proc_rest_switch(4) [OF 3(1)]] by simp_all
  let ?s3 = "release (LProc p) (upd_proc p (\<lambda>x. x\<lparr>chan := CNull\<rparr>) s3)"
  have "holds (upd_proc p (\<lambda>x. x\<lparr>chan := CNull\<rparr>) s3) (insert (LProc p) {}) i3" using 3(2) by simp
  note rl = after_release [OF this, simplified]
  obtain u where u: "acquire LDisk ?s3 = Some u" "holds u {LDisk} i3" "procs u = procs ?s3" "myproc u = myproc ?s3"
    "vd u = vd ?s3" "bcache u = bcache ?s3" "disk_blocks u = disk_blocks ?s3" by (rule vst_acquire [OF rl(1), of LDisk]) auto
  have us: "vd (upd_proc p f s3) = vd s3" "bcache (upd_proc p f s3) = bcache s3"
    "disk_blocks (upd_proc p f s3) = disk_blocks s3" for f by (simp_all add: upd_proc_def)
  have ud: "vd u = vd m" "bcache u = bcache m" "disk_blocks u = disk_blocks m" by (simp_all add: u us r3)
  have "in_flight b wr sector (i0, i1, i2) (vd u)" "vd_idle (vd u)" using f by (simp_all add: ud)
  from rw_finish_ok [OF u(2) this] obtain s4 where 4: "rw_finish i0 u = Some s4" "holds s4 {} i3" "myproc s4 = myproc u"
    "procs s4 = (\<lambda>j. wake (myproc u) CDisk j (procs u j))" "vd_idle (vd s4)"
    "dfree (vd s4) = (\<lambda>j. dfree (vd u) j \<or> j \<in> {i0, i1, i2})" "bcache s4 = bcache u" "disk_blocks s4 = disk_blocks u" by auto
  have rs: "rw_resume dev p (RwBuf b i0) s3 = Some (Result 0, s4)"
    using u(1) 4(1) f(3) by (simp add: sleep_in_def rw_wait_def rw_poll.simps [of dev 0] ud)
  have "procs s4 = (\<lambda>j. wake (Some p) CDisk j (((procs s3)(p := (procs s3 p)\<lparr>chan := CNull\<rparr>)) j))"
    using u(3,4) rl(2,3) 3(3) by (simp add: 4(4))
  then have "calm s4 (Some p)" using 4(2,3) u(4) rl(3) 3(3) m by (auto simp: calm_def wake_running 3(4))
  then show ?thesis using that [OF 3(1) rs _ 4(5)] 4(6-8) by (simp add: ud)
qed


definition tiny_disk_run :: vst where
  "tiny_disk_run = tiny_disk\<lparr>procs := (\<lambda>_. zero_proc)(0 := zero_proc\<lparr>status := TASK_RUNNING, pid := 1\<rparr>),
     cpu := \<lparr>cproc = Some 0, noff = 0, intena = False\<rparr>\<rparr>"


text \<open>
  \<open>virtio_disk_init\<close> panics exactly when the registers do not
  show a legacy VirtIO block device whose queue holds \<open>NUM\<close> entries; otherwise it writes
  the registers in the order that the specification asks for, with \<open>DRIVER_OK\<close> last, refuses
  exactly the seven features, places the used ring on the next page, frees every descriptor
  and leaves the queue idle.
\<close>

theorem virtio_disk_init_sequence:
  "case virtio_disk_init s of
     None \<Rightarrow> \<not> (mmio_in (vd s) 0 = 0x74726976 \<and> mmio_in (vd s) 4 = 1 \<and> mmio_in (vd s) 8 = 2 \<and> mmio_in (vd s) 12 = 0x554d4551 \<and> 8 \<le> mmio_in (vd s) 0x34)
   | Some s' \<Rightarrow> mmio_in (vd s) 0 = 0x74726976 \<and> mmio_in (vd s) 4 = 1 \<and> mmio_in (vd s) 8 = 2 \<and> mmio_in (vd s) 12 = 0x554d4551 \<and> 8 \<le> mmio_in (vd s) 0x34 \<and>
       mmio_out (vd s') = mmio_out (vd s) @ [(0x70, 1), (0x70, 3), (0x20, virtio_features (mmio_in (vd s) 0x10)), (0x70, 11),
         (0x28, 4096), (0x30, 0), (0x38, 8), (0x3c, 4096), (0x40, ucast (drop_bit 12 (vring_mem (vd s)))), (0x70, 15)] \<and>
       (\<forall>n < 32. bit (virtio_features (mmio_in (vd s) 0x10)) n = (bit (mmio_in (vd s) 0x10) n \<and> n \<notin> {5, 7, 11, 12, 27, 28, 29})) \<and>
       desc_ptr (vd s') = vring_mem (vd s) \<and> avail_ptr (vd s') = vring_mem (vd s) + 128 \<and>
       used_ptr (vd s') = vring_mem (vd s) + 4096 \<and> free_descs (vd s') = {..<8} \<and>
       vd_idle (vd s') = (used_idx (vd s) = 0) \<and> locked (locks s' LDisk) = False"
proof -
  have f: "bit (virtio_features w) n = (bit w n \<and> n \<notin> {5, 7, 11, 12, 27, 28, 29})" if "n < 32" for w n
  proof -
    have "bit (virtio_features w) n = (bit w n \<and> n \<notin> {VIRTIO_BLK_F_RO, VIRTIO_BLK_F_SCSI, VIRTIO_BLK_F_CONFIG_WCE,
        VIRTIO_BLK_F_MQ, VIRTIO_F_ANY_LAYOUT, VIRTIO_RING_F_INDIRECT_DESC, VIRTIO_RING_F_EVENT_IDX})"
      using that by (auto simp: virtio_features_def Let_def bit_simps)
    then show ?thesis by (simp add: kdefs)
  qed
  show ?thesis
    by (auto simp: virtio_disk_init_def Let_def kdefs mmio_write_def upd_vd_def initlock_def vring_init_def free_descs_def
      vd_idle_def f not_le not_less split: option.splits if_splits)
qed

theorem virtio_disk_init_sequence_witness:
  "\<exists>s'. virtio_disk_init (upd_vd (\<lambda>d. d\<lparr>used_idx := 0, mmio_in := (\<lambda>_. 0)(0 := 0x74726976, 4 := 1, 8 := 2,
       12 := 0x554d4551, 0x34 := 1024)\<rparr>) tiny_disk) = Some s' \<and> last (mmio_out (vd s')) = (0x70, 15) \<and>
     free_descs (vd s') = {..<8} \<and> vd_idle (vd s')"
proof -
  let ?s = "upd_vd (\<lambda>d. d\<lparr>used_idx := 0, mmio_in := (\<lambda>_. 0)(0 := 0x74726976, 4 := 1, 8 := 2,
       12 := 0x554d4551, 0x34 := 1024)\<rparr>) tiny_disk"
  show ?thesis using virtio_disk_init_sequence [of ?s] by (cases "virtio_disk_init ?s") auto
qed

end
