(* ===== verification/Trap.thy ===== *)
theory Trap
  imports Asm Descriptor_Inv Virtio
begin

text \<open>
  Traps: \<open>kernel/trap/trap.c\<close> and \<open>kernel/trap/plic.c\<close>. The record \<open>tst\<close> adds the
  control registers of the hart, its \<open>tp\<close> register, the interrupt controller and the
  receiver of the serial port to the kernel state. The enable bit of \<open>sstatus\<close> is \<open>sie\<close>
  of the kernel state. A trap that leaves the processor in the middle (a call that blocks,
  a timer interrupt) ends with \<open>Switched\<close> and what is left to do, a trap that is finished with
  the arguments of \<open>userret\<close>. A fault for which the code prints a message and panics is
  \<^term>\<open>None\<close>.
\<close>

section \<open>State\<close>

record tst = vst +
  csrv :: "csr \<Rightarrow> u64"
  hart_tp :: u64
  sys_trap_vector :: u64          \<comment> \<open>addresses fixed by the linker\<close>
  usertrap_addr :: u64
  uart_rx :: "u8 list"            \<comment> \<open>what the receiver presents until its line status is clear\<close>
  uart_ier :: u8
  plic_reg :: "u64 \<Rightarrow> u32"
  plic_out :: "(u64 \<times> u32) list"  \<comment> \<open>writes to the interrupt controller, oldest first\<close>

definition SSTATUS_SPP :: u64 where [kdefs]: "SSTATUS_SPP = push_bit 8 1"
definition SSTATUS_SPIE :: u64 where [kdefs]: "SSTATUS_SPIE = push_bit 5 1"
definition SSTATUS_SIE :: u64 where [kdefs]: "SSTATUS_SIE = push_bit 1 1"
definition SSTATUS_FS_DIRTY :: u64 where [kdefs]: "SSTATUS_FS_DIRTY = push_bit 13 3"

definition w_csr :: "csr \<Rightarrow> u64 \<Rightarrow> 'a tst_scheme \<Rightarrow> 'a tst_scheme" where
  "w_csr c v s = s\<lparr>csrv := (csrv s)(c := v)\<rparr>"

definition r_sstatus :: "'a tst_scheme \<Rightarrow> u64" where
  "r_sstatus s = (if sie s then csrv s Sstatus OR SSTATUS_SIE else csrv s Sstatus AND NOT SSTATUS_SIE)"

definition w_sstatus :: "u64 \<Rightarrow> 'a tst_scheme \<Rightarrow> 'a tst_scheme" where
  "w_sstatus v s = w_csr Sstatus v (s\<lparr>sie := (v AND SSTATUS_SIE \<noteq> 0)\<rparr>)"

text \<open>\<open>int hartid = r_tp()\<close>, as it is used in address arithmetic.\<close>

definition hartid :: "'a tst_scheme \<Rightarrow> u64" where
  "hartid s = scast (ucast (hart_tp s) :: u32)"

definition UART0_IRQ :: u32 where [kdefs]: "UART0_IRQ = 10"
definition VIRTIO0_IRQ :: u32 where [kdefs]: "VIRTIO0_IRQ = 1"
definition PLIC_SENABLE :: "u64 \<Rightarrow> u64" where "PLIC_SENABLE hart = PLIC + 0x2080 + hart * 0x100"
definition PLIC_SPRIORITY :: "u64 \<Rightarrow> u64" where "PLIC_SPRIORITY hart = PLIC + 0x201000 + hart * 0x2000"
definition PLIC_SCLAIM :: "u64 \<Rightarrow> u64" where "PLIC_SCLAIM hart = PLIC + 0x201004 + hart * 0x2000"

text \<open>A read of the claim register gives the interrupt the controller offers; a write to
  it completes an interrupt and does not change what is read.\<close>

definition plic_write :: "u64 \<Rightarrow> u32 \<Rightarrow> 'a tst_scheme \<Rightarrow> 'a tst_scheme" where
  "plic_write a v s =
     s\<lparr>plic_reg := (if a = PLIC_SCLAIM (hartid s) then plic_reg s else (plic_reg s)(a := v)),
       plic_out := plic_out s @ [(a, v)]\<rparr>"

section \<open>Initialisation\<close>

definition plicinit :: "'a tst_scheme \<Rightarrow> 'a tst_scheme" where
  "plicinit s =
     (let s = plic_write (PLIC + ucast VIRTIO0_IRQ * 4) 1 s;
          s = plic_write (PLIC + ucast UART0_IRQ * 4) 1 s
      in s\<lparr>uart_ier := 1\<rparr>)"

definition plicinithart :: "'a tst_scheme \<Rightarrow> 'a tst_scheme" where
  "plicinithart s =
     (let h = hartid s;
          s = plic_write (PLIC_SENABLE h) (push_bit (unat UART0_IRQ) 1) s;
          s = plic_write (PLIC_SENABLE h) (plic_reg s (PLIC_SENABLE h) OR push_bit (unat VIRTIO0_IRQ) 1) s
      in plic_write (PLIC_SPRIORITY h) 0 s)"

definition trapinithart :: "'a tst_scheme \<Rightarrow> 'a tst_scheme" where
  "trapinithart s = plicinithart (plicinit (w_csr Stvec (sys_trap_vector s) s))"

section \<open>Interrupts\<close>

primrec uart_loop :: "u8 list \<Rightarrow> 'a tst_scheme \<Rightarrow> 'a tst_scheme option" where
  "uart_loop [] s = Some s"
| "uart_loop (c # cs) s = do { s \<leftarrow> consoleintr c (s\<lparr>uart_rx := cs\<rparr>); uart_loop cs s }"

definition msg_irq :: "u8 list" where
  "msg_irq = [85, 110, 101, 120, 112, 101, 99, 116, 101, 100, 32, 105, 110, 116, 101, 114, 114, 117, 112, 116, 32, 105,
     114, 113, 61, 37, 100, 10]"

definition msg_unknown :: "u8 list" where
  "msg_unknown = [115, 121, 115, 95, 116, 114, 97, 112, 95, 104, 97, 110, 100, 108, 101, 114, 58, 32, 117, 110, 107, 110,
     111, 119, 110, 32, 105, 110, 116, 101, 114, 114, 117, 112, 116, 32, 105, 114, 113, 61, 37, 100, 10]"

text \<open>The claim, the service and the completion of an external interrupt, which both
  handlers spell out. With a hart number other than 0 it would leave the controller and
  \<open>cpus\<close>.\<close>

definition external_intr :: "'a tst_scheme \<Rightarrow> 'a tst_scheme option" where
  "external_intr s =
     (let h = hartid s; irq = plic_reg s (PLIC_SCLAIM h) in
      if h \<noteq> 0 then None
      else do { s \<leftarrow> (if irq = UART0_IRQ then uart_loop (uart_rx s) s
                     else if irq = VIRTIO0_IRQ then virtio_disk_intr s
                     else if irq \<noteq> 0 then printf msg_irq [PW (ucast irq)] s
                     else Some s);
                Some (if irq \<noteq> 0 then plic_write (PLIC_SCLAIM h) irq s else s) })"

text \<open>The handler for traps in kernel mode: it returns, or yields and has still to restore
  \<open>sepc\<close> and \<open>sstatus\<close>.\<close>

datatype ktrap = Returned | Preempted u64 u64

definition sys_trap_restore :: "u64 \<Rightarrow> u64 \<Rightarrow> 'a tst_scheme \<Rightarrow> 'a tst_scheme" where
  "sys_trap_restore pc st s = w_sstatus st (w_csr Sepc pc s)"

definition clear_ssip :: "'a tst_scheme \<Rightarrow> 'a tst_scheme" where
  "clear_ssip s = w_csr Sip (csrv s Sip AND NOT 2) s"

definition sys_trap_handler :: "'a tst_scheme \<Rightarrow> (ktrap \<times> 'a tst_scheme) option" where
  "sys_trap_handler s =
     (let pc = csrv s Sepc; st = r_sstatus s; cause = csrv s Scause; irq = cause AND 0xff in
      if st AND SSTATUS_SPP = 0 then None           \<comment> \<open>panic: not from supervisor mode\<close>
      else if intr_get s then None                  \<comment> \<open>panic: entered with interrupts enabled\<close>
      else if cause AND 0x8000000000000000 = 0 then None  \<comment> \<open>panic: unexpected exception\<close>
      else if irq = 1
      then let s = clear_ssip s in
           if hartid s \<noteq> 0 then None
           else case myproc s of
             Some p \<Rightarrow>
               if status (procs s p) = TASK_RUNNING
               then do { s \<leftarrow> yield_out s; Some (Preempted pc st, s) }
               else Some (Returned, sys_trap_restore pc st s)
           | None \<Rightarrow> Some (Returned, sys_trap_restore pc st s)
      else if irq = 9
      then do { s \<leftarrow> external_intr s; Some (Returned, sys_trap_restore pc st s) }
      else do { s \<leftarrow> printf msg_unknown [PW irq] s; Some (Returned, sys_trap_restore pc st s) })"

definition sys_trap_resume :: "nat \<Rightarrow> u64 \<Rightarrow> u64 \<Rightarrow> 'a tst_scheme \<Rightarrow> 'a tst_scheme" where
  "sys_trap_resume p pc st s = sys_trap_restore pc st (yield_in p s)"

section \<open>Traps from user mode\<close>

datatype ucont = UFork | UTimer | UCall cont

datatype uout = ToUser u64 u64 | Switched ucont

definition tf_kernel_satp :: u64 where [kdefs]: "tf_kernel_satp = 0"
definition tf_kernel_sp :: u64 where [kdefs]: "tf_kernel_sp = 8"
definition tf_kernel_trap :: u64 where [kdefs]: "tf_kernel_trap = 16"
definition tf_epc :: u64 where [kdefs]: "tf_epc = 24"

definition usertrapret :: "'a tst_scheme \<Rightarrow> (uout \<times> 'a tst_scheme) option" where
  "usertrapret s =
     do { let s = w_sstatus (r_sstatus s AND NOT SSTATUS_SIE) s;
          p \<leftarrow> myproc s;
          let s = w_csr Stvec (uservec s) s;
          let tf = trapframe (procs s p);
          let s = s\<lparr>pmem := store64 (pmem s) (tf + tf_kernel_sp) (kstack (procs s p) + PGSIZE)\<rparr>;
          let s = s\<lparr>pmem := store64 (pmem s) (tf + tf_kernel_trap) (usertrap_addr s)\<rparr>;
          let s = s\<lparr>pmem := store64 (pmem s) (tf + tf_kernel_satp) (MAKE_SATP (kernel_pagetable s))\<rparr>;
          let s = w_csr Sscratch tf s;
          let s = w_sstatus ((r_sstatus s AND NOT SSTATUS_SPP) OR SSTATUS_SPIE OR SSTATUS_FS_DIRTY) s;
          let s = w_csr Sepc (load64 (pmem s) (tf + tf_epc)) s;
          Some (ToUser tf (MAKE_SATP (pagetable (procs s p))), s) }"

definition usertrap_finish :: "'a tst_scheme \<Rightarrow> (uout \<times> 'a tst_scheme) option" where
  "usertrap_finish s =
     (if \<exists>p. myproc s = Some p \<and> killed (procs s p)
      then do { s \<leftarrow> proc_exit (-1) s; Some (Switched (UCall CExited), s) }
      else usertrapret s)"

definition syscall_finish :: "(cont io \<times> 'a tst_scheme) option \<Rightarrow> (uout \<times> 'a tst_scheme) option" where
  "syscall_finish r =
     (case r of
        None \<Rightarrow> None
      | Some (Result v, s) \<Rightarrow> usertrap_finish s
      | Some (Blocked c, s) \<Rightarrow> Some (Switched (UCall c), s))"

text \<open>The first part of a system call.\<close>

definition ecall_entry :: "'a tst_scheme \<Rightarrow> 'a tst_scheme option" where
  "ecall_entry s =
     do { let s = w_sstatus (r_sstatus s OR SSTATUS_SIE) s;
          p \<leftarrow> myproc s;
          let s = w_csr Stvec (sys_trap_vector s) s;
          let epc = trapframe (procs s p) + tf_epc;
          let s = s\<lparr>pmem := store64 (pmem s) epc (load64 (pmem s) epc + 4)\<rparr>;
          Some (w_sstatus (r_sstatus s OR SSTATUS_SIE) s) }"

text \<open>With another hart number than 0 \<open>myproc\<close> reads outside \<open>cpus\<close>, or the claim is
  read outside the controller; every cause but the three is a panic.\<close>

definition usertrap :: "'a tst_scheme \<Rightarrow> (uout \<times> 'a tst_scheme) option" where
  "usertrap s =
     (let s = w_csr Stvec (sys_trap_vector s) s; cause = csrv s Scause in
      if hartid s \<noteq> 0 then None
      else if cause = 8
      then do { s \<leftarrow> ecall_entry s; syscall_finish (syscall s) }
      else if cause = 0x8000000000000001
      then do { s \<leftarrow> yield_out (clear_ssip s); Some (Switched UTimer, s) }
      else if cause = 0x8000000000000009
      then do { s \<leftarrow> external_intr s; usertrap_finish s }
      else None)"

text \<open>What a process does when the scheduler has switched to it.\<close>

fun usertrap_resume :: "nat \<Rightarrow> ucont \<Rightarrow> 'a tst_scheme \<Rightarrow> (uout \<times> 'a tst_scheme) option" where
  "usertrap_resume p UFork s = do { s \<leftarrow> forkret_in s; usertrapret s }"
| "usertrap_resume p UTimer s = usertrap_finish (yield_in p s)"
| "usertrap_resume p (UCall c) s = syscall_finish (syscall_resume p c s)"

text \<open>The way into the kernel and back through \<open>uservec\<close> and \<open>userret\<close>: the registers
  of the user program, and the state of the kernel.\<close>

definition trap_entry :: "regs \<Rightarrow> 'a tst_scheme \<Rightarrow> 'a tst_scheme" where
  "trap_entry r s =
     (let m = exec uservec_code \<lparr>xr = xr r, fr = fr r, fcsr = fcsr r, csrs = csrv s, amem = pmem s\<rparr>
      in s\<lparr>pmem := amem m, csrv := csrs m, hart_tp := xr m TP\<rparr>)"

definition trap_exit :: "u64 \<Rightarrow> u64 \<Rightarrow> regs \<Rightarrow> 'a tst_scheme \<Rightarrow> regs \<times> 'a tst_scheme" where
  "trap_exit tf satp r s =
     (let m = exec userret_code \<lparr>xr = (xr r)(A0 := tf, A1 := satp), fr = fr r, fcsr = fcsr r, csrs = csrv s, amem = pmem s\<rparr>
      in (\<lparr>xr = xr m, fr = fr m, fcsr = fcsr m\<rparr>, s\<lparr>csrv := csrs m, hart_tp := xr m TP\<rparr>))"

section \<open>Lemmas\<close>

lemma csr_frame [simp]:
  "procs (w_csr c v s) = procs s" "myproc (w_csr c v s) = myproc s" "pmem (w_csr c v s) = pmem s"
  "locks (w_csr c v s) = locks s" "cpu (w_csr c v s) = cpu s" "ftable (w_csr c v s) = ftable s"
  "csrv (w_csr c v s) = (csrv s)(c := v)" "uservec (w_csr c v s) = uservec s" "hart_tp (w_csr c v s) = hart_tp s"
  "fd_view (w_csr c v s) = fd_view s" "sie (w_csr c v s) = sie s"
  by (simp_all add: w_csr_def myproc_def fd_view_def)

lemma sstatus_frame [simp]:
  "procs (w_sstatus v s) = procs s" "myproc (w_sstatus v s) = myproc s" "pmem (w_sstatus v s) = pmem s"
  "csrv (w_sstatus v s) = (csrv s)(Sstatus := v)" "uservec (w_sstatus v s) = uservec s"
  "fd_view (w_sstatus v s) = fd_view s" "hart_tp (w_sstatus v s) = hart_tp s" "ftable (w_sstatus v s) = ftable s"
  by (simp_all add: w_sstatus_def) (simp_all add: myproc_def fd_view_def)

lemma tst_release [simp]:
  "csrv (release lk s) = csrv s" "hart_tp (release lk s) = hart_tp s" "procs (release lk s) = procs s"
  "myproc (release lk s) = myproc s" "pmem (release lk s) = pmem s" "uservec (release lk s) = uservec s"
  by (simp_all add: lock_defs Let_def myproc_def)

lemma r_w_sstatus: "r_sstatus (w_sstatus v s) = v"
proof -
  have b: "v AND SSTATUS_SIE \<noteq> 0 \<longleftrightarrow> bit v 1"
    unfolding SSTATUS_SIE_def by (rule bit_iff_and_push_bit_not_eq_0 [symmetric])
  have "v OR SSTATUS_SIE = v" if "bit v 1"
    using that by (intro bit_word_eqI) (auto simp: SSTATUS_SIE_def bit_simps)
  moreover have "v AND NOT SSTATUS_SIE = v" if "\<not> bit v 1"
    using that by (intro bit_word_eqI) (auto simp: SSTATUS_SIE_def bit_simps)
  ultimately show ?thesis using b by (simp add: r_sstatus_def w_sstatus_def w_csr_def)
qed

lemma r_sstatus_csr: "c \<noteq> Sstatus \<Longrightarrow> r_sstatus (w_csr c v s) = r_sstatus s"
  by (simp add: r_sstatus_def)

lemma yield_out_free:
  assumes "myproc s = Some p" and "noff (cpu s) = 0" and "\<not> locked (locks s (LProc p))"
  shows "\<exists>s'. yield_out s = Some s' \<and> procs s' = (procs s)(p := (procs s p)\<lparr>status := TASK_READY\<rparr>)"
  using assms by (simp add: yield_out_def lock_defs sched_def Let_def myproc_def upd_proc_def)

text \<open>What \<open>usertrapret\<close> leaves: the trapframe but its first three words, and the
  control registers for user mode.\<close>

lemma usertrapret_ok:
  assumes "myproc s = Some p" and "trapframe (procs s p) = tf" and "aligned 8 tf"
  shows "\<exists>s'. usertrapret s = Some (ToUser tf (MAKE_SATP (pagetable (procs s p))), s') \<and>
    (\<forall>k. 8 dvd unat k \<longrightarrow> 24 \<le> k \<longrightarrow> load64 (pmem s') (tf + k) = load64 (pmem s) (tf + k)) \<and>
    csrv s' Sepc = load64 (pmem s) (tf + 24) \<and> csrv s' Sscratch = tf \<and> csrv s' Stvec = uservec s' \<and>
    r_sstatus s' AND SSTATUS_SPP = 0 \<and> r_sstatus s' AND SSTATUS_SPIE = SSTATUS_SPIE \<and>
    load64 (pmem s') tf = MAKE_SATP (kernel_pagetable s) \<and> load64 (pmem s') (tf + 8) = kstack (procs s p) + PGSIZE \<and>
    load64 (pmem s') (tf + 16) = usertrap_addr s"
proof -
  have o: "load64 (store64 m (tf + a) v) (tf + b) = load64 m (tf + b)" if "a \<noteq> b" "8 dvd unat a" "8 dvd unat b" for m v a b
    using assms(3) that by (intro load_store_other) (auto intro: aligned8_add)
  have o0: "load64 (store64 m tf v) (tf + b) = load64 m (tf + b)" if "b \<noteq> 0" "8 dvd unat b" for m v b
    using o [of 0 b] that by simp
  have st: "x AND NOT SSTATUS_SPP OR SSTATUS_SPIE OR SSTATUS_FS_DIRTY = y \<Longrightarrow>
      y AND SSTATUS_SPP = 0 \<and> y AND SSTATUS_SPIE = SSTATUS_SPIE" for x y
    by (auto simp: kdefs bit.conj_disj_distrib2 and.assoc)
  have k: "k \<noteq> 0 \<and> k \<noteq> 8 \<and> k \<noteq> 16" if "24 \<le> k" for k :: u64 using that by auto
  define s1 where "s1 = w_csr Stvec (uservec s) (w_sstatus (r_sstatus s AND NOT SSTATUS_SIE) s)"
  define m where "m = store64 (store64 (store64 (pmem s) (tf + 8) (kstack (procs s p) + PGSIZE)) (tf + 16) (usertrap_addr s)) tf
     (MAKE_SATP (kernel_pagetable s))"
  define s2 where "s2 = w_csr Sscratch tf (s1\<lparr>pmem := m\<rparr>)"
  define v where "v = (r_sstatus s2 AND NOT SSTATUS_SPP) OR SSTATUS_SPIE OR SSTATUS_FS_DIRTY"
  have f: "usertrap_addr s1 = usertrap_addr s" "kernel_pagetable s1 = kernel_pagetable s" "procs s1 = procs s" "myproc s1 = Some p"
    "uservec s1 = uservec s" "pmem s1 = pmem s"
    "csrv s1 Stvec = uservec s"
    using assms(1) by (simp_all add: s1_def w_csr_def w_sstatus_def myproc_def)
  have r: "usertrapret s = Some (ToUser tf (MAKE_SATP (pagetable (procs s p))), w_csr Sepc (load64 m (tf + 24)) (w_sstatus v s2))"
    using assms(1,2) by (simp add: usertrapret_def Let_def s1_def [symmetric] f tf_kernel_satp_def tf_kernel_sp_def
      tf_kernel_trap_def tf_epc_def m_def [symmetric] s2_def [symmetric] v_def [symmetric])
  show ?thesis
    unfolding r by (simp add: s2_def f) (use st [OF v_def [symmetric]] k in \<open>auto simp: m_def o o0 r_w_sstatus r_sstatus_csr f\<close>)
qed

lemma trap_entry_frame:
  assumes "csrv s Sscratch = tf" and "aligned 8 tf" and "s' = trap_entry r s"
  shows "load64 (pmem s') (tf + tf_off x) = (if x = T0 then csrv s Sepc else xr r x)"
    and "i < 32 \<Longrightarrow> load64 (pmem s') (tf + tf_foff i) = fr r i"
    and "load64 (pmem s') (tf + 24) = csrv s Sepc" and "load64 (pmem s') (tf + 544) = fcsr r"
    and "hart_tp s' = xr r TP" and "c \<notin> {Satp, Sscratch} \<Longrightarrow> csrv s' c = csrv s c"
    and "csrv s' Satp = load64 (pmem s) tf" and "procs s' = procs s" and "myproc s' = myproc s"
    and "cpu s' = cpu s" and "locks s' = locks s"
  using uservec_frame [of "\<lparr>xr = xr r, fr = fr r, fcsr = fcsr r, csrs = csrv s, amem = pmem s\<rparr>" tf]
    uservec_kernel [of "\<lparr>xr = xr r, fr = fr r, fcsr = fcsr r, csrs = csrv s, amem = pmem s\<rparr>" tf] assms
  by (auto simp: trap_entry_def Let_def myproc_def)

lemma trap_exit_regs:
  assumes "trap_exit tf satp r0 s = (r, s')"
  shows "xr r x = load64 (pmem s) (tf + tf_off x)" and "i < 32 \<Longrightarrow> fr r i = load64 (pmem s) (tf + tf_foff i)"
    and "fcsr r = load64 (pmem s) (tf + 544)" and "csrv s' = (csrv s)(Satp := satp)" and "pmem s' = pmem s"
    and "r_sstatus s' = r_sstatus s" and "uservec s' = uservec s"
  using assms userret_regs [of "\<lparr>xr = (xr r0)(A0 := tf, A1 := satp), fr = fr r0, fcsr = fcsr r0, csrs = csrv s, amem = pmem s\<rparr>" tf]
  by (auto simp: trap_exit_def Let_def r_sstatus_def)

lemma tf_off_range: "8 dvd unat (tf_off x)" "24 \<le> tf_off x" "tf_off x < 552"
  by (cases x; simp)+

lemma tf_foff_range:
  assumes "i < 32"
  shows "8 dvd unat (tf_foff i)" and "24 \<le> tf_foff i" and "tf_foff i < 552"
proof -
  have u: "unat (tf_foff i) = 288 + 8 * i"
    unfolding tf_foff_def unat_of_nat using assms by (intro mod_less) simp
  have "(8 :: nat) dvd 8 * (36 + i)" by (rule dvd_triv_left)
  then show "8 dvd unat (tf_foff i)" by (simp add: u)
  show "24 \<le> tf_foff i" "tf_foff i < 552" using assms by (simp_all add: word_le_nat_alt word_less_nat_alt u)
qed

text \<open>The words of a trapframe that belong to the user.\<close>

definition same_frame :: "u64 \<Rightarrow> mem \<Rightarrow> mem \<Rightarrow> bool" where
  "same_frame tf m m' \<longleftrightarrow> (\<forall>k. 8 dvd unat k \<and> 24 \<le> k \<and> k < 552 \<longrightarrow> load64 m' (tf + k) = load64 m (tf + k))"

lemma same_frame_trans: "same_frame tf a b \<Longrightarrow> same_frame tf b c \<Longrightarrow> same_frame tf a c"
  by (simp add: same_frame_def)

lemma same_frameD:
  assumes "same_frame tf m m'"
  shows "load64 m' (tf + tf_off x) = load64 m (tf + tf_off x)" and "i < 32 \<Longrightarrow> load64 m' (tf + tf_foff i) = load64 m (tf + tf_foff i)"
    and "load64 m' (tf + 24) = load64 m (tf + 24)" and "load64 m' (tf + 544) = load64 m (tf + 544)"
  using assms tf_off_range tf_foff_range by (simp_all add: same_frame_def)

text \<open>The trapframe at \<open>tf\<close> holds the registers \<open>r\<close> and the program counter \<open>pc\<close>.\<close>

definition frame_holds :: "u64 \<Rightarrow> mem \<Rightarrow> regs \<Rightarrow> u64 \<Rightarrow> bool" where
  "frame_holds tf m r pc \<longleftrightarrow> (\<forall>x. load64 m (tf + tf_off x) = xr r x) \<and> (\<forall>i < 32. load64 m (tf + tf_foff i) = fr r i) \<and>
     load64 m (tf + 544) = fcsr r \<and> load64 m (tf + 24) = pc"

lemma frame_holds_same: "frame_holds tf m r pc \<Longrightarrow> same_frame tf m m' \<Longrightarrow> frame_holds tf m' r pc"
  using same_frameD [of tf m m'] by (auto simp: frame_holds_def)

lemma frame_holds_entry:
  assumes "csrv s Sscratch = tf" and "aligned 8 tf"
  shows "frame_holds tf (pmem (trap_entry r s)) (r\<lparr>xr := (xr r)(T0 := csrv s Sepc)\<rparr>) (csrv s Sepc)"
  by (simp add: frame_holds_def trap_entry_frame [OF assms refl])

lemma tf_off_inj: "tf_off x = tf_off y \<longleftrightarrow> x = y"
  by (cases y) (cases x; simp)+

lemma frame_holds_store:
  assumes "frame_holds tf m r pc" and "aligned 8 tf"
  shows "frame_holds tf (store64 m (tf + 24) pc') r pc'"
    and "frame_holds tf (store64 m (tf + 112) v) (r\<lparr>xr := (xr r)(A0 := v)\<rparr>) pc"
proof -
  have o: "load64 (store64 m (tf + a) v) (tf + b) = load64 m (tf + b)" if "a \<noteq> b" "8 dvd unat a" "8 dvd unat b" for m v a b
    using assms(2) that by (intro load_store_other) (auto intro: aligned8_add)
  have x: "tf_off x \<noteq> 24" "tf_off x = 112 \<longleftrightarrow> x = A0" for x using tf_off_inj [of x A0] by (cases x; simp)+
  have f: "288 \<le> tf_foff i" if "i < 32" for i
  proof -
    have "unat (tf_foff i) = 288 + 8 * i" unfolding tf_foff_def unat_of_nat using that by (intro mod_less) simp
    then show ?thesis by (simp add: word_le_nat_alt)
  qed
  have f: "tf_foff i \<noteq> 24" "tf_foff i \<noteq> 112" if "i < 32" for i using f [OF that] by auto
  show "frame_holds tf (store64 m (tf + 24) pc') r pc'"
    using assms(1) x f tf_off_range(1) tf_foff_range(1) by (auto simp: frame_holds_def o)
  have "load64 (store64 m (tf + 112) v) (tf + tf_off x) = (if x = A0 then v else load64 m (tf + tf_off x))" for x
    using o [of 112 "tf_off x"] x(2) [of x] tf_off_range(1) [of x] by (cases "x = A0") auto
  then show "frame_holds tf (store64 m (tf + 112) v) (r\<lparr>xr := (xr r)(A0 := v)\<rparr>) pc"
    using assms(1) f tf_foff_range(1) by (auto simp: frame_holds_def o)
qed

text \<open>From a state in which the trapframe holds \<open>r\<close> and \<open>pc\<close> the way out gives exactly them
  to the user.\<close>

definition user_mode :: "'a tst_scheme \<Rightarrow> u64 \<Rightarrow> u64 \<Rightarrow> bool" where
  "user_mode u tf satp \<longleftrightarrow> csrv u Satp = satp \<and> csrv u Sscratch = tf \<and> csrv u Stvec = uservec u \<and>
     r_sstatus u AND SSTATUS_SPP = 0 \<and> r_sstatus u AND SSTATUS_SPIE = SSTATUS_SPIE"

lemma back_to_user:
  assumes "frame_holds tf (pmem t) r pc" and "aligned 8 tf"
    and "myproc t = Some p" and "trapframe (procs t p) = tf" and "\<not> killed (procs t p)"
  shows "\<exists>t'. usertrap_finish t = Some (ToUser tf (MAKE_SATP (pagetable (procs t p))), t') \<and>
    (case trap_exit tf (MAKE_SATP (pagetable (procs t p))) rk t' of
       (r', u) \<Rightarrow> xr r' = xr r \<and> (\<forall>i < 32. fr r' i = fr r i) \<and> fcsr r' = fcsr r \<and> csrv u Sepc = pc \<and>
         user_mode u tf (MAKE_SATP (pagetable (procs t p))))"
proof -
  obtain t' where t': "usertrapret t = Some (ToUser tf (MAKE_SATP (pagetable (procs t p))), t')"
    "\<forall>k. 8 dvd unat k \<longrightarrow> 24 \<le> k \<longrightarrow> load64 (pmem t') (tf + k) = load64 (pmem t) (tf + k)"
    "csrv t' Sepc = load64 (pmem t) (tf + 24)" "csrv t' Sscratch = tf" "csrv t' Stvec = uservec t'"
    "r_sstatus t' AND SSTATUS_SPP = 0" "r_sstatus t' AND SSTATUS_SPIE = SSTATUS_SPIE"
    using usertrapret_ok [OF assms(3,4,2)] by blast
  have f: "frame_holds tf (pmem t') r pc"
    by (rule frame_holds_same [OF assms(1)]) (use t'(2) in \<open>simp add: same_frame_def\<close>)
  obtain r' u where ru: "trap_exit tf (MAKE_SATP (pagetable (procs t p))) rk t' = (r', u)" by fastforce
  note x = trap_exit_regs [OF ru]
  have "xr r' = xr r" "\<forall>i < 32. fr r' i = fr r i" "fcsr r' = fcsr r" "csrv u Sepc = pc" "user_mode u tf (MAKE_SATP (pagetable (procs t p)))"
    using f assms(1) t' by (auto simp: fun_eq_iff frame_holds_def x user_mode_def)
  then show ?thesis using t' assms(3,5) ru by (simp add: usertrap_finish_def)
qed

lemma entry_usertrap:
  assumes "csrv s Sscratch = tf" and "aligned 8 tf" and "ucast (xr r TP) = (0 :: u32)" and "csrv s Scause = cause"
  shows "hartid (trap_entry r s) = 0" and "csrv (trap_entry r s) Scause = cause"
  by (simp_all add: hartid_def trap_entry_frame(5,6) [OF assms(1,2) refl] assms)

lemma ecall_frame:
  assumes "csrv s Sscratch = tf" and "aligned 8 tf" and "myproc s = Some p" and "trapframe (procs s p) = tf"
    and "ecall_entry (w_csr Stvec v (trap_entry r s)) = Some s0"
  shows "frame_holds tf (pmem s0) (r\<lparr>xr := (xr r)(T0 := csrv s Sepc)\<rparr>) (csrv s Sepc + 4)"
    and "myproc s0 = Some p" and "procs s0 = procs s"
proof -
  let ?t = "trap_entry r s"
  have h: "frame_holds tf (store64 (pmem ?t) (tf + 24) (csrv s Sepc + 4)) (r\<lparr>xr := (xr r)(T0 := csrv s Sepc)\<rparr>) (csrv s Sepc + 4)"
    by (rule frame_holds_store(1) [OF frame_holds_entry [OF assms(1,2)] assms(2)])
  have [simp]: "myproc (x\<lparr>pmem := m\<rparr>) = myproc x" for x :: "'a tst_scheme" and m by (simp add: myproc_def)
  have e: "load64 (pmem ?t) (tf + 24) = csrv s Sepc" "procs ?t = procs s" "myproc ?t = Some p"
    using assms(3) by (simp_all add: trap_entry_frame(3,8,9) [OF assms(1,2) refl])
  show "frame_holds tf (pmem s0) (r\<lparr>xr := (xr r)(T0 := csrv s Sepc)\<rparr>) (csrv s Sepc + 4)" "myproc s0 = Some p" "procs s0 = procs s"
    using assms(4,5) h e by (auto simp: ecall_entry_def Let_def tf_epc_def)
qed

section \<open>Properties\<close>

text \<open>
  Property C30 (roundtrip). Preemption of a user program: the timer interrupt puts the process
  back among the ready ones, and whenever it is switched to again, with its trapframe as it was
  left and the process not killed, it goes on in user mode at the interrupted instruction, in its
  own address space, with every integer and floating-point register as before - except \<open>t0\<close>,
  which holds the interrupted address, because \<open>uservec\<close> reads \<open>sepc\<close> into \<open>t0\<close> before it saves
  it. The program must have 0 in \<open>tp\<close>, which the kernel takes as the number of the hart.
\<close>

theorem preemption_loses_only_t0:
  fixes s :: "'a tst_scheme"
  assumes "myproc s = Some p" and "trapframe (procs s p) = tf" and "csrv s Sscratch = tf" and "aligned 8 tf"
    and "csrv s Scause = 0x8000000000000001" and "ucast (xr r TP) = (0 :: u32)"
    and "noff (cpu s) = 0" and "\<not> locked (locks s (LProc p))" and "satp = MAKE_SATP (pagetable (procs s p))"
  shows "\<exists>s1. usertrap (trap_entry r s) = Some (Switched UTimer, s1) \<and> status (procs s1 p) = TASK_READY \<and>
    (\<forall>s2 :: 'a tst_scheme. myproc s2 = Some p \<and> procs s2 p = (procs s1 p)\<lparr>status := TASK_RUNNING\<rparr> \<and> \<not> killed (procs s p) \<and>
       same_frame tf (pmem s1) (pmem s2) \<longrightarrow>
     (\<exists>s3. usertrap_resume p UTimer s2 = Some (ToUser tf satp, s3) \<and>
       (case trap_exit tf satp rk s3 of
          (r', u) \<Rightarrow> xr r' = (xr r)(T0 := csrv s Sepc) \<and> (\<forall>i < 32. fr r' i = fr r i) \<and> fcsr r' = fcsr r \<and>
            csrv u Sepc = csrv s Sepc \<and> user_mode u tf satp)))"
proof -
  let ?e = "trap_entry r s" and ?w = "\<lambda>t. clear_ssip (w_csr Stvec (sys_trap_vector t) t)"
  note e = entry_usertrap [OF assms(3,4,6,5)] and fr = trap_entry_frame [OF assms(3,4) refl]
  have w: "myproc (?w ?e) = Some p" "noff (cpu (?w ?e)) = 0" "\<not> locked (locks (?w ?e) (LProc p))" "procs (?w ?e) = procs s"
    "pmem (?w ?e) = pmem ?e"
    using assms(1,7,8) by (simp_all add: clear_ssip_def fr(8-11))
  obtain s1 where s1: "yield_out (?w ?e) = Some s1" "procs s1 = (procs s)(p := (procs s p)\<lparr>status := TASK_READY\<rparr>)"
    using yield_out_free [OF w(1-3)] w(4) by auto
  have m: "pmem s1 = pmem ?e" using proc_rest_cons(6) [OF proc_rest_switch(2) [OF s1(1)]] w(5) by simp
  have t: "usertrap ?e = Some (Switched UTimer, s1)"
    using s1(1) e by (simp add: usertrap_def Let_def hartid_def)
  note bk = back_to_user [OF frame_holds_same [OF frame_holds_entry [OF assms(3,4)]] assms(4)]
  have "\<exists>s3. usertrap_resume p UTimer s2 = Some (ToUser tf satp, s3) \<and>
       (case trap_exit tf satp rk s3 of
          (r', u) \<Rightarrow> xr r' = (xr r)(T0 := csrv s Sepc) \<and> (\<forall>i < 32. fr r' i = fr r i) \<and> fcsr r' = fcsr r \<and>
            csrv u Sepc = csrv s Sepc \<and> user_mode u tf satp)"
    if "myproc s2 = Some p" "procs s2 p = (procs s1 p)\<lparr>status := TASK_RUNNING\<rparr>" "\<not> killed (procs s p)"
      "same_frame tf (pmem s1) (pmem s2)" for s2 :: "'a tst_scheme"
    using bk [where t = "yield_in p s2" and p = p and rk = rk] that assms(2,9) by (simp add: yield_in_def m s1(2))
  then show ?thesis using t s1(2) by auto
qed

text \<open>A user process in a trap, for the witnesses: process 0 with its trapframe at
  \<open>0x80005000\<close>.\<close>

definition tiny_trap :: "u64 \<Rightarrow> tst" where
  "tiny_trap cause = vst.extend (tiny_disk_run\<lparr>procs := (\<lambda>_. zero_proc)(0 := zero_proc\<lparr>status := TASK_RUNNING, pid := 1,
       trapframe := 0x80005000, pagetable := 0x80006000\<rparr>)\<rparr>)
     \<lparr>csrv = (\<lambda>_. 0)(Sscratch := 0x80005000, Scause := cause, Sepc := 0x1000), hart_tp = 0, sys_trap_vector = 0x80000200,
       usertrap_addr = 0x80000300, uart_rx = [], uart_ier = 0, plic_reg = (\<lambda>_. 0), plic_out = []\<rparr>"

definition tiny_regs :: regs where
  "tiny_regs = \<lparr>xr = (\<lambda>_. 5)(TP := 0, A7 := 11), fr = (\<lambda>_. 0), fcsr = 0\<rparr>"

lemma tiny_trap:
  "myproc (tiny_trap c) = Some 0" "csrv (tiny_trap c) = (\<lambda>_. 0)(Sscratch := 0x80005000, Scause := c, Sepc := 0x1000)"
  "procs (tiny_trap c) 0 = zero_proc\<lparr>status := TASK_RUNNING, pid := 1, trapframe := 0x80005000, pagetable := 0x80006000\<rparr>"
  "noff (cpu (tiny_trap c)) = 0" "\<not> locked (locks (tiny_trap c) l)"
  by (simp_all add: tiny_trap_def vst.defs tiny_disk_run_def myproc_def)
    (simp add: tiny_disk_def kst.defs fs_st.defs tiny_cons_def lock_free_def)

theorem preemption_loses_only_t0_witness:
  "\<exists>s1 s3. usertrap (trap_entry tiny_regs (tiny_trap 0x8000000000000001)) = Some (Switched UTimer, s1) \<and>
     usertrap_resume 0 UTimer (s1\<lparr>cpu := (cpu s1)\<lparr>cproc := Some 0\<rparr>, procs := (procs s1)(0 := (procs s1 0)\<lparr>status := TASK_RUNNING\<rparr>)\<rparr>)
       = Some (ToUser 0x80005000 (MAKE_SATP 0x80006000), s3) \<and>
     xr (fst (trap_exit 0x80005000 (MAKE_SATP 0x80006000) tiny_regs s3)) T0 = 0x1000 \<and>
     xr (fst (trap_exit 0x80005000 (MAKE_SATP 0x80006000) tiny_regs s3)) T1 = 5"
proof -
  let ?s = "tiny_trap 0x8000000000000001" and ?r = tiny_regs
  have t: "trapframe (procs ?s 0) = 0x80005000" "csrv ?s Sscratch = 0x80005000" "aligned 8 (0x80005000 :: u64)"
    "csrv ?s Scause = 0x8000000000000001" "ucast (xr ?r TP) = (0 :: u32)" "MAKE_SATP 0x80006000 = MAKE_SATP (pagetable (procs ?s 0))"
    by (simp_all add: tiny_trap aligned_def tiny_regs_def)
  obtain s1 where s1: "usertrap (trap_entry ?r ?s) = Some (Switched UTimer, s1)"
    "\<forall>s2 :: tst. myproc s2 = Some 0 \<and> procs s2 0 = (procs s1 0)\<lparr>status := TASK_RUNNING\<rparr> \<and> \<not> killed (procs ?s 0) \<and>
       same_frame 0x80005000 (pmem s1) (pmem s2) \<longrightarrow>
     (\<exists>s3. usertrap_resume 0 UTimer s2 = Some (ToUser 0x80005000 (MAKE_SATP 0x80006000), s3) \<and>
       (case trap_exit 0x80005000 (MAKE_SATP 0x80006000) ?r s3 of
          (r', u) \<Rightarrow> xr r' = (xr ?r)(T0 := csrv ?s Sepc) \<and> (\<forall>i < 32. fr r' i = fr ?r i) \<and> fcsr r' = fcsr ?r \<and>
            csrv u Sepc = csrv ?s Sepc \<and> user_mode u 0x80005000 (MAKE_SATP 0x80006000)))"
    using preemption_loses_only_t0 [OF tiny_trap(1) t(1-5) tiny_trap(4,5) t(6), of ?r] by blast
  define s2 where "s2 = s1\<lparr>cpu := (cpu s1)\<lparr>cproc := Some 0\<rparr>, procs := (procs s1)(0 := (procs s1 0)\<lparr>status := TASK_RUNNING\<rparr>)\<rparr>"
  have "\<exists>s3. usertrap_resume 0 UTimer s2 = Some (ToUser 0x80005000 (MAKE_SATP 0x80006000), s3) \<and>
       (case trap_exit 0x80005000 (MAKE_SATP 0x80006000) ?r s3 of (r', u) \<Rightarrow> xr r' = (xr ?r)(T0 := csrv ?s Sepc))"
    using s1(2) [rule_format, of s2] by (auto simp: s2_def myproc_def same_frame_def tiny_trap zero_proc_def)
  then show ?thesis using s1(1) by (fastforce simp: s2_def tiny_trap tiny_regs_def split: prod.splits)
qed

end
