(* ===== verification/Boot.thy ===== *)
theory Boot
  imports Trap
begin

text \<open>
  The way to the scheduler: machine-mode \<open>start\<close> and \<open>timerinit\<close> (\<open>kernel/boot/start.c\<close>),
  \<open>kvminithart\<close>, the first process (\<open>userinit\<close> of \<open>kernel/proc/proc.c\<close>) and
  \<open>start_main\<close> (\<open>kernel/boot/main.c\<close>). The program that the linker places at
  \<open>_binary_initcode_bin_start\<close> is an address and a size, fixed by the build.
\<close>

section \<open>Machine mode\<close>

record bst = tst +
  clint :: "u64 \<Rightarrow> u64"          \<comment> \<open>registers of the CLINT timer\<close>
  timer_scratch :: u64          \<comment> \<open>addresses fixed by the linker\<close>
  timervec_addr :: u64
  start_main_addr :: u64
  initcode_start :: u64
  initcode_size :: u64

definition CLINT :: u64 where [kdefs]: "CLINT = 0x2000000"
definition CLINT_MTIMECMP :: "u64 \<Rightarrow> u64" where "CLINT_MTIMECMP h = CLINT + 0x4000 + 8 * h"
definition CLINT_MTIME :: u64 where "CLINT_MTIME = CLINT + 0xBFF8"

definition MSTATUS_MPP_MASK :: u64 where [kdefs]: "MSTATUS_MPP_MASK = push_bit 11 3"
definition MSTATUS_MPP_S :: u64 where [kdefs]: "MSTATUS_MPP_S = push_bit 11 1"
definition SIE_SEIE :: u64 where [kdefs]: "SIE_SEIE = push_bit 9 1"
definition SIE_STIE :: u64 where [kdefs]: "SIE_STIE = push_bit 5 1"
definition SIE_SSIE :: u64 where [kdefs]: "SIE_SSIE = push_bit 1 1"
definition MIE_MTIE :: u64 where [kdefs]: "MIE_MTIE = push_bit 7 1"

definition timerinit :: "'a bst_scheme \<Rightarrow> 'a bst_scheme" where
  "timerinit s =
     (let h = scast (ucast (csrv s Mhartid) :: u32) :: u64;
          interval = 1000000;
          s = s\<lparr>clint := (clint s)(CLINT_MTIMECMP h := clint s CLINT_MTIME + interval)\<rparr>;
          scratch = timer_scratch s + 40 * h;
          s = s\<lparr>pmem := store64 (pmem s) (scratch + 24) (CLINT_MTIMECMP h)\<rparr>;
          s = s\<lparr>pmem := store64 (pmem s) (scratch + 32) interval\<rparr>;
          s = w_csr Mscratch scratch s;
          s = w_csr Mtvec (timervec_addr s) s
      in w_csr Mie (csrv s Mie OR MIE_MTIE) s)"

text \<open>Up to \<open>mret\<close>, which goes to \<open>mepc\<close> in the mode that \<open>mstatus.MPP\<close> holds.\<close>

definition start :: "'a bst_scheme \<Rightarrow> 'a bst_scheme" where
  "start s =
     (let x = csrv s Mstatus;
          x = x AND NOT MSTATUS_MPP_MASK;
          x = x OR MSTATUS_MPP_S;
          s = w_csr Mstatus x s;
          s = w_csr Mepc (start_main_addr s) s;
          s = w_csr Pmpaddr0 0x3fffffffffffff s;
          s = w_csr Pmpcfg0 0xf s;
          s = w_csr Medeleg 0xffff s;
          s = w_csr Mideleg 0xffff s;
          s = w_csr Sie (csrv s Sie OR SIE_SEIE OR SIE_STIE OR SIE_SSIE) s;
          s = timerinit s
      in s\<lparr>hart_tp := csrv s Mhartid\<rparr>)"

section \<open>The first process\<close>

definition kvminithart :: "'a tst_scheme \<Rightarrow> 'a tst_scheme" where
  "kvminithart s = w_csr Satp (MAKE_SATP (kernel_pagetable s)) s"

text \<open>The pages of the program; a result \<^term>\<open>False\<close> when memory runs out.\<close>

fun userinit_code :: "nat \<Rightarrow> nat list \<Rightarrow> 'a bst_scheme \<Rightarrow> (bool \<times> 'a bst_scheme) option" where
  "userinit_code p [] s = Some (True, s)"
| "userinit_code p (k # ks) s =
     (let off = of_nat k * PGSIZE; (code_pa, s) = kalloc s in
      if code_pa = 0 then Some (False, s)
      else let s = s\<lparr>pmem := memset (pmem s) code_pa 0 4096\<rparr>;
               n = (if initcode_size s - off > PGSIZE then PGSIZE else initcode_size s - off);
               s = (if off < initcode_size s
                    then s\<lparr>pmem := memmove (pmem s) code_pa (initcode_start s + off) (unat n)\<rparr> else s)
           in do { (_, s) \<leftarrow> mappages s (pagetable (procs s p)) code_pa off PGSIZE (PTE_R OR PTE_W OR PTE_X OR PTE_U);
                   userinit_code p ks s })"

text \<open>A console file; without a free slot the code writes through NULL.\<close>

definition console_file :: "bool \<Rightarrow> bool \<Rightarrow> nat \<Rightarrow> 'a kst_scheme \<Rightarrow> 'a kst_scheme" where
  "console_file rd wr f s = upd_file f (\<lambda>x. x\<lparr>f_type := FD_CONSOLE, f_readable := rd, f_writable := wr\<rparr>) s"

definition userinit_files :: "nat \<Rightarrow> 'a kst_scheme \<Rightarrow> 'a kst_scheme option" where
  "userinit_files p s =
     do { let (r0, s) = filealloc s;
          let (r1, s) = filealloc s;
          let (r2, s) = filealloc s;
          f0 \<leftarrow> r0; f1 \<leftarrow> r1; f2 \<leftarrow> r2;
          let s = console_file True False f0 s;
          let s = console_file False True f1 s;
          let s = console_file False True f2 s;
          Some (set_ofile p 2 (Some f2) (set_ofile p 1 (Some f1) (set_ofile p 0 (Some f0) s))) }"

definition userinit_run :: "nat \<Rightarrow> 'a bst_scheme \<Rightarrow> 'a bst_scheme option" where
  "userinit_run p s =
     do { s \<leftarrow> userinit_files p s;
          (ip, s) \<leftarrow> namei s [47, 0];
          let s = upd_proc p (\<lambda>x. x\<lparr>cwd := ip, cwd_path := safestrcpy (cwd_path x) [47, 0] (int MAXPATH), pname := ''proczero''\<rparr>) s;
          Some (release (LProc p) (upd_proc p (\<lambda>x. x\<lparr>status := TASK_READY\<rparr>) s)) }"

text \<open>The stack page behind the code, the registers and the size; from here the lock is held.\<close>

definition userinit_stack :: "nat \<Rightarrow> u64 \<Rightarrow> 'a bst_scheme \<Rightarrow> 'a bst_scheme option" where
  "userinit_stack p code_sz s =
     (let (stack_pa, s) = kalloc s in
      if stack_pa = 0 then None  \<comment> \<open>memset through NULL: the kernel faults\<close>
      else do { let s = s\<lparr>pmem := memset (pmem s) stack_pa 0 4096\<rparr>;
                (_, s) \<leftarrow> mappages s (pagetable (procs s p)) stack_pa code_sz PGSIZE (PTE_R OR PTE_W OR PTE_U);
                let tf = trapframe (procs s p);
                let s = s\<lparr>pmem := memset (pmem s) tf 0 4096\<rparr>;
                let s = s\<lparr>pmem := store64 (pmem s) (tf + tf_epc) 0\<rparr>;
                let s = s\<lparr>pmem := store64 (pmem s) (tf + tf_off SP) (code_sz + PGSIZE)\<rparr>;
                Some (upd_proc p (\<lambda>x. x\<lparr>psz := code_sz + PGSIZE\<rparr>) s) })"

definition userinit :: "'a bst_scheme \<Rightarrow> 'a bst_scheme option" where
  "userinit s =
     do { (r, s) \<leftarrow> allocproc s;
          p \<leftarrow> r;  \<comment> \<open>the lock of NULL is taken before the check\<close>
          s \<leftarrow> acquire (LProc p) s;
          let (ks, s) = kalloc s;
          let s = upd_proc p (\<lambda>x. x\<lparr>kstack := ks\<rparr>) s;
          let free = (\<lambda>s. Some (release (LProc p) (upd_proc p (\<lambda>x. x\<lparr>status := TASK_FREE\<rparr>) s)));
          if ks = 0 then free s
          else do { (pt, s) \<leftarrow> proc_pagetable s (trapframe (procs s p));
                    let s = upd_proc p (\<lambda>x. x\<lparr>pagetable := pt, ctx_sp := kstack x + PGSIZE, ctx_ra := forkret_addr s\<rparr>) s;
                    let code_sz = PGROUNDUP (initcode_size s);
                    if pt = 0 then None  \<comment> \<open>mappages walks a table at NULL: the kernel faults\<close>
                    else do { (ok, s) \<leftarrow> userinit_code p [0..<unat code_sz div 4096] s;
                              if ok then do { s \<leftarrow> userinit_stack p code_sz s; userinit_run p s } else free s } } }"

section \<open>\<open>start_main\<close>\<close>

text \<open>Up to the call of \<open>scheduler\<close>; \<open>fsinit\<close> also initialises the disk driver.\<close>

definition start_main :: "'a bst_scheme \<Rightarrow> 'a bst_scheme option" where
  "start_main s =
     do { s \<leftarrow> kinit s;
          s \<leftarrow> kvmininit s;
          let s = kvminithart s;
          let s = trapinithart s;
          let s = intr_on s;
          let s = procinit s;
          s \<leftarrow> virtio_disk_init s;
          s \<leftarrow> fsinit ROOTDEV s;
          userinit s }"

end
