(* ===== verification/Address_Space.thy ===== *)
theory Address_Space
  imports Page_Table
begin

text \<open>
  The address spaces the kernel builds on \<open>mappages\<close>: its own (\<open>kvmininit\<close>) and that of
  a new process (\<open>proc_pagetable\<close>). The lemmas put the single calls together; the page
  budget of a call is two table pages for each 2 MiB region it touches.
\<close>

section \<open>Ranges\<close>

lemma in_range_page:
  assumes "aligned 4096 a"
  shows "in_range a n (PGROUNDDOWN v) \<longleftrightarrow> unat a \<le> unat v \<and> unat v < unat a + 4096 * n"
proof -
  obtain k where k: "unat a = 4096 * k" using assms unfolding aligned_def dvd_def by blast
  have u: "unat (PGROUNDDOWN v) = 4096 * (unat v div 4096)"
    by (simp add: PGROUNDDOWN_def unat_and_not_mask minus_mod_eq_mult_div)
  have "4096 * k \<le> 4096 * (unat v div 4096) \<longleftrightarrow> 4096 * k \<le> unat v"
    using less_eq_div_iff_mult_less_eq [of 4096 k "unat v"] by (simp add: mult.commute)
  moreover have "4096 * (unat v div 4096) < 4096 * (k + n) \<longleftrightarrow> unat v div 4096 < k + n" by (simp only: mult_less_cancel1) simp
  moreover have "unat v div 4096 < k + n \<longleftrightarrow> unat v < (k + n) * 4096" by (rule div_less_iff_less_mult) simp
  ultimately show ?thesis by (simp add: in_range_def u k mult.commute)
qed

lemma regions_le:
  assumes "unat a div 2 ^ 21 = j" and "unat a + 4096 * n \<le> 2 ^ 21 * (j + i)" and "0 < n"
  shows "regions a n \<le> i"
proof -
  have "(unat a + 4096 * n - 1) div 2 ^ 21 < j + i"
    using assms(2,3) by (subst div_less_iff_less_mult) (auto simp: mult.commute)
  then show ?thesis unfolding regions_def assms(1) by linarith
qed

text \<open>An identity mapping on top of what a table maps already.\<close>

definition rng :: "nat \<Rightarrow> nat \<Rightarrow> u64 \<Rightarrow> bool" where
  "rng lo hi v \<longleftrightarrow> lo \<le> unat v \<and> unat v < hi"

definition id_pte :: "u64 \<Rightarrow> u64 \<Rightarrow> u64 option" where
  "id_pte perm v = Some (PA2PTE (PGROUNDDOWN v) OR (perm OR PTE_V))"

lemma map_identity:
  assumes "pt_step s0 xs0 root s xs" and "\<forall>v < MAXVA. translate (pmem s) root v = f v"
    and "aligned 4096 va" and "sz = of_nat (4096 * n)" and "0 < n" and "unat va = lo" and "lo + 4096 * n = hi" and "hi \<le> 2 ^ 38"
    and "\<forall>v. rng lo hi v \<longrightarrow> f v = None" and "2 * regions va n \<le> k" and "length xs0 \<le> length xs + j" and "j + k \<le> length xs0"
  obtains s' ys where "mappages s root va va sz perm = Some (0, s')" and "pt_step s0 xs0 root s' ys"
    and "length xs0 \<le> length ys + (j + k)"
    and "\<forall>v < MAXVA. translate (pmem s') root v = (if rng lo hi v then id_pte perm v else f v)"
proof -
  have i: "free_pages s xs" "pt_ok (pmem s) root xs" using assms(1) by (auto simp: pt_step_def)
  have b: "unat va + 4096 * n \<le> 2 ^ 38" "2 * regions va n \<le> length xs" using assms(6-8,10-12) by simp_all
  have r: "in_range va n (PGROUNDDOWN v) \<longleftrightarrow> rng lo hi v" for v
    unfolding in_range_page [OF assms(3)] rng_def using assms(6,7) by auto
  have un: "\<forall>v < MAXVA. in_range va n (PGROUNDDOWN v) \<longrightarrow> translate (pmem s) root v = None"
    using assms(2,9) by (simp add: r)
  obtain s' ys where m: "mappages s root va va sz perm = Some (0, s')" "pt_step s xs root s' ys"
    "length xs \<le> length ys + 2 * regions va n"
    "\<forall>v < MAXVA. translate (pmem s') root v = (if rng lo hi v then id_pte perm v else f v)"
    using mappages_step [OF i assms(3,5) b un, of va perm] assms(2) unfolding r assms(4) id_pte_def by auto
  show ?thesis
    by (rule that [OF m(1) pt_step_trans [OF assms(1) m(2)] _ m(4)]) (use m(3) assms(10,11) in simp)
qed

section \<open>The kernel's address space\<close>

lemma memset_add: "memset m q v (a + b) = memset (memset m q v a) (q + of_nat a) v b"
proof -
  have "[0..<a + b] = [0..<a] @ [a..<a + b]" by (rule upt_add_eq_append) simp
  then have u: "[0..<a + b] = [0..<a] @ map (\<lambda>i. i + a) [0..<b]" by (simp only: map_add_upt add.commute [of b a])
  show ?thesis unfolding memset_def u fold_append fold_map comp_def of_nat_add by (simp only: ac_simps)
qed

lemma zero_root: "n \<le> 512 \<Longrightarrow> fold (\<lambda>i m. store64 m (q + 8 * of_nat i) 0) [0..<n] m = memset m q 0 (8 * n)"
proof (induction n)
  case (Suc n)
  have "le_bytes 8 (0 :: u64) = replicate 8 0" by (rule nth_equalityI) simp_all
  then have z: "store64 m a 0 = memset m a 0 8" for m a using memset_eq [of 8 m a 0] by (simp add: store64_def)
  show ?case using Suc memset_add [of m q 0 "8 * n" 8] by (simp add: z add.commute)
qed (simp add: memset_def)

text \<open>The translations of the kernel: devices and memory at their own addresses; text is
  executable and not writable, everything else writable and not executable.\<close>

definition kernel_map :: "u64 \<Rightarrow> u64 \<Rightarrow> u64 option" where
  "kernel_map text_end v =
     (let pte = (\<lambda>perm. Some (PA2PTE (PGROUNDDOWN v) OR (perm OR PTE_V))) in
      if 0x0c000000 \<le> v \<and> v < 0x0c400000 \<or> 0x10000000 \<le> v \<and> v < 0x10002000 then pte (PTE_R OR PTE_W)
      else if KERNBASE \<le> v \<and> v < text_end then pte (PTE_R OR PTE_X)
      else if text_end \<le> v \<and> v < PHYSTOP then pte (PTE_R OR PTE_W)
      else None)"

lemma kvmininit_ok:
  assumes "free_pages s (q # xs)" and "264 \<le> length xs" and "aligned 4096 te" and "KERNBASE < te" and "te < PHYSTOP"
    and "PGROUNDUP (etext s) = te"
  shows "\<exists>s' ys. kvmininit s = Some s' \<and> kernel_pagetable s' = q \<and>
    (\<forall>v < MAXVA. translate (pmem s') q v = kernel_map te v) \<and>
    pt_ok (pmem s') q ys \<and> free_pages s' ys \<and> suffix ys xs \<and> length xs \<le> length ys + 264 \<and>
    (\<exists>m f. s' = s\<lparr>pmem := m, free_mem_list := f, kernel_pagetable := q\<rparr>) \<and>
    (\<forall>x. (\<forall>p \<in> set (q # xs). \<not> in_page p x) \<longrightarrow> pmem s' x = pmem s x)"
proof -
  define s0 where "s0 = s\<lparr>kernel_pagetable := q, free_mem_list := load64 (pmem s) q, pmem := memset (pmem s) q 0 4096\<rparr>"
  have kp: "free_pages (s\<lparr>kernel_pagetable := q\<rparr>) (q # xs)" using assms(1) by (simp add: free_pages_def managed_def)
  have k: "kalloc s = (q, s\<lparr>free_mem_list := load64 (pmem s) q\<rparr>)" "q \<noteq> 0"
    using free_pages_Cons [OF assms(1)] kpages.pages_valid [OF assms(1)] by auto
  note fr = fresh_root [OF kp, simplified]
  obtain jt where jt: "unat te = 4096 * jt" using assms(3) unfolding aligned_def dvd_def by blast
  have kb: "unat te - 0x80000000 = 4096 * (jt - 0x80000)" "0x80000 < jt" "jt < 0x88000"
    using assms(4,5) jt by (simp_all add: word_less_nat_alt kdefs)
  have "unat (te - KERNBASE) = 4096 * (jt - 0x80000)" "unat (PHYSTOP - te) = 4096 * (0x88000 - jt)"
    using assms(4,5) jt unat_sub [of KERNBASE te] unat_sub [of te PHYSTOP]
    by (simp_all add: kdefs)
  then have te: "te - KERNBASE = of_nat (4096 * (jt - 0x80000))" "PHYSTOP - te = of_nat (4096 * (0x88000 - jt))"
    by (metis of_nat_unat ucast_id)+
  have al: "aligned 4096 (0x10001000 :: u64)" "aligned 4096 PLIC" "aligned 4096 UART0" "aligned 4096 KERNBASE"
    by (simp_all add: aligned_def kdefs)
  have u: "unat (0x10001000 :: u64) = 0x10001000" "unat PLIC = 0x0c000000" "unat UART0 = 0x10000000" "unat KERNBASE = 0x80000000"
    by (simp_all add: kdefs)
  have r: "regions 0x10001000 1 \<le> 1" "regions PLIC 1024 \<le> 2" "regions UART0 1 \<le> 1"
    by (simp_all add: regions_def u)
  have r4: "regions KERNBASE (jt - 0x80000) \<le> 64" by (rule regions_le [OF refl]) (use kb in \<open>simp_all add: u\<close>)
  have r5: "regions te (0x88000 - jt) \<le> 64"
  proof (rule regions_le [OF refl])
    have "0x80000000 div 2 ^ 21 \<le> unat te div 2 ^ 21" using kb(2) jt by (intro div_le_mono) simp
    then show "unat te + 4096 * (0x88000 - jt) \<le> 2 ^ 21 * (unat te div 2 ^ 21 + 64)" using kb jt by simp
  qed (use kb in simp)
  have 0: "free_pages s0 xs" "pt_ok (pmem s0) q xs" "\<forall>v < MAXVA. translate (pmem s0) q v = None"
    using fr by (simp_all add: s0_def)
  have z: "etext s0 = etext s" by (simp add: s0_def)
  let ?rw = "PTE_R OR PTE_W" and ?rx = "PTE_R OR PTE_X"
  have i0: "pt_step s0 xs q s0 xs" by (rule pt_step_refl [OF 0(1,2)])
  obtain s1 y1 where 1: "mappages s0 q 0x10001000 0x10001000 PGSIZE ?rw = Some (0, s1)" "pt_step s0 xs q s1 y1"
    "length xs \<le> length y1 + (0 + 2)"
    "\<forall>v < MAXVA. translate (pmem s1) q v = (if rng 0x10001000 0x10002000 v then id_pte ?rw v else None)"
    by (rule map_identity [OF i0 0(3) al(1), where n = 1 and k = 2 and j = 0 and lo = "0x10001000" and hi = "0x10002000"])
      (use r(1) assms(2) in \<open>simp_all add: PGSIZE_def\<close>)
  obtain s2 y2 where 2: "mappages s1 q PLIC PLIC 0x400000 ?rw = Some (0, s2)" "pt_step s0 xs q s2 y2"
    "length xs \<le> length y2 + (2 + 4)"
    "\<forall>v < MAXVA. translate (pmem s2) q v = (if rng 0x0c000000 0x0c400000 v then id_pte ?rw v
       else if rng 0x10001000 0x10002000 v then id_pte ?rw v else None)"
    by (rule map_identity [OF 1(2,4) al(2), where n = 1024 and k = 4 and j = 2 and lo = "0x0c000000" and hi = "0x0c400000"])
      (use r(2) assms(2) 1(3) in \<open>simp_all add: u rng_def\<close>)
  obtain s3 y3 where 3: "mappages s2 q UART0 UART0 PGSIZE ?rw = Some (0, s3)" "pt_step s0 xs q s3 y3"
    "length xs \<le> length y3 + (6 + 2)"
    "\<forall>v < MAXVA. translate (pmem s3) q v = (if rng 0x10000000 0x10001000 v then id_pte ?rw v
       else if rng 0x0c000000 0x0c400000 v then id_pte ?rw v else if rng 0x10001000 0x10002000 v then id_pte ?rw v else None)"
    by (rule map_identity [OF 2(2,4) al(3), where n = 1 and k = 2 and j = 6 and lo = "0x10000000" and hi = "0x10001000"])
      (use r(3) assms(2) 2(3) in \<open>simp_all add: u rng_def PGSIZE_def\<close>)
  obtain s4 y4 where 4: "mappages s3 q KERNBASE KERNBASE (te - KERNBASE) ?rx = Some (0, s4)" "pt_step s0 xs q s4 y4"
    "length xs \<le> length y4 + (8 + 128)"
    "\<forall>v < MAXVA. translate (pmem s4) q v = (if rng 0x80000000 (unat te) v then id_pte ?rx v
       else if rng 0x10000000 0x10001000 v then id_pte ?rw v
       else if rng 0x0c000000 0x0c400000 v then id_pte ?rw v else if rng 0x10001000 0x10002000 v then id_pte ?rw v else None)"
    by (rule map_identity [OF 3(2,4) al(4) te(1), where k = 128 and j = 8 and lo = "0x80000000" and hi = "unat te"])
      (use r4 assms(2) 3(3) kb jt in \<open>simp_all add: u rng_def\<close>)
  obtain s5 y5 where 5: "mappages s4 q te te (PHYSTOP - te) ?rw = Some (0, s5)" "pt_step s0 xs q s5 y5"
    "length xs \<le> length y5 + (136 + 128)"
    "\<forall>v < MAXVA. translate (pmem s5) q v = (if rng (unat te) 0x88000000 v then id_pte ?rw v
       else if rng 0x80000000 (unat te) v then id_pte ?rx v else if rng 0x10000000 0x10001000 v then id_pte ?rw v
       else if rng 0x0c000000 0x0c400000 v then id_pte ?rw v else if rng 0x10001000 0x10002000 v then id_pte ?rw v else None)"
    by (rule map_identity [OF 4(2,4) assms(3) te(2), where k = 128 and j = 136 and lo = "unat te" and hi = "0x88000000"])
      (use r5 assms(2) 4(3) kb jt in \<open>simp_all add: rng_def\<close>)
  note st = 5(2)
  have "translate (pmem s5) q v = kernel_map te v" if "v < MAXVA" for v
    using 5(4) that kb jt by (auto simp: kernel_map_def Let_def rng_def id_pte_def word_less_nat_alt word_le_nat_alt kdefs)
  moreover have s0: "s\<lparr>free_mem_list := load64 (pmem s) q, kernel_pagetable := q, pmem := memset (pmem s) q 0 4096\<rparr> = s0"
    by (rule mem_st.equality) (simp_all add: s0_def)
  moreover have "kvmininit s = Some s5"
    using k 1(1) 2(1) 3(1) 4(1) 5(1) zero_root [of 512 q "pmem s"] z assms(6)
    by (simp add: kvmininit_def s0)
  moreover obtain m f where "s5 = s0\<lparr>pmem := m, free_mem_list := f\<rparr>" using st unfolding pt_step_def by blast
  then have "s5 = s\<lparr>pmem := m, free_mem_list := f, kernel_pagetable := q\<rparr>"
    by (intro mem_st.equality) (simp_all add: s0_def)
  then have "kernel_pagetable s5 = q" "\<exists>m f. s5 = s\<lparr>pmem := m, free_mem_list := f, kernel_pagetable := q\<rparr>"
    by auto
  moreover have "pmem s5 x = pmem s x" if x: "\<forall>p \<in> set (q # xs). \<not> in_page p x" for x
  proof -
    have "tbl (memset (pmem s) q 0 4096) q \<pi> = Some p \<Longrightarrow> is_path \<pi> \<Longrightarrow> p = q" for \<pi> p
      using tbl_zero_root [of \<pi> "pmem s" q] by (cases "\<pi> = []") auto
    then have "pt_pages (pmem s0) q \<subseteq> {q}" by (auto simp: pt_pages_def s0_def)
    then have "pmem s5 x = pmem s0 x" using st x unfolding pt_step_def by auto
    then show ?thesis using x by (simp add: s0_def memset_out)
  qed
  ultimately show ?thesis
    using st 5(3) unfolding pt_step_def by (intro exI [of _ s5] exI [of _ y5]) auto
qed

lemma kinit_frame:
  assumes "kinit s = Some s'"
  shows "\<exists>m f. s' = s\<lparr>pmem := m, free_mem_list := f\<rparr> \<and> (\<forall>x < end_address s. m x = pmem s x)"
proof -
  have "kinit_loop s p = Some s' \<Longrightarrow>
    \<exists>m f. s' = s\<lparr>pmem := m, free_mem_list := f\<rparr> \<and> (\<forall>x < end_address s. m x = pmem s x)" for p s
  proof (induction s p rule: kinit_loop.induct)
    case (1 s p)
    show ?case
    proof (cases "p + PGSIZE \<le> PHYSTOP")
      case True
      then obtain t where t: "kfree s p = Some t" "kinit_loop t (p + PGSIZE) = Some s'"
        using 1(2) by (auto simp: kinit_loop.simps [of s] elim: bind_eq_SomeE)
      have p: "end_address s \<le> p" "p < PHYSTOP" "t = s\<lparr>pmem := store64 (pmem s) p (free_mem_list s), free_mem_list := p\<rparr>"
        using t(1) by (auto simp: kfree_def split: if_splits)
      have "store64 (pmem s) p (free_mem_list s) x = pmem s x" if "x < end_address s" for x
      proof -
        have "unat (x - p) = 2 ^ 64 + unat x - unat p"
          using that p(1) unat_sub_if_size [of x p] by (auto simp: word_size word_less_nat_alt word_le_nat_alt)
        then show ?thesis using p(2) unfolding store64_def
          by (intro mem_write_out) (simp add: word_less_nat_alt kdefs)
      qed
      then show ?thesis using 1(1) [OF True t] by (auto simp: p(3))
    next
      case False
      then have "s' = s" using 1(2) by (simp add: kinit_loop.simps [of s])
      then show ?thesis by (intro exI [of _ "pmem s"] exI [of _ "free_mem_list s"]) simp
    qed
  qed
  then show ?thesis using assms by (simp add: kinit_def)
qed

section \<open>Property\<close>

text \<open>
  Property C19 (functional). With 264 free pages left, \<open>kvmininit\<close> builds the kernel's address
  space as intended: the devices and the physical memory from \<open>KERNBASE\<close> to \<open>PHYSTOP\<close> at their
  own addresses and nothing else below \<open>MAXVA\<close>; the text is executable and not writable, all
  the rest writable and not executable, nothing is accessible to user mode; the table is well
  formed and the free list intact, although no result of \<open>mappages\<close> is checked.
\<close>

theorem kvmininit_maps_kernel:
  assumes "free_pages s (q # xs)" and "264 \<le> length xs" and "te = PGROUNDUP (etext s)" and "aligned 4096 te"
    and "KERNBASE < te" and "te < PHYSTOP"
  shows "\<exists>s' ys. kvmininit s = Some s' \<and> kernel_pagetable s' = q \<and>
    (\<forall>v < MAXVA. translate (pmem s') q v = kernel_map te v) \<and>
    (\<forall>v e. kernel_map te v = Some e \<longrightarrow> PTE2PA e = PGROUNDDOWN v \<and> \<not> (bit e 2 \<and> bit e 3) \<and> \<not> bit e 4 \<and>
       (bit e 3 \<longleftrightarrow> KERNBASE \<le> v \<and> v < te)) \<and>
    pt_ok (pmem s') q ys \<and> free_pages s' ys"
proof -
  have e: "PTE2PA e = PGROUNDDOWN v \<and> \<not> (bit e 2 \<and> bit e 3) \<and> \<not> bit e 4 \<and> (bit e 3 \<longleftrightarrow> KERNBASE \<le> v \<and> v < te)"
    if m: "kernel_map te v = Some e" for v e
  proof -
    have b: "\<not> bit (PA2PTE p) n" if "n < 10" for p n using that by (simp add: PA2PTE_def bit_simps)
    have f: "flag_bits (PTE_R OR PTE_W OR PTE_V)" "flag_bits (PTE_R OR PTE_X OR PTE_V)"
      by (simp_all add: flag_bits_def kdefs)
    have p: "PTE2PA (PA2PTE (PGROUNDDOWN v) OR ((PTE_R OR PTE_W) OR PTE_V)) = PGROUNDDOWN v"
      "PTE2PA (PA2PTE (PGROUNDDOWN v) OR ((PTE_R OR PTE_X) OR PTE_V)) = PGROUNDDOWN v"
      using PTE2PA_PA2PTE [OF PGROUNDDOWN_aligned f(1)] PTE2PA_PA2PTE [OF PGROUNDDOWN_aligned f(2)] by (simp_all add: or.assoc)
    have w: "\<not> bit (PTE_R OR PTE_W OR PTE_V) 3" "\<not> bit (PTE_R OR PTE_W OR PTE_V) 4"
      "\<not> bit (PTE_R OR PTE_X OR PTE_V) 2" "bit (PTE_R OR PTE_X OR PTE_V) 3" "\<not> bit (PTE_R OR PTE_X OR PTE_V) 4"
      by (simp_all add: kdefs bit_simps)
    have k: "\<not> (KERNBASE \<le> v)" if "v < 0x10002000" using that by (simp add: kdefs word_less_nat_alt word_le_nat_alt)
    then have dev: "\<not> (KERNBASE \<le> v \<and> v < te)" if "0x0c000000 \<le> v \<and> v < 0x0c400000 \<or> 0x10000000 \<le> v \<and> v < 0x10002000"
      using that by (auto simp: word_less_nat_alt)
    show ?thesis
      using m dev by (auto simp: kernel_map_def Let_def p bit_or_iff b w [unfolded bit_or_iff] split: if_splits)
  qed
  show ?thesis using kvmininit_ok [OF assms(1,2,4-6)] assms(3) e by blast
qed

definition half_boot :: mem_st where
  "half_boot = \<lparr>pmem = (\<lambda>_. 0), free_mem_list = 0, end_address = 0x84000000, etext = 0x80008000,
     userret = 0x80002000, uservec = 0x80003000, kernel_pagetable = 0\<rparr>"

theorem kvmininit_maps_kernel_witness:
  "\<exists>s1 s2. kinit half_boot = Some s1 \<and> kvmininit s1 = Some s2 \<and>
     translate (pmem s2) (kernel_pagetable s2) 0x80001234 = Some (PA2PTE 0x80001000 OR ((PTE_R OR PTE_X) OR PTE_V)) \<and>
     translate (pmem s2) (kernel_pagetable s2) 0x1000 = None"
proof -
  have b: "boot_state half_boot" by (simp add: boot_state_def half_boot_def kdefs)
  obtain s1 where s1: "kinit half_boot = Some s1"
    "free_pages s1 (rev (boot_pages (PGROUNDUP (end_address half_boot))))"
    using kinit_ok [OF b] by blast
  have l: "length (boot_pages (PGROUNDUP (end_address half_boot))) = 0x4000"
    by (simp add: boot_pages_def half_boot_def PGROUNDUP_def kdefs)
  obtain q xs where qx: "rev (boot_pages (PGROUNDUP (end_address half_boot))) = q # xs" "264 \<le> length xs"
    using l by (cases "rev (boot_pages (PGROUNDUP (end_address half_boot)))") (auto dest: arg_cong [of _ _ length])
  have "etext s1 = 0x80008000" using kinit_frame [OF s1(1)] by (auto simp: half_boot_def)
  then show ?thesis
    using kvmininit_maps_kernel [of s1 q xs "0x80008000"] s1 qx
    by (fastforce simp: kernel_map_def PGROUNDUP_def PGROUNDDOWN_def kdefs aligned_def)
qed

end
