(* ===== verification/User_Space.thy ===== *)
theory User_Space
  imports Address_Space
begin

text \<open>
  Building an address space while other memory must stay as it is: \<open>uspace\<close> is the state of such a
  construction, a page table under \<open>root\<close> that translates as \<open>f\<close> says, pages \<open>pas\<close> that it does
  not share with its tables or the free list, and a set \<open>Y\<close> of pages outside which nothing has
  changed. Allocating a page, filling one and mapping a range keep it. With it, \<open>proc_pagetable\<close>.
\<close>

section \<open>Memory that changes only in some pages\<close>

definition within :: "u64 set \<Rightarrow> mem \<Rightarrow> mem \<Rightarrow> bool" where
  "within Y m m' \<longleftrightarrow> (\<forall>x. (\<forall>q \<in> Y. \<not> in_page q x) \<longrightarrow> m' x = m x)"

lemma within_refl [simp]: "within Y m m"
  by (simp add: within_def)

lemma within_trans: "within Y m m' \<Longrightarrow> within Y m' m'' \<Longrightarrow> within Y m m''"
  by (simp add: within_def)

lemma within_mono: "within X m m' \<Longrightarrow> X \<subseteq> Y \<Longrightarrow> within Y m m'"
  by (auto simp: within_def)

lemma within_page:
  assumes "within X m m'" and "\<forall>q \<in> X. aligned 4096 q" and "aligned 4096 p" and "p \<notin> X" and "in_page p x"
  shows "m' x = m x"
  using assms pages_disjoint [of p] unfolding within_def by metis

lemma within_store:
  assumes "8 dvd unat k" and "unat k + 8 \<le> 4096"
  shows "within {p} m (store64 m (p + k) v)"
proof -
  obtain i where i: "k = 8 * i" "i < 512"
  proof
    have "k = of_nat (8 * (unat k div 8))" using assms(1) by simp
    then show "k = 8 * of_nat (unat k div 8)" by simp
    show "(of_nat (unat k div 8) :: u64) < 512"
      using assms(2) by (auto simp: word_less_nat_alt unat_of_nat)
  qed
  show ?thesis using store64_in_page [OF i(2)] by (simp add: within_def i(1))
qed

lemma within_memset: "n \<le> 4096 \<Longrightarrow> within {p} m (memset m p v n)"
  by (simp add: within_def memset_out)

lemma tbl_cong:
  assumes "\<forall>p \<in> pt_pages m root. \<forall>x. in_page p x \<longrightarrow> m' x = m x" and "is_path \<pi>"
  shows "tbl m' root \<pi> = tbl m root \<pi>"
  using assms(2)
proof (induction \<pi> rule: rev_induct)
  case (snoc i \<pi>)
  have p: "is_path \<pi>" "i < 512" using is_path_snocD [OF snoc.prems] by auto
  have "load64 m' (q + 8 * i) = load64 m (q + 8 * i)" if "tbl m root \<pi> = Some q" for q
  proof (rule load64_page_cong [OF p(2)])
    show "\<And>x. in_page q x \<Longrightarrow> m' x = m x" using assms(1) that p(1) by (auto simp: pt_pages_def)
  qed
  then show ?case using snoc.IH [OF p(1)] by (auto simp: tbl_snoc Let_def split: option.splits)
qed simp

lemma tables_cong:
  assumes "\<forall>p \<in> pt_pages m root. \<forall>x. in_page p x \<longrightarrow> m' x = m x"
  shows "pt_pages m' root = pt_pages m root" and "pt_ok m' root xs = pt_ok m root xs"
    and "translate m' root v = translate m root v"
proof -
  note t = tbl_cong [OF assms]
  show "pt_pages m' root = pt_pages m root" "pt_ok m' root xs = pt_ok m root xs"
    using t by (auto simp: pt_pages_def pt_ok_def)
  have "load64 m' (p + 8 * PX 0 v) = load64 m (p + 8 * PX 0 v)" if "tbl m root (vpath v) = Some p" for p
  proof (rule load64_page_cong [OF PX_lt])
    show "\<And>x. in_page p x \<Longrightarrow> m' x = m x" using assms that by (auto simp: pt_pages_def intro: is_path_vpath)
  qed
  then show "translate m' root v = translate m root v"
    by (simp add: translate_def t split: option.split)
qed

section \<open>An address space under construction\<close>

definition uspace :: "u64 set \<Rightarrow> mem \<Rightarrow> 'a mem_st_scheme \<Rightarrow> u64 list \<Rightarrow> u64 \<Rightarrow> (u64 \<Rightarrow> u64 option) \<Rightarrow> u64 set \<Rightarrow> bool" where
  "uspace Y m0 s xs root f P \<longleftrightarrow> free_pages s xs \<and> pt_ok (pmem s) root xs \<and>
     set xs \<union> pt_pages (pmem s) root \<union> P \<subseteq> Y \<and> P \<inter> (set xs \<union> pt_pages (pmem s) root) = {} \<and>
     (\<forall>v < MAXVA. translate (pmem s) root v = f v) \<and> within Y m0 (pmem s) \<and> (\<forall>y \<in> Y. aligned 4096 y)"

lemma free_pages_upd:
  assumes "free_pages s (c # xs)" and "within {c} (pmem s) m"
  shows "free_pages (s\<lparr>free_mem_list := load64 (pmem s) c, pmem := m\<rparr>) xs"
proof -
  have a: "aligned 4096 c" "\<forall>q \<in> set xs. aligned 4096 q" "c \<notin> set xs"
    using assms(1) managed_aligned by (auto simp: free_pages_def)
  have f: "free_pages (s\<lparr>free_mem_list := load64 (pmem s) c\<rparr>) xs" using free_pages_Cons [OF assms(1)] by simp
  have "m x = pmem s x" if "q \<in> set xs" "in_page q x" for q x
    using within_page [OF assms(2), of q x] a that by auto
  from free_pages_frame [OF f, of m] this show ?thesis by simp
qed

lemma uspace_alloc:
  assumes "uspace Y m0 s (c # xs) root f P" and m: "within {c} (pmem s) m"
  shows "kalloc s = (c, s\<lparr>free_mem_list := load64 (pmem s) c\<rparr>)" and "c \<noteq> 0" and "c \<notin> P" and "c \<in> Y"
    and "uspace Y m0 (s\<lparr>free_mem_list := load64 (pmem s) c, pmem := m\<rparr>) xs root f (insert c P)"
proof -
  note u = assms(1) [unfolded uspace_def]
  have fp: "free_pages s (c # xs)" using u by blast
  show "kalloc s = (c, s\<lparr>free_mem_list := load64 (pmem s) c\<rparr>)" "c \<noteq> 0"
    using free_pages_Cons [OF fp] kpages.pages_valid [OF fp] by auto
  show c: "c \<notin> P" "c \<in> Y" using u by auto
  have n: "c \<notin> pt_pages (pmem s) root" "c \<notin> set xs"
    using u fp by (auto simp: pt_ok_def pt_pages_def free_pages_def)
  have "\<forall>p \<in> pt_pages (pmem s) root. \<forall>x. in_page p x \<longrightarrow> m x = pmem s x"
  proof (intro ballI allI impI)
    fix p x
    assume p: "p \<in> pt_pages (pmem s) root" "in_page p x"
    then have "p \<noteq> c" "aligned 4096 p" "aligned 4096 c" using u n c by auto
    then show "m x = pmem s x" using within_page [OF m, of p x] p(2) by auto
  qed
  note t = tables_cong [OF this]
  have "pt_ok (pmem s) root xs" using u by (auto simp: pt_ok_def)
  then show "uspace Y m0 (s\<lparr>free_mem_list := load64 (pmem s) c, pmem := m\<rparr>) xs root f (insert c P)"
    using u n c free_pages_upd [OF fp m] within_trans [of Y m0 "pmem s" m] within_mono [OF m, of Y]
    by (auto simp: uspace_def t)
qed

lemma uspace_fill:
  assumes "uspace Y m0 s xs root f P" and m: "within X (pmem s) m" and "X \<subseteq> P"
  shows "uspace Y m0 (s\<lparr>pmem := m\<rparr>) xs root f P"
proof -
  note u = assms(1) [unfolded uspace_def]
  have eq: "m x = pmem s x" if "p \<in> set xs \<union> pt_pages (pmem s) root" "in_page p x" for p x
    using within_page [OF m _ _ _ that(2)] that(1) u assms(3) by (metis IntI UnCI empty_iff subsetD)
  have e: "\<forall>p \<in> pt_pages (pmem s) root. \<forall>x. in_page p x \<longrightarrow> m x = pmem s x" using eq by blast
  note t = tables_cong [OF e]
  have "free_pages (s\<lparr>pmem := m\<rparr>) xs" by (rule free_pages_frame) (use u eq in auto)
  then show ?thesis
    using u eq t within_trans [of Y m0 "pmem s" m] within_mono [OF m, of Y] assms(3)
    by (auto simp: uspace_def)
qed

lemma uspace_map:
  assumes "uspace Y m0 s xs root f P" and "aligned 4096 va" and "0 < n" and "unat va + 4096 * n \<le> 2 ^ 38"
    and "2 * regions va n \<le> length xs" and "\<forall>v < MAXVA. in_range va n (PGROUNDDOWN v) \<longrightarrow> f v = None"
  obtains s' ys where "mappages s root pa va (of_nat (4096 * n)) perm = Some (0, s')"
    and "uspace Y m0 s' ys root (\<lambda>v. if in_range va n (PGROUNDDOWN v)
       then Some (PA2PTE (pa + (PGROUNDDOWN v - va)) OR (perm OR PTE_V)) else f v) P"
    and "length xs \<le> length ys + 2 * regions va n" and "\<exists>m f. s' = s\<lparr>pmem := m, free_mem_list := f\<rparr>"
    and "\<And>p x. p \<in> P \<Longrightarrow> in_page p x \<Longrightarrow> pmem s' x = pmem s x" and "set ys \<subseteq> set xs"
proof -
  note u = assms(1) [unfolded uspace_def]
  have un: "\<forall>v < MAXVA. in_range va n (PGROUNDDOWN v) \<longrightarrow> translate (pmem s) root v = None" using u assms(6) by auto
  obtain s' ys where m: "mappages s root pa va (of_nat (4096 * n)) perm = Some (0, s')"
    "\<forall>v < MAXVA. translate (pmem s') root v = (if in_range va n (PGROUNDDOWN v)
       then Some (PA2PTE (pa + (PGROUNDDOWN v - va)) OR (perm OR PTE_V)) else translate (pmem s) root v)"
    "pt_step s xs root s' ys" "length xs \<le> length ys + 2 * regions va n"
    using mappages_step [OF _ _ assms(2-5) un, of pa perm] u by blast
  note st = m(3) [unfolded pt_step_def]
  have w: "within (pt_pages (pmem s) root \<union> set xs) (pmem s) (pmem s')" using st by (auto simp: within_def)
  have sub: "set ys \<subseteq> set xs" using st by (auto dest: set_mono_suffix)
  then have "uspace Y m0 s' ys root (\<lambda>v. if in_range va n (PGROUNDDOWN v)
       then Some (PA2PTE (pa + (PGROUNDDOWN v - va)) OR (perm OR PTE_V)) else f v) P"
    using u st m(2) within_trans [OF _ within_mono [OF w]] unfolding uspace_def by auto
  moreover have "pmem s' x = pmem s x" if "p \<in> P" "in_page p x" for p x
  proof (rule within_page [OF w _ _ _ that(2)])
    show "\<forall>q \<in> pt_pages (pmem s) root \<union> set xs. aligned 4096 q" "aligned 4096 p" "p \<notin> pt_pages (pmem s) root \<union> set xs"
      using u that(1) by auto
  qed
  ultimately show ?thesis using that [OF m(1) _ m(4)] st sub by blast
qed

section \<open>One page\<close>

lemma in_range_one: "aligned 4096 va \<Longrightarrow> in_range va 1 (PGROUNDDOWN v) \<longleftrightarrow> PGROUNDDOWN v = va"
proof -
  assume a: "aligned 4096 va"
  then obtain i j where i: "unat va = 4096 * i" "unat (PGROUNDDOWN v) = 4096 * j"
    using PGROUNDDOWN_aligned [of v] unfolding aligned_def dvd_def by auto
  show ?thesis unfolding in_range_def word_unat_eq_iff i by auto
qed

lemma regions_one: "aligned 4096 va \<Longrightarrow> regions va 1 \<le> 1"
proof (rule regions_le [OF refl])
  assume "aligned 4096 va"
  then obtain i where i: "unat va = 4096 * i" unfolding aligned_def dvd_def by auto
  then have "unat va div 2 ^ 21 = i div 512" by (simp add: div_mult2_eq [of _ 4096 512, simplified])
  then show "unat va + 4096 * 1 \<le> 2 ^ 21 * (unat va div 2 ^ 21 + 1)" using i by simp
qed simp

lemma uspace_map_page:
  assumes "uspace Y m0 s xs root f P" and "aligned 4096 va" and "unat va + 4096 \<le> 2 ^ 38" and "2 \<le> length xs"
    and "\<forall>v. PGROUNDDOWN v = va \<longrightarrow> f v = None"
  obtains s' ys where "mappages s root pa va PGSIZE perm = Some (0, s')"
    and "uspace Y m0 s' ys root (\<lambda>v. if PGROUNDDOWN v = va then Some (PA2PTE pa OR (perm OR PTE_V)) else f v) P"
    and "length xs \<le> length ys + 2" and "\<exists>m f. s' = s\<lparr>pmem := m, free_mem_list := f\<rparr>"
    and "\<And>p x. p \<in> P \<Longrightarrow> in_page p x \<Longrightarrow> pmem s' x = pmem s x" and "set ys \<subseteq> set xs"
proof -
  note r = regions_one [OF assms(2)] and one = in_range_one [OF assms(2)]
  obtain s' ys where m: "mappages s root pa va (of_nat (4096 * 1)) perm = Some (0, s')"
    "uspace Y m0 s' ys root (\<lambda>v. if in_range va 1 (PGROUNDDOWN v)
       then Some (PA2PTE (pa + (PGROUNDDOWN v - va)) OR (perm OR PTE_V)) else f v) P"
    "length xs \<le> length ys + 2 * regions va 1" "\<exists>m f. s' = s\<lparr>pmem := m, free_mem_list := f\<rparr>"
    "\<And>p x. p \<in> P \<Longrightarrow> in_page p x \<Longrightarrow> pmem s' x = pmem s x" "set ys \<subseteq> set xs"
    by (rule uspace_map [OF assms(1,2), of 1 pa perm]) (use assms(3-5) r one in auto)
  have "(\<lambda>v. if in_range va 1 (PGROUNDDOWN v) then Some (PA2PTE (pa + (PGROUNDDOWN v - va)) OR (perm OR PTE_V)) else f v)
    = (\<lambda>v. if PGROUNDDOWN v = va then Some (PA2PTE pa OR (perm OR PTE_V)) else f v)"
    unfolding one by (rule ext) simp
  with m(2) have u: "uspace Y m0 s' ys root (\<lambda>v. if PGROUNDDOWN v = va then Some (PA2PTE pa OR (perm OR PTE_V)) else f v) P"
    by simp
  show ?thesis by (rule that [OF _ u _ m(4-6)]) (use m(1,3) r in \<open>auto simp: PGSIZE_def\<close>)
qed

section \<open>\<open>proc_pagetable\<close>\<close>

definition trap_map :: "u64 \<Rightarrow> u64 \<Rightarrow> u64 \<Rightarrow> u64 \<Rightarrow> u64 option" where
  "trap_map ur uv tf v =
     (if PGROUNDDOWN v = PGROUNDDOWN tf then id_pte (PTE_R OR PTE_W) v
      else if PGROUNDDOWN v = PGROUNDDOWN ur \<or> PGROUNDDOWN v = PGROUNDDOWN uv then id_pte (PTE_R OR PTE_X) v
      else None)"

lemma pt_pages_fresh: "pt_pages (memset m q 0 4096) q = {q}"
proof -
  have "tbl (memset m q 0 4096) q \<pi> = Some p \<longleftrightarrow> \<pi> = [] \<and> p = q" if "is_path \<pi>" for \<pi> p
    using tbl_zero_root [OF that, of m q] by (cases "\<pi> = []") auto
  then have "pt_pages (memset m q 0 4096) q = {p. is_path [] \<and> p = q}" unfolding pt_pages_def by blast
  then show ?thesis by simp
qed

lemma uspace_root:
  assumes "free_pages s (q # xs)" and "set (q # xs) \<union> P \<subseteq> Y" and "P \<inter> set (q # xs) = {}"
    and "within Y m0 (pmem s)" and "\<forall>y \<in> Y. aligned 4096 y"
  shows "uspace Y m0 (s\<lparr>free_mem_list := load64 (pmem s) q, pmem := memset (pmem s) q 0 4096\<rparr>) xs q (\<lambda>_. None) P"
proof -
  have "within {q} (pmem s) (memset (pmem s) q 0 4096)" by (rule within_memset) simp
  then have "within Y m0 (memset (pmem s) q 0 4096)"
    by (rule within_trans [OF assms(4) within_mono]) (use assms(2) in auto)
  then show ?thesis
    using fresh_root [OF assms(1)] assms(2,3,5) by (auto simp: uspace_def pt_pages_fresh)
qed

lemma proc_pagetable_ok:
  fixes s :: "'a mem_st_scheme"
  assumes fp: "free_pages s (q # xs)" and "set (q # xs) \<union> P \<subseteq> Y" and "P \<inter> set (q # xs) = {}"
    and "within Y m0 (pmem s)" and "\<forall>y \<in> Y. aligned 4096 y" and l: "6 \<le> length xs"
    and d: "PGROUNDDOWN tf \<noteq> PGROUNDDOWN (userret s)" "PGROUNDDOWN tf \<noteq> PGROUNDDOWN (uservec s)"
    and b: "userret s < PHYSTOP" "uservec s < PHYSTOP" "tf < PHYSTOP"
  obtains s' ys where "proc_pagetable s tf = Some (q, s')"
    and "uspace Y m0 s' ys q (trap_map (userret s) (uservec s) tf) P"
    and "length xs \<le> length ys + 6" and "\<exists>m f. s' = s\<lparr>pmem := m, free_mem_list := f\<rparr>"
    and "\<And>p x. p \<in> P \<Longrightarrow> in_page p x \<Longrightarrow> pmem s' x = pmem s x"
proof -
  define s0 where "s0 = s\<lparr>free_mem_list := load64 (pmem s) q, pmem := memset (pmem s) q 0 4096\<rparr>"
  define ur uv tp where "ur = PGROUNDDOWN (userret s)" and "uv = PGROUNDDOWN (uservec s)" and "tp = PGROUNDDOWN tf"
  have al: "aligned 4096 ur" "aligned 4096 uv" "aligned 4096 tp" by (simp_all add: ur_def uv_def tp_def PGROUNDDOWN_aligned)
  have small: "unat (PGROUNDDOWN a) + 4096 \<le> 2 ^ 38" if "a < PHYSTOP" for a
    using PGROUNDDOWN_le [of a] that by (simp add: word_le_nat_alt word_less_nat_alt kdefs)
  note sm = small [OF b(1), folded ur_def] small [OF b(2), folded uv_def] small [OF b(3), folded tp_def]
  have k: "kalloc s = (q, s\<lparr>free_mem_list := load64 (pmem s) q\<rparr>)" "q \<noteq> 0"
    using free_pages_Cons [OF fp] kpages.pages_valid [OF fp] by auto
  have u0: "uspace Y m0 s0 xs q (\<lambda>_. None) P" unfolding s0_def by (rule uspace_root [OF assms(1-5)])
  have p0: "\<And>p x. p \<in> P \<Longrightarrow> in_page p x \<Longrightarrow> pmem s0 x = pmem s x"
  proof -
    fix p x assume p: "p \<in> P" "in_page p x"
    have "\<not> in_page q x" by (rule pages_disjoint [OF _ _ _ p(2)]) (use p(1) assms(2,3,5) in auto)
    then show "pmem s0 x = pmem s x" by (simp add: s0_def memset_out)
  qed
  let ?rx = "PTE_R OR PTE_X" and ?rw = "PTE_R OR PTE_W"
  obtain s1 y1 where 1: "mappages s0 q ur ur PGSIZE ?rx = Some (0, s1)"
    "uspace Y m0 s1 y1 q (\<lambda>v. if PGROUNDDOWN v = ur then Some (PA2PTE ur OR (?rx OR PTE_V)) else None) P"
    "length xs \<le> length y1 + 2" "\<exists>m f. s1 = s0\<lparr>pmem := m, free_mem_list := f\<rparr>"
    "\<And>p x. p \<in> P \<Longrightarrow> in_page p x \<Longrightarrow> pmem s1 x = pmem s0 x"
    by (rule uspace_map_page [OF u0 al(1) sm(1), where pa = ur and perm = ?rx]) (use l in auto)
  obtain s2 y2 where 2: "(if uv \<noteq> ur then mappages s1 q uv uv PGSIZE ?rx else Some (0, s1)) = Some (0, s2)"
    "uspace Y m0 s2 y2 q (\<lambda>v. if PGROUNDDOWN v = ur \<or> PGROUNDDOWN v = uv
       then Some (PA2PTE (PGROUNDDOWN v) OR (?rx OR PTE_V)) else None) P"
    "length y1 \<le> length y2 + 2" "\<exists>m f. s2 = s1\<lparr>pmem := m, free_mem_list := f\<rparr>"
    "\<And>p x. p \<in> P \<Longrightarrow> in_page p x \<Longrightarrow> pmem s2 x = pmem s1 x"
  proof (cases "uv = ur")
    case True
    have "(\<lambda>v. if PGROUNDDOWN v = ur then Some (PA2PTE ur OR (?rx OR PTE_V)) else None) = (\<lambda>v. if PGROUNDDOWN v = ur \<or> PGROUNDDOWN v = uv
       then Some (PA2PTE (PGROUNDDOWN v) OR (?rx OR PTE_V)) else None)" using True by (auto simp: fun_eq_iff)
    then show ?thesis using that [of s1 y1] 1(2) True
      by (metis le_add1 mem_st.surjective mem_st.update_convs(1,2))
  next
    case False
    obtain s2 y2 where m: "mappages s1 q uv uv PGSIZE ?rx = Some (0, s2)"
      "uspace Y m0 s2 y2 q (\<lambda>v. if PGROUNDDOWN v = uv then Some (PA2PTE uv OR (?rx OR PTE_V))
         else if PGROUNDDOWN v = ur then Some (PA2PTE ur OR (?rx OR PTE_V)) else None) P"
      "length y1 \<le> length y2 + 2" "\<exists>m f. s2 = s1\<lparr>pmem := m, free_mem_list := f\<rparr>"
      "\<And>p x. p \<in> P \<Longrightarrow> in_page p x \<Longrightarrow> pmem s2 x = pmem s1 x"
      by (rule uspace_map_page [OF 1(2) al(2) sm(2), where pa = uv and perm = ?rx]) (use l 1(3) False in auto)
    have "(\<lambda>v. if PGROUNDDOWN v = uv then Some (PA2PTE uv OR (?rx OR PTE_V))
         else if PGROUNDDOWN v = ur then Some (PA2PTE ur OR (?rx OR PTE_V)) else None) = (\<lambda>v. if PGROUNDDOWN v = ur \<or> PGROUNDDOWN v = uv
       then Some (PA2PTE (PGROUNDDOWN v) OR (?rx OR PTE_V)) else None)" by (auto simp: fun_eq_iff)
    with m(2) have "uspace Y m0 s2 y2 q (\<lambda>v. if PGROUNDDOWN v = ur \<or> PGROUNDDOWN v = uv
       then Some (PA2PTE (PGROUNDDOWN v) OR (?rx OR PTE_V)) else None) P" by simp
    then show ?thesis using that [OF _ _ m(3-5)] m(1) False by simp
  qed
  obtain s3 y3 where 3: "mappages s2 q tp tp PGSIZE ?rw = Some (0, s3)"
    "uspace Y m0 s3 y3 q (\<lambda>v. if PGROUNDDOWN v = tp then Some (PA2PTE tp OR (?rw OR PTE_V))
       else if PGROUNDDOWN v = ur \<or> PGROUNDDOWN v = uv then Some (PA2PTE (PGROUNDDOWN v) OR (?rx OR PTE_V)) else None) P"
    "length y2 \<le> length y3 + 2" "\<exists>m f. s3 = s2\<lparr>pmem := m, free_mem_list := f\<rparr>"
    "\<And>p x. p \<in> P \<Longrightarrow> in_page p x \<Longrightarrow> pmem s3 x = pmem s2 x"
    by (rule uspace_map_page [OF 2(2) al(3) sm(3), where pa = tp and perm = ?rw]) (use l 1(3) 2(3) d in \<open>auto simp: tp_def ur_def uv_def\<close>)
  have "(\<lambda>v. if PGROUNDDOWN v = tp then Some (PA2PTE tp OR (?rw OR PTE_V))
       else if PGROUNDDOWN v = ur \<or> PGROUNDDOWN v = uv then Some (PA2PTE (PGROUNDDOWN v) OR (?rx OR PTE_V)) else None)
    = trap_map (userret s) (uservec s) tf"
    by (auto simp: trap_map_def id_pte_def tp_def ur_def uv_def fun_eq_iff)
  with 3(2) have u3: "uspace Y m0 s3 y3 q (trap_map (userret s) (uservec s) tf) P" by simp
  obtain m f where "s3 = s0\<lparr>pmem := m, free_mem_list := f\<rparr>" using 1(4) 2(4) 3(4) by auto
  then have st: "\<exists>m f. s3 = s\<lparr>pmem := m, free_mem_list := f\<rparr>"
    by (intro exI [of _ m] exI [of _ f] mem_st.equality) (simp_all add: s0_def)
  have s0: "s\<lparr>free_mem_list := load64 (pmem s) q, pmem := memset (pmem s) q 0 4096\<rparr> = s0" by (simp add: s0_def)
  have e: "userret s0 = userret s" "uservec s0 = uservec s" by (simp_all add: s0_def)
  have "proc_pagetable s tf = Some (q, s3)"
    using k 1(1) 2(1) 3(1) by (simp add: proc_pagetable_def Let_def s0 e ur_def uv_def tp_def split: if_splits)
  then show ?thesis using that [OF _ u3 _ st] 1(3,5) 2(3,5) 3(3,5) p0 by simp
qed

end
