(* ===== verification/Init_Process.thy ===== *)
theory Init_Process
  imports Boot User_Space
begin

text \<open>
  The first process: \<open>userinit\<close> on a machine whose memory allocator, file table and inode cache are
  as boot leaves them. The pages of the program hold the image that the linker has placed in the
  kernel (\<open>holds_image\<close>), the page table maps them, the stack, the trampoline and the trapframe
  (\<open>code_map\<close>, \<open>stack_map\<close>, \<open>trap_map\<close>), and the trapframe holds zeros but for the stack pointer.
\<close>

section \<open>The pages of the program\<close>

text \<open>The bytes of the program in memory \<open>m\<close>, padded with zeros.\<close>

definition image :: "mem \<Rightarrow> u64 \<Rightarrow> u64 \<Rightarrow> nat \<Rightarrow> u8" where
  "image m st sz a = (if a < unat sz then m (st + of_nat a) else 0)"

definition holds_image :: "mem \<Rightarrow> mem \<Rightarrow> u64 \<Rightarrow> u64 \<Rightarrow> u64 list \<Rightarrow> bool" where
  "holds_image m m0 st sz frs \<longleftrightarrow> (\<forall>j < length frs. \<forall>i < 4096. m (frs ! j + of_nat i) = image m0 st sz (4096 * j + i))"

definition code_map :: "(u64 \<Rightarrow> u64 option) \<Rightarrow> u64 list \<Rightarrow> u64 \<Rightarrow> u64 option" where
  "code_map g frs v =
     (if unat v < 4096 * length frs
      then Some (PA2PTE (frs ! (unat v div 4096)) OR ((PTE_R OR PTE_W OR PTE_X OR PTE_U) OR PTE_V)) else g v)"

lemma PGROUNDDOWN_page: "k < 2 ^ 52 \<Longrightarrow> PGROUNDDOWN v = of_nat (4096 * k) \<longleftrightarrow> unat v div 4096 = k"
proof -
  assume "k < 2 ^ 52"
  then have "4096 * k < 2 ^ 64" by simp
  then have "unat (of_nat (4096 * k) :: u64) = 4096 * k" by (rule unat_of_nat_small)
  moreover have "unat (PGROUNDDOWN v) = 4096 * (unat v div 4096)"
    by (simp add: PGROUNDDOWN_def unat_and_not_mask minus_mod_eq_mult_div)
  ultimately show ?thesis unfolding word_unat_eq_iff by simp
qed

text \<open>One page: zeroed, then filled from the kernel image.\<close>

definition load_page :: "mem \<Rightarrow> u64 \<Rightarrow> u64 \<Rightarrow> u64 \<Rightarrow> nat \<Rightarrow> mem" where
  "load_page m c st sz k =
     (let m1 = memset m c 0 4096; off = of_nat k * PGSIZE; n = (if sz - off > PGSIZE then PGSIZE else sz - off)
      in if off < sz then memmove m1 c (st + off) (unat n) else m1)"

lemma load_page_ok:
  assumes "aligned 4096 c" and "unat st + unat sz \<le> unat c" and "unat c + 4096 \<le> 2 ^ 64" and "k < 2 ^ 40"
  shows "within {c} m (load_page m c st sz k)"
    and "i < 4096 \<Longrightarrow> load_page m c st sz k (c + of_nat i) = image m st sz (4096 * k + i)"
proof -
  define m1 where "m1 = memset m c 0 4096"
  define off :: u64 where "off = of_nat k * PGSIZE"
  define n where "n = unat (if sz - off > PGSIZE then PGSIZE else sz - off)"
  have off: "unat off = 4096 * k" using assms(4) by (simp add: off_def PGSIZE_def unat_word_ariths unat_of_nat)
  have z: "m1 (c + of_nat i) = 0" if "i < 4096" for i using that by (simp add: m1_def memset_in)
  have out: "m1 x = m x" if "\<not> in_page c x" for x using that by (simp add: m1_def memset_out)
  have src: "\<not> in_page c (st + of_nat a)" if "a < unat sz" for a
  proof -
    have u: "unat (st + of_nat a) = unat st + a" by (rule unat_add_small) (use that assms(2) unat_lt_2p [of c] in auto)
    have lt: "unat (st + of_nat a) < unat c" using that assms(2) by (simp add: u)
    have "unat (st + of_nat a - c) = 2 ^ 64 + unat (st + of_nat a) - unat c"
      using lt unat_sub_if_size [of "st + of_nat a" c] by (auto simp: word_size)
    then show ?thesis using assms(3) by (simp add: in_page_def)
  qed
  have "load_page m c st sz k = (if off < sz then memmove m1 c (st + off) n else m1)"
    by (simp add: load_page_def Let_def m1_def off_def n_def)
  moreover have "memmove m1 c (st + off) n = mem_write m1 c (mem_read m1 (st + off) n)"
    "n = min 4096 (unat sz - 4096 * k)" if l: "off < sz"
  proof -
    have d: "unat (sz - off) = unat sz - 4096 * k" using l unat_sub [of off sz] off by simp
    show n: "n = min 4096 (unat sz - 4096 * k)" by (auto simp: n_def d word_less_nat_alt PGSIZE_def min_def)
    have "off = of_nat (4096 * k)" by (simp add: off_def PGSIZE_def mult.commute)
    moreover have "unat st + 4096 * k < 2 ^ 64" using l off assms(2) unat_lt_2p [of c] by (simp add: word_less_nat_alt)
    ultimately have "unat (st + off) = unat st + 4096 * k" using unat_add_small [of st "4096 * k"] by simp
    then show "memmove m1 c (st + off) n = mem_write m1 c (mem_read m1 (st + off) n)"
      using n assms(2,3) l off unat_lt_2p [of c] by (intro memmove_eq) (auto simp: word_less_nat_alt)
  qed
  ultimately have e: "load_page m c st sz k = (if off < sz then mem_write m1 c (mem_read m1 (st + off) n) else m1)"
    and n: "off < sz \<Longrightarrow> n = min 4096 (unat sz - 4096 * k)" by auto
  have len: "off < sz \<Longrightarrow> length (mem_read m1 (st + off) n) \<le> 4096" using n by simp
  show "within {c} m (load_page m c st sz k)"
    using mem_write_in_page [of 0 "mem_read m1 (st + off) n" c] len out by (auto simp: within_def e)
  show "load_page m c st sz k (c + of_nat i) = image m st sz (4096 * k + i)" if i: "i < 4096"
  proof (cases "off < sz \<and> i < n")
    case True
    then have lt: "4096 * k + i < unat sz" using n by auto
    have "mem_write m1 c (mem_read m1 (st + off) n) (c + of_nat i) = m1 (st + off + of_nat i)"
      using True len by (subst mem_write_in) (auto simp: nth_mem_read)
    also have "st + off + of_nat i = st + of_nat (4096 * k + i)" by (simp add: off_def PGSIZE_def mult.commute)
    also have "m1 (st + of_nat (4096 * k + i)) = m (st + of_nat (4096 * k + i))" by (rule out [OF src [OF lt]])
    finally show ?thesis using True lt by (simp add: e image_def)
  next
    case False
    have "\<not> 4096 * k + i < unat sz" using False i n off by (auto simp: word_less_nat_alt)
    moreover have "load_page m c st sz k (c + of_nat i) = 0"
    proof (cases "off < sz")
      case True
      then have "n \<le> i" using False by simp
      then have "n \<le> unat (c + of_nat i - c)" using i by (simp add: unat_of_nat)
      then show ?thesis using True z [OF i] by (simp add: e mem_write_out)
    qed (use z [OF i] in \<open>simp add: e\<close>)
    ultimately show ?thesis by (simp add: image_def)
  qed
qed

lemma code_map_snoc:
  assumes "length frs < 2 ^ 52"
  shows "(\<lambda>v. if PGROUNDDOWN v = of_nat (4096 * length frs)
      then Some (PA2PTE c OR ((PTE_R OR PTE_W OR PTE_X OR PTE_U) OR PTE_V)) else code_map g frs v) = code_map g (frs @ [c])"
proof (rule ext)
  fix v :: u64
  note d = PGROUNDDOWN_page [OF assms, of v]
  have "unat v < 4096 * Suc (length frs) \<longleftrightarrow> unat v div 4096 < length frs \<or> unat v div 4096 = length frs"
    "unat v < 4096 * length frs \<longleftrightarrow> unat v div 4096 < length frs" by auto
  then show "(if PGROUNDDOWN v = of_nat (4096 * length frs)
      then Some (PA2PTE c OR ((PTE_R OR PTE_W OR PTE_X OR PTE_U) OR PTE_V)) else code_map g frs v) = code_map g (frs @ [c]) v"
    unfolding d code_map_def length_append by (auto simp: nth_append)
qed

lemma holds_image_frame:
  assumes "holds_image m m0 st sz frs" and "\<And>p x. p \<in> set frs \<Longrightarrow> in_page p x \<Longrightarrow> m' x = m x"
  shows "holds_image m' m0 st sz frs"
proof -
  have "in_page (frs ! j) (frs ! j + of_nat i)" if "i < 4096" for i j using that by (simp add: in_page_def unat_of_nat)
  then show ?thesis using assms unfolding holds_image_def by (metis nth_mem)
qed

lemma holds_image_snoc:
  "holds_image m m0 st sz frs \<Longrightarrow> (\<And>i. i < 4096 \<Longrightarrow> m (c + of_nat i) = image m0 st sz (4096 * length frs + i)) \<Longrightarrow>
     holds_image m m0 st sz (frs @ [c])"
  by (auto simp: holds_image_def nth_append less_Suc_eq)

lemma userinit_code_ok:
  fixes s :: "'a bst_scheme"
  assumes "uspace Y m0 s xs root (code_map g frs) (P \<union> set frs)" and "length frs = k" and "k \<le> n" and "n < 2 ^ 20"
    and "3 * (n - k) \<le> length xs" and "holds_image (pmem s) m0 st sz frs" and "pagetable (procs s p) = root"
    and "initcode_start s = st" and "initcode_size s = sz" and "\<forall>q \<in> Y. unat st + unat sz \<le> unat q \<and> unat q + 4096 \<le> 2 ^ 64"
    and "\<forall>v. unat v < 4096 * n \<longrightarrow> g v = None"
  shows "\<exists>s' ys frs'. userinit_code p [k..<n] s = Some (True, s') \<and> uspace Y m0 s' ys root (code_map g frs') (P \<union> set frs') \<and>
    length frs' = n \<and> length xs \<le> length ys + 3 * (n - k) \<and> holds_image (pmem s') m0 st sz frs' \<and>
    (\<exists>m f. s' = s\<lparr>pmem := m, free_mem_list := f\<rparr>) \<and> set frs' \<subseteq> set frs \<union> set xs"
  using assms
proof (induction "n - k" arbitrary: k s xs frs)
  case 0
  then have "[k..<n] = []" "length frs = n" by simp_all
  moreover have "\<exists>m f. s = s\<lparr>pmem := m, free_mem_list := f\<rparr>" by (rule exI [of _ "pmem s"], rule exI [of _ "free_mem_list s"]) simp
  ultimately show ?case using "0.prems"
    by - (rule exI [of _ s], rule exI [of _ xs], rule exI [of _ frs], auto)
next
  case (Suc d)
  then have k: "k < n" "[k..<n] = k # [Suc k..<n]" by (simp_all add: upt_rec)
  note u = Suc.prems(1) [unfolded uspace_def]
  obtain c ys where xs: "xs = c # ys" using Suc.prems(5) k(1) by (cases xs) auto
  define m where "m = load_page (pmem s) c st sz k"
  have c: "c \<in> Y" "aligned 4096 c" using u xs by auto
  have bnd: "unat st + unat sz \<le> unat c" "unat c + 4096 \<le> 2 ^ 64" using Suc.prems(10) c(1) by auto
  have "k < 2 ^ 40" using k Suc.prems(4) by simp
  note lp = load_page_ok [OF c(2) bnd this, where m = "pmem s", folded m_def]
  note al = uspace_alloc [OF Suc.prems(1) [unfolded xs] lp(1)]
  define t where "t = s\<lparr>free_mem_list := load64 (pmem s) c, pmem := m\<rparr>"
  have ut: "uspace Y m0 t ys root (code_map g frs) (insert c (P \<union> set frs))" unfolding t_def by (rule al(5))
  have va: "(of_nat k * PGSIZE :: u64) = of_nat (4096 * k)" by (simp add: PGSIZE_def mult.commute)
  have uva: "unat (of_nat (4096 * k) :: u64) = 4096 * k" using k Suc.prems(4) by (intro unat_of_nat_small) simp
  have none: "\<forall>v. PGROUNDDOWN v = of_nat (4096 * k) \<longrightarrow> code_map g frs v = None"
  proof (intro allI impI)
    fix v assume "PGROUNDDOWN v = of_nat (4096 * k)"
    then have "unat v div 4096 = k" using PGROUNDDOWN_page [of k v] k Suc.prems(4) by simp
    then have "\<not> unat v < 4096 * k" "unat v < 4096 * n" using k by (auto simp: dividend_less_times_div)
    then show "code_map g frs v = None" using Suc.prems(2,11) by (simp add: code_map_def)
  qed
  obtain w zs where w: "mappages t root c (of_nat (4096 * k)) PGSIZE (PTE_R OR PTE_W OR PTE_X OR PTE_U) = Some (0, w)"
    "uspace Y m0 w zs root (\<lambda>v. if PGROUNDDOWN v = of_nat (4096 * k)
       then Some (PA2PTE c OR ((PTE_R OR PTE_W OR PTE_X OR PTE_U) OR PTE_V)) else code_map g frs v) (insert c (P \<union> set frs))"
    "length ys \<le> length zs + 2" "\<exists>m f. w = t\<lparr>pmem := m, free_mem_list := f\<rparr>"
    "\<And>p x. p \<in> insert c (P \<union> set frs) \<Longrightarrow> in_page p x \<Longrightarrow> pmem w x = pmem t x" "set zs \<subseteq> set ys"
  proof (rule uspace_map_page [OF ut, of "of_nat (4096 * k)" c "PTE_R OR PTE_W OR PTE_X OR PTE_U"])
    show "aligned 4096 (of_nat (4096 * k) :: u64)" unfolding aligned_def uva by simp
    show "unat (of_nat (4096 * k) :: u64) + 4096 \<le> 2 ^ 38" unfolding uva using k Suc.prems(4) by simp
    show "2 \<le> length ys" using Suc.prems(5) k xs by simp
  qed (use none in auto)
  have "length frs < 2 ^ 52" using Suc.prems(2,4) k by simp
  from w(2) code_map_snoc [OF this, of c g] have uw: "uspace Y m0 w zs root (code_map g (frs @ [c])) (P \<union> set (frs @ [c]))"
    by (simp add: Suc.prems(2))
  obtain mw fw where mw: "w = s\<lparr>pmem := mw, free_mem_list := fw\<rparr>"
  proof -
    obtain m' f' where "w = t\<lparr>pmem := m', free_mem_list := f'\<rparr>" using w(4) by blast
    then have "w = s\<lparr>pmem := m', free_mem_list := f'\<rparr>" by (intro mem_st.equality) (simp_all add: t_def)
    then show ?thesis by (rule that)
  qed
  have fr: "pmem w x = pmem s x" if "q \<in> P \<union> set frs" "in_page q x" for q x
  proof -
    have "q \<noteq> c" "aligned 4096 q" using that(1) al(3) u by auto
    then have "m x = pmem s x" using within_page [OF lp(1), of q x] c(2) that(2) by simp
    then show ?thesis using w(5) [of q x] that by (auto simp: t_def)
  qed
  have src: "image (pmem s) st sz a = image m0 st sz a" for a
  proof (cases "a < unat sz")
    case True
    have "within Y m0 (pmem s)" using u by blast
    moreover have "\<not> in_page q (st + of_nat a)" if "q \<in> Y" for q
    proof -
      have b: "unat st + unat sz \<le> unat q" "unat q + 4096 \<le> 2 ^ 64" using Suc.prems(10) that by auto
      have x: "unat (st + of_nat a) = unat st + a" by (rule unat_add_small) (use True b unat_lt_2p [of q] in auto)
      then have "unat (st + of_nat a - q) = 2 ^ 64 + unat (st + of_nat a) - unat q"
        using True b unat_sub_if_size [of "st + of_nat a" q] by (auto simp: word_size)
      then show ?thesis using b by (simp add: in_page_def)
    qed
    ultimately show ?thesis using True by (simp add: image_def within_def)
  qed (simp add: image_def)
  have "holds_image (pmem w) m0 st sz frs" by (rule holds_image_frame [OF Suc.prems(6)]) (use fr in auto)
  moreover have "pmem w (c + of_nat i) = image m0 st sz (4096 * length frs + i)" if "i < 4096" for i
  proof -
    have "in_page c (c + of_nat i)" using that by (simp add: in_page_def unat_of_nat)
    then show ?thesis using w(5) [of c "c + of_nat i"] lp(2) [OF that] src Suc.prems(2) by (simp add: t_def)
  qed
  ultimately have hw: "holds_image (pmem w) m0 st sz (frs @ [c])" by (rule holds_image_snoc)
  have call: "userinit_code p [k..<n] s = userinit_code p [Suc k..<n] w"
  proof -
    have "s\<lparr>free_mem_list := load64 (pmem s) c, pmem := load_page (pmem s) c st sz k\<rparr> = t" by (simp add: t_def m_def)
    then show ?thesis using w(1) [folded va] al(1,2) Suc.prems(7-9)
      by (simp add: k(2) Let_def load_page_def t_def m_def split: if_splits)
  qed
  have "\<exists>s' ys frs'. userinit_code p [Suc k..<n] w = Some (True, s') \<and> uspace Y m0 s' ys root (code_map g frs') (P \<union> set frs') \<and>
    length frs' = n \<and> length zs \<le> length ys + 3 * (n - Suc k) \<and> holds_image (pmem s') m0 st sz frs' \<and>
    (\<exists>m f. s' = w\<lparr>pmem := m, free_mem_list := f\<rparr>) \<and> set frs' \<subseteq> set (frs @ [c]) \<union> set zs"
  proof (rule Suc.hyps(1) [OF _ uw _ _ Suc.prems(4) _ hw])
    show "d = n - Suc k" "Suc k \<le> n" using Suc.hyps(2) k by simp_all
    show "length (frs @ [c]) = Suc k" using Suc.prems(2) by simp
    show "3 * (n - Suc k) \<le> length zs" using Suc.prems(5) w(3) xs k by simp
    show "pagetable (procs w p) = root" "initcode_start w = st" "initcode_size w = sz" using Suc.prems(7-9) by (simp_all add: mw)
  qed (use Suc.prems(10,11) in auto)
  then obtain s' y frs' where r: "userinit_code p [Suc k..<n] w = Some (True, s')"
    "uspace Y m0 s' y root (code_map g frs') (P \<union> set frs')" "length frs' = n" "length zs \<le> length y + 3 * (n - Suc k)"
    "holds_image (pmem s') m0 st sz frs'" "\<exists>m f. s' = w\<lparr>pmem := m, free_mem_list := f\<rparr>"
    "set frs' \<subseteq> set (frs @ [c]) \<union> set zs" by blast
  have "length xs \<le> length y + 3 * (n - k)" using r(4) w(3) xs k by simp
  moreover have "\<exists>m f. s' = s\<lparr>pmem := m, free_mem_list := f\<rparr>" using r(6) by (auto simp: mw)
  moreover have "set frs' \<subseteq> set frs \<union> set xs" using r(7) w(6) xs by auto
  ultimately show ?case using r unfolding call by - (rule exI [of _ s'], rule exI [of _ y], rule exI [of _ frs'], auto)
qed

section \<open>Process 0\<close>

text \<open>All of the state but memory, the processes, the CPU record and the locks.\<close>

definition rest :: "'a proc_st_scheme \<Rightarrow> 'a proc_st_scheme" where
  "rest s = s\<lparr>pmem := (\<lambda>_. 0), free_mem_list := 0, procs := (\<lambda>_. zero_proc), cpu := \<lparr>cproc = None, noff = 0, intena = False\<rparr>,
     sie := False, locks := (\<lambda>_. \<lparr>locked = False, lk_cpu = False\<rparr>), nextpid := 0\<rparr>"

lemma rest_upd [simp]:
  "rest (s\<lparr>pmem := m\<rparr>) = rest s" "rest (s\<lparr>free_mem_list := f\<rparr>) = rest s" "rest (s\<lparr>procs := pr\<rparr>) = rest s"
  "rest (s\<lparr>cpu := c\<rparr>) = rest s" "rest (s\<lparr>sie := b\<rparr>) = rest s" "rest (s\<lparr>locks := l\<rparr>) = rest s" "rest (s\<lparr>nextpid := n\<rparr>) = rest s"
  by (simp_all add: rest_def)

lemma rest_ops [simp]: "rest (upd_proc i g s) = rest s" "rest (release lk s) = rest s"
  by (simp_all add: upd_proc_def lock_defs Let_def)

lemma rest_fields:
  assumes "rest s' = rest s"
  shows "end_address s' = end_address s" "etext s' = etext s" "userret s' = userret s" "uservec s' = uservec s"
    "kernel_pagetable s' = kernel_pagetable s" "proc_st.more s' = proc_st.more s"
  using assms [THEN arg_cong, of end_address] assms [THEN arg_cong, of etext] assms [THEN arg_cong, of userret]
    assms [THEN arg_cong, of uservec] assms [THEN arg_cong, of kernel_pagetable] assms [THEN arg_cong, of proc_st.more]
  by (simp_all add: rest_def)

lemma rest_bst:
  fixes s s' :: "'a bst_scheme"
  assumes "rest s' = rest s"
  shows "ftable s' = ftable s" "icache s' = icache s" "csrv s' = csrv s" "initcode_start s' = initcode_start s"
    "initcode_size s' = initcode_size s" "sys_trap_vector s' = sys_trap_vector s" "usertrap_addr s' = usertrap_addr s"
  using rest_fields(6) [OF assms] by (cases s; cases s'; simp)+

lemma rest_tables:
  "rest (s\<lparr>ftable := a\<rparr>) = (rest s)\<lparr>ftable := a\<rparr>" "rest (s'\<lparr>icache := b\<rparr>) = (rest s')\<lparr>icache := b\<rparr>"
  by (cases s, simp add: rest_def) (cases s', simp add: rest_def)

text \<open>No lock is held, no process runs.\<close>

definition quiet :: "'a proc_st_scheme \<Rightarrow> bool" where
  "quiet s \<longleftrightarrow> (\<forall>lk. \<not> locked (locks s lk)) \<and> noff (cpu s) = 0 \<and> cproc (cpu s) = None"

lemma acquire_quiet:
  assumes "quiet s"
  obtains t where "acquire lk s = Some t" and "pmem t = pmem s" and "free_mem_list t = free_mem_list s" and "procs t = procs s"
    and "nextpid t = nextpid s" and "rest t = rest s" and "noff (cpu t) = 1" and "cproc (cpu t) = None"
    and "\<forall>l. l \<noteq> lk \<longrightarrow> \<not> locked (locks t l)"
proof -
  obtain t where t: "acquire lk s = Some t" using assms by (auto simp: lock_defs Let_def quiet_def)
  show ?thesis by (rule that [OF t]) (use t assms in \<open>auto simp: lock_defs Let_def quiet_def split: if_splits\<close>)
qed

lemma quiet_release:
  "noff (cpu t) = 1 \<Longrightarrow> cproc (cpu t) = None \<Longrightarrow> \<forall>l. l \<noteq> lk \<longrightarrow> \<not> locked (locks t l) \<Longrightarrow> quiet (release lk t)"
  by (auto simp: lock_defs Let_def quiet_def)

lemma release_mem [simp]:
  "pmem (release lk s) = pmem s" "free_mem_list (release lk s) = free_mem_list s" "end_address (release lk s) = end_address s"
  by (simp_all add: lock_defs Let_def)

lemma free_pages_cong:
  assumes "pmem s' = pmem s" and "free_mem_list s' = free_mem_list s" and "end_address s' = end_address s"
  shows "free_pages s' xs = free_pages s xs"
  using assms by (simp add: free_pages_def managed_def)

lemma uspace_cong:
  assumes "pmem s' = pmem s" and "free_mem_list s' = free_mem_list s" and "end_address s' = end_address s"
  shows "uspace Y m0 s' xs root f P = uspace Y m0 s xs root f P"
  using assms free_pages_cong [OF assms] by (simp add: uspace_def)

lemma kalloc_take:
  assumes "free_pages s (c # xs)"
  shows "kalloc s = (c, s\<lparr>free_mem_list := load64 (pmem s) c\<rparr>)" "c \<noteq> 0" "free_pages (s\<lparr>free_mem_list := load64 (pmem s) c\<rparr>) xs"
  using free_pages_Cons [OF assms] kpages.pages_valid [OF assms] by auto

lemma alloc_first:
  fixes s :: "'a proc_st_scheme"
  assumes "free_pages s (tf # xs)" and "quiet s" and "status (procs s 0) = TASK_FREE"
  obtains t where "allocproc s = Some (Some 0, t)" and "free_pages t xs" and "pmem t = pmem s" and "quiet t" and "rest t = rest s"
    and "procs t = (procs s)(0 := (procs s 0)\<lparr>pid := nextpid s, killed := False, xstate := 0, chan := CNull, parent := None,
        pname := [], psz := 0, trapframe := tf, status := TASK_ALLOCATED\<rparr>)"
proof -
  obtain u where u: "acquire (LProc 0) s = Some u" "pmem u = pmem s" "free_mem_list u = free_mem_list s" "procs u = procs s"
    "nextpid u = nextpid s" "rest u = rest s" "noff (cpu u) = 1" "cproc (cpu u) = None" "\<forall>l. l \<noteq> LProc 0 \<longrightarrow> \<not> locked (locks u l)"
    by (rule acquire_quiet [OF assms(2)])
  define v where "v = upd_proc 0 (\<lambda>p. p\<lparr>pid := nextpid s, killed := False, xstate := 0, chan := CNull, parent := None,
      pname := [], psz := 0\<rparr>) (u\<lparr>nextpid := nextpid s + 1\<rparr>)"
  have fv: "pmem v = pmem s" "free_mem_list v = free_mem_list s" "end_address v = end_address s" "rest v = rest s"
    using u rest_fields(1) [OF u(6)] by (simp_all add: v_def upd_proc_def)
  have "free_pages v (tf # xs)" using assms(1) free_pages_cong [OF fv(1-3)] by simp
  note k = kalloc_take [OF this]
  define w where "w = upd_proc 0 (\<lambda>p. p\<lparr>status := TASK_ALLOCATED\<rparr>) (upd_proc 0 (\<lambda>p. p\<lparr>trapframe := tf\<rparr>) (v\<lparr>free_mem_list := load64 (pmem v) tf\<rparr>))"
  have "allocproc_found 0 u = (Some 0, release (LProc 0) w)"
    using k(1,2) u(5) by (simp add: allocproc_found_def allocpid_def v_def w_def Let_def)
  moreover have "[0..<NPROC] = 0 # [Suc 0..<NPROC]" by (simp add: NPROC_def upt_rec)
  ultimately have a: "allocproc s = Some (Some 0, release (LProc 0) w)" using u(1,4) assms(3) by (simp add: allocproc_def)
  have "free_pages (release (LProc 0) w) xs"
    using k(3) by (subst free_pages_cong [of _ "v\<lparr>free_mem_list := load64 (pmem v) tf\<rparr>"]) (simp_all add: w_def upd_proc_def)
  moreover have "quiet (release (LProc 0) w)"
    by (rule quiet_release) (use u in \<open>simp_all add: w_def v_def upd_proc_def\<close>)
  ultimately show ?thesis
    by (intro that [OF a]) (use u fv in \<open>simp_all add: w_def v_def upd_proc_def\<close>)
qed

lemma files_ok:
  fixes s :: "'a kst_scheme"
  assumes "\<forall>f < NFILE. f_ref (ftable s f) = 0"
  obtains t where "userinit_files 0 s = Some t" and "pmem t = pmem s" and "free_mem_list t = free_mem_list s" and "cpu t = cpu s"
    and "locks t = locks s" and "procs t = (procs s)(0 := (procs s 0)\<lparr>ofile := (ofile (procs s 0))(0 := Some 0, 1 := Some 1, 2 := Some 2)\<rparr>)"
    and "\<forall>f. f_ref (ftable t f) = (if f < 3 then 1 else f_ref (ftable s f))"
    and "\<forall>f < 3. f_type (ftable t f) = FD_CONSOLE \<and> f_readable (ftable t f) = (f = 0) \<and> f_writable (ftable t f) = (f \<noteq> 0)"
    and "rest (t\<lparr>ftable := ftable s\<rparr>) = rest s"
proof -
  have n: "[0..<NFILE] = 0 # 1 # 2 # [3..<NFILE]" by (simp add: NFILE_def upt_rec)
  have z: "f_ref (ftable s 0) = 0" "f_ref (ftable s 1) = 0" "f_ref (ftable s 2) = 0" "f_ref (ftable s (Suc 0)) = 0"
    using assms by (simp_all add: NFILE_def)
  define s1 where "s1 = upd_file 0 (\<lambda>x. x\<lparr>f_ref := 1\<rparr>) s"
  define s2 where "s2 = upd_file 1 (\<lambda>x. x\<lparr>f_ref := 1\<rparr>) s1"
  define s3 where "s3 = upd_file 2 (\<lambda>x. x\<lparr>f_ref := 1\<rparr>) s2"
  have a: "filealloc s = (Some 0, s1)" "filealloc s1 = (Some 1, s2)" "filealloc s2 = (Some 2, s3)"
    using z by (simp_all add: filealloc_def n s1_def s2_def s3_def upd_file_def)
  define t where "t = set_ofile 0 2 (Some 2) (set_ofile 0 1 (Some 1) (set_ofile 0 0 (Some 0)
      (console_file False True 2 (console_file False True 1 (console_file True False 0 s3)))))"
  have "userinit_files 0 s = Some t" by (simp add: userinit_files_def a t_def)
  then show ?thesis
    by (rule that) (auto simp: t_def s1_def s2_def s3_def console_file_def upd_file_def set_ofile_def upd_proc_def rest_def
      less_Suc_eq numeral_3_eq_3 numeral_2_eq_2)
qed

lemma root_ok:
  fixes s :: "'a fs_st_scheme"
  assumes "\<forall>i < NINODE. i_ref (icache s i) = 0"
  shows "namei s [47, 0] = Some (Some 0, upd_inode 0 (\<lambda>i. i\<lparr>i_dev := ROOTDEV, i_inum := ROOTINO, i_ref := 1, i_valid := False\<rparr>) s)"
proof -
  have n: "[0..<NINODE] = 0 # [1..<NINODE]" by (simp add: NINODE_def upt_rec)
  have "List.find (\<lambda>ip. 0 < i_ref (icache s ip) \<and> i_dev (icache s ip) = ROOTDEV \<and> i_inum (icache s ip) = ROOTINO) [0..<NINODE] = None"
    using assms by (auto simp: find_None_iff)
  moreover have "List.find (\<lambda>ip. i_ref (icache s ip) = 0) [0..<NINODE] = Some 0"
    using assms [rule_format, of 0] by (simp add: n) (simp add: NINODE_def)
  ultimately have "iget s ROOTDEV ROOTINO = Some (0, upd_inode 0 (\<lambda>i. i\<lparr>i_dev := ROOTDEV, i_inum := ROOTINO, i_ref := 1, i_valid := False\<rparr>) s)"
    by (simp add: iget_def Let_def)
  moreover have "skipelem [47, 0] name = None" for name by (simp add: skipelem_def cchar_def)
  ultimately show ?thesis by (simp add: namei_def namei_start_def cchar_def namei_loop.simps [of _ 0 "[47, 0]"])
qed

text \<open>What the trapframe of process 0 holds: zeros, but for the stack pointer.\<close>

definition first_frame :: "mem \<Rightarrow> u64 \<Rightarrow> u64 \<Rightarrow> mem" where
  "first_frame m tf sp = store64 (store64 (memset m tf 0 4096) (tf + tf_epc) 0) (tf + tf_off SP) sp"

lemma within_frame: "within {tf} m (first_frame m tf sp)"
proof -
  have "within {tf} m (memset m tf 0 4096)" by (rule within_memset) simp
  moreover have "within {tf} m' (store64 m' (tf + tf_epc) 0)" for m' by (rule within_store) (simp_all add: tf_epc_def)
  moreover have "within {tf} m' (store64 m' (tf + tf_off SP) sp)" for m' by (rule within_store) simp_all
  ultimately show ?thesis unfolding first_frame_def using within_trans by blast
qed

definition stack_map :: "(u64 \<Rightarrow> u64 option) \<Rightarrow> u64 \<Rightarrow> u64 \<Rightarrow> u64 \<Rightarrow> u64 option" where
  "stack_map g base stk v =
     (if PGROUNDDOWN v = base then Some (PA2PTE stk OR ((PTE_R OR PTE_W OR PTE_U) OR PTE_V)) else g v)"

lemma stack_ok:
  fixes s :: "'a bst_scheme"
  assumes u: "uspace Y m0 s (stk # xs) root g P" and "pagetable (procs s 0) = root" and tf: "trapframe (procs s 0) = tf" "tf \<in> P"
    and base: "aligned 4096 base" "unat base + 4096 \<le> 2 ^ 38" and l: "2 \<le> length xs" and none: "\<forall>v. PGROUNDDOWN v = base \<longrightarrow> g v = None"
  obtains t ys where "userinit_stack 0 base s = Some t" and "uspace Y m0 t ys root (stack_map g base stk) (insert stk P)"
    and "\<exists>m f. t = upd_proc 0 (\<lambda>x. x\<lparr>psz := base + PGSIZE\<rparr>) (s\<lparr>pmem := m, free_mem_list := f\<rparr>)"
    and "\<And>p x. p \<in> P \<Longrightarrow> p \<noteq> tf \<Longrightarrow> in_page p x \<Longrightarrow> pmem t x = pmem s x"
    and "\<And>i. i < 4096 \<Longrightarrow> pmem t (stk + of_nat i) = 0"
    and "\<exists>m. pmem t = first_frame m tf (base + PGSIZE)"
proof -
  note us = u [unfolded uspace_def]
  have w: "within {stk} (pmem s) (memset (pmem s) stk 0 4096)" by (rule within_memset) simp
  note al = uspace_alloc [OF u w]
  define s1 where "s1 = s\<lparr>free_mem_list := load64 (pmem s) stk, pmem := memset (pmem s) stk 0 4096\<rparr>"
  have u1: "uspace Y m0 s1 xs root g (insert stk P)" unfolding s1_def by (rule al(5))
  have a: "aligned 4096 p" if "p \<in> insert stk P" for p using that us by auto
  obtain s2 ys where 2: "mappages s1 root stk base PGSIZE (PTE_R OR PTE_W OR PTE_U) = Some (0, s2)"
    "uspace Y m0 s2 ys root (stack_map g base stk) (insert stk P)" "\<exists>m f. s2 = s1\<lparr>pmem := m, free_mem_list := f\<rparr>"
    "\<And>p x. p \<in> insert stk P \<Longrightarrow> in_page p x \<Longrightarrow> pmem s2 x = pmem s1 x"
    by (rule uspace_map_page [OF u1 base, where pa = stk and perm = "PTE_R OR PTE_W OR PTE_U"])
      (use l none in \<open>auto simp: stack_map_def [abs_def]\<close>)
  obtain m f where mf: "s2 = s\<lparr>pmem := m, free_mem_list := f\<rparr>"
  proof -
    obtain m f where "s2 = s1\<lparr>pmem := m, free_mem_list := f\<rparr>" using 2(3) by blast
    then have "s2 = s\<lparr>pmem := m, free_mem_list := f\<rparr>" by (intro mem_st.equality) (simp_all add: s1_def)
    then show ?thesis by (rule that)
  qed
  let ?F = "first_frame (pmem s2) tf (base + PGSIZE)"
  define t where "t = upd_proc 0 (\<lambda>x. x\<lparr>psz := base + PGSIZE\<rparr>) (s2\<lparr>pmem := ?F\<rparr>)"
  have p2: "pagetable (procs s1 0) = root" "trapframe (procs s2 0) = tf" using assms(2) tf(1) by (simp_all add: s1_def mf)
  have s1: "s\<lparr>free_mem_list := load64 (pmem s) stk, pmem := memset (pmem s) stk 0 4096\<rparr> = s1" by (simp add: s1_def)
  have call: "userinit_stack 0 base s = Some t"
    using al(1,2) 2(1) p2 assms(2) by (simp add: userinit_stack_def Let_def s1 t_def first_frame_def)
  have "uspace Y m0 (s2\<lparr>pmem := ?F\<rparr>) ys root (stack_map g base stk) (insert stk P)"
    by (rule uspace_fill [OF 2(2) within_frame]) (use tf(2) in simp)
  then have ut: "uspace Y m0 t ys root (stack_map g base stk) (insert stk P)"
    by (subst uspace_cong [of _ "s2\<lparr>pmem := ?F\<rparr>"]) (simp_all add: t_def upd_proc_def)
  have F: "?F x = pmem s2 x" if "p \<noteq> tf" "p \<in> insert stk P" "in_page p x" for p x
    using within_page [OF within_frame, of tf p x "pmem s2" "base + PGSIZE"] that a tf(2) by auto
  have "pmem t x = pmem s x" if "p \<in> P" "p \<noteq> tf" "in_page p x" for p x
  proof -
    have "p \<noteq> stk" using that(1) al(3) by auto
    then have "pmem s1 x = pmem s x" using within_page [OF w, of p x] a that by (simp add: s1_def)
    then show ?thesis using F [of p x] 2(4) [of p x] that by (simp add: t_def upd_proc_def)
  qed
  moreover have "pmem t (stk + of_nat i) = 0" if "i < 4096" for i
  proof -
    have i: "in_page stk (stk + of_nat i)" "stk \<noteq> tf" using that al(3) tf(2) by (auto simp: in_page_def unat_of_nat)
    then show ?thesis using F [OF i(2) _ i(1)] 2(4) [OF _ i(1)] memset_in [OF that, of "pmem s" stk 0]
      by (simp add: t_def upd_proc_def s1_def)
  qed
  moreover have "\<exists>m f. t = upd_proc 0 (\<lambda>x. x\<lparr>psz := base + PGSIZE\<rparr>) (s\<lparr>pmem := m, free_mem_list := f\<rparr>)"
  proof (intro exI)
    have "s2\<lparr>pmem := ?F\<rparr> = s\<lparr>pmem := ?F, free_mem_list := f\<rparr>" by (rule mem_st.equality) (simp_all add: mf)
    then show "t = upd_proc 0 (\<lambda>x. x\<lparr>psz := base + PGSIZE\<rparr>) (s\<lparr>pmem := ?F, free_mem_list := f\<rparr>)" by (simp add: t_def)
  qed
  moreover have "\<exists>m. pmem t = first_frame m tf (base + PGSIZE)" by (auto simp: t_def upd_proc_def)
  ultimately show ?thesis using that [OF call ut] by blast
qed

text \<open>The state \<open>userinit\<close> finds: free pages, no process, no open file, no inode in use.\<close>

definition init_ready :: "'a bst_scheme \<Rightarrow> u64 list \<Rightarrow> nat \<Rightarrow> bool" where
  "init_ready s xs n \<longleftrightarrow> free_pages s xs \<and> 3 * n + 12 \<le> length xs \<and> quiet s \<and>
     (\<forall>i. status (procs s i) = TASK_FREE \<and> ofile (procs s i) = (\<lambda>_. None)) \<and> nextpid s = 1 \<and>
     (\<forall>f < NFILE. f_ref (ftable s f) = 0) \<and> (\<forall>i < NINODE. i_ref (icache s i) = 0) \<and>
     userret s < end_address s \<and> uservec s < end_address s \<and> KERNBASE \<le> userret s \<and> KERNBASE \<le> uservec s \<and>
     unat (PGROUNDUP (initcode_size s)) = 4096 * n \<and> 0 < n \<and> n < 2 ^ 16 \<and> unat (initcode_size s) \<le> 4096 * n \<and>
     unat (initcode_start s) + unat (initcode_size s) \<le> unat (end_address s)"

lemma userinit_ok:
  fixes s :: "'a bst_scheme"
  assumes "init_ready s xs n"
  obtains t frs stk tf ks q us where "userinit s = Some t"
    and "uspace (set xs) (pmem s) t us q (stack_map (code_map (trap_map (userret s) (uservec s) tf) frs) (of_nat (4096 * n)) stk)
      (insert stk ({tf, ks} \<union> set frs))" and "tf \<notin> insert stk (set frs)"
    and "length frs = n" and "holds_image (pmem t) (pmem s) (initcode_start s) (initcode_size s) frs"
    and "\<And>i. i < 4096 \<Longrightarrow> pmem t (stk + of_nat i) = 0" and "\<exists>m. pmem t = first_frame m tf (of_nat (4096 * n) + PGSIZE)"
    and "quiet t" and "\<forall>i. i \<noteq> 0 \<longrightarrow> procs t i = procs s i" and "status (procs t 0) = TASK_READY" and "pid (procs t 0) = 1"
    and "pagetable (procs t 0) = q" and "trapframe (procs t 0) = tf" and "kstack (procs t 0) = ks" and "\<not> killed (procs t 0)"
    and "ofile (procs t 0) = (\<lambda>_. None)(0 := Some 0, 1 := Some 1, 2 := Some 2)"
    and "\<forall>f. f_ref (ftable t f) = (if f < 3 then 1 else f_ref (ftable s f))"
    and "\<forall>f < 3. f_type (ftable t f) = FD_CONSOLE \<and> f_readable (ftable t f) = (f = 0) \<and> f_writable (ftable t f) = (f \<noteq> 0)"
    and "rest (t\<lparr>ftable := ftable s, icache := icache s\<rparr>) = rest s"
proof -
  note R = assms [unfolded init_ready_def]
  obtain tf xs1 where "xs = tf # xs1" "11 + 3 * n \<le> length xs1" using R by (cases xs) auto
  moreover obtain ks xs2 where "xs1 = ks # xs2" "10 + 3 * n \<le> length xs2" using calculation by (cases xs1) auto
  moreover obtain q ys where "xs2 = q # ys" "9 + 3 * n \<le> length ys" using calculation by (cases xs2) auto
  ultimately have xs: "xs = tf # ks # q # ys" and ly: "9 + 3 * n \<le> length ys" by simp_all
  have fp: "free_pages s (tf # ks # q # ys)" using R xs by simp
  have man: "managed s x" if "x \<in> set xs" for x using fp that xs by (auto simp: free_pages_def)
  have al: "\<forall>y \<in> set xs. aligned 4096 y" using man managed_aligned by blast
  have lo: "unat (initcode_start s) + unat (initcode_size s) \<le> unat y \<and> unat y + 4096 \<le> 2 ^ 64" if "y \<in> set xs" for y
    using man [OF that] R by (auto simp: managed_def word_le_nat_alt word_less_nat_alt kdefs)
  have dis: "distinct (tf # ks # q # ys)" using fp by (simp add: free_pages_def)
  obtain s1 where 1: "allocproc s = Some (Some 0, s1)" "free_pages s1 (ks # q # ys)" "pmem s1 = pmem s" "quiet s1" "rest s1 = rest s"
    "procs s1 = (procs s)(0 := (procs s 0)\<lparr>pid := nextpid s, killed := False, xstate := 0, chan := CNull, parent := None,
        pname := [], psz := 0, trapframe := tf, status := TASK_ALLOCATED\<rparr>)"
    by (rule alloc_first [OF fp]) (use R in auto)
  obtain s2 where 2: "acquire (LProc 0) s1 = Some s2" "pmem s2 = pmem s1" "free_mem_list s2 = free_mem_list s1" "procs s2 = procs s1"
    "nextpid s2 = nextpid s1" "rest s2 = rest s1" "noff (cpu s2) = 1" "cproc (cpu s2) = None" "\<forall>l. l \<noteq> LProc 0 \<longrightarrow> \<not> locked (locks s2 l)"
    by (rule acquire_quiet [OF 1(4)])
  have "free_pages s2 (ks # q # ys)" using 1(2) free_pages_cong [OF 2(2,3) rest_fields(1) [OF 2(6)]] by simp
  note k = kalloc_take [OF this]
  define s3 where "s3 = upd_proc 0 (\<lambda>x. x\<lparr>kstack := ks\<rparr>) (s2\<lparr>free_mem_list := load64 (pmem s2) ks\<rparr>)"
  have f3: "free_pages s3 (q # ys)" "rest s3 = rest s" "pmem s3 = pmem s" "trapframe (procs s3 0) = tf"
    using k(3) 1(3,5,6) 2(2,4,6) by (simp_all add: s3_def upd_proc_def free_pages_def managed_def)
  note r3 = rest_fields [OF f3(2)] and b3 = rest_bst [OF f3(2)]
  have tf_hi: "end_address s \<le> tf" "tf < PHYSTOP" "PGROUNDDOWN tf = tf"
    using man [of tf] xs PGROUNDDOWN_id [of tf] al by (auto simp: managed_def)
  have lowpage: "PGROUNDDOWN a \<noteq> tf" if "a < end_address s" for a
    using PGROUNDDOWN_le [of a] that tf_hi(1) by (auto simp: word_less_nat_alt word_le_nat_alt)
  have hipage: "KERNBASE \<le> PGROUNDDOWN a" if "KERNBASE \<le> a" for a
  proof -
    have "0x80000000 \<le> unat a" using that by (simp add: word_le_nat_alt kdefs)
    then have "0x80000000 div 4096 \<le> unat a div 4096" by (rule div_le_mono)
    then have "0x80000000 \<le> 4096 * (unat a div 4096)" by simp
    moreover have "unat (PGROUNDDOWN a) = 4096 * (unat a div 4096)"
      by (simp add: PGROUNDDOWN_def unat_and_not_mask minus_mod_eq_mult_div)
    ultimately show ?thesis by (simp add: word_le_nat_alt kdefs)
  qed
  have e: "end_address s \<le> PHYSTOP" using tf_hi by simp
  obtain s4 zs where 4: "proc_pagetable s3 tf = Some (q, s4)" "uspace (set xs) (pmem s) s4 zs q (trap_map (userret s3) (uservec s3) tf) {tf, ks}"
    "length ys \<le> length zs + 6" "\<exists>m f. s4 = s3\<lparr>pmem := m, free_mem_list := f\<rparr>"
    "\<And>p x. p \<in> {tf, ks} \<Longrightarrow> in_page p x \<Longrightarrow> pmem s4 x = pmem s3 x"
  proof (rule proc_pagetable_ok [OF f3(1), of "{tf, ks}" "set xs" "pmem s" tf])
    show "{tf, ks} \<inter> set (q # ys) = {}" using dis by auto
    show "PGROUNDDOWN tf \<noteq> PGROUNDDOWN (userret s3)" "PGROUNDDOWN tf \<noteq> PGROUNDDOWN (uservec s3)"
      using lowpage R by (auto simp: r3 tf_hi(3))
    show "userret s3 < PHYSTOP" "uservec s3 < PHYSTOP" using R e by (auto simp: r3)
  qed (use xs al f3(3) ly tf_hi(2) in auto)
  obtain m4 f4 where mf4: "s4 = s3\<lparr>pmem := m4, free_mem_list := f4\<rparr>" using 4(4) by blast
  define g where "g = trap_map (userret s) (uservec s) tf"
  have gnone: "g v = None" if "unat v < 0x80000000" for v
  proof -
    have "unat (PGROUNDDOWN v) < unat KERNBASE" using PGROUNDDOWN_le [of v] that by (simp add: kdefs)
    moreover have "unat KERNBASE \<le> unat (PGROUNDDOWN (userret s))" "unat KERNBASE \<le> unat (PGROUNDDOWN (uservec s))" "unat KERNBASE \<le> unat (PGROUNDDOWN tf)"
      using hipage R tf_hi by (auto simp: word_le_nat_alt word_less_nat_alt)
    ultimately show ?thesis by (auto simp: g_def trap_map_def)
  qed
  define s5 where "s5 = upd_proc 0 (\<lambda>x. x\<lparr>pagetable := q, ctx_sp := kstack x + PGSIZE, ctx_ra := forkret_addr s4\<rparr>) s4"
  have u5: "uspace (set xs) (pmem s) s5 zs q (code_map g []) ({tf, ks} \<union> set [])"
  proof -
    have "code_map g [] = g" by (simp add: code_map_def fun_eq_iff)
    then show ?thesis using 4(2) by (subst uspace_cong [of _ s4]) (simp_all add: s5_def upd_proc_def g_def r3)
  qed
  have b5: "initcode_start s5 = initcode_start s" "initcode_size s5 = initcode_size s"
    using b3 by (simp_all add: s5_def mf4 upd_proc_def)
  have "\<exists>s' ys frs'. userinit_code 0 [0..<n] s5 = Some (True, s') \<and> uspace (set xs) (pmem s) s' ys q (code_map g frs') ({tf, ks} \<union> set frs') \<and>
    length frs' = n \<and> length zs \<le> length ys + 3 * (n - 0) \<and> holds_image (pmem s') (pmem s) (initcode_start s) (initcode_size s) frs' \<and>
    (\<exists>m f. s' = s5\<lparr>pmem := m, free_mem_list := f\<rparr>) \<and> set frs' \<subseteq> set [] \<union> set zs"
  proof (rule userinit_code_ok [OF u5])
    show "3 * (n - 0) \<le> length zs" using 4(3) ly by simp
    show "holds_image (pmem s5) (pmem s) (initcode_start s) (initcode_size s) []" by (simp add: holds_image_def)
    show "pagetable (procs s5 0) = q" by (simp add: s5_def)
    show "\<forall>v. unat v < 4096 * n \<longrightarrow> g v = None" using gnone R by auto
  qed (use R b5 lo in auto)
  then obtain s6 ws frs where h6: "userinit_code 0 [0..<n] s5 = Some (True, s6) \<and> uspace (set xs) (pmem s) s6 ws q (code_map g frs) ({tf, ks} \<union> set frs) \<and>
    length frs = n \<and> length zs \<le> length ws + 3 * (n - 0) \<and> holds_image (pmem s6) (pmem s) (initcode_start s) (initcode_size s) frs \<and>
    (\<exists>m f. s6 = s5\<lparr>pmem := m, free_mem_list := f\<rparr>) \<and> set frs \<subseteq> set [] \<union> set zs" by blast
  then have 6: "userinit_code 0 [0..<n] s5 = Some (True, s6)"
    "uspace (set xs) (pmem s) s6 ws q (code_map g frs) ({tf, ks} \<union> set frs)" "length frs = n" "length zs \<le> length ws + 3 * n"
    "holds_image (pmem s6) (pmem s) (initcode_start s) (initcode_size s) frs" "\<exists>m f. s6 = s5\<lparr>pmem := m, free_mem_list := f\<rparr>" "set frs \<subseteq> set zs"
    by simp_all
  obtain m6 f6 where mf6: "s6 = s5\<lparr>pmem := m6, free_mem_list := f6\<rparr>" using 6(6) by blast
  obtain stk vs where ws: "ws = stk # vs" "2 \<le> length vs" using 6(4) 4(3) ly by (cases ws) auto
  define base :: u64 where "base = of_nat (4096 * n)"
  have ub: "unat base = 4096 * n" unfolding base_def using R by (intro unat_of_nat_small) simp
  obtain s7 us where 7: "userinit_stack 0 base s6 = Some s7" "uspace (set xs) (pmem s) s7 us q (stack_map (code_map g frs) base stk) (insert stk ({tf, ks} \<union> set frs))"
    "\<exists>m f. s7 = upd_proc 0 (\<lambda>x. x\<lparr>psz := base + PGSIZE\<rparr>) (s6\<lparr>pmem := m, free_mem_list := f\<rparr>)"
    "\<And>p x. p \<in> {tf, ks} \<union> set frs \<Longrightarrow> p \<noteq> tf \<Longrightarrow> in_page p x \<Longrightarrow> pmem s7 x = pmem s6 x"
    "\<And>i. i < 4096 \<Longrightarrow> pmem s7 (stk + of_nat i) = 0" "\<exists>m. pmem s7 = first_frame m tf (base + PGSIZE)"
  proof (rule stack_ok [OF 6(2) [unfolded ws(1)], of tf base])
    show "pagetable (procs s6 0) = q" "trapframe (procs s6 0) = tf" using f3(4) by (simp_all add: mf6 s5_def mf4 upd_proc_def)
    show "aligned 4096 base" unfolding aligned_def ub by simp
    show "unat base + 4096 \<le> 2 ^ 38" unfolding ub using R by simp
    show "\<forall>v. PGROUNDDOWN v = base \<longrightarrow> code_map g frs v = None"
    proof (intro allI impI)
      fix v assume "PGROUNDDOWN v = base"
      then have "unat v div 4096 = n" using PGROUNDDOWN_page [of n v] R by (simp add: base_def)
      then have "\<not> unat v < 4096 * n" "unat v < 4096 * (n + 1)" by (auto simp: dividend_less_times_div) 
      then show "code_map g frs v = None" using 6(3) gnone R by (simp add: code_map_def)
    qed
  qed (use ws in auto)
  obtain m7 f7 where mf7: "s7 = upd_proc 0 (\<lambda>x. x\<lparr>psz := base + PGSIZE\<rparr>) (s6\<lparr>pmem := m7, free_mem_list := f7\<rparr>)" using 7(3) by blast
  note chain = mf7 mf6 s5_def mf4 s3_def
  have tf: "tf \<notin> insert stk (set frs)"
  proof -
    have "tf \<notin> set zs" "tf \<notin> set ws" using 4(2) 6(2) by (auto simp: uspace_def)
    then show ?thesis using 6(7) ws(1) by auto
  qed
  have h7: "holds_image (pmem s7) (pmem s) (initcode_start s) (initcode_size s) frs"
  proof (rule holds_image_frame [OF 6(5)])
    fix p x assume p: "p \<in> set frs" "in_page p x"
    then show "pmem s7 x = pmem s6 x" using 7(4) [of p x] tf by auto
  qed
  have r7: "rest s7 = rest s" "cpu s7 = cpu s2" "locks s7 = locks s2" using f3(2) by (simp_all add: chain upd_proc_def)
  note b7 = rest_bst [OF r7(1)] and e7 = rest_fields [OF r7(1)]
  have p7: "procs s7 = (procs s)(0 := (procs s 0)\<lparr>pid := 1, killed := False, xstate := 0, chan := CNull, parent := None,
        pname := [], trapframe := tf, status := TASK_ALLOCATED, kstack := ks, pagetable := q, ctx_sp := ks + PGSIZE,
        ctx_ra := forkret_addr s2, psz := base + PGSIZE\<rparr>)"
    using R by (simp add: chain 2(4) 1(6) upd_proc_def)
  have "\<forall>f < NFILE. f_ref (ftable s7 f) = 0" using R b7 by simp
  then obtain s8 where 8: "userinit_files 0 s7 = Some s8" "pmem s8 = pmem s7" "free_mem_list s8 = free_mem_list s7" "cpu s8 = cpu s7"
    "locks s8 = locks s7" "procs s8 = (procs s7)(0 := (procs s7 0)\<lparr>ofile := (ofile (procs s7 0))(0 := Some 0, 1 := Some 1, 2 := Some 2)\<rparr>)"
    "\<forall>f. f_ref (ftable s8 f) = (if f < 3 then 1 else f_ref (ftable s7 f))"
    "\<forall>f < 3. f_type (ftable s8 f) = FD_CONSOLE \<and> f_readable (ftable s8 f) = (f = 0) \<and> f_writable (ftable s8 f) = (f \<noteq> 0)"
    "rest (s8\<lparr>ftable := ftable s7\<rparr>) = rest s7"
    by (rule files_ok) blast
  have i8: "icache s8 = icache s" using rest_bst(2) [OF 8(9)] b7 by simp
  have "\<forall>i < NINODE. i_ref (icache s8 i) = 0" using R by (simp add: i8)
  note n8 = root_ok [OF this]
  define s9 where "s9 = upd_inode 0 (\<lambda>i. i\<lparr>i_dev := ROOTDEV, i_inum := ROOTINO, i_ref := 1, i_valid := False\<rparr>) s8"
  define t where "t = release (LProc 0) (upd_proc 0 (\<lambda>x. x\<lparr>status := TASK_READY\<rparr>) (upd_proc 0 (\<lambda>x. x\<lparr>cwd := Some 0,
      cwd_path := safestrcpy (cwd_path x) [47, 0] (int MAXPATH), pname := ''proczero''\<rparr>) s9))"
  have run: "userinit_run 0 s7 = Some t" using 8(1) n8 by (simp add: userinit_run_def t_def s9_def)
  have base: "PGROUNDUP (initcode_size s) = base" using R by (simp add: word_unat_eq_iff ub)
  have q: "q \<noteq> 0" using kpages.pages_valid [OF fp] by simp
  have s5: "upd_proc 0 (\<lambda>x. x\<lparr>pagetable := q, ctx_sp := kstack x + PGSIZE, ctx_ra := forkret_addr s4\<rparr>) s4 = s5" by (simp add: s5_def)
  have s3: "upd_proc 0 (\<lambda>x. x\<lparr>kstack := ks\<rparr>) (s2\<lparr>free_mem_list := load64 (pmem s2) ks\<rparr>) = s3" by (simp add: s3_def)
  have n: "unat base div 4096 = n" by (simp add: ub)
  have t2: "trapframe (procs s2 0) = tf" using 1(6) 2(4) by simp
  have "userinit s = Some t"
    using 1(1) 2(1) k(1,2) 4(1) 6(1) 7(1) run q
    by (simp add: userinit_def Let_def s3 t2 s5 b5(2) base n)
  note run = this
  have mt: "pmem t = pmem s7" by (simp add: t_def s9_def upd_proc_def upd_inode_def 8(2))
  have ut: "uspace (set xs) (pmem s) t us q (stack_map (code_map g frs) base stk) (insert stk ({tf, ks} \<union> set frs))"
    using 7(2) by (subst uspace_cong [of _ s7])
      (simp_all add: t_def s9_def upd_proc_def upd_inode_def 8(2,3) rest_fields(1) [OF 8(9), simplified])
  have "quiet t" unfolding t_def
    by (rule quiet_release) (use 2(7-9) in \<open>simp_all add: s9_def upd_proc_def upd_inode_def 8(4,5) r7\<close>)
  have pt: "procs t = (procs s8)(0 := (procs s8 0)\<lparr>cwd := Some 0,
      cwd_path := safestrcpy (cwd_path (procs s8 0)) [47, 0] (int MAXPATH), pname := ''proczero'', status := TASK_READY\<rparr>)"
    by (simp add: t_def s9_def upd_proc_def upd_inode_def)
  have ft: "ftable t = ftable s8" by (simp add: t_def s9_def upd_proc_def upd_inode_def lock_defs Let_def)
  have rt: "rest (t\<lparr>ftable := ftable s, icache := icache s\<rparr>) = rest s"
  proof -
    define u where "u = rest s8"
    have i: "icache u = icache s" by (simp add: u_def rest_def i8)
    have "rest t = rest s9" by (simp add: t_def)
    then have "rest t = u\<lparr>icache := icache s9\<rparr>" by (simp add: s9_def upd_inode_def rest_tables u_def)
    then have "rest (t\<lparr>ftable := ftable s, icache := icache s\<rparr>) = u\<lparr>icache := icache s9, ftable := ftable s, icache := icache u\<rparr>"
      by (simp add: rest_tables i)
    also have "\<dots> = u\<lparr>ftable := ftable s\<rparr>" by (cases u) simp
    also have "\<dots> = rest (s8\<lparr>ftable := ftable s7\<rparr>)" by (simp add: rest_tables u_def b7)
    finally have "rest (t\<lparr>ftable := ftable s, icache := icache s\<rparr>) = rest (s8\<lparr>ftable := ftable s7\<rparr>)" .
    then show ?thesis using 8(9) r7(1) by simp
  qed
  show ?thesis
  proof (rule that [OF run ut [unfolded g_def base_def] tf])
    show "ofile (procs t 0) = (\<lambda>_. None)(0 := Some 0, 1 := Some 1, 2 := Some 2)"
      using R by (simp add: pt 8(6) p7)
  qed (use 6(3) h7 7(5,6) \<open>quiet t\<close> 8(7,8) b7 rt in \<open>simp_all add: mt pt ft 8(6) p7 g_def base_def\<close>)
qed

end
