(* ===== verification/Run_Inv.thy ===== *)
theory Run_Inv
  imports Descriptor_Inv
begin

text \<open>
  Who runs: no system call makes another process \<open>RUNNING\<close>, ends another process, or changes
  the process the CPU record names; a call that returns leaves its caller alive, and a call that
  leaves the processor has taken its caller out of \<open>RUNNING\<close> first. With \<open>Descriptor_Inv\<close>, this is
  what the steps of the whole kernel need of the system calls.
\<close>

section \<open>The view of the processes\<close>

definition live :: "'a proc_st_scheme \<Rightarrow> (nat \<Rightarrow> bool \<times> bool) \<times> nat option" where
  "live s = (\<lambda>p. (dead (procs s p), running (procs s p)), myproc s)"

definition run_le :: "'a proc_st_scheme \<Rightarrow> 'a proc_st_scheme \<Rightarrow> bool" where
  "run_le s s' \<longleftrightarrow> myproc s' = myproc s \<and> (\<forall>p. running (procs s' p) \<longrightarrow> running (procs s p))"

definition alive_le :: "'a proc_st_scheme \<Rightarrow> 'a proc_st_scheme \<Rightarrow> bool" where
  "alive_le s s' \<longleftrightarrow> run_le s s' \<and> (\<forall>p. dead (procs s' p) \<longrightarrow> dead (procs s p))"

definition parked :: "'a proc_st_scheme \<Rightarrow> bool" where
  "parked s \<longleftrightarrow> (\<exists>p. myproc s = Some p \<and> \<not> running (procs s p))"

lemma live_view: "fd_view s' = fd_view s \<Longrightarrow> live s' = live s"
  by (auto simp: live_def fd_view_def fun_eq_iff)

lemma live_slots: "live s' = live s \<Longrightarrow> dead (procs s' p) = dead (procs s p)"
  "live s' = live s \<Longrightarrow> running (procs s' p) = running (procs s p)" "live s' = live s \<Longrightarrow> myproc s' = myproc s"
  by (auto simp: live_def fun_eq_iff)

lemma run_le_trans: "run_le s t \<Longrightarrow> run_le t u \<Longrightarrow> run_le s u"
  by (auto simp: run_le_def)

lemma alive_le_trans: "alive_le s t \<Longrightarrow> alive_le t u \<Longrightarrow> alive_le s u"
  by (auto simp: alive_le_def intro: run_le_trans)

lemma alive_live: "live s' = live s \<Longrightarrow> alive_le s s'"
  by (auto simp: alive_le_def run_le_def live_def fun_eq_iff)

lemma alive_from: "live t = live s \<Longrightarrow> alive_le t s' \<Longrightarrow> alive_le s s'"
  by (auto simp: alive_le_def run_le_def live_def fun_eq_iff)

lemma alive_vkeep: "vkeep (fd_view s) (fd_view s') \<Longrightarrow> alive_le s s'"
  by (auto simp: vkeep_def fd_view_def alive_le_def run_le_def)

lemma alive_run: "alive_le s s' \<Longrightarrow> run_le s s'"
  by (simp add: alive_le_def)

lemma alive_current: "alive_le s s' \<Longrightarrow> current s p \<Longrightarrow> current s' p"
  by (auto simp: alive_le_def run_le_def current_def)

lemma run_le_live: "run_le s t \<Longrightarrow> live s' = live t \<Longrightarrow> run_le s s'"
  by (auto simp: run_le_def live_def fun_eq_iff)

lemma parked_live: "live s' = live s \<Longrightarrow> parked s' = parked s"
  by (auto simp: parked_def live_def fun_eq_iff)

section \<open>Calls on descriptors\<close>

named_theorems lives

lemma live_upd [simp]:
  "live (set_ofile p fd v s) = live s" "live (upd_file f g s') = live s'" "live (filedup f s') = live s'"
  by (auto simp: live_def set_ofile_def upd_proc_def upd_file_def filedup_def dead_def running_def myproc_def fun_eq_iff)

lemma live_mem [simp]: "live (s\<lparr>pmem := m\<rparr>) = live s"
  by (simp add: live_def myproc_def)

lemmas live_off = view_off [THEN live_view]

lemma live_fileclose [lives]: "fileclose f s = Some s' \<Longrightarrow> live s' = live s"
  by (auto simp: fileclose_def Let_def elim!: bind_eq_SomeE split: if_splits
    dest!: frame [THEN live_off] view [THEN live_view])

lemma live_filealloc [lives]: "filealloc s = (r, s') \<Longrightarrow> live s' = live s"
  by (auto simp: filealloc_def split: option.splits)

lemma live_fdalloc [lives]: "fdalloc f s = Some (r, s') \<Longrightarrow> live s' = live s"
  by (auto simp: fdalloc_def elim!: bind_eq_SomeE split: option.splits)

lemma live_close [lives]: "sys_close s = Some (r, s') \<Longrightarrow> live s' = live s"
  by (auto simp: sys_close_def with_fd_def elim!: bind_eq_SomeE split: option.splits dest!: lives)

lemma live_dup [lives]: "sys_dup s = Some (r, s') \<Longrightarrow> live s' = live s"
  by (auto simp: sys_dup_def with_fd_def elim!: bind_eq_SomeE split: option.splits dest!: lives)

lemma live_fcntl [lives]: "sys_fcntl s = Some (r, s') \<Longrightarrow> live s' = live s"
  by (auto simp: sys_fcntl_def with_fd_def elim!: bind_eq_SomeE split: option.splits if_splits)

lemma live_dup2 [lives]: "sys_dup2 s = Some (r, s') \<Longrightarrow> live s' = live s"
  by (auto simp: sys_dup2_def Let_def elim!: bind_eq_SomeE split: option.splits if_splits dest!: lives)

lemma live_open_install [lives]: "open_install ip flags s = Some (r, s') \<Longrightarrow> live s' = live s"
  by (auto simp: open_install_def Let_def elim!: bind_eq_SomeE split: option.splits prod.splits if_splits
    dest!: lives frame [THEN live_off])

lemma live_open [lives]: "sys_open s = Some (r, s') \<Longrightarrow> live s' = live s"
  by (auto simp: sys_open_def Let_def elim!: bind_eq_SomeE split: option.splits prod.splits if_splits
    dest!: lives frame [THEN live_off])

lemma live_close_end [lives]: "close_end p f fd s = Some s' \<Longrightarrow> live s' = live s"
  by (auto simp: close_end_def split: option.splits dest!: lives)

lemma live_pipe_bad [lives]: "pipe_bad p pi rd wr fd0 fd1 s = Some (r, s') \<Longrightarrow> live s' = live s"
  by (auto simp: pipe_bad_def elim!: bind_eq_SomeE dest!: lives view_kfree_pipe [THEN live_view])

lemma live_pipe_fds [lives]: "pipe_fds p a pi rd wr s = Some (r, s') \<Longrightarrow> live s' = live s"
  by (auto simp: pipe_fds_def elim!: bind_eq_SomeE split: option.splits if_splits
    dest!: lives view_put_user [THEN live_view])

lemma live_pipe [lives]: "sys_pipe s = Some (r, s') \<Longrightarrow> live s' = live s"
  by (auto simp: sys_pipe_def Let_def live_view [OF view_new_pipe] live_view [OF view_pipe_file]
    elim!: bind_eq_SomeE split: option.splits prod.splits if_splits dest!: lives off_kallocD [THEN live_off])

section \<open>Creation and end of a process\<close>

lemma set_status_alive:
  assumes "set_status np st s = Some s'" and "st \<noteq> TASK_RUNNING"
  shows "run_le s s'" and "q \<noteq> np \<or> st \<notin> {TASK_FREE, TASK_ZOMBIE} \<Longrightarrow> dead (procs s' q) \<Longrightarrow> dead (procs s q)"
proof -
  obtain t where t: "acquire (LProc np) s = Some t" "s' = release (LProc np) (upd_proc np (\<lambda>x. x\<lparr>status := st\<rparr>) t)"
    using assms(1) by (auto simp: set_status_def elim!: bind_eq_SomeE)
  have p: "procs t = procs s" "myproc t = myproc s"
    using t(1) by (auto simp: lock_defs Let_def myproc_def split: if_splits)
  show "run_le s s'" "q \<noteq> np \<or> st \<notin> {TASK_FREE, TASK_ZOMBIE} \<Longrightarrow> dead (procs s' q) \<Longrightarrow> dead (procs s q)"
    using p assms(2) by (auto simp: t(2) run_le_def running_def dead_def upd_proc_def lock_defs Let_def myproc_def split: if_splits)
qed

lemma live_upd_proc:
  "dead (g (procs s p)) = dead (procs s p) \<Longrightarrow> running (g (procs s p)) = running (procs s p) \<Longrightarrow> live (upd_proc p g s) = live s"
  by (auto simp: live_def upd_proc_def myproc_def fun_eq_iff)

lemma live_fork_files: "live (fold (fork_file p np) fds s) = live s"
  by (induction fds arbitrary: s) (simp_all add: live_def fork_file_running)

lemma alive_fork_finish:
  assumes "fork_finish p np s = Some (r, s')"
  shows "alive_le s s'"
proof -
  define w where "w = upd_proc np (\<lambda>x. x\<lparr>parent := Some p\<rparr>)
    (fold (fork_file p np) [0..<NOFILE] (upd_proc np (\<lambda>x. x\<lparr>psz := psz (procs s p)\<rparr>) s))"
  define v where "v = (case cwd (procs w p) of None \<Rightarrow> w | Some ip \<Rightarrow> upd_proc np (\<lambda>x. x\<lparr>cwd := Some ip\<rparr>) (idup ip w))"
  define path where "path = (if cchar (cwd_path (procs v p)) 0 \<noteq> 0 then cwd_path (procs v p) else [47, 0])"
  define t where "t = upd_proc np (\<lambda>x. x\<lparr>cwd_path := safestrcpy (cwd_path x) path (int MAXPATH)\<rparr>) v"
  have t: "live t = live s" "set_status np TASK_READY t = Some s'"
    using assms unfolding fork_finish_def Let_def w_def [symmetric] v_def [symmetric] path_def [symmetric] t_def [symmetric]
    by (auto simp: t_def v_def w_def live_fork_files live_upd_proc live_view [OF view_disk(2)]
      elim!: bind_eq_SomeE split: option.split)
  show ?thesis using set_status_alive [OF t(2)] alive_live [OF t(1)] by (auto simp: alive_le_def intro: run_le_trans)
qed

lemma alive_fork_copy: "fork_copy p np s = Some (r, s') \<Longrightarrow> alive_le s s'"
  by (auto simp: fork_copy_def Let_def elim!: bind_eq_SomeE split: if_splits
    dest!: frame [THEN live_off] alive_fork_finish intro: alive_live alive_from)

lemma alive_fork:
  assumes "sys_fork s = Some (r, s')" and "fref_inv s Q"
  shows "alive_le s s'"
proof -
  obtain p a t where t: "myproc s = Some p" "allocproc s = Some (a, t)"
    using assms(1) by (auto simp: sys_fork_def elim!: bind_eq_SomeE)
  note k = allocproc_keep [OF t(2) assms(2)]
  have st: "alive_le s t" using alive_vkeep k by blast
  show ?thesis
  proof (cases a)
    case None
    then show ?thesis using assms(1) t st by (simp add: sys_fork_def)
  next
    case (Some np)
    obtain ks u where u: "kalloc t = (ks, u)" by fastforce
    consider x where "set_status np TASK_FREE x = Some s'" "live x = live t"
      | x where "fork_copy p np x = Some (r, s')" "live x = live t"
      using assms(1) t Some u
      by (auto simp: sys_fork_def Let_def live_upd_proc elim!: bind_eq_SomeE split: if_splits dest!: frame [THEN live_off])
    then show ?thesis
    proof cases
      case 1
      have "dead (procs s np)" using k Some by simp
      moreover have "run_le x s'" "q \<noteq> np \<Longrightarrow> dead (procs s' q) \<Longrightarrow> dead (procs x q)" for q
        using set_status_alive [OF 1(1)] by simp_all
      ultimately show ?thesis using alive_le_trans [OF st alive_live [OF 1(2)]] unfolding alive_le_def
        by (metis run_le_trans)
    next
      case 2
      then show ?thesis using alive_from alive_fork_copy alive_le_trans [OF st] by blast
    qed
  qed
qed

lemma live_exit_close [lives]: "exit_close p fd s = Some s' \<Longrightarrow> live s' = live s"
  by (auto simp: exit_close_def elim!: bind_eq_SomeE split: option.splits dest!: lives)

lemma live_exit_closes: "for_each (exit_close p) fds s = Some s' \<Longrightarrow> live s' = live s"
  by (induction fds arbitrary: s) (auto elim!: bind_eq_SomeE dest!: lives)

lemma exit_parks:
  assumes "proc_exit code s = Some s'"
  shows "run_le s s' \<and> parked s'"
proof -
  obtain p t u v where t: "myproc s = Some p" "exit_mark (of_int code) s = Some t"
    "for_each (exit_close p) [0..<NOFILE] t = Some u" "exit_cwd p u = Some v" "exit_tail v = Some s'"
    using assms by (auto simp: proc_exit_def elim!: bind_eq_SomeE)
  have m: "run_le s t \<and> parked t"
    using t(1,2) by (auto simp: exit_mark_def run_le_def parked_def running_def upd_proc_def myproc_def split: if_splits)
  have "live v = live u" using t(4)
    by (auto simp: exit_cwd_def live_upd_proc elim!: bind_eq_SomeE split: option.splits dest!: frame [THEN live_off])
  moreover have "live s' = live v" using t(5)
    by (auto simp: exit_tail_def elim!: bind_eq_SomeE split: option.splits dest!: view [THEN live_view] procs_sched)
  ultimately have "live s' = live t" using live_exit_closes [OF t(3)] by simp
  then show ?thesis using m run_le_live parked_live by blast
qed

section \<open>Calls that leave the processor\<close>

named_theorems parks

lemma sched_parks: "sched s = Some s' \<Longrightarrow> parked s'"
  by (auto simp: sched_def parked_def running_def elim!: bind_eq_SomeE split: if_splits)

lemma park_out [parks]: "sleep_out ch lk s = Some s' \<Longrightarrow> parked s'" "yield_out s = Some s' \<Longrightarrow> parked s'"
  by (auto simp: sleep_out_def yield_out_def Let_def elim!: bind_eq_SomeE split: if_splits dest: sched_parks)

lemma park_pipewrite_loop [parks]: "pipewrite_loop pi bs i s = Some (Blocked c, s') \<Longrightarrow> parked s'"
  by (induction pi bs i s rule: pipewrite_loop.induct)
    (auto simp: Let_def elim!: bind_eq_SomeE split: if_splits dest!: parks)

lemma park_pipewrite [parks]: "pipewrite pi bs s = Some (Blocked c, s') \<Longrightarrow> parked s'"
  "pipewrite_resume p pi bs i s = Some (Blocked c, s') \<Longrightarrow> parked s'"
  by (auto simp: pipewrite_def pipewrite_resume_def elim!: bind_eq_SomeE split: if_splits dest!: parks)

lemma park_piperead_loop [parks]: "piperead_loop pi addr n s = Some (Blocked c, s') \<Longrightarrow> parked s'"
  by (auto simp: piperead_loop_def Let_def elim!: bind_eq_SomeE split: if_splits dest!: parks)

lemma park_piperead [parks]: "piperead pi addr n s = Some (Blocked c, s') \<Longrightarrow> parked s'"
  "piperead_resume p pi addr n s = Some (Blocked c, s') \<Longrightarrow> parked s'"
  by (auto simp: piperead_def piperead_resume_def elim!: bind_eq_SomeE split: if_splits dest!: parks)

lemma park_pipe_read_io [parks]: "pipe_read_io pi addr n m = Some (Blocked c, s') \<Longrightarrow> \<exists>c. m = Some (Blocked c, s')"
  by (cases "(pi, addr, n, m)" rule: pipe_read_io.cases) auto

lemma park_consgetc: "consgetc s = Some (None, s') \<Longrightarrow> parked s'"
  by (auto simp: consgetc_def Let_def elim!: bind_eq_SomeE split: if_splits prod.splits dest!: parks)

lemma park_cons_read [parks]: "cons_read_loop head ua n i s = Some (Blocked c, s') \<Longrightarrow> parked s'"
proof (induction "nat (n - i)" arbitrary: head ua i s rule: less_induct)
  case less
  note e = less.prems [unfolded cons_read_loop.simps [of head ua n i s]]
  show ?case
  proof (cases "i < n")
    case True
    then have d: "nat (n - (i + 1)) < nat (n - i)" by simp
    show ?thesis using e True
      by (auto simp: Let_def elim!: bind_eq_SomeE split: option.splits if_splits dest!: park_consgetc less.hyps [OF d])
  qed (use e in simp)
qed

lemma park_write_chunk [parks]: "write_chunk f buf s = Some (Blocked c, s') \<Longrightarrow> parked s'"
  by (auto simp: write_chunk_def elim!: bind_eq_SomeE split: if_splits dest!: parks)

lemma park_write_loop [parks]: "write_loop f ua tot left s = Some (Blocked c, s') \<Longrightarrow> parked s'"
proof (induction "nat left" arbitrary: ua tot left s rule: less_induct)
  case less
  note e = less.prems [unfolded write_loop.simps [of f ua tot left s]]
  show ?case
  proof (cases "left \<le> 0")
    case False
    have d: "write_next tot left (min left 128) ret = Inr (t', l') \<Longrightarrow> nat l' < nat left" for ret t' l'
      using write_next_less [of tot left "min left 128" ret t' l'] False by simp
    show ?thesis using e False
      by (auto simp: Let_def elim!: bind_eq_SomeE split: option.splits if_splits io.splits sum.splits prod.splits
        dest!: park_write_chunk less.hyps [OF d])
  qed (use e in simp)
qed

lemma park_lift [parks]: "lift_result m = Some (Blocked c, s') \<Longrightarrow> parked s'"
  by (auto simp: lift_result_def elim!: bind_eq_SomeE)

lemma park_calls [parks]:
  "sys_read s = Some (Blocked c, s') \<Longrightarrow> parked s'" "sys_write s = Some (Blocked c, s') \<Longrightarrow> parked s'"
  "cons_read_resume p ua n i s = Some (Blocked c, s') \<Longrightarrow> parked s'"
  "pipe_read_resume p pi addr n s = Some (Blocked c, s') \<Longrightarrow> parked s'"
  "write_resume p f pi bs j ua tot left chunk s = Some (Blocked c, s') \<Longrightarrow> parked s'"
  by (auto simp: sys_read_def sys_write_def cons_read_resume_def pipe_read_resume_def write_resume_def
    elim!: bind_eq_SomeE split: option.splits if_splits io.splits sum.splits dest!: parks)

lemma park_wait_loop [parks]: "wait_loop p addr s = Some (Blocked c, s') \<Longrightarrow> parked s'"
  by (auto simp: wait_loop_def elim!: bind_eq_SomeE split: sum.splits if_splits dest!: parks)

lemma park_wait [parks]: "sys_wait s = Some (Blocked c, s') \<Longrightarrow> parked s'"
  "wait_resume p addr s = Some (Blocked c, s') \<Longrightarrow> parked s'"
  by (auto simp: sys_wait_def wait_resume_def elim!: bind_eq_SomeE dest!: parks)

section \<open>The dispatcher\<close>

lemma syscalls_run:
  assumes "syscalls num = Some h" and "h s = Some (r, s')" and i: "fref_inv s {#}"
  shows "case r of Result _ \<Rightarrow> alive_le s s' | Blocked _ \<Rightarrow> run_le s s' \<and> parked s'"
proof -
  note l = alive_live [OF live_view] alive_live [OF live_off] alive_live alive_vkeep alive_fork [OF _ i]
  note lift = l(1) [OF view_getpid] l(1) [OF view_ioctl] l(1) [OF view_fstat] l(1) [OF view_lseek]
    l(1) [OF view_ftruncate] l(2) [OF off_mkdir] l(1) [OF view_chdir] l(1) [OF view_getcwd] l(2) [OF off_unlink]
    l(2) [OF off_rename] l(1) [OF view_sbrk] l(1) [OF view_exec] l(3) [OF live_close] l(3) [OF live_dup]
    l(3) [OF live_fcntl] l(3) [OF live_dup2] l(3) [OF live_open] l(3) [OF live_pipe] l(5)
  note keep = l(4) [OF keeps_read] l(4) [OF keeps_write] l(4) [OF keeps_wait]
  have b: "run_le s s' \<and> parked s'" if "h \<in> {sys_read, sys_write, sys_wait}" "r = Blocked c" for c
    using that assms(2) keep [THEN alive_run] by (auto dest: parks)
  have e: "run_le s s' \<and> parked s'" if "sys_exit s = Some (r, s')"
    using that exit_parks by (auto simp: sys_exit_def elim!: bind_eq_SomeE)
  have x: "\<exists>c. r = Blocked c" if "sys_exit s = Some (r, s')"
    using that by (auto simp: sys_exit_def elim!: bind_eq_SomeE)
  show ?thesis
  proof (cases "h = sys_exit")
    case True
    then show ?thesis using e x assms(2) by auto
  next
    case False
    then show ?thesis using assms(1,2) b keep unfolding syscalls_def
      by (auto split: if_split_asm io.splits dest!: keeps_lift intro: lift)
  qed
qed

lemma live_return: "live (snd (syscall_return p (r, s))) = live s"
  by (cases r) (auto simp: syscall_return_def)

lemma fst_return: "fst (syscall_return p (r, s)) = r"
  by (cases r) (auto simp: syscall_return_def)

lemma run_to_live:
  assumes "live s' = live t" and "case q of Result _ \<Rightarrow> alive_le s t | Blocked _ \<Rightarrow> run_le s t \<and> parked t"
  shows "case q of Result _ \<Rightarrow> alive_le s s' | Blocked _ \<Rightarrow> run_le s s' \<and> parked s'"
  using assms(2) alive_le_trans [OF _ alive_live [OF assms(1)]] run_le_live [OF _ assms(1)] parked_live [OF assms(1)]
  by (simp split: io.splits)

lemma syscall_run:
  assumes "syscall s = Some (r, s')" and "fref_inv s {#}" and c: "current s p"
  shows "case r of Result _ \<Rightarrow> alive_le s s' | Blocked _ \<Rightarrow> run_le s s' \<and> parked s'"
proof -
  obtain q t where t: "(r, s') = syscall_return p (q, t)" and "(q = Result (-1) \<and> t = s) \<or> (\<exists>num h. syscalls num = Some h \<and> h s = Some (q, t))"
    using assms(1) c by (auto simp: syscall_def Let_def current_def elim!: bind_eq_SomeE split: option.splits if_splits)
      (metis surj_pair)+
  then have "case q of Result _ \<Rightarrow> alive_le s t | Blocked _ \<Rightarrow> run_le s t \<and> parked t"
    using syscalls_run [OF _ _ assms(2)] by (auto intro: alive_live)
  moreover have "q = r" "live s' = live t" using t fst_return [of p q t] live_return [of p q t] by (auto simp: t [symmetric])
  ultimately show ?thesis using run_to_live by blast
qed

lemma resume_run:
  assumes "syscall_resume p c s = Some (r, s')"
  shows "case r of Result _ \<Rightarrow> alive_le s s' | Blocked _ \<Rightarrow> run_le s s' \<and> parked s'"
proof -
  obtain q t where t: "syscall_return p (q, t) = (r, s')" and q: "resume_call p c s = Some (q, t)"
    using assms(1) by (cases "resume_call p c s") (auto simp: syscall_resume_def)
  have a: "alive_le s t"
    using q by (cases c) (auto dest!: keeps_write_resume keeps_read_resume keeps_wait_resume intro: alive_vkeep)
  have "parked t" if "q = Blocked d" for d
    using q that by (cases c) (auto dest: parks)
  then have "case q of Result _ \<Rightarrow> alive_le s t | Blocked _ \<Rightarrow> run_le s t \<and> parked t"
    using a alive_run [OF a] by (simp split: io.split)
  moreover have "q = r" "live s' = live t" using t fst_return [of p q t] live_return [of p q t] by auto
  ultimately show ?thesis using run_to_live by blast
qed

end
