(* ===== verification/System.thy ===== *)
theory System
  imports Trap Run_Inv
begin

text \<open>
  The kernel as a whole: the hart is in the scheduler loop, runs a user program, or is at one of the
  two places of \<open>usertrap\<close> around a system call at which interrupts are enabled; every step
  is one of the program, the scheduler, a trap or a handler, an interrupt, or the
  devices. A timer interrupt before or after a handler may take the hart from the process in the middle of
  \<open>usertrap\<close>; inside a handler there is none, and the disk answers at once (see \<open>Bcache_Async\<close> and
  \<open>filealloc_race\<close> for what that leaves out). The invariant of the reachable states joins what the components promise: the
  reference counts of the open files are exact, and at most one process is \<open>RUNNING\<close>, the one
  the CPU record names, which is alive.
\<close>

section \<open>The steps\<close>

text \<open>What the hart does when it takes a trap: the cause, the interrupted address and the fault
  address go to their registers, interrupts are disabled and the previous setting and mode kept.\<close>

definition take_trap :: "bool \<Rightarrow> u64 \<Rightarrow> u64 \<Rightarrow> u64 \<Rightarrow> 'a tst_scheme \<Rightarrow> 'a tst_scheme" where
  "take_trap from_kernel cause pc tval s =
     (let st = csrv s Sstatus AND NOT (SSTATUS_SPP OR SSTATUS_SPIE);
          st = (if sie s then st OR SSTATUS_SPIE else st);
          st = (if from_kernel then st OR SSTATUS_SPP else st)
      in (w_sstatus (st AND NOT SSTATUS_SIE) s)\<lparr>csrv := (csrv s)(Sstatus := st AND NOT SSTATUS_SIE, Scause := cause, Sepc := pc, Stval := tval)\<rparr>)"

text \<open>
  \<open>HCall p\<close> and \<open>HRet p\<close>: process \<open>p\<close> is in \<open>usertrap\<close> before \<open>syscall()\<close> and behind it. What a process has to do when
  it gets the hart back: go on from where the kernel switched away (\<open>KUser\<close>), or return from the timer interrupt
  that took it at one of these places, with the values of \<open>sepc\<close> and \<open>sstatus\<close> that \<open>sys_trap_handler\<close> has saved.
\<close>

datatype hart = HSched nat | HUser nat regs | HCall nat | HRet nat

datatype kcont = KUser ucont | KCall u64 u64 | KRet u64 u64

type_synonym 'a config = "hart \<times> (nat \<Rightarrow> kcont) \<times> 'a tst_scheme"

text \<open>A process that has just been made is entered at \<open>forkret\<close>, the return address
  \<open>allocproc\<close>'s caller puts into its context.\<close>

definition spawn :: "'a tst_scheme \<Rightarrow> 'a tst_scheme \<Rightarrow> (nat \<Rightarrow> kcont) \<Rightarrow> nat \<Rightarrow> kcont" where
  "spawn s s' k = (\<lambda>j. if status (procs s j) = TASK_FREE \<and> status (procs s' j) = TASK_READY then KUser UFork else k j)"

text \<open>What follows a visit of process \<open>p\<close> to the kernel: \<open>userret\<close> and the program, or, when
  the process has left the processor, the scheduler behind its \<open>swtch\<close>.\<close>

fun settle :: "nat \<Rightarrow> regs \<Rightarrow> 'a tst_scheme \<Rightarrow> (nat \<Rightarrow> kcont) \<Rightarrow> uout \<times> 'a tst_scheme \<Rightarrow> 'a config" where
  "settle p rk s k (ToUser tf satp, s') =
     (case trap_exit tf satp rk s' of (r, u) \<Rightarrow> (HUser p r, spawn s s' k, u))"
| "settle p rk s k (Switched c, s') = (HSched (Suc p), (spawn s s' k)(p := KUser c), scheduler_back p s')"

text \<open>The end of a handler: its process goes on behind \<open>syscall()\<close> or has left the hart.\<close>

fun call_done :: "nat \<Rightarrow> 'a tst_scheme \<Rightarrow> (nat \<Rightarrow> kcont) \<Rightarrow> cont io \<times> 'a tst_scheme \<Rightarrow> 'a config" where
  "call_done p s k (Result v, s') = (HRet p, spawn s s' k, s')"
| "call_done p s k (Blocked c, s') = (HSched (Suc p), (spawn s s' k)(p := KUser (UCall c)), scheduler_back p s')"

text \<open>A page the program may write: valid, for user mode, writable.\<close>

definition user_writable :: "'a tst_scheme \<Rightarrow> nat \<Rightarrow> u64 \<Rightarrow> u64 option" where
  "user_writable s p va =
     (case translate (pmem s) (pagetable (procs s p)) va of
        None \<Rightarrow> None
      | Some e \<Rightarrow> if e AND PTE_U \<noteq> 0 \<and> e AND PTE_W \<noteq> 0 then Some (PTE2PA e + (va AND 0xFFF)) else None)"

text \<open>
  The devices may present any input and any state at any time. An interrupt of the scheduler
  returns to it (\<open>Asm\<close> shows that its registers are kept).
\<close>

inductive sys_step :: "'a config \<Rightarrow> 'a config \<Rightarrow> bool" where
  round: "sys_step (HSched NPROC, k, s) (HSched 0, k, intr_on s)"
| skip: "i < NPROC \<Longrightarrow> scheduler_pick i s = Some (False, s') \<Longrightarrow>
    sys_step (HSched i, k, s) (HSched (Suc i), k, s')"
| switch: "i < NPROC \<Longrightarrow> scheduler_pick i s = Some (True, s1) \<Longrightarrow> k i = KUser u \<Longrightarrow> usertrap_resume i u s1 = Some out \<Longrightarrow>
    sys_step (HSched i, k, s) (settle i rk s1 k out)"
| switch_call: "i < NPROC \<Longrightarrow> scheduler_pick i s = Some (True, s1) \<Longrightarrow> k i = KUser (UCall c) \<Longrightarrow>
    syscall_resume i c s1 = Some out \<Longrightarrow> sys_step (HSched i, k, s) (call_done i s1 k out)"
| switch_before: "i < NPROC \<Longrightarrow> scheduler_pick i s = Some (True, s1) \<Longrightarrow> k i = KCall pc st \<Longrightarrow>
    sys_step (HSched i, k, s) (HCall i, k, (sys_trap_resume i pc st s1)\<lparr>sie := True\<rparr>)"
| switch_behind: "i < NPROC \<Longrightarrow> scheduler_pick i s = Some (True, s1) \<Longrightarrow> k i = KRet pc st \<Longrightarrow>
    sys_step (HSched i, k, s) (HRet i, k, (sys_trap_resume i pc st s1)\<lparr>sie := True\<rparr>)"
| interrupt: "sie s \<Longrightarrow> (\<forall>p r. h \<noteq> HUser p r) \<Longrightarrow> sys_trap_handler (take_trap True cause pc tval s) = Some (Returned, s') \<Longrightarrow>
    sys_step (h, k, s) (h, k, s'\<lparr>sie := True\<rparr>)"
| preempt_before: "sie s \<Longrightarrow> sys_trap_handler (take_trap True cause pc tval s) = Some (Preempted pc' st, s') \<Longrightarrow>
    sys_step (HCall p, k, s) (HSched (Suc p), k(p := KCall pc' st), scheduler_back p s')"
| preempt_behind: "sie s \<Longrightarrow> sys_trap_handler (take_trap True cause pc tval s) = Some (Preempted pc' st, s') \<Longrightarrow>
    sys_step (HRet p, k, s) (HSched (Suc p), k(p := KRet pc' st), scheduler_back p s')"
| user: "sys_step (HUser p r, k, s) (HUser p r', k, s)"
| store: "user_writable s p va = Some a \<Longrightarrow>
    sys_step (HUser p r, k, s) (HUser p r, k, s\<lparr>pmem := (pmem s)(a := b)\<rparr>)"
| trap: "usertrap (trap_entry r (take_trap False cause pc tval s)) = Some out \<Longrightarrow>
    sys_step (HUser p r, k, s) (settle p rk s k out)"
| ecall: "t = trap_entry r (take_trap False 8 pc tval s) \<Longrightarrow> hartid t = 0 \<Longrightarrow>
    ecall_entry (w_csr Stvec (sys_trap_vector t) t) = Some s' \<Longrightarrow> sys_step (HUser p r, k, s) (HCall p, k, s')"
| call: "syscall s = Some out \<Longrightarrow> sys_step (HCall p, k, s) (call_done p s k out)"
| leave: "usertrap_finish s = Some out \<Longrightarrow> sys_step (HRet p, k, s) (settle p rk s k out)"
| device: "sys_step (h, k, s) (h, k, s\<lparr>uart_rx := cs, plic_reg := f, vd := d\<rparr>)"

text \<open>\<open>ecall\<close>, \<open>call\<close> and \<open>leave\<close> are \<open>usertrap\<close> for a system call, cut at the two places.\<close>

lemma usertrap_cut:
  assumes "csrv s Scause = 8" and "hartid s = 0"
  shows "usertrap s = do { s1 \<leftarrow> ecall_entry (w_csr Stvec (sys_trap_vector s) s);
      (r, s2) \<leftarrow> syscall s1;
      (case r of Result v \<Rightarrow> usertrap_finish s2 | Blocked c \<Rightarrow> Some (Switched (UCall c), s2)) }"
  using assms by (auto simp: usertrap_def Let_def syscall_finish_def hartid_def split: Option.bind_split io.split option.split)

inductive_cases sys_stepE: "sys_step x y"

fun sys_ok :: "'a config \<Rightarrow> bool" where
  "sys_ok (h, k, s) \<longleftrightarrow> fref_inv s {#} \<and>
     (case h of
        HSched i \<Rightarrow> myproc s = None \<and> (\<forall>q. \<not> running (procs s q))
      | HUser p r \<Rightarrow> current s p \<and> (\<forall>q. running (procs s q) \<longrightarrow> q = p)
      | HCall p \<Rightarrow> current s p \<and> (\<forall>q. running (procs s q) \<longrightarrow> q = p)
      | HRet p \<Rightarrow> current s p \<and> (\<forall>q. running (procs s q) \<longrightarrow> q = p))"

section \<open>Traps keep the view\<close>

lemma view_tst [simp]:
  "fd_view (s\<lparr>csrv := c\<rparr>) = fd_view s" "fd_view (s\<lparr>hart_tp := t\<rparr>) = fd_view s" "fd_view (s\<lparr>uart_rx := x\<rparr>) = fd_view s"
  "fd_view (s\<lparr>plic_reg := f\<rparr>) = fd_view s" "fd_view (s\<lparr>plic_out := g\<rparr>) = fd_view s" "fd_view (s\<lparr>sie := b\<rparr>) = fd_view s"
  by (simp_all add: fd_view_def myproc_def)

lemma view_vd [simp]: "fd_view (s\<lparr>vd := d\<rparr>) = fd_view s"
  by (simp add: fd_view_def myproc_def)

lemma view_bcache [simp]: "fd_view (s\<lparr>bcache := bc\<rparr>) = fd_view s"
  by (simp add: fd_view_def myproc_def)

lemma view_csr [simp]:
  "fd_view (w_csr c v s) = fd_view s" "fd_view (w_sstatus v s) = fd_view s" "fd_view (clear_ssip s) = fd_view s"
  "fd_view (sys_trap_restore pc st s) = fd_view s" "fd_view (plic_write a w s) = fd_view s"
  "fd_view (take_trap b cause pc tval s) = fd_view s" "fd_view (trap_entry r s) = fd_view s"
  "fd_view (snd (trap_exit tf satp r s)) = fd_view s"
  by (simp_all add: w_csr_def w_sstatus_def clear_ssip_def sys_trap_restore_def plic_write_def take_trap_def
    trap_entry_def trap_exit_def Let_def)

lemma view_upd_vd [simp]: "fd_view (upd_vd f s) = fd_view s"
  by (simp add: upd_vd_def)

lemma view_consoleintr [view]:
  assumes "consoleintr c s = Some s'"
  shows "fd_view s' = fd_view s"
proof -
  have k: "fd_view t' = fd_view t" if "cons_kill i t = Some t'" for i and t t' :: "'a kst_scheme"
    using that by (auto simp: cons_kill_def Let_def dead_def running_def elim!: bind_eq_SomeE dest!: view)
  have "fd_view t' = fd_view t" if "for_each cons_kill is t = Some t'" for "is" and t t' :: "'a kst_scheme"
    using that by (induction "is" arbitrary: t) (auto elim!: bind_eq_SomeE dest!: k)
  moreover have "fd_view (cons_push c t) = fd_view t" for c and t :: "'a kst_scheme"
    by (simp add: cons_push_def fd_view_def myproc_def)
  ultimately show ?thesis using assms
    by (auto simp: consoleintr_def Let_def elim!: bind_eq_SomeE split: if_splits dest!: view)
qed

lemma view_uart_loop [view]: "uart_loop cs s = Some s' \<Longrightarrow> fd_view s' = fd_view s"
  by (induction cs arbitrary: s) (auto elim!: bind_eq_SomeE dest!: view)

lemma view_virtio_complete [view]: "virtio_complete s = Some s' \<Longrightarrow> fd_view s' = fd_view s"
  by (auto simp: virtio_complete_def Let_def elim!: bind_eq_SomeE split: if_splits dest!: view)

lemma view_virtio_intr_loop [view]: "virtio_intr_loop s = Some s' \<Longrightarrow> fd_view s' = fd_view s"
proof (induction s rule: virtio_intr_loop.induct)
  case (1 s)
  note e = "1.prems" [unfolded virtio_intr_loop.simps [of s]]
  show ?case
  proof (cases "used_idx (vd s) = used_dev_idx (vd s)")
    case False
    with e obtain t where t: "virtio_complete s = Some t" "virtio_intr_loop t = Some s'" by (auto split: option.splits)
    from "1.IH" [OF False t] view_virtio_complete [OF t(1)] show ?thesis by simp
  qed (use e in simp)
qed

lemma view_virtio_disk_intr [view]: "virtio_disk_intr s = Some s' \<Longrightarrow> fd_view s' = fd_view s"
  by (auto simp: virtio_disk_intr_def mmio_write_def Let_def elim!: bind_eq_SomeE dest!: view)

lemma view_external_intr [view]: "external_intr s = Some s' \<Longrightarrow> fd_view s' = fd_view s"
  by (auto simp: external_intr_def Let_def elim!: bind_eq_SomeE split: if_splits dest!: view)

section \<open>A visit to the kernel\<close>

definition visit_ok :: "'a tst_scheme \<Rightarrow> uout \<times> 'a tst_scheme \<Rightarrow> bool" where
  "visit_ok s r = (case r of (out, s') \<Rightarrow> fref_inv s' {#} \<and>
     (case out of ToUser tf satp \<Rightarrow> alive_le s s' | Switched c \<Rightarrow> run_le s s' \<and> parked s'))"

lemma visit_from: "alive_le s t \<Longrightarrow> visit_ok t r \<Longrightarrow> visit_ok s r"
  by (auto simp: visit_ok_def split: uout.splits intro: alive_le_trans run_le_trans alive_run)

lemma usertrapret_view:
  assumes "usertrapret s = Some (out, s')"
  shows "fd_view s' = fd_view s" and "\<exists>tf satp. out = ToUser tf satp"
  using assms by (auto simp: usertrapret_def Let_def elim!: bind_eq_SomeE)

lemma finish_ok:
  assumes "usertrap_finish s = Some r" and i: "fref_inv s {#}" and c: "current s p"
  shows "visit_ok s r"
proof (cases "killed (procs s p)")
  case True
  then obtain s' where s': "proc_exit (-1) s = Some s'" "r = (Switched (UCall CExited), s')"
    using assms(1) c by (auto simp: usertrap_finish_def current_def elim!: bind_eq_SomeE)
  show ?thesis using inv_proc_exit [OF s'(1) i c] exit_parks [OF s'(1)] by (simp add: visit_ok_def s'(2))
next
  case False
  then obtain out s' where r: "usertrapret s = Some (out, s')" "r = (out, s')"
    using assms(1) c by (cases r) (auto simp: usertrap_finish_def current_def split: if_splits)
  note v = usertrapret_view [OF r(1)]
  show ?thesis using v(2) inv_view [OF i v(1)] alive_live [OF live_view [OF v(1)]] by (auto simp: visit_ok_def r(2))
qed

lemma call_ok:
  assumes "syscall_finish (Some (r, t)) = Some out" and i: "fref_inv t {#}" and c: "current s p"
    and r: "case r of Result _ \<Rightarrow> alive_le s t | Blocked _ \<Rightarrow> run_le s t \<and> parked t"
  shows "visit_ok s out"
proof (cases r)
  case (Result v)
  then have a: "alive_le s t" and f: "usertrap_finish t = Some out" using r assms(1) by (simp_all add: syscall_finish_def)
  show ?thesis using visit_from [OF a finish_ok [OF f i alive_current [OF a c]]] .
qed (use assms in \<open>auto simp: syscall_finish_def visit_ok_def\<close>)

lemma yield_ok: "yield_out s = Some s' \<Longrightarrow> fref_inv s {#} \<Longrightarrow> visit_ok s (Switched c, s')"
  by (auto simp: visit_ok_def intro: inv_vkeep keeps_yield_out alive_run alive_vkeep park_out)

lemma visit_view: "fd_view t = fd_view s \<Longrightarrow> visit_ok t r \<Longrightarrow> visit_ok s r"
  by (rule visit_from [OF alive_live [OF live_view]])

lemma view_ecall: "ecall_entry s = Some s' \<Longrightarrow> fd_view s' = fd_view s"
  by (auto simp: ecall_entry_def Let_def elim!: bind_eq_SomeE)

lemma usertrap_ok:
  assumes "usertrap s = Some out" and i: "fref_inv s {#}" and c: "current s p"
  shows "visit_ok s out"
proof -
  define t where "t = w_csr Stvec (sys_trap_vector s) s"
  have v: "fd_view t = fd_view s" by (simp add: t_def)
  consider (call) u where "ecall_entry t = Some u" "syscall_finish (syscall u) = Some out"
    | (timer) u where "yield_out (clear_ssip t) = Some u" "out = (Switched UTimer, u)"
    | (device) u where "external_intr t = Some u" "usertrap_finish u = Some out"
    using assms(1) unfolding usertrap_def Let_def t_def [symmetric]
    by (auto elim!: bind_eq_SomeE split: if_split_asm)
  then have "visit_ok t out"
  proof cases
    case call
    note w = view_ecall [OF call(1)]
    have u: "fref_inv u {#}" "current u p" using inv_view [OF i, of u] v w c by (simp_all add: view_slots(4) [of u s])
    obtain r x where r: "syscall u = Some (r, x)" using call(2) by (cases "syscall u") (auto simp: syscall_finish_def)
    have "visit_ok u out"
      by (rule call_ok [OF _ inv_syscall [OF r u] u(2) syscall_run [OF r u]]) (use call(2) r in simp)
    then show ?thesis by (rule visit_view [OF w])
  next
    case timer
    have "fd_view (clear_ssip t) = fd_view s" using v by simp
    then show ?thesis unfolding timer(2) using visit_view [OF view_csr(3)] yield_ok [OF timer(1) inv_view [OF i]] by blast
  next
    case device
    note w = view_external_intr [OF device(1)]
    have u: "fref_inv u {#}" "current u p" using inv_view [OF i, of u] v w c by (simp_all add: view_slots(4) [of u s])
    show ?thesis by (rule visit_view [OF w finish_ok [OF device(2) u]])
  qed
  then show ?thesis by (rule visit_view [OF v])
qed

lemma kernel_resume_ok:
  assumes "usertrap_resume p k s = Some out" and i: "fref_inv s {#}" and c: "current s p"
  shows "visit_ok s out"
proof (cases k)
  case UFork
  then obtain u where u: "u = release (LProc p) s" "usertrapret u = Some out"
    using assms(1) c by (auto simp: forkret_in_def current_def elim!: bind_eq_SomeE)
  obtain ou s' where ou: "out = (ou, s')" by (cases out)
  note v = usertrapret_view [OF u(2) [unfolded ou]]
  have w: "fd_view s' = fd_view s" using v(1) by (simp add: u(1))
  show ?thesis using v(2) inv_view [OF i w] alive_live [OF live_view [OF w]] by (auto simp: visit_ok_def ou)
next
  case UTimer
  have v: "fd_view (yield_in p s) = fd_view s" by (simp add: yield_in_def)
  have "current (yield_in p s) p" using c by (simp add: view_slots(4) [OF v])
  then show ?thesis using visit_view [OF v finish_ok [OF _ inv_view [OF i v]]] assms(1) UTimer by simp
next
  case (UCall d)
  obtain r x where r: "syscall_resume p d s = Some (r, x)"
    using assms(1) UCall by (cases "syscall_resume p d s") (auto simp: syscall_finish_def)
  show ?thesis
    by (rule call_ok [OF _ inv_syscall_resume [OF r i] c resume_run [OF r]]) (use assms(1) UCall r in simp)
qed

section \<open>The invariant\<close>

text \<open>Leaving the hart, and staying in the kernel.\<close>

lemma away_ok:
  assumes v: "visit_ok s (Switched c, s')" and c: "current s p" and only: "\<forall>q. running (procs s q) \<longrightarrow> q = p"
  shows "sys_ok (HSched i, k, scheduler_back p s')"
proof -
  have a: "fref_inv s' {#}" "run_le s s'" "parked s'" using v by (simp_all add: visit_ok_def)
  have n: "\<not> running (procs s' q)" for q
    using a(2,3) c only by (auto simp: run_le_def parked_def current_def)
  have p: "procs (scheduler_back p s') = procs s'" "ftable (scheduler_back p s') = ftable s'" "myproc (scheduler_back p s') = None"
    by (simp_all add: scheduler_back_def set_cproc_def lock_defs Let_def myproc_def)
  have "fref_inv (scheduler_back p s') {#}"
    using a(1) by (simp add: fref_inv_def fref_count_def fd_refs_def dead_closed_def p)
  then show ?thesis using n by (simp add: p)
qed

lemma stay_ok:
  assumes "alive_le s s'" and "current s p" and "\<forall>q. running (procs s q) \<longrightarrow> q = p"
  shows "current s' p" and "\<forall>q. running (procs s' q) \<longrightarrow> q = p"
  using alive_current [OF assms(1,2)] assms(1,3) by (auto simp: alive_le_def run_le_def)

lemma settle_ok:
  assumes v: "visit_ok s (out, s')" and c: "current s p" and only: "\<forall>q. running (procs s q) \<longrightarrow> q = p"
  shows "sys_ok (settle p rk s0 k (out, s'))"
proof (cases out)
  case (ToUser tf satp)
  obtain r u where u: "trap_exit tf satp rk s' = (r, u)" by (cases "trap_exit tf satp rk s'")
  have w: "fd_view u = fd_view s'" using view_csr(8) [of tf satp rk s'] by (simp add: u)
  have a: "fref_inv s' {#}" "alive_le s s'" using v ToUser by (simp_all add: visit_ok_def)
  then show ?thesis using inv_view [OF a(1) w] stay_ok [OF a(2) c only]
    by (simp add: ToUser u view_slots(3,4) [OF w])
next
  case (Switched d)
  then show ?thesis using away_ok [OF _ c only] v by simp
qed

lemma call_done_ok:
  assumes i: "fref_inv s' {#}" and c: "current s p" and only: "\<forall>q. running (procs s q) \<longrightarrow> q = p"
    and r: "case r of Result _ \<Rightarrow> alive_le s s' | Blocked _ \<Rightarrow> run_le s s' \<and> parked s'"
  shows "sys_ok (call_done p s0 k (r, s'))"
proof (cases r)
  case (Result v)
  then show ?thesis using stay_ok [OF _ c only, of s'] i r by simp
next
  case (Blocked d)
  then have "visit_ok s (Switched (UCall d), s')" using i r by (simp add: visit_ok_def)
  then show ?thesis using away_ok [OF _ c only] Blocked by simp
qed

lemma sys_ok_view:
  fixes s s' :: "'a tst_scheme"
  assumes "fd_view s' = fd_view s"
  shows "sys_ok (h, k', s') \<longleftrightarrow> sys_ok (h, k, s)"
proof -
  have "fref_inv s' {#} = fref_inv s {#}" using assms inv_view [of s "{#}" s'] inv_view [of s' "{#}" s] by auto
  then show ?thesis by (simp add: view_slots(3,4) [OF assms] fd_view_myproc [OF assms] split: hart.splits)
qed

lemma pick_ok:
  assumes "scheduler_pick i s = Some (b, s')" and i: "fref_inv s {#}" and n: "\<forall>q. \<not> running (procs s q)" and l: "i < NPROC"
    and m: "myproc s = None"
  shows "if b then fref_inv s' {#} \<and> current s' i \<and> (\<forall>q. running (procs s' q) \<longrightarrow> q = i) else fd_view s' = fd_view s"
proof -
  obtain t where t: "acquire (LProc i) s = Some t"
    "if b then status (procs t i) = TASK_READY \<and> s' = set_cproc (Some i) (upd_proc i (\<lambda>x. x\<lparr>status := TASK_RUNNING\<rparr>) t)
     else s' = release (LProc i) t"
    using assms(1) by (auto simp: scheduler_pick_def elim!: bind_eq_SomeE split: if_splits)
  note v = view_acquire [OF t(1)]
  have i': "fref_inv t {#}" and n': "\<forall>q. \<not> running (procs t q)" using inv_view [OF i v] n by (simp_all add: view_slots(3) [OF v])
  show ?thesis
  proof (cases b)
    case True
    then have s': "status (procs t i) = TASK_READY" "s' = set_cproc (Some i) (upd_proc i (\<lambda>x. x\<lparr>status := TASK_RUNNING\<rparr>) t)"
      using t(2) by simp_all
    have p: "procs s' = (procs t)(i := (procs t i)\<lparr>status := TASK_RUNNING\<rparr>)" "ftable s' = ftable t" "myproc s' = Some i"
      by (simp_all add: s'(2) set_cproc_def upd_proc_def myproc_def)
    have "fd_refs s' f = fd_refs t f" for f by (auto simp: fd_refs_def p split: if_splits)
    then have "fref_inv s' {#}"
      using i' by (auto simp: fref_inv_def fref_count_def dead_closed_def dead_def p)
    then show ?thesis using True n' l by (auto simp: current_def p dead_def running_def)
  next
    case False
    then show ?thesis using t v by simp
  qed
qed

lemma handler_view:
  assumes "sys_trap_handler s = Some (Returned, s')"
  shows "fd_view s' = fd_view s"
  using assms by (auto simp: sys_trap_handler_def Let_def elim!: bind_eq_SomeE split: if_splits option.splits dest!: view)

lemma preempt_ok:
  assumes "sys_trap_handler (take_trap True cause pc tval s) = Some (Preempted pc' st, s')" and i: "fref_inv s {#}"
  shows "visit_ok s (Switched UTimer, s')"
proof -
  let ?t = "take_trap True cause pc tval s"
  have y: "yield_out (clear_ssip ?t) = Some s'"
    using assms(1) by (auto simp: sys_trap_handler_def Let_def elim!: bind_eq_SomeE split: if_splits option.splits)
  have v: "fd_view (clear_ssip ?t) = fd_view s" by simp
  show ?thesis by (rule visit_view [OF v yield_ok [OF y inv_view [OF i v]]])
qed

lemma resume_view: "fd_view ((sys_trap_resume p pc st s)\<lparr>sie := b\<rparr>) = fd_view s"
  by (simp add: sys_trap_resume_def yield_in_def)

lemma sys_step_ok: "sys_step c c' \<Longrightarrow> sys_ok c \<Longrightarrow> sys_ok c'"
proof (induction rule: sys_step.induct)
  case (round k s)
  have "fd_view (intr_on s) = fd_view s" by (simp add: intr_on_def)
  from sys_ok_view [OF this, of "HSched NPROC" k k] round have "sys_ok (HSched NPROC, k, intr_on s)" by blast
  then show ?case by simp
next
  case (skip i s s' k)
  then have "fd_view s' = fd_view s" using pick_ok [of i s False s'] by simp
  from sys_ok_view [OF this, of "HSched i" k k] skip.prems have "sys_ok (HSched i, k, s')" by blast
  then show ?case by simp
next
  case (switch i s s1 k u out rk)
  then have 1: "fref_inv s1 {#}" "current s1 i" "\<forall>q. running (procs s1 q) \<longrightarrow> q = i"
    using pick_ok [of i s True s1] by simp_all
  then show ?case using settle_ok kernel_resume_ok [OF switch(4) 1(1,2)] by (cases out) blast
next
  case (switch_call i s s1 k c out)
  then have 1: "fref_inv s1 {#}" "current s1 i" "\<forall>q. running (procs s1 q) \<longrightarrow> q = i"
    using pick_ok [of i s True s1] by simp_all
  obtain r x where r: "out = (r, x)" by (cases out)
  note d = switch_call(4) [unfolded r]
  show ?case unfolding r by (rule call_done_ok [OF inv_syscall_resume [OF d 1(1)] 1(2,3) resume_run [OF d]])
next
  case (switch_before i s s1 k pc st)
  then have "sys_ok (HCall i, k, s1)" using pick_ok [of i s True s1] by simp
  then show ?case using sys_ok_view [OF resume_view] by blast
next
  case (switch_behind i s s1 k pc st)
  then have "sys_ok (HRet i, k, s1)" using pick_ok [of i s True s1] by simp
  then show ?case using sys_ok_view [OF resume_view] by blast
next
  case (interrupt s h cause pc tval s' k)
  have "fd_view (s'\<lparr>sie := True\<rparr>) = fd_view s" using handler_view [OF interrupt(3)] by simp
  then show ?case using interrupt.prems sys_ok_view by blast
next
  case (preempt_before s cause pc tval pc' st s' p k)
  have "visit_ok s (Switched UTimer, s')" by (rule preempt_ok [OF preempt_before(2)]) (use preempt_before.prems in simp)
  then show ?case by (rule away_ok) (use preempt_before.prems in simp_all)
next
  case (preempt_behind s cause pc tval pc' st s' p k)
  have "visit_ok s (Switched UTimer, s')" by (rule preempt_ok [OF preempt_behind(2)]) (use preempt_behind.prems in simp)
  then show ?case by (rule away_ok) (use preempt_behind.prems in simp_all)
next
  case (ecall t r pc tval s s' p k)
  have "fd_view s' = fd_view s" using view_ecall [OF ecall(3)] by (simp add: ecall(1))
  moreover have "sys_ok (HCall p, k, s)" using ecall.prems by simp
  ultimately show ?case using sys_ok_view by blast
next
  case (call s out p k)
  then have 1: "fref_inv s {#}" "current s p" "\<forall>q. running (procs s q) \<longrightarrow> q = p" by simp_all
  obtain r x where r: "out = (r, x)" by (cases out)
  note d = call(1) [unfolded r]
  show ?case unfolding r by (rule call_done_ok [OF inv_syscall [OF d 1(1,2)] 1(2,3) syscall_run [OF d 1(1,2)]])
next
  case (leave s out p k rk)
  then have 1: "fref_inv s {#}" "current s p" "\<forall>q. running (procs s q) \<longrightarrow> q = p" by simp_all
  then show ?case using settle_ok finish_ok [OF leave(1) 1(1,2)] by (cases out) blast
next
  case (trap r cause pc tval s out p rk k)
  let ?t = "trap_entry r (take_trap False cause pc tval s)"
  have v: "fd_view ?t = fd_view s" by simp
  have t: "fref_inv ?t {#}" "current ?t p" "\<forall>q. running (procs ?t q) \<longrightarrow> q = p"
    using trap.prems inv_view [OF _ v] by (simp_all add: view_slots(3,4) [OF v])
  then show ?case using settle_ok usertrap_ok [OF trap(1) t(1,2)] by (cases out) blast
next
  case (store s p va a r k b)
  have "fd_view (s\<lparr>pmem := (pmem s)(a := b)\<rparr>) = fd_view s" by simp
  then show ?case using store.prems sys_ok_view by blast
next
  case (device h k s d f cs)
  have "fd_view (s\<lparr>uart_rx := cs, plic_reg := f, vd := d\<rparr>) = fd_view s" by simp
  then show ?case using device.prems sys_ok_view by blast
qed simp

lemma sys_reach_ok: "sys_step\<^sup>*\<^sup>* c c' \<Longrightarrow> sys_ok c \<Longrightarrow> sys_ok c'"
  by (induction rule: rtranclp_induct) (auto intro: sys_step_ok)

section \<open>An interrupt inside a handler\<close>

text \<open>
  \<open>filealloc\<close> finds a file object with \<open>ref\<close> 0 and then sets \<open>ref\<close> to 1, without a lock. When the timer takes the
  hart from a process between the two, another process is given the same object: both descriptors name it,
  \<open>ref\<close> is 1, and the counts are wrong.
\<close>

definition filealloc_test :: "'a kst_scheme \<Rightarrow> nat option" where
  "filealloc_test s = List.find (\<lambda>f. f_ref (ftable s f) = 0) [0..<NFILE]"

definition filealloc_take :: "nat \<Rightarrow> 'a kst_scheme \<Rightarrow> 'a kst_scheme" where
  "filealloc_take f s = upd_file f (\<lambda>x. x\<lparr>f_ref := 1\<rparr>) s"

lemma filealloc_halves:
  "filealloc s = (case filealloc_test s of None \<Rightarrow> (None, s) | Some f \<Rightarrow> (Some f, filealloc_take f s))"
  by (simp add: filealloc_def filealloc_test_def filealloc_take_def split: option.split)

theorem filealloc_race:
  assumes "filealloc_test s = Some f" and "filealloc s = (Some g, s1)" and "p \<noteq> q" and "p < NPROC" and "q < NPROC"
    and "a < NOFILE" and "b < NOFILE" and "s2 = set_ofile p a (Some f) (filealloc_take f (set_ofile q b (Some g) s1))"
  shows "g = f \<and> ofile (procs s2 p) a = Some f \<and> ofile (procs s2 q) b = Some f \<and> f_ref (ftable s2 f) = 1 \<and> \<not> fref_inv s2 {#}"
proof -
  have g: "g = f" "s1 = filealloc_take f s" using assms(1,2) by (auto simp: filealloc_halves)
  have o: "ofile (procs s2 p) a = Some f" "ofile (procs s2 q) b = Some f"
    using assms(3) by (simp_all add: assms(8) g(1) set_ofile_def upd_proc_def filealloc_take_def upd_file_def)
  have r: "f_ref (ftable s2 f) = 1" by (simp add: assms(8) set_ofile_def upd_proc_def filealloc_take_def upd_file_def)
  have f: "f < NFILE" using assms(1) find_SomeD by (fastforce simp: filealloc_test_def)
  have "\<not> fref_inv s2 {#}"
  proof
    assume "fref_inv s2 {#}"
    then have "int (card (fd_refs s2 f)) = 1" using f r by (simp add: fref_inv_def fref_count_def)
    moreover have "{(p, a), (q, b)} \<subseteq> fd_refs s2 f" using o assms(4-7) by (simp add: fd_refs_def)
    then have "card {(p, a), (q, b)} \<le> card (fd_refs s2 f)"
      by (rule card_mono [rotated]) (rule finite_subset [of _ "{0..<NPROC} \<times> {0..<NOFILE}"], auto simp: fd_refs_def)
    ultimately show False using assms(3) by simp
  qed
  then show ?thesis using g o r by simp
qed

section \<open>Properties\<close>

text \<open>
  Property C1 (invariant). In every state the kernel reaches, by the steps of \<open>sys_step\<close>, from a scheduler with no process on
  the hart and exact reference counts (as boot leaves it), whatever the programs execute
  and store, whichever system calls they make and traps they take, wherever the timer takes the hart from a program or
  from \<open>usertrap\<close> before or behind a handler, and whatever the devices do:
  a process that is \<open>RUNNING\<close> is the one the CPU record names, so there is at most one, and it is
  alive; while the scheduler runs there is none; \<open>ref\<close> of every file object is the number of
  descriptors of all processes that name it, and a process that is free or a zombie has none. A handler is one step up to where it
  sleeps: interrupts inside handlers and waiting for the disk are not steps (\<open>filealloc\<close> takes no lock, and a
  timer interrupt inside it does break the counts), and a panic is the end of a run.
\<close>

theorem system_invariant:
  assumes "sys_step\<^sup>*\<^sup>* (HSched 0, k0, s0) (h, k, s)"
    and "myproc s0 = None" and "\<forall>q. status (procs s0 q) \<noteq> TASK_RUNNING" and "fref_inv s0 {#}"
  shows "(\<forall>q. status (procs s q) = TASK_RUNNING \<longrightarrow> myproc s = Some q \<and> ((\<exists>r. h = HUser q r) \<or> h = HCall q \<or> h = HRet q)) \<and>
    (\<forall>p. myproc s = Some p \<longrightarrow> p < NPROC \<and> status (procs s p) \<noteq> TASK_FREE \<and> status (procs s p) \<noteq> TASK_ZOMBIE) \<and>
    (\<forall>f < NFILE. f_ref (ftable s f) = int (card {(p, fd). p < NPROC \<and> fd < NOFILE \<and> ofile (procs s p) fd = Some f})) \<and>
    (\<forall>p < NPROC. status (procs s p) \<in> {TASK_FREE, TASK_ZOMBIE} \<longrightarrow> (\<forall>fd < NOFILE. ofile (procs s p) fd = None))"
proof -
  have "sys_ok (HSched 0, k0, s0)" using assms(2-4) by (simp add: running_def)
  from sys_reach_ok [OF assms(1) this] show ?thesis
    by (cases h) (auto simp: running_def current_def dead_def fref_inv_def fref_count_def fd_refs_def dead_closed_def)
qed

text \<open>Process 0 is ready, with the console as its descriptor 0.\<close>

definition tiny_sys :: tst where
  "tiny_sys = (tiny_trap 0)\<lparr>procs := (\<lambda>_. zero_proc)(0 := zero_proc\<lparr>status := TASK_READY, pid := 1,
       trapframe := 0x80005000, pagetable := 0x80006000, ofile := (\<lambda>_. None)(0 := Some 0)\<rparr>),
     cpu := (cpu (tiny_trap 0))\<lparr>cproc := None\<rparr>,
     ftable := (\<lambda>f. \<lparr>f_type = if f = 0 then FD_CONSOLE else 0, f_ref = if f = 0 then 1 else 0, f_readable = True,
       f_writable = True, f_pipe = 0, f_ip = None, f_off = 0\<rparr>)\<rparr>"

lemma tiny_sys:
  "myproc tiny_sys = None" "status (procs tiny_sys q) \<noteq> TASK_RUNNING" "status (procs tiny_sys 0) = TASK_READY"
  "\<not> locked (locks tiny_sys l)" "fref_inv tiny_sys {#}"
proof -
  show "myproc tiny_sys = None" "status (procs tiny_sys q) \<noteq> TASK_RUNNING" "status (procs tiny_sys 0) = TASK_READY"
    "\<not> locked (locks tiny_sys l)"
    using tiny_trap(5) [of 0 l] by (auto simp: tiny_sys_def myproc_def zero_proc_def)
  have "fd_refs tiny_sys f = (if f = 0 then {(0, 0)} else {})" for f
    by (auto simp: fd_refs_def tiny_sys_def zero_proc_def NPROC_def NOFILE_def split: if_splits)
  then show "fref_inv tiny_sys {#}"
    by (auto simp: fref_inv_def fref_count_def dead_closed_def tiny_sys_def zero_proc_def NFILE_def dead_def split: if_splits)
qed

lemma tiny_sys_runs: "\<exists>r s. sys_step\<^sup>*\<^sup>* (HSched 0, \<lambda>_. KUser UFork, tiny_sys) (HUser 0 r, \<lambda>_. KUser UFork, s)"
proof -
  obtain t where t: "acquire (LProc 0) tiny_sys = Some t"
    using tiny_sys(4) [of "LProc 0"] by (auto simp: lock_defs Let_def)
  define s1 where "s1 = set_cproc (Some 0) (upd_proc 0 (\<lambda>x. x\<lparr>status := TASK_RUNNING\<rparr>) t)"
  have p: "scheduler_pick 0 tiny_sys = Some (True, s1)"
    using t tiny_sys(3) procs_lock(2) [OF t] by (simp add: scheduler_pick_def s1_def)
  have m: "myproc s1 = Some 0" by (simp add: s1_def set_cproc_def myproc_def)
  have "myproc (release (LProc 0) s1) = Some 0" using fd_view_myproc [OF view_release] m by metis
  then obtain tf satp s2 where u: "usertrap_resume 0 UFork s1 = Some (ToUser tf satp, s2)"
    using m by (auto simp: forkret_in_def usertrapret_def Let_def)
  have "status (procs s1 0) = TASK_RUNNING" by (simp add: s1_def set_cproc_def)
  have "spawn s1 s2 (\<lambda>_. KUser UFork) = (\<lambda>_. KUser UFork)" by (simp add: spawn_def fun_eq_iff)
  moreover have "sys_step (HSched 0, \<lambda>_. KUser UFork, tiny_sys) (settle 0 tiny_regs s1 (\<lambda>_. KUser UFork) (ToUser tf satp, s2))"
    by (rule sys_step.switch [OF _ p refl u]) (simp add: NPROC_def)
  ultimately show ?thesis by (auto split: prod.splits)
qed

theorem system_invariant_witness:
  "\<exists>r s. sys_step\<^sup>*\<^sup>* (HSched 0, \<lambda>_. KUser UFork, tiny_sys) (HUser 0 r, \<lambda>_. KUser UFork, s) \<and>
     (\<forall>q. status (procs s q) = TASK_RUNNING \<longrightarrow> q = 0) \<and>
     f_ref (ftable s 0) = int (card {(p, fd). p < NPROC \<and> fd < NOFILE \<and> ofile (procs s p) fd = Some 0})"
proof -
  obtain r s where r: "sys_step\<^sup>*\<^sup>* (HSched 0, \<lambda>_. KUser UFork, tiny_sys) (HUser 0 r, \<lambda>_. KUser UFork, s)"
    using tiny_sys_runs by blast
  have "(\<forall>q. status (procs s q) = TASK_RUNNING \<longrightarrow> q = 0)"
    "f_ref (ftable s 0) = int (card {(p, fd). p < NPROC \<and> fd < NOFILE \<and> ofile (procs s p) fd = Some 0})"
    using system_invariant [OF r tiny_sys(1) _ tiny_sys(5)] tiny_sys(2) by (auto simp: NFILE_def)
  then show ?thesis using r by blast
qed

end
