(* ===== verification/Boot_Inv.thy ===== *)
theory Boot_Inv
  imports Init_Process System
begin

text \<open>
  From power-on to the first instruction of the first program: boot maps the kernel, reads a
  superblock, builds process 0 and leaves a state from which the scheduler enters the program that
  the linker has placed in the kernel image.
\<close>

section \<open>The kernel before process 0\<close>

lemma blk_rest_bst:
  fixes s s' :: "'a bst_scheme"
  assumes "blk_rest s' = blk_rest s"
  shows "pmem s' = pmem s" "free_mem_list s' = free_mem_list s" "end_address s' = end_address s" "etext s' = etext s"
    "userret s' = userret s" "uservec s' = uservec s" "kernel_pagetable s' = kernel_pagetable s" "procs s' = procs s"
    "cpu s' = cpu s" "locks s' = locks s" "nextpid s' = nextpid s" "ftable s' = ftable s" "icache s' = icache s"
    "csrv s' = csrv s" "initcode_start s' = initcode_start s" "initcode_size s' = initcode_size s"
    "sys_trap_vector s' = sys_trap_vector s" "usertrap_addr s' = usertrap_addr s"
proof -
  show "pmem s' = pmem s" "free_mem_list s' = free_mem_list s" "end_address s' = end_address s" "etext s' = etext s"
    "userret s' = userret s" "uservec s' = uservec s" "kernel_pagetable s' = kernel_pagetable s" "procs s' = procs s"
    "cpu s' = cpu s" "locks s' = locks s" "nextpid s' = nextpid s"
    using assms [THEN arg_cong, of pmem] assms [THEN arg_cong, of free_mem_list] assms [THEN arg_cong, of end_address]
      assms [THEN arg_cong, of etext] assms [THEN arg_cong, of userret] assms [THEN arg_cong, of uservec]
      assms [THEN arg_cong, of kernel_pagetable] assms [THEN arg_cong, of procs] assms [THEN arg_cong, of cpu]
      assms [THEN arg_cong, of locks] assms [THEN arg_cong, of nextpid]
    by (simp_all add: blk_rest_def)
  have "blk_st.more s' = blk_st.more s" using assms [THEN arg_cong, of blk_st.more] by (simp add: blk_rest_def)
  then show "ftable s' = ftable s" "icache s' = icache s"
    "csrv s' = csrv s" "initcode_start s' = initcode_start s" "initcode_size s' = initcode_size s"
    "sys_trap_vector s' = sys_trap_vector s" "usertrap_addr s' = usertrap_addr s" by (cases s; cases s'; simp)+
qed

text \<open>What of the state later stages of boot look at.\<close>

definition same_kernel :: "'a bst_scheme \<Rightarrow> 'a bst_scheme \<Rightarrow> bool" where
  "same_kernel s s' \<longleftrightarrow> pmem s' = pmem s \<and> free_mem_list s' = free_mem_list s \<and> end_address s' = end_address s \<and>
     userret s' = userret s \<and> uservec s' = uservec s \<and> kernel_pagetable s' = kernel_pagetable s \<and> procs s' = procs s \<and>
     cpu s' = cpu s \<and> (\<forall>lk. locked (locks s' lk) \<longrightarrow> locked (locks s lk)) \<and> nextpid s' = nextpid s \<and> ftable s' = ftable s \<and>
     initcode_start s' = initcode_start s \<and> initcode_size s' = initcode_size s"

lemma same_kernel_trans: "same_kernel s t \<Longrightarrow> same_kernel t u \<Longrightarrow> same_kernel s u"
  by (simp add: same_kernel_def)

lemma disk_init_ok:
  fixes s :: "'a bst_scheme"
  assumes "mmio_in (vd s) 0 = 0x74726976" "mmio_in (vd s) 4 = 1" "mmio_in (vd s) 8 = 2" "mmio_in (vd s) 12 = 0x554d4551"
    and "8 \<le> mmio_in (vd s) 0x34"
  obtains t where "virtio_disk_init s = Some t" and "same_kernel s t" and "disk_blocks t = disk_blocks s" and "bcache t = bcache s"
proof -
  have n: "\<not> mmio_in (vd s) 0x34 < 8" "mmio_in (vd s) 0x34 \<noteq> 0" using assms(5) by auto
  have "virtio_disk_init s \<noteq> None"
    using assms n by (simp add: virtio_disk_init_def Let_def kdefs initlock_def)
  then obtain t where t: "virtio_disk_init s = Some t" by auto
  have f: "same_kernel u (upd_vd f u)" "disk_blocks (upd_vd f u) = disk_blocks u" "bcache (upd_vd f u) = bcache u" for f and u :: "'a bst_scheme"
    by (simp_all add: same_kernel_def upd_vd_def)
  have l: "same_kernel s (initlock LDisk s)" by (simp add: same_kernel_def initlock_def)
  have "\<exists>d. t = (initlock LDisk s)\<lparr>vd := d\<rparr>"
    using t by (auto simp: virtio_disk_init_def Let_def mmio_write_def upd_vd_def split: if_splits)
  then show ?thesis using that [OF t] l by (auto simp: same_kernel_def initlock_def)
qed

lemma fsinit_ok:
  fixes s :: "'a bst_scheme"
  assumes "cache_boot s" and "magic (decode_superblock (disk_blocks s 1)) = FSMAGIC"
  obtains t where "fsinit ROOTDEV s = Some t" and "same_kernel s t" and "\<forall>i < NINODE. i_ref (icache t i) = 0"
proof -
  have b: "bc_inv (binit s) {#}" by (rule binit_inv [OF assms(1)])
  obtain bp s1 where r: "bread (binit s) ROOTDEV 1 = Some (bp, s1)" "bc_inv s1 (add_mset bp {#})" "disk_blocks s1 = disk_blocks (binit s)"
    "blk_rest s1 = blk_rest (binit s)" "b_blockno (bcache s1 bp) = 1"
    using bread_ok [OF b, of 1] by (auto simp: NBUF_def)
  have d: "bdata s1 bp = disk_blocks s 1" using bc.held [OF r(2), of bp] r(3,5) by (simp add: binit_def)
  define s2 where "s2 = s1\<lparr>sb := decode_superblock (disk_blocks s 1)\<rparr>"
  define t where "t = (brelse bp s2)\<lparr>icache := (\<lambda>i. if i < NINODE then (icache (brelse bp s2) i)\<lparr>i_ref := 0, i_valid := False\<rparr>
     else icache (brelse bp s2) i)\<rparr>"
  have "bc_inv s2 (add_mset bp {#})" using r(2) by (simp add: s2_def bc_inv_def)
  note br = brelse_ok [OF this, of bp, simplified]
  have e: "s1\<lparr>sb := decode_superblock (bdata s1 bp)\<rparr> = s2" by (simp only: s2_def d)
  have m: "magic (sb (brelse bp s2)) = FSMAGIC" using blk_rest_sb [OF br(3)] assms(2) by (simp add: s2_def)
  have f: "fsinit ROOTDEV s = Some t" using r(1) by (simp add: fsinit_def Let_def e m t_def cong: if_cong)
  have "same_kernel (binit s) s1" using blk_rest_bst [OF r(4)] by (simp add: same_kernel_def)
  moreover have "same_kernel s1 s2" by (simp add: same_kernel_def s2_def)
  moreover have "same_kernel s2 (brelse bp s2)" using blk_rest_bst [OF br(3)] by (simp add: same_kernel_def)
  moreover have "same_kernel (brelse bp s2) t" by (simp add: same_kernel_def t_def)
  moreover have "same_kernel s (binit s)" by (simp add: same_kernel_def binit_def)
  ultimately have "same_kernel s t" using same_kernel_trans by blast
  then show ?thesis by (rule that [OF f]) (simp add: t_def)
qed

text \<open>The machine as it is switched on: static data is zero (\<open>nextpid\<close> is 1), a VirtIO disk with a
  superblock is there, and the image leaves enough memory for the page tables and the program.\<close>

definition init_pages :: "'a bst_scheme \<Rightarrow> nat" where
  "init_pages s = unat (PGROUNDUP (initcode_size s)) div 4096"

definition power_on :: "'a bst_scheme \<Rightarrow> bool" where
  "power_on s \<longleftrightarrow> boot_state s \<and> cache_boot s \<and> quiet s \<and> nextpid s = 1 \<and> csrv s Mhartid = 0 \<and>
     (\<forall>i. status (procs s i) = TASK_FREE \<and> ofile (procs s i) = (\<lambda>_. None)) \<and> (\<forall>f < NFILE. f_ref (ftable s f) = 0) \<and>
     mmio_in (vd s) 0 = 0x74726976 \<and> mmio_in (vd s) 4 = 1 \<and> mmio_in (vd s) 8 = 2 \<and> mmio_in (vd s) 12 = 0x554d4551 \<and>
     8 \<le> mmio_in (vd s) 0x34 \<and> magic (decode_superblock (disk_blocks s 1)) = FSMAGIC \<and>
     etext s \<le> PHYSTOP \<and> KERNBASE < PGROUNDUP (etext s) \<and> PGROUNDUP (etext s) < PHYSTOP \<and>
     KERNBASE \<le> userret s \<and> userret s < end_address s \<and> KERNBASE \<le> uservec s \<and> uservec s < end_address s \<and>
     KERNBASE \<le> initcode_start s \<and> 0 < initcode_size s \<and> unat (initcode_start s) + unat (initcode_size s) \<le> unat (end_address s) \<and>
     unat (PGROUNDUP (end_address s)) + 4096 * (3 * init_pages s + 300) \<le> unat PHYSTOP"

lemma start_fields [simp]:
  "boot_state (start s) = boot_state s" "cache_boot (start s) = cache_boot s" "quiet (start s) = quiet s" "nextpid (start s) = nextpid s"
  "procs (start s) = procs s" "ftable (start s) = ftable s" "vd (start s) = vd s" "disk_blocks (start s) = disk_blocks s"
  "etext (start s) = etext s" "userret (start s) = userret s" "uservec (start s) = uservec s" "end_address (start s) = end_address s"
  "initcode_start (start s) = initcode_start s" "initcode_size (start s) = initcode_size s" "init_pages (start s) = init_pages s"
  by (simp_all add: start_def timerinit_def w_csr_def Let_def boot_state_def cache_boot_def quiet_def init_pages_def)

lemma init_pages_props:
  assumes "power_on s"
  shows "unat (PGROUNDUP (initcode_size s)) = 4096 * init_pages s" and "0 < init_pages s" and "init_pages s < 2 ^ 16"
    and "unat (initcode_size s) \<le> 4096 * init_pages s"
proof -
  have b: "unat (initcode_size s) \<le> 0x8000000" and nz: "0 < initcode_size s"
    using assms by (auto simp: power_on_def boot_state_def word_le_nat_alt kdefs)
  then have le: "initcode_size s \<le> PHYSTOP" "initcode_size s \<le> 0x8000000" by (simp_all add: word_le_nat_alt kdefs)
  note r = PGROUNDUP_props [OF le(1)]
  have "PGROUNDUP (initcode_size s) \<le> 0x8000000" by (rule PGROUNDUP_least [OF le(1) _ le(2)]) (simp add: aligned_def)
  then have u: "unat (PGROUNDUP (initcode_size s)) \<le> 0x8000000" by (simp add: word_le_nat_alt)
  show 1: "unat (PGROUNDUP (initcode_size s)) = 4096 * init_pages s" using r(1) by (simp add: init_pages_def aligned_def)
  show 2: "unat (initcode_size s) \<le> 4096 * init_pages s" using r(2) 1 by (simp add: word_le_nat_alt)
  then show "0 < init_pages s" using nz by (auto simp: word_less_nat_alt)
  show "init_pages s < 2 ^ 16" using u 1 by simp
qed

lemma procinit_ok:
  fixes s :: "'a bst_scheme"
  assumes "\<forall>i. status (procs s i) = TASK_FREE"
  shows "same_kernel s (procinit s)" and "bcache (procinit s) = bcache s" and "disk_blocks (procinit s) = disk_blocks s"
    and "vd (procinit s) = vd s"
proof -
  have "same_kernel s (fold (\<lambda>i s. initlock (LProc i) (upd_proc i (\<lambda>p. p\<lparr>status := TASK_FREE\<rparr>) s)) is s) \<and>
      bcache (fold (\<lambda>i s. initlock (LProc i) (upd_proc i (\<lambda>p. p\<lparr>status := TASK_FREE\<rparr>) s)) is s) = bcache s \<and>
      disk_blocks (fold (\<lambda>i s. initlock (LProc i) (upd_proc i (\<lambda>p. p\<lparr>status := TASK_FREE\<rparr>) s)) is s) = disk_blocks s \<and>
      vd (fold (\<lambda>i s. initlock (LProc i) (upd_proc i (\<lambda>p. p\<lparr>status := TASK_FREE\<rparr>) s)) is s) = vd s" for "is"
    using assms
  proof (induction "is" arbitrary: s)
    case (Cons i "is")
    define t where "t = initlock (LProc i) (upd_proc i (\<lambda>p. p\<lparr>status := TASK_FREE\<rparr>) s)"
    have x: "x\<lparr>status := TASK_FREE\<rparr> = x" if "status x = TASK_FREE" for x using that by (cases x) simp
    have "(procs s)(i := (procs s i)\<lparr>status := TASK_FREE\<rparr>) = procs s" using x Cons.prems by (simp add: fun_eq_iff)
    then have t: "same_kernel s t" "bcache t = bcache s" "disk_blocks t = disk_blocks s" "vd t = vd s"
      by (simp_all add: t_def same_kernel_def initlock_def upd_proc_def)
    then have "\<forall>i. status (procs t i) = TASK_FREE" using Cons.prems by (simp add: same_kernel_def)
    from Cons.IH [OF this] t show ?case by (auto simp: t_def [symmetric] intro: same_kernel_trans)
  qed (simp add: same_kernel_def)
  from this [of "[0..<NPROC]"] show "same_kernel s (procinit s)" "bcache (procinit s) = bcache s"
    "disk_blocks (procinit s) = disk_blocks s" "vd (procinit s) = vd s" by (simp_all add: procinit_def)
qed

lemma hart_init:
  fixes s :: "'a bst_scheme"
  shows "same_kernel s (intr_on (trapinithart (kvminithart s)))" and "bcache (intr_on (trapinithart (kvminithart s))) = bcache s"
    and "disk_blocks (intr_on (trapinithart (kvminithart s))) = disk_blocks s" and "vd (intr_on (trapinithart (kvminithart s))) = vd s"
proof -
  have p: "same_kernel u (plic_write a v u)" "bcache (plic_write a v u) = bcache u" "disk_blocks (plic_write a v u) = disk_blocks u"
    "vd (plic_write a v u) = vd u" for a v and u :: "'a bst_scheme" by (simp_all add: plic_write_def same_kernel_def)
  show "bcache (intr_on (trapinithart (kvminithart s))) = bcache s" "disk_blocks (intr_on (trapinithart (kvminithart s))) = disk_blocks s"
    "vd (intr_on (trapinithart (kvminithart s))) = vd s"
    by (simp_all add: intr_on_def trapinithart_def plicinithart_def plicinit_def kvminithart_def w_csr_def p Let_def)
  have "same_kernel s (w_csr c v s)" for c v by (simp add: same_kernel_def w_csr_def)
  then show "same_kernel s (intr_on (trapinithart (kvminithart s)))"
    by (simp add: same_kernel_def intr_on_def trapinithart_def plicinithart_def plicinit_def plic_write_def kvminithart_def w_csr_def Let_def)
qed

lemma start_main_ready:
  fixes s :: "'a bst_scheme"
  assumes "power_on s" and n: "n = init_pages s"
  obtains t q ys where "init_ready t ys n" and "start_main (start s) = userinit t"
    and "\<forall>x < end_address s. pmem t x = pmem (start s) x" and "pt_ok (pmem t) q ys" and "kernel_pagetable t = q"
    and "\<forall>v < MAXVA. translate (pmem t) q v = kernel_map (PGROUNDUP (etext s)) v"
    and "userret t = userret s" and "uservec t = uservec s" and "initcode_start t = initcode_start s" and "initcode_size t = initcode_size s"
    and "ftable t = ftable s"
proof -
  note P = assms(1) [unfolded power_on_def]
  note np = init_pages_props [OF assms(1)]
  have "boot_state (start s)" using P by simp
  then obtain s1 where 1: "kinit (start s) = Some s1" "free_pages s1 (rev (boot_pages (PGROUNDUP (end_address s))))"
    using kinit_ok [of "start s"] by auto
  obtain m1 f1 where mf1: "s1 = (start s)\<lparr>pmem := m1, free_mem_list := f1\<rparr>" "\<forall>x < end_address s. m1 x = pmem (start s) x"
    using kinit_frame [OF 1(1)] by auto
  have "unat (PGROUNDUP (end_address s)) + 4096 * (3 * n + 300) \<le> unat PHYSTOP" using P n by blast
  then have "(3 * n + 300) * 4096 \<le> unat PHYSTOP - unat (PGROUNDUP (end_address s))" by linarith
  then have "length (boot_pages (PGROUNDUP (end_address s))) \<ge> 3 * n + 300"
    by (simp add: boot_pages_def less_eq_div_iff_mult_less_eq)
  then obtain q xs where xs: "rev (boot_pages (PGROUNDUP (end_address s))) = q # xs" "3 * n + 299 \<le> length xs"
    by (cases "rev (boot_pages (PGROUNDUP (end_address s)))") (auto dest: arg_cong [of _ _ length])
  have fp: "free_pages s1 (q # xs)" using 1(2) xs by simp
  have te: "aligned 4096 (PGROUNDUP (etext s))" using P PGROUNDUP_props by auto
  obtain s2 ys where 2: "kvmininit s1 = Some s2" "kernel_pagetable s2 = q"
    "\<forall>v < MAXVA. translate (pmem s2) q v = kernel_map (PGROUNDUP (etext s)) v" "pt_ok (pmem s2) q ys" "free_pages s2 ys"
    "length xs \<le> length ys + 264" "\<exists>m f. s2 = s1\<lparr>pmem := m, free_mem_list := f, kernel_pagetable := q\<rparr>"
    "\<forall>x. (\<forall>p \<in> set (q # xs). \<not> in_page p x) \<longrightarrow> pmem s2 x = pmem s1 x"
    using kvmininit_ok [OF fp _ te] xs(2) P by (auto simp: mf1)
  obtain m2 f2 where mf2: "s2 = s1\<lparr>pmem := m2, free_mem_list := f2, kernel_pagetable := q\<rparr>" using 2(7) by blast
  define s3 where "s3 = intr_on (trapinithart (kvminithart s2))"
  note h3 = hart_init [of s2, folded s3_def]
  have "\<forall>i. status (procs s3 i) = TASK_FREE" using h3(1) P by (simp add: same_kernel_def mf2 mf1)
  note p4 = procinit_ok [OF this]
  define s4 where "s4 = procinit s3"
  have v4: "vd s4 = vd s" "disk_blocks s4 = disk_blocks s" "bcache s4 = bcache (start s)"
    using p4 h3 by (simp_all add: s4_def mf2 mf1)
  obtain s5 where 5: "virtio_disk_init s4 = Some s5" "same_kernel s4 s5" "disk_blocks s5 = disk_blocks s4" "bcache s5 = bcache s4"
    by (rule disk_init_ok [of s4]) (use P in \<open>simp_all add: v4\<close>)
  have "cache_boot (start s)" using P by simp
  then have "cache_boot s5" using 5(3,4) v4 by (simp add: cache_boot_def)
  then obtain s6 where 6: "fsinit ROOTDEV s5 = Some s6" "same_kernel s5 s6" "\<forall>i < NINODE. i_ref (icache s6 i) = 0"
    by (rule fsinit_ok) (use P in \<open>simp add: 5(3) v4\<close>)
  have k: "same_kernel s2 s6" using h3(1) p4(1) 5(2) 6(2) same_kernel_trans unfolding s4_def by blast
  have eq: "pmem s6 = pmem s2" "free_mem_list s6 = free_mem_list s2" "end_address s6 = end_address s" "userret s6 = userret s"
    "uservec s6 = uservec s" "kernel_pagetable s6 = q" "procs s6 = procs s" "nextpid s6 = nextpid s" "ftable s6 = ftable s"
    "initcode_start s6 = initcode_start s" "initcode_size s6 = initcode_size s" "cpu s6 = cpu (start s)"
    "locked (locks s6 lk) \<Longrightarrow> locked (locks (start s) lk)" for lk
    using k by (auto simp: same_kernel_def mf2 mf1)
  have "quiet (start s)" using P by simp
  then have "quiet s6" using eq(12,13) by (auto simp: quiet_def)
  moreover have "free_pages s6 ys" using 2(5) by (subst free_pages_cong [of _ s2]) (simp_all add: eq mf2 mf1)
  ultimately have r: "init_ready s6 ys n"
    using P np xs(2) 2(6) 6(3) by (simp add: init_ready_def eq n)
  have call: "start_main (start s) = userinit s6"
    using 1(1) 2(1) 5(1) 6(1) by (simp add: start_main_def Let_def s3_def [symmetric] s4_def [symmetric])
  have "\<forall>x < end_address s. pmem s6 x = pmem (start s) x"
  proof (intro allI impI)
    fix x assume x: "x < end_address s"
    have "\<not> in_page p x" if "p \<in> set (q # xs)" for p
    proof -
      have "managed s1 p" using fp that by (auto simp: free_pages_def)
      then have p: "end_address s \<le> p" "p < PHYSTOP" by (auto simp: managed_def mf1)
      have "unat (x - p) = 2 ^ 64 + unat x - unat p"
        using x p(1) unat_sub_if_size [of x p] by (auto simp: word_size word_less_nat_alt word_le_nat_alt)
      then show ?thesis using p(2) by (simp add: in_page_def word_less_nat_alt kdefs)
    qed
    then show "pmem s6 x = pmem (start s) x" using 2(8) mf1 x by (simp add: eq)
  qed
  then show ?thesis
    by (rule that [OF r call]) (use 2(3,4) in \<open>simp_all add: eq\<close>)
qed

section \<open>The first program\<close>

text \<open>What a load of the user program reads: only valid pages with the user bit.\<close>

definition user_load :: "mem \<Rightarrow> u64 \<Rightarrow> u64 \<Rightarrow> u8 option" where
  "user_load m root v =
     (case translate m root v of
        None \<Rightarrow> None
      | Some e \<Rightarrow> if e AND PTE_U \<noteq> 0 then Some (m (PTE2PA e + (v AND 0xFFF))) else None)"

lemma pte_u_bit: "e AND PTE_U = 0 \<longleftrightarrow> \<not> bit e 4"
proof -
  have "PTE_U = 2 ^ 4" by (simp add: kdefs)
  then show ?thesis by (metis and_exp_eq_0_iff_not_bit)
qed

lemma page_offset: "unat (v AND 0xFFF :: u64) = unat v mod 4096"
proof -
  have "(0xFFF::u64) = mask 12" by (simp add: mask_eq_exp_minus_1)
  then have "v AND 0xFFF = take_bit 12 v" by (simp add: take_bit_eq_mask)
  then show ?thesis by (simp flip: take_bit_eq_mod add: unsigned_take_bit_eq take_bit_eq_mod unat_mod)
qed

lemma user_load_page:
  assumes "translate m root v = Some (PA2PTE pa OR (f OR PTE_V))" and "aligned 4096 pa" and "flag_bits f" and "f AND PTE_U \<noteq> 0"
  shows "user_load m root v = Some (m (pa + of_nat (unat v mod 4096)))"
proof -
  have "PTE2PA (PA2PTE pa OR (f OR PTE_V)) = pa" by (rule PTE2PA_PA2PTE [OF assms(2) flag_bits_or [OF assms(3) flag_bits_V]])
  moreover have "(PA2PTE pa OR (f OR PTE_V)) AND PTE_U \<noteq> 0"
    using assms(4) by (simp add: pte_u_bit bit_or_iff)
  moreover have "v AND 0xFFF = of_nat (unat v mod 4096)"
    by (metis page_offset of_nat_unat ucast_id)
  ultimately show ?thesis using assms(1) by (simp add: user_load_def)
qed

lemma user_load_trap: "translate m root v = trap_map ur uv tf v \<Longrightarrow> user_load m root v = None"
proof -
  have b: "(PA2PTE p OR f) AND PTE_U = 0 \<longleftrightarrow> f AND PTE_U = 0" for p f
  proof -
    have "\<not> bit (PA2PTE p) 4" by (simp add: PA2PTE_def bit_simps)
    then show ?thesis by (simp add: pte_u_bit bit_or_iff)
  qed
  assume "translate m root v = trap_map ur uv tf v"
  then show ?thesis by (simp add: user_load_def trap_map_def id_pte_def b) (simp add: kdefs)
qed

lemma first_frame_load:
  assumes "aligned 4096 tf" and "8 dvd unat k" and "unat k + 8 \<le> 4096"
  shows "load64 (first_frame m tf sp) (tf + k) = (if k = tf_off SP then sp else 0)"
proof -
  have a8: "aligned 8 tf" by (rule aligned_mono [OF assms(1)]) auto
  have al: "aligned 8 (tf + j)" if "8 dvd unat j" for j using aligned8_add [OF a8 that] .
  have "k = 8 * of_nat (unat k div 8)" using assms(2) by (metis dvd_mult_div_cancel of_nat_mult of_nat_numeral of_nat_unat ucast_id)
  moreover have "(of_nat (unat k div 8) :: u64) < 512" using assms(3) by (auto simp: word_less_nat_alt unat_of_nat)
  ultimately have z: "load64 (memset m tf 0 4096) (tf + k) = 0" using zero_page_load [of "of_nat (unat k div 8)" 4096 m tf] by simp
  show ?thesis
  proof (cases "k = tf_off SP")
    case False
    have "load64 (first_frame m tf sp) (tf + k) = load64 (store64 (memset m tf 0 4096) (tf + tf_epc) 0) (tf + k)"
      unfolding first_frame_def by (rule load_store_other) (use False al assms(2) in \<open>simp_all\<close>)
    also have "\<dots> = 0"
    proof (cases "k = tf_epc")
      case False
      then have "load64 (store64 (memset m tf 0 4096) (tf + tf_epc) 0) (tf + k) = load64 (memset m tf 0 4096) (tf + k)"
        by (intro load_store_other) (use al assms(2) in \<open>simp_all add: tf_epc_def\<close>)
      then show ?thesis using z by simp
    qed simp
    finally show ?thesis using False by simp
  qed (simp add: first_frame_def)
qed

lemma usertrapret_frame:
  assumes "usertrapret s = Some (r, s')" and "myproc s = Some p"
  shows "within {trapframe (procs s p)} (pmem s) (pmem s')" and "procs s' = procs s" and "free_mem_list s' = free_mem_list s"
    and "end_address s' = end_address s" and "kernel_pagetable s' = kernel_pagetable s" and "uservec s' = uservec s" and "ftable s' = ftable s"
proof -
  have w: "within {t} m (store64 (store64 (store64 m (t + tf_kernel_sp) a) (t + tf_kernel_trap) b) (t + tf_kernel_satp) c)" for t m a b c
  proof -
    have s: "within {t} n (store64 n (t + tf_kernel_sp) a)" "within {t} n (store64 n (t + tf_kernel_trap) b)"
      "within {t} n (store64 n (t + tf_kernel_satp) c)" for n
      by (rule within_store; simp add: tf_kernel_sp_def tf_kernel_trap_def tf_kernel_satp_def)+
    show ?thesis by (rule within_trans [OF within_trans [OF s(1) s(2)] s(3)])
  qed
  show "within {trapframe (procs s p)} (pmem s) (pmem s')"
    using assms w by (auto simp: usertrapret_def Let_def w_csr_def w_sstatus_def myproc_def split: bind_splits)
  show "procs s' = procs s" "free_mem_list s' = free_mem_list s" "end_address s' = end_address s"
    "kernel_pagetable s' = kernel_pagetable s" "uservec s' = uservec s" "ftable s' = ftable s"
    using assms by (auto simp: usertrapret_def Let_def w_csr_def w_sstatus_def myproc_def split: bind_splits)
qed

text \<open>From the scheduler to \<open>userret\<close>: process 0, which \<open>userinit\<close> made ready, is picked, runs
  \<open>forkret\<close> and \<open>usertrapret\<close>, and only three words of its trapframe change.\<close>

lemma first_switch:
  fixes t :: "'a tst_scheme"
  assumes "quiet t" and "status (procs t 0) = TASK_READY" and tf: "trapframe (procs t 0) = tf" "aligned 4096 tf"
    and fr: "\<exists>m. pmem t = first_frame m tf sp"
  obtains r u where "sys_step (HSched 0, \<lambda>_. KUser UFork, t) (HUser 0 r, \<lambda>_. KUser UFork, u)" and "within {tf} (pmem t) (pmem u)"
    and "\<And>x. xr r x = (if x = SP then sp else 0)" and "csrv u Sepc = 0" and "csrv u Satp = MAKE_SATP (pagetable (procs t 0))"
    and "csrv u Stvec = uservec u" and "pagetable (procs u 0) = pagetable (procs t 0)" and "kernel_pagetable u = kernel_pagetable t"
proof -
  obtain t1 where 1: "acquire (LProc 0) t = Some t1" "pmem t1 = pmem t" "procs t1 = procs t" "rest t1 = rest t"
    using acquire_quiet [OF assms(1)] by metis
  define s1 where "s1 = set_cproc (Some 0) (upd_proc 0 (\<lambda>x. x\<lparr>status := TASK_RUNNING\<rparr>) t1)"
  have p: "scheduler_pick 0 t = Some (True, s1)" using 1 assms(2) by (simp add: scheduler_pick_def s1_def)
  define s2 where "s2 = release (LProc 0) s1"
  have f1: "myproc s1 = Some 0" "trapframe (procs s1 0) = tf" "pagetable (procs s1 0) = pagetable (procs t 0)" "pmem s1 = pmem t"
    "kernel_pagetable s1 = kernel_pagetable t"
    using 1 tf rest_fields(5) [OF 1(4)] by (simp_all add: s1_def myproc_def set_cproc_def upd_proc_def)
  have f2: "myproc s2 = Some 0" "trapframe (procs s2 0) = tf" "pagetable (procs s2 0) = pagetable (procs t 0)" "pmem s2 = pmem t"
    "kernel_pagetable s2 = kernel_pagetable t"
    using f1 by (simp_all add: s2_def lock_defs Let_def myproc_def)
  have a8: "aligned 8 tf" by (rule aligned_mono [OF tf(2)]) auto
  obtain s3 where 3: "usertrapret s2 = Some (ToUser tf (MAKE_SATP (pagetable (procs s2 0))), s3)"
    "\<And>k. 8 dvd unat k \<Longrightarrow> 24 \<le> k \<Longrightarrow> load64 (pmem s3) (tf + k) = load64 (pmem s2) (tf + k)"
    "csrv s3 Sepc = load64 (pmem s2) (tf + 24)" "csrv s3 Stvec = uservec s3"
    using usertrapret_ok [OF f2(1,2) a8] by blast
  note f3 = usertrapret_frame [OF 3(1) f2(1), unfolded f2(2)]
  have r: "usertrap_resume 0 UFork s1 = Some (ToUser tf (MAKE_SATP (pagetable (procs s2 0))), s3)"
    using 3(1) f1(1) by (simp add: forkret_in_def s2_def)
  obtain r u where ru: "trap_exit tf (MAKE_SATP (pagetable (procs s2 0))) tiny_regs s3 = (r, u)" by fastforce
  note x = trap_exit_regs [OF ru]
  have u: "procs u = procs s3" "kernel_pagetable u = kernel_pagetable s3" using ru by (auto simp: trap_exit_def Let_def)
  obtain m where m: "pmem t = first_frame m tf sp" using fr by blast
  have "status (procs s1 0) = TASK_RUNNING" by (simp add: s1_def set_cproc_def)
  then have "spawn s1 s3 (\<lambda>_. KUser UFork) = (\<lambda>_. KUser UFork)" by (simp add: spawn_def fun_eq_iff)
  moreover have "sys_step (HSched 0, \<lambda>_. KUser UFork, t)
      (settle 0 tiny_regs s1 (\<lambda>_. KUser UFork) (ToUser tf (MAKE_SATP (pagetable (procs s2 0))), s3))"
    by (rule sys_step.switch [OF _ p refl r]) (simp add: NPROC_def)
  ultimately have st: "sys_step (HSched 0, \<lambda>_. KUser UFork, t) (HUser 0 r, \<lambda>_. KUser UFork, u)" using ru by simp
  have "xr r x = (if x = SP then sp else 0)" for x
  proof -
    have "tf_off x = tf_off SP \<longleftrightarrow> x = SP" by (cases x) simp_all
    moreover have "unat (tf_off x) + 8 \<le> 4096" using tf_off_range(3) [of x] by (simp add: word_less_nat_alt)
    ultimately show ?thesis
      using first_frame_load [OF tf(2) tf_off_range(1), of x m sp] trap_exit_regs(1) [OF ru, of x]
        3(2) [OF tf_off_range(1,2), of x] f2(4) m by simp
  qed
  moreover have "csrv s3 Sepc = 0"
    using 3(3) first_frame_load [OF tf(2), of 24 m sp] f2(4) m by simp
  moreover have "within {tf} (pmem t) (pmem u)" using f3(1) x(5) f2(4) by simp
  ultimately show ?thesis
    by (intro that [OF st]) (use x(4,7) 3(4) u f3 f2 in simp_all)
qed

lemma init_files_inv:
  fixes t :: "'a kst_scheme"
  assumes "\<forall>i. i \<noteq> 0 \<longrightarrow> ofile (procs t i) = (\<lambda>_. None)" and "status (procs t 0) = TASK_READY"
    and "ofile (procs t 0) = (\<lambda>_. None)(0 := Some 0, 1 := Some 1, 2 := Some 2)"
    and "\<forall>f < NFILE. f_ref (ftable t f) = (if f < 3 then 1 else 0)"
  shows "fref_inv t {#}"
proof -
  have n: "ofile (procs t i) fd = (if i = 0 \<and> fd < 3 then Some fd else None)" for i fd
    using assms(1,3) by (cases "i = 0") (auto simp: less_Suc_eq numeral_3_eq_3 numeral_2_eq_2)
  have "fd_refs t f = (if f < 3 then {(0, f)} else {})" for f
    by (auto simp: fd_refs_def n NPROC_def NOFILE_def split: if_splits)
  moreover have "\<not> dead (procs t 0)" using assms(2) by (simp add: dead_def)
  ultimately show ?thesis
    using assms(4) by (auto simp: fref_inv_def fref_count_def dead_closed_def n NFILE_def)
qed

text \<open>What the first program sees: its code, then zeros up to the top of its stack, and nothing above.\<close>

lemma user_view:
  assumes f: "\<forall>v < MAXVA. translate m root v = stack_map (code_map (trap_map ur uv tf) frs) (of_nat (4096 * n)) stk v"
    and n: "length frs = n" "n < 2 ^ 16" and al: "\<forall>p \<in> insert stk (set frs). aligned 4096 p"
    and img: "holds_image m m0 st sz frs" and z: "\<forall>i < 4096. m (stk + of_nat i) = 0" and sz: "unat sz \<le> 4096 * n"
  shows "a < 4096 * (n + 1) \<Longrightarrow> user_load m root (of_nat a) = Some (image m0 st sz a)"
    and "v < MAXVA \<Longrightarrow> 4096 * (n + 1) \<le> unat v \<Longrightarrow> user_load m root v = None"
proof -
  have n52: "n < 2 ^ 52" using n(2) by simp
  { assume a: "a < 4096 * (n + 1)"
    have u: "unat (of_nat a :: u64) = a" unfolding unat_of_nat using a n(2) by (intro mod_less) simp
    have v: "(of_nat a :: u64) < MAXVA" using a n(2) by (simp add: word_less_nat_alt u kdefs)
    have fl: "flag_bits (PTE_R OR PTE_W OR PTE_X OR PTE_U)" "flag_bits (PTE_R OR PTE_W OR PTE_U)"
      by (simp_all add: flag_bits_def kdefs)
    have pu: "(PTE_R OR PTE_W OR PTE_X OR PTE_U) AND PTE_U \<noteq> 0" "(PTE_R OR PTE_W OR PTE_U) AND PTE_U \<noteq> 0" by (simp_all add: kdefs)
    have pd: "PGROUNDDOWN (of_nat a) = of_nat (4096 * n) \<longleftrightarrow> a div 4096 = n"
      using PGROUNDDOWN_page [OF n52, of "of_nat a"] unfolding u .
    show "user_load m root (of_nat a) = Some (image m0 st sz a)"
    proof (cases "a div 4096 = n")
      case True
      then have t: "translate m root (of_nat a) = Some (PA2PTE stk OR ((PTE_R OR PTE_W OR PTE_U) OR PTE_V))"
        using f v pd by (simp add: stack_map_def)
      have "a \<ge> 4096 * n" using True by (metis div_times_less_eq_dividend mult.commute)
      then have "image m0 st sz a = 0" using sz by (simp add: image_def)
      then show ?thesis using user_load_page [OF t _ fl(2) pu(2)] al z by (simp add: u)
    next
      case False
      then have j: "a div 4096 < n" using a by (simp add: less_mult_imp_div_less less_Suc_eq)
      then have "a < 4096 * n" by (simp add: div_less_iff_less_mult mult.commute)
      then have t: "translate m root (of_nat a) = Some (PA2PTE (frs ! (a div 4096)) OR ((PTE_R OR PTE_W OR PTE_X OR PTE_U) OR PTE_V))"
        using f v pd False n(1) by (simp add: stack_map_def code_map_def u)
      have "m (frs ! (a div 4096) + of_nat (a mod 4096)) = image m0 st sz (4096 * (a div 4096) + a mod 4096)"
        using img j n(1) by (simp add: holds_image_def)
      then show ?thesis using user_load_page [OF t _ fl(1) pu(1)] al j n(1) by (simp add: u)
    qed }
  { assume v: "v < MAXVA" "4096 * (n + 1) \<le> unat v"
    then have "unat v div 4096 \<noteq> n" by (metis Suc_eq_plus1 div_le_mono leD lessI nonzero_mult_div_cancel_left zero_neq_numeral)
    then have "translate m root v = trap_map ur uv tf v"
      using f v PGROUNDDOWN_page [OF n52, of v] n(1) by (simp add: stack_map_def code_map_def)
    then show "user_load m root v = None" by (rule user_load_trap) }
qed

text \<open>
  Property C2 (functional). From power on to user mode. On a machine that is switched on with
  cleared static data, a working VirtIO disk with a superblock and enough memory, \<open>start\<close> and
  \<open>start_main\<close> return with process 0 ready, every other slot free and the descriptor counts right,
  the state the invariant of the kernel starts from; the first step of the scheduler enters user
  mode at address 0 with all registers 0 but the stack pointer, in an address space where the
  program reads the bytes of the \<open>initcode\<close> image, then zeros up to the top of its stack page, and
  nothing else, while the kernel table still maps what \<open>kvmininit\<close> mapped.
\<close>

theorem boot_enters_first_program:
  fixes s :: "'a bst_scheme"
  assumes "power_on s"
  shows "\<exists>t r u. start_main (start s) = Some t \<and> myproc t = None \<and> status (procs t 0) = TASK_READY \<and>
    (\<forall>q. q \<noteq> 0 \<longrightarrow> status (procs t q) = TASK_FREE) \<and> fref_inv t {#} \<and>
    sys_step (HSched 0, \<lambda>_. KUser UFork, t) (HUser 0 r, \<lambda>_. KUser UFork, u) \<and>
    csrv u Sepc = 0 \<and> (\<forall>x. xr r x = (if x = SP then PGROUNDUP (initcode_size s) + PGSIZE else 0)) \<and>
    csrv u Satp = MAKE_SATP (pagetable (procs u 0)) \<and> csrv u Stvec = uservec u \<and>
    (\<forall>v < PGROUNDUP (initcode_size s) + PGSIZE. user_load (pmem u) (pagetable (procs u 0)) v =
       Some (if v < initcode_size s then pmem (start s) (initcode_start s + v) else 0)) \<and>
    (\<forall>v < MAXVA. PGROUNDUP (initcode_size s) + PGSIZE \<le> v \<longrightarrow> user_load (pmem u) (pagetable (procs u 0)) v = None) \<and>
    (\<forall>v < MAXVA. translate (pmem u) (kernel_pagetable u) v = kernel_map (PGROUNDUP (etext s)) v)"
proof -
  define n where "n = init_pages s"
  note P = assms [unfolded power_on_def]
  note np = init_pages_props [OF assms, folded n_def]
  obtain t0 kq ys where 0: "init_ready t0 ys n" "start_main (start s) = userinit t0" "\<forall>x < end_address s. pmem t0 x = pmem (start s) x"
    "pt_ok (pmem t0) kq ys" "kernel_pagetable t0 = kq" "\<forall>v < MAXVA. translate (pmem t0) kq v = kernel_map (PGROUNDUP (etext s)) v"
    "initcode_start t0 = initcode_start s" "initcode_size t0 = initcode_size s" "ftable t0 = ftable s"
    using start_main_ready [OF assms n_def] by metis
  note R = 0(1) [unfolded init_ready_def]
  let ?top = "of_nat (4096 * n) + PGSIZE" let ?map = "\<lambda>tf frs stk. stack_map (code_map (trap_map (userret t0) (uservec t0) tf) frs) (of_nat (4096 * n)) stk"
  obtain t frs stk tf ks q us where 1: "userinit t0 = Some t"
    "uspace (set ys) (pmem t0) t us q (?map tf frs stk) (insert stk ({tf, ks} \<union> set frs))" "tf \<notin> insert stk (set frs)"
    "length frs = n" "holds_image (pmem t) (pmem t0) (initcode_start t0) (initcode_size t0) frs"
    "\<And>i. i < 4096 \<Longrightarrow> pmem t (stk + of_nat i) = 0" "\<exists>m. pmem t = first_frame m tf ?top"
    "quiet t" "\<forall>i. i \<noteq> 0 \<longrightarrow> procs t i = procs t0 i" "status (procs t 0) = TASK_READY"
    "pagetable (procs t 0) = q" "trapframe (procs t 0) = tf"
    "ofile (procs t 0) = (\<lambda>_. None)(0 := Some 0, 1 := Some 1, 2 := Some 2)"
    "\<forall>f. f_ref (ftable t f) = (if f < 3 then 1 else f_ref (ftable t0 f))"
    "rest (t\<lparr>ftable := ftable t0, icache := icache t0\<rparr>) = rest t0"
    by (rule userinit_ok [OF 0(1)]) (rule that; assumption)
  note U = 1(2) [unfolded uspace_def]
  have al: "\<forall>p \<in> insert stk (set frs). aligned 4096 p" "aligned 4096 tf" using U by auto
  obtain r u where 2: "sys_step (HSched 0, \<lambda>_. KUser UFork, t) (HUser 0 r, \<lambda>_. KUser UFork, u)" "within {tf} (pmem t) (pmem u)"
    "\<And>x. xr r x = (if x = SP then ?top else 0)" "csrv u Sepc = 0" "csrv u Satp = MAKE_SATP q"
    "csrv u Stvec = uservec u" "pagetable (procs u 0) = q" "kernel_pagetable u = kernel_pagetable t"
    using first_switch [OF 1(8,10,12) al(2) 1(7)] unfolding 1(11) by metis
  have "fref_inv t {#}"
    by (rule init_files_inv) (use 1(9,10,13,14) R 0(9) in auto)
  moreover have "myproc t = None" using 1(8) by (simp add: quiet_def myproc_def)
  moreover have "status (procs t j) = TASK_FREE" if "j \<noteq> 0" for j using 1(9) R that by simp
  moreover have size: "PGROUNDUP (initcode_size s) = of_nat (4096 * n)" by (metis np(1) of_nat_unat ucast_id)
  have top: "unat ?top = 4096 * (n + 1)"
  proof -
    have "?top = of_nat (4096 * (n + 1))" by (simp add: PGSIZE_def)
    then show ?thesis using np(3) by (simp add: unat_of_nat del: of_nat_mult of_nat_add)
  qed
  have keep: "pmem u x = pmem t x" if "p \<noteq> tf" "aligned 4096 p" "in_page p x" for p x
    using within_page [OF 2(2), of p x] that al(2) by auto
  have "uspace (set ys) (pmem t0) (t\<lparr>pmem := pmem u\<rparr>) us q (?map tf frs stk) (insert stk ({tf, ks} \<union> set frs))"
    by (rule uspace_fill [OF 1(2) 2(2)]) simp
  then have map: "\<forall>v < MAXVA. translate (pmem u) q v = ?map tf frs stk v" by (simp add: uspace_def)
  have pg: "in_page p (p + of_nat i)" if "i < 4096" for p :: u64 and i using that by (simp add: in_page_def unat_of_nat)
  have img: "holds_image (pmem u) (pmem t0) (initcode_start s) (initcode_size s) frs"
    unfolding holds_image_def
  proof (intro allI impI)
    fix j i :: nat assume j: "j < length frs" and i: "i < 4096"
    have "frs ! j \<in> set frs" using j by simp
    then have "frs ! j \<noteq> tf \<and> aligned 4096 (frs ! j)" using 1(3) al(1) by auto
    then have "pmem u (frs ! j + of_nat i) = pmem t (frs ! j + of_nat i)" using keep [OF _ _ pg [OF i]] by blast
    then show "pmem u (frs ! j + of_nat i) = image (pmem t0) (initcode_start s) (initcode_size s) (4096 * j + i)"
      using 1(5) j i 0(7,8) by (simp add: holds_image_def)
  qed
  have z: "\<forall>i < 4096. pmem u (stk + of_nat i) = 0"
    using keep [OF _ _ pg, of stk] 1(3) al(1) 1(6) by auto
  note view = user_view [OF map 1(4) np(3) al(1) img z np(4)]
  have "user_load (pmem u) q v = Some (if v < initcode_size s then pmem (start s) (initcode_start s + v) else 0)" if "v < ?top" for v
  proof -
    have "unat v < 4096 * (n + 1)" using that top by (simp add: word_less_nat_alt)
    from view(1) [OF this] have "user_load (pmem u) q v = Some (image (pmem t0) (initcode_start s) (initcode_size s) (unat v))" by simp
    moreover have "pmem t0 (initcode_start s + v) = pmem (start s) (initcode_start s + v)" if "v < initcode_size s"
    proof -
      have "unat v < unat (initcode_size s)" "unat (initcode_start s) + unat (initcode_size s) \<le> unat (end_address s)"
        using that P by (simp_all add: word_less_nat_alt)
      moreover have "unat (initcode_start s + v) \<le> unat (initcode_start s) + unat v" by (simp add: unat_word_ariths)
      ultimately have "initcode_start s + v < end_address s" by (simp add: word_less_nat_alt)
      then show ?thesis using 0(3) by blast
    qed
    ultimately show ?thesis by (simp add: image_def word_less_nat_alt)
  qed
  moreover have "user_load (pmem u) q v = None" if "v < MAXVA" "?top \<le> v" for v
    using view(2) [OF that(1)] that(2) top by (simp add: word_le_nat_alt)
  moreover have "translate (pmem u) (kernel_pagetable u) v = kernel_map (PGROUNDUP (etext s)) v" if "v < MAXVA" for v
  proof -
    have k: "kernel_pagetable u = kq" using 2(8) rest_fields(5) [OF 1(15)] 0(5) by simp
    have "aligned 4096 p \<and> p \<notin> set ys" if "p \<in> pt_pages (pmem t0) kq" for p
      using that pt_okD [OF 0(4)] by (auto simp: pt_pages_def)
    note kp = this
    have w: "within (set ys) (pmem t0) (pmem t)" and a: "\<forall>y \<in> set ys. aligned 4096 y" and tfy: "tf \<in> set ys" using U by auto
    have "pmem u x = pmem t0 x" if p: "p \<in> pt_pages (pmem t0) kq" "in_page p x" for p x
    proof -
      have "p \<noteq> tf" "aligned 4096 p" "p \<notin> set ys" using kp [OF p(1)] tfy by auto
      then show ?thesis using keep [OF _ _ p(2)] within_page [OF w a _ _ p(2)] by simp
    qed
    then have "translate (pmem u) kq v = translate (pmem t0) kq v" by (intro tables_cong) blast
    then show ?thesis using 0(6) that k by simp
  qed
  moreover have "start_main (start s) = Some t" using 0(2) 1(1) by simp
  ultimately have "start_main (start s) = Some t \<and> myproc t = None \<and> status (procs t 0) = TASK_READY \<and>
    (\<forall>q. q \<noteq> 0 \<longrightarrow> status (procs t q) = TASK_FREE) \<and> fref_inv t {#} \<and>
    sys_step (HSched 0, \<lambda>_. KUser UFork, t) (HUser 0 r, \<lambda>_. KUser UFork, u) \<and>
    csrv u Sepc = 0 \<and> (\<forall>x. xr r x = (if x = SP then ?top else 0)) \<and>
    csrv u Satp = MAKE_SATP (pagetable (procs u 0)) \<and> csrv u Stvec = uservec u \<and>
    (\<forall>v < ?top. user_load (pmem u) (pagetable (procs u 0)) v =
       Some (if v < initcode_size s then pmem (start s) (initcode_start s + v) else 0)) \<and>
    (\<forall>v < MAXVA. ?top \<le> v \<longrightarrow> user_load (pmem u) (pagetable (procs u 0)) v = None) \<and>
    (\<forall>v < MAXVA. translate (pmem u) (kernel_pagetable u) v = kernel_map (PGROUNDUP (etext s)) v)"
    using 1(10) 2(1,3-7) by (intro conjI allI impI) (simp_all only:)
  then show ?thesis unfolding size by blast
qed

definition cold_boot :: bst where
  "cold_boot = tst.extend (tiny_sys\<lparr>pmem := (\<lambda>a. ucast a), free_mem_list := 0, end_address := 0x84000000, etext := 0x80008000,
       userret := 0x80002000, uservec := 0x80003000, procs := (\<lambda>_. zero_proc), nextpid := 1, csrv := (\<lambda>_. 0),
       ftable := (\<lambda>_. \<lparr>f_type = 0, f_ref = 0, f_readable = False, f_writable = False, f_pipe = 0, f_ip = None, f_off = 0\<rparr>),
       disk_blocks := (\<lambda>b. [0x40, 0x30, 0x20, 0x10] @ replicate 1020 0),
       bcache := (\<lambda>_. \<lparr>b_valid = False, b_disk = False, b_dev = 0, b_blockno = 0, b_refcnt = 0, b_prev = 0, b_next = 0, b_data = []\<rparr>),
       vd := (vd tiny_sys)\<lparr>mmio_in := (\<lambda>_. 0)(0 := 0x74726976, 4 := 1, 8 := 2, 12 := 0x554d4551, 0x34 := 8)\<rparr>\<rparr>)
     \<lparr>clint = (\<lambda>_. 0), timer_scratch = 0x80009000, timervec_addr = 0x80000400, start_main_addr = 0x80001000,
       initcode_start = 0x80010000, initcode_size = 100\<rparr>"

lemma cold_boot: "power_on cold_boot" "pmem (start cold_boot) 0x80010005 = 5" "initcode_start cold_boot = 0x80010000"
  "initcode_size cold_boot = 100"
proof -
  have q: "quiet cold_boot" using tiny_sys(4) tiny_trap(4) [of 0] by (simp add: quiet_def cold_boot_def tst.defs tiny_sys_def)
  have b: "boot_state cold_boot" by (simp add: boot_state_def cold_boot_def tst.defs kdefs)
  have c: "cache_boot cold_boot" by (simp add: cache_boot_def cold_boot_def tst.defs BSIZE_def)
  have m: "magic (decode_superblock (disk_blocks cold_boot 1)) = FSMAGIC"
    by (simp add: decode_superblock_def cold_boot_def tst.defs kdefs get32_def)
  have f: "nextpid cold_boot = 1" "csrv cold_boot = (\<lambda>_. 0)" "procs cold_boot = (\<lambda>_. zero_proc)" "f_ref (ftable cold_boot i) = 0"
    "mmio_in (vd cold_boot) = (\<lambda>_. 0)(0 := 0x74726976, 4 := 1, 8 := 2, 12 := 0x554d4551, 0x34 := 8)"
    "etext cold_boot = 0x80008000" "end_address cold_boot = 0x84000000" "userret cold_boot = 0x80002000" "uservec cold_boot = 0x80003000" for i
    by (simp_all add: cold_boot_def tst.defs)
  show i: "initcode_start cold_boot = 0x80010000" "initcode_size cold_boot = 100" by (simp_all add: cold_boot_def tst.defs)
  have "init_pages cold_boot = 1" by (simp add: init_pages_def i PGROUNDUP_def kdefs)
  then show "power_on cold_boot"
    using q b c m by (simp add: power_on_def f i zero_proc_def PGROUNDUP_def kdefs)
  have p: "pmem (start cold_boot) = store64 (store64 (\<lambda>a. ucast a) (0x80009000 + 8 * 3) (CLINT_MTIMECMP 0)) (0x80009000 + 8 * 4) 1000000"
    by (simp add: start_def timerinit_def w_csr_def Let_def cold_boot_def tst.defs)
  have "\<not> in_page 0x80009000 (0x80010005 :: u64)" by (simp add: in_page_def)
  then show "pmem (start cold_boot) 0x80010005 = 5"
    unfolding p using store64_in_page [of 3 "0x80009000" "0x80010005"] store64_in_page [of 4 "0x80009000" "0x80010005"] by simp
qed

theorem boot_enters_first_program_witness:
  "\<exists>t r u. start_main (start cold_boot) = Some t \<and> sys_step (HSched 0, \<lambda>_. KUser UFork, t) (HUser 0 r, \<lambda>_. KUser UFork, u) \<and>
     xr r SP = 0x2000 \<and> user_load (pmem u) (pagetable (procs u 0)) 5 = Some 5 \<and>
     user_load (pmem u) (pagetable (procs u 0)) 0x1FFF = Some 0 \<and> user_load (pmem u) (pagetable (procs u 0)) 0x2000 = None"
proof -
  obtain t r u where *: "start_main (start cold_boot) = Some t" "sys_step (HSched 0, \<lambda>_. KUser UFork, t) (HUser 0 r, \<lambda>_. KUser UFork, u)"
    "xr r SP = PGROUNDUP (initcode_size cold_boot) + PGSIZE"
    "\<forall>v < PGROUNDUP (initcode_size cold_boot) + PGSIZE. user_load (pmem u) (pagetable (procs u 0)) v =
       Some (if v < initcode_size cold_boot then pmem (start cold_boot) (initcode_start cold_boot + v) else 0)"
    "\<forall>v < MAXVA. PGROUNDUP (initcode_size cold_boot) + PGSIZE \<le> v \<longrightarrow> user_load (pmem u) (pagetable (procs u 0)) v = None"
    using boot_enters_first_program [OF cold_boot(1)] by auto
  have top: "PGROUNDUP (initcode_size cold_boot) + PGSIZE = 0x2000" by (simp add: cold_boot(4) PGROUNDUP_def kdefs)
  have "xr r SP = 0x2000" using *(3) top by simp
  moreover have "user_load (pmem u) (pagetable (procs u 0)) 5 = Some 5" "user_load (pmem u) (pagetable (procs u 0)) 0x1FFF = Some 0"
    using *(4) [unfolded top, THEN spec, of 5] *(4) [unfolded top, THEN spec, of "0x1FFF"] by (simp_all add: cold_boot)
  moreover have "user_load (pmem u) (pagetable (procs u 0)) 0x2000 = None"
    using *(5) [unfolded top, THEN spec, of "0x2000"] by (simp add: kdefs)
  ultimately show ?thesis using *(1,2) by blast
qed

end
