(* ===== verification/Namei.thy ===== *)
theory Namei
  imports Dir
begin

text \<open>
  Path lookup against the tree on the disk. \<open>dino\<close> and \<open>file_bytes\<close> read an inode and its
  contents off the disk, \<open>tree_walk\<close> follows a list of names through the directories;
  \<open>fs_good\<close> says that a set of inodes is closed under the entries of its directories and that
  the inode cache agrees with the disk. \<open>namei\<close> and \<open>nameiparent\<close> are shown to compute
  \<open>tree_walk\<close>, with exact reference counts.
\<close>

section \<open>The tree on the disk\<close>

definition dino :: "'a fs_st_scheme \<Rightarrow> u32 \<Rightarrow> dinode" where
  "dino s n = dinode_at (disk_blocks s (inode_block (sb s) n)) n"

definition file_bytes :: "'a fs_st_scheme \<Rightarrow> u32 \<Rightarrow> u8 list" where
  "file_bytes s n = map (\<lambda>k. let b = slot (disk_blocks s) (d_addrs (dino s n)) (bpath (k div BSIZE))
     in if b = 0 then 0 else disk_blocks s b ! (k mod BSIZE)) [0..<unat (d_size (dino s n))]"

fun tree_walk :: "'a fs_st_scheme \<Rightarrow> u32 \<Rightarrow> u8 list list \<Rightarrow> u32 option" where
  "tree_walk s n [] = Some n"
| "tree_walk s n (c # cs) =
     (if d_type (dino s n) \<noteq> T_DIR then None
      else case dir_find (file_bytes s n) c of
        None \<Rightarrow> None
      | Some (_, m) \<Rightarrow> tree_walk s (ucast m) cs)"

text \<open>An allocated inode with links, a block map of its own, and, for a directory, entries in \<open>I\<close>.\<close>

definition inode_good :: "'a fs_st_scheme \<Rightarrow> u32 set \<Rightarrow> u32 \<Rightarrow> bool" where
  "inode_good s I n \<longleftrightarrow> inode_block (sb s) n \<in> taken_blocks s \<and> inode_block (sb s) n \<notin> bitmap_blocks s \<and>
     d_type (dino s n) \<noteq> 0 \<and> d_nlink (dino s n) \<noteq> 0 \<and>
     map_ok (taken_blocks s - bitmap_blocks s - {0, inode_block (sb s) n}) (disk_blocks s) (d_addrs (dino s n)) \<and>
     (d_type (dino s n) = T_DIR \<longrightarrow> unat (d_size (dino s n)) \<le> MAXFILE * BSIZE \<and> de_size dvd unat (d_size (dino s n)) \<and>
        (\<forall>bn. bn * BSIZE < unat (d_size (dino s n)) \<longrightarrow> slot (disk_blocks s) (d_addrs (dino s n)) (bpath bn) \<noteq> 0) \<and>
        (\<forall>nm off m. dir_find (file_bytes s n) nm = Some (off, m) \<longrightarrow> ucast m \<in> I))"

definition icache_good :: "'a fs_st_scheme \<Rightarrow> u32 set \<Rightarrow> nat \<Rightarrow> bool" where
  "icache_good s I ip \<longleftrightarrow> i_dev (icache s ip) = ROOTDEV \<and> i_inum (icache s ip) \<in> I \<and>
     (i_valid (icache s ip) \<longrightarrow> dinode_of (icache s ip) = dino s (i_inum (icache s ip)))"

definition fs_good :: "'a fs_st_scheme \<Rightarrow> u32 set \<Rightarrow> nat multiset \<Rightarrow> bool" where
  "fs_good s I H \<longleftrightarrow> alloc_inv s H \<and> size H + 1 < NBUF \<and> 0 \<in> taken_blocks s \<and> ROOTINO \<in> I \<and>
     (\<forall>n \<in> I. inode_good s I n) \<and>
     (\<forall>ip < NINODE. 0 \<le> i_ref (icache s ip) \<and> (0 < i_ref (icache s ip) \<longrightarrow> icache_good s I ip))"

lemma tree_cong:
  assumes "disk_blocks s' = disk_blocks s" and "sb s' = sb s"
  shows "dino s' n = dino s n" and "file_bytes s' n = file_bytes s n" and "inode_good s' I n = inode_good s I n"
    and "tree_walk s' n cs = tree_walk s n cs" and "taken_blocks s' = taken_blocks s"
proof -
  show d: "dino s' n = dino s n" for n by (simp add: dino_def assms)
  show f: "file_bytes s' n = file_bytes s n" for n by (simp add: file_bytes_def d assms Let_def)
  show t: "taken_blocks s' = taken_blocks s" by (simp add: taken_blocks_def assms)
  show "inode_good s' I n = inode_good s I n" by (simp add: inode_good_def d f t bitmap_blocks_def assms)
  show "tree_walk s' n cs = tree_walk s n cs" by (induction cs arbitrary: n) (simp_all add: d f split: option.split)
qed

text \<open>What a routine that only reads the file system leaves alone.\<close>

definition same_disk :: "'a fs_st_scheme \<Rightarrow> 'a fs_st_scheme \<Rightarrow> bool" where
  "same_disk s s' \<longleftrightarrow> disk_blocks s' = disk_blocks s \<and> fs_rest s' = fs_rest s"

lemma same_disk_refl [simp]: "same_disk s s"
  by (simp add: same_disk_def)

lemma same_disk_trans: "same_disk s s1 \<Longrightarrow> same_disk s1 s2 \<Longrightarrow> same_disk s s2"
  by (simp add: same_disk_def)

lemma same_disk_tree:
  assumes "same_disk s s'"
  shows "dino s' n = dino s n" and "file_bytes s' n = file_bytes s n" and "inode_good s' I n = inode_good s I n"
    and "tree_walk s' n cs = tree_walk s n cs" and "taken_blocks s' = taken_blocks s" and "sb s' = sb s"
  using assms tree_cong fs_rest_proj(1) unfolding same_disk_def by blast+

lemma same_disk_upd [simp]: "same_disk s (upd_inode ip f s)"
  by (simp add: same_disk_def) (simp add: upd_inode_def)

lemma alloc_inv_upd [simp]: "alloc_inv (upd_inode ip f s) H = alloc_inv s H"
  by (simp add: alloc_inv_def bc_inv_def upd_inode_def)

lemma icache_upd [simp]: "icache (upd_inode ip f s) j = (if j = ip then f (icache s ip) else icache s j)"
  by (simp add: upd_inode_def)

text \<open>Changing one entry of the inode cache.\<close>

lemma fs_good_upd:
  assumes g: "fs_good s I H" and d: "same_disk s s'" and a: "alloc_inv s' H"
    and o: "\<forall>j. j \<noteq> ip \<longrightarrow> icache s' j = icache s j" and r: "0 \<le> i_ref (icache s' ip)"
    and i: "0 < i_ref (icache s' ip) \<Longrightarrow> icache_good s' I ip"
  shows "fs_good s' I H"
proof -
  note t = same_disk_tree [OF d]
  have "icache_good s' I j = icache_good s I j" if "j \<noteq> ip" for j using o that by (simp add: icache_good_def t)
  then show ?thesis using g a r i o unfolding fs_good_def t by metis
qed

section \<open>The inode operations\<close>

definition free_slot :: "'a fs_st_scheme \<Rightarrow> nat set" where
  "free_slot s = {j. j < NINODE \<and> i_ref (icache s j) = 0}"

lemma find_None_all: "List.find P xs = None \<Longrightarrow> x \<in> set xs \<Longrightarrow> \<not> P x"
  by (simp add: find_None_iff)

lemma iget_good:
  assumes g: "fs_good s I H" and n: "n \<in> I" and f: "free_slot s \<noteq> {}"
  obtains ip s' where "iget s ROOTDEV n = Some (ip, s')" and "ip < NINODE" and "fs_good s' I H" and "same_disk s s'"
    and "i_inum (icache s' ip) = n" and "\<forall>j. j \<noteq> ip \<longrightarrow> icache s' j = icache s j"
    and "i_ref (icache s' ip) = i_ref (icache s ip) + 1" and "0 < i_ref (icache s ip) \<longrightarrow> i_inum (icache s ip) = n"
proof (cases "List.find (\<lambda>ip. let i = icache s ip in 0 < i_ref i \<and> i_dev i = ROOTDEV \<and> i_inum i = n) [0..<NINODE]")
  case (Some ip)
  let ?s = "upd_inode ip (\<lambda>i. i\<lparr>i_ref := i_ref i + 1\<rparr>) s"
  have ip: "ip < NINODE" "0 < i_ref (icache s ip)" "i_inum (icache s ip) = n" using find_SomeD [OF Some] by (auto simp: Let_def)
  then have c: "icache_good s I ip" using g by (simp add: fs_good_def)
  have "dinode_of (i\<lparr>i_ref := r\<rparr>) = dinode_of i" for i r by (simp add: dinode_of_def)
  then have "icache_good ?s I ip" using c by (simp add: icache_good_def same_disk_tree [OF same_disk_upd])
  then have "fs_good ?s I H"
    by (intro fs_good_upd [OF g, where ip = ip]) (use g ip in \<open>auto simp: fs_good_def\<close>)
  then show ?thesis by (intro that [of ip ?s]) (use Some ip in \<open>simp_all add: iget_def\<close>)
next
  case None
  have "\<exists>x. List.find (\<lambda>ip. i_ref (icache s ip) = 0) [0..<NINODE] = Some x"
    using f find_None_all [of "\<lambda>ip. i_ref (icache s ip) = 0" "[0..<NINODE]"] by (fastforce simp: free_slot_def)
  then obtain ip where x: "List.find (\<lambda>ip. i_ref (icache s ip) = 0) [0..<NINODE] = Some ip" by blast
  let ?s = "upd_inode ip (\<lambda>i. i\<lparr>i_dev := ROOTDEV, i_inum := n, i_ref := 1, i_valid := False\<rparr>) s"
  have ip: "ip < NINODE" "i_ref (icache s ip) = 0" using find_SomeD [OF x] by auto
  have "icache_good ?s I ip" using n by (simp add: icache_good_def)
  then have "fs_good ?s I H"
    by (intro fs_good_upd [OF g, where ip = ip]) (use g ip in \<open>auto simp: fs_good_def\<close>)
  then show ?thesis by (intro that [of ip ?s]) (use None x ip in \<open>simp_all add: iget_def\<close>)
qed

lemma ilock_good:
  assumes g: "fs_good s I H" and ip: "ip < NINODE" "0 < i_ref (icache s ip)"
  obtains s' where "ilock ip s = Some s'" and "fs_good s' I H" and "same_disk s s'" and "i_valid (icache s' ip)"
    and "\<forall>j. i_ref (icache s' j) = i_ref (icache s j) \<and> i_inum (icache s' j) = i_inum (icache s j)"
proof -
  let ?n = "i_inum (icache s ip)"
  have c: "i_dev (icache s ip) = ROOTDEV" "?n \<in> I" "i_valid (icache s ip) \<Longrightarrow> dinode_of (icache s ip) = dino s ?n"
    using g ip by (auto simp: fs_good_def icache_good_def)
  then have n: "inode_good s I ?n" using g by (simp add: fs_good_def)
  then have ty: "d_type (dino s ?n) \<noteq> 0" by (simp add: inode_good_def)
  show ?thesis
  proof (cases "i_valid (icache s ip)")
    case True
    then have "i_type (icache s ip) \<noteq> 0" using c(3) ty by (metis dinode.select_convs(1) dinode_of_def)
    then show ?thesis by (intro that [of s]) (use g True in \<open>simp_all add: ilock_def\<close>)
  next
    case False
    have al: "alloc_inv s H" "size H < NBUF" using g by (simp_all add: fs_good_def)
    obtain bp s1 where r: "bread s ROOTDEV (inode_block (sb s) ?n) = Some (bp, s1)" "alloc_inv s1 (add_mset bp H)"
      "bdata s1 bp = disk_blocks s (inode_block (sb s) ?n)" "disk_blocks s1 = disk_blocks s" "blk_rest s1 = blk_rest s"
      using alloc_read [OF al, of "inode_block (sb s) ?n"] by blast
    have ic: "icache s1 = icache s" "fs_rest s1 = fs_rest s" using blk_rest_fs [OF r(5)] .
    let ?d = "dino s ?n"
    define s2 where "s2 = upd_inode ip (\<lambda>i. i\<lparr>i_type := d_type ?d, i_major := d_major ?d, i_minor := d_minor ?d,
        i_nlink := d_nlink ?d, i_size := d_size ?d, i_addrs := d_addrs ?d\<rparr>) s1"
    have "alloc_inv s2 (add_mset bp H)" using r(2) by (simp add: s2_def)
    note br = alloc_inv_release [OF this]
    define s3 where "s3 = upd_inode ip (\<lambda>i. i\<lparr>i_valid := True\<rparr>) (brelse bp s2)"
    have ic3: "icache s3 = (icache s)(ip := (icache s ip)\<lparr>i_type := d_type ?d, i_major := d_major ?d, i_minor := d_minor ?d,
        i_nlink := d_nlink ?d, i_size := d_size ?d, i_addrs := d_addrs ?d, i_valid := True\<rparr>)"
      using blk_rest_fs(1) [OF br(4)] by (simp add: s3_def s2_def fun_eq_iff ic)
    have sd: "same_disk s s3"
      using r(4) br(3) blk_rest_fs(2) [OF br(4)] ic(2) by (simp add: same_disk_def s3_def s2_def) (simp add: upd_inode_def)
    have "icache_good s3 I ip" using c(1,2) by (simp add: icache_good_def ic3 same_disk_tree [OF sd] dinode_of_def)
    moreover have "alloc_inv s3 H" using br(1) by (simp add: s3_def)
    ultimately have "fs_good s3 I H"
      by (intro fs_good_upd [OF g sd, where ip = ip]) (use ip in \<open>simp_all add: ic3\<close>)
    moreover have "ilock ip s = Some s3"
      using False r(1,3) c(1) ty ic3 by (simp add: ilock_def Let_def dino_def [symmetric] s2_def [symmetric] s3_def [symmetric])
    ultimately show ?thesis by (intro that [of s3]) (use sd in \<open>simp_all add: ic3\<close>)
  qed
qed

lemma iput_good:
  assumes g: "fs_good s I H" and ip: "ip < NINODE" "0 < i_ref (icache s ip)"
  obtains s' where "iput ip s = Some s'" and "iunlockput ip s = Some s'" and "fs_good s' I H" and "same_disk s s'"
    and "\<forall>j. j \<noteq> ip \<longrightarrow> icache s' j = icache s j" and "i_ref (icache s' ip) = i_ref (icache s ip) - 1"
    and "i_inum (icache s' ip) = i_inum (icache s ip)"
proof -
  let ?n = "i_inum (icache s ip)"
  have c: "?n \<in> I" "i_valid (icache s ip) \<Longrightarrow> dinode_of (icache s ip) = dino s ?n" "icache_good s I ip"
    using g ip by (auto simp: fs_good_def icache_good_def)
  then have "d_nlink (dino s ?n) \<noteq> 0" using g by (auto simp: fs_good_def inode_good_def)
  then have nl: "i_valid (icache s ip) \<Longrightarrow> i_nlink (icache s ip) \<noteq> 0" using c(2) by (metis dinode.select_convs(4) dinode_of_def)
  let ?f = "\<lambda>i. if i_ref i - 1 = 0 then i\<lparr>i_ref := i_ref i - 1, i_valid := False\<rparr> else i\<lparr>i_ref := i_ref i - 1\<rparr>"
  have e: "iput ip s = Some (upd_inode ip ?f s)" using nl by (auto simp: iput_def Let_def upd_inode_def)
  have "dinode_of (i\<lparr>i_ref := r\<rparr>) = dinode_of i" for i r by (simp add: dinode_of_def)
  then have i: "icache_good (upd_inode ip ?f s) I ip" if "0 < i_ref (icache (upd_inode ip ?f s) ip)"
    using c(3) that by (auto simp: icache_good_def same_disk_tree [OF same_disk_upd] split: if_splits)
  have "0 \<le> i_ref (icache (upd_inode ip ?f s) ip)" using ip by simp
  from fs_good_upd [OF g same_disk_upd _ _ this i] have "fs_good (upd_inode ip ?f s) I H" using g by (simp add: fs_good_def)
  then show ?thesis
    by (intro that [OF e]) (use ip e in \<open>simp_all add: iunlockput_def iunlock_def\<close>)
qed

text \<open>A locked directory: the contents that \<open>dirlookup\<close> reads are those on the disk.\<close>

lemma dir_good:
  assumes g: "fs_good s I H" and ip: "ip < NINODE" "0 < i_ref (icache s ip)" and v: "i_valid (icache s ip)"
  shows "i_type (icache s ip) = d_type (dino s (i_inum (icache s ip)))"
    and "i_type (icache s ip) = T_DIR \<Longrightarrow> dir_ok s ip H \<and> content s ip = file_bytes s (i_inum (icache s ip))"
proof -
  let ?n = "i_inum (icache s ip)"
  have c: "i_dev (icache s ip) = ROOTDEV" "?n \<in> I" "dinode_of (icache s ip) = dino s ?n"
    using g ip v by (auto simp: fs_good_def icache_good_def)
  have d: "d_type (dino s ?n) = i_type (icache s ip)" "d_size (dino s ?n) = i_size (icache s ip)" "d_addrs (dino s ?n) = i_addrs (icache s ip)"
    unfolding c(3) [symmetric] by (simp_all add: dinode_of_def)
  show "i_type (icache s ip) = d_type (dino s ?n)" by (simp add: d)
  assume t: "i_type (icache s ip) = T_DIR"
  have n: "inode_good s I ?n" using g c(2) by (simp add: fs_good_def)
  have "file_inv s ip H" using g n c(1) by (simp add: file_inv_def fs_good_def inode_good_def iblk_def data_area_def d)
  then have "dir_ok s ip H" using g n t by (simp add: dir_ok_def fs_good_def inode_good_def dense_def d)
  moreover have "content s ip = file_bytes s ?n" by (simp add: content_def file_bytes_def fbyte_def [abs_def] d)
  ultimately show "dir_ok s ip H \<and> content s ip = file_bytes s ?n" by blast
qed


section \<open>The lookup loops\<close>

text \<open>Only the first 14 bytes of a name count.\<close>

lemma dir_find_name: "dir_find c (take DIRSIZ (cstr name)) = dir_find c name"
proof -
  have "0 \<notin> set (take DIRSIZ (cstr name))" using cstr_nonzero by (metis in_set_takeD)
  then show ?thesis by (simp add: dir_find_def hit_def cstr_id)
qed

text \<open>\<open>lookup_inv\<close>: since \<open>s0\<close> the lookup has taken one reference, to slot \<open>r\<close> (if any), and nothing
  else has changed; slots in use still hold the inodes they held.\<close>

definition lookup_inv :: "'a fs_st_scheme \<Rightarrow> 'a fs_st_scheme \<Rightarrow> u32 set \<Rightarrow> nat multiset \<Rightarrow> nat option \<Rightarrow> bool" where
  "lookup_inv s0 s I H r \<longleftrightarrow> fs_good s0 I H \<and> fs_good s I H \<and> same_disk s0 s \<and>
     (\<forall>j. i_ref (icache s j) = i_ref (icache s0 j) + (if r = Some j then 1 else 0)) \<and>
     (\<forall>j < NINODE. 0 < i_ref (icache s0 j) \<longrightarrow> i_inum (icache s j) = i_inum (icache s0 j)) \<and>
     (\<forall>j. r = Some j \<longrightarrow> j < NINODE)"

lemma lookup_inv_ref: "lookup_inv s0 s I H (Some ip) \<Longrightarrow> ip < NINODE \<and> 0 < i_ref (icache s ip) \<and> fs_good s I H"
  unfolding lookup_inv_def fs_good_def by (metis add_pos_nonneg add.commute zero_less_one)

lemma lookup_free:
  assumes "lookup_inv s0 s I H (Some ip)" and "2 \<le> card (free_slot s0)"
  shows "free_slot s \<noteq> {}"
proof
  assume "free_slot s = {}"
  then have "free_slot s0 \<subseteq> {ip}" using assms(1) by (auto simp: lookup_inv_def free_slot_def split: if_splits)
  then have "card (free_slot s0) \<le> card {ip}" by (rule card_mono [rotated]) simp
  then show False using assms(2) by simp
qed

text \<open>One step into a directory.\<close>

lemma lookup_step:
  assumes i: "lookup_inv s0 s I H (Some ip)" and free: "2 \<le> card (free_slot s0)"
  obtains s1 where "ilock ip s = Some s1" and "lookup_inv s0 s1 I H (Some ip)"
    and "i_inum (icache s1 ip) = i_inum (icache s ip)" and "i_type (icache s1 ip) = d_type (dino s0 (i_inum (icache s ip)))"
    and "\<exists>s2. iunlock ip s1 = Some s1 \<and> iunlockput ip s1 = Some s2 \<and> lookup_inv s0 s2 I H None"
    and "d_type (dino s0 (i_inum (icache s ip))) = T_DIR \<longrightarrow>
      (case dir_find (file_bytes s0 (i_inum (icache s ip))) name of
         None \<Rightarrow> \<exists>s2 s3. dirlookup s1 ip name = Some (None, s2) \<and> iunlockput ip s2 = Some s3 \<and> lookup_inv s0 s3 I H None
       | Some (_, m) \<Rightarrow> \<exists>nxt off s2 s3. dirlookup s1 ip name = Some (Some (nxt, off), s2) \<and> iunlockput ip s2 = Some s3 \<and>
           lookup_inv s0 s3 I H (Some nxt) \<and> i_inum (icache s3 nxt) = ucast m)"
proof -
  let ?n = "i_inum (icache s ip)"
  note r = lookup_inv_ref [OF i]
  obtain s1 where 1: "ilock ip s = Some s1" "fs_good s1 I H" "same_disk s s1" "i_valid (icache s1 ip)"
    "\<forall>j. i_ref (icache s1 j) = i_ref (icache s j) \<and> i_inum (icache s1 j) = i_inum (icache s j)"
    using ilock_good [of s I H ip] r by metis
  have sd: "same_disk s0 s1" using i 1(3) same_disk_trans by (auto simp: lookup_inv_def)
  have i1: "lookup_inv s0 s1 I H (Some ip)" using i 1(2,5) sd by (simp add: lookup_inv_def)
  have ref1: "0 < i_ref (icache s1 ip)" "ip < NINODE" using lookup_inv_ref [OF i1] by simp_all
  note d = dir_good [OF 1(2) ref1(2,1) 1(4)]
  have e: "i_inum (icache s1 ip) = ?n" "dino s1 ?n = dino s0 ?n" "file_bytes s1 ?n = file_bytes s0 ?n"
    using 1(5) same_disk_tree [OF sd] by simp_all
  have put: "\<exists>u'. iunlockput ip u = Some u' \<and> lookup_inv s0 u' I H r \<and>
      (\<forall>j. i_inum (icache u' j) = i_inum (icache u j))"
    if u: "fs_good u I H" "same_disk s0 u"
      "\<forall>j. i_ref (icache u j) = i_ref (icache s0 j) + (if r = Some j then 1 else 0) + (if j = ip then 1 else 0)"
      "\<forall>j < NINODE. 0 < i_ref (icache s0 j) \<longrightarrow> i_inum (icache u j) = i_inum (icache s0 j)" "\<forall>j. r = Some j \<longrightarrow> j < NINODE" for u r
  proof -
    have g0: "fs_good s0 I H" using i by (simp add: lookup_inv_def)
    then have "0 \<le> i_ref (icache s0 ip)" using ref1(2) by (simp add: fs_good_def)
    then have p: "0 < i_ref (icache u ip)" using u(3) by simp
    obtain u' where u': "iunlockput ip u = Some u'" "fs_good u' I H" "same_disk u u'" "\<forall>j. j \<noteq> ip \<longrightarrow> icache u' j = icache u j"
      "i_ref (icache u' ip) = i_ref (icache u ip) - 1" "i_inum (icache u' ip) = i_inum (icache u ip)"
      using iput_good [OF u(1) ref1(2) p] by metis
    have n: "i_inum (icache u' j) = i_inum (icache u j)" for j using u'(4,6) by (cases "j = ip") simp_all
    have rf: "i_ref (icache u' j) = i_ref (icache s0 j) + (if r = Some j then 1 else 0)" for j
      using u'(4,5) u(3) by (cases "j = ip") simp_all
    have "lookup_inv s0 u' I H r"
      using g0 u'(2) same_disk_trans [OF u(2) u'(3)] u(4,5) n rf by (simp add: lookup_inv_def)
    then show ?thesis using u'(1) n by blast
  qed
  show ?thesis
  proof (rule that [OF 1(1) i1 e(1)])
    show "i_type (icache s1 ip) = d_type (dino s0 ?n)" using d(1) e by simp
    have rel: "\<exists>u'. iunlockput ip u = Some u' \<and> lookup_inv s0 u' I H None" if u: "lookup_inv s0 u I H (Some ip)" for u
    proof -
      have "\<forall>j. i_ref (icache u j) = i_ref (icache s0 j) + (if None = Some j then 1 else 0) + (if j = ip then 1 else 0)"
        using u by (auto simp: lookup_inv_def)
      from put [OF _ _ this] u show ?thesis by (auto simp: lookup_inv_def)
    qed
    show "\<exists>s2. iunlock ip s1 = Some s1 \<and> iunlockput ip s1 = Some s2 \<and> lookup_inv s0 s2 I H None"
      using rel [OF i1] ref1(1) by (auto simp: iunlock_def)
    show "d_type (dino s0 ?n) = T_DIR \<longrightarrow> (case dir_find (file_bytes s0 ?n) name of
         None \<Rightarrow> \<exists>s2 s3. dirlookup s1 ip name = Some (None, s2) \<and> iunlockput ip s2 = Some s3 \<and> lookup_inv s0 s3 I H None
       | Some (_, m) \<Rightarrow> \<exists>nxt off s2 s3. dirlookup s1 ip name = Some (Some (nxt, off), s2) \<and> iunlockput ip s2 = Some s3 \<and>
           lookup_inv s0 s3 I H (Some nxt) \<and> i_inum (icache s3 nxt) = ucast m)"
    proof
    assume "d_type (dino s0 ?n) = T_DIR"
    then have ty: "i_type (icache s1 ip) = T_DIR" using d(1) e by simp
    have dk: "dir_ok s1 ip H" "content s1 ip = file_bytes s0 ?n" using d(2) [OF ty] e by simp_all
    obtain s' where s': "file_inv s' ip H" "same_fs s1 s'" "dirlookup s1 ip name = (case dir_find (file_bytes s0 ?n) name of
        None \<Rightarrow> Some (None, s') | Some (off, inum) \<Rightarrow> do { (ip, t) \<leftarrow> iget s' ROOTDEV (ucast inum); Some (Some (ip, of_nat off), t) })"
      using dirlookup_ok [OF dk(1), of name] unfolding dk(2) by blast
    note ic = same_fs_dir(3) [OF s'(2) dk(1) s'(1)]
    have sd': "same_disk s1 s'" using s'(2) blk_rest_fs(2) by (auto simp: same_fs_def same_disk_def)
    have g': "fs_good s' I H"
      using 1(2) file_invD(1) [OF s'(1)] by (simp add: fs_good_def icache_good_def ic same_disk_tree [OF sd'])
    have l': "lookup_inv s0 s' I H (Some ip)" using i1 g' same_disk_trans [OF sd sd'] by (simp add: lookup_inv_def ic)
    show "case dir_find (file_bytes s0 ?n) name of
         None \<Rightarrow> \<exists>s2 s3. dirlookup s1 ip name = Some (None, s2) \<and> iunlockput ip s2 = Some s3 \<and> lookup_inv s0 s3 I H None
       | Some (_, m) \<Rightarrow> \<exists>nxt off s2 s3. dirlookup s1 ip name = Some (Some (nxt, off), s2) \<and> iunlockput ip s2 = Some s3 \<and>
           lookup_inv s0 s3 I H (Some nxt) \<and> i_inum (icache s3 nxt) = ucast m"
    proof (cases "dir_find (file_bytes s0 ?n) name")
      case None
      then show ?thesis using s'(3) rel [OF l'] by auto
    next
      case (Some om)
      obtain off m where om: "om = (off, m)" by (cases om)
      have "inode_good s0 I ?n" using i1 1(2) e(1) ref1 same_disk_tree(3) [OF sd]
        by (auto simp: fs_good_def icache_good_def lookup_inv_def)
      then have m: "ucast m \<in> I" using Some om \<open>d_type (dino s0 ?n) = T_DIR\<close> by (auto simp: inode_good_def)
      obtain nxt t where t: "iget s' ROOTDEV (ucast m) = Some (nxt, t)" "nxt < NINODE" "fs_good t I H" "same_disk s' t"
        "i_inum (icache t nxt) = ucast m" "\<forall>j. j \<noteq> nxt \<longrightarrow> icache t j = icache s' j"
        "i_ref (icache t nxt) = i_ref (icache s' nxt) + 1" "0 < i_ref (icache s' nxt) \<longrightarrow> i_inum (icache s' nxt) = ucast m"
        using iget_good [OF g' m lookup_free [OF l' free]] by metis
      have rf: "i_ref (icache t j) = i_ref (icache s0 j) + (if Some nxt = Some j then 1 else 0) + (if j = ip then 1 else 0)" for j
        using l' t(6,7) by (cases "j = nxt") (auto simp: lookup_inv_def)
      have "i_inum (icache t j) = i_inum (icache s0 j)" if "j < NINODE" "0 < i_ref (icache s0 j)" for j
      proof (cases "j = nxt")
        case True
        then have "0 < i_ref (icache s' nxt)" using l' that by (simp add: lookup_inv_def)
        then show ?thesis using t(5,8) l' that True by (simp add: lookup_inv_def)
      qed (use t(6) l' that in \<open>simp add: lookup_inv_def\<close>)
      moreover have "same_disk s0 t" using l' t(4) same_disk_trans by (auto simp: lookup_inv_def)
      ultimately obtain u where u: "iunlockput ip t = Some u" "lookup_inv s0 u I H (Some nxt)" "\<forall>j. i_inum (icache u j) = i_inum (icache t j)"
        using put [of t "Some nxt"] t(2,3) rf by auto
      have "dirlookup s1 ip name = Some (Some (nxt, of_nat off), t)" using s'(3) Some om t(1) by simp
      then show ?thesis using Some om u t(5) by auto
    qed
    qed
  qed
qed


lemma namei_loop_ok:
  assumes "lookup_inv s0 s I H (Some ip)" and free: "2 \<le> card (free_slot s0)" and "length name = DIRSIZ"
  shows "\<exists>r s'. namei_loop s ip path name = Some (r, s') \<and> lookup_inv s0 s' I H r \<and>
    map_option (\<lambda>j. i_inum (icache s' j)) r = tree_walk s0 (i_inum (icache s ip)) (path_components path)"
  using assms(1,3)
proof (induction "length path" arbitrary: s ip path name rule: less_induct)
  case less
  show ?case
  proof (cases "skipelem path name")
    case None
    then have "path_components path = []" using skipelem_spec [OF less.prems(2), of path] by simp
    then show ?thesis using None less.prems(1) by (simp add: namei_loop.simps)
  next
    case (Some r)
    obtain path' name' where r: "r = (path', name')" by (cases r)
    have sk: "length name' = DIRSIZ" "path_components path = take DIRSIZ (cstr name') # path_components path'"
      using skipelem_spec [OF less.prems(2), of path] Some r by simp_all
    let ?n = "i_inum (icache s ip)"
    obtain s1 where 1: "ilock ip s = Some s1" "i_type (icache s1 ip) = d_type (dino s0 ?n)"
      "\<exists>s2. iunlock ip s1 = Some s1 \<and> iunlockput ip s1 = Some s2 \<and> lookup_inv s0 s2 I H None"
      "d_type (dino s0 ?n) = T_DIR \<longrightarrow> (case dir_find (file_bytes s0 ?n) name' of
         None \<Rightarrow> \<exists>s2 s3. dirlookup s1 ip name' = Some (None, s2) \<and> iunlockput ip s2 = Some s3 \<and> lookup_inv s0 s3 I H None
       | Some (_, m) \<Rightarrow> \<exists>nxt off s2 s3. dirlookup s1 ip name' = Some (Some (nxt, off), s2) \<and> iunlockput ip s2 = Some s3 \<and>
           lookup_inv s0 s3 I H (Some nxt) \<and> i_inum (icache s3 nxt) = ucast m)"
      by (rule lookup_step [OF less.prems(1) free, of name']) (rule that; assumption)
    note step = namei_loop.simps [of s ip path name] Some r 1(1,2) sk(2)
    show ?thesis
    proof (cases "d_type (dino s0 ?n) = T_DIR")
      case False
      then show ?thesis using 1(3) by (auto simp: step)
    next
      case True
      show ?thesis
      proof (cases "dir_find (file_bytes s0 ?n) name'")
        case None
        then show ?thesis using 1(4) True by (auto simp: step dir_find_name)
      next
        case (Some om)
        obtain off m where om: "om = (off, m)" by (cases om)
        obtain nxt off' s2 s3 where 2: "dirlookup s1 ip name' = Some (Some (nxt, off'), s2)" "iunlockput ip s2 = Some s3"
          "lookup_inv s0 s3 I H (Some nxt)" "i_inum (icache s3 nxt) = ucast m"
          using 1(4) True Some om by auto
        have "length path' < length path" using skipelem_shorter \<open>skipelem path name = Some r\<close> r by simp
        from less.hyps [OF this 2(3) sk(1)] show ?thesis using True Some om 2 by (simp add: step dir_find_name)
      qed
    qed
  qed
qed

text \<open>The directory that holds the last name of a path.\<close>

definition parent_walk :: "'a fs_st_scheme \<Rightarrow> u32 \<Rightarrow> u8 list list \<Rightarrow> (u32 \<times> u8 list) option" where
  "parent_walk s n cs =
     (if cs = [] then None
      else case tree_walk s n (butlast cs) of
        None \<Rightarrow> None
      | Some m \<Rightarrow> if d_type (dino s m) = T_DIR then Some (m, last cs) else None)"

lemma parent_walk_simps:
  "parent_walk s n [] = None"
  "parent_walk s n [c] = (if d_type (dino s n) = T_DIR then Some (n, c) else None)"
  "cs \<noteq> [] \<Longrightarrow> parent_walk s n (c # cs) = (if d_type (dino s n) \<noteq> T_DIR then None
     else case dir_find (file_bytes s n) c of None \<Rightarrow> None | Some (_, m) \<Rightarrow> parent_walk s (ucast m) cs)"
  by (auto simp: parent_walk_def split: option.split)

text \<open>The rest of a path is empty exactly when no component is left.\<close>

lemma skipelem_last:
  assumes "skipelem path name = Some (path', name')"
  shows "cchar path' 0 = 0 \<longleftrightarrow> path_components path' = []"
proof -
  obtain q where q: "path' = dropWhile (\<lambda>c. c = 47) q" using assms by (auto simp: skipelem_def Let_def split: if_splits)
  then have i: "dropWhile (\<lambda>c. c = 47) path' = path'" by simp
  show ?thesis
    using elems_step(1,2) [of path'] unfolding i by (cases "cchar path' 0 = 0") (simp_all add: path_components_def)
qed

lemma nameiparent_loop_ok:
  assumes "lookup_inv s0 s I H (Some ip)" and free: "2 \<le> card (free_slot s0)" and "length name = DIRSIZ"
  shows "\<exists>r s'. nameiparent_loop s ip path name = Some (r, s') \<and> lookup_inv s0 s' I H (map_option fst r) \<and>
    map_option (\<lambda>(j, nm). (i_inum (icache s' j), take DIRSIZ (cstr nm))) r = parent_walk s0 (i_inum (icache s ip)) (path_components path)"
  using assms(1,3)
proof (induction "length path" arbitrary: s ip path name rule: less_induct)
  case less
  let ?n = "i_inum (icache s ip)"
  show ?case
  proof (cases "skipelem path name")
    case None
    then have c: "path_components path = []" using skipelem_spec [OF less.prems(2), of path] by simp
    obtain s1 where "iput ip s = Some s1" "fs_good s1 I H" "same_disk s s1" "\<forall>j. j \<noteq> ip \<longrightarrow> icache s1 j = icache s j"
      "i_ref (icache s1 ip) = i_ref (icache s ip) - 1" "i_inum (icache s1 ip) = i_inum (icache s ip)"
      using iput_good [of s I H ip] lookup_inv_ref [OF less.prems(1)] by metis
    moreover have "lookup_inv s0 s1 I H None"
    proof -
      have "i_ref (icache s1 j) = i_ref (icache s0 j) \<and> i_inum (icache s1 j) = i_inum (icache s j)" for j
        using calculation(4-6) less.prems(1) by (cases "j = ip") (auto simp: lookup_inv_def)
      then show ?thesis using calculation(2,3) less.prems(1) same_disk_trans by (auto simp: lookup_inv_def)
    qed
    ultimately show ?thesis using None by (simp add: nameiparent_loop.simps c parent_walk_simps)
  next
    case (Some r)
    obtain path' name' where r: "r = (path', name')" by (cases r)
    have sk: "length name' = DIRSIZ" "path_components path = take DIRSIZ (cstr name') # path_components path'"
      using skipelem_spec [OF less.prems(2), of path] Some r by simp_all
    have la: "cchar path' 0 = 0 \<longleftrightarrow> path_components path' = []" using skipelem_last Some r by simp
    obtain s1 where 1: "ilock ip s = Some s1" "lookup_inv s0 s1 I H (Some ip)" "i_inum (icache s1 ip) = ?n"
      "i_type (icache s1 ip) = d_type (dino s0 ?n)"
      "\<exists>s2. iunlock ip s1 = Some s1 \<and> iunlockput ip s1 = Some s2 \<and> lookup_inv s0 s2 I H None"
      "d_type (dino s0 ?n) = T_DIR \<longrightarrow> (case dir_find (file_bytes s0 ?n) name' of
         None \<Rightarrow> \<exists>s2 s3. dirlookup s1 ip name' = Some (None, s2) \<and> iunlockput ip s2 = Some s3 \<and> lookup_inv s0 s3 I H None
       | Some (_, m) \<Rightarrow> \<exists>nxt off s2 s3. dirlookup s1 ip name' = Some (Some (nxt, off), s2) \<and> iunlockput ip s2 = Some s3 \<and>
           lookup_inv s0 s3 I H (Some nxt) \<and> i_inum (icache s3 nxt) = ucast m)"
      by (rule lookup_step [OF less.prems(1) free, of name']) (rule that; assumption)
    note step = nameiparent_loop.simps [of s ip path name] Some r 1(1,4) sk(2)
    show ?thesis
    proof (cases "path_components path' = [] \<or> d_type (dino s0 ?n) \<noteq> T_DIR")
      case True
      then show ?thesis using 1(2,3,5) la
        by (cases "d_type (dino s0 ?n) = T_DIR"; cases "path_components path' = []") (auto simp: step parent_walk_simps)
    next
      case False
      then have t: "d_type (dino s0 ?n) = T_DIR" "path_components path' \<noteq> []" "cchar path' 0 \<noteq> 0" using la by simp_all
      show ?thesis
      proof (cases "dir_find (file_bytes s0 ?n) name'")
        case None
        then show ?thesis using 1(6) t by (auto simp: step parent_walk_simps dir_find_name)
      next
        case (Some om)
        obtain off m where om: "om = (off, m)" by (cases om)
        obtain nxt off' s2 s3 where 2: "dirlookup s1 ip name' = Some (Some (nxt, off'), s2)" "iunlockput ip s2 = Some s3"
          "lookup_inv s0 s3 I H (Some nxt)" "i_inum (icache s3 nxt) = ucast m"
          using 1(6) t(1) Some om by auto
        have "length path' < length path" using skipelem_shorter \<open>skipelem path name = Some r\<close> r by simp
        from less.hyps [OF this 2(3) sk(1)] show ?thesis using t Some om 2 by (simp add: step parent_walk_simps dir_find_name)
      qed
    qed
  qed
qed

section \<open>Where a lookup starts\<close>

definition cwd_good :: "'a fs_st_scheme \<Rightarrow> bool" where
  "cwd_good s \<longleftrightarrow> (\<exists>p. myproc s = Some p \<and> (\<forall>ip. cwd (procs s p) = Some ip \<longrightarrow> ip < NINODE \<and> 0 < i_ref (icache s ip)))"

definition start_inum :: "'a fs_st_scheme \<Rightarrow> u8 list \<Rightarrow> u32" where
  "start_inum s path =
     (if cchar path 0 = 47 then ROOTINO
      else case myproc s of None \<Rightarrow> ROOTINO
      | Some p \<Rightarrow> (case cwd (procs s p) of None \<Rightarrow> ROOTINO | Some ip \<Rightarrow> i_inum (icache s ip)))"

lemma namei_start_ok:
  assumes g: "fs_good s I H" and c: "cwd_good s" and free: "2 \<le> card (free_slot s)"
  obtains ip s1 where "namei_start s path = Some (ip, s1)" and "lookup_inv s s1 I H (Some ip)"
    and "i_inum (icache s1 ip) = start_inum s path"
proof -
  have "free_slot s \<noteq> {}" using free by auto
  moreover have "ROOTINO \<in> I" using g by (simp add: fs_good_def)
  ultimately obtain ip s1 where 1: "iget s ROOTDEV ROOTINO = Some (ip, s1)" "ip < NINODE" "fs_good s1 I H" "same_disk s s1"
    "i_inum (icache s1 ip) = ROOTINO" "\<forall>j. j \<noteq> ip \<longrightarrow> icache s1 j = icache s j"
    "i_ref (icache s1 ip) = i_ref (icache s ip) + 1" "0 < i_ref (icache s ip) \<longrightarrow> i_inum (icache s ip) = ROOTINO"
    using iget_good [OF g] by metis
  have "i_ref (icache s1 j) = i_ref (icache s j) + (if Some ip = Some j then 1 else 0)" for j
    using 1(6,7) by (cases "j = ip") auto
  moreover have "i_inum (icache s1 j) = i_inum (icache s j)" if "0 < i_ref (icache s j)" for j
    using 1(5,6,8) that by (cases "j = ip") auto
  ultimately have root: "lookup_inv s s1 I H (Some ip)" using g 1(2-4) by (simp add: lookup_inv_def)
  obtain p where p: "myproc s = Some p" "\<And>ip. cwd (procs s p) = Some ip \<Longrightarrow> ip < NINODE \<and> 0 < i_ref (icache s ip)"
    using c by (auto simp: cwd_good_def)
  show ?thesis
  proof (cases "cchar path 0 = 47 \<or> cwd (procs s p) = None")
    case True
    then show ?thesis using that [of ip s1] root 1(1,5) p(1) by (auto simp: namei_start_def start_inum_def)
  next
    case False
    then obtain ci where ci: "cwd (procs s p) = Some ci" "cchar path 0 \<noteq> 47" by auto
    note r = p(2) [OF ci(1)]
    have ic: "icache_good s I ci" using g r by (simp add: fs_good_def)
    have "dinode_of (i\<lparr>i_ref := r\<rparr>) = dinode_of i" for i r by (simp add: dinode_of_def)
    then have "icache_good (idup ci s) I ci" using ic by (simp add: icache_good_def idup_def same_disk_tree [OF same_disk_upd])
    then have "fs_good (idup ci s) I H"
      unfolding idup_def by (intro fs_good_upd [OF g, where ip = ci]) (use g r in \<open>auto simp: fs_good_def\<close>)
    then have "lookup_inv s (idup ci s) I H (Some ci)" using g r by (auto simp: lookup_inv_def idup_def)
    then show ?thesis using that [of ci "idup ci s"] ci p(1) by (simp add: namei_start_def start_inum_def idup_def)
  qed
qed

section \<open>Properties\<close>

text \<open>
  Property C8 (equivalence). Path lookup. If the inode cache agrees with the disk, the directories
  of the disk are well formed, and two inode-cache slots are free, then \<open>namei\<close> and \<open>nameiparent\<close>
  return (no panic, no endless loop) the inode that the walk through the directories on the disk from
  the root or the working directory reaches, NULL when a name is missing or a component is not a
  directory, write nothing to the disk, and take exactly one reference, to the inode they return;
  the well-formedness is kept.
\<close>

theorem path_lookup_follows_tree:
  assumes "fs_good s I H" and "cwd_good s" and "2 \<le> card {j. j < NINODE \<and> i_ref (icache s j) = 0}"
  shows "(\<exists>r s'. namei s path = Some (r, s') \<and>
      map_option (\<lambda>j. i_inum (icache s' j)) r = tree_walk s (start_inum s path) (path_components path) \<and>
      fs_good s' I H \<and> disk_blocks s' = disk_blocks s \<and>
      (\<forall>j. i_ref (icache s' j) = i_ref (icache s j) + (if r = Some j then 1 else 0))) \<and>
    (\<exists>r s'. nameiparent s path = Some (r, s') \<and>
      map_option (\<lambda>(j, nm). (i_inum (icache s' j), take DIRSIZ (cstr nm))) r = parent_walk s (start_inum s path) (path_components path) \<and>
      fs_good s' I H \<and> disk_blocks s' = disk_blocks s \<and>
      (\<forall>j. i_ref (icache s' j) = i_ref (icache s j) + (if map_option fst r = Some j then 1 else 0)))"
proof -
  have free: "2 \<le> card (free_slot s)" using assms(3) by (simp add: free_slot_def)
  obtain ip s1 where 1: "namei_start s path = Some (ip, s1)" "lookup_inv s s1 I H (Some ip)" "i_inum (icache s1 ip) = start_inum s path"
    by (rule namei_start_ok [OF assms(1,2) free])
  have "length (replicate DIRSIZ 0 :: u8 list) = DIRSIZ" by simp
  from namei_loop_ok [OF 1(2) free this, of path] nameiparent_loop_ok [OF 1(2) free this, of path]
  show ?thesis unfolding namei_def nameiparent_def 1(1,3) by (auto simp: lookup_inv_def same_disk_def)
qed


text \<open>A disk with a root directory that holds one file, named a.\<close>

definition root_dinode :: dinode where
  "root_dinode = \<lparr>d_type = T_DIR, d_major = 0, d_minor = 0, d_nlink = 2, d_size = 16, d_addrs = 5 # replicate 12 0\<rparr>"

definition file_dinode :: dinode where
  "file_dinode = \<lparr>d_type = T_FILE, d_major = 0, d_minor = 0, d_nlink = 1, d_size = 0, d_addrs = replicate 13 0\<rparr>"

definition tree_blocks :: "u32 \<Rightarrow> u8 list" where
  "tree_blocks = (\<lambda>n. replicate BSIZE 0)(15 := 0xFF # 0xFF # replicate (BSIZE - 2) 0,
     2 := put_dinode (put_dinode (replicate BSIZE 0) 2 file_dinode) 1 root_dinode,
     5 := encode_dirent 2 (97 # replicate 13 0) @ replicate (BSIZE - 16) 0)"

definition tree_fs :: fs_st where
  "tree_fs = blk_st.extend (binit (boot_blk\<lparr>disk_blocks := tree_blocks, cpu := \<lparr>cproc = Some 0, noff = 0, intena = False\<rparr>\<rparr>))
     \<lparr>icache = (\<lambda>_. \<lparr>i_dev = 0, i_inum = 0, i_ref = 0, i_valid = False, i_type = 0, i_major = 0, i_minor = 0, i_nlink = 0,
        i_size = 0, i_addrs = []\<rparr>)\<rparr>"

lemma tree_fs_simps [simp]:
  "disk_blocks tree_fs = tree_blocks" "sb tree_fs = sb boot_blk" "i_ref (icache tree_fs j) = 0" "myproc tree_fs = Some 0"
  "cwd (procs tree_fs p) = None" "bcache tree_fs = bcache (binit (boot_blk\<lparr>disk_blocks := tree_blocks\<rparr>))"
  by (simp_all add: tree_fs_def blk_st.defs binit_def myproc_def) (simp add: boot_blk_def zero_proc_def)

lemma tree_dinodes: "dino tree_fs 1 = root_dinode" "dino tree_fs 2 = file_dinode" "inode_block (sb boot_blk) 1 = 2"
  "inode_block (sb boot_blk) 2 = 2" "\<forall>n. length (tree_blocks n) = BSIZE"
proof -
  show b: "inode_block (sb boot_blk) 1 = 2" "inode_block (sb boot_blk) 2 = 2"
    by (simp_all add: inode_block_def IPB_def boot_blk_def)
  have l: "length (d_addrs root_dinode) = NDIRECT + 2" "length (d_addrs file_dinode) = NDIRECT + 2"
    by (simp_all add: root_dinode_def file_dinode_def NDIRECT_def)
  note p = dinode_at_put [OF _ l(2), of "replicate BSIZE 0" 2]
  note q = dinode_at_put [OF p(2) l(1), of 1]
  have "tree_blocks 2 = put_dinode (put_dinode (replicate BSIZE 0) 2 file_dinode) 1 root_dinode" by (simp add: tree_blocks_def)
  then show "dino tree_fs 1 = root_dinode" "dino tree_fs 2 = file_dinode"
    using p(1) q(1) by (simp_all add: dino_def b IPB_def)
  show "\<forall>n. length (tree_blocks n) = BSIZE"
    using q(2) by (simp add: tree_blocks_def encode_dirent_def BSIZE_def)
qed

lemma tree_slots:
  assumes "is_slot q"
  shows "slot tree_blocks (replicate 13 0) q = 0" and "slot tree_blocks (5 # replicate 12 0) q = (if q = [0] then 5 else 0)"
  using assms by (cases q rule: is_slot.cases; auto simp: kdefs nth_Cons split: nat.splits)+

lemma tree_dir: "file_bytes tree_fs 1 = encode_dirent 2 (97 # replicate 13 0)"
proof -
  have "slot tree_blocks (5 # replicate 12 0) (bpath (k div BSIZE)) = 5" if "k < 16" for k
    using that by (simp add: bpath_def BSIZE_def NDIRECT_def)
  then have "file_bytes tree_fs 1 = map (\<lambda>k. tree_blocks 5 ! k) [0..<16]"
    by (simp add: file_bytes_def tree_dinodes(1)) (simp add: root_dinode_def Let_def BSIZE_def)
  also have "\<dots> = take 16 (tree_blocks 5)"
    using tree_dinodes(5) by (intro nth_equalityI) (simp_all add: BSIZE_def)
  finally show ?thesis by (simp add: tree_blocks_def encode_dirent_def)
qed

lemma tree_find: "dir_find (file_bytes tree_fs 1) nm = (if take DIRSIZ (cstr nm) = [97] then Some (0, 2) else None)"
proof -
  have i: "de_inum (encode_dirent 2 (97 # replicate 13 0)) = 2" "length (encode_dirent 2 (97 # replicate 13 0)) = 16"
    "cstr (de_name (encode_dirent 2 (97 # replicate 13 0))) = [97]"
    using le_word_le_bytes [of 2 "2 :: u16"] by (simp_all add: de_inum_def de_name_def encode_dirent_def cstr_def)
  then show ?thesis
    by (auto simp: dir_find_def tree_dir de_size_def hit_def dent_def DIRSIZ_def upt_rec)
qed

lemma tree_fs_good: "fs_good tree_fs {1, 2} {#}"
proof -
  have u: "used tree_fs n = used small_disk n" if "n < 2000" for n
    using that by (simp add: used_in_def small_BMAP tree_blocks_def)
  have us: "used small_disk n" if "n \<in> {0, 2, 5, 15}" for n
    using that by (auto simp: used_in_def small_BMAP bit_at_def BPB_def BSIZE_def bit_numeral_rec)
  have sz: "sb_size (sb boot_blk) = 2000" by (simp add: boot_blk_def)
  have t: "n \<in> taken_blocks tree_fs" if "n \<in> {0, 2, 5, 15}" for n
    using that us [OF that] u by (auto simp: taken_blocks_def sz)
  have bm: "bitmap_blocks tree_fs = {15}"
    using small_BMAP [of 0] sz by (auto simp: bitmap_blocks_def small_BMAP intro: exI [of _ 0])
  have "cache_boot (boot_blk\<lparr>disk_blocks := tree_blocks\<rparr>)" using tree_dinodes(5) by (simp add: cache_boot_def boot_blk_def)
  then have "bc_inv tree_fs {#}" using binit_inv by (fastforce simp: bc_inv_def binit_def)
  then have "alloc_inv tree_fs {#}" using small_BMAP sz us [of 15] u [of 15] by (auto simp: alloc_inv_def bitmap_reserved_def)
  moreover have "inode_good tree_fs {1, 2} 1"
    unfolding inode_good_def tree_dinodes tree_find tree_fs_simps
    using t bm tree_slots(2) by (auto simp: map_ok_def root_dinode_def kdefs de_size_def bpath_def split: if_splits)
  moreover have "inode_good tree_fs {1, 2} 2"
    unfolding inode_good_def tree_dinodes tree_fs_simps
    using t bm tree_slots(1) by (auto simp: map_ok_def file_dinode_def kdefs)
  ultimately show ?thesis using t by (simp add: fs_good_def ROOTINO_def NBUF_def)
qed

theorem path_lookup_follows_tree_witness:
  "(\<exists>ip s'. namei tree_fs [47, 97, 0] = Some (Some ip, s') \<and> i_inum (icache s' ip) = 2 \<and> i_ref (icache s' ip) = 1) \<and>
   (\<exists>s'. namei tree_fs [98, 0] = Some (None, s') \<and> (\<forall>j. i_ref (icache s' j) = 0))"
proof -
  have c: "cwd_good tree_fs" by (simp add: cwd_good_def)
  have f: "2 \<le> card {j. j < NINODE \<and> i_ref (icache tree_fs j) = 0}" by (simp add: NINODE_def)
  have pc: "path_components [47, 97, 0] = [[97]]" "path_components [98, 0] = [[98]]"
    by (simp_all add: path_components_def elems_def DIRSIZ_def)
  have st: "start_inum tree_fs p = 1" for p by (simp add: start_inum_def ROOTINO_def)
  have ty: "d_type (dino tree_fs 1) = T_DIR" by (simp add: tree_dinodes root_dinode_def)
  have w: "tree_walk tree_fs 1 [[97]] = Some 2" "tree_walk tree_fs 1 [[98]] = None"
    by (simp_all add: ty tree_find DIRSIZ_def)
  show ?thesis
    using path_lookup_follows_tree [OF tree_fs_good c f, of "[47, 97, 0]"]
      path_lookup_follows_tree [OF tree_fs_good c f, of "[98, 0]"]
    unfolding pc st w tree_fs_simps by (auto split: if_splits)
qed

end
