(* ===== verification/Malloc.thy ===== *)
theory Malloc
  imports Mem
begin

text \<open>
  The allocator of user programs, \<open>user/malloc.c\<close>: a circular list of free blocks in address
  order, first fit, neighbours merged on \<open>free\<close>. A header is the pair of \<open>ptr\<close> (8 bytes) and
  \<open>size\<close> (4 bytes, in headers of 16 bytes) in front of a block, in the program's own memory, so a
  stray link would be read back as the program's data. The system call \<open>sbrk\<close> is a parameter.
\<close>

section \<open>State and operations\<close>

record uheap =
  umem :: mem
  hbase :: u64      \<comment> \<open>address of the static header \<open>base\<close>\<close>
  freep :: u64
  brk :: u64        \<comment> \<open>end of the program's memory\<close>

definition hptr :: "mem \<Rightarrow> u64 \<Rightarrow> u64" where "hptr m p = load64 m p"
definition hsize :: "mem \<Rightarrow> u64 \<Rightarrow> u32" where "hsize m p = le_word (mem_read m (p + 8) 4)"

definition set_ptr :: "u64 \<Rightarrow> u64 \<Rightarrow> mem \<Rightarrow> mem" where "set_ptr p v m = store64 m p v"
definition set_size :: "u64 \<Rightarrow> u32 \<Rightarrow> mem \<Rightarrow> mem" where "set_size p n m = mem_write m (p + 8) (le_bytes 4 n)"

text \<open>\<open>p + p->s.size\<close>, in headers.\<close>

definition hend :: "mem \<Rightarrow> u64 \<Rightarrow> u64" where "hend m p = p + 16 * ucast (hsize m p)"

text \<open>The loop of \<open>free\<close> for the place of a block in the list.\<close>

partial_function (option) free_find :: "mem \<Rightarrow> u64 \<Rightarrow> u64 \<Rightarrow> u64 option" where
  "free_find m bp p =
     (if p < bp \<and> bp < hptr m p then Some p
      else if hptr m p \<le> p \<and> (p < bp \<or> bp < hptr m p) then Some p
      else free_find m bp (hptr m p))"

definition free_join :: "u64 \<Rightarrow> u64 \<Rightarrow> mem \<Rightarrow> mem" where
  "free_join bp p m =
     (let m = (if hend m bp = hptr m p
               then let n = hptr m p; m = set_size bp (hsize m bp + hsize m n) m in set_ptr bp (hptr m n) m
               else set_ptr bp (hptr m p) m)
      in if hend m p = bp
         then let m = set_size p (hsize m p + hsize m bp) m in set_ptr p (hptr m bp) m
         else set_ptr p bp m)"

definition free :: "u64 \<Rightarrow> uheap \<Rightarrow> uheap option" where
  "free ap h =
     (if ap = 0 then Some h
      else do { let bp = ap - 16;
                p \<leftarrow> free_find (umem h) bp (freep h);
                Some (h\<lparr>umem := free_join bp p (umem h), freep := p\<rparr>) })"

definition morecore :: "(u64 \<Rightarrow> uheap \<Rightarrow> u64 \<times> uheap) \<Rightarrow> u32 \<Rightarrow> uheap \<Rightarrow> (u64 \<times> uheap) option" where
  "morecore sbrk nu h =
     (let nu = (if nu < 4096 then 4096 else nu);
          (cp, h) = sbrk (ucast nu * 16) h
      in if cp = - 1 then Some (0, h)
         else do { h \<leftarrow> free (cp + 16) (h\<lparr>umem := set_size cp nu (umem h)\<rparr>);
                   Some (freep h, h) })"

text \<open>Taking \<open>n\<close> headers from the block at \<open>p\<close>, the successor of \<open>prevp\<close>.\<close>

definition malloc_take :: "u32 \<Rightarrow> u64 \<Rightarrow> u64 \<Rightarrow> uheap \<Rightarrow> u64 \<times> uheap" where
  "malloc_take n prevp p h =
     (let m = umem h in
      if hsize m p = n
      then (p + 16, h\<lparr>umem := set_ptr prevp (hptr m p) m, freep := prevp\<rparr>)
      else let m = set_size p (hsize m p - n) m; q = hend m p
           in (q + 16, h\<lparr>umem := set_size q n m, freep := prevp\<rparr>))"

partial_function (option) malloc_loop ::
  "(u64 \<Rightarrow> uheap \<Rightarrow> u64 \<times> uheap) \<Rightarrow> u32 \<Rightarrow> u64 \<Rightarrow> u64 \<Rightarrow> uheap \<Rightarrow> (u64 \<times> uheap) option" where
  "malloc_loop sbrk n prevp p h =
     (if n \<le> hsize (umem h) p then Some (malloc_take n prevp p h)
      else if p = freep h
      then do { (p, h) \<leftarrow> morecore sbrk n h;
                if p = 0 then Some (0, h) else malloc_loop sbrk n p (hptr (umem h) p) h }
      else malloc_loop sbrk n p (hptr (umem h) p) h)"

definition malloc_init :: "uheap \<Rightarrow> uheap" where
  "malloc_init h =
     (if freep h = 0
      then h\<lparr>umem := set_size (hbase h) 0 (set_ptr (hbase h) (hbase h) (umem h)), freep := hbase h\<rparr>
      else h)"

definition nunits :: "u32 \<Rightarrow> u32" where
  "nunits nbytes = ucast (((ucast nbytes :: u64) + 16 - 1) div 16 + 1)"

definition malloc :: "(u64 \<Rightarrow> uheap \<Rightarrow> u64 \<times> uheap) \<Rightarrow> u32 \<Rightarrow> uheap \<Rightarrow> (u64 \<times> uheap) option" where
  "malloc sbrk nbytes h =
     (let h = malloc_init h
      in malloc_loop sbrk (nunits nbytes) (freep h) (hptr (umem h) (freep h)) h)"

definition realloc :: "(u64 \<Rightarrow> uheap \<Rightarrow> u64 \<times> uheap) \<Rightarrow> u64 \<Rightarrow> u32 \<Rightarrow> uheap \<Rightarrow> (u64 \<times> uheap) option" where
  "realloc sbrk ap nbytes h =
     (if ap = 0 then malloc sbrk nbytes h
      else let old_bytes = (hsize (umem h) (ap - 16) - 1) * 16
        in if nbytes \<le> old_bytes then Some (ap, h)
           else do { (new_ptr, h) \<leftarrow> malloc sbrk nbytes h;
                     if new_ptr = 0 then Some (0, h)
                     else do { h \<leftarrow> free ap (h\<lparr>umem := fold (copy_byte new_ptr ap) [0..<unat old_bytes] (umem h)\<rparr>);
                               Some (new_ptr, h) } })"

section \<open>Headers in memory\<close>

lemma mem_write_far:
  assumes "aligned 16 p" and "aligned 16 q" and "p \<noteq> q" and "j + length bs \<le> 16" and "i < 16"
  shows "mem_write m (p + of_nat j) bs (q + of_nat i) = m (q + of_nat i)"
proof (rule mem_write_out)
  have d: "16 \<le> unat (q + of_nat i - p)" using aligned_disjoint [of 16 p q i] assms by simp
  have j: "unat (of_nat j :: u64) = j" using assms(4) by (simp add: unat_of_nat)
  have e: "q + of_nat i - (p + of_nat j) = (q + of_nat i - p) - of_nat j" by (simp add: diff_diff_eq)
  have u: "unat ((q + of_nat i - p) - of_nat j) = unat (q + of_nat i - p) - j"
    using d assms(4) j by (simp add: unat_sub word_le_nat_alt)
  show "length bs \<le> unat (q + of_nat i - (p + of_nat j))" unfolding e u using d assms(4) by linarith
qed

lemma hdr_write:
  assumes "aligned 16 p" and "aligned 16 q" and "p \<noteq> q"
  shows "hptr (set_ptr p v m) q = hptr m q" and "hsize (set_ptr p v m) q = hsize m q"
    and "hptr (set_size p n m) q = hptr m q" and "hsize (set_size p n m) q = hsize m q"
proof -
  have f: "set_ptr p v m (q + of_nat i) = m (q + of_nat i)" "set_size p n m (q + of_nat i) = m (q + of_nat i)" if "i < 16" for i
    using mem_write_far [OF assms, of 0 "le_bytes 8 v" i m] mem_write_far [OF assms, of 8 "le_bytes 4 n" i m] that
    by (simp_all add: set_ptr_def store64_def set_size_def)
  have e: "q + 8 + of_nat i = q + of_nat (8 + i)" for i by (simp add: add.assoc)
  show "hptr (set_ptr p v m) q = hptr m q" "hptr (set_size p n m) q = hptr m q"
    by (simp_all add: hptr_def load64_def f cong: mem_read_cong)
  have "mem_read (set_ptr p v m) (q + 8) 4 = mem_read m (q + 8) 4" "mem_read (set_size p n m) (q + 8) 4 = mem_read m (q + 8) 4"
    by (rule mem_read_cong; simp only: e; rule f; simp)+
  then show "hsize (set_ptr p v m) q = hsize m q" "hsize (set_size p n m) q = hsize m q" by (simp_all add: hsize_def)
qed

lemma hdr_same [simp]:
  "hptr (set_ptr p v m) p = v" "hsize (set_size p n m) p = n" "hsize (set_ptr p v m) p = hsize m p" "hptr (set_size p n m) p = hptr m p"
proof -
  show "hptr (set_ptr p v m) p = v" by (simp add: hptr_def set_ptr_def)
  show "hsize (set_size p n m) p = n"
    using mem_read_write_same [of "le_bytes 4 n" m "p + 8"] by (simp add: hsize_def set_size_def le_word_le_bytes)
  have "mem_read (mem_write m p (le_bytes 8 v)) (p + 8) 4 = mem_read m (p + 8) 4"
  proof (rule mem_read_write_other)
    fix i :: nat assume i: "i < 4"
    have e: "p + 8 + of_nat i - p = of_nat (8 + i)" by simp
    have "unat (p + 8 + of_nat i - p) = 8 + i" unfolding e by (rule unat_of_nat_small) (use i in simp)
    then show "length (le_bytes 8 v) \<le> unat (p + 8 + of_nat i - p)" by simp
  qed
  then show "hsize (set_ptr p v m) p = hsize m p" by (simp add: hsize_def set_ptr_def store64_def)
  have "mem_read (mem_write m (p + 8) (le_bytes 4 n)) p 8 = mem_read m p 8"
  proof (rule mem_read_write_other)
    fix i :: nat assume i: "i < 8"
    have "p + of_nat i - (p + 8) = of_nat i - 8" by simp
    moreover have "unat (of_nat i - 8 :: u64) = 2 ^ 64 + i - 8"
      using i unat_sub_if_size [of "of_nat i" "8 :: u64"] by (simp add: word_le_nat_alt unat_of_nat word_size)
    ultimately show "length (le_bytes 4 n) \<le> unat (p + of_nat i - (p + 8))" using i by simp
  qed
  then show "hptr (set_size p n m) p = hptr m p" by (simp add: hptr_def load64_def set_size_def)
qed

text \<open>A header write changes 16 bytes at most.\<close>

definition inblock :: "u64 \<Rightarrow> nat \<Rightarrow> u64 \<Rightarrow> bool" where
  "inblock p n x \<longleftrightarrow> unat p \<le> unat x \<and> unat x < unat p + 16 * n"

lemma hdr_frame:
  assumes "aligned 16 p" and "\<not> inblock p 1 x"
  shows "set_ptr p v m x = m x" and "set_size p n m x = m x"
proof -
  have e: "x = p + of_nat (unat (x - p))" by simp
  have "unat p + 15 < 2 ^ 64" using aligned_chunk_bound [OF assms(1)] by simp
  then have far: "16 \<le> unat (x - p)"
    using assms(2) unat_sub_if_size [of x p] by (auto simp: inblock_def word_size word_le_nat_alt split: if_splits)
  have "unat (x - (p + 8)) \<ge> 4"
  proof -
    have e: "x - (p + 8) = (x - p) - 8" by simp
    have u: "unat ((x - p) - 8) = unat (x - p) - 8" using far by (simp add: unat_sub word_le_nat_alt)
    show ?thesis unfolding e u using far by linarith
  qed
  then show "set_ptr p v m x = m x" "set_size p n m x = m x"
    using far by (simp_all add: set_ptr_def store64_def set_size_def mem_write_def)
qed


section \<open>The list of free blocks\<close>

text \<open>\<open>seg m a bs z\<close>: the links lead from \<open>a\<close> through \<open>bs\<close> to \<open>z\<close>. \<open>blks m lo bs hi\<close>: the blocks of \<open>bs\<close>
  lie between \<open>lo\<close> and \<open>hi\<close> in address order, and no two of them touch.\<close>

fun seg :: "mem \<Rightarrow> u64 \<Rightarrow> u64 list \<Rightarrow> u64 \<Rightarrow> bool" where
  "seg m a [] z \<longleftrightarrow> hptr m a = z"
| "seg m a (b # bs) z \<longleftrightarrow> hptr m a = b \<and> seg m b bs z"

definition bend :: "mem \<Rightarrow> u64 \<Rightarrow> nat" where
  "bend m b = unat b + 16 * unat (hsize m b)"

fun blks :: "mem \<Rightarrow> nat \<Rightarrow> u64 list \<Rightarrow> nat \<Rightarrow> bool" where
  "blks m lo [] hi \<longleftrightarrow> lo \<le> hi"
| "blks m lo (b # bs) hi \<longleftrightarrow> aligned 16 b \<and> lo < unat b \<and> 0 < hsize m b \<and> blks m (bend m b) bs hi"

definition cells :: "mem \<Rightarrow> u64 list \<Rightarrow> u64 set" where
  "cells m bs = {x. \<exists>b \<in> set bs. inblock b (unat (hsize m b)) x}"

definition heap_ok :: "uheap \<Rightarrow> u64 list \<Rightarrow> bool" where
  "heap_ok h bs \<longleftrightarrow> aligned 16 (hbase h) \<and> hbase h \<noteq> 0 \<and> aligned 16 (brk h) \<and> unat (brk h) \<le> 2 ^ 31 \<and>
     unat (hbase h) + 16 \<le> unat (brk h) \<and>
     freep h \<in> set (hbase h # bs) \<and> hsize (umem h) (hbase h) = 0 \<and>
     seg (umem h) (hbase h) bs (hbase h) \<and> blks (umem h) (unat (hbase h)) bs (unat (brk h))"

lemma seg_append: "seg m a (us @ vs) z \<longleftrightarrow>
    (case vs of [] \<Rightarrow> seg m a us z | v # vs' \<Rightarrow> seg m a us v \<and> seg m v vs' z)"
  by (induction us arbitrary: a) (auto split: list.splits)

lemma seg_last: "seg m a us z \<Longrightarrow> hptr m (last (a # us)) = z"
  by (induction us arbitrary: a) auto

lemma seg_cong: "\<forall>b \<in> set (a # bs). hptr m' b = hptr m b \<Longrightarrow> seg m' a bs z = seg m a bs z"
  by (induction bs arbitrary: a) auto

text \<open>Changing the last link.\<close>

lemma seg_set_last:
  assumes "seg m a us z" and "distinct (a # us)" and "\<forall>b \<in> set (a # us). b \<noteq> last (a # us) \<longrightarrow> hptr m' b = hptr m b"
    and "hptr m' (last (a # us)) = z'"
  shows "seg m' a us z'"
  using assms
proof (induction us arbitrary: a)
  case (Cons b us)
  have "last (b # us) \<in> set (b # us)" by (rule last_in_set) simp
  then have "a \<noteq> last (b # us)" using Cons.prems(2) by auto
  then have "hptr m' a = hptr m a" using Cons.prems(3) by simp
  moreover have "seg m' b us z'" by (rule Cons.IH) (use Cons.prems in auto)
  ultimately show ?case using Cons.prems(1) by simp
qed simp

lemma blks_cong: "\<forall>b \<in> set bs. hsize m' b = hsize m b \<Longrightarrow> blks m' lo bs hi = blks m lo bs hi"
  by (induction bs arbitrary: lo) (auto simp: bend_def)

lemma blks_le: "blks m lo bs hi \<Longrightarrow> lo \<le> hi"
  by (induction bs arbitrary: lo) (fastforce simp: bend_def)+

lemma blks_append: "blks m lo (us @ vs) hi \<longleftrightarrow> (\<exists>mid. blks m lo us mid \<and> blks m mid vs hi \<and>
    mid = (if us = [] then lo else bend m (last us)))"
proof (induction us arbitrary: lo)
  case Nil
  then show ?case using blks_le by auto
next
  case (Cons u us)
  then show ?case by (cases "us = []") (auto dest: blks_le)
qed

lemma blks_shrink: "blks m lo us hi \<Longrightarrow> us \<noteq> [] \<Longrightarrow> blks m lo us (bend m (last us))"
  by (induction us arbitrary: lo) auto

lemma blks_mono: "blks m lo bs hi \<Longrightarrow> lo' \<le> lo \<Longrightarrow> hi \<le> hi' \<Longrightarrow> blks m lo' bs hi'"
  by (induction bs arbitrary: lo lo') auto

lemma blks_above: "blks m lo bs hi \<Longrightarrow> b \<in> set bs \<Longrightarrow> aligned 16 b \<and> lo < unat b \<and> 0 < hsize m b \<and> bend m b \<le> hi"
  by (induction bs arbitrary: lo) (fastforce simp: bend_def dest: blks_le)+

lemma blks_sorted: "blks m lo bs hi \<Longrightarrow> sorted_wrt (\<lambda>a b. bend m a < unat b) bs"
  by (induction bs arbitrary: lo) (auto dest: blks_above)

lemma blks_distinct: "blks m lo bs hi \<Longrightarrow> distinct bs"
  by (induction bs arbitrary: lo) (auto dest: blks_above simp: bend_def)

text \<open>The place of a block that overlaps no free block.\<close>

lemma blks_split:
  assumes "blks m lo bs hi" and "0 < n" and "\<forall>x. inblock bp n x \<longrightarrow> x \<notin> cells m bs" and "unat bp + 16 * n < 2 ^ 64"
  obtains us vs where "bs = us @ vs" and "\<forall>u \<in> set us. bend m u \<le> unat bp" and "\<forall>v \<in> set vs. unat bp + 16 * n \<le> unat v"
proof -
  have sep: "bend m b \<le> unat bp \<or> unat bp + 16 * n \<le> unat b" if b: "b \<in> set bs" for b
  proof (rule ccontr)
    assume c: "\<not> ?thesis"
    define x where "x = (if unat b \<le> unat bp then bp else b)"
    have "0 < unat (hsize m b)" using blks_above [OF assms(1) b] by (simp add: word_less_nat_alt)
    then have "inblock bp n x" "inblock b (unat (hsize m b)) x" using c assms(2) by (auto simp: x_def inblock_def bend_def)
    then show False using assms(3) b by (auto simp: cells_def)
  qed
  let ?P = "\<lambda>b. bend m b \<le> unat bp"
  have "\<forall>v \<in> set (dropWhile ?P bs). unat bp + 16 * n \<le> unat v"
  proof (cases "dropWhile ?P bs")
    case (Cons v vs)
    have "\<not> ?P v" using Cons hd_dropWhile [of ?P bs] by simp
    moreover have sub: "set (v # vs) \<subseteq> set bs" using Cons set_dropWhileD [of _ ?P bs] by auto
    ultimately have v: "unat bp + 16 * n \<le> unat v" using sep by auto
    have "sorted_wrt (\<lambda>a b. bend m a < unat b) (v # vs)"
      using blks_sorted [OF assms(1)] Cons takeWhile_dropWhile_id [of ?P bs] sorted_wrt_append by metis
    then have "unat v \<le> unat w" if "w \<in> set vs" for w using that by (auto simp: bend_def)
    then show ?thesis using v Cons by force
  next
    case Nil
    show ?thesis unfolding Nil by simp
  qed
  moreover have "\<forall>u \<in> set (takeWhile ?P bs). ?P u" by (auto dest: set_takeWhileD)
  ultimately show ?thesis using that takeWhile_dropWhile_id [of ?P bs] by metis
qed


section \<open>\<open>free\<close>\<close>

lemma seg_next: "seg m a bs z \<Longrightarrow> a # bs = as @ p # cs \<Longrightarrow> hptr m p = hd (cs @ [z])"
proof (induction bs arbitrary: a as)
  case (Cons b bs)
  show ?case
  proof (cases as)
    case Nil
    then show ?thesis using Cons.prems by auto
  next
    case (Cons x xs)
    then have e: "b # bs = xs @ p # cs" using Cons.prems(2) by simp
    have "seg m b bs z" using Cons.prems(1) by simp
    then show ?thesis by (rule Cons.IH [OF _ e])
  qed
qed (auto simp: Cons_eq_append_conv)

lemma seg_drop: "seg m a (us @ vs) z \<Longrightarrow> seg m (last (a # us)) vs z"
  by (induction us arbitrary: a) auto

lemma free_find_low:
  assumes s: "seg m base (us @ vs) base" and o: "sorted_wrt (<) (base # us @ vs)" and "\<forall>u \<in> set (base # us). u < bp"
    and "\<forall>v \<in> set vs. bp < v" and "base # us = as @ p # cs"
  shows "free_find m bp p = Some (last (base # us))"
  using assms(5)
proof (induction cs arbitrary: as p)
  case Nil
  then have p: "p = last (base # us)" "p < bp" using assms(3) by simp_all
  have n: "hptr m p = hd (vs @ [base])" using seg_drop [OF s] p(1) by (cases vs) simp_all
  have "base \<le> p" using o p(1) by (cases us rule: rev_cases) auto
  then have "p < bp \<and> bp < hptr m p \<or> hptr m p \<le> p" using p(2) n assms(4) by (cases vs) auto
  then show ?case using p by (subst free_find.simps) auto
next
  case (Cons c cs)
  have n: "hptr m p = c" using seg_next [OF s, of as p "c # cs @ vs"] Cons.prems by simp
  have "c \<in> set (base # us)" using Cons.prems by simp
  then have c: "c < bp" using assms(3) by blast
  have "p < c" using o Cons.prems by (metis append_Cons append_assoc list.set_intros(1) sorted_wrt.simps(2) sorted_wrt_append)
  then have "free_find m bp p = free_find m bp c" using n c by (subst free_find.simps) auto
  then show ?case using Cons.IH [of "as @ [p]" c] Cons.prems by simp
qed

lemma free_find_ok:
  assumes s: "seg m base (us @ vs) base" and o: "sorted_wrt (<) (base # us @ vs)" and u: "\<forall>u \<in> set (base # us). u < bp"
    and v: "\<forall>v \<in> set vs. bp < v" and p: "p \<in> set (base # us @ vs)"
  shows "free_find m bp p = Some (last (base # us))"
proof -
  note low = free_find_low [OF s o u v]
  have high: "free_find m bp p = Some (last (base # us))" if "vs = as @ p # cs" for as cs p
    using that
  proof (induction cs arbitrary: as p)
    case Nil
    have n: "hptr m p = base" using seg_next [OF s, of "base # us @ as" p "[]"] Nil by simp
    have "bp < p" using v Nil by simp
    then have "free_find m bp p = free_find m bp base" using n u by (subst free_find.simps) auto
    then show ?case using low [of "[]" base us] by simp
  next
    case (Cons c cs)
    have n: "hptr m p = c" using seg_next [OF s, of "base # us @ as" p "c # cs"] Cons.prems by simp
    have "bp < p" "p < c" using v o Cons.prems by (auto simp: sorted_wrt_append)
    then have "free_find m bp p = free_find m bp c" using n by (subst free_find.simps) auto
    then show ?case using Cons.IH [of "as @ [p]" c] Cons.prems by simp
  qed
  show ?thesis using p low high by (metis Un_iff append_Cons set_append split_list)
qed

lemma unat_hend: "unat (hend m p) = bend m p" if "bend m p < 2 ^ 64"
proof -
  have "unat (ucast (hsize m p) :: u64) = unat (hsize m p)"
    using unsigned_less [of "hsize m p", where ?'a = nat] by (simp add: unsigned_ucast_eq take_bit_nat_eq_self)
  then have "unat (16 * ucast (hsize m p) :: u64) = 16 * unat (hsize m p)"
    using that by (simp add: bend_def unat_word_ariths)
  then show ?thesis using that by (simp add: hend_def bend_def unat_word_ariths)
qed

lemma hend_eq: "bend m p < 2 ^ 64 \<Longrightarrow> hend m p = q \<longleftrightarrow> bend m p = unat q"
  using unat_hend by (metis word_unat_eq_iff)

lemma inblock_join: "unat q = unat p + 16 * n \<Longrightarrow> inblock p (n + k) x \<longleftrightarrow> inblock p n x \<or> inblock q k x"
  by (auto simp: inblock_def)

lemma hsize_add: "bend m p = unat q \<Longrightarrow> bend m q < 2 ^ 32 \<Longrightarrow> unat (hsize m p + hsize m q) = unat (hsize m p) + unat (hsize m q)"
  by (simp add: bend_def unat_word_ariths)

lemma cells_Cons: "cells m (b # bs) = {x. inblock b (unat (hsize m b)) x} \<union> cells m bs"
  by (auto simp: cells_def)

lemma cells_Nil [simp]: "cells m [] = {}"
  by (simp add: cells_def)

lemma cells_append: "cells m (us @ vs) = cells m us \<union> cells m vs"
  by (auto simp: cells_def)

lemma cells_cong: "\<forall>b \<in> set bs. hsize m' b = hsize m b \<Longrightarrow> cells m' bs = cells m bs"
  by (simp add: cells_def)

text \<open>Joining the block with the one above it.\<close>

lemma join_upper:
  fixes m bp p
  defines "m1 \<equiv> (if hend m bp = hptr m p
     then let n = hptr m p; m = set_size bp (hsize m bp + hsize m n) m in set_ptr bp (hptr m n) m
     else set_ptr bp (hptr m p) m)"
  assumes s: "seg m p vs base" and b: "blks m (bend m bp - 1) vs hi" and bp: "aligned 16 bp" "0 < hsize m bp" "bend m bp \<le> hi"
    and hi: "hi \<le> 2 ^ 31" and base: "base < bp"
  obtains vs1 where "seg m1 bp vs1 base" and "blks m1 (bend m1 bp) vs1 hi" and "hsize m bp \<le> hsize m1 bp"
    and "cells m1 (bp # vs1) = cells m (bp # vs)" and "set vs1 \<subseteq> set vs"
    and "\<forall>q. aligned 16 q \<longrightarrow> q \<noteq> bp \<longrightarrow> hptr m1 q = hptr m q \<and> hsize m1 q = hsize m q"
    and "\<forall>x. \<not> inblock bp 1 x \<longrightarrow> m1 x = m x"
proof -
  have nz: "0 < bend m bp" using bp(2) by (simp add: bend_def word_less_nat_alt)
  have "bend m bp < 2 ^ 64" using bp(3) hi by simp
  note he = hend_eq [OF this]
  have ab: "aligned 16 v \<and> v \<noteq> bp" if "v \<in> set vs" for v
    using blks_above [OF b that] bp(2) by (auto simp: bend_def word_less_nat_alt)
  show ?thesis
  proof (cases "vs \<noteq> [] \<and> hend m bp = hd vs")
    case False
    then have m1: "m1 = set_ptr bp (hptr m p) m"
    proof -
      have "hend m bp \<noteq> hptr m p"
      proof (cases vs)
        case Nil
        have "unat base < bend m bp" using base by (simp add: bend_def word_less_nat_alt)
        then show ?thesis using s Nil he [of base] by simp
      qed (use s False in auto)
      then show ?thesis by (simp add: m1_def)
    qed
    have f: "hptr m1 q = hptr m q \<and> hsize m1 q = hsize m q" if "aligned 16 q" "q \<noteq> bp" for q
      using hdr_write [OF bp(1) that(1)] that(2) by (simp add: m1)
    have f1: "hptr m1 bp = hptr m p" by (simp add: m1)
    have "seg m1 bp vs base" using s f1 f ab seg_cong [of "hd vs" "tl vs" m1 m] by (cases vs) auto
    moreover have "blks m1 (bend m1 bp) vs hi"
    proof -
      have "blks m (bend m bp) vs hi"
      proof (cases vs)
        case (Cons v vs')
        then have "bend m bp \<noteq> unat v" using False he [of v] by simp
        then show ?thesis using b Cons by auto
      qed (use bp(3) in simp)
      moreover have "blks m1 (bend m bp) vs hi = blks m (bend m bp) vs hi" by (rule blks_cong) (use f ab in auto)
      ultimately show ?thesis by (simp add: m1 bend_def)
    qed
    moreover have "cells m1 (bp # vs) = cells m (bp # vs)" by (rule cells_cong) (use f ab in \<open>auto simp: m1\<close>)
    ultimately show ?thesis using that [of vs] f hdr_frame(1) [OF bp(1)] by (simp add: m1)
  next
    case True
    then obtain v vs' where vs: "vs = v # vs'" by (cases vs) auto
    have v: "hend m bp = v" "hptr m p = v" "aligned 16 v" "v \<noteq> bp" using True s ab vs by auto
    then have bv: "bend m bp = unat v" using he by simp
    have bl: "blks m (bend m v) vs' hi" using b vs by simp
    define mm where "mm = set_size bp (hsize m bp + hsize m v) m"
    have m1: "m1 = set_ptr bp (hptr m v) mm" using v hdr_write(3) [OF bp(1) v(3)] by (simp add: m1_def Let_def mm_def)
    have sz: "hsize m1 bp = hsize m bp + hsize m v" by (simp add: m1 mm_def)
    have le: "bend m v \<le> hi" using blks_le [OF bl] .
    then have add: "unat (hsize m1 bp) = unat (hsize m bp) + unat (hsize m v)" using hsize_add [OF bv] hi sz by simp
    then have be: "bend m1 bp = bend m v" using bv by (simp add: bend_def)
    have f: "hptr m1 q = hptr m q \<and> hsize m1 q = hsize m q" if "aligned 16 q" "q \<noteq> bp" for q
      using hdr_write [OF bp(1) that(1)] that(2) by (simp add: m1 mm_def)
    have f1: "hptr m1 bp = hptr m v" by (simp add: m1)
    have "seg m v vs' base" using s vs by simp
    then have "seg m1 bp vs' base" using f1 f ab vs seg_cong [of "hd vs'" "tl vs'" m1 m] by (cases vs') auto
    moreover have "blks m1 (bend m v) vs' hi = blks m (bend m v) vs' hi" by (rule blks_cong) (use f ab vs in auto)
    with bl be have "blks m1 (bend m1 bp) vs' hi" by simp
    moreover have "hsize m bp \<le> hsize m1 bp" using add by (simp add: word_le_nat_alt)
    moreover have "cells m1 (bp # vs') = cells m (bp # vs)"
    proof -
      have "cells m1 vs' = cells m vs'" by (rule cells_cong) (use f ab vs in auto)
      moreover have "inblock bp (unat (hsize m1 bp)) x \<longleftrightarrow> inblock bp (unat (hsize m bp)) x \<or> inblock v (unat (hsize m v)) x" for x
        unfolding add by (rule inblock_join) (use bv in \<open>simp add: bend_def\<close>)
      ultimately show ?thesis unfolding vs cells_Cons by blast
    qed
    moreover have "\<forall>x. \<not> inblock bp 1 x \<longrightarrow> m1 x = m x" using hdr_frame [OF bp(1)] by (simp add: m1 mm_def)
    moreover have "\<forall>q. aligned 16 q \<longrightarrow> q \<noteq> bp \<longrightarrow> hptr m1 q = hptr m q \<and> hsize m1 q = hsize m q" using f by blast
    moreover have "set vs' \<subseteq> set vs" using vs by auto
    ultimately show ?thesis using that [of vs'] by blast
  qed
qed


text \<open>Joining the result with the block below.\<close>

lemma join_lower:
  fixes m1 base us bp
  defines "p \<equiv> last (base # us)"
  defines "m2 \<equiv> (if hend m1 p = bp
     then let m = set_size p (hsize m1 p + hsize m1 bp) m1 in set_ptr p (hptr m bp) m
     else set_ptr p bp m1)"
  assumes us: "seg m1 base us z" "blks m1 (unat base) us (unat bp)" and base: "aligned 16 base" "hsize m1 base = 0" "base < bp"
    and vs: "seg m1 bp vs base" "blks m1 (bend m1 bp) vs hi" and bp: "aligned 16 bp" "0 < hsize m1 bp" and hi: "hi \<le> 2 ^ 31"
  obtains bs where "seg m2 base bs base" and "blks m2 (unat base) bs hi" and "hsize m2 base = 0" and "p \<in> set (base # bs)"
    and "cells m2 bs = cells m1 (us @ bp # vs)" and "\<exists>b \<in> set bs. hsize m1 bp \<le> hsize m2 b" and "\<forall>x. \<not> inblock p 1 x \<longrightarrow> m2 x = m1 x"
    and "set bs \<subseteq> set us \<union> {bp} \<union> set vs"
proof -
  have bphi: "bend m1 bp \<le> hi" by (rule blks_le [OF vs(2)])
  have nz: "unat bp < bend m1 bp" using bp(2) by (simp add: bend_def word_less_nat_alt)
  have ua: "aligned 16 u \<and> base < u \<and> u < bp \<and> bend m1 u \<le> unat bp" if "u \<in> set us" for u
    using blks_above [OF us(2) that] by (auto simp: bend_def word_less_nat_alt)
  have va: "aligned 16 v \<and> bp < v" if "v \<in> set vs" for v
    using blks_above [OF vs(2) that] nz by (auto simp: word_less_nat_alt)
  have p: "aligned 16 p" "p < bp" "p = base \<or> p \<in> set us" using base ua by (auto simp: p_def)
  have di: "distinct (base # us)" using blks_distinct [OF us(2)] ua by auto
  have pe: "bend m1 p < 2 ^ 64" using p(3) ua [of p] base bphi hi nz by (auto simp: bend_def word_less_nat_alt)
  note he = hend_eq [OF pe]
  show ?thesis
  proof (cases "hend m1 p = bp")
    case False
    then have m2: "m2 = set_ptr p bp m1" by (simp add: m2_def)
    have f: "hptr m2 q = (if q = p then bp else hptr m1 q)" "hsize m2 q = hsize m1 q" if "aligned 16 q" for q
      using hdr_write [OF p(1) that] by (cases "p = q"; auto simp: m2)+
    have al: "aligned 16 q" if "q \<in> set (base # us @ bp # vs)" for q using that base ua va bp by auto
    have "seg m2 base us bp" by (rule seg_set_last [OF us(1) di]) (use f al p_def in auto)
    moreover have "p \<notin> set (bp # vs)" using va [of p] p(2) by auto
    then have "seg m2 bp vs base = seg m1 bp vs base" by (intro seg_cong) (use f al in auto)
    with calculation have "seg m2 base (us @ bp # vs) base" using vs(1) by (simp add: seg_append)
    moreover have "blks m2 (unat base) (us @ bp # vs) hi"
    proof -
      have "blks m1 (unat base) (us @ bp # vs) hi"
      proof (cases "us = []")
        case True
        then show ?thesis using vs(2) bp base by (simp add: word_less_nat_alt)
      next
        case us0: False
        then have "p \<in> set us" "p = last us" by (simp_all add: p_def)
        then have "bend m1 (last us) < unat bp" using ua False he by fastforce
        moreover have "blks m1 (unat base) us (bend m1 (last us))" by (rule blks_shrink [OF us(2) us0])
        moreover have "blks m1 (bend m1 (last us)) (bp # vs) hi" using vs(2) bp calculation(1) by simp
        ultimately show ?thesis unfolding blks_append using us0 by auto
      qed
      moreover have "blks m2 (unat base) (us @ bp # vs) hi = blks m1 (unat base) (us @ bp # vs) hi" by (rule blks_cong) (use f al in auto)
      ultimately show ?thesis by simp
    qed
    moreover have "cells m2 (us @ bp # vs) = cells m1 (us @ bp # vs)" by (rule cells_cong) (use f al in auto)
    ultimately show ?thesis
      by (intro that [of "us @ bp # vs"]) (use f al base p hdr_frame(1) [OF p(1)] in \<open>auto simp: m2\<close>)
  next
    case True
    then have bep: "bend m1 p = unat bp" using he by simp
    have "p \<noteq> base" using bep base by (auto simp: bend_def word_less_nat_alt)
    then have pu: "p \<in> set us" "us \<noteq> []" using p(3) by auto
    then obtain us0 where us0: "us = us0 @ [p]" by (metis append_butlast_last_id last.simps p_def)
    define mm where "mm = set_size p (hsize m1 p + hsize m1 bp) m1"
    have "p \<noteq> bp" using p(2) by simp
    then have m2: "m2 = set_ptr p (hptr m1 bp) mm" using True hdr_write(3) [OF p(1) bp(1)] by (simp add: m2_def Let_def mm_def)
    have f: "hptr m2 q = (if q = p then hptr m1 bp else hptr m1 q)" "q \<noteq> p \<Longrightarrow> hsize m2 q = hsize m1 q" if "aligned 16 q" for q
      using hdr_write [OF p(1) that] by (cases "p = q"; auto simp: m2 mm_def)+
    have "hsize m2 p = hsize m1 p + hsize m1 bp" by (simp add: m2 mm_def)
    then have add: "unat (hsize m2 p) = unat (hsize m1 p) + unat (hsize m1 bp)" using hsize_add [OF bep] bphi hi by simp
    then have be: "bend m2 p = bend m1 bp" using bep by (simp add: bend_def)
    have al: "aligned 16 q" if "q \<in> set (base # us @ vs)" for q using that base ua va by auto
    have pv: "p \<notin> set vs" using va p(2) by fastforce
    have "seg m2 base us (hptr m1 bp)" by (rule seg_set_last [OF us(1) di]) (use f al p_def in auto)
    then have "seg m2 base (us @ vs) base"
      using vs(1) pv f al seg_cong [of "hd vs" "tl vs" m2 m1] by (cases vs) (auto simp: seg_append)
    moreover have "blks m2 (unat base) (us @ vs) hi"
    proof -
      have d0: "p \<notin> set us0" using blks_distinct [OF us(2)] us0 by simp
      have "blks m2 lo us0 h = blks m1 lo us0 h" for lo h by (rule blks_cong) (use f al us0 d0 in auto)
      moreover have "bend m2 (last us0) = bend m1 (last us0)" if "us0 \<noteq> []"
      proof -
        have l: "last us0 \<in> set us0" by (rule last_in_set [OF that])
        then have "last us0 \<noteq> p" "aligned 16 (last us0)" using d0 al [of "last us0"] us0 by auto
        then show ?thesis using f(2) by (simp add: bend_def)
      qed
      moreover have "blks m2 (bend m1 bp) vs hi = blks m1 (bend m1 bp) vs hi" by (rule blks_cong) (use f al pv in auto)
      moreover have "0 < hsize m2 p" using add bp(2) by (simp add: word_less_nat_alt)
      ultimately show ?thesis
        using us(2) vs(2) be p(1) unfolding us0 append_assoc by (auto simp: blks_append)
    qed
    moreover have "cells m2 (us @ vs) = cells m1 (us @ bp # vs)"
    proof -
      have d0: "p \<notin> set us0" using blks_distinct [OF us(2)] us0 by simp
      have "cells m2 us0 = cells m1 us0" "cells m2 vs = cells m1 vs" by (rule cells_cong; use f al us0 d0 pv in auto)+
      moreover have "inblock p (unat (hsize m2 p)) x \<longleftrightarrow> inblock p (unat (hsize m1 p)) x \<or> inblock bp (unat (hsize m1 bp)) x" for x
        unfolding add by (rule inblock_join) (use bep in \<open>simp add: bend_def\<close>)
      ultimately show ?thesis unfolding us0 cells_append cells_Cons by (auto simp: cells_append cells_Cons)
    qed
    moreover have "hsize m1 bp \<le> hsize m2 p" using add by (simp add: word_le_nat_alt)
    moreover have "\<forall>x. \<not> inblock p 1 x \<longrightarrow> m2 x = m1 x" using hdr_frame [OF p(1)] by (simp add: m2 mm_def)
    moreover have "hsize m2 base = 0" using f(2) [OF base(1)] base(2) \<open>p \<noteq> base\<close> by simp
    ultimately show ?thesis by (intro that [of "us @ vs"]) (use pu in auto)
  qed
qed

text \<open>The whole of \<open>free\<close>. The block may start in any state but must not overlap a free one.\<close>

definition can_free :: "uheap \<Rightarrow> u64 list \<Rightarrow> u64 \<Rightarrow> bool" where
  "can_free h bs bp \<longleftrightarrow> aligned 16 bp \<and> hbase h < bp \<and> 0 < hsize (umem h) bp \<and> bend (umem h) bp \<le> unat (brk h) \<and>
     (\<forall>x. inblock bp (unat (hsize (umem h) bp)) x \<longrightarrow> x \<notin> cells (umem h) bs)"

lemma free_ok:
  assumes ok: "heap_ok h bs" and cf: "can_free h bs bp"
  obtains h' bs' where "free (bp + 16) h = Some h'" and "heap_ok h' bs'" and "hbase h' = hbase h" and "brk h' = brk h"
    and "cells (umem h') bs' = cells (umem h) (bp # bs)" and "\<exists>b \<in> set bs'. hsize (umem h) bp \<le> hsize (umem h') b"
    and "\<forall>x. x \<notin> cells (umem h) (bp # bs) \<and> \<not> inblock (hbase h) 1 x \<longrightarrow> umem h' x = umem h x"
proof -
  let ?m = "umem h" and ?base = "hbase h" and ?hi = "unat (brk h)"
  note K = ok [unfolded heap_ok_def] and C = cf [unfolded can_free_def]
  have bl: "blks ?m (unat ?base) bs ?hi" and sg: "seg ?m ?base bs ?base" using K by simp_all
  obtain us vs where bs: "bs = us @ vs" "\<forall>u \<in> set us. bend ?m u \<le> unat bp" "\<forall>v \<in> set vs. bend ?m bp \<le> unat v"
  proof (rule blks_split [OF bl, of "unat (hsize ?m bp)" bp])
    show "0 < unat (hsize ?m bp)" using C by (simp add: word_less_nat_alt)
    show "unat bp + 16 * unat (hsize ?m bp) < 2 ^ 64" using C K by (simp add: bend_def)
  qed (use C that in \<open>auto simp: bend_def\<close>)
  have bb: "unat bp < bend ?m bp" using C by (simp add: bend_def word_less_nat_alt)
  have ub: "aligned 16 u \<and> ?base < u \<and> u < bp" if "u \<in> set us" for u
    using blks_above [OF bl, of u] bs that by (auto simp: bend_def word_less_nat_alt)
  have vb: "aligned 16 v \<and> bp < v" if "v \<in> set vs" for v
    using blks_above [OF bl, of v] bs that bb by (auto simp: bend_def word_less_nat_alt)
  let ?p = "last (?base # us)"
  have p: "aligned 16 ?p" "?p = ?base \<or> ?p \<in> set us" "?p < bp" using K C ub by auto
  have find: "free_find ?m bp (freep h) = Some ?p"
  proof (rule free_find_ok)
    show "seg ?m ?base (us @ vs) ?base" using sg bs by simp
    have "sorted_wrt (\<lambda>a b. bend ?m a < unat b) (us @ vs)" using blks_sorted [OF bl] bs by simp
    then have "sorted_wrt (<) (us @ vs)" by (rule sorted_wrt_mono_rel [rotated]) (auto simp: bend_def word_less_nat_alt)
    then show "sorted_wrt (<) (?base # us @ vs)" using blks_above [OF bl] bs(1) by (auto simp: word_less_nat_alt)
  qed (use K C ub vb bs in auto)
  obtain mid where mid: "blks ?m (unat ?base) us mid" "blks ?m mid vs ?hi" "mid = (if us = [] then unat ?base else bend ?m (last us))"
    using bl unfolding bs(1) blks_append by blast
  have usb: "blks ?m (unat ?base) us (unat bp)"
    by (rule blks_mono [OF mid(1)]) (use mid(3) bs(2) C in \<open>auto simp: word_less_nat_alt\<close>)
  have vsb: "blks ?m (bend ?m bp - 1) vs ?hi"
  proof (cases vs)
    case (Cons v vs')
    then show ?thesis using mid(2) bs(3) bb by auto
  next
    case Nil
    have "bend ?m bp \<le> ?hi" using C by blast
    then show ?thesis unfolding Nil by simp
  qed
  define m1 where "m1 = (if hend ?m bp = hptr ?m ?p
     then let n = hptr ?m ?p; m = set_size bp (hsize ?m bp + hsize ?m n) ?m in set_ptr bp (hptr m n) m
     else set_ptr bp (hptr ?m ?p) ?m)"
  have spv: "seg ?m ?p vs ?base" using seg_drop sg bs(1) by blast
  obtain vs1 where 1: "seg m1 bp vs1 ?base" "blks m1 (bend m1 bp) vs1 ?hi" "hsize ?m bp \<le> hsize m1 bp"
    "cells m1 (bp # vs1) = cells ?m (bp # vs)" "set vs1 \<subseteq> set vs"
    "\<forall>q. aligned 16 q \<longrightarrow> q \<noteq> bp \<longrightarrow> hptr m1 q = hptr ?m q \<and> hsize m1 q = hsize ?m q" "\<forall>x. \<not> inblock bp 1 x \<longrightarrow> m1 x = ?m x"
    by (rule join_upper [OF spv vsb, folded m1_def]) (use C K in auto)
  have eq1: "hptr m1 q = hptr ?m q \<and> hsize m1 q = hsize ?m q" if "q \<in> set (?base # us)" for q using that 1(6) K C ub by auto
  have pos: "0 < hsize m1 bp" using order.strict_trans2 [OF _ 1(3), of 0] C by blast
  define m2 where "m2 = (if hend m1 ?p = bp
     then let m = set_size ?p (hsize m1 ?p + hsize m1 bp) m1 in set_ptr ?p (hptr m bp) m
     else set_ptr ?p bp m1)"
  obtain z where "seg ?m ?base us z" using sg bs(1) by (cases vs) (auto simp: seg_append)
  then have us1: "seg m1 ?base us z" using seg_cong [of ?base us m1 ?m z] eq1 by auto
  have us2: "blks m1 (unat ?base) us (unat bp)" using usb blks_cong [of us m1 ?m] eq1 by auto
  obtain bs' where 2: "seg m2 ?base bs' ?base" "blks m2 (unat ?base) bs' ?hi" "hsize m2 ?base = 0" "?p \<in> set (?base # bs')"
    "cells m2 bs' = cells m1 (us @ bp # vs1)" "\<exists>b \<in> set bs'. hsize m1 bp \<le> hsize m2 b" "\<forall>x. \<not> inblock ?p 1 x \<longrightarrow> m2 x = m1 x"
    by (rule join_lower [OF us1 us2, where vs = vs1 and hi = ?hi, folded m2_def]) (use K C 1(1,2) pos eq1 in auto)
  have j: "free_join bp ?p ?m = m2" unfolding free_join_def m2_def m1_def by (simp only: Let_def)
  have "bp + 16 \<noteq> 0"
  proof
    assume "bp + 16 = 0"
    then have "bp = - 16" by (metis add_eq_0_iff2)
    then have "unat bp = 2 ^ 64 - 16" by simp
    then show False using bb C K by simp
  qed
  then have call: "free (bp + 16) h = Some (h\<lparr>umem := m2, freep := ?p\<rparr>)" using find j by (simp add: free_def)
  have cs: "cells m2 bs' = cells ?m (bp # bs)"
  proof -
    have "cells m1 us = cells ?m us" by (rule cells_cong) (use eq1 in auto)
    then show ?thesis using 1(4) by (auto simp: 2(5) bs(1) cells_append cells_Cons)
  qed
  have in1: "x \<in> cells ?m (b # l)" if "inblock b 1 x" "0 < hsize ?m b" for b x l
    using that by (auto simp: cells_Cons inblock_def word_less_nat_alt)
  have fr: "m2 x = ?m x" if x: "x \<notin> cells ?m (bp # bs)" "\<not> inblock ?base 1 x" for x
  proof -
    have "\<not> inblock bp 1 x" using x(1) in1 [of bp x bs] C by auto
    moreover have "\<not> inblock ?p 1 x"
    proof
      assume i: "inblock ?p 1 x"
      then have "?p \<in> set us" using p(2) x(2) by auto
      moreover from this have "0 < hsize ?m ?p" using blks_above [OF bl] bs(1) by auto
      ultimately show False using i x(1) in1 [of ?p x "[]"] bs(1) by (auto simp: cells_def)
    qed
    ultimately show ?thesis using 2(7) 1(7) by simp
  qed
  have "\<exists>b \<in> set bs'. hsize ?m bp \<le> hsize m2 b" using 1(3) 2(6) order_trans by blast
  then show ?thesis
    by (intro that [OF call, of bs']) (use K 2(1-4) cs fr in \<open>auto simp: heap_ok_def\<close>)
qed


section \<open>\<open>malloc\<close>\<close>

text \<open>The system call: fails, or moves the end of memory up and returns the old end. The kernel's \<open>sys_sbrk\<close>
  takes and returns an \<open>int\<close>, so the contract speaks of sizes below \<open>2 ^ 31\<close> only.\<close>

definition sbrk_ok :: "(u64 \<Rightarrow> uheap \<Rightarrow> u64 \<times> uheap) \<Rightarrow> bool" where
  "sbrk_ok sbrk \<longleftrightarrow> (\<forall>k h. k < 2 ^ 31 \<longrightarrow> sbrk k h = (- 1, h) \<or>
     unat (brk h) + unat k \<le> 2 ^ 31 \<and>
     (\<exists>m. sbrk k h = (brk h, h\<lparr>umem := m, brk := brk h + k\<rparr>) \<and> (\<forall>x. \<not> (brk h \<le> x \<and> x < brk h + k) \<longrightarrow> m x = umem h x)))"

lemma hdr_cong:
  assumes "aligned 16 p" and "\<forall>x. inblock p 1 x \<longrightarrow> m' x = m x"
  shows "hptr m' p = hptr m p" and "hsize m' p = hsize m p"
proof -
  have b: "unat p + 15 < 2 ^ 64" using aligned_chunk_bound [OF assms(1)] by simp
  have f: "m' (p + of_nat i) = m (p + of_nat i)" if "i < 16" for i
  proof -
    have "unat (p + of_nat i) = unat p + i" by (rule unat_aligned_add [OF assms(1) _ that]) simp
    then show ?thesis using assms(2) that by (simp add: inblock_def)
  qed
  have e: "p + 8 + of_nat i = p + of_nat (8 + i)" for i by (simp add: add.assoc)
  show "hptr m' p = hptr m p" by (simp add: hptr_def load64_def f cong: mem_read_cong)
  have "mem_read m' (p + 8) 4 = mem_read m (p + 8) 4" by (rule mem_read_cong; simp only: e; rule f; simp)
  then show "hsize m' p = hsize m p" by (simp add: hsize_def)
qed

lemma cells_below:
  assumes "heap_ok h bs" and "x \<in> cells (umem h) bs"
  shows "unat (hbase h) < unat x" and "unat x < unat (brk h)"
  using assms blks_above [of "umem h" "unat (hbase h)" bs "unat (brk h)"]
  by (fastforce simp: heap_ok_def cells_def inblock_def bend_def)+

lemma free_headers:
  assumes "heap_ok h bs" and "b \<in> set bs"
  shows "aligned 16 b" and "hbase h < b" and "inblock b 1 x \<Longrightarrow> x \<in> cells (umem h) bs"
proof -
  have "blks (umem h) (unat (hbase h)) bs (unat (brk h))" using assms(1) by (simp add: heap_ok_def)
  from blks_above [OF this assms(2)] show "aligned 16 b" "hbase h < b" "inblock b 1 x \<Longrightarrow> x \<in> cells (umem h) bs"
    using assms(2) by (auto simp: cells_def inblock_def word_less_nat_alt intro!: bexI [of _ b])
qed

text \<open>Memory above the end does not matter.\<close>

lemma heap_grow:
  assumes ok: "heap_ok h bs" and k: "aligned 16 k" "unat (brk h) + unat k \<le> 2 ^ 31"
    and m: "\<forall>x. unat x < unat (brk h) \<longrightarrow> m x = umem h x"
  shows "heap_ok (h\<lparr>umem := m, brk := brk h + k\<rparr>) bs" and "cells m bs = cells (umem h) bs"
proof -
  note K = ok [unfolded heap_ok_def]
  have f: "hptr m b = hptr (umem h) b \<and> hsize m b = hsize (umem h) b" if "b \<in> set (hbase h # bs)" for b
  proof -
    have "aligned 16 b" using that K free_headers(1) [OF ok] by auto
    moreover have "unat x < unat (brk h)" if "inblock b 1 x" for x
      using that \<open>b \<in> set (hbase h # bs)\<close> K free_headers(3) [OF ok, of b x] cells_below(2) [OF ok, of x] by (auto simp: inblock_def)
    ultimately show ?thesis using hdr_cong [of b m "umem h"] m by blast
  qed
  show "cells m bs = cells (umem h) bs" by (rule cells_cong) (use f in auto)
  have "seg m (hbase h) bs (hbase h) = seg (umem h) (hbase h) bs (hbase h)" by (rule seg_cong) (use f in auto)
  moreover have "blks m (unat (hbase h)) bs hi = blks (umem h) (unat (hbase h)) bs hi" for hi by (rule blks_cong) (use f in auto)
  moreover have u: "unat (brk h + k) = unat (brk h) + unat k" using k(2) by (simp add: unat_word_ariths)
  ultimately show "heap_ok (h\<lparr>umem := m, brk := brk h + k\<rparr>) bs"
    using K k f by (auto simp: heap_ok_def u aligned_def intro: blks_mono)
qed

lemma morecore_ok:
  assumes ok: "heap_ok h bs" and s: "sbrk_ok sbrk" and n: "16 * unat n < 2 ^ 31"
  shows "morecore sbrk n h = Some (0, h) \<or> (\<exists>h' bs'. morecore sbrk n h = Some (freep h', h') \<and> heap_ok h' bs' \<and>
    hbase h' = hbase h \<and> unat (brk h) \<le> unat (brk h') \<and>
    cells (umem h') bs' = cells (umem h) bs \<union> {x. brk h \<le> x \<and> x < brk h'} \<and> (\<exists>b \<in> set bs'. n \<le> hsize (umem h') b) \<and>
    (\<forall>x. x \<notin> cells (umem h) bs \<and> \<not> inblock (hbase h) 1 x \<and> \<not> (brk h \<le> x \<and> x < brk h') \<longrightarrow> umem h' x = umem h x))"
proof -
  note K = ok [unfolded heap_ok_def]
  define nu where "nu = (if n < 4096 then 4096 else n)"
  define k where "k = (ucast nu :: u64) * 16"
  have nu: "n \<le> nu" "0 < nu" "16 * unat nu < 2 ^ 31"
    using n by (auto simp: nu_def word_less_nat_alt word_le_nat_alt)
  have "unat (ucast nu :: u64) = unat nu"
    using unsigned_less [of nu, where ?'a = nat] by (simp add: unsigned_ucast_eq take_bit_nat_eq_self)
  then have k: "unat k = 16 * unat nu" using nu(3) by (simp add: k_def unat_word_ariths)
  have call: "morecore sbrk n h = (case sbrk k h of (cp, h) \<Rightarrow> if cp = - 1 then Some (0, h)
      else do { h \<leftarrow> free (cp + 16) (h\<lparr>umem := set_size cp nu (umem h)\<rparr>); Some (freep h, h) })"
    by (simp add: morecore_def Let_def nu_def [symmetric] k_def [symmetric] split: prod.split)
  have "k < 2 ^ 31" using k nu(3) by (simp add: word_less_nat_alt)
  then consider "sbrk k h = (- 1, h)"
    | m where "unat (brk h) + unat k \<le> 2 ^ 31" "sbrk k h = (brk h, h\<lparr>umem := m, brk := brk h + k\<rparr>)"
      "\<forall>x. \<not> (brk h \<le> x \<and> x < brk h + k) \<longrightarrow> m x = umem h x"
    using s unfolding sbrk_ok_def by blast
  then show ?thesis
  proof cases
    case 1
    then show ?thesis using call by simp
  next
    case (2 m)
    let ?bp = "brk h"
    define m1 where "m1 = set_size ?bp nu m"
    define h1 where "h1 = h\<lparr>umem := m1, brk := brk h + k\<rparr>"
    have ub: "unat (brk h + k) = unat (brk h) + 16 * unat nu" using 2(1) k by (simp add: unat_word_ariths)
    have ab: "aligned 16 ?bp" using K by simp
    have lo: "m1 x = umem h x" if "unat x < unat (brk h)" for x
      using that 2(3) hdr_frame(2) [OF ab, of x nu m] by (auto simp: m1_def inblock_def word_le_nat_alt)
    have out: "m1 x = umem h x" if "\<not> (brk h \<le> x \<and> x < brk h + k)" for x
    proof (cases "unat x < unat (brk h)")
      case False
      then have "unat (brk h) + 16 * unat nu \<le> unat x" using that ub by (auto simp: word_le_nat_alt word_less_nat_alt)
      moreover have "0 < unat nu" using nu(2) by (simp add: word_less_nat_alt)
      ultimately show ?thesis using 2(3) that hdr_frame(2) [OF ab, of x nu m] by (auto simp: m1_def inblock_def)
    qed (use lo in simp)
    have "aligned 16 k" using k by (simp add: aligned_def)
    then have g: "heap_ok h1 bs" "cells m1 bs = cells (umem h) bs"
      using heap_grow [OF ok _ 2(1), of m1] lo unfolding h1_def by blast+
    have sz: "hsize m1 ?bp = nu" by (simp add: m1_def)
    have blk: "inblock ?bp (unat nu) x \<longleftrightarrow> brk h \<le> x \<and> x < brk h + k" for x
      using ub by (auto simp: inblock_def word_le_nat_alt word_less_nat_alt)
    have cf: "can_free h1 bs ?bp"
      using K sz ub nu(2) g(2) cells_below(2) [OF ok] ab
      by (auto simp: can_free_def h1_def bend_def word_less_nat_alt inblock_def dest: leD)
    obtain h' bs' where f: "free (?bp + 16) h1 = Some h'" "heap_ok h' bs'" "hbase h' = hbase h1" "brk h' = brk h1"
      "cells (umem h') bs' = cells (umem h1) (?bp # bs)" "\<exists>b \<in> set bs'. hsize (umem h1) ?bp \<le> hsize (umem h') b"
      "\<forall>x. x \<notin> cells (umem h1) (?bp # bs) \<and> \<not> inblock (hbase h1) 1 x \<longrightarrow> umem h' x = umem h1 x"
      by (rule free_ok [OF g(1) cf])
    have h1: "umem h1 = m1" "hbase h1 = hbase h" "brk h1 = brk h + k" by (simp_all add: h1_def)
    have c: "cells m1 (?bp # bs) = cells (umem h) bs \<union> {x. brk h \<le> x \<and> x < brk h'}"
      by (simp add: cells_Cons g(2) sz blk f(4) h1 Un_commute)
    have "unat (- 1 :: u64) = 2 ^ 64 - 1" by (simp add: unsigned_minus_1_eq_mask mask_eq_exp_minus_1)
    then have nb: "(?bp = - 1) = False" using K by fastforce
    define h0 where "h0 = h\<lparr>umem := m, brk := brk h + k\<rparr>"
    have "h0\<lparr>umem := set_size ?bp nu (umem h0)\<rparr> = h1" by (rule uheap.equality) (simp_all add: h0_def h1_def m1_def)
    then have "morecore sbrk n h = Some (freep h', h')"
      unfolding call 2(2) h0_def [symmetric] prod.case nb if_False using f(1) by simp
    moreover have "umem h' x = umem h x" if "x \<notin> cells (umem h) bs" "\<not> inblock (hbase h) 1 x" "\<not> (brk h \<le> x \<and> x < brk h')" for x
      using f(7) c that out [of x] by (simp add: h1 f(4))
    moreover have "\<exists>b \<in> set bs'. n \<le> hsize (umem h') b" using f(6) nu(1) sz order_trans unfolding h1(1) by blast
    ultimately show ?thesis using f(2-5) c ub h1 by (intro disjI2 exI [of _ h'] exI [of _ bs']) auto
  qed
qed


text \<open>Taking a block out of the list, or cutting off its upper end.\<close>

lemma take_exact:
  assumes ok: "heap_ok h (us @ p # vs)"
  defines "prevp \<equiv> last (hbase h # us)"
  defines "h' \<equiv> h\<lparr>umem := set_ptr prevp (hptr (umem h) p) (umem h), freep := prevp\<rparr>"
  shows "heap_ok h' (us @ vs)" and "cells (umem h') (us @ vs) = cells (umem h) (us @ vs)" and "hsize (umem h') p = hsize (umem h) p"
    and "\<forall>x. x \<notin> cells (umem h) (us @ p # vs) \<and> \<not> inblock (hbase h) 1 x \<longrightarrow> umem h' x = umem h x"
proof -
  let ?m = "umem h" and ?base = "hbase h" and ?hi = "unat (brk h)"
  let ?m' = "set_ptr prevp (hptr ?m p) ?m"
  note K = ok [unfolded heap_ok_def]
  have bl: "blks ?m (unat ?base) (us @ p # vs) ?hi" and sg: "seg ?m ?base (us @ p # vs) ?base" using K by simp_all
  have di: "distinct (?base # us @ p # vs)" using blks_distinct [OF bl] blks_above [OF bl] by auto
  have pu: "prevp = ?base \<or> prevp \<in> set us" by (simp add: prevp_def)
  have al: "aligned 16 b" if "b \<in> set (?base # us @ p # vs)" for b using that K free_headers(1) [OF ok] by auto
  have pa: "aligned 16 prevp" using pu al by auto
  have f: "hptr ?m' q = (if q = prevp then hptr ?m p else hptr ?m q)" "hsize ?m' q = hsize ?m q" if "aligned 16 q" for q
    using hdr_write [OF pa that] by (cases "prevp = q"; auto)+
  have "seg ?m' ?base us (hptr ?m p)"
    by (rule seg_set_last [where m = ?m and z = p]) (use sg di f al in \<open>auto simp: seg_append prevp_def\<close>)
  moreover have "prevp \<notin> set vs" using pu di by auto
  ultimately have "seg ?m' ?base (us @ vs) ?base"
    using sg f al seg_cong [of "hd vs" "tl vs" ?m' ?m] by (cases vs) (auto simp: seg_append)
  moreover have "blks ?m' (unat ?base) (us @ vs) ?hi"
  proof -
    have "blks ?m (unat ?base) (us @ vs) ?hi"
      using bl blks_mono by (fastforce simp: blks_append bend_def)
    moreover have "blks ?m' (unat ?base) (us @ vs) ?hi = blks ?m (unat ?base) (us @ vs) ?hi" by (rule blks_cong) (use f al in auto)
    ultimately show ?thesis by simp
  qed
  ultimately show "heap_ok h' (us @ vs)" using K f al pu by (auto simp: heap_ok_def h'_def)
  show "hsize (umem h') p = hsize ?m p" using f(2) al by (simp add: h'_def)
  show "cells (umem h') (us @ vs) = cells ?m (us @ vs)" by (rule cells_cong) (use f al in \<open>auto simp: h'_def\<close>)
  show "\<forall>x. x \<notin> cells ?m (us @ p # vs) \<and> \<not> inblock ?base 1 x \<longrightarrow> umem h' x = ?m x"
  proof (intro allI impI)
    fix x assume x: "x \<notin> cells ?m (us @ p # vs) \<and> \<not> inblock ?base 1 x"
    then have "\<not> inblock prevp 1 x" using pu free_headers(3) [OF ok, of prevp x] by auto
    then show "umem h' x = ?m x" using hdr_frame(1) [OF pa] by (simp add: h'_def)
  qed
qed

lemma take_split:
  assumes ok: "heap_ok h (us @ p # vs)" and n: "0 < n" "n < hsize (umem h) p" and pv: "prevp \<in> set (hbase h # us @ p # vs)"
  defines "m1 \<equiv> set_size p (hsize (umem h) p - n) (umem h)"
  defines "q \<equiv> hend m1 p"
  defines "h' \<equiv> h\<lparr>umem := set_size q n m1, freep := prevp\<rparr>"
  shows "heap_ok h' (us @ p # vs)" and "aligned 16 q" and "hsize (umem h') q = n" and "hbase h < q"
    and "cells (umem h') (us @ p # vs) \<union> {x. inblock q (unat n) x} = cells (umem h) (us @ p # vs)"
    and "cells (umem h') (us @ p # vs) \<inter> {x. inblock q (unat n) x} = {}"
    and "\<forall>x. x \<notin> cells (umem h) (us @ p # vs) \<longrightarrow> umem h' x = umem h x"
proof -
  let ?m = "umem h" and ?m' = "set_size q n m1" and ?base = "hbase h" and ?hi = "unat (brk h)"
  note K = ok [unfolded heap_ok_def]
  have bl: "blks ?m (unat ?base) (us @ p # vs) ?hi" using K by simp
  have di: "distinct (?base # us @ p # vs)" using blks_distinct [OF bl] blks_above [OF bl] by auto
  have ap: "aligned 16 p" "?base < p" using free_headers [OF ok, of p] by simp_all
  have be: "bend ?m p \<le> ?hi" using blks_above [OF bl, of p] by simp
  have s1: "hsize m1 p = hsize ?m p - n" by (simp add: m1_def)
  have us: "unat (hsize ?m p - n) = unat (hsize ?m p) - unat n" "unat n < unat (hsize ?m p)"
    using n(2) by (simp_all add: unat_sub word_less_nat_alt word_le_nat_alt)
  have b1: "bend m1 p = unat p + 16 * (unat (hsize ?m p) - unat n)" by (simp add: bend_def s1 us)
  moreover have "bend ?m p \<le> 2 ^ 31" using be K by linarith
  ultimately have lt: "bend m1 p < 2 ^ 64" by (simp add: bend_def)
  have q: "unat q = bend m1 p" unfolding q_def by (rule unat_hend [OF lt])
  have qe: "unat q + 16 * unat n = bend ?m p" using q b1 us by (simp add: bend_def algebra_simps)
  have qp: "unat p < unat q" using q b1 us by simp
  show aq: "aligned 16 q" using ap(1) q by (simp add: aligned_def bend_def)
  show "?base < q" using qp ap(2) by (simp add: word_less_nat_alt)
  have al: "aligned 16 b" if "b \<in> set (?base # us @ p # vs)" for b using that K free_headers(1) [OF ok] by auto
  have sep: "inblock b (unat (hsize ?m b)) x \<Longrightarrow> inblock p (unat (hsize ?m p)) x \<Longrightarrow> False" if "b \<in> set (us @ vs)" for b x
    using blks_sorted [OF bl] that by (auto simp: sorted_wrt_append inblock_def bend_def)
  have inp: "inblock q (unat n) x \<Longrightarrow> inblock p (unat (hsize ?m p)) x" for x using qp qe by (auto simp: inblock_def bend_def)
  have nq: "b \<noteq> q" if b: "b \<in> set (?base # us @ p # vs)" for b
  proof
    assume e: "b = q"
    have "unat ?base < unat q" using qp ap(2) by (simp add: word_less_nat_alt)
    then have bs: "b \<in> set (us @ vs)" using b e qp by auto
    then have "0 < unat (hsize ?m b)" using blks_above [OF bl, of b] by (auto simp: word_less_nat_alt)
    then have "inblock b (unat (hsize ?m b)) q" "inblock q (unat n) q" using e n(1) by (auto simp: inblock_def word_less_nat_alt)
    then show False using sep [OF bs] inp by blast
  qed
  have f: "hptr ?m' b = hptr ?m b" "hsize ?m' b = (if b = p then hsize ?m p - n else hsize ?m b)" if b: "b \<in> set (?base # us @ p # vs)" for b
    using hdr_write [OF aq al [OF b]] nq [OF b] hdr_write [OF ap(1) al [OF b]] by (cases "p = b"; auto simp: m1_def)+
  have pn: "p \<notin> set us" "p \<notin> set vs" "p \<noteq> ?base" using di by auto
  have "seg ?m' ?base (us @ p # vs) ?base" using K seg_cong [of ?base "us @ p # vs" ?m' ?m] f by auto
  moreover have "blks ?m' (unat ?base) (us @ p # vs) ?hi"
  proof -
    have "bend ?m' b = bend ?m b" if "b \<in> set us \<or> b \<in> set vs" for b using f(2) [of b] that pn by (auto simp: bend_def)
    moreover have "bend ?m' p \<le> bend ?m p" "0 < hsize ?m' p" using f(2) [of p] us by (auto simp: bend_def word_less_nat_alt)
    moreover have "blks ?m' lo us hi = blks ?m lo us hi" "blks ?m' lo vs hi = blks ?m lo vs hi" for lo hi
      by (rule blks_cong; use f pn in auto)+
    ultimately show ?thesis using bl ap by (auto simp: blks_append intro: blks_mono)
  qed
  moreover have "hsize ?m' ?base = 0" using f(2) [of ?base] pn K by auto
  ultimately show "heap_ok h' (us @ p # vs)" using K pv by (auto simp: heap_ok_def h'_def)
  show "hsize (umem h') q = n" by (simp add: h'_def)
  have c: "cells ?m' us = cells ?m us" "cells ?m' vs = cells ?m vs" by (rule cells_cong; use f pn in auto)+
  have sp: "unat (hsize ?m' p) = unat (hsize ?m p) - unat n" using f(2) [of p] us by simp
  have split: "inblock p (unat (hsize ?m p)) x \<longleftrightarrow> inblock p (unat (hsize ?m' p)) x \<or> inblock q (unat n) x" for x
    using inblock_join [of q p "unat (hsize ?m' p)" "unat n" x] q b1 sp us by simp
  show "cells (umem h') (us @ p # vs) \<union> {x. inblock q (unat n) x} = cells ?m (us @ p # vs)"
    using split c by (auto simp: h'_def cells_append cells_Cons)
  have "\<not> inblock p (unat (hsize ?m' p)) x" if "inblock q (unat n) x" for x
    using that q b1 sp by (simp add: inblock_def)
  moreover have "x \<notin> cells ?m us \<and> x \<notin> cells ?m vs" if "inblock q (unat n) x" for x
    using sep inp [OF that] by (fastforce simp: cells_def)
  ultimately show "cells (umem h') (us @ p # vs) \<inter> {x. inblock q (unat n) x} = {}"
    using c by (auto simp: h'_def cells_append cells_Cons)
  show "\<forall>x. x \<notin> cells ?m (us @ p # vs) \<longrightarrow> umem h' x = ?m x"
  proof (intro allI impI)
    fix x assume x: "x \<notin> cells ?m (us @ p # vs)"
    then have "\<not> inblock p 1 x" using free_headers(3) [OF ok, of p x] by auto
    moreover have "\<not> inblock q 1 x"
    proof
      assume "inblock q 1 x"
      then have "inblock q (unat n) x" using n(1) by (auto simp: inblock_def word_less_nat_alt)
      then have "inblock p (unat (hsize ?m p)) x" by (rule inp)
      then show False using x by (simp add: cells_append cells_Cons)
    qed
    ultimately show "umem h' x = ?m x" using hdr_frame(2) [OF aq] hdr_frame(2) [OF ap(1)] by (simp add: h'_def m1_def)
  qed
qed


text \<open>\<open>got h bs n q h' bs'\<close>: from the heap \<open>h\<close> with free blocks \<open>bs\<close> a block of \<open>n\<close> headers at \<open>q\<close> was taken. Free memory
  and new memory are the block and what is free afterwards, and nothing else has changed.\<close>

definition got :: "uheap \<Rightarrow> u64 list \<Rightarrow> u32 \<Rightarrow> u64 \<Rightarrow> uheap \<Rightarrow> u64 list \<Rightarrow> bool" where
  "got h bs n q h' bs' \<longleftrightarrow> heap_ok h' bs' \<and> hbase h' = hbase h \<and> brk h \<le> brk h' \<and>
     aligned 16 q \<and> hbase h < q \<and> hsize (umem h') q = n \<and>
     cells (umem h') bs' \<union> {x. inblock q (unat n) x} = cells (umem h) bs \<union> {x. brk h \<le> x \<and> x < brk h'} \<and>
     cells (umem h') bs' \<inter> {x. inblock q (unat n) x} = {} \<and>
     (\<forall>x. x \<notin> cells (umem h) bs \<and> \<not> inblock (hbase h) 1 x \<and> \<not> (brk h \<le> x \<and> x < brk h') \<longrightarrow> umem h' x = umem h x)"

lemma take_ok:
  assumes ok: "heap_ok h bs" and pv: "prevp \<in> set (hbase h # bs)" "hptr (umem h) prevp = p" and n: "0 < n" "n \<le> hsize (umem h) p"
  shows "\<exists>q h' bs'. malloc_take n prevp p h = (q + 16, h') \<and> got h bs n q h' bs'"
proof -
  note K = ok [unfolded heap_ok_def]
  obtain as cs where ac: "hbase h # bs = as @ prevp # cs" using split_list [OF pv(1)] by blast
  have sg: "seg (umem h) (hbase h) bs (hbase h)" using K by simp
  have p: "p = hd (cs @ [hbase h])" using seg_next [OF sg ac] pv(2) by simp
  have "p \<noteq> hbase h" using n K by auto
  then obtain vs where cs: "cs = p # vs" using p by (cases cs) auto
  obtain us where us: "bs = us @ p # vs" "prevp = last (hbase h # us)"
  proof (cases as)
    case Nil
    then show ?thesis using that [of "[]"] ac cs by simp
  next
    case (Cons a as')
    then show ?thesis using that [of "as' @ [prevp]"] ac cs by simp
  qed
  have ok': "heap_ok h (us @ p # vs)" using ok us by simp
  show ?thesis
  proof (cases "hsize (umem h) p = n")
    case True
    note T = take_exact [OF ok', folded us(2)]
    have bl: "blks (umem h) (unat (hbase h)) (us @ p # vs) (unat (brk h))" using ok' by (simp add: heap_ok_def)
    have "cells (umem h) (us @ vs) \<inter> {x. inblock p (unat n) x} = {}"
      using blks_sorted [OF bl] True by (fastforce simp: cells_def sorted_wrt_append inblock_def bend_def)
    then have "got h bs n p (h\<lparr>umem := set_ptr prevp (hptr (umem h) p) (umem h), freep := prevp\<rparr>) (us @ vs)"
      unfolding got_def using T free_headers [OF ok', of p] True us(1) by (auto simp: cells_append cells_Cons)
    then show ?thesis using True by (auto simp: malloc_take_def Let_def)
  next
    case False
    then have lt: "n < hsize (umem h) p" using n(2) by simp
    have pv': "prevp \<in> set (hbase h # us @ p # vs)" using pv(1) us(1) by simp
    note T = take_split [OF ok' n(1) lt pv']
    define m1 where "m1 = set_size p (hsize (umem h) p - n) (umem h)"
    have "got h bs n (hend m1 p) (h\<lparr>umem := set_size (hend m1 p) n m1, freep := prevp\<rparr>) (us @ p # vs)"
      unfolding got_def using T [folded m1_def] us(1) by auto
    then show ?thesis using False by (auto simp: malloc_take_def Let_def m1_def)
  qed
qed

text \<open>The loop visits the ring once, from the block after \<open>freep\<close> to \<open>freep\<close>.\<close>

fun linked :: "mem \<Rightarrow> u64 list \<Rightarrow> bool" where
  "linked m (a # b # l) \<longleftrightarrow> hptr m a = b \<and> linked m (b # l)"
| "linked m _ \<longleftrightarrow> True"

lemma linked_append: "linked m (xs @ y # ys) \<longleftrightarrow> linked m (xs @ [y]) \<and> linked m (y # ys)"
  by (induction xs rule: induct_list012) auto

lemma seg_linked: "seg m a bs z \<Longrightarrow> linked m (a # bs @ [z])"
  by (induction bs arbitrary: a) auto

definition more_loop :: "(u64 \<Rightarrow> uheap \<Rightarrow> u64 \<times> uheap) \<Rightarrow> u32 \<Rightarrow> uheap \<Rightarrow> (u64 \<times> uheap) option" where
  "more_loop sbrk n h = do { (p, h) \<leftarrow> morecore sbrk n h;
     if p = 0 then Some (0, h) else malloc_loop sbrk n p (hptr (umem h) p) h }"

lemma malloc_scan:
  assumes "linked (umem h) (prevp # ps)" and "ps \<noteq> []" and "last ps = freep h" and "freep h \<notin> set (butlast ps)"
  shows "(\<exists>prev q. prev \<in> set (prevp # ps) \<and> hptr (umem h) prev = q \<and> n \<le> hsize (umem h) q \<and>
      malloc_loop sbrk n prevp (hd ps) h = Some (malloc_take n prev q h)) \<or>
    (\<forall>q \<in> set ps. \<not> n \<le> hsize (umem h) q) \<and> malloc_loop sbrk n prevp (hd ps) h = more_loop sbrk n h"
  using assms
proof (induction ps arbitrary: prevp)
  case (Cons q ps)
  have l: "malloc_loop sbrk n prevp q h =
     (if n \<le> hsize (umem h) q then Some (malloc_take n prevp q h)
      else if q = freep h then more_loop sbrk n h else malloc_loop sbrk n q (hptr (umem h) q) h)"
    by (subst malloc_loop.simps) (simp add: more_loop_def)
  have lk: "hptr (umem h) prevp = q" using Cons.prems(1) by simp
  show ?case
  proof (cases "n \<le> hsize (umem h) q")
    case True
    then show ?thesis using l lk by (intro disjI1 exI [of _ prevp] exI [of _ q]) simp
  next
    case small: False
    show ?thesis
    proof (cases ps)
      case Nil
      then show ?thesis using l small Cons.prems(3) by simp
    next
      case (Cons c cs)
      have "q \<noteq> freep h" using Cons.prems(4) Cons by auto
      moreover have "hptr (umem h) q = c" using Cons.prems(1) Cons by simp
      ultimately have e: "malloc_loop sbrk n prevp q h = malloc_loop sbrk n q (hd ps) h" using l small Cons by simp
      have "linked (umem h) (q # ps)" "ps \<noteq> []" "last ps = freep h" "freep h \<notin> set (butlast ps)"
        using Cons.prems Cons by auto
      from Cons.IH [OF this] show ?thesis using e small by auto
    qed
  qed
qed simp

lemma malloc_round:
  assumes ok: "heap_ok h bs" and n: "0 < n"
  shows "(\<exists>q h' bs'. malloc_loop sbrk n (freep h) (hptr (umem h) (freep h)) h = Some (q + 16, h') \<and> got h bs n q h' bs') \<or>
    (\<forall>b \<in> set bs. \<not> n \<le> hsize (umem h) b) \<and>
    malloc_loop sbrk n (freep h) (hptr (umem h) (freep h)) h = more_loop sbrk n h"
proof -
  note K = ok [unfolded heap_ok_def]
  let ?m = "umem h" and ?f = "freep h"
  have "?f \<in> set (hbase h # bs)" using K by blast
  from split_list [OF this] obtain as cs where ac: "hbase h # bs = as @ ?f # cs" by blast
  have bl: "blks ?m (unat (hbase h)) bs (unat (brk h))" using K by simp
  have di: "distinct (as @ ?f # cs)"
    unfolding ac [symmetric] using blks_distinct [OF bl] blks_above [OF bl] by auto
  have "linked ?m ((hbase h # bs) @ [hbase h])" using seg_linked [of ?m "hbase h" bs "hbase h"] K by simp
  then have "linked ?m ((as @ ?f # cs) @ [hbase h])" unfolding ac .
  then have l: "linked ?m (as @ [?f])" "linked ?m (?f # cs @ [hbase h])" using linked_append [of ?m as ?f "cs @ [hbase h]"] by simp_all
  have "linked ?m (?f # cs @ as @ [?f])"
  proof (cases as)
    case Nil
    then show ?thesis using l ac by simp
  next
    case (Cons a as')
    then have "a = hbase h" using ac by simp
    then show ?thesis using l Cons linked_append [of ?m "?f # cs" a "as' @ [?f]"] by simp
  qed
  moreover have hd: "hd (cs @ as @ [?f]) = hptr ?m ?f" using calculation by (cases "cs @ as @ [?f]") auto
  moreover have "?f \<notin> set (butlast (cs @ as @ [?f]))" using di by (auto simp: butlast_append)
  ultimately have S: "(\<exists>prev q. prev \<in> set (?f # cs @ as @ [?f]) \<and> hptr ?m prev = q \<and> n \<le> hsize ?m q \<and>
      malloc_loop sbrk n ?f (hptr ?m ?f) h = Some (malloc_take n prev q h)) \<or>
    (\<forall>q \<in> set (cs @ as @ [?f]). \<not> n \<le> hsize ?m q) \<and> malloc_loop sbrk n ?f (hptr ?m ?f) h = more_loop sbrk n h"
    using malloc_scan [of h ?f "cs @ as @ [?f]" n sbrk] by simp
  have "set (hbase h # bs) = set (as @ ?f # cs)" by (rule arg_cong [OF ac])
  then have e: "set (?f # cs @ as @ [?f]) = set (hbase h # bs)" by auto
  have set: "set bs \<subseteq> set (cs @ as @ [?f])" 
  proof
    fix b assume "b \<in> set bs"
    then have "b \<in> set (?f # cs @ as @ [?f])" unfolding e by simp
    then show "b \<in> set (cs @ as @ [?f])" by auto
  qed
  from S show ?thesis
  proof
    assume "\<exists>prev q. prev \<in> set (?f # cs @ as @ [?f]) \<and> hptr ?m prev = q \<and> n \<le> hsize ?m q \<and>
      malloc_loop sbrk n ?f (hptr ?m ?f) h = Some (malloc_take n prev q h)"
    then obtain prev q where q: "prev \<in> set (hbase h # bs)" "hptr ?m prev = q" "n \<le> hsize ?m q"
      "malloc_loop sbrk n ?f (hptr ?m ?f) h = Some (malloc_take n prev q h)" unfolding e by blast
    then show ?thesis using take_ok [OF ok q(1,2) n q(3)] by auto
  next
    assume "(\<forall>q \<in> set (cs @ as @ [?f]). \<not> n \<le> hsize ?m q) \<and> malloc_loop sbrk n ?f (hptr ?m ?f) h = more_loop sbrk n h"
    then show ?thesis using set by blast
  qed
qed

lemma malloc_loop_ok:
  assumes ok: "heap_ok h bs" and s: "sbrk_ok sbrk" and n: "0 < n" "16 * unat n < 2 ^ 31"
  shows "malloc_loop sbrk n (freep h) (hptr (umem h) (freep h)) h = Some (0, h) \<or>
    (\<exists>q h' bs'. malloc_loop sbrk n (freep h) (hptr (umem h) (freep h)) h = Some (q + 16, h') \<and> got h bs n q h' bs')"
proof -
  let ?l = "\<lambda>h. malloc_loop sbrk n (freep h) (hptr (umem h) (freep h)) h"
  consider "\<exists>q h' bs'. ?l h = Some (q + 16, h') \<and> got h bs n q h' bs'" | "?l h = more_loop sbrk n h"
    using malloc_round [OF ok n(1), of sbrk] by blast
  then show ?thesis
  proof cases
    case 2
    from morecore_ok [OF ok s n(2)] show ?thesis
    proof (elim disjE exE conjE)
      assume "morecore sbrk n h = Some (0, h)"
      then show ?thesis using 2 by (simp add: more_loop_def)
    next
      fix h1 bs1
      assume m: "morecore sbrk n h = Some (freep h1, h1)" and ok1: "heap_ok h1 bs1" and b: "hbase h1 = hbase h"
        "unat (brk h) \<le> unat (brk h1)" and c: "cells (umem h1) bs1 = cells (umem h) bs \<union> {x. brk h \<le> x \<and> x < brk h1}"
        and big: "\<exists>b \<in> set bs1. n \<le> hsize (umem h1) b"
        and fr: "\<forall>x. x \<notin> cells (umem h) bs \<and> \<not> inblock (hbase h) 1 x \<and> \<not> (brk h \<le> x \<and> x < brk h1) \<longrightarrow> umem h1 x = umem h x"
      have "freep h1 \<noteq> 0" using ok1 free_headers(2) [OF ok1, of 0] by (auto simp: heap_ok_def)
      then have e: "?l h = ?l h1" using 2 m by (simp add: more_loop_def)
      obtain q h' bs' where q: "?l h1 = Some (q + 16, h')" "got h1 bs1 n q h' bs'"
        using malloc_round [OF ok1 n(1), of sbrk] big by blast
      have le: "brk h \<le> brk h1" using b(2) by (simp add: word_le_nat_alt)
      have le2: "brk h1 \<le> brk h'" using q(2) by (simp add: got_def)
      have "x \<in> cells (umem h) bs \<union> {x. brk h \<le> x \<and> x < brk h1} \<union> {x. brk h1 \<le> x \<and> x < brk h'} \<longleftrightarrow>
          x \<in> cells (umem h) bs \<union> {x. brk h \<le> x \<and> x < brk h'}" for x
        using le le2 by auto
      moreover have "umem h' x = umem h x" if x: "x \<notin> cells (umem h) bs" "\<not> inblock (hbase h) 1 x" "\<not> (brk h \<le> x \<and> x < brk h')" for x
      proof -
        have "\<not> (brk h \<le> x \<and> x < brk h1)" "\<not> (brk h1 \<le> x \<and> x < brk h')" using x(3) le le2 by auto
        then show ?thesis using q(2) x(1,2) fr c b(1) by (simp add: got_def)
      qed
      ultimately have "got h bs n q h' bs'" using q(2) c b(1) le le2 unfolding got_def by auto
      then show ?thesis using e q(1) by auto
    qed
  qed blast
qed


section \<open>The first call\<close>

definition heap_fresh :: "uheap \<Rightarrow> bool" where
  "heap_fresh h \<longleftrightarrow> freep h = 0 \<and> aligned 16 (hbase h) \<and> hbase h \<noteq> 0 \<and> aligned 16 (brk h) \<and>
     unat (hbase h) + 16 \<le> unat (brk h) \<and> unat (brk h) \<le> 2 ^ 31"

lemma malloc_init_ok:
  shows "heap_fresh h \<Longrightarrow> heap_ok (malloc_init h) []" and "heap_ok h bs \<Longrightarrow> malloc_init h = h"
    and "hbase (malloc_init h) = hbase h" and "brk (malloc_init h) = brk h"
    and "aligned 16 (hbase h) \<Longrightarrow> \<not> inblock (hbase h) 1 x \<Longrightarrow> umem (malloc_init h) x = umem h x"
proof -
  show "heap_fresh h \<Longrightarrow> heap_ok (malloc_init h) []"
    by (simp add: heap_fresh_def heap_ok_def malloc_init_def)
  show "heap_ok h bs \<Longrightarrow> malloc_init h = h"
    using free_headers(2) [of h bs 0] by (auto simp: heap_ok_def malloc_init_def)
  show "hbase (malloc_init h) = hbase h" "brk (malloc_init h) = brk h" by (simp_all add: malloc_init_def)
  show "aligned 16 (hbase h) \<Longrightarrow> \<not> inblock (hbase h) 1 x \<Longrightarrow> umem (malloc_init h) x = umem h x"
    by (simp add: malloc_init_def hdr_frame)
qed

lemma nunits_ok:
  assumes "unat nbytes < 2 ^ 31 - 64"
  shows "unat (nunits nbytes) = (unat nbytes + 15) div 16 + 1" and "0 < nunits nbytes" and "16 * unat (nunits nbytes) < 2 ^ 31"
    and "unat nbytes + 16 \<le> 16 * unat (nunits nbytes)"
proof -
  have a: "unat (ucast nbytes :: u64) = unat nbytes"
    using unsigned_less [of nbytes, where ?'a = nat] by (simp add: unsigned_ucast_eq take_bit_nat_eq_self)
  let ?w = "(ucast nbytes :: u64) + 16 - 1"
  have "?w = ucast nbytes + 15" by simp
  then have "unat ?w = unat nbytes + 15" using assms a by (simp add: unat_word_ariths)
  then have d: "unat (?w div 16) = (unat nbytes + 15) div 16" by (simp add: unat_div_distrib)
  have lt: "(unat nbytes + 15) div 16 < 2 ^ 27" using assms by (simp add: div_less_iff_less_mult)
  define w where "w = ?w div 16"
  have "unat w < 2 ^ 27" using lt d by (simp only: w_def)
  then have "unat (w + 1) = unat w + 1" by (simp add: unat_word_ariths)
  then have "unat (?w div 16 + 1) = (unat nbytes + 15) div 16 + 1" using d by (simp only: w_def)
  then show u: "unat (nunits nbytes) = (unat nbytes + 15) div 16 + 1"
    using lt by (simp only: nunits_def unsigned_ucast_eq) (simp add: take_bit_nat_eq_self)
  then show "0 < nunits nbytes" by (simp add: word_less_nat_alt)
  show "16 * unat (nunits nbytes) < 2 ^ 31" "unat nbytes + 16 \<le> 16 * unat (nunits nbytes)" using u assms by auto
qed

lemma malloc_ok:
  assumes h: "heap_ok h bs \<or> heap_fresh h \<and> bs = []" and s: "sbrk_ok sbrk" and n: "unat nbytes < 2 ^ 31 - 64"
  shows "(\<exists>h'. malloc sbrk nbytes h = Some (0, h') \<and> h' = malloc_init h \<and> heap_ok h' bs) \<or>
    (\<exists>q h' bs'. malloc sbrk nbytes h = Some (q + 16, h') \<and> got (malloc_init h) bs (nunits nbytes) q h' bs')"
proof -
  have ok: "heap_ok (malloc_init h) bs" using h malloc_init_ok(1,2) by metis
  show ?thesis
    using malloc_loop_ok [OF ok s nunits_ok(2,3) [OF n]] ok by (auto simp: malloc_def Let_def)
qed

section \<open>Properties\<close>

text \<open>
  Property C15 (functional). \<open>malloc\<close> on a well-formed or untouched heap returns after at most two rounds
  of the list, with NULL (nothing changed but the set-up of the empty list) or with a pointer behind a header:
  the block has room for the requested bytes, was free or was obtained from the kernel, overlaps
  nothing that is free afterwards, and every byte that was neither free nor part of \<open>base\<close> keeps its value;
  all free and new memory is accounted for, the list stays sorted with no two blocks that touch, and
  the block may be given to \<open>free\<close>.
\<close>

theorem malloc_returns_unused_block:
  assumes "heap_ok h bs \<or> heap_fresh h \<and> bs = []" and "sbrk_ok sbrk" and "unat nbytes < 2 ^ 31 - 64"
  shows "\<exists>r h' bs'. malloc sbrk nbytes h = Some (r, h') \<and> heap_ok h' bs' \<and>
    (\<forall>x. x \<notin> cells (umem h) bs \<and> \<not> inblock (hbase h) 1 x \<and> \<not> (brk h \<le> x \<and> x < brk h') \<longrightarrow> umem h' x = umem h x) \<and>
    (if r = 0 then cells (umem h') bs' = cells (umem h) bs \<and> brk h' = brk h
     else \<exists>q n. r = q + 16 \<and> aligned 16 r \<and> unat nbytes + 16 \<le> 16 * n \<and>
       cells (umem h') bs' \<union> {x. inblock q n x} = cells (umem h) bs \<union> {x. brk h \<le> x \<and> x < brk h'} \<and>
       cells (umem h') bs' \<inter> {x. inblock q n x} = {} \<and> can_free h' bs' q)"
proof -
  have ab: "aligned 16 (hbase h)" using assms(1) by (auto simp: heap_ok_def heap_fresh_def)
  have i: "hbase (malloc_init h) = hbase h" "brk (malloc_init h) = brk h" "cells (umem (malloc_init h)) bs = cells (umem h) bs"
    "\<not> inblock (hbase h) 1 x \<Longrightarrow> umem (malloc_init h) x = umem h x" for x
    using malloc_init_ok(2-5) ab assms(1) by auto
  from malloc_ok [OF assms] show ?thesis
  proof (elim disjE exE conjE)
    fix h' assume "malloc sbrk nbytes h = Some (0, h')" "h' = malloc_init h" "heap_ok h' bs"
    then show ?thesis using i by (intro exI [of _ 0] exI [of _ h'] exI [of _ bs]) simp
  next
    fix q h' bs' assume m: "malloc sbrk nbytes h = Some (q + 16, h')" and g: "got (malloc_init h) bs (nunits nbytes) q h' bs'"
    note G = g [unfolded got_def i]
    have nz: "0 < unat (nunits nbytes)" using nunits_ok(2) [OF assms(3)] by (simp add: word_less_nat_alt)
    let ?e = "unat q + 16 * unat (nunits nbytes)"
    have top: "unat x < unat (brk h')" if "inblock q (unat (nunits nbytes)) x" for x
    proof -
      have "x \<in> cells (umem h) bs \<or> x < brk h'" using G that by blast
      moreover have "heap_ok (malloc_init h) bs" using malloc_init_ok(1,2) assms(1) by metis
      ultimately show ?thesis using cells_below(2) [of "malloc_init h" bs x] G i by (auto simp: word_less_nat_alt word_le_nat_alt)
    qed
    have hi: "unat (brk h') \<le> 2 ^ 31" using G by (simp add: heap_ok_def)
    have lq: "unat q < unat (brk h')" using top [of q] nz by (simp add: inblock_def)
    have e: "?e \<le> unat (brk h')"
    proof -
      have u: "unat (of_nat (?e - 1) :: u64) = ?e - 1"
        using lq hi nunits_ok(3) [OF assms(3)] by (intro unat_of_nat_small) simp
      have "inblock q (unat (nunits nbytes)) (of_nat (?e - 1))" using u nz by (simp add: inblock_def)
      from top [OF this] show ?thesis using u by simp
    qed
    have cf: "can_free h' bs' q"
      using G e nz by (auto simp: can_free_def bend_def word_less_nat_alt)
    have "unat (q + 16) = unat q + 16" using lq hi by (simp add: unat_word_ariths)
    then have "q + 16 \<noteq> 0" "aligned 16 (q + 16)" using G by (auto simp: aligned_def)
    then show ?thesis
      using m G cf i(4) nunits_ok(4) [OF assms(3)]
      by (intro exI [of _ "q + 16"] exI [of _ h'] exI [of _ bs']) (auto intro!: exI [of _ q] exI [of _ "unat (nunits nbytes)"])
  qed
qed

text \<open>
  Property C16 (termination). \<open>free\<close> returns, wherever \<open>freep\<close> stands: the search for the place of the
  block ends, the block becomes free, it is merged with the free blocks it touches (the list stays sorted and
  no two of its blocks touch), and no other byte changes than those of free blocks and of \<open>base\<close>.
\<close>

theorem free_returns_and_merges:
  assumes "heap_ok h bs" and "can_free h bs q"
  shows "\<exists>h' bs'. free (q + 16) h = Some h' \<and> heap_ok h' bs' \<and> brk h' = brk h \<and>
    cells (umem h') bs' = cells (umem h) bs \<union> {x. inblock q (unat (hsize (umem h) q)) x} \<and>
    (\<forall>x. x \<notin> cells (umem h) bs \<and> \<not> inblock q (unat (hsize (umem h) q)) x \<and> \<not> inblock (hbase h) 1 x \<longrightarrow> umem h' x = umem h x)"
proof -
  obtain h' bs' where f: "free (q + 16) h = Some h'" "heap_ok h' bs'" "brk h' = brk h" "cells (umem h') bs' = cells (umem h) (q # bs)"
    "\<forall>x. x \<notin> cells (umem h) (q # bs) \<and> \<not> inblock (hbase h) 1 x \<longrightarrow> umem h' x = umem h x"
    by (rule free_ok [OF assms]) (rule that; assumption)
  then show ?thesis by (intro exI [of _ h'] exI [of _ bs']) (auto simp: cells_Cons)
qed

text \<open>A process whose memory ends at 64 KiB and whose \<open>sbrk\<close> never fails below the limit.\<close>

definition small_sbrk :: "u64 \<Rightarrow> uheap \<Rightarrow> u64 \<times> uheap" where
  "small_sbrk k h = (if unat (brk h) + unat k \<le> 2 ^ 31 then (brk h, h\<lparr>brk := brk h + k\<rparr>) else (- 1, h))"

definition small_heap :: uheap where
  "small_heap = \<lparr>umem = (\<lambda>_. 0), hbase = 0x8000, freep = 0, brk = 0x10000\<rparr>"

lemma small_heap: "heap_fresh small_heap" "sbrk_ok small_sbrk"
proof -
  have "h\<lparr>brk := b\<rparr> = h\<lparr>umem := umem h, brk := b\<rparr>" for h :: uheap and b by (rule uheap.equality) simp_all
  then show "sbrk_ok small_sbrk" unfolding sbrk_ok_def small_sbrk_def by metis
qed (simp add: heap_fresh_def small_heap_def aligned_def)

theorem malloc_returns_unused_block_witness:
  "\<exists>r h' bs'. malloc small_sbrk 100 small_heap = Some (r, h') \<and> heap_ok h' bs' \<and> umem h' 0x9000 = 0 \<and>
     (r = 0 \<or> (\<exists>q n. r = q + 16 \<and> 116 \<le> 16 * (n :: nat) \<and> can_free h' bs' q))"
proof -
  have x: "\<not> inblock (hbase small_heap) 1 0x9000" "\<not> brk small_heap \<le> 0x9000" "umem small_heap 0x9000 = 0"
    by (simp_all add: small_heap_def inblock_def)
  have "unat (100 :: u32) < 2 ^ 31 - 64" by simp
  from malloc_returns_unused_block [OF disjI2 [OF conjI [OF small_heap(1) refl]] small_heap(2) this]
  obtain r h' bs' where m: "malloc small_sbrk 100 small_heap = Some (r, h')" "heap_ok h' bs'"
    and f: "\<forall>x. x \<notin> cells (umem small_heap) [] \<and> \<not> inblock (hbase small_heap) 1 x \<and>
      \<not> (brk small_heap \<le> x \<and> x < brk h') \<longrightarrow> umem h' x = umem small_heap x"
    and r: "r \<noteq> 0 \<longrightarrow> (\<exists>q n. r = q + 16 \<and> 116 \<le> 16 * (n :: nat) \<and> can_free h' bs' q)"
    by (elim exE conjE) (force split: if_splits)
  have "umem h' 0x9000 = 0" using f x by (simp add: cells_def)
  then show ?thesis using m r by blast
qed

text \<open>The same process with one block of four headers in use.\<close>

definition used_heap :: uheap where
  "used_heap = (let h = malloc_init small_heap in h\<lparr>umem := set_size 0x9000 4 (umem h)\<rparr>)"

theorem free_returns_and_merges_witness:
  "\<exists>h' bs'. free 0x9010 used_heap = Some h' \<and> heap_ok h' bs' \<and> 0x9020 \<in> cells (umem h') bs'"
proof -
  have f: "umem used_heap = set_size 0x9000 4 (umem (malloc_init small_heap))" "hbase used_heap = 0x8000" "brk used_heap = 0x10000"
    "freep used_heap = 0x8000"
    by (simp_all add: used_heap_def Let_def malloc_init_def small_heap_def)
  have "heap_ok (malloc_init small_heap) []" using malloc_init_ok(1) small_heap(1) by blast
  then have i: "hptr (umem (malloc_init small_heap)) 0x8000 = 0x8000" "hsize (umem (malloc_init small_heap)) 0x8000 = 0"
    by (simp_all add: heap_ok_def malloc_init_def small_heap_def)
  have al: "aligned 16 0x9000" "aligned 16 0x8000" by (simp_all add: aligned_def)
  note w = hdr_write(3,4) [OF al]
  have ok: "heap_ok used_heap []" using i w al(2) by (simp add: heap_ok_def f aligned_def)
  have cf: "can_free used_heap [] 0x9000" using al(1) by (simp add: can_free_def f bend_def)
  have "inblock 0x9000 (unat (hsize (umem used_heap) 0x9000)) 0x9020" by (simp add: f inblock_def)
  then show ?thesis using free_returns_and_merges [OF ok cf] by auto
qed

end
