(* ===== verification/User_String.thy ===== *)
theory User_String
  imports Sysargs Page_Table
begin

text \<open>
  What \<open>fetchstr\<close> (\<open>kernel/syscall/syscall.c\<close>) reads, against the address space as the hardware
  translates it: \<open>user_char\<close> is the byte that the program itself can read at an address.
\<close>

definition user_char :: "mem \<Rightarrow> u64 \<Rightarrow> u64 \<Rightarrow> u8 option" where
  "user_char m root va =
     (case translate m root va of
        None \<Rightarrow> None
      | Some e \<Rightarrow> if e AND PTE_U = 0 then None else Some (m (PTE2PA e + (va - PGROUNDDOWN va))))"

text \<open>The tables of the address space are at addresses other than 0, so a walk that ends gives no NULL.\<close>

definition tables_placed :: "mem \<Rightarrow> u64 \<Rightarrow> bool" where
  "tables_placed m root \<longleftrightarrow> (\<forall>va q. tbl m root (vpath va) = Some q \<longrightarrow> aligned 4096 q \<and> q \<noteq> 0)"

lemma user_byte_char:
  assumes "va < MAXVA" and "tables_placed (pmem s) root"
  shows "\<exists>r. user_byte s root True va = Some r \<and> map_option (pmem s) r = user_char (pmem s) root va"
proof -
  have px: "PX 0 (PGROUNDDOWN va) = PX 0 va" "vpath (PGROUNDDOWN va) = vpath va" by simp_all
  have z: "q + 8 * PX 0 va \<noteq> 0" if "tbl (pmem s) root (vpath va) = Some q" for q
    using assms(2) that entry_nonzero [of q "PX 0 va"] by (auto simp: tables_placed_def)
  show ?thesis
    using z by (auto simp: user_byte_def walk_noalloc [OF PGROUNDDOWN_lt_MAXVA [OF assms(1)]] px user_char_def translate_def
      Let_def split: option.split)
qed

text \<open>The string at an address, as the bytes before the first 0.\<close>

definition user_string :: "mem \<Rightarrow> u64 \<Rightarrow> u64 \<Rightarrow> u8 list \<Rightarrow> bool" where
  "user_string m root va str \<longleftrightarrow> 0 \<notin> set str \<and> (\<forall>k \<le> length str. user_char m root (va + of_nat k) = Some ((str @ [0]) ! k))"

lemma user_string_Nil: "user_string m root va [] \<longleftrightarrow> user_char m root va = Some 0"
  by (simp add: user_string_def)

lemma user_string_Cons:
  "user_string m root va (c # str) \<longleftrightarrow> c \<noteq> 0 \<and> user_char m root va = Some c \<and> user_string m root (va + 1) str"
proof -
  have "(\<forall>k \<le> Suc n. P k) \<longleftrightarrow> P 0 \<and> (\<forall>k \<le> n. P (Suc k))" for P and n :: nat
    using All_less_Suc2 [of "Suc n" P] by (simp add: less_Suc_eq_le)
  then show ?thesis by (auto simp: user_string_def add.assoc)
qed

lemma fetchstr_loop_exact:
  assumes "tables_placed (pmem s) root" and "unat src + mx \<le> 2 ^ 38" and "i \<le> mx"
  shows "(\<forall>str. i + length str < mx \<longrightarrow> user_string (pmem s) root (src + of_nat i) str \<longrightarrow>
       fetchstr_loop s root src None i mx acc = Some (int (i + length str), acc @ str @ [0], s)) \<and>
     ((\<nexists>str. i + length str < mx \<and> user_string (pmem s) root (src + of_nat i) str) \<longrightarrow>
       (\<exists>bs. fetchstr_loop s root src None i mx acc = Some (- 1, bs, s)))"
  using assms(3)
proof (induction "mx - i" arbitrary: i acc)
  case 0
  then show ?case by (simp add: fetchstr_loop.simps)
next
  case (Suc d)
  then have lt: "i < mx" by simp
  let ?m = "pmem s"
  define va where "va = src + of_nat i"
  have nx: "src + of_nat (Suc i) = va + 1" by (simp add: va_def)
  have "unat va = unat src + i" unfolding va_def by (rule unat_add_small) (use assms(2) lt in simp)
  then have "va < MAXVA" using assms(2) lt by (simp add: MAXVA_unat)
  then obtain r where r: "user_byte s root True va = Some r" "map_option ?m r = user_char ?m root va"
    using user_byte_char [OF _ assms(1)] by blast
  have step: "fetchstr_loop s root src None i mx acc =
    (case user_char ?m root va of
       None \<Rightarrow> Some (- 1, acc, s)
     | Some c \<Rightarrow> if c = 0 then Some (int i, acc @ [c], s) else fetchstr_loop s root src None (Suc i) mx (acc @ [c]))"
  proof -
    have uc: "user_char ?m root va = map_option ?m r" using r(2) by simp
    show ?thesis unfolding uc
      using lt r(1) unfolding va_def by (cases r) (auto simp: fetchstr_loop.simps [of s root src None i] Let_def)
  qed
  show ?case
  proof (cases "user_char ?m root va")
    case None
    then have "\<not> user_string ?m root va str" for str by (cases str) (simp_all add: user_string_Nil user_string_Cons)
    then show ?thesis using None by (simp add: step va_def)
  next
    case (Some c)
    show ?thesis
    proof (cases "c = 0")
      case True
      then have "user_string ?m root va str \<longleftrightarrow> str = []" for str
        using Some by (cases str) (simp_all add: user_string_Nil user_string_Cons)
      then show ?thesis using Some True lt by (auto simp: step va_def)
    next
      case False
      have us: "user_string ?m root va str \<longleftrightarrow> (\<exists>str'. str = c # str' \<and> user_string ?m root (va + 1) str')" for str
        using Some False by (cases str) (auto simp: user_string_Nil user_string_Cons)
      have ih: "(\<forall>str. Suc i + length str < mx \<longrightarrow> user_string ?m root (va + 1) str \<longrightarrow>
           fetchstr_loop s root src None (Suc i) mx (acc @ [c]) = Some (int (Suc i + length str), (acc @ [c]) @ str @ [0], s)) \<and>
         ((\<nexists>str. Suc i + length str < mx \<and> user_string ?m root (va + 1) str) \<longrightarrow>
           (\<exists>bs. fetchstr_loop s root src None (Suc i) mx (acc @ [c]) = Some (- 1, bs, s)))"
        using Suc.hyps(1) [of "Suc i" "acc @ [c]"] Suc.hyps(2) lt unfolding nx by simp
      have e: "fetchstr_loop s root src None i mx acc = fetchstr_loop s root src None (Suc i) mx (acc @ [c])"
        using Some False by (simp add: step)
      have "(\<exists>str. i + length str < mx \<and> user_string ?m root va str) \<longleftrightarrow>
          (\<exists>str. Suc i + length str < mx \<and> user_string ?m root (va + 1) str)"
        unfolding us by (metis add_Suc add_Suc_right length_Cons)
      then show ?thesis unfolding va_def [symmetric] e using ih us by auto
    qed
  qed
qed

section \<open>Properties\<close>


text \<open>The tables of the small address space.\<close>

lemma tiny_entry:
  assumes "i < 512" and "p \<in> {0x80001000, 0x80002000, 0x80003000}"
  shows "load64 (pmem tiny_user) (p + 8 * i) = (if i \<noteq> 0 then 0 else load64 (pmem tiny_user) p)"
proof (cases "i = 0")
  case False
  have al: "aligned 4096 (0x80001000 :: u64)" "aligned 4096 (0x80002000 :: u64)" "aligned 4096 (0x80003000 :: u64)" "aligned 4096 p"
    using assms(2) by (auto simp: aligned_def)
  have o: "load64 (store64 m q v) (p + 8 * i) = load64 m (p + 8 * i)" if "aligned 4096 q" for m q v
    using load_store_entry [OF that al(4), of 0 i] assms(1) False by simp
  have "load64 (\<lambda>_. 0) a = 0" for a
  proof -
    have "mem_read (\<lambda>_. 0) a 8 = replicate 8 0" by (intro nth_equalityI) simp_all
    then show ?thesis by (simp add: load64_def numeral_eq_Suc)
  qed
  then have z: "load64 tiny_mem (p + 8 * i) = 0" by (simp add: tiny_mem_def o al)
  have u: "unat (p + 8 * i) = unat p + 8 * unat i" by (rule entry_unat [OF al(4) assms(1)])
  have lt: "unat p + 8 * unat i + 8 \<le> 0x80004000" using assms word_less_nat_alt [of i "512"] by auto
  have far: "8 \<le> unat (a - (p + 8 * i))" if "0x80004000 \<le> unat a" for a
    using that lt u unat_sub [of "p + 8 * i" a] by (simp add: word_le_nat_alt)
  have "load64 (pmem tiny_user) (p + 8 * i) = load64 tiny_mem (p + 8 * i)"
    by (simp add: load64_upd_other far)
  then show ?thesis using False z by simp
qed simp

lemma tiny_pt_ok: "pt_ok (pmem tiny_user) 0x80001000 []"
proof -
  define m where "m = pmem tiny_user"
  have v: "load64 m 0x80001000 = PA2PTE 0x80002000 OR PTE_V" "load64 m 0x80002000 = PA2PTE 0x80003000 OR PTE_V"
    unfolding m_def by (simp_all add: tiny_ptes)
  have e1: "tbl m 0x80001000 (i # is) = (if i = 0 then tbl m 0x80002000 is else None)" if "i < 512" for i "is"
    using tiny_entry [OF that, where p = "0x80001000"] v(1) unfolding m_def [symmetric]
    by (simp add: kdefs PA2PTE_def PTE2PA_def)
  have e2: "tbl m 0x80002000 (i # is) = (if i = 0 then tbl m 0x80003000 is else None)" if "i < 512" for i "is"
    using tiny_entry [OF that, where p = "0x80002000"] v(2) unfolding m_def [symmetric]
    by (simp add: kdefs PA2PTE_def PTE2PA_def)
  have t: "\<pi> = [] \<and> p = 0x80001000 \<or> \<pi> = [0] \<and> p = 0x80002000 \<or> \<pi> = [0, 0] \<and> p = 0x80003000"
    if h: "is_path \<pi>" and q: "tbl m 0x80001000 \<pi> = Some p" for \<pi> p
  proof -
    consider "\<pi> = []" | i where "\<pi> = [i]" "i < 512" | i j where "\<pi> = [i, j]" "i < 512" "j < 512"
      using h by (cases \<pi> rule: remdups_adj.cases) (auto simp: is_path_def)
    then show ?thesis using q by cases (auto simp: e1 e2 simp del: tbl.simps(2) split: if_splits)
  qed
  have "aligned 4096 (0x80001000 :: u64)" "aligned 4096 (0x80002000 :: u64)" "aligned 4096 (0x80003000 :: u64)"
    by (simp_all add: aligned_def)
  then have "aligned 4096 p \<and> p \<noteq> 0 \<and> p \<notin> set []" if "is_path \<pi>" "tbl m 0x80001000 \<pi> = Some p" for \<pi> p
    using t [OF that] by (elim disjE conjE) simp_all
  moreover have "\<pi> = \<pi>'"
    if "is_path \<pi>" "is_path \<pi>'" "tbl m 0x80001000 \<pi> = Some p" "tbl m 0x80001000 \<pi>' = Some p" for \<pi> \<pi>' p
    using t [OF that(1) that(3)] t [OF that(2) that(4)] by (elim disjE conjE) simp_all
  ultimately show ?thesis unfolding m_def [symmetric] pt_ok_def by blast
qed

lemma tiny_user_char:
  assumes "va < 4096"
  shows "user_char (pmem tiny_user) 0x80001000 va = Some (pmem tiny_user (0x80004000 + va))"
proof -
  have "va < MAXVA" using assms by (simp add: kdefs push_bit_eq_mult word_less_nat_alt)
  moreover have "tables_placed (pmem tiny_user) 0x80001000"
    using pt_okD [OF tiny_pt_ok is_path_vpath] by (auto simp: tables_placed_def)
  ultimately show ?thesis using user_byte_char [where va = va and s = tiny_user and root = "0x80001000"] tiny_user_byte [OF assms, of True] by auto
qed


end
