(* ===== verification/Bcache_Async.thy ===== *)
theory Bcache_Async
  imports Bcache
begin

text \<open>
  The buffer cache while transfers are in progress. The other theories let a transfer of a block
  happen at once, inside \<open>bread\<close> and \<open>bwrite\<close>; in the code \<open>virtio_disk_rw\<close> puts the caller to sleep and other
  processes use the cache until the disk has finished. Here \<open>bread\<close> and \<open>bwrite\<close> end where the caller falls
  asleep, the disk finishes transfers later and in any order, and the states that appear in between
  are related to those of the synchronous cache.
\<close>

section \<open>Operations up to the point where the caller sleeps\<close>

text \<open>The buffer, and whether the caller has started a transfer and waits for it.\<close>

definition bread_begin :: "'a blk_st_scheme \<Rightarrow> u32 \<Rightarrow> u32 \<Rightarrow> (nat \<times> bool \<times> 'a blk_st_scheme) option" where
  "bread_begin s dev blockno =
     do { (b, s) \<leftarrow> bget s dev blockno;
          if \<not> b_valid (bcache s b)
          then Some (b, True, s\<lparr>bcache := upd_buf b (\<lambda>x. x\<lparr>b_valid := True, b_disk := True\<rparr>) (bcache s)\<rparr>)
          else Some (b, False, s) }"

definition bwrite_begin :: "nat \<Rightarrow> 'a blk_st_scheme \<Rightarrow> 'a blk_st_scheme" where
  "bwrite_begin b s = s\<lparr>bcache := upd_buf b (b_disk_update (\<lambda>_. True)) (bcache s)\<rparr>"

text \<open>With the disk finishing at once these are the operations of the synchronous cache.\<close>

lemma bread_split:
  "bread s dev n = map_option (\<lambda>(b, miss, s'). (b, if miss then disk_rw b False s' else s')) (bread_begin s dev n)"
  by (auto simp: bread_def bread_begin_def disk_rw_def upd_buf_def fun_eq_iff split: Option.bind_split)

lemma bwrite_split: "bwrite b s = disk_rw b True (bwrite_begin b s)"
  by (simp add: bwrite_def bwrite_begin_def disk_rw_def upd_buf_def)

section \<open>Transfers in progress\<close>

datatype transfer = Reading | Writing "u8 list"

fun written :: "transfer option \<Rightarrow> u8 list option" where
  "written (Some (Writing d)) = Some d"
| "written _ = None"

text \<open>
  A configuration: the references held, the transfer in progress on each buffer, the state. A process that has
  started a transfer sleeps with its reference until the transfer is done. The steps of the relation never give
  up the references in \<open>K\<close>; no transfer is started on a buffer that has one in progress.
\<close>

type_synonym async_conf = "nat multiset \<times> (nat \<rightharpoonup> transfer) \<times> blk_st"

inductive async_step :: "nat multiset \<Rightarrow> async_conf \<Rightarrow> async_conf \<Rightarrow> bool" for K where
  rd: "size H < NBUF \<Longrightarrow> bread_begin s ROOTDEV n = Some (b, miss, s') \<Longrightarrow>
     async_step K (H, P, s) (add_mset b H, if miss then P(b \<mapsto> Reading) else P, s')"
| wr: "b \<in># H \<Longrightarrow> P b = None \<Longrightarrow> length d = BSIZE \<Longrightarrow>
     async_step K (H, P, s) (H, P(b \<mapsto> Writing d), bwrite_begin b (bset b d s))"
| served: "P b = Some x \<Longrightarrow> async_step K (H, P, s) (H, P(b := None), disk_rw b (x \<noteq> Reading) s)"
| rel: "b \<in># H \<Longrightarrow> count K b < count H b \<Longrightarrow> (P b \<noteq> None \<Longrightarrow> 1 < count H b) \<Longrightarrow>
     async_step K (H, P, s) (H - {#b#}, P, brelse b s)"

definition async_run :: "blk_st \<Rightarrow> nat multiset \<Rightarrow> (nat \<rightharpoonup> transfer) \<Rightarrow> blk_st \<Rightarrow> bool" where
  "async_run s0 H P s \<longleftrightarrow> (async_step {#})\<^sup>*\<^sup>* ({#}, Map.empty, binit s0) (H, P, s)"

text \<open>The contents of a block: what is being written to it, or else what is on the disk.\<close>

definition contents :: "(nat \<rightharpoonup> transfer) \<Rightarrow> 'a blk_st_scheme \<Rightarrow> u32 \<Rightarrow> u8 list" where
  "contents P s n =
     (case List.find (\<lambda>b. written (P b) \<noteq> None \<and> b_blockno (bcache s b) = n) [0..<NBUF] of
        Some b \<Rightarrow> the (written (P b))
      | None \<Rightarrow> disk_blocks s n)"

section \<open>The synchronous state behind a configuration\<close>

definition seen :: "(nat \<rightharpoonup> transfer) \<Rightarrow> (u32 \<Rightarrow> u8 list) \<Rightarrow> (nat \<Rightarrow> buf) \<Rightarrow> nat \<Rightarrow> buf" where
  "seen P dsk bc b =
     (case P b of
        None \<Rightarrow> bc b
      | Some Reading \<Rightarrow> (bc b)\<lparr>b_data := dsk (b_blockno (bc b)), b_disk := False\<rparr>
      | Some (Writing d) \<Rightarrow> (bc b)\<lparr>b_disk := False\<rparr>)"

text \<open>Every transfer in progress taken as done.\<close>

definition settled :: "(nat \<rightharpoonup> transfer) \<Rightarrow> 'a blk_st_scheme \<Rightarrow> 'a blk_st_scheme" where
  "settled P s = s\<lparr>disk_blocks := contents P s, bcache := seen P (contents P s) (bcache s)\<rparr>"

definition pending_ok :: "nat multiset \<Rightarrow> (nat \<rightharpoonup> transfer) \<Rightarrow> 'a blk_st_scheme \<Rightarrow> bool" where
  "pending_ok H P s \<longleftrightarrow> (\<forall>b. P b \<noteq> None \<longrightarrow> b \<in># H) \<and> (\<forall>b d. P b = Some (Writing d) \<longrightarrow> b_data (bcache s b) = d)"

lemma seen_fields [simp]:
  "b_dev (seen P dsk bc b) = b_dev (bc b)" "b_blockno (seen P dsk bc b) = b_blockno (bc b)"
  "b_refcnt (seen P dsk bc b) = b_refcnt (bc b)" "b_valid (seen P dsk bc b) = b_valid (bc b)"
  "b_next (seen P dsk bc b) = b_next (bc b)" "b_prev (seen P dsk bc b) = b_prev (bc b)"
  by (simp_all add: seen_def split: option.split transfer.split)

lemma seen_none: "P b = None \<Longrightarrow> seen P dsk bc b = bc b"
  by (simp add: seen_def)

lemma seen_cong: "P' x = P x \<Longrightarrow> bc' x = bc x \<Longrightarrow> seen P' dsk bc' x = seen P dsk bc x"
  by (simp only: seen_def)

lemma seen_upd:
  "seen P dsk (upd_buf p (b_next_update f) bc) = upd_buf p (b_next_update f) (seen P dsk bc)"
  "seen P dsk (upd_buf p (b_prev_update f) bc) = upd_buf p (b_prev_update f) (seen P dsk bc)"
  "seen P dsk (upd_buf p (\<lambda>x. x\<lparr>b_refcnt := g x\<rparr>) bc) = upd_buf p (\<lambda>x. x\<lparr>b_refcnt := g x\<rparr>) (seen P dsk bc)"
    if "\<And>x. g x = h (b_refcnt x)"
  using that by (auto simp: fun_eq_iff seen_def upd_buf_def split: option.split transfer.split)

lemma seen_unlink: "seen P dsk (brelse_unlink b bc) = brelse_unlink b (seen P dsk bc)"
  by (simp add: brelse_unlink_def Let_def seen_upd)

lemma settled_simps [simp]:
  "disk_blocks (settled P s) = contents P s" "bcache (settled P s) = seen P (contents P s) (bcache s)"
  by (simp_all add: settled_def)

lemma settled_empty [simp]: "settled Map.empty s = s"
proof -
  have c: "contents Map.empty s = disk_blocks s" by (auto simp: fun_eq_iff contents_def find_None_iff split: option.split dest: find_SomeD)
  have "seen Map.empty dsk bc = bc" for dsk bc by (simp add: fun_eq_iff seen_def)
  then show ?thesis by (simp add: settled_def c)
qed

text \<open>Writes in progress are to different blocks.\<close>

lemma contents_cong:
  assumes "\<And>b. b < NBUF \<Longrightarrow> written (P' b) = written (P b)"
    and "\<And>b. b < NBUF \<Longrightarrow> written (P b) \<noteq> None \<Longrightarrow> b_blockno (bcache s' b) = b_blockno (bcache s b)"
    and "disk_blocks s' = disk_blocks s"
  shows "contents P' s' = contents P s"
proof
  fix n
  have "List.find (\<lambda>b. written (P' b) \<noteq> None \<and> b_blockno (bcache s' b) = n) [0..<NBUF] =
      List.find (\<lambda>b. written (P b) \<noteq> None \<and> b_blockno (bcache s b) = n) [0..<NBUF]" (is "?l = ?r")
    using assms(1,2) by (intro find_cong) auto
  moreover have "the (written (P' b)) = the (written (P b))" if "?r = Some b" for b
    using find_SomeD [OF that] assms(1) by auto
  ultimately show "contents P' s' n = contents P s n" using assms(3) by (simp add: contents_def split: option.split)
qed

lemma contents_written:
  assumes "b < NBUF" and "written (P b) = Some d" and "b_blockno (bcache s b) = n"
    and "\<And>c. c < NBUF \<Longrightarrow> written (P c) \<noteq> None \<Longrightarrow> b_blockno (bcache s c) = n \<Longrightarrow> c = b"
  shows "contents P s n = d"
proof -
  have "List.find (\<lambda>b. written (P b) \<noteq> None \<and> b_blockno (bcache s b) = n) [0..<NBUF] = Some b"
  proof (rule find_unique)
    show "b \<in> set [0..<NBUF]" using assms(1) by simp
    show "written (P b) \<noteq> None \<and> b_blockno (bcache s b) = n" using assms(2,3) by simp
    fix c assume "c \<in> set [0..<NBUF]" "written (P c) \<noteq> None \<and> b_blockno (bcache s c) = n"
    then show "c = b" using assms(4) by simp
  qed
  then show ?thesis using assms(2) by (simp add: contents_def)
qed

lemma contents_disk:
  assumes "\<And>c. c < NBUF \<Longrightarrow> written (P c) \<noteq> None \<Longrightarrow> b_blockno (bcache s c) \<noteq> n"
  shows "contents P s n = disk_blocks s n"
proof -
  have "List.find (\<lambda>b. written (P b) \<noteq> None \<and> b_blockno (bcache s b) = n) [0..<NBUF] = None"
    using assms by (auto simp: find_None_iff)
  then show ?thesis by (simp add: contents_def)
qed

lemma written_None: "written x \<noteq> None \<Longrightarrow> x \<noteq> None"
  by (cases x) auto

text \<open>A buffer with a transfer in progress is held, and no other buffer has its block.\<close>

lemma pending_held:
  assumes ok: "bc_inv (settled P s) H" and p: "pending_ok H P s" and b: "P b \<noteq> None"
  shows "b \<in># H" and "b < NBUF" and "b_dev (bcache s b) = ROOTDEV"
    and "\<And>c. c < NBUF \<Longrightarrow> b_dev (bcache s c) = ROOTDEV \<Longrightarrow> b_blockno (bcache s c) = b_blockno (bcache s b) \<Longrightarrow> c = b"
proof -
  have o: "bc_ok (seen P (contents P s) (bcache s)) (contents P s) H" using ok by (simp add: bc_inv_def)
  show h: "b \<in># H" using p b by (simp add: pending_ok_def)
  note hb = held_buf [OF o h]
  show "b < NBUF" "b_dev (bcache s b) = ROOTDEV" using hb(1,2) by simp_all
  show "c = b" if "c < NBUF" "b_dev (bcache s c) = ROOTDEV" "b_blockno (bcache s c) = b_blockno (bcache s b)" for c
    using bc_okD(5) [OF o that(1) hb(1)] that hb(2) by simp
qed

text \<open>So a buffer that is held, or has its block's device, is the only one with its block.\<close>

lemma contents_block:
  assumes ok: "bc_inv (settled P s) H" and p: "pending_ok H P s"
    and b: "b < NBUF" "b_dev (bcache s b) = ROOTDEV"
  shows "contents P s (b_blockno (bcache s b)) =
    (case written (P b) of Some d \<Rightarrow> d | None \<Rightarrow> disk_blocks s (b_blockno (bcache s b)))"
proof -
  have u: "c = b" if "c < NBUF" "written (P c) \<noteq> None" "b_blockno (bcache s c) = b_blockno (bcache s b)" for c
    using pending_held(4) [OF ok p written_None [OF that(2)] b] that(3) by simp
  show ?thesis
  proof (cases "written (P b)")
    case None
    have "contents P s (b_blockno (bcache s b)) = disk_blocks s (b_blockno (bcache s b))"
      by (rule contents_disk) (use u None in metis)
    then show ?thesis using None by simp
  next
    case (Some d)
    have "contents P s (b_blockno (bcache s b)) = d"
      by (rule contents_written [where b = b]) (use b(1) Some u in auto)
    then show ?thesis using Some by simp
  qed
qed

section \<open>Simulation by the synchronous cache\<close>

text \<open>\<open>bread\<close> up to the sleep, seen from the synchronous state.\<close>

lemma bread_begin_settled:
  assumes ok: "bc_inv (settled P s) H" and p: "pending_ok H P s" and H: "size H < NBUF"
  obtains b miss s' P' where "bread_begin s ROOTDEV n = Some (b, miss, s')" and "P' = (if miss then P(b \<mapsto> Reading) else P)"
    and "bread (settled P s) ROOTDEV n = Some (b, settled P' s')" and "bc_inv (settled P' s') (add_mset b H)"
    and "pending_ok (add_mset b H) P' s'" and "disk_blocks s' = disk_blocks s" and "b < NBUF"
    and "miss \<longleftrightarrow> \<not> (\<exists>c < NBUF. b_dev (bcache s c) = ROOTDEV \<and> b_blockno (bcache s c) = n)"
    and "miss \<Longrightarrow> P b = None" and "bdata s' b = bdata s b" and "b_blockno (bcache s' b) = n"
proof -
  let ?e = "settled P s" and ?c = "contents P s"
  have o: "bc_ok (bcache ?e) (disk_blocks ?e) H" using ok by (simp add: bc_inv_def)
  obtain xs where xs: "ring (bcache ?e) xs" "set xs = {0..<NBUF}" using bc_okD(1) [OF o] by blast
  have xs': "ring (bcache s) xs" using xs(1) by (subst (asm) ring_cong [of _ "bcache s"]) simp_all
  note sc = ring_scans [OF xs'] and sc' = ring_scans [OF xs(1)]
  show ?thesis
  proof (cases "\<exists>b < NBUF. b_dev (bcache s b) = ROOTDEV \<and> b_blockno (bcache s b) = n")
    case True
    then obtain b where b: "b < NBUF" "b_dev (bcache ?e b) = ROOTDEV" "b_blockno (bcache ?e b) = n" by auto
    note hit = bread_hit [OF o H xs b]
    have u: "c = b" if "c < NBUF" "b_dev (bcache s c) = ROOTDEV" "b_blockno (bcache s c) = n" for c
      using bc_okD(5) [OF o, of c b] that b by simp
    have f: "List.find (\<lambda>b. b_dev (bcache s b) = ROOTDEV \<and> b_blockno (bcache s b) = n) xs = Some b"
    proof (rule find_unique)
      show "b \<in> set xs" using b(1) xs(2) by simp
      show "b_dev (bcache s b) = ROOTDEV \<and> b_blockno (bcache s b) = n" using b by simp
      fix c assume "c \<in> set xs" "b_dev (bcache s c) = ROOTDEV \<and> b_blockno (bcache s c) = n"
      then show "c = b" using u xs(2) by simp
    qed
    have v: "b_valid (bcache s b)" using bc_okD(4) [OF o b(1)] b(2) by (auto simp: buf_ok_def ROOTDEV_def)
    let ?s = "s\<lparr>bcache := upd_buf b incref (bcache s)\<rparr>"
    have r: "bread_begin s ROOTDEV n = Some (b, False, ?s)" using v f sc by (simp add: bread_begin_def bget_def upd_buf_def)
    have c: "contents P ?s = ?c" by (rule contents_cong) (simp_all add: upd_buf_def)
    have st: "settled P ?s = ?e\<lparr>bcache := upd_buf b incref (bcache ?e)\<rparr>"
      by (simp add: settled_def c seen_upd)
    have "pending_ok (add_mset b H) P ?s" using p by (simp add: pending_ok_def upd_buf_def)
    moreover have "bc_inv (settled P ?s) (add_mset b H)" unfolding st using hit(2) by (simp add: bc_inv_def)
    ultimately show ?thesis
      by (intro that [of b False ?s P]) (use r hit(1) st True b in \<open>simp_all add: bdata_def upd_buf_def\<close>)
  next
    case False
    then have miss: "b_blockno (bcache ?e c) \<noteq> n" if "c < NBUF" "b_dev (bcache ?e c) = ROOTDEV" for c using that by auto
    obtain b where b: "b < NBUF" "b \<notin># H"
      "bread ?e ROOTDEV n = Some (b, ?e\<lparr>bcache := upd_buf b (refill n ?c) (bcache ?e)\<rparr>)"
      "bc_ok (upd_buf b (refill n ?c) (bcache ?e)) ?c (add_mset b H)"
      using bread_miss [OF o H xs, of n] miss by auto
    have n1: "List.find (\<lambda>b. b_dev (bcache s b) = ROOTDEV \<and> b_blockno (bcache s b) = n) xs = None"
      using False xs(2) by (auto simp: find_None_iff)
    obtain b' where f: "List.find (\<lambda>b. b_refcnt (bcache s b) = 0) (rev xs) = Some b'"
      using b(3) n1 sc' by (cases "List.find (\<lambda>b. b_refcnt (bcache s b) = 0) (rev xs)") (auto simp: bread_def bget_def)
    have bb: "b' = b" using b(3) n1 f sc' by (simp add: bread_def bget_def upd_buf_def)
    have pb: "P b = None" using p b(2) by (auto simp: pending_ok_def)
    let ?g = "\<lambda>x. x\<lparr>b_dev := ROOTDEV, b_blockno := n, b_refcnt := 1, b_valid := True, b_disk := True\<rparr>"
    let ?s = "s\<lparr>bcache := upd_buf b ?g (bcache s)\<rparr>"
    have r: "bread_begin s ROOTDEV n = Some (b, True, ?s)"
      using n1 f bb sc by (simp add: bread_begin_def bget_def upd_buf_def)
    have c: "contents (P(b \<mapsto> Reading)) ?s = ?c" by (rule contents_cong) (use pb in \<open>auto simp: upd_buf_def\<close>)
    have "seen (P(b \<mapsto> Reading)) ?c (upd_buf b ?g (bcache s)) x = upd_buf b (refill n ?c) (seen P ?c (bcache s)) x" for x
    proof (cases "x = b")
      case False
      then have "seen (P(b \<mapsto> Reading)) ?c (upd_buf b ?g (bcache s)) x = seen P ?c (bcache s) x"
        by (intro seen_cong) (simp_all add: upd_buf_def)
      then show ?thesis using False by (simp add: upd_buf_def)
    qed (simp add: pb seen_def upd_buf_def refill_def)
    then have "seen (P(b \<mapsto> Reading)) ?c (upd_buf b ?g (bcache s)) = upd_buf b (refill n ?c) (seen P ?c (bcache s))" ..
    then have st: "settled (P(b \<mapsto> Reading)) ?s = ?e\<lparr>bcache := upd_buf b (refill n ?c) (bcache ?e)\<rparr>"
      by (simp add: settled_def c)
    have "pending_ok (add_mset b H) (P(b \<mapsto> Reading)) ?s" using p b(2) by (auto simp: pending_ok_def upd_buf_def)
    moreover have "bc_inv (settled (P(b \<mapsto> Reading)) ?s) (add_mset b H)" unfolding st using b(4) by (simp add: bc_inv_def)
    ultimately show ?thesis
      by (intro that [of b True ?s "P(b \<mapsto> Reading)"]) (use r b st False pb in \<open>simp_all add: bdata_def upd_buf_def\<close>)
  qed
qed

lemma bwrite_begin_settled:
  assumes ok: "bc_inv (settled P s) H" and p: "pending_ok H P s" and b: "b \<in># H" "P b = None"
  shows "settled (P(b \<mapsto> Writing d)) (bwrite_begin b (bset b d s)) = bwrite b (bset b d (settled P s))"
    and "pending_ok H (P(b \<mapsto> Writing d)) (bwrite_begin b (bset b d s))"
proof -
  let ?s = "bwrite_begin b (bset b d s)" and ?P = "P(b \<mapsto> Writing d)" and ?n = "b_blockno (bcache s b)"
  have o: "bc_ok (bcache (settled P s)) (disk_blocks (settled P s)) H" using ok by (simp add: bc_inv_def)
  have hb: "b < NBUF" "b_dev (bcache s b) = ROOTDEV" using held_buf [OF o b(1)] by simp_all
  have u: "c = b" if "c < NBUF" "written (P c) \<noteq> None" "b_blockno (bcache s c) = ?n" for c
    using pending_held(4) [OF ok p written_None [OF that(2)] hb] that(3) by simp
  have f: "b_blockno (bcache ?s c) = b_blockno (bcache s c)" "disk_blocks ?s = disk_blocks s" for c
    by (simp_all add: bwrite_begin_def bset_def upd_buf_def)
  have "contents ?P ?s k = ((contents P s)(?n := d)) k" for k
  proof (cases "k = ?n")
    case True
    have "contents ?P ?s k = d"
      by (rule contents_written [where b = b]) (use hb u True f in \<open>auto split: if_splits\<close>)
    then show ?thesis using True by simp
  next
    case False
    have "List.find (\<lambda>c. written (?P c) \<noteq> None \<and> b_blockno (bcache ?s c) = k) [0..<NBUF] =
        List.find (\<lambda>c. written (P c) \<noteq> None \<and> b_blockno (bcache s c) = k) [0..<NBUF]" (is "?l = ?r")
      using False b(2) f by (intro find_cong) auto
    moreover have "c \<noteq> b" if "?r = Some c" for c using find_SomeD [OF that] False by auto
    ultimately show ?thesis using False f by (auto simp: contents_def split: option.split)
  qed
  then have c: "contents ?P ?s = (contents P s)(?n := d)" ..
  have "seen ?P ((contents P s)(?n := d)) (bcache ?s) x =
      upd_buf b (\<lambda>x. x\<lparr>b_data := d, b_disk := False\<rparr>) (seen P (contents P s) (bcache s)) x" for x
  proof (cases "x = b")
    case False
    have "b_blockno (bcache s x) \<noteq> ?n" if "P x = Some Reading"
      using pending_held(4) [OF ok p _ hb, of x] that False by auto
    then show ?thesis using False
      by (simp add: seen_def upd_buf_def bwrite_begin_def bset_def split: option.split transfer.split)
  qed (use b(2) in \<open>simp add: seen_def upd_buf_def bwrite_begin_def bset_def\<close>)
  then have sn: "seen ?P ((contents P s)(?n := d)) (bcache ?s) =
      upd_buf b (\<lambda>x. x\<lparr>b_data := d, b_disk := False\<rparr>) (seen P (contents P s) (bcache s))"
    by (rule ext)
  show "settled ?P ?s = bwrite b (bset b d (settled P s))"
    unfolding settled_def c sn by (simp add: bwrite_def bset_def disk_rw_def bwrite_begin_def upd_buf_def)
  show "pending_ok H ?P ?s" using p b(1) by (auto simp: pending_ok_def bwrite_begin_def bset_def upd_buf_def)
qed

lemma served_settled:
  assumes ok: "bc_inv (settled P s) H" and p: "pending_ok H P s" and b: "P b = Some x"
  shows "settled (P(b := None)) (disk_rw b (x \<noteq> Reading) s) = settled P s"
    and "pending_ok H (P(b := None)) (disk_rw b (x \<noteq> Reading) s)"
proof -
  let ?s = "disk_rw b (x \<noteq> Reading) s" and ?P = "P(b := None)" and ?n = "b_blockno (bcache s b)"
  note h = pending_held [OF ok p, of b]
  have pb: "P b \<noteq> None" using b by simp
  note hb = h(2,3) [OF pb]
  have u: "c = b" if "c < NBUF" "written (P c) \<noteq> None" "b_blockno (bcache s c) = ?n" for c
    using pending_held(4) [OF ok p written_None [OF that(2)] hb] that(3) by simp
  have f: "b_blockno (bcache ?s c) = b_blockno (bcache s c)" for c by (simp add: disk_rw_def upd_buf_def)
  have dk: "disk_blocks ?s = (case x of Reading \<Rightarrow> disk_blocks s | Writing d \<Rightarrow> (disk_blocks s)(?n := d))"
    using p b by (auto simp: pending_ok_def disk_rw_def split: transfer.split)
  have "contents ?P ?s k = contents P s k" for k
  proof (cases "k = ?n")
    case True
    have "contents ?P ?s k = disk_blocks ?s k"
      by (rule contents_disk) (use u True f in \<open>auto split: if_splits\<close>)
    moreover have "disk_blocks ?s k = contents P s k"
      using contents_block [OF ok p hb] b True dk by (simp split: transfer.splits)
    ultimately show ?thesis by simp
  next
    case False
    have "List.find (\<lambda>c. written (?P c) \<noteq> None \<and> b_blockno (bcache ?s c) = k) [0..<NBUF] =
        List.find (\<lambda>c. written (P c) \<noteq> None \<and> b_blockno (bcache s c) = k) [0..<NBUF]" (is "?l = ?r")
      using False f by (intro find_cong) auto
    moreover have "c \<noteq> b" if "?r = Some c" for c using find_SomeD [OF that] False by auto
    ultimately show ?thesis using False dk by (auto simp: contents_def split: option.split transfer.split)
  qed
  then have c: "contents ?P ?s = contents P s" ..
  have "seen ?P (contents P s) (bcache ?s) y = seen P (contents P s) (bcache s) y" for y
  proof (cases "y = b")
    case True
    then show ?thesis using b contents_block [OF ok p hb]
      by (cases x) (simp_all add: seen_def upd_buf_def disk_rw_def)
  next
    case False
    then have "bcache ?s y = bcache s y" "?P y = P y" by (simp_all add: disk_rw_def upd_buf_def)
    then show ?thesis by (simp only: seen_def)
  qed
  then have sn: "seen ?P (contents P s) (bcache ?s) = seen P (contents P s) (bcache s)" ..
  show "settled ?P ?s = settled P s" unfolding settled_def c sn by (simp add: disk_rw_def)
  show "pending_ok H ?P ?s" using p by (auto simp: pending_ok_def disk_rw_def upd_buf_def)
qed

lemma brelse_settled:
  fixes s :: "'a blk_st_scheme"
  assumes p: "pending_ok H P s" and b: "P b \<noteq> None \<Longrightarrow> 1 < count H b"
  shows "settled P (brelse b s) = brelse b (settled P s)" and "pending_ok (H - {#b#}) P (brelse b s)"
proof -
  have fl: "b_blockno (bcache (brelse b s) c) = b_blockno (bcache s c)" "b_data (bcache (brelse b s) c) = b_data (bcache s c)"
    "disk_blocks (brelse b s) = disk_blocks s" for c
    by (simp_all add: brelse_def upd_buf_def Let_def)
  have c: "contents P (brelse b s) = contents P s" by (rule contents_cong) (simp_all add: fl)
  let ?f = "\<lambda>x :: buf. x\<lparr>b_refcnt := b_refcnt x - 1\<rparr>"
  define B where "B bc = (if b_refcnt (bc b) - 1 = 0 then brelse_unlink b (upd_buf b ?f bc) else upd_buf b ?f bc)" for bc
  have br: "brelse b t = t\<lparr>bcache := B (bcache t)\<rparr>" for t :: "'a blk_st_scheme"
  proof -
    have "b_refcnt (upd_buf b ?f (bcache t) b) = b_refcnt (bcache t b) - 1" by (simp add: upd_buf_def)
    then show ?thesis unfolding brelse_def B_def Let_def by (simp only:)
  qed
  have "seen P D (upd_buf b ?f bc) = upd_buf b ?f (seen P D bc)" for D bc
    by (rule seen_upd(3) [where h = "\<lambda>r. r - 1"]) simp
  then have sB: "seen P D (B bc) = B (seen P D bc)" for D bc
    unfolding B_def by (cases "b_refcnt (bc b) - 1 = 0") (simp_all only: seen_fields seen_unlink if_True if_False simp_thms)
  show "settled P (brelse b s) = brelse b (settled P s)"
    unfolding settled_def c unfolding br by (simp add: sB)
  have "x \<in># H - {#b#}" if "P x \<noteq> None" for x
  proof (cases "x = b")
    case True
    then show ?thesis using b that by (simp add: in_diff_count)
  next
    case False
    then show ?thesis using p that by (auto simp: pending_ok_def in_diff_count)
  qed
  then show "pending_ok (H - {#b#}) P (brelse b s)" using p by (auto simp: pending_ok_def fl)
qed

definition async_inv :: "blk_st \<Rightarrow> async_conf \<Rightarrow> bool" where
  "async_inv s0 c \<longleftrightarrow> (case c of (H, P, s) \<Rightarrow> cache_run s0 H (settled P s) \<and> pending_ok H P s)"

lemma async_invD:
  assumes "async_inv s0 (H, P, s)" and "cache_boot s0"
  shows "bc_inv (settled P s) H" and "pending_ok H P s"
  using assms cache_run_inv by (auto simp: async_inv_def)

text \<open>Every step is a step of the synchronous cache, or none; references that are kept stay with their block.\<close>

lemma async_step_settled:
  assumes st: "async_step K (H, P, s) (H', P', s')" and inv: "async_inv s0 (H, P, s)" and boot: "cache_boot s0"
  shows "async_inv s0 (H', P', s')"
    and "b \<in># K \<Longrightarrow> b \<in># H \<Longrightarrow> b \<in># H' \<and> b_blockno (bcache s' b) = b_blockno (bcache s b)"
proof -
  note ok = async_invD [OF inv boot]
  have run: "cache_run s0 H (settled P s)" using inv by (simp add: async_inv_def)
  have "async_inv s0 (H', P', s') \<and> (b \<in># K \<longrightarrow> b \<in># H \<longrightarrow> b \<in># H' \<and> b_blockno (bcache s' b) = b_blockno (bcache s b))"
    using st
  proof cases
    case (rd n c miss)
    obtain c' miss' t Q where r: "bread_begin s ROOTDEV n = Some (c', miss', t)" "Q = (if miss' then P(c' \<mapsto> Reading) else P)"
      "bread (settled P s) ROOTDEV n = Some (c', settled Q t)" "pending_ok (add_mset c' H) Q t"
      by (rule bread_begin_settled [OF ok rd(3)]) (rule that; assumption)
    have e: "c' = c" "Q = P'" "t = s'" using r(1,2) rd by simp_all
    have "cache_run s0 H' (settled P' s')" using cache_run.rd [OF run rd(3) r(3)] rd(1) e by simp
    moreover obtain d u where "bread (settled P s) ROOTDEV n = Some (d, u)"
      "\<forall>h \<in># H. b_blockno (bcache u h) = b_blockno (bcache (settled P s) h)"
      using bc.rd_ok [OF ok(1) rd(3), of n] by blast
    ultimately show ?thesis using r(3,4) e rd(1) by (auto simp: async_inv_def)
  next
    case (wr c d)
    note w = bwrite_begin_settled [OF ok wr(4,5), of d]
    have "cache_run s0 H (settled P' s')" unfolding wr(2,3) w(1) by (rule cache_run.wr [OF run wr(4,6)])
    then show ?thesis using w(2) wr by (simp add: async_inv_def bwrite_begin_def bset_def upd_buf_def)
  next
    case (served c x)
    note v = served_settled [OF ok served(4)]
    show ?thesis using v run served by (simp add: async_inv_def) (simp add: disk_rw_def upd_buf_def)
  next
    case (rel c)
    have l: "P c \<noteq> None \<Longrightarrow> 1 < count H c" by (rule rel(6))
    have v: "settled P (brelse c s) = brelse c (settled P s)" "pending_ok (H - {#c#}) P (brelse c s)"
      by (rule brelse_settled [OF ok(2)], erule l)+
    have "cache_run s0 (H - {#c#}) (settled P (brelse c s))" unfolding v(1) by (rule cache_run.rel [OF run rel(4)])
    moreover have "b \<in># H - {#c#}" if "b \<in># K" "b \<in># H"
    proof (cases "b = c")
      case True
      have "0 < count K b" using that(1) by simp
      then have "0 < count K c" "count K c < count H c" using rel(5) True by simp_all
      then have "1 < count H b" unfolding True by linarith
      then show ?thesis using True by (simp add: in_diff_count)
    next
      case False
      then show ?thesis using that(2) by (simp add: in_diff_count)
    qed
    ultimately show ?thesis using v(2) rel by (simp add: async_inv_def brelse_def upd_buf_def Let_def)
  qed
  then show "async_inv s0 (H', P', s')"
    "b \<in># K \<Longrightarrow> b \<in># H \<Longrightarrow> b \<in># H' \<and> b_blockno (bcache s' b) = b_blockno (bcache s b)" by blast+
qed

lemma async_steps_settled:
  assumes "(async_step K)\<^sup>*\<^sup>* (H, P, s) (H', P', s')" and "async_inv s0 (H, P, s)" and "cache_boot s0"
  shows "async_inv s0 (H', P', s') \<and> (b \<in># K \<longrightarrow> b \<in># H \<longrightarrow> b \<in># H' \<and> b_blockno (bcache s' b) = b_blockno (bcache s b))"
  using assms(1)
proof (induction "(H', P', s')" arbitrary: H' P' s' rule: rtranclp_induct)
  case base
  then show ?case using assms(2) by simp
next
  case (step c)
  obtain H1 P1 s1 where c: "c = (H1, P1, s1)" by (cases c)
  then show ?case using step(3) [OF c] async_step_settled(1) [OF step(2) [unfolded c] _ assms(3)]
      async_step_settled(2) [OF step(2) [unfolded c] _ assms(3), of b] by auto
qed

lemma async_run_settled:
  assumes "async_run s0 H P s" and "cache_boot s0"
  shows "async_inv s0 (H, P, s)"
proof -
  have "async_inv s0 ({#}, Map.empty, binit s0)" by (simp add: async_inv_def cache_run.boot pending_ok_def)
  then show ?thesis using async_steps_settled assms unfolding async_run_def by blast
qed

text \<open>A held buffer shows the block on disk unless a transfer is in progress.\<close>

lemma held_buffer:
  assumes inv: "async_inv s0 (H, P, s)" and boot: "cache_boot s0" and b: "b \<in># H"
  shows "P b = None \<Longrightarrow> bdata s b = disk_blocks s (b_blockno (bcache s b))"
    and "P b = Some (Writing d) \<Longrightarrow> bdata s b = d"
proof -
  note ok = async_invD [OF inv boot]
  have o: "bc_ok (bcache (settled P s)) (disk_blocks (settled P s)) H" using ok(1) by (simp add: bc_inv_def)
  note h = held_buf [OF o b]
  have hb: "b < NBUF" "b_dev (bcache s b) = ROOTDEV" using h(1,2) by simp_all
  show "bdata s b = disk_blocks s (b_blockno (bcache s b))" if "P b = None"
    using h(4) contents_block [OF ok hb] that by (simp add: seen_none bdata_def)
  show "bdata s b = d" if "P b = Some (Writing d)" using ok(2) that by (simp add: pending_ok_def bdata_def)
qed

section \<open>Properties\<close>

text \<open>
  Property C10 (safety). In every state of the cache reached from boot, with transfers in progress that the disk
  finishes in any order, \<open>bread\<close> with fewer than \<open>NBUF\<close> references held does not panic, writes nothing to the disk and gives
  the buffer that every other holder of the block has. If no buffer has the block it starts a transfer and sleeps; whatever
  other processes do meanwhile, when the transfer has been done the buffer shows the block as it is then on
  disk, or as it is being written. If a buffer has the block \<open>bread\<close> returns at once, with the
  block as it is on disk, or as it is being written - except while another process is still reading
  it in: then it returns what the buffer held before, and the block only appears in it later. Each
  routine is one step up to the point where it sleeps, and no process starts a transfer on a buffer that has one in progress.
\<close>

theorem bread_returns_block:
  assumes "async_run s0 H P s" and "cache_boot s0" and "size H < NBUF"
  shows "\<exists>b miss s'. bread_begin s ROOTDEV n = Some (b, miss, s') \<and>
    bread s ROOTDEV n = Some (b, if miss then disk_rw b False s' else s') \<and>
    disk_blocks s' = disk_blocks s \<and> (\<forall>h \<in># H. b_blockno (bcache s h) = n \<longrightarrow> h = b) \<and>
    (miss \<longleftrightarrow> \<not> (\<exists>c < NBUF. b_dev (bcache s c) = ROOTDEV \<and> b_blockno (bcache s c) = n)) \<and>
    (\<not> miss \<longrightarrow> bdata s' b =
       (case P b of None \<Rightarrow> disk_blocks s n | Some (Writing d) \<Rightarrow> d | Some Reading \<Rightarrow> bdata s b)) \<and>
    (\<forall>H' Q t. (async_step {#b#})\<^sup>*\<^sup>* (add_mset b H, if miss then P(b \<mapsto> Reading) else P, s') (H', Q, t) \<longrightarrow>
       b_blockno (bcache t b) = n \<and> (Q b = None \<longrightarrow> bdata t b = disk_blocks t n) \<and>
       (\<forall>d. Q b = Some (Writing d) \<longrightarrow> bdata t b = d))"
proof -
  have inv: "async_inv s0 (H, P, s)" by (rule async_run_settled [OF assms(1,2)])
  note ok = async_invD [OF inv assms(2)]
  obtain b miss s' P' where r: "bread_begin s ROOTDEV n = Some (b, miss, s')" "P' = (if miss then P(b \<mapsto> Reading) else P)"
    "bread (settled P s) ROOTDEV n = Some (b, settled P' s')" "bc_inv (settled P' s') (add_mset b H)"
    "pending_ok (add_mset b H) P' s'" "disk_blocks s' = disk_blocks s" "b < NBUF"
    "miss \<longleftrightarrow> \<not> (\<exists>c < NBUF. b_dev (bcache s c) = ROOTDEV \<and> b_blockno (bcache s c) = n)"
    "bdata s' b = bdata s b" "b_blockno (bcache s' b) = n"
    by (rule bread_begin_settled [OF ok assms(3), of n]) (rule that; assumption)
  have st: "async_step {#} (H, P, s) (add_mset b H, P', s')" unfolding r(2) by (rule async_step.rd [OF assms(3) r(1)])
  have inv': "async_inv s0 (add_mset b H, P', s')" by (rule async_step_settled(1) [OF st inv assms(2)])
  have "h = b" if "h \<in># H" "b_blockno (bcache s h) = n" for h
  proof -
    have o: "bc_ok (bcache (settled P s)) (disk_blocks (settled P s)) H" using ok(1) by (simp add: bc_inv_def)
    have o': "bc_ok (bcache (settled P' s')) (disk_blocks (settled P' s')) (add_mset b H)" using r(4) by (simp add: bc_inv_def)
    obtain d u where "bread (settled P s) ROOTDEV n = Some (d, u)"
      "\<forall>h \<in># H. b_blockno (bcache u h) = b_blockno (bcache (settled P s) h)"
      using bc.rd_ok [OF ok(1) assms(3), of n] by blast
    then have "b_blockno (bcache (settled P' s') h) = b_blockno (bcache (settled P s) h)" using r(3) that(1) by simp
    then have "b_blockno (bcache s' h) = n" using that(2) by simp
    then show "h = b" using bc_okD(5) [OF o', of h b] held_buf(1,2) [OF o'] that(1) r(10) by simp
  qed
  moreover have "bread s ROOTDEV n = Some (b, if miss then disk_rw b False s' else s')" by (simp add: bread_split r(1))
  moreover have "bdata s' b = (case P b of None \<Rightarrow> disk_blocks s n | Some (Writing d) \<Rightarrow> d | Some Reading \<Rightarrow> bdata s b)" if "\<not> miss"
    using held_buffer [OF inv' assms(2), of b] r(2,6,9,10) that by (simp split: option.split transfer.split)
  moreover have "b_blockno (bcache t b) = n \<and> (Q b = None \<longrightarrow> bdata t b = disk_blocks t n) \<and> (\<forall>d. Q b = Some (Writing d) \<longrightarrow> bdata t b = d)"
    if "(async_step {#b#})\<^sup>*\<^sup>* (add_mset b H, P', s') (H', Q, t)" for H' Q t
  proof -
    have i: "async_inv s0 (H', Q, t)" "b \<in># H'" "b_blockno (bcache t b) = n"
      using async_steps_settled [OF that inv' assms(2), of b] r(10) by simp_all
    show ?thesis using held_buffer [OF i(1) assms(2) i(2)] i(3) by simp
  qed
  ultimately show ?thesis using r(1,2,6,8) by blast
qed

lemma bread_begin_data: "bread_begin s dev n = Some (b, miss, s') \<Longrightarrow> bdata s' b = bdata s b"
  by (auto simp: bread_begin_def bget_def bdata_def upd_buf_def split: Option.bind_splits option.splits if_splits)

lemma bread_begin_block:
  assumes "async_run s0 H P s" and "cache_boot s0" and "size H < NBUF" and "bread_begin s ROOTDEV n = Some (b, miss, s')"
  shows "b_blockno (bcache s' b) = n"
proof -
  note ok = async_invD [OF async_run_settled [OF assms(1,2)] assms(2)]
  obtain c m t where "bread_begin s ROOTDEV n = Some (c, m, t)" "b_blockno (bcache t c) = n"
    by (rule bread_begin_settled [OF ok assms(3), of n]) (rule that; assumption)
  then show ?thesis using assms(4) by simp
qed

lemma binit_data: "b_data (bcache (binit s) b) = b_data (bcache s b)"
proof -
  have "b_data (fold binit_step xs bc x) = b_data (bc x)" for xs bc x
    by (induction xs arbitrary: bc) (simp_all add: binit_step_def Let_def)
  then show ?thesis by (simp add: binit_def)
qed

text \<open>Two processes read block 7 right after boot: the first starts the transfer, the second gets the empty buffer.\<close>

theorem bread_returns_block_witness:
  "\<exists>b s1 s2. bread_begin (binit boot_blk) ROOTDEV 7 = Some (b, True, s1) \<and>
     bread_begin s1 ROOTDEV 7 = Some (b, False, s2) \<and> bdata s2 b = [] \<and> bdata (disk_rw b False s2) b = replicate BSIZE 7"
proof -
  have dk: "disk_blocks (binit boot_blk) n = replicate BSIZE (ucast n)" for n by (simp add: binit_def boot_blk_def)
  have dev: "b_dev (bcache (binit boot_blk) c) = 0" for c
  proof -
    have "b_dev (fold binit_step xs bc x) = b_dev (bc x)" for xs bc x by (induction xs arbitrary: bc) auto
    then show ?thesis by (simp add: binit_def boot_blk_def)
  qed
  have run: "async_run boot_blk {#} Map.empty (binit boot_blk)" by (simp add: async_run_def)
  have sz: "size {#} < NBUF" "size {#b#} < NBUF" for b :: nat by (simp_all add: NBUF_def)
  obtain b miss s1 where 1: "bread_begin (binit boot_blk) ROOTDEV 7 = Some (b, miss, s1)"
    "disk_blocks s1 = disk_blocks (binit boot_blk)"
    "miss \<longleftrightarrow> \<not> (\<exists>c < NBUF. b_dev (bcache (binit boot_blk) c) = ROOTDEV \<and> b_blockno (bcache (binit boot_blk) c) = 7)"
    using bread_returns_block [OF run cache_boot_blk sz(1), of 7] by (elim exE conjE) (rule that)
  have m: "miss" using 1(3) by (simp add: dev ROOTDEV_def)
  have d1: "bdata s1 b = []" using bread_begin_data [OF 1(1)] binit_data [of boot_blk b] by (simp add: bdata_def boot_blk_def)
  have "async_step {#} ({#}, Map.empty, binit boot_blk) (add_mset b {#}, if miss then Map.empty(b \<mapsto> Reading) else Map.empty, s1)"
    by (rule async_step.rd [OF sz(1) 1(1)])
  then have run1: "async_run boot_blk {#b#} [b \<mapsto> Reading] s1" using m unfolding async_run_def by auto
  note inv1 = async_invD [OF async_run_settled [OF run1 cache_boot_blk] cache_boot_blk]
  have bb: "b < NBUF" "b_dev (bcache s1 b) = ROOTDEV" using pending_held(2,3) [OF inv1, of b] by simp_all
  have n1: "b_blockno (bcache s1 b) = 7" by (rule bread_begin_block [OF run cache_boot_blk sz(1) 1(1)])
  obtain b' miss' s2 where 2: "bread_begin s1 ROOTDEV 7 = Some (b', miss', s2)" "disk_blocks s2 = disk_blocks s1"
    "\<forall>h \<in># {#b#}. b_blockno (bcache s1 h) = 7 \<longrightarrow> h = b'"
    "miss' \<longleftrightarrow> \<not> (\<exists>c < NBUF. b_dev (bcache s1 c) = ROOTDEV \<and> b_blockno (bcache s1 c) = 7)"
    using bread_returns_block [OF run1 cache_boot_blk sz(2), of 7] by (elim exE conjE) (rule that)
  have e: "b' = b" "\<not> miss'" using 2(3,4) n1 bb by auto
  have "bdata s2 b = []" using bread_begin_data [OF 2(1)] e d1 by simp
  moreover have "bdata (disk_rw b False s2) b = replicate BSIZE 7"
    using bread_begin_block [OF run1 cache_boot_blk sz(2) 2(1)] e 2(2) 1(2) dk by (simp add: disk_rw_def bdata_def upd_buf_def)
  ultimately show ?thesis using 1(1) 2(1) m e by auto
qed

end
