(* ===== verification/Call_Frame.thy ===== *)
theory Call_Frame
  imports Trap
begin

text \<open>
  System calls that write no memory: their handlers change the process table, the file table, the disk and the
  caches only, so the trapframe that holds the registers of the user program is as it was. Then the calling
  convention of system calls, from user registers to user registers.
\<close>

section \<open>Calls that write no memory\<close>

text \<open>What such a call may change of the process table: descriptors and the current directory.\<close>

definition mem_view :: "'a kst_scheme \<Rightarrow> mem \<times> nat option \<times> (nat \<Rightarrow> u64 \<times> u64 \<times> bool)" where
  "mem_view s = (pmem s, myproc s, \<lambda>p. (trapframe (procs s p), pagetable (procs s p), killed (procs s p)))"

lemma mem_viewD:
  assumes "mem_view s' = mem_view s"
  shows "pmem s' = pmem s" and "myproc s' = myproc s" and "trapframe (procs s' p) = trapframe (procs s p)"
    and "pagetable (procs s' p) = pagetable (procs s p)" and "killed (procs s' p) = killed (procs s p)"
  using assms by (simp_all add: mem_view_def fun_eq_iff)

lemma mem_view_off:
  fixes s :: "'a kst_scheme"
  assumes "off_fs s' = off_fs s"
  shows "mem_view s' = mem_view s"
proof -
  have "pmem (off_fs s') = pmem (off_fs s)" by (simp add: assms)
  then have "pmem s' = pmem s" by (simp add: off_fs_def)
  then show ?thesis using off_disk_eqD(1,6) [OF off_fs_disk [OF assms]] by (simp add: mem_view_def)
qed

lemma mem_view_upd [simp]:
  "mem_view (upd_file f g s) = mem_view s" "mem_view (set_ofile p fd v s) = mem_view s" "mem_view (filedup f s) = mem_view s"
  "mem_view (upd_proc p (\<lambda>x. x\<lparr>cwd := i, cwd_path := h x\<rparr>) s) = mem_view s"
  "mem_view (upd_inode ip k s) = mem_view s" "mem_view (s\<lparr>ftable := ft\<rparr>) = mem_view s"
  by (auto simp: mem_view_def upd_file_def set_ofile_def upd_proc_def filedup_def upd_inode_def myproc_def fun_eq_iff)

lemma mem_view_fdalloc: "fdalloc f s = Some (r, s') \<Longrightarrow> mem_view s' = mem_view s \<and> ftable s' = ftable s"
  by (auto simp: fdalloc_def elim!: bind_eq_SomeE split: option.splits)

section \<open>The routines of the handlers\<close>

lemma offs_clear_dirent [fs_frame]: "clear_dirent dp off s = Some s' \<Longrightarrow> off_fs s' = off_fs s"
  by (auto simp: clear_dirent_def elim!: bind_eq_SomeE split: if_splits dest!: fs_frame)

lemma offs_put_all [fs_frame]: "put_all ips s = Some s' \<Longrightarrow> off_fs s' = off_fs s"
  by (induction ips arbitrary: s) (auto elim!: bind_eq_SomeE dest!: fs_frame)

lemma offs_fail_put [fs_frame]: "fail_put ips s = Some (r, s') \<Longrightarrow> off_fs s' = off_fs s"
  by (auto simp: fail_put_def elim!: bind_eq_SomeE dest!: fs_frame)

lemma offs_rename_link [fs_frame]: "rename_link dp off ip ndp name s = Some (r, s') \<Longrightarrow> off_fs s' = off_fs s"
  by (auto simp: rename_link_def elim!: bind_eq_SomeE split: if_splits dest!: fs_frame simp del: put_all.simps)

lemma offs_rename_target [fs_frame]: "rename_target dp off ip ndp name s = Some (r, s') \<Longrightarrow> off_fs s' = off_fs s"
  by (auto simp: rename_target_def elim!: bind_eq_SomeE split: if_splits option.splits dest!: fs_frame)

lemma offs_open_check [fs_frame]: "open_check ip flags s = Some (r, s') \<Longrightarrow> off_fs s' = off_fs s"
  by (auto simp: open_check_def elim!: bind_eq_SomeE split: if_splits dest!: fs_frame)

lemma offs_open_creat [fs_frame]: "open_creat path flags s = Some (r, s') \<Longrightarrow> off_fs s' = off_fs s"
  by (auto simp: open_creat_def Let_def elim!: bind_eq_SomeE split: if_splits option.splits dest!: fs_frame)

lemma offs_open_existing [fs_frame]: "open_existing path flags s = Some (r, s') \<Longrightarrow> off_fs s' = off_fs s"
  by (auto simp: open_existing_def elim!: bind_eq_SomeE split: option.splits dest!: fs_frame)

lemma offs_ftruncate_fill [fs_frame]: "ftruncate_fill ip len s = Some (b, s') \<Longrightarrow> off_fs s' = off_fs s"
proof -
  have *: "\<And>x. ftruncate_fill ip len s = Some x \<Longrightarrow> off_fs (snd x) = off_fs s"
  proof (rule ftruncate_fill.raw_induct [of "\<lambda>ip len s x. off_fs (snd x) = off_fs s"])
    fix f ip len s x
    assume hyp: "\<And>ip len s x. f ip len s = Some x \<Longrightarrow> off_fs (snd x) = off_fs s"
      and "(if sint (i_size (icache s ip)) < len
      then let n = min (len - sint (i_size (icache s ip))) 128 in
        do { (r, s) \<leftarrow> writei s ip (i_size (icache s ip)) (replicate (nat n) 0);
             if r \<noteq> n then Some (False, s) else f ip len s }
      else Some (True, s)) = Some x"
    then show "off_fs (snd x) = off_fs s"
      by (auto simp: Let_def elim!: bind_eq_SomeE split: if_splits dest!: fs_frame hyp)
  qed
  then show "ftruncate_fill ip len s = Some (b, s') \<Longrightarrow> off_fs s' = off_fs s" by fastforce
qed

section \<open>The handlers\<close>

lemma offs_mkdir: "sys_mkdir s = Some (r, s') \<Longrightarrow> off_fs s' = off_fs s"
  by (auto simp: sys_mkdir_def Let_def elim!: bind_eq_SomeE split: if_splits option.splits dest!: fs_frame)

lemma offs_unlink: "sys_unlink s = Some (r, s') \<Longrightarrow> off_fs s' = off_fs s"
  by (auto simp: sys_unlink_def Let_def elim!: bind_eq_SomeE split: if_splits option.splits dest!: fs_frame)

lemma offs_rename: "sys_rename s = Some (r, s') \<Longrightarrow> off_fs s' = off_fs s"
  by (auto simp: sys_rename_def elim!: bind_eq_SomeE split: if_splits option.splits dest!: fs_frame simp del: put_all.simps)

lemma kept_getpid: "sys_getpid s = Some (r, s') \<Longrightarrow> mem_view s' = mem_view s"
  by (auto simp: sys_getpid_def elim!: bind_eq_SomeE)

lemma kept_dup: "sys_dup s = Some (r, s') \<Longrightarrow> mem_view s' = mem_view s"
  by (auto simp: sys_dup_def with_fd_def elim!: bind_eq_SomeE split: option.splits dest!: mem_view_fdalloc)

lemma kept_fcntl: "sys_fcntl s = Some (r, s') \<Longrightarrow> mem_view s' = mem_view s"
  by (auto simp: sys_fcntl_def with_fd_def elim!: bind_eq_SomeE split: option.splits if_splits)

lemma kept_lseek: "sys_lseek s = Some (r, s') \<Longrightarrow> mem_view s' = mem_view s"
  by (auto simp: sys_lseek_def with_fd_def Let_def elim!: bind_eq_SomeE split: option.splits if_splits)

lemma kept_chdir: "sys_chdir s = Some (r, s') \<Longrightarrow> mem_view s' = mem_view s"
  by (auto simp: sys_chdir_def Let_def elim!: bind_eq_SomeE split: if_splits option.splits prod.splits
    dest!: fs_frame [THEN mem_view_off])

lemma kept_ftruncate: "sys_ftruncate s = Some (r, s') \<Longrightarrow> mem_view s' = mem_view s"
  by (auto simp: sys_ftruncate_def with_fd_def Let_def elim!: bind_eq_SomeE split: if_splits option.splits
    dest!: fs_frame [THEN mem_view_off])

text \<open>Giving back a file object that has no type, as the error path of \<open>sys_open\<close> does.\<close>

definition untyped :: "'a kst_scheme \<Rightarrow> bool" where
  "untyped s \<longleftrightarrow> (\<forall>f < NFILE. f_ref (ftable s f) = 0 \<longrightarrow> f_type (ftable s f) = 0)"

lemma kept_fileclose_untyped:
  assumes "fileclose f s = Some s'" and "f_type (ftable s f) = 0"
  shows "mem_view s' = mem_view s"
  using assms by (auto simp: fileclose_def Let_def FD_INODE_def FD_PIPE_def FD_CONSOLE_def upd_file_def [of f _ s]
    split: if_splits elim!: bind_eq_SomeE)

lemma untyped_off:
  assumes "off_fs s' = off_fs s"
  shows "untyped s' = untyped s"
  using ftable_off [OF off_fs_disk [OF assms]] by (simp add: untyped_def)

lemma filealloc_untyped:
  assumes "filealloc s = (r, s')" and "untyped s"
  shows "mem_view s' = mem_view s" and "r = Some f \<Longrightarrow> f_type (ftable s' f) = 0"
proof -
  show "mem_view s' = mem_view s" using assms(1) by (auto simp: filealloc_def split: option.splits)
  show "f_type (ftable s' f) = 0" if "r = Some f"
  proof -
    have f: "List.find (\<lambda>f. f_ref (ftable s f) = 0) [0..<NFILE] = Some f" and s': "s' = upd_file f (\<lambda>x. x\<lparr>f_ref := 1\<rparr>) s"
      using assms(1) that by (auto simp: filealloc_def split: option.splits)
    from find_SomeD [OF f] have "f_type (ftable s f) = 0" using assms(2) by (simp add: untyped_def)
    then show ?thesis by (simp add: s' upd_file_def)
  qed
qed

lemma kept_open_install:
  assumes o: "open_install ip flags s = Some (r, s')" and u: "untyped s"
  shows "mem_view s' = mem_view s"
proof -
  obtain t where t: "off_fs t = off_fs s" and e: "(let (r, s) = filealloc t in (case r of
             None \<Rightarrow> do { s \<leftarrow> iunlockput ip s; Some (-1, s) }
           | Some f \<Rightarrow>
               do { (r, s) \<leftarrow> fdalloc f s;
                    (case r of
                       None \<Rightarrow> do { s \<leftarrow> fileclose f s; s \<leftarrow> iunlock ip s; Some (-1, s) }
                     | Some fd \<Rightarrow>
                         do { let s = upd_file f (\<lambda>x. x\<lparr>f_type := FD_INODE, f_ip := Some ip, f_off := 0,
                                f_readable := (flags AND O_WRONLY = 0),
                                f_writable := (flags AND O_WRONLY \<noteq> 0 \<or> flags AND O_RDWR \<noteq> 0)\<rparr>) s;
                              let s = (if flags AND O_APPEND \<noteq> 0 \<and> i_type (icache s ip) = T_FILE
                                       then upd_file f (\<lambda>x. x\<lparr>f_off := i_size (icache s ip)\<rparr>) s else s);
                              s \<leftarrow> iunlock ip s;
                              Some (int fd, s) }) })) = Some (r, s')"
    using o unfolding open_install_def by (elim bind_eq_SomeE) (auto split: if_splits dest!: fs_frame)
  obtain x t1 where x: "filealloc t = (x, t1)" by (cases "filealloc t")
  have ut: "untyped t" using u untyped_off [OF t] by simp
  note fa = filealloc_untyped [OF x ut]
  have m: "mem_view t1 = mem_view s" using fa(1) mem_view_off [OF t] by simp
  show ?thesis
  proof (cases x)
    case None
    then show ?thesis using e x m by (auto elim!: bind_eq_SomeE dest!: fs_frame [THEN mem_view_off])
  next
    case (Some f)
    obtain y t2 where y: "fdalloc f t1 = Some (y, t2)" using e x Some by (auto elim!: bind_eq_SomeE)
    note k = mem_view_fdalloc [OF y]
    show ?thesis
    proof (cases y)
      case None
      then obtain t3 where t3: "fileclose f t2 = Some t3" "iunlock ip t3 = Some s'"
        using e x Some y by (auto elim!: bind_eq_SomeE)
      have "mem_view t3 = mem_view t2" by (rule kept_fileclose_untyped [OF t3(1)]) (use k fa(2) [OF Some] in simp)
      then show ?thesis using offs_iunlock [OF t3(2), THEN mem_view_off] k m by simp
    next
      case (Some fd)
      then show ?thesis using e x \<open>x = Some f\<close> y k m
        by (auto simp: Let_def elim!: bind_eq_SomeE split: if_splits dest!: fs_frame [THEN mem_view_off])
    qed
  qed
qed

lemma kept_open:
  assumes "sys_open s = Some (r, s')" and "untyped s"
  shows "mem_view s' = mem_view s"
proof -
  consider "off_fs s' = off_fs s" | t ip flags where "off_fs t = off_fs s" "open_install ip flags t = Some (r, s')"
    using assms(1) by (auto simp: sys_open_def Let_def elim!: bind_eq_SomeE split: if_splits option.splits dest!: fs_frame)
  then show ?thesis
  proof cases
    case 1
    then show ?thesis by (rule mem_view_off)
  next
    case 2
    then show ?thesis using kept_open_install [OF 2(2)] assms(2) untyped_off [OF 2(1)] mem_view_off [OF 2(1)] by simp
  qed
qed

text \<open>The calls that write no memory, by number.\<close>

definition quiet_calls :: "int set" where
  "quiet_calls = {SYS_getpid, SYS_open, SYS_mkdir, SYS_chdir, SYS_dup, SYS_unlink, SYS_lseek, SYS_ftruncate, SYS_rename, SYS_fcntl}"

lemma lift_resultD: "lift_result r = Some (x, s) \<Longrightarrow> \<exists>v. x = Result v \<and> r = Some (v, s)"
  by (auto simp: lift_result_def elim!: bind_eq_SomeE)

lemma quiet_call:
  assumes "num \<in> quiet_calls" and "syscalls num = Some h" and "h s = Some (x, s')" and "untyped s"
  shows "mem_view s' = mem_view s"
  using assms unfolding quiet_calls_def
  by (auto simp: syscalls_def kdefs dest!: lift_resultD
    intro: kept_getpid kept_open offs_mkdir [THEN mem_view_off] kept_chdir kept_dup offs_unlink [THEN mem_view_off]
      kept_lseek kept_ftruncate offs_rename [THEN mem_view_off] kept_fcntl)

section \<open>Properties\<close>

text \<open>
  Property C6 (functional). The calling convention of a system call that returns, from user registers to user registers: the
  handler that \<open>a7\<close> selects finds \<open>a0\<close> to \<open>a5\<close> as its arguments; when it returns \<open>v\<close> (\<open>-1\<close> for a number
  without handler), the process goes on behind the \<open>ecall\<close> with \<open>v\<close> in \<open>a0\<close> and every other integer and floating-point
  register as before but \<open>t0\<close>, which holds the address of the \<open>ecall\<close>. For numbers without handler, \<open>getpid\<close>, \<open>open\<close>,
  \<open>mkdir\<close>, \<open>chdir\<close>, \<open>dup\<close>, \<open>unlink\<close>, \<open>lseek\<close>, \<open>ftruncate\<close>, \<open>rename\<close> and \<open>fcntl\<close> it is enough that the process has
  not been killed and file objects without references have no type; for the others
  the handler must also have left the saved registers, the trapframe pointer and the current process alone, which the
  code does not ensure: \<open>exec\<close> replaces registers, and \<open>read\<close> from a pipe or the console and
  \<open>pipe\<close> write to any valid page. Calls that sleep or do not return are outside. The program must
  have 0 in \<open>tp\<close>, which the kernel takes as the number of the hart.
\<close>

theorem system_call_convention:
  fixes s :: "'a tst_scheme"
  assumes "myproc s = Some p" and "trapframe (procs s p) = tf" and "csrv s Sscratch = tf" and "aligned 8 tf"
    and "csrv s Scause = 8" and "ucast (xr r TP) = (0 :: u32)"
    and "ecall_entry (w_csr Stvec (sys_trap_vector s) (trap_entry r s)) = Some s0"
    and "num = sint (ucast (xr r A7) :: u32)" and "handler = (if 1 \<le> num \<and> num < 32 then syscalls num else None)"
    and "(case handler of Some h \<Rightarrow> h s0 | None \<Rightarrow> Some (Result (-1), s0)) = Some (Result v, s1)"
    and "if handler = None \<or> num \<in> quiet_calls then \<not> killed (procs s p) \<and> untyped s
      else myproc s1 = Some p \<and> trapframe (procs s1 p) = tf \<and> \<not> killed (procs s1 p) \<and> same_frame tf (pmem s0) (pmem s1)"
    and "satp = MAKE_SATP (pagetable (procs s1 p))"
  shows "argraw 0 s0 = Some (xr r A0) \<and> argraw 1 s0 = Some (xr r A1) \<and> argraw 2 s0 = Some (xr r A2) \<and>
    argraw 3 s0 = Some (xr r A3) \<and> argraw 4 s0 = Some (xr r A4) \<and> argraw 5 s0 = Some (xr r A5) \<and>
    (\<exists>s2. usertrap (trap_entry r s) = Some (ToUser tf satp, s2) \<and>
      (case trap_exit tf satp rk s2 of
         (r', u) \<Rightarrow> xr r' = (xr r)(T0 := csrv s Sepc, A0 := of_int v) \<and> (\<forall>i < 32. fr r' i = fr r i) \<and> fcsr r' = fcsr r \<and>
           csrv u Sepc = csrv s Sepc + 4 \<and> user_mode u tf satp))"
proof -
  note c = ecall_frame [OF assms(3,4,1,2,7)]
  have kept: "myproc s1 = Some p \<and> trapframe (procs s1 p) = tf \<and> \<not> killed (procs s1 p) \<and> same_frame tf (pmem s0) (pmem s1)"
  proof (cases "handler = None \<or> num \<in> quiet_calls")
    case True
    have "untyped s0"
    proof -
      have f: "ftable (x\<lparr>pmem := m\<rparr>) = ftable x" for x :: "'a tst_scheme" and m by simp
      have "ftable s0 = ftable s" using assms(7) by (auto simp: ecall_entry_def Let_def trap_entry_def elim!: bind_eq_SomeE)
      then show ?thesis using assms(11) True by (simp add: untyped_def)
    qed
    then have "mem_view s1 = mem_view s0" using True assms(10) quiet_call [of num _ s0 "Result v" s1]
      by (cases handler) (auto simp: assms(9) split: if_splits)
    from mem_viewD(1,2) [OF this] mem_viewD(3-5) [OF this, of p] show ?thesis using c(2,3) assms(2,11) True by (simp add: same_frame_def)
  next
    case False
    then show ?thesis using assms(11) by simp
  qed
  note call = assms(10) and ret = kept [THEN conjunct1] kept [THEN conjunct2, THEN conjunct1]
    kept [THEN conjunct2, THEN conjunct2, THEN conjunct1] kept [THEN conjunct2, THEN conjunct2, THEN conjunct2]
  have e: "hartid (trap_entry r s) = 0" "csrv (trap_entry r s) Scause = 8" by (rule entry_usertrap [OF assms(3,4,6,5)])+
  have reg: "load64 (pmem s0) (tf + tf_off x) = (if x = T0 then csrv s Sepc else xr r x)" for x
    using c(1) by (simp add: frame_holds_def)
  have "sint (ucast (load64 (pmem s0) (tf + tf_a7)) :: u32) = num"
    using reg [of A7] by (simp add: tf_a7_def assms(8))
  then have "syscall s0 = map_option (syscall_return p) (Some (Result v, s1))"
    unfolding call [symmetric] assms(9) using c(2,3) assms(2) by (simp add: syscall_def Let_def)
  then have sc: "syscall s0 = Some (Result v, s1\<lparr>pmem := store64 (pmem s1) (tf + 112) (of_int v)\<rparr>)" (is "_ = Some (_, ?u)")
    using ret(2) by (simp add: syscall_return_def tf_a0_def)
  have sv: "sys_trap_vector (trap_entry r s) = sys_trap_vector s" by (simp add: trap_entry_def Let_def)
  have ut: "usertrap (trap_entry r s) = usertrap_finish ?u"
    using e sc assms(7) by (simp add: usertrap_def Let_def hartid_def syscall_finish_def sv)
  have fh: "frame_holds tf (pmem ?u) (r\<lparr>xr := (xr r)(T0 := csrv s Sepc, A0 := of_int v)\<rparr>) (csrv s Sepc + 4)"
    using frame_holds_store(2) [OF frame_holds_same [OF c(1) ret(4)] assms(4), of "of_int v"] by simp
  have "myproc ?u = Some p" using ret(1) by (simp add: myproc_def)
  from back_to_user [OF fh assms(4) this, where rk = rk] ret(2,3) assms(12) ut
  have "\<exists>s2. usertrap (trap_entry r s) = Some (ToUser tf satp, s2) \<and>
      (case trap_exit tf satp rk s2 of
         (r', u) \<Rightarrow> xr r' = (xr r)(T0 := csrv s Sepc, A0 := of_int v) \<and> (\<forall>i < 32. fr r' i = fr r i) \<and> fcsr r' = fcsr r \<and>
           csrv u Sepc = csrv s Sepc + 4 \<and> user_mode u tf satp)" by simp
  moreover have "argraw 0 s0 = Some (xr r A0) \<and> argraw 1 s0 = Some (xr r A1) \<and> argraw 2 s0 = Some (xr r A2) \<and>
    argraw 3 s0 = Some (xr r A3) \<and> argraw 4 s0 = Some (xr r A4) \<and> argraw 5 s0 = Some (xr r A5)"
    using reg [of A0] reg [of A1] reg [of A2] reg [of A3] reg [of A4] reg [of A5] c(2,3) assms(2)
    by (simp add: argraw_def tf_a0_def add.commute)
  ultimately show ?thesis by blast
qed

theorem system_call_convention_witness:
  "\<exists>s2. usertrap (trap_entry tiny_regs (tiny_trap 8)) = Some (ToUser 0x80005000 (MAKE_SATP 0x80006000), s2) \<and>
     (case trap_exit 0x80005000 (MAKE_SATP 0x80006000) tiny_regs s2 of
        (r', u) \<Rightarrow> xr r' A0 = 1 \<and> xr r' T0 = 0x1000 \<and> xr r' S1 = 5 \<and> csrv u Sepc = 0x1004)"
proof -
  let ?s = "tiny_trap 8" and ?r = tiny_regs
  have t: "trapframe (procs ?s 0) = 0x80005000" "csrv ?s Sscratch = 0x80005000" "aligned 8 (0x80005000 :: u64)"
    "csrv ?s Scause = 8" "ucast (xr ?r TP) = (0 :: u32)"
    by (simp_all add: tiny_trap aligned_def tiny_regs_def)
  obtain s0 where s0: "ecall_entry (w_csr Stvec (sys_trap_vector ?s) (trap_entry ?r ?s)) = Some s0"
    by (simp add: ecall_entry_def Let_def trap_entry_frame(8,9) [OF t(2,3) refl] tiny_trap)
  note c = ecall_frame(2,3) [OF t(2,3) tiny_trap(1) t(1) s0]
  have q: "SYS_getpid = 11" "11 \<in> quiet_calls" by (simp_all add: quiet_calls_def kdefs)
  let ?h = "if 1 \<le> (11 :: int) \<and> (11 :: int) < 32 then syscalls 11 else None"
  have g: "(case ?h of Some h \<Rightarrow> h s0 | None \<Rightarrow> Some (Result (-1), s0)) = Some (Result 1, s0)"
    by (simp add: syscalls_def q(1) lift_result_def sys_getpid_def c tiny_trap)
  have p: "11 = sint (ucast (xr ?r A7) :: u32)" "MAKE_SATP 0x80006000 = MAKE_SATP (pagetable (procs s0 0))"
    "\<not> killed (procs ?s 0)" by (simp_all add: c tiny_trap zero_proc_def tiny_regs_def)
  have u: "untyped ?s"
    by (simp add: untyped_def tiny_trap_def vst.defs tiny_disk_run_def) (simp add: tiny_disk_def kst.defs tiny_cons_def fs_st.defs)
  obtain s2 where "usertrap (trap_entry ?r ?s) = Some (ToUser 0x80005000 (MAKE_SATP 0x80006000), s2)"
    "case trap_exit 0x80005000 (MAKE_SATP 0x80006000) ?r s2 of
       (r', u) \<Rightarrow> xr r' = (xr ?r)(T0 := csrv ?s Sepc, A0 := of_int 1) \<and> csrv u Sepc = csrv ?s Sepc + 4"
    using system_call_convention [OF tiny_trap(1) t s0 p(1) refl g _ p(2), of ?r] p(3) q(2) u by auto
  then show ?thesis by (intro exI [of _ s2]) (auto simp: tiny_trap tiny_regs_def)
qed

end
