(* ===== verification/Spec2Isabelle.thy ===== *)
theory Spec2Isabelle
  imports Boot_Inv Namei Malloc User_String Bcache_Async Call_Frame
begin

text \<open>
  Verification of the MyOS kernel: a one-processor RISC-V (Sv39) kernel in C and assembly with
  processes, a pre-emptive scheduler, paged virtual memory, a disk file system, pipes, a console
  and about thirty system calls. The model covers the kernel, \<open>src/kernel/\<close>, from
  \<open>start\<close> in machine mode to the return to user mode, function by function, and the allocator
  of the user programs, \<open>src/user/malloc.c\<close>.

  \<^bold>\<open>How the model reads.\<close> The state of the kernel is one record that grows with the components:
  \<open>mem_st\<close> (bytes of physical memory, free list), \<open>proc_st\<close> (processes, the CPU record, locks),
  \<open>blk_st\<close> (disk blocks, buffer cache, superblock), \<open>fs_st\<close> (inode cache), \<open>kst\<close> (file table,
  console), \<open>vst\<close> (disk driver), \<open>tst\<close> (control registers, interrupt controller, UART),
  \<open>bst\<close> (what boot sets up). A routine takes the state and returns the result with the new
  state; the value \<^term>\<open>None\<close> of the option monad stands for a panic, for a loop that does not
  end, and for code that leaves C (an index out of range, a null pointer that is followed). A
  result code -1 is a value, not \<^term>\<open>None\<close>. A pointer into a static table is the index; a
  pointer into memory is a 64-bit word with 0 for NULL; integers have their C width. A routine
  that leaves the processor is split where it calls \<open>sched\<close>: \<open>sleep_out\<close> and
  \<open>yield_out\<close> are its part before \<open>swtch\<close>, \<open>sleep_in\<close> and \<open>yield_in\<close> the part after, and a
  system call that blocks returns the continuation (\<open>Blocked\<close> with a value of \<open>cont\<close>) with which
  \<open>syscall_resume\<close> goes on.

  \<^bold>\<open>Theories and the code they model.\<close>
  \<^item> \<open>Prelude\<close>: loops with an early exit, lists updated in the middle, little-endian words,
    alignment; the collections of simplification rules.
  \<^item> \<open>Mem\<close>: \<open>memlayout.h\<close>, the paging macros of \<open>riscv.h\<close>, memory as a map from addresses to
    bytes, \<open>memset\<close>, \<open>memmove\<close>.
  \<^item> \<open>Kalloc\<close>: \<open>mm/kalloc.c\<close>; the free list is threaded through the free pages. The locale
    \<open>page_allocator\<close> states what a client of the allocator needs.
  \<^item> \<open>Vm\<close>, \<open>Page_Table\<close>, \<open>Address_Space\<close>: \<open>mm/vm.c\<close>; \<open>translate\<close> is the hardware's walk of a
    three-level table, \<open>pt_ok\<close> says that the tables of a tree are distinct pages.
  \<^item> \<open>Spinlock\<close>: \<open>proc/spinlock.c\<close>, the structures of \<open>proc.h\<close>.
  \<^item> \<open>Bcache\<close>: the buffer cache of \<open>fs/bio.c\<close> on its doubly linked ring, against an abstract
    least-recently-used list, with transfers that are done at once. \<open>Bcache_Async\<close>: the same cache while
    transfers are in progress; the synchronous state behind each of its states is one of \<open>Bcache\<close>.
    \<open>Balloc\<close>: the block bitmap of the same file.
  \<^item> \<open>Inode\<close>, \<open>File_Map\<close>, \<open>File_Content\<close>, \<open>File_Write\<close>: the inodes of \<open>fs/fs.c\<close>; \<open>slot\<close> and
    \<open>content\<close> are the abstract block map and the bytes of a file.
  \<^item> \<open>Dir\<close>: directories and path lookup of \<open>fs/fs.c\<close>; \<open>Namei\<close> relates the lookup to the tree of
    directories on the disk. \<open>Path\<close>: the working-directory
    strings of \<open>syscall/sysproc.c\<close>. \<open>Sysargs\<close>, \<open>User_String\<close>: argument fetching of \<open>syscall/syscall.c\<close>
    and what it reads in terms of the hardware's translation.
  \<^item> \<open>Sched\<close>: \<open>proc/proc.c\<close>, \<open>sleep\<close> and the exit of a process; \<open>sched_step\<close> is a step relation for the
    interleavings of their halves, made for the proofs and not part of the code.
  \<^item> \<open>Pipe\<close>: the pipes of \<open>syscall/sysfile.c\<close>, in their physical page. \<open>Console\<close>:
    \<open>driver/console.c\<close>, \<open>driver/uart.c\<close>.
  \<^item> \<open>File\<close>: \<open>fs/file.c\<close>. \<open>Syscall_File\<close>, \<open>Syscall_Proc\<close>, \<open>Exec\<close>: every handler of
    \<open>syscall/sysfile.c\<close> and \<open>syscall/sysproc.c\<close>. \<open>Syscall\<close>: the dispatcher.
    \<open>Frame\<close>, \<open>Descriptor_Inv\<close>, \<open>Run_Inv\<close>: what each of them leaves alone, the invariant of the file
    table that all of them keep, and which processes they may make run.
  \<^item> \<open>Virtio\<close>: \<open>driver/virtio_disk.c\<close> with \<open>virtio.h\<close>. The device is a parameter; it serves a request only if the
    chain has the form the VirtIO specification asks for (\<open>request_form\<close>).
  \<^item> \<open>Asm\<close>: \<open>trampoline.S\<close>, \<open>userret.S\<close>, \<open>kernelvec.S\<close>, \<open>timervec.S\<close>, \<open>swtch.S\<close>, one list element for each
    instruction. \<open>Trap\<close>: \<open>trap/trap.c\<close>, \<open>trap/plic.c\<close>; a trap is composed of the entry code,
    \<open>usertrap\<close> and the exit code. \<open>Call_Frame\<close>: the system calls that write no memory, and the calling convention.
  \<^item> \<open>Boot\<close>: \<open>boot/start.c\<close>, \<open>boot/main.c\<close>, \<open>userinit\<close>. \<open>User_Space\<close>, \<open>Init_Process\<close>, \<open>Boot_Inv\<close>: the
    address space \<open>userinit\<close> builds, the first process, and the whole way from power on to its first instruction.
  \<^item> \<open>System\<close>: the kernel as one transition system, \<open>sys_step\<close>, composed of the definitions of the code.
  \<^item> \<open>Malloc\<close>: \<open>user/malloc.c\<close>, the free list with headers in the memory of the program.

  \<^bold>\<open>What the lemmas show.\<close> The properties of the manifest carry the labels C1 to Cn in the
  texts in front of them. In groups:
  \<^item> the whole kernel: reference counts are exact and at most one process runs, in every state that
    \<open>sys_step\<close> reaches; boot ends in user mode with exactly the first program in its address space;
  \<^item> memory: the allocator never hands out a page twice, \<open>kinit\<close> frees every page;
    \<open>mappages\<close> maps exactly the requested range, and \<open>kvmininit\<close> maps the devices and all memory
    at their own addresses and nothing else;
  \<^item> storage: the ring refines the abstract cache, \<open>bread\<close> delivers the block's contents unless another
    process is still reading it in, \<open>balloc\<close> takes the lowest free block, \<open>writei\<close> writes what \<open>readi\<close> reads
    back, an inode survives the round trip over the disk, a directory entry is found after it is
    linked, and path lookup follows the tree on the disk;
  \<^item> processes: at most one process is running and the scheduler can always go on, under every
    interleaving of its steps; the one check of \<open>sched\<close> that trips is that of an exit that has slept;
    \<open>allocproc\<close> gives fresh ids; \<open>wakeup\<close> wakes exactly the sleepers of its channel;
  \<^item> communication: pipes and the console are bounded queues;
  \<^item> system calls: the reference count of every open file is exact before and after every system
    call, whatever its outcome; a string argument is exactly what the program can read at its address;
  \<^item> the disk driver implements the contract \<open>disk_rw\<close> that the file-system theories use, and a
    process that waits for the disk is woken by the completion interrupt and returns;
  \<^item> traps: an interrupt of kernel code restores every integer register, a context switch and back
    restores the callee-saved ones, a system call that writes no memory keeps every user register but \<open>a0\<close> and \<open>t0\<close>, and
    a pre-emption changes only \<open>t0\<close>;
  \<^item> the user allocator: \<open>malloc\<close> returns unused memory and \<open>free\<close> merges what it gives back.
  Where the code does something else than it means to, the theorem states what it does (a
  process that sleeps while it exits panics the kernel; a \<open>pipe\<close> call without a free descriptor
  never returns; a name of 14 bytes is linked and never found; an interrupt inside \<open>filealloc\<close> breaks the reference
  counts; \<open>bread\<close> may return a buffer that is still being read in).

  \<^bold>\<open>Interfaces.\<close> Five locales state what one component relies on in another; each is
  interpreted on the definitions of the model: \<open>page_allocator\<close> on \<open>kalloc\<close> and \<open>kfree\<close>,
  \<open>buffer_cache\<close> on \<open>bread\<close>, \<open>bwrite\<close> and \<open>brelse\<close>, \<open>block_allocator\<close> on \<open>balloc\<close> and \<open>bfree\<close>,
  \<open>fifo\<close> on the ring of a pipe and again on the ring of the console, \<open>fd_table\<close> on the file table.

  \<^bold>\<open>Loops.\<close> Loops over a fixed range are folds or recursion on a list; a loop that may run for
  ever (a scan of the ring, \<open>dirlookup\<close>, the gap filling of \<open>writei\<close> and \<open>ftruncate\<close>,
  \<open>strlen\<close>, the polling of the disk) is a \<open>partial_function (option)\<close>, so that not ending is
  \<^term>\<open>None\<close>; the theorems about them state that they return. There is
  no fuel in the model.

  \<^bold>\<open>Assumptions and what is not modelled.\<close>
  \<^item> There is one hart, and its number is 0 (\<open>NCPU\<close> in \<open>param.h\<close>); a lock that is taken is never
    released by another processor, so \<open>acquire\<close> of a taken lock does not return.
  \<^item> In the file-system theories a disk transfer is the synchronous contract \<open>disk_rw\<close>;
    \<open>Virtio\<close> shows that the driver meets it, and \<open>Bcache_Async\<close> what the cache does while transfers are in progress.
  \<^item> A system-call handler is one step from its entry to its
    return or to the point where it blocks on a pipe, the console, a child or the clock. In \<open>System\<close> the timer may take the
    hart from a program and from \<open>usertrap\<close> before and behind the handler; interrupts in the middle of a
    handler, which the code allows, are left out, and \<open>filealloc_race\<close> shows that they matter.
  \<^item> \<open>pid\<close> and \<open>nextpid\<close>, the nesting depth \<open>noff\<close> and the reference counts of inodes and files are unbounded integers, where C has
    \<open>int\<close> (whose overflow is undefined); the loop indices of \<open>balloc\<close> are natural numbers, which differ only for a
    disk of \<open>2 ^ 31\<close> blocks or more. \<open>itrunc\<close> frees the blocks of a copy of the index block.
  \<^item> The kernel code saves no floating-point registers on an interrupt in kernel mode, and the model has none there.
  \<^item> The assembly runs on identity-mapped memory. \<open>entry.S\<close> (the boot stack) and the linker scripts
    are not modelled; addresses the linker chooses are parameters of the state.
  \<^item> The VirtIO device and the linked first program are parameters: the device by the order of
    its rings as the VirtIO specification documents it.
  \<^item> \<open>sbrk\<close> is a parameter of \<open>Malloc\<close>, with a contract (\<open>sbrk_ok\<close>) that \<open>sys_sbrk\<close> is meant to meet.
  \<^item> The user programs under \<open>src/user\<close> (but \<open>malloc.c\<close>) and \<open>src/userland\<close>, the C library and the ports under
    \<open>src/ports\<close> (TinyCC, neatvi, kilo, the C++ runtime), the disk-image tool and the tests are not
    part of the kernel and are left out.
\<close>

end
